(* ===== verification/Prelude.thy ===== *)
theory Prelude
  imports Main "HOL-Library.Word" "HOL-Library.AList" "HOL-Library.Multiset"
begin

text \<open>
  Shared vocabulary of the development. The fixed-width integers of
  \<^verbatim>\<open>src/domain/Types.hpp\<close> are words; a \<^verbatim>\<open>std::unordered_map\<close> is an
  association list with distinct keys (its iteration order is the order of the list, and no
  property of the development depends on it); a \<^verbatim>\<open>std::map\<close> is an association list kept
  sorted by the comparator of the map (theory \<open>OrderedMap\<close>).
  The generic lemmas on association lists, the volume that a list of orders adds up to, and
  two small locales for runs of state machines are here, so that the component theories only
  have to supply the facts of a single step.
\<close>

type_synonym u64 = "64 word"
type_synonym u32 = "32 word"
type_synonym ('k, 'v) umap = "('k \<times> 'v) list"

text \<open>The exceptions the program throws, with their messages; a call returns \<open>Inl\<close> of one.\<close>

datatype exn = invalid_argument string | runtime_error string | logic_error string | out_of_range string

named_theorems model_defs \<open>definitions of small helpers that proofs unfold\<close>
named_theorems inv_intros \<open>preservation lemmas of the component invariants\<close>

section \<open>Unsigned 64-bit values\<close>

text \<open>The number of 64-bit values, kept opaque so that arithmetic stays symbolic.\<close>

definition two64 :: nat where
  "two64 = 2 ^ 64"

lemma two64_pos [simp]: "0 < two64"
  by (simp add: two64_def)

lemma unat_u64_less [simp]: "unat (w :: u64) < two64"
  using unsigned_less [of w, where ?'a = nat] by (simp add: two64_def)

lemma unat_add_u64: "unat a + unat b < two64 \<Longrightarrow> unat (a + b :: u64) = unat a + unat b"
  by (simp add: unat_word_ariths two64_def)

lemma unat_diff_u64: "b \<le> a \<Longrightarrow> unat (a - b :: u64) = unat a - unat b"
  by (simp add: unat_sub)

lemma u64_pos_iff: "0 < (w :: u64) \<longleftrightarrow> w \<noteq> 0"
  using word_gt_0 by blast

lemma unat_pos_u64: "0 < (w :: u64) \<Longrightarrow> 0 < unat w"
  by (simp add: unat_gt_0 u64_pos_iff)

lemma unat_of_nat_u64: "n < two64 \<Longrightarrow> unat (of_nat n :: u64) = n"
  by (simp add: unat_of_nat two64_def)

lemma of_nat_volume: "unat a = n \<Longrightarrow> (a :: u64) = of_nat n"
  by auto

lemma unat_minus_one_u64: "unat (- 1 :: u64) = two64 - 1"
proof -
  have "(- 1 :: u64) = of_nat (two64 - 1)" by (simp add: two64_def)
  then show ?thesis by (simp add: unat_of_nat_u64 del: of_nat_diff)
qed

lemma unat_suc_u64:
  assumes "(n :: u64) \<noteq> - 1" shows "unat (n + 1) = Suc (unat n)"
proof -
  have "unat n \<noteq> two64 - 1" using assms unat_minus_one_u64 by (metis word_unat_eq_iff)
  moreover have "unat n < two64" by (rule unat_u64_less)
  ultimately have "unat n + unat (1 :: u64) < two64" by (simp del: unat_u64_less)
  then show ?thesis by (simp add: unat_add_u64 del: unat_u64_less)
qed

lemma less_suc_u64: "(n :: u64) \<noteq> - 1 \<Longrightarrow> k \<le> n \<Longrightarrow> k < n + 1"
  by (simp add: word_less_nat_alt word_le_nat_alt unat_suc_u64 del: unat_u64_less)

section \<open>Association lists with distinct keys\<close>

abbreviation keys :: "('k \<times> 'v) list \<Rightarrow> 'k list" where
  "keys m \<equiv> map fst m"

lemma option_eqI: "(\<And>x. a = Some x \<longleftrightarrow> b = Some x) \<Longrightarrow> a = b"
  by (cases a; cases b) auto

lemma delete_notin: "map_of m k = None \<Longrightarrow> AList.delete k m = m"
  by (induction m) (auto split: if_splits)

lemma distinct_keys_delete: "distinct (keys m) \<Longrightarrow> distinct (keys (AList.delete k m))"
  by (rule AList.distinct_delete)

lemma distinct_keys_update: "distinct (keys m) \<Longrightarrow> distinct (keys (AList.update k v m))"
  by (rule AList.distinct_update)

lemma map_of_delete_apply [simp]:
  "map_of (AList.delete k m) k' = (if k' = k then None else map_of m k')"
  by (auto simp: AList.delete_conv')

lemma map_of_update_apply [simp]:
  "map_of (AList.update k v m) k' = (if k' = k then Some v else map_of m k')"
  by (simp add: AList.update_conv')

lemma set_delete_subset: "set (AList.delete k m) \<subseteq> set m"
  by (auto simp: AList.delete_eq)

lemma set_update:
  "distinct (keys m) \<Longrightarrow> set (AList.update k v m) = insert (k, v) (set (AList.delete k m))"
proof (induction m)
  case (Cons e m)
  then show ?case
    by (cases "fst e = k") (auto simp: delete_notin map_of_eq_None_iff)
qed simp

lemma map_of_filter_key:
  "distinct (keys m) \<Longrightarrow>
   map_of (filter (\<lambda>(k, v). P k v) m) k =
     (case map_of m k of None \<Rightarrow> None | Some v \<Rightarrow> if P k v then Some v else None)"
  by (induction m) (auto simp: map_of_eq_None_iff image_iff split: option.splits)

lemma distinct_keys_filter: "distinct (keys m) \<Longrightarrow> distinct (keys (filter P m))"
  by (induction m) auto

section \<open>The volume a list of orders adds up to\<close>

text \<open>
  The level maps of every book aggregate the orders of an \<^verbatim>\<open>std::unordered_map\<close>. \<open>vol P sz m\<close>
  is the mathematical (unbounded) sum of the sizes of the orders that satisfy \<open>P\<close>; the
  books store the same quantity in 64 bits.
\<close>

definition vol :: "('o \<Rightarrow> bool) \<Rightarrow> ('o \<Rightarrow> u64) \<Rightarrow> ('k, 'o) umap \<Rightarrow> nat" where
  "vol P sz m = (\<Sum>e\<leftarrow>m. if P (snd e) then unat (sz (snd e)) else 0)"

lemma vol_Nil [simp]: "vol P sz [] = 0"
  by (simp add: vol_def)

lemma vol_Cons [simp]:
  "vol P sz (e # m) = (if P (snd e) then unat (sz (snd e)) else 0) + vol P sz m"
  by (simp add: vol_def)

lemma vol_delete:
  assumes "distinct (keys m)" and "map_of m k = Some x"
  shows "vol P sz m = vol P sz (AList.delete k m) + (if P x then unat (sz x) else 0)"
  using assms
proof (induction m)
  case Nil
  then show ?case by simp
next
  case (Cons e m)
  show ?case
  proof (cases "fst e = k")
    case True
    with Cons.prems have "map_of m k = None"
      by (auto simp: map_of_eq_None_iff)
    with True Cons.prems show ?thesis
      by (simp add: delete_notin)
  next
    case False
    with Cons show ?thesis by auto
  qed
qed

lemma vol_delete_le: "vol P sz (AList.delete k m) \<le> vol P sz m"
  by (induction m) auto

lemma vol_update:
  "distinct (keys m) \<Longrightarrow>
   vol P sz (AList.update k x m) =
     vol P sz (AList.delete k m) + (if P x then unat (sz x) else 0)"
  by (induction m) (auto simp: delete_notin map_of_eq_None_iff)

lemma vol_le_total: "vol P sz m \<le> vol (\<lambda>_. True) sz m"
  by (induction m) auto

lemma vol_filter_out:
  "vol P sz (filter (\<lambda>e. \<not> Q (snd e)) m) = vol (\<lambda>x. P x \<and> \<not> Q x) sz m"
  by (induction m) auto

lemma vol_cong:
  assumes "\<And>k x. (k, x) \<in> set m \<Longrightarrow> P x = Q x"
  shows "vol P sz m = vol Q sz m"
  unfolding vol_def by (rule arg_cong [where f = sum_list], rule map_cong) (use assms in auto)

lemma vol_eq_0_iff:
  "vol P sz m = 0 \<longleftrightarrow> (\<forall>(k, x) \<in> set m. P x \<longrightarrow> sz x = 0)"
  by (induction m) (auto simp: unat_eq_zero)

text \<open>The same sum over the keys of the map, whatever the iteration order.\<close>

lemma vol_as_key_sum:
  assumes "distinct (keys m)"
  shows "vol P sz m = (\<Sum>k | \<exists>x. map_of m k = Some x \<and> P x. unat (sz (the (map_of m k))))"
  using assms
proof (induction m)
  case Nil
  then show ?case by simp
next
  case (Cons e m)
  let ?K = "{k. \<exists>x. map_of m k = Some x \<and> P x}"
  have fin: "finite ?K"
    by (rule finite_subset [OF _ finite_dom_map_of [of m]]) auto
  have notin: "map_of m (fst e) = None"
    using Cons.prems by (auto simp: map_of_eq_None_iff)
  then have K: "{k. \<exists>x. map_of (e # m) k = Some x \<and> P x} = (if P (snd e) then insert (fst e) ?K else ?K)"
    by auto
  have "(\<Sum>k\<in>?K. unat (sz (the (map_of (e # m) k)))) = (\<Sum>k\<in>?K. unat (sz (the (map_of m k))))"
    using notin by (intro sum.cong) auto
  moreover have "fst e \<notin> ?K" using notin by auto
  ultimately show ?case
    using Cons fin unfolding K by (auto simp: sum.insert simp del: map_of_eq_Some_iff)
qed

section \<open>Runs of deterministic machines\<close>

text \<open>
  A component is a state and a step function. If every guarded step keeps an invariant, a run
  whose guards hold along the way keeps it as well. The locale is interpreted for the books,
  the gateway server and the publisher.
\<close>

fun guarded_run :: "('s \<Rightarrow> 'e \<Rightarrow> 's) \<Rightarrow> ('s \<Rightarrow> 'e \<Rightarrow> bool) \<Rightarrow> 's \<Rightarrow> 'e list \<Rightarrow> bool" where
  "guarded_run step guard s [] = True"
| "guarded_run step guard s (e # es) = (guard s e \<and> guarded_run step guard (step s e) es)"

locale guarded_machine =
  fixes step :: "'s \<Rightarrow> 'e \<Rightarrow> 's"
    and guard :: "'s \<Rightarrow> 'e \<Rightarrow> bool"
    and inv :: "'s \<Rightarrow> bool"
  assumes step_inv: "inv s \<Longrightarrow> guard s e \<Longrightarrow> inv (step s e)"
begin

lemma run_inv: "inv s \<Longrightarrow> guarded_run step guard s es \<Longrightarrow> inv (foldl step s es)"
  by (induction es arbitrary: s) (auto intro: step_inv)

lemma run_inv_every_prefix:
  assumes "inv s" and "guarded_run step guard s (xs @ ys)"
  shows "inv (foldl step s xs)"
  using assms by (induction xs arbitrary: s) (auto intro: step_inv)

end

text \<open>
  A budgeted machine: the guard is the room left in a resource (here the 64 bits of a level
  volume), every step uses up at most \<open>cost\<close> of it. A run whose total cost fits is guarded.
\<close>

locale budgeted_machine = guarded_machine step guard inv
  for step :: "'s \<Rightarrow> 'e \<Rightarrow> 's" and guard and inv +
  fixes used :: "'s \<Rightarrow> nat" and cost :: "'e \<Rightarrow> nat" and limit :: nat
  assumes within_budget: "inv s \<Longrightarrow> used s + cost e < limit \<Longrightarrow> guard s e"
    and used_step: "inv s \<Longrightarrow> guard s e \<Longrightarrow> used (step s e) \<le> used s + cost e"
begin

lemma budget_guards:
  "inv s \<Longrightarrow> used s + sum_list (map cost es) < limit \<Longrightarrow> guarded_run step guard s es"
proof (induction es arbitrary: s)
  case Nil
  then show ?case by simp
next
  case (Cons e es)
  then have g: "guard s e" by (intro within_budget) auto
  with Cons.prems have "used (step s e) + sum_list (map cost es) < limit"
    using used_step [of s e] by simp
  with Cons g show ?case by (auto intro: step_inv)
qed

lemma budget_used:
  "inv s \<Longrightarrow> used s + sum_list (map cost es) < limit \<Longrightarrow>
   used (foldl step s es) \<le> used s + sum_list (map cost es)"
proof (induction es arbitrary: s)
  case (Cons e es)
  then have g: "guard s e" by (intro within_budget) auto
  with Cons.prems have le: "used (step s e) \<le> used s + cost e" by (intro used_step)
  with Cons.prems g have "used (foldl step (step s e) es) \<le> used (step s e) + sum_list (map cost es)"
    by (intro Cons.IH step_inv) auto
  with le show ?case by simp
qed simp

lemma budget_run_inv:
  "inv s \<Longrightarrow> used s + sum_list (map cost es) < limit \<Longrightarrow> inv (foldl step s es)"
  by (rule run_inv) (auto intro: budget_guards)

end

section \<open>Callbacks\<close>

text \<open>
  A callback works on a state \<open>'w\<close> of its owner and may throw; what it did before stays done. Called for a
  list of messages in order, the first exception ends the loop: its message has been taken, the ones
  after it are left.
\<close>

type_synonym ('m, 'w) callback = "'m \<Rightarrow> 'w \<Rightarrow> exn option \<times> 'w"

fun call_all :: "('m, 'w) callback \<Rightarrow> 'm list \<Rightarrow> 'w \<Rightarrow> exn option \<times> 'w \<times> 'm list" where
  "call_all cb [] w = (None, w, [])"
| "call_all cb (m # ms) w =
     (case cb m w of
        (None, w') \<Rightarrow> call_all cb ms w'
      | (Some x, w') \<Rightarrow> (Some x, w', ms))"

text \<open>The value a loop of calls returns: the count, unless an exception leaves it.\<close>

fun counted :: "exn option \<Rightarrow> 'n \<Rightarrow> exn + 'n" where
  "counted None n = Inr n"
| "counted (Some x) n = Inl x"

lemma call_all_suffix:
  "call_all cb ms w = (x, w', rest) \<Longrightarrow> \<exists>taken. ms = taken @ rest \<and> (x = None \<longrightarrow> rest = []) \<and> (x \<noteq> None \<longrightarrow> taken \<noteq> [])"
proof (induction ms arbitrary: w)
  case (Cons m ms)
  then show ?case by (cases "cb m w"; cases "fst (cb m w)") (fastforce intro: exI [of _ "m # _"])+
qed simp

lemma call_all_total:
  "(\<And>m w. cb m w = (None, f m w)) \<Longrightarrow> call_all cb ms w = (None, foldl (\<lambda>w m. f m w) w ms, [])"
  by (induction ms arbitrary: w) auto

end
