(* ===== verification/Domain.thy ===== *)
theory Domain
  imports Prelude
begin

text \<open>
  The domain types of \<^verbatim>\<open>src/domain/Types.hpp\<close> and \<^verbatim>\<open>src/domain/MarketDataEvent.{hpp,cpp}\<close>.
  A \<^verbatim>\<open>std::int64_t\<close> (prices, nanosecond timestamps) is the datatype \<open>int64\<close>: 64 bits read
  as two's complement, ordered by their signed value. Identifiers, quantities, raw timestamps
  and counters are unsigned words.
\<close>

section \<open>Signed 64-bit integers\<close>

datatype int64 = Int64 (bits64: u64)

definition i64 :: "int \<Rightarrow> int64" where
  "i64 n = Int64 (word_of_int n)"

definition val64 :: "int64 \<Rightarrow> int" where
  "val64 x = sint (bits64 x)"

lemma val64_inject: "val64 x = val64 y \<longleftrightarrow> x = y"
  by (cases x; cases y) (auto simp: val64_def intro: signed_word_eqI)

lemma val64_range: "- (2 ^ 63) \<le> val64 x" "val64 x < 2 ^ 63"
  using sint_ge [of "bits64 x"] sint_lt [of "bits64 x"] by (simp_all add: val64_def)

lemma val64_i64: "- (2 ^ 63) \<le> n \<Longrightarrow> n < 2 ^ 63 \<Longrightarrow> val64 (i64 n) = n"
  by (simp add: val64_def i64_def signed_of_int signed_take_bit_int_eq_self)

instantiation int64 :: linorder
begin

definition less_eq_int64 :: "int64 \<Rightarrow> int64 \<Rightarrow> bool" where
  "x \<le> y \<longleftrightarrow> val64 x \<le> val64 y"

definition less_int64 :: "int64 \<Rightarrow> int64 \<Rightarrow> bool" where
  "x < y \<longleftrightarrow> val64 x < val64 y"

instance
  by standard (auto simp: less_eq_int64_def less_int64_def val64_inject)

end

lemma inj_bits64: "inj bits64"
  by (auto intro!: injI int64.expand)

instance int64 :: finite
  by standard (rule finite_imageD [OF finite_subset [OF subset_UNIV finite] inj_on_subset [OF inj_bits64 subset_UNIV]])

lemma card_int64: "card (UNIV :: int64 set) = two64"
proof -
  have "bij bits64"
    by (rule bijI [OF inj_bits64]) (metis int64.sel surjI)
  then have "card (UNIV :: int64 set) = card (UNIV :: u64 set)"
    by (rule bij_betw_same_card)
  then show ?thesis by (simp add: card_word two64_def)
qed

type_synonym price = int64
type_synonym timestamp_ns = int64
type_synonym quantity = u64
type_synonym instrument_id = u64
type_synonym order_id = u64
type_synonym raw_timestamp = u64
type_synonym seq_no = u64
type_synonym trading_engine_id = u32

section \<open>Constants and enumerations of Types.hpp\<close>

definition price_scale :: int where
  "price_scale = 1000000000"

definition undefined_price :: price where
  "undefined_price = i64 (2 ^ 63 - 1)"

definition raw_undefined_timestamp :: raw_timestamp where
  "raw_undefined_timestamp = - 1"

definition undefined_timestamp :: timestamp_ns where
  "undefined_timestamp = i64 (- (2 ^ 63))"

definition invalid_trading_engine_id :: trading_engine_id where
  "invalid_trading_engine_id = - 1"

datatype Side = Ask | Bid | SideNone

datatype Action = Add | Modify | Cancel | Clear | Trade | Fill | ActionNone

datatype OrderStatus =
  New | Accepted | ModifyRequested | CancelRequested
| PartiallyFilled | Filled | Cancelled | Rejected

definition isDefinedPrice :: "price \<Rightarrow> bool" where
  "isDefinedPrice p \<longleftrightarrow> p \<noteq> undefined_price"

definition isDefinedTimestamp :: "timestamp_ns \<Rightarrow> bool" where
  "isDefinedTimestamp t \<longleftrightarrow> t \<noteq> undefined_timestamp"

definition isValidTradingEngineId :: "trading_engine_id \<Rightarrow> bool" where
  "isValidTradingEngineId i \<longleftrightarrow> i \<noteq> invalid_trading_engine_id"

section \<open>MarketDataEvent\<close>

record MarketDataEvent =
  ev_timestamp :: raw_timestamp
  ev_ts_recv :: raw_timestamp
  ev_ts_event :: raw_timestamp
  ev_order_id :: order_id
  ev_side :: Side
  ev_price :: price
  ev_size :: quantity
  ev_action :: Action
  ev_instrument_id :: instrument_id
  ev_source_file_id :: u32
  ev_source_sequence :: u64
  ev_line_number :: u64

text \<open>The default member initialisers of the struct.\<close>

definition default_event :: MarketDataEvent where
  "default_event =
     \<lparr>ev_timestamp = 0, ev_ts_recv = 0, ev_ts_event = 0, ev_order_id = 0, ev_side = SideNone,
      ev_price = i64 0, ev_size = 0, ev_action = ActionNone, ev_instrument_id = 0,
      ev_source_file_id = 0, ev_source_sequence = 0, ev_line_number = 0\<rparr>"

text \<open>A short way to write events down: every other field has its default.\<close>

definition event :: "Action \<Rightarrow> u64 \<Rightarrow> Side \<Rightarrow> int \<Rightarrow> u64 \<Rightarrow> u64 \<Rightarrow> MarketDataEvent" where
  "event act oid sd p sz inst =
     default_event\<lparr>ev_action := act, ev_order_id := oid, ev_side := sd, ev_price := i64 p,
       ev_size := sz, ev_instrument_id := inst\<rparr>"

fun toChar_Side :: "Side \<Rightarrow> char" where
  "toChar_Side Ask = CHR ''A''"
| "toChar_Side Bid = CHR ''B''"
| "toChar_Side SideNone = CHR ''N''"

fun toChar_Action :: "Action \<Rightarrow> char" where
  "toChar_Action Add = CHR ''A''"
| "toChar_Action Modify = CHR ''M''"
| "toChar_Action Cancel = CHR ''C''"
| "toChar_Action Clear = CHR ''R''"
| "toChar_Action Trade = CHR ''T''"
| "toChar_Action Fill = CHR ''F''"
| "toChar_Action ActionNone = CHR ''N''"

fun sideName :: "Side \<Rightarrow> string" where
  "sideName Ask = ''Ask''"
| "sideName Bid = ''Bid''"
| "sideName SideNone = ''None''"

fun actionName :: "Action \<Rightarrow> string" where
  "actionName Add = ''Add''"
| "actionName Modify = ''Modify''"
| "actionName Cancel = ''Cancel''"
| "actionName Clear = ''Clear''"
| "actionName Trade = ''Trade''"
| "actionName Fill = ''Fill''"
| "actionName ActionNone = ''None''"

text \<open>\<^verbatim>\<open>std::tie(...) < std::tie(...)\<close>: lexicographic on timestamp, file and sequence.\<close>

definition eventComesBefore :: "MarketDataEvent \<Rightarrow> MarketDataEvent \<Rightarrow> bool" where
  "eventComesBefore lhs rhs \<longleftrightarrow>
     ev_timestamp lhs < ev_timestamp rhs \<or>
     \<not> ev_timestamp rhs < ev_timestamp lhs \<and>
       (ev_source_file_id lhs < ev_source_file_id rhs \<or>
        \<not> ev_source_file_id rhs < ev_source_file_id lhs \<and>
          ev_source_sequence lhs < ev_source_sequence rhs)"

abbreviation event_key :: "MarketDataEvent \<Rightarrow> u64 \<times> u32 \<times> u64" where
  "event_key e \<equiv> (ev_timestamp e, ev_source_file_id e, ev_source_sequence e)"

text \<open>
  The validity tests that \<^verbatim>\<open>LimitOrderBook.cpp\<close>, \<^verbatim>\<open>BookManager.cpp\<close>,
  \<^verbatim>\<open>HistoricalLOB.cpp\<close> and \<^verbatim>\<open>ShardedLobMarketDataEventProcessor.cpp\<close> each repeat in an
  anonymous namespace.
\<close>

definition hasValidSide :: "Side \<Rightarrow> bool" where
  "hasValidSide s \<longleftrightarrow> s = Bid \<or> s = Ask"

definition hasValidPrice :: "price \<Rightarrow> bool" where
  "hasValidPrice p \<longleftrightarrow> p \<noteq> i64 (2 ^ 63 - 1)"

definition hasValidRestingState :: "MarketDataEvent \<Rightarrow> bool" where
  "hasValidRestingState e \<longleftrightarrow>
     ev_order_id e \<noteq> 0 \<and> hasValidSide (ev_side e) \<and> hasValidPrice (ev_price e) \<and> 0 < ev_size e"

lemmas valid_defs = hasValidRestingState_def hasValidSide_def hasValidPrice_def

lemma hasValidPrice_iff_defined: "hasValidPrice p = isDefinedPrice p"
  by (simp add: hasValidPrice_def isDefinedPrice_def undefined_price_def)

section \<open>The chronological order\<close>

lemma eventComesBefore_irrefl [simp]: "\<not> eventComesBefore e e"
  by (simp add: eventComesBefore_def)

lemma eventComesBefore_trans:
  "eventComesBefore a b \<Longrightarrow> eventComesBefore b c \<Longrightarrow> eventComesBefore a c"
  by (auto simp: eventComesBefore_def)

lemma eventComesBefore_asym: "eventComesBefore a b \<Longrightarrow> \<not> eventComesBefore b a"
  by (auto simp: eventComesBefore_def)

lemma eventComesBefore_total:
  "event_key a \<noteq> event_key b \<Longrightarrow> eventComesBefore a b \<or> eventComesBefore b a"
  by (auto simp: eventComesBefore_def)

lemma not_eventComesBefore_trans:
  "\<not> eventComesBefore b a \<Longrightarrow> \<not> eventComesBefore c b \<Longrightarrow> \<not> eventComesBefore c a"
  by (auto simp: eventComesBefore_def)

end
