(* ===== verification/NonBlockingQueue.thy ===== *)
theory NonBlockingQueue
  imports Prelude
begin

text \<open>
  \<^verbatim>\<open>src/concurrency/NonBlockingQueue.hpp\<close>: the single-producer single-consumer queue that
  connects every pair of threads of the program. The linked list of batch nodes is modelled
  with an explicit heap: \<^verbatim>\<open>head_\<close> and \<^verbatim>\<open>tail_\<close> are addresses, \<^verbatim>\<open>delete\<close> removes a node, and
  following a pointer to a node that is not there is the value \<open>None\<close> of the operation.

  This theory runs whole operations, in any order. The accesses to shared nodes inside an
  operation (the release store into \<^verbatim>\<open>tail_->next\<close> and the \<^verbatim>\<open>notify_one\<close> on it in \<open>flush\<close>, the
  acquire load of \<^verbatim>\<open>head_->next\<close>, the swap and the \<^verbatim>\<open>delete\<close> in \<open>pop\<close>) are interleaved one by one in
  \<open>QueueAccesses\<close>, which shows that every such execution gives the results of one of whole
  operations.
\<close>

section \<open>The interface of a single-producer single-consumer queue\<close>

datatype 'a queue_op = Push 'a | Flush | Take

fun pushed :: "'a queue_op list \<Rightarrow> 'a list" where
  "pushed [] = []"
| "pushed (Push x # ops) = x # pushed ops"
| "pushed (_ # ops) = pushed ops"

text \<open>An execution: the operations of both threads in the order in which they take effect.\<close>

fun queue_run ::
  "('a \<Rightarrow> 'q \<Rightarrow> 'q option) \<Rightarrow> ('q \<Rightarrow> 'q option) \<Rightarrow> ('q \<Rightarrow> ('a option \<times> 'q) option) \<Rightarrow>
   'q \<Rightarrow> 'a queue_op list \<Rightarrow> ('a list \<times> 'q) option" where
  "queue_run psh flsh tk q [] = Some ([], q)"
| "queue_run psh flsh tk q (Push x # ops) = Option.bind (psh x q) (\<lambda>q'. queue_run psh flsh tk q' ops)"
| "queue_run psh flsh tk q (Flush # ops) = Option.bind (flsh q) (\<lambda>q'. queue_run psh flsh tk q' ops)"
| "queue_run psh flsh tk q (Take # ops) =
     Option.bind (tk q) (\<lambda>(r, q').
       Option.bind (queue_run psh flsh tk q' ops) (\<lambda>(out, q'').
         Some ((case r of None \<Rightarrow> out | Some x \<Rightarrow> x # out), q'')))"

text \<open>
  \<open>contents\<close> is everything pushed and not yet taken, \<open>published\<close> the part of it that the consumer
  can see. \<open>take_one\<close> returns \<open>None\<close> when nothing is published.
\<close>

locale spsc_queue =
  fixes inv :: "'q \<Rightarrow> bool"
    and contents :: "'q \<Rightarrow> 'a list"
    and published :: "'q \<Rightarrow> 'a list"
    and push :: "'a \<Rightarrow> 'q \<Rightarrow> 'q option"
    and flush :: "'q \<Rightarrow> 'q option"
    and take_one :: "'q \<Rightarrow> ('a option \<times> 'q) option"
  assumes push_law: "inv q \<Longrightarrow>
      \<exists>q'. push x q = Some q' \<and> inv q' \<and> contents q' = contents q @ [x] \<and>
           (published q' = published q \<or> published q' = contents q')"
    and flush_law: "inv q \<Longrightarrow>
      \<exists>q'. flush q = Some q' \<and> inv q' \<and> contents q' = contents q \<and> published q' = contents q"
    and take_none: "inv q \<Longrightarrow> published q = [] \<Longrightarrow>
      \<exists>q'. take_one q = Some (None, q') \<and> inv q' \<and> contents q' = contents q \<and> published q' = []"
    and take_some: "inv q \<Longrightarrow> published q = x # xs \<Longrightarrow>
      \<exists>q'. take_one q = Some (Some x, q') \<and> inv q' \<and> contents q = x # contents q' \<and> published q' = xs"
begin

abbreviation run where
  "run \<equiv> queue_run push flush take_one"

lemma take_cases:
  assumes "inv q"
  obtains q' where "take_one q = Some (None, q')" "inv q'" "contents q' = contents q" "published q = []"
  | x q' where "take_one q = Some (Some x, q')" "inv q'" "contents q = x # contents q'"
  using take_none [OF assms] take_some [OF assms] by (cases "published q") blast+

text \<open>Nothing is lost, duplicated or reordered, and no operation faults, in any interleaving.\<close>

lemma run_fifo:
  "inv q \<Longrightarrow> \<exists>out q'. run q ops = Some (out, q') \<and> inv q' \<and> out @ contents q' = contents q @ pushed ops"
proof (induction ops arbitrary: q)
  case Nil
  then show ?case by simp
next
  case (Cons op ops)
  show ?case
  proof (cases op)
    case (Push x)
    from push_law [OF Cons.prems, of x] obtain q' where
      "push x q = Some q'" "inv q'" "contents q' = contents q @ [x]" by blast
    with Cons.IH [of q'] Push show ?thesis by auto
  next
    case Flush
    from flush_law [OF Cons.prems] obtain q' where
      "flush q = Some q'" "inv q'" "contents q' = contents q" by blast
    with Cons.IH [of q'] Flush show ?thesis by auto
  next
    case Take
    from Cons.prems show ?thesis
    proof (cases rule: take_cases)
      case (1 q')
      with Cons.IH [of q'] Take show ?thesis by auto
    next
      case (2 x q')
      with Cons.IH [of q'] Take show ?thesis by auto
    qed
  qed
qed

text \<open>Once everything is published, as many takes as there are elements return all of them.\<close>

lemma drain_all:
  "inv q \<Longrightarrow> published q = contents q \<Longrightarrow>
   \<exists>q'. run q (replicate (length (contents q)) Take) = Some (contents q, q') \<and> inv q' \<and> contents q' = []"
proof (induction "contents q" arbitrary: q)
  case Nil
  then show ?case by auto
next
  case (Cons x xs)
  then obtain q' where q': "take_one q = Some (Some x, q')" "inv q'" "contents q = x # contents q'"
    "published q' = xs" using take_some [of q x xs] by auto
  then have "contents q' = xs" using Cons.hyps(2) by simp
  with Cons.hyps(1) [of q'] q' obtain q'' where
    "run q' (replicate (length xs) Take) = Some (xs, q'')" "inv q''" "contents q'' = []" by auto
  with q' \<open>contents q' = xs\<close> show ?case by auto
qed

end

section \<open>State\<close>

type_synonym addr = nat

record 'a BatchNode =
  bn_items :: "'a list"
  bn_next :: "addr option"

text \<open>
  \<open>nq_heap\<close> holds the allocated nodes and \<open>nq_fresh\<close> is the next address \<^verbatim>\<open>new\<close> returns. The
  consumer index is at most the length of a vector and never wraps; the two counters are
  64-bit words.
\<close>

record 'a NonBlockingQueue =
  nq_heap :: "(addr, 'a BatchNode) umap"
  nq_fresh :: addr
  nq_batch_size :: u64
  nq_head :: addr
  nq_tail :: addr
  nq_producer_batch :: "'a list"
  nq_consumer_batch :: "'a list"
  nq_consumer_index :: nat
  nq_enqueued_count :: u64
  nq_dequeued_count :: u64

text \<open>The constructor; the two \<^verbatim>\<open>reserve\<close> calls have no effect but that memory for them exists.\<close>

definition NBQ_new :: "u64 \<Rightarrow> exn + 'a NonBlockingQueue" where
  "NBQ_new batch_size =
     (if batch_size = 0
      then Inl (invalid_argument ''NonBlockingQueue batch size must be greater than zero'')
      else Inr \<lparr>nq_heap = [(0, \<lparr>bn_items = [], bn_next = None\<rparr>)], nq_fresh = 1,
                nq_batch_size = batch_size, nq_head = 0, nq_tail = 0, nq_producer_batch = [],
                nq_consumer_batch = [], nq_consumer_index = 0, nq_enqueued_count = 0,
                nq_dequeued_count = 0\<rparr>)"

section \<open>Operations\<close>

text \<open>
  \<open>flush\<close> up to the release store: the batch moves into a new node, which becomes the successor of
  the tail. The address of the new node is returned, \<^verbatim>\<open>tail_\<close> has not moved yet.
\<close>

definition NBQ_storeNode :: "'a NonBlockingQueue \<Rightarrow> (addr \<times> 'a NonBlockingQueue) option" where
  "NBQ_storeNode q =
     (let raw_node = nq_fresh q;
          heap1 = AList.update raw_node \<lparr>bn_items = nq_producer_batch q, bn_next = None\<rparr> (nq_heap q)
      in case map_of heap1 (nq_tail q) of
           None \<Rightarrow> None
         | Some tail_node \<Rightarrow>
             Some (raw_node,
               q\<lparr>nq_heap := AList.update (nq_tail q) (tail_node\<lparr>bn_next := Some raw_node\<rparr>) heap1,
                 nq_fresh := raw_node + 1, nq_producer_batch := []\<rparr>))"

text \<open>
  \<^verbatim>\<open>tail_->next.notify_one()\<close>: it changes no value, but it names a member of the node at \<^verbatim>\<open>tail_\<close>,
  which has to exist.
\<close>

definition NBQ_notifyTail :: "'a NonBlockingQueue \<Rightarrow> 'a NonBlockingQueue option" where
  "NBQ_notifyTail q = (if map_of (nq_heap q) (nq_tail q) = None then None else Some q)"

definition NBQ_moveTail :: "addr \<Rightarrow> 'a NonBlockingQueue \<Rightarrow> 'a NonBlockingQueue" where
  "NBQ_moveTail raw_node q = q\<lparr>nq_tail := raw_node\<rparr>"

definition NBQ_flush :: "'a NonBlockingQueue \<Rightarrow> 'a NonBlockingQueue option" where
  "NBQ_flush q =
     (if nq_producer_batch q = [] then Some q
      else
        Option.bind (NBQ_storeNode q) (\<lambda>(raw_node, q1).
          Option.bind (NBQ_notifyTail q1) (\<lambda>q2. Some (NBQ_moveTail raw_node q2))))"

definition NBQ_append :: "'a \<Rightarrow> 'a NonBlockingQueue \<Rightarrow> 'a NonBlockingQueue" where
  "NBQ_append v q =
     q\<lparr>nq_producer_batch := nq_producer_batch q @ [v], nq_enqueued_count := nq_enqueued_count q + 1\<rparr>"

definition NBQ_full :: "'a NonBlockingQueue \<Rightarrow> bool" where
  "NBQ_full q \<longleftrightarrow> length (nq_producer_batch q) \<ge> unat (nq_batch_size q)"

definition NBQ_push :: "'a \<Rightarrow> 'a NonBlockingQueue \<Rightarrow> 'a NonBlockingQueue option" where
  "NBQ_push v q =
     (let q1 = NBQ_append v q in if NBQ_full q1 then NBQ_flush q1 else Some q1)"

text \<open>
  \<open>False\<close> when \<^verbatim>\<open>head_->next\<close> is null. The blocking variant waits in that case; its model is
  one attempt, and a later call of it (after the producer has moved) is the next attempt.
\<close>

definition NBQ_tryAcquireConsumerBatch ::
  "'a NonBlockingQueue \<Rightarrow> (bool \<times> 'a NonBlockingQueue) option" where
  "NBQ_tryAcquireConsumerBatch q0 =
     (let q = q0\<lparr>nq_consumer_batch := [], nq_consumer_index := 0\<rparr>
      in case map_of (nq_heap q) (nq_head q) of
           None \<Rightarrow> None
         | Some head_node \<Rightarrow>
             (case bn_next head_node of
                None \<Rightarrow> Some (False, q)
              | Some nxt \<Rightarrow>
                  (case map_of (nq_heap q) nxt of
                     None \<Rightarrow> None
                   | Some node \<Rightarrow>
                       Some (True, q\<lparr>nq_consumer_batch := bn_items node,
                         nq_heap := AList.delete (nq_head q)
                           (AList.update nxt (node\<lparr>bn_items := []\<rparr>) (nq_heap q)),
                         nq_head := nxt\<rparr>))))"

definition NBQ_deliver :: "'a NonBlockingQueue \<Rightarrow> ('a option \<times> 'a NonBlockingQueue) option" where
  "NBQ_deliver q =
     (if nq_consumer_index q < length (nq_consumer_batch q)
      then Some (Some (nq_consumer_batch q ! nq_consumer_index q),
                 q\<lparr>nq_dequeued_count := nq_dequeued_count q + 1,
                   nq_consumer_index := nq_consumer_index q + 1\<rparr>)
      else None)"

definition NBQ_tryPop :: "'a NonBlockingQueue \<Rightarrow> ('a option \<times> 'a NonBlockingQueue) option" where
  "NBQ_tryPop q =
     (if nq_consumer_index q \<ge> length (nq_consumer_batch q)
      then (case NBQ_tryAcquireConsumerBatch q of
              None \<Rightarrow> None
            | Some (False, q') \<Rightarrow> Some (None, q')
            | Some (True, q') \<Rightarrow> NBQ_deliver q')
      else NBQ_deliver q)"

text \<open>
  \<open>pop\<close> blocks in \<^verbatim>\<open>acquireConsumerBatch\<close> until \<^verbatim>\<open>head_->next\<close> is set: the model of a blocked
  call is the result \<open>None\<close> together with the state the waiting call is in.
\<close>

definition NBQ_acquireConsumerBatch ::
  "'a NonBlockingQueue \<Rightarrow> (bool \<times> 'a NonBlockingQueue) option" where
  "NBQ_acquireConsumerBatch q0 =
     (let q = q0\<lparr>nq_consumer_batch := [], nq_consumer_index := 0\<rparr>
      in case map_of (nq_heap q) (nq_head q) of
           None \<Rightarrow> None
         | Some head_node \<Rightarrow>
             (case bn_next head_node of
                None \<Rightarrow> Some (False, q)
              | Some nxt \<Rightarrow>
                  (case map_of (nq_heap q) nxt of
                     None \<Rightarrow> None
                   | Some node \<Rightarrow>
                       Some (True, q\<lparr>nq_consumer_batch := bn_items node,
                         nq_heap := AList.delete (nq_head q)
                           (AList.update nxt (node\<lparr>bn_items := []\<rparr>) (nq_heap q)),
                         nq_head := nxt\<rparr>))))"

definition NBQ_pop :: "'a NonBlockingQueue \<Rightarrow> ('a option \<times> 'a NonBlockingQueue) option" where
  "NBQ_pop q =
     (if nq_consumer_index q \<ge> length (nq_consumer_batch q)
      then (case NBQ_acquireConsumerBatch q of
              None \<Rightarrow> None
            | Some (False, q') \<Rightarrow> Some (None, q')
            | Some (True, q') \<Rightarrow> NBQ_deliver q')
      else NBQ_deliver q)"

definition NBQ_size :: "'a NonBlockingQueue \<Rightarrow> u64" where
  "NBQ_size q =
     (if nq_enqueued_count q \<ge> nq_dequeued_count q then nq_enqueued_count q - nq_dequeued_count q else 0)"

section \<open>The chain of nodes\<close>

text \<open>
  \<open>chain h a ns z\<close>: from address \<open>a\<close> the \<^verbatim>\<open>next\<close> pointers lead through nodes that hold the
  batches \<open>ns\<close> to the last node \<open>z\<close>. The addresses along it strictly increase.
\<close>

fun chain :: "(addr, 'a BatchNode) umap \<Rightarrow> addr \<Rightarrow> 'a list list \<Rightarrow> addr \<Rightarrow> bool" where
  "chain h a [] z \<longleftrightarrow> a = z \<and> (\<exists>nd. map_of h a = Some nd \<and> bn_next nd = None)"
| "chain h a (b # ns) z \<longleftrightarrow>
     (\<exists>nd c nd'. map_of h a = Some nd \<and> bn_next nd = Some c \<and> a < c \<and>
        map_of h c = Some nd' \<and> bn_items nd' = b \<and> b \<noteq> [] \<and> chain h c ns z)"

text \<open>The batches of the chain, read off the heap; no chain is longer than the addresses used.\<close>

fun walk :: "nat \<Rightarrow> (addr, 'a BatchNode) umap \<Rightarrow> addr \<Rightarrow> 'a list list" where
  "walk 0 h a = []"
| "walk (Suc n) h a =
     (case map_of h a of
        None \<Rightarrow> []
      | Some nd \<Rightarrow>
          (case bn_next nd of
             None \<Rightarrow> []
           | Some c \<Rightarrow> (case map_of h c of None \<Rightarrow> [] | Some nd' \<Rightarrow> bn_items nd' # walk n h c)))"

lemma chain_tail: "chain h a ns z \<Longrightarrow> \<exists>nd. map_of h z = Some nd \<and> bn_next nd = None"
  by (induction h a ns z rule: chain.induct) (auto simp del: map_of_eq_Some_iff)

lemma walk_chain: "chain h a ns z \<Longrightarrow> length ns \<le> n \<Longrightarrow> walk n h a = ns"
  by (induction h a ns z arbitrary: n rule: chain.induct; case_tac n) (auto simp del: map_of_eq_Some_iff)

lemma chain_length: "chain h a ns z \<Longrightarrow> a + length ns \<le> z"
  by (induction h a ns z rule: chain.induct) (fastforce simp del: map_of_eq_Some_iff)+

definition NBQ_nodes :: "'a NonBlockingQueue \<Rightarrow> 'a list list" where
  "NBQ_nodes q = walk (nq_fresh q) (nq_heap q) (nq_head q)"

definition NBQ_published :: "'a NonBlockingQueue \<Rightarrow> 'a list" where
  "NBQ_published q = drop (nq_consumer_index q) (nq_consumer_batch q) @ concat (NBQ_nodes q)"

definition NBQ_contents :: "'a NonBlockingQueue \<Rightarrow> 'a list" where
  "NBQ_contents q = NBQ_published q @ nq_producer_batch q"

text \<open>
  The invariant: the chain leads from the head to the tail, no live node is above the next
  fresh address, and the counters differ by the number of elements in flight.
\<close>

definition NBQ_rep :: "'a NonBlockingQueue \<Rightarrow> 'a list list \<Rightarrow> bool" where
  "NBQ_rep q ns \<longleftrightarrow>
     chain (nq_heap q) (nq_head q) ns (nq_tail q) \<and> nq_tail q < nq_fresh q \<and>
     nq_consumer_index q \<le> length (nq_consumer_batch q) \<and> nq_batch_size q \<noteq> 0"

definition NBQ_inv :: "'a NonBlockingQueue \<Rightarrow> bool" where
  "NBQ_inv q \<longleftrightarrow> NBQ_rep q (NBQ_nodes q) \<and>
     nq_enqueued_count q = nq_dequeued_count q + of_nat (length (NBQ_contents q))"

lemma NBQ_rep_nodes: "NBQ_rep q ns \<Longrightarrow> NBQ_nodes q = ns"
  unfolding NBQ_rep_def NBQ_nodes_def by (metis add_leD2 chain_length less_imp_le order_trans walk_chain)

lemma NBQ_invI:
  assumes "NBQ_rep q ns" and "nq_enqueued_count q = nq_dequeued_count q +
      of_nat (length (drop (nq_consumer_index q) (nq_consumer_batch q) @ concat ns @ nq_producer_batch q))"
  shows "NBQ_inv q"
    and "NBQ_published q = drop (nq_consumer_index q) (nq_consumer_batch q) @ concat ns"
    and "NBQ_contents q = drop (nq_consumer_index q) (nq_consumer_batch q) @ concat ns @ nq_producer_batch q"
  using assms by (auto simp: NBQ_inv_def NBQ_published_def NBQ_contents_def NBQ_rep_nodes)

text \<open>Writes outside the chain do not change it; an append at the tail extends it.\<close>

lemma chain_frame:
  "chain h a ns z \<Longrightarrow> (\<And>c. a \<le> c \<Longrightarrow> c \<le> z \<Longrightarrow> map_of h' c = map_of h c) \<Longrightarrow> chain h' a ns z"
proof (induction h a ns z rule: chain.induct)
  case (2 h a b ns z)
  then obtain nd c nd' where c: "map_of h a = Some nd" "bn_next nd = Some c" "a < c"
    "map_of h c = Some nd'" "bn_items nd' = b" "b \<noteq> []" "chain h c ns z"
    by (auto simp del: map_of_eq_Some_iff)
  then have "c \<le> z" using chain_length by fastforce
  with c 2(3) [of a] 2(3) [of c] have "map_of h' a = Some nd" "map_of h' c = Some nd'" by auto
  moreover have "chain h' c ns z" using 2(1) [OF c(7)] 2(3) c(3) by simp
  ultimately show ?case using c by (auto simp del: map_of_eq_Some_iff)
qed (auto simp del: map_of_eq_Some_iff)

lemma chain_append:
  assumes "chain h a ns z" "z < c" "b \<noteq> []" "map_of h z = Some nd"
  shows "chain (AList.update z (nd\<lparr>bn_next := Some c\<rparr>)
           (AList.update c \<lparr>bn_items = b, bn_next = None\<rparr> h)) a (ns @ [b]) c"
  using assms
proof (induction h a ns z rule: chain.induct)
  case (1 h a z)
  then show ?case by (auto simp del: map_of_eq_Some_iff)
next
  case (2 h a b' ns z)
  then obtain nd1 d nd2 where d: "map_of h a = Some nd1" "bn_next nd1 = Some d" "a < d"
    "map_of h d = Some nd2" "bn_items nd2 = b'" "b' \<noteq> []" "chain h d ns z"
    by (auto simp del: map_of_eq_Some_iff)
  moreover have "d \<le> z" using chain_length [OF d(7)] by simp
  ultimately show ?case using 2 by (auto simp del: map_of_eq_Some_iff)
qed

text \<open>Taking the items out of the first node and freeing the old head leave the rest alone.\<close>

lemma chain_swap:
  assumes "chain h c ns z" "map_of h c = Some nd" "a < c"
  shows "chain (AList.delete a (AList.update c (nd\<lparr>bn_items := []\<rparr>) h)) c ns z"
proof (cases ns)
  case Nil
  with assms show ?thesis by (auto simp del: map_of_eq_Some_iff)
next
  case (Cons b ms)
  with assms obtain d nd' where d: "bn_next nd = Some d" "c < d" "map_of h d = Some nd'"
    "bn_items nd' = b" "b \<noteq> []" "chain h d ms z"
    by (auto simp del: map_of_eq_Some_iff)
  then have "chain (AList.delete a (AList.update c (nd\<lparr>bn_items := []\<rparr>) h)) d ms z"
    using assms(3) by (intro chain_frame [OF d(6)]) auto
  with d Cons assms show ?thesis by (auto simp del: map_of_eq_Some_iff)
qed

section \<open>The operations meet the interface\<close>

lemma NBQ_flush_correct:
  assumes inv: "NBQ_inv q"
  shows "\<exists>q'. NBQ_flush q = Some q' \<and> NBQ_inv q' \<and> NBQ_contents q' = NBQ_contents q \<and>
           NBQ_published q' = NBQ_contents q"
proof (cases "nq_producer_batch q = []")
  case True
  with inv show ?thesis by (simp add: NBQ_flush_def NBQ_contents_def)
next
  case False
  let ?ns = "NBQ_nodes q"
  have rep: "chain (nq_heap q) (nq_head q) ?ns (nq_tail q)" "nq_tail q < nq_fresh q"
    using inv by (auto simp: NBQ_inv_def NBQ_rep_def)
  then obtain nd where nd: "map_of (nq_heap q) (nq_tail q) = Some nd" using chain_tail by blast
  define q' where "q' = q\<lparr>nq_heap := AList.update (nq_tail q) (nd\<lparr>bn_next := Some (nq_fresh q)\<rparr>)
      (AList.update (nq_fresh q) \<lparr>bn_items = nq_producer_batch q, bn_next = None\<rparr> (nq_heap q)),
      nq_fresh := nq_fresh q + 1, nq_tail := nq_fresh q, nq_producer_batch := []\<rparr>"
  have rep': "NBQ_rep q' (?ns @ [nq_producer_batch q])"
    using inv rep False chain_append [OF rep False nd] by (simp add: q'_def NBQ_rep_def NBQ_inv_def)
  have "NBQ_flush q = Some q'"
    using False rep(2) nd
    by (simp add: NBQ_flush_def NBQ_storeNode_def NBQ_notifyTail_def NBQ_moveTail_def q'_def Let_def
        del: map_of_eq_Some_iff)
  moreover have "NBQ_inv q' \<and> NBQ_contents q' = NBQ_contents q \<and> NBQ_published q' = NBQ_contents q"
    using NBQ_invI [OF rep'] inv
    by (simp add: q'_def NBQ_inv_def NBQ_contents_def NBQ_published_def)
  ultimately show ?thesis by blast
qed

lemma NBQ_push_correct:
  assumes inv: "NBQ_inv q"
  shows "\<exists>q'. NBQ_push x q = Some q' \<and> NBQ_inv q' \<and> NBQ_contents q' = NBQ_contents q @ [x] \<and>
           (NBQ_published q' = NBQ_published q \<or> NBQ_published q' = NBQ_contents q')"
proof -
  define q1 where "q1 = NBQ_append x q"
  have "NBQ_rep q1 (NBQ_nodes q)"
    using inv by (simp add: q1_def NBQ_append_def NBQ_rep_def NBQ_inv_def)
  note q1 = NBQ_invI [OF this]
  have q1': "NBQ_inv q1" "NBQ_contents q1 = NBQ_contents q @ [x]" "NBQ_published q1 = NBQ_published q"
    using q1 inv
    by (simp_all add: q1_def NBQ_append_def NBQ_inv_def NBQ_contents_def NBQ_published_def algebra_simps)
  have "NBQ_push x q = (if NBQ_full q1 then NBQ_flush q1 else Some q1)"
    by (simp add: NBQ_push_def q1_def Let_def)
  with q1' NBQ_flush_correct [OF q1'(1)] show ?thesis by (cases "NBQ_full q1") auto
qed

lemma NBQ_deliver_correct:
  assumes inv: "NBQ_inv q" and "nq_consumer_index q < length (nq_consumer_batch q)"
    and pub: "NBQ_published q = x # xs"
  shows "\<exists>q'. NBQ_deliver q = Some (Some x, q') \<and> NBQ_inv q' \<and> NBQ_contents q = x # NBQ_contents q' \<and>
           NBQ_published q' = xs"
proof -
  let ?i = "nq_consumer_index q" and ?cb = "nq_consumer_batch q"
  define q' where "q' = q\<lparr>nq_dequeued_count := nq_dequeued_count q + 1, nq_consumer_index := ?i + 1\<rparr>"
  have split: "drop ?i ?cb = ?cb ! ?i # drop (Suc ?i) ?cb" using assms(2) by (rule Cons_nth_drop_Suc [symmetric])
  have "NBQ_rep q' (NBQ_nodes q)"
    using inv assms(2) by (simp add: q'_def NBQ_rep_def NBQ_inv_def)
  note q' = NBQ_invI [OF this]
  have "nq_enqueued_count q = nq_dequeued_count q + of_nat (length (NBQ_contents q))"
    using inv by (simp add: NBQ_inv_def)
  then have "NBQ_inv q' \<and> NBQ_contents q' = drop (Suc ?i) ?cb @ concat (NBQ_nodes q) @ nq_producer_batch q
      \<and> NBQ_published q' = drop (Suc ?i) ?cb @ concat (NBQ_nodes q)"
    using q' by (simp add: q'_def NBQ_contents_def NBQ_published_def split algebra_simps)
  moreover have "NBQ_deliver q = Some (Some (?cb ! ?i), q')"
    using assms(2) by (simp add: NBQ_deliver_def q'_def)
  ultimately show ?thesis using pub split by (auto simp: NBQ_contents_def NBQ_published_def)
qed

lemma NBQ_acquire_same: "NBQ_acquireConsumerBatch = NBQ_tryAcquireConsumerBatch"
  by (simp add: fun_eq_iff NBQ_acquireConsumerBatch_def NBQ_tryAcquireConsumerBatch_def)

lemma NBQ_tryAcquire_correct:
  assumes inv: "NBQ_inv q" and used: "nq_consumer_index q \<ge> length (nq_consumer_batch q)"
  obtains q' where "NBQ_tryAcquireConsumerBatch q = Some (False, q')" "NBQ_inv q'"
      "NBQ_published q = []" "NBQ_contents q' = NBQ_contents q" "NBQ_published q' = []"
  | q' where "NBQ_tryAcquireConsumerBatch q = Some (True, q')" "NBQ_inv q'"
      "nq_consumer_index q' < length (nq_consumer_batch q')"
      "NBQ_contents q' = NBQ_contents q" "NBQ_published q' = NBQ_published q"
proof (cases "NBQ_nodes q")
  case Nil
  define q1 where "q1 = q\<lparr>nq_consumer_batch := [], nq_consumer_index := 0\<rparr>"
  have ch: "chain (nq_heap q) (nq_head q) [] (nq_tail q)"
    using inv unfolding NBQ_inv_def NBQ_rep_def Nil by blast
  then have "NBQ_tryAcquireConsumerBatch q = Some (False, q1)"
    by (auto simp: NBQ_tryAcquireConsumerBatch_def q1_def simp del: map_of_eq_Some_iff)
  moreover have rep: "NBQ_rep q1 []"
    using inv ch by (simp add: q1_def NBQ_inv_def NBQ_rep_def del: chain.simps)
  moreover have "NBQ_published q = []" using used Nil by (simp add: NBQ_published_def)
  moreover have "NBQ_inv q1 \<and> NBQ_contents q1 = NBQ_contents q \<and> NBQ_published q1 = []"
    using NBQ_invI [OF rep] inv used Nil by (simp add: q1_def NBQ_inv_def NBQ_contents_def NBQ_published_def)
  ultimately show ?thesis using that(1) by blast
next
  case (Cons b ns)
  have "chain (nq_heap q) (nq_head q) (b # ns) (nq_tail q)"
    using inv Cons by (simp add: NBQ_inv_def NBQ_rep_def)
  then obtain nd c nd' where c: "map_of (nq_heap q) (nq_head q) = Some nd" "bn_next nd = Some c"
    "nq_head q < c" "map_of (nq_heap q) c = Some nd'" "bn_items nd' = b" "b \<noteq> []"
    "chain (nq_heap q) c ns (nq_tail q)"
    by (auto simp del: map_of_eq_Some_iff)
  define q1 where "q1 = q\<lparr>nq_consumer_batch := b, nq_consumer_index := 0,
    nq_heap := AList.delete (nq_head q) (AList.update c (nd'\<lparr>bn_items := []\<rparr>) (nq_heap q)), nq_head := c\<rparr>"
  have "chain (nq_heap q1) c ns (nq_tail q1)" using c by (auto simp: q1_def intro: chain_swap)
  then have rep: "NBQ_rep q1 ns" using inv by (simp add: q1_def NBQ_inv_def NBQ_rep_def)
  have "NBQ_tryAcquireConsumerBatch q = Some (True, q1)"
    using c by (simp add: NBQ_tryAcquireConsumerBatch_def q1_def Let_def del: map_of_eq_Some_iff)
  moreover have "NBQ_inv q1 \<and> NBQ_contents q1 = NBQ_contents q \<and> NBQ_published q1 = NBQ_published q"
    using NBQ_invI [OF rep] inv used Cons by (simp add: q1_def NBQ_inv_def NBQ_contents_def NBQ_published_def)
  moreover have "nq_consumer_index q1 < length (nq_consumer_batch q1)" using c(6) by (simp add: q1_def)
  ultimately show ?thesis using that(2) by blast
qed

lemma NBQ_pop_same: "NBQ_pop = NBQ_tryPop"
  by (simp add: fun_eq_iff NBQ_pop_def NBQ_tryPop_def NBQ_acquire_same)

lemma NBQ_tryPop_none:
  assumes inv: "NBQ_inv q" and "NBQ_published q = []"
  shows "\<exists>q'. NBQ_tryPop q = Some (None, q') \<and> NBQ_inv q' \<and> NBQ_contents q' = NBQ_contents q \<and>
           NBQ_published q' = []"
proof -
  have used: "nq_consumer_index q \<ge> length (nq_consumer_batch q)"
    using assms(2) by (simp add: NBQ_published_def)
  from inv used show ?thesis
  proof (cases rule: NBQ_tryAcquire_correct)
    case (2 q')
    from 2(3) have "NBQ_published q' \<noteq> []" by (simp add: NBQ_published_def)
    with 2 assms(2) show ?thesis by simp
  qed (use used in \<open>simp add: NBQ_tryPop_def\<close>)
qed

lemma NBQ_tryPop_some:
  assumes inv: "NBQ_inv q" and pub: "NBQ_published q = x # xs"
  shows "\<exists>q'. NBQ_tryPop q = Some (Some x, q') \<and> NBQ_inv q' \<and> NBQ_contents q = x # NBQ_contents q' \<and>
           NBQ_published q' = xs"
proof (cases "nq_consumer_index q < length (nq_consumer_batch q)")
  case True
  then show ?thesis using NBQ_deliver_correct [OF inv True pub] by (simp add: NBQ_tryPop_def)
next
  case False
  then have used: "nq_consumer_index q \<ge> length (nq_consumer_batch q)" by simp
  from inv used show ?thesis
  proof (cases rule: NBQ_tryAcquire_correct)
    case (2 q')
    with used pub NBQ_deliver_correct [of q' x xs] show ?thesis by (simp add: NBQ_tryPop_def)
  qed (use pub in simp)
qed

interpretation nbq: spsc_queue NBQ_inv NBQ_contents NBQ_published NBQ_push NBQ_flush NBQ_tryPop
  by unfold_locales
    (fact NBQ_push_correct NBQ_flush_correct NBQ_tryPop_none NBQ_tryPop_some)+

interpretation nbq_blocking: spsc_queue NBQ_inv NBQ_contents NBQ_published NBQ_push NBQ_flush NBQ_pop
  unfolding NBQ_pop_same by (rule nbq.spsc_queue_axioms)

lemma NBQ_new_correct:
  assumes "NBQ_new batch_size = Inr q"
  shows "NBQ_inv q" "NBQ_contents q = []" "NBQ_published q = []"
proof -
  have rep: "NBQ_rep q []" using assms by (auto simp: NBQ_new_def NBQ_rep_def split: if_splits)
  show "NBQ_inv q" "NBQ_contents q = []" "NBQ_published q = []"
    using NBQ_invI [OF rep] assms by (auto simp: NBQ_new_def split: if_splits)
qed

text \<open>The dequeue counter counts the elements that were delivered.\<close>

lemma NBQ_dequeued_step:
  "NBQ_flush q = Some q' \<Longrightarrow> nq_dequeued_count q' = nq_dequeued_count q"
  "NBQ_push x q = Some q' \<Longrightarrow> nq_dequeued_count q' = nq_dequeued_count q"
  "NBQ_tryPop q = Some (r, q') \<Longrightarrow>
     nq_dequeued_count q' = nq_dequeued_count q + (case r of None \<Rightarrow> 0 | Some _ \<Rightarrow> 1)"
proof -
  show flush: "nq_dequeued_count q' = nq_dequeued_count q" if "NBQ_flush q = Some q'" for q q' :: "'b NonBlockingQueue"
    using that
    by (auto simp: NBQ_flush_def NBQ_storeNode_def NBQ_notifyTail_def NBQ_moveTail_def Let_def
        bind_eq_Some_conv simp del: map_of_eq_Some_iff split: if_splits option.splits)
  show "NBQ_push x q = Some q' \<Longrightarrow> nq_dequeued_count q' = nq_dequeued_count q"
    by (auto simp: NBQ_push_def NBQ_append_def Let_def dest: flush split: if_splits)
  show "NBQ_tryPop q = Some (r, q') \<Longrightarrow>
     nq_dequeued_count q' = nq_dequeued_count q + (case r of None \<Rightarrow> 0 | Some _ \<Rightarrow> 1)"
    by (auto simp: NBQ_tryPop_def NBQ_tryAcquireConsumerBatch_def NBQ_deliver_def Let_def
        simp del: map_of_eq_Some_iff split: if_splits option.splits bool.splits)
qed

lemma NBQ_run_dequeued:
  "queue_run NBQ_push NBQ_flush NBQ_pop q ops = Some (out, q') \<Longrightarrow>
   nq_dequeued_count q' = nq_dequeued_count q + of_nat (length out)"
  unfolding NBQ_pop_same
proof (induction ops arbitrary: q out)
  case (Cons op ops)
  then show ?case
    by (cases op) (auto simp: bind_eq_Some_conv dest!: NBQ_dequeued_step split: option.splits)
qed simp

section \<open>Properties\<close>

text \<open>
  The queue is FIFO and loses nothing. In every order of whole pushes, flushes and pops, started
  on a fresh queue, no operation faults, what has been taken so far is a prefix of what has been
  pushed, in order, and the rest is still in the queue.
\<close>

theorem NBQ_operations_fifo:
  assumes "NBQ_new batch_size = Inr q"
  shows "\<exists>out q'. queue_run NBQ_push NBQ_flush NBQ_pop q ops = Some (out, q') \<and>
           out @ NBQ_contents q' = pushed ops"
  using nbq_blocking.run_fifo [of q ops] NBQ_new_correct [OF assms] by auto

definition demo_queue :: "nat NonBlockingQueue" where
  "demo_queue = (case NBQ_new 2 of Inr q \<Rightarrow> q | Inl _ \<Rightarrow> undefined)"

lemma demo_queue_new: "NBQ_new 2 = Inr demo_queue"
  by (simp add: demo_queue_def NBQ_new_def)

definition demo_ops :: "nat queue_op list" where
  "demo_ops = [Take, Push 10, Take, Push 20, Take, Push 30, Take, Take, Flush, Take]"

theorem NBQ_operations_fifo_witness:
  "NBQ_new 2 = Inr demo_queue \<and>
   (\<exists>out q'. queue_run NBQ_push NBQ_flush NBQ_pop demo_queue demo_ops = Some (out, q') \<and>
      out = [10, 20, 30] \<and> NBQ_contents q' = [])"
proof -
  have out: "map_option fst (queue_run NBQ_push NBQ_flush NBQ_pop demo_queue demo_ops) = Some [10, 20, 30]"
    by code_simp
  moreover have "pushed demo_ops = [10, 20, 30]" by (simp add: demo_ops_def)
  ultimately show ?thesis using NBQ_operations_fifo [OF demo_queue_new, of demo_ops] demo_queue_new by auto
qed

text \<open>
  Delivery. After a final flush, the consumer receives everything that was pushed and not yet
  taken by popping once per element, and the queue is then empty.
\<close>

theorem NBQ_flush_delivers:
  assumes "NBQ_new batch_size = Inr q0"
    and "queue_run NBQ_push NBQ_flush NBQ_pop q0 ops = Some (out, q)"
  shows "\<exists>q1 q2. NBQ_flush q = Some q1 \<and>
           queue_run NBQ_push NBQ_flush NBQ_pop q1 (replicate (length (NBQ_contents q)) Take) =
             Some (NBQ_contents q, q2) \<and>
           out @ NBQ_contents q = pushed ops \<and> NBQ_contents q2 = []"
proof -
  from nbq_blocking.run_fifo [of q0 ops] NBQ_new_correct [OF assms(1)] assms(2)
  have q: "NBQ_inv q" "out @ NBQ_contents q = pushed ops" by auto
  from nbq.flush_law [OF q(1)] obtain q1 where q1: "NBQ_flush q = Some q1" "NBQ_inv q1"
    "NBQ_contents q1 = NBQ_contents q" "NBQ_published q1 = NBQ_contents q" by blast
  with nbq_blocking.drain_all [of q1] q show ?thesis by auto
qed

theorem NBQ_flush_delivers_witness:
  "\<exists>out q q1 q2. queue_run NBQ_push NBQ_flush NBQ_pop demo_queue [Push 10, Take, Push 20, Push 30] = Some (out, q) \<and>
     NBQ_flush q = Some q1 \<and>
     queue_run NBQ_push NBQ_flush NBQ_pop q1 (replicate (length (NBQ_contents q)) Take) = Some (NBQ_contents q, q2) \<and>
     out @ NBQ_contents q = [10, 20, 30] \<and> NBQ_contents q2 = []"
proof -
  obtain out q where run: "queue_run NBQ_push NBQ_flush NBQ_pop demo_queue [Push 10, Take, Push 20, Push 30] = Some (out, q)"
    using nbq_blocking.run_fifo NBQ_new_correct [OF demo_queue_new] by blast
  from NBQ_flush_delivers [OF demo_queue_new run] run show ?thesis by auto
qed

text \<open>
  \<^verbatim>\<open>size()\<close> is the number of elements in flight, as long as fewer than \<open>2 ^ 64\<close> elements
  have been pushed in total (the counters are 64-bit and wrap).
\<close>

theorem NBQ_size_exact:
  assumes "NBQ_new batch_size = Inr q0"
    and "queue_run NBQ_push NBQ_flush NBQ_pop q0 ops = Some (out, q)"
    and "length (pushed ops) < two64"
  shows "unat (NBQ_size q) = length (NBQ_contents q)"
proof -
  from nbq_blocking.run_fifo [of q0 ops] NBQ_new_correct [OF assms(1)] assms(2)
  have q: "NBQ_inv q" "out @ NBQ_contents q = pushed ops" by auto
  have "nq_dequeued_count q0 = 0" using assms(1) by (auto simp: NBQ_new_def split: if_splits)
  then have deq: "nq_dequeued_count q = of_nat (length out)"
    using NBQ_run_dequeued [OF assms(2)] by simp
  have enq: "nq_enqueued_count q = nq_dequeued_count q + of_nat (length (NBQ_contents q))"
    using q(1) by (simp add: NBQ_inv_def)
  have fits: "length out + length (NBQ_contents q) < two64"
    using assms(3) q(2) by (metis length_append)
  then have "unat (nq_enqueued_count q) = length out + length (NBQ_contents q)"
    "unat (nq_dequeued_count q) = length out"
    by (simp_all add: enq deq unat_of_nat_u64 flip: of_nat_add)
  then show ?thesis by (simp add: NBQ_size_def word_le_nat_alt unat_diff_u64)
qed

theorem NBQ_size_exact_witness:
  "\<exists>out q. queue_run NBQ_push NBQ_flush NBQ_pop demo_queue [Push 10, Push 20, Take, Push 30] = Some (out, q) \<and>
     length (pushed [Push (10 :: nat), Push 20, Take, Push 30]) < two64 \<and>
     unat (NBQ_size q) = length (NBQ_contents q)"
proof -
  obtain out q where run: "queue_run NBQ_push NBQ_flush NBQ_pop demo_queue [Push 10, Push 20, Take, Push 30] = Some (out, q)"
    using nbq_blocking.run_fifo NBQ_new_correct [OF demo_queue_new] by blast
  have "length (pushed [Push (10 :: nat), Push 20, Take, Push 30]) < two64" by (simp add: two64_def)
  with NBQ_size_exact [OF demo_queue_new run] run show ?thesis by blast
qed

end
