(* ===== verification/OrderMessage.thy ===== *)
theory OrderMessage
  imports Domain NonBlockingQueue "HOL-Library.Monad_Syntax"
begin

text \<open>
  \<^verbatim>\<open>src/gateway/OrderMessage.hpp\<close> and \<^verbatim>\<open>src/gateway/OrderChannel.hpp\<close>: the messages between a
  trading engine and the backtest engine, and the pair of queues that carries them. A
  \<^verbatim>\<open>std::shared_ptr<OrderChannel>\<close> is an address into a store of channels, so that a client and
  the server that hold the same pointer act on the same queues.
\<close>

section \<open>Messages\<close>

datatype OrderMessageType =
  NewOrderMsg | CancelOrderMsg | ModifyOrderMsg | OrderAckMsg | OrderFillMsg | OrderRejectMsg

datatype OrderAckType = NewAccepted | ModifyAccepted | CancelAccepted

datatype OrderRejectReason =
  DuplicateOrderId | UnknownOrderId | InvalidInstrument | InvalidSide | InvalidPrice
| InvalidQuantity | AlreadyTerminal | InternalError

record OrderFields =
  fd_trading_engine_id :: trading_engine_id
  fd_order_id :: order_id
  fd_instrument_id :: instrument_id
  fd_side :: Side
  fd_price :: price
  fd_size :: quantity
  fd_timestamp_ns :: timestamp_ns
  fd_status :: OrderStatus

definition default_fields :: OrderFields where
  "default_fields =
     \<lparr>fd_trading_engine_id = 0, fd_order_id = 0, fd_instrument_id = 0, fd_side = SideNone,
      fd_price = i64 0, fd_size = 0, fd_timestamp_ns = i64 0, fd_status = New\<rparr>"

text \<open>\<^verbatim>\<open>NewOrder\<close>, \<^verbatim>\<open>CancelOrder\<close> and \<^verbatim>\<open>ModifyOrder\<close> hold only their fields.\<close>

datatype OrderRequest = NewOrder OrderFields | CancelOrder OrderFields | ModifyOrder OrderFields

record OrderAck =
  ak_fields :: OrderFields
  ak_type :: OrderAckType

record OrderFill =
  fl_fields :: OrderFields
  fl_fill_price :: price
  fl_fill_size :: quantity
  fl_remaining_size :: quantity

record OrderReject =
  rj_fields :: OrderFields
  rj_reason :: OrderRejectReason
  rj_text :: string

datatype OrderEvent = AckEvent OrderAck | FillEvent OrderFill | RejectEvent OrderReject

fun messageType_request :: "OrderRequest \<Rightarrow> OrderMessageType" where
  "messageType_request (NewOrder _) = NewOrderMsg"
| "messageType_request (CancelOrder _) = CancelOrderMsg"
| "messageType_request (ModifyOrder _) = ModifyOrderMsg"

fun messageType_event :: "OrderEvent \<Rightarrow> OrderMessageType" where
  "messageType_event (AckEvent _) = OrderAckMsg"
| "messageType_event (FillEvent _) = OrderFillMsg"
| "messageType_event (RejectEvent _) = OrderRejectMsg"

fun fields_request :: "OrderRequest \<Rightarrow> OrderFields" where
  "fields_request (NewOrder f) = f"
| "fields_request (CancelOrder f) = f"
| "fields_request (ModifyOrder f) = f"

fun fields_event :: "OrderEvent \<Rightarrow> OrderFields" where
  "fields_event (AckEvent a) = ak_fields a"
| "fields_event (FillEvent f) = fl_fields f"
| "fields_event (RejectEvent r) = rj_fields r"

section \<open>OrderChannel\<close>

record OrderChannel =
  ch_requests :: "OrderRequest NonBlockingQueue"
  ch_events :: "OrderEvent NonBlockingQueue"

definition OC_new :: "u64 \<Rightarrow> u64 \<Rightarrow> exn + OrderChannel" where
  "OC_new request_batch_size event_batch_size =
     (case NBQ_new request_batch_size of
        Inl e \<Rightarrow> Inl e
      | Inr rq \<Rightarrow>
          (case NBQ_new event_batch_size of
             Inl e \<Rightarrow> Inl e
           | Inr eq \<Rightarrow> Inr \<lparr>ch_requests = rq, ch_events = eq\<rparr>))"

definition OC_pushRequest :: "OrderRequest \<Rightarrow> OrderChannel \<Rightarrow> OrderChannel option" where
  "OC_pushRequest request ch = map_option (\<lambda>q. ch\<lparr>ch_requests := q\<rparr>) (NBQ_push request (ch_requests ch))"

definition OC_flushRequests :: "OrderChannel \<Rightarrow> OrderChannel option" where
  "OC_flushRequests ch = map_option (\<lambda>q. ch\<lparr>ch_requests := q\<rparr>) (NBQ_flush (ch_requests ch))"

definition OC_tryPopRequest :: "OrderChannel \<Rightarrow> (OrderRequest option \<times> OrderChannel) option" where
  "OC_tryPopRequest ch = map_option (\<lambda>(r, q). (r, ch\<lparr>ch_requests := q\<rparr>)) (NBQ_tryPop (ch_requests ch))"

definition OC_popRequest :: "OrderChannel \<Rightarrow> (OrderRequest option \<times> OrderChannel) option" where
  "OC_popRequest ch = map_option (\<lambda>(r, q). (r, ch\<lparr>ch_requests := q\<rparr>)) (NBQ_pop (ch_requests ch))"

definition OC_pushEvent :: "OrderEvent \<Rightarrow> OrderChannel \<Rightarrow> OrderChannel option" where
  "OC_pushEvent ev ch = map_option (\<lambda>q. ch\<lparr>ch_events := q\<rparr>) (NBQ_push ev (ch_events ch))"

definition OC_flushEvents :: "OrderChannel \<Rightarrow> OrderChannel option" where
  "OC_flushEvents ch = map_option (\<lambda>q. ch\<lparr>ch_events := q\<rparr>) (NBQ_flush (ch_events ch))"

definition OC_tryPopEvent :: "OrderChannel \<Rightarrow> (OrderEvent option \<times> OrderChannel) option" where
  "OC_tryPopEvent ch = map_option (\<lambda>(r, q). (r, ch\<lparr>ch_events := q\<rparr>)) (NBQ_tryPop (ch_events ch))"

definition OC_popEvent :: "OrderChannel \<Rightarrow> (OrderEvent option \<times> OrderChannel) option" where
  "OC_popEvent ch = map_option (\<lambda>(r, q). (r, ch\<lparr>ch_events := q\<rparr>)) (NBQ_pop (ch_events ch))"

section \<open>The store of channels\<close>

type_synonym chan = nat
type_synonym Channels = "(chan, OrderChannel) umap"

text \<open>Calling a method through a pointer: \<open>None\<close> is a dangling pointer or a fault of the queue.\<close>

definition on_channel :: "chan \<Rightarrow> (OrderChannel \<Rightarrow> OrderChannel option) \<Rightarrow> Channels \<Rightarrow> Channels option" where
  "on_channel c m chs =
     (case map_of chs c of
        None \<Rightarrow> None
      | Some ch \<Rightarrow> map_option (\<lambda>ch'. AList.update c ch' chs) (m ch))"

definition pop_channel ::
  "chan \<Rightarrow> (OrderChannel \<Rightarrow> ('a option \<times> OrderChannel) option) \<Rightarrow> Channels \<Rightarrow> ('a option \<times> Channels) option" where
  "pop_channel c m chs =
     (case map_of chs c of
        None \<Rightarrow> None
      | Some ch \<Rightarrow> map_option (\<lambda>(r, ch'). (r, AList.update c ch' chs)) (m ch))"

definition channel_ok :: "OrderChannel \<Rightarrow> bool" where
  "channel_ok ch \<longleftrightarrow> NBQ_inv (ch_requests ch) \<and> NBQ_inv (ch_events ch)"

definition channels_ok :: "Channels \<Rightarrow> bool" where
  "channels_ok chs \<longleftrightarrow> (\<forall>c ch. map_of chs c = Some ch \<longrightarrow> channel_ok ch)"

text \<open>What is in flight on a channel: requests the server can see, all requests, all events.\<close>

definition requests_at :: "Channels \<Rightarrow> chan \<Rightarrow> OrderRequest list" where
  "requests_at chs c = (case map_of chs c of None \<Rightarrow> [] | Some ch \<Rightarrow> NBQ_contents (ch_requests ch))"

definition visible_requests :: "Channels \<Rightarrow> chan \<Rightarrow> OrderRequest list" where
  "visible_requests chs c = (case map_of chs c of None \<Rightarrow> [] | Some ch \<Rightarrow> NBQ_published (ch_requests ch))"

definition events_at :: "Channels \<Rightarrow> chan \<Rightarrow> OrderEvent list" where
  "events_at chs c = (case map_of chs c of None \<Rightarrow> [] | Some ch \<Rightarrow> NBQ_contents (ch_events ch))"

definition visible_events :: "Channels \<Rightarrow> chan \<Rightarrow> OrderEvent list" where
  "visible_events chs c = (case map_of chs c of None \<Rightarrow> [] | Some ch \<Rightarrow> NBQ_published (ch_events ch))"

lemmas flight_defs = requests_at_def visible_requests_def events_at_def visible_events_def

lemma OC_new_ok: "OC_new rb eb = Inr ch \<Longrightarrow> channel_ok ch"
  by (auto simp: OC_new_def channel_ok_def NBQ_new_correct split: sum.splits)

text \<open>Pushing an event appends it to the events of its channel and touches nothing else.\<close>

lemma push_event:
  assumes ok: "channels_ok chs" and ch: "c \<in> fst ` set chs"
  obtains chs' where "on_channel c (OC_pushEvent e) chs = Some chs'" "channels_ok chs'"
    "fst ` set chs' = fst ` set chs" "events_at chs' = (events_at chs)(c := events_at chs c @ [e])"
    "visible_requests chs' = visible_requests chs" "requests_at chs' = requests_at chs"
proof -
  obtain x where x: "map_of chs c = Some x" using ch by (metis map_of_eq_None_iff not_None_eq)
  then have "NBQ_inv (ch_events x)" using ok by (simp add: channels_ok_def channel_ok_def del: map_of_eq_Some_iff)
  from nbq.push_law [OF this, of e] obtain q where q: "NBQ_push e (ch_events x) = Some q" "NBQ_inv q"
    "NBQ_contents q = NBQ_contents (ch_events x) @ [e]" by blast
  show ?thesis
  proof (rule that)
    show "on_channel c (OC_pushEvent e) chs = Some (AList.update c (x\<lparr>ch_events := q\<rparr>) chs)"
      using x q by (simp add: on_channel_def OC_pushEvent_def del: map_of_eq_Some_iff)
  qed (use ok ch x q in \<open>auto simp: channels_ok_def channel_ok_def flight_defs fun_eq_iff AList.dom_update
      simp del: map_of_eq_Some_iff split: if_splits\<close>)
qed

text \<open>The server's pop of a request, and the flush of the events of a channel.\<close>

lemma pop_request:
  assumes ok: "channels_ok chs" and ch: "c \<in> fst ` set chs"
  obtains (empty) chs' where "pop_channel c OC_tryPopRequest chs = Some (None, chs')"
      "visible_requests chs c = []" "channels_ok chs'" "fst ` set chs' = fst ` set chs"
      "visible_requests chs' = visible_requests chs" "requests_at chs' = requests_at chs"
      "events_at chs' = events_at chs"
  | (item) r rs chs' where "pop_channel c OC_tryPopRequest chs = Some (Some r, chs')"
      "visible_requests chs c = r # rs" "channels_ok chs'" "fst ` set chs' = fst ` set chs"
      "visible_requests chs' = (visible_requests chs)(c := rs)"
      "requests_at chs' = (requests_at chs)(c := tl (requests_at chs c))"
      "events_at chs' = events_at chs"
proof -
  obtain x where x: "map_of chs c = Some x" using ch by (metis map_of_eq_None_iff not_None_eq)
  then have inv: "NBQ_inv (ch_requests x)" using ok by (simp add: channels_ok_def channel_ok_def del: map_of_eq_Some_iff)
  let ?upd = "\<lambda>q. AList.update c (x\<lparr>ch_requests := q\<rparr>) chs"
  show ?thesis
  proof (cases "NBQ_published (ch_requests x)")
    case Nil
    from nbq.take_none [OF inv this] obtain q where q: "NBQ_tryPop (ch_requests x) = Some (None, q)" "NBQ_inv q"
      "NBQ_contents q = NBQ_contents (ch_requests x)" "NBQ_published q = []" by blast
    show ?thesis
      by (rule empty [of "?upd q"]) (use ok ch x q Nil in \<open>auto simp: pop_channel_def OC_tryPopRequest_def
          channels_ok_def channel_ok_def flight_defs fun_eq_iff AList.dom_update
          simp del: map_of_eq_Some_iff split: if_splits\<close>)
  next
    case (Cons r rs)
    from nbq.take_some [OF inv this] obtain q where q: "NBQ_tryPop (ch_requests x) = Some (Some r, q)" "NBQ_inv q"
      "NBQ_contents (ch_requests x) = r # NBQ_contents q" "NBQ_published q = rs" by blast
    show ?thesis
      by (rule item [of r "?upd q" rs]) (use ok ch x q Cons in \<open>auto simp: pop_channel_def OC_tryPopRequest_def
          channels_ok_def channel_ok_def flight_defs fun_eq_iff AList.dom_update
          simp del: map_of_eq_Some_iff split: if_splits\<close>)
  qed
qed

lemma flush_events:
  assumes ok: "channels_ok chs" and ch: "c \<in> fst ` set chs"
  obtains chs' where "on_channel c OC_flushEvents chs = Some chs'" "channels_ok chs'"
    "fst ` set chs' = fst ` set chs" "events_at chs' = events_at chs"
    "visible_events chs' = (visible_events chs)(c := events_at chs c)"
    "visible_requests chs' = visible_requests chs" "requests_at chs' = requests_at chs"
proof -
  obtain x where x: "map_of chs c = Some x" using ch by (metis map_of_eq_None_iff not_None_eq)
  then have "NBQ_inv (ch_events x)" using ok by (simp add: channels_ok_def channel_ok_def del: map_of_eq_Some_iff)
  from nbq.flush_law [OF this] obtain q where q: "NBQ_flush (ch_events x) = Some q" "NBQ_inv q"
    "NBQ_contents q = NBQ_contents (ch_events x)" "NBQ_published q = NBQ_contents (ch_events x)" by blast
  show ?thesis
    by (rule that [of "AList.update c (x\<lparr>ch_events := q\<rparr>) chs"]) (use ok ch x q in \<open>auto simp: on_channel_def
        OC_flushEvents_def channels_ok_def channel_ok_def flight_defs fun_eq_iff AList.dom_update
        simp del: map_of_eq_Some_iff split: if_splits\<close>)
qed

lemma push_request:
  assumes ok: "channels_ok chs" and ch: "c \<in> fst ` set chs"
  obtains chs' where "on_channel c (OC_pushRequest r) chs = Some chs'" "channels_ok chs'"
    "fst ` set chs' = fst ` set chs" "requests_at chs' = (requests_at chs)(c := requests_at chs c @ [r])"
    "events_at chs' = events_at chs" "visible_events chs' = visible_events chs"
proof -
  obtain x where x: "map_of chs c = Some x" using ch by (metis map_of_eq_None_iff not_None_eq)
  then have "NBQ_inv (ch_requests x)" using ok by (simp add: channels_ok_def channel_ok_def del: map_of_eq_Some_iff)
  from nbq.push_law [OF this, of r] obtain q where q: "NBQ_push r (ch_requests x) = Some q" "NBQ_inv q"
    "NBQ_contents q = NBQ_contents (ch_requests x) @ [r]" by blast
  show ?thesis
    by (rule that [of "AList.update c (x\<lparr>ch_requests := q\<rparr>) chs"]) (use ok ch x q in \<open>auto simp: on_channel_def
        OC_pushRequest_def channels_ok_def channel_ok_def flight_defs fun_eq_iff AList.dom_update
        simp del: map_of_eq_Some_iff split: if_splits\<close>)
qed

lemma flush_requests:
  assumes ok: "channels_ok chs" and ch: "c \<in> fst ` set chs"
  obtains chs' where "on_channel c OC_flushRequests chs = Some chs'" "channels_ok chs'"
    "fst ` set chs' = fst ` set chs" "requests_at chs' = requests_at chs"
    "visible_requests chs' = (visible_requests chs)(c := requests_at chs c)"
    "events_at chs' = events_at chs" "visible_events chs' = visible_events chs"
proof -
  obtain x where x: "map_of chs c = Some x" using ch by (metis map_of_eq_None_iff not_None_eq)
  then have "NBQ_inv (ch_requests x)" using ok by (simp add: channels_ok_def channel_ok_def del: map_of_eq_Some_iff)
  from nbq.flush_law [OF this] obtain q where q: "NBQ_flush (ch_requests x) = Some q" "NBQ_inv q"
    "NBQ_contents q = NBQ_contents (ch_requests x)" "NBQ_published q = NBQ_contents (ch_requests x)" by blast
  show ?thesis
    by (rule that [of "AList.update c (x\<lparr>ch_requests := q\<rparr>) chs"]) (use ok ch x q in \<open>auto simp: on_channel_def
        OC_flushRequests_def channels_ok_def channel_ok_def flight_defs fun_eq_iff AList.dom_update
        simp del: map_of_eq_Some_iff split: if_splits\<close>)
qed

lemma pop_event:
  assumes ok: "channels_ok chs" and ch: "c \<in> fst ` set chs"
  obtains (empty) chs' where "pop_channel c OC_tryPopEvent chs = Some (None, chs')"
      "visible_events chs c = []" "channels_ok chs'" "fst ` set chs' = fst ` set chs"
      "visible_events chs' = visible_events chs" "events_at chs' = events_at chs"
      "requests_at chs' = requests_at chs"
  | (item) e es chs' where "pop_channel c OC_tryPopEvent chs = Some (Some e, chs')"
      "visible_events chs c = e # es" "channels_ok chs'" "fst ` set chs' = fst ` set chs"
      "visible_events chs' = (visible_events chs)(c := es)"
      "events_at chs' = (events_at chs)(c := tl (events_at chs c))"
      "requests_at chs' = requests_at chs"
proof -
  obtain x where x: "map_of chs c = Some x" using ch by (metis map_of_eq_None_iff not_None_eq)
  then have inv: "NBQ_inv (ch_events x)" using ok by (simp add: channels_ok_def channel_ok_def del: map_of_eq_Some_iff)
  let ?upd = "\<lambda>q. AList.update c (x\<lparr>ch_events := q\<rparr>) chs"
  show ?thesis
  proof (cases "NBQ_published (ch_events x)")
    case Nil
    from nbq.take_none [OF inv this] obtain q where q: "NBQ_tryPop (ch_events x) = Some (None, q)" "NBQ_inv q"
      "NBQ_contents q = NBQ_contents (ch_events x)" "NBQ_published q = []" by blast
    show ?thesis
      by (rule empty [of "?upd q"]) (use ok ch x q Nil in \<open>auto simp: pop_channel_def OC_tryPopEvent_def
          channels_ok_def channel_ok_def flight_defs fun_eq_iff AList.dom_update
          simp del: map_of_eq_Some_iff split: if_splits\<close>)
  next
    case (Cons r rs)
    from nbq.take_some [OF inv this] obtain q where q: "NBQ_tryPop (ch_events x) = Some (Some r, q)" "NBQ_inv q"
      "NBQ_contents (ch_events x) = r # NBQ_contents q" "NBQ_published q = rs" by blast
    show ?thesis
      by (rule item [of r "?upd q" rs]) (use ok ch x q Cons in \<open>auto simp: pop_channel_def OC_tryPopEvent_def
          channels_ok_def channel_ok_def flight_defs fun_eq_iff AList.dom_update
          simp del: map_of_eq_Some_iff split: if_splits\<close>)
  qed
qed

end
