(* ===== verification/OrderGateway.thy ===== *)
theory OrderGateway
  imports OrderMessage
begin

text \<open>
  \<^verbatim>\<open>src/gateway/OrderGatewayServer.{hpp,cpp}\<close>: validation of the requests of all trading
  engines, the store of their orders, acknowledgements, rejects and fill notifications. An
  operation that pushes an event acts on the store of channels; \<open>None\<close> is a fault of a queue,
  which is proved not to occur. \<open>verdict\<close> and \<open>reply\<close> specify the answer to one request.
\<close>

section \<open>State\<close>

record OrderGatewaySession =
  se_trading_engine_id :: trading_engine_id
  se_channel :: chan

record OrderSnapshot =
  os_trading_engine_id :: trading_engine_id
  os_order_id :: order_id
  os_instrument_id :: instrument_id
  os_side :: Side
  os_price :: price
  os_original_size :: quantity
  os_remaining_size :: quantity
  os_status :: OrderStatus
  os_last_timestamp_ns :: timestamp_ns

definition default_snapshot :: OrderSnapshot where
  "default_snapshot =
     \<lparr>os_trading_engine_id = 0, os_order_id = 0, os_instrument_id = 0, os_side = SideNone,
      os_price = i64 0, os_original_size = 0, os_remaining_size = 0, os_status = New,
      os_last_timestamp_ns = i64 0\<rparr>"

datatype OrderGatewayTransitionType =
  TransNewAccepted | TransModifyAccepted | TransCancelAccepted | TransRejected

record OrderGatewayTransition =
  tr_type :: OrderGatewayTransitionType
  tr_request_type :: OrderMessageType
  tr_fields :: OrderFields
  tr_snapshot :: OrderSnapshot
  tr_reject_reason :: OrderRejectReason
  tr_reject_text :: string

type_synonym OrderKey = "trading_engine_id \<times> order_id"
type_synonym Orders = "(OrderKey, OrderSnapshot) umap"

text \<open>
  The hash of the container of orders, with \<^verbatim>\<open>std::hash\<close> of the two numbers as arguments. Nothing
  depends on its values but the speed of a lookup: two orders of one engine share a hash only if
  \<^verbatim>\<open>std::hash\<close> maps their numbers to one value.
\<close>

definition OrderKeyHash :: "(trading_engine_id \<Rightarrow> u64) \<Rightarrow> (order_id \<Rightarrow> u64) \<Rightarrow> OrderKey \<Rightarrow> u64" where
  "OrderKeyHash hash_engine hash_order key =
     (let engine_hash = hash_engine (fst key); order_hash = hash_order (snd key)
      in xor engine_hash (order_hash + 0x9e3779b97f4a7c15 + push_bit 6 engine_hash + drop_bit 2 engine_hash))"

lemma OrderKeyHash_same_engine:
  "OrderKeyHash he ho (e, o1) = OrderKeyHash he ho (e, o2) \<longleftrightarrow> ho o1 = ho o2"
proof
  assume "OrderKeyHash he ho (e, o1) = OrderKeyHash he ho (e, o2)"
  then have "xor (he e) (OrderKeyHash he ho (e, o1)) = xor (he e) (OrderKeyHash he ho (e, o2))" by simp
  then show "ho o1 = ho o2" by (simp add: OrderKeyHash_def Let_def xor.assoc [symmetric])
qed (simp add: OrderKeyHash_def)

record OrderGatewayServer =
  gs_engine_order :: "trading_engine_id list"
  gs_sessions :: "(trading_engine_id, OrderGatewaySession) umap"
  gs_orders :: Orders

definition GS_new :: OrderGatewayServer where
  "GS_new = \<lparr>gs_engine_order = [], gs_sessions = [], gs_orders = []\<rparr>"

section \<open>Sessions\<close>

definition GS_hasEngine :: "trading_engine_id \<Rightarrow> OrderGatewayServer \<Rightarrow> bool" where
  "GS_hasEngine eid s \<longleftrightarrow> map_of (gs_sessions s) eid \<noteq> None"

text \<open>A null pointer is \<open>None\<close>.\<close>

definition GS_registerEngine ::
  "trading_engine_id \<Rightarrow> chan option \<Rightarrow> OrderGatewayServer \<Rightarrow> exn + OrderGatewayServer" where
  "GS_registerEngine eid channel s =
     (case channel of
        None \<Rightarrow> Inl (invalid_argument ''OrderGatewayServer requires a non-null OrderChannel'')
      | Some c \<Rightarrow>
          (let s1 = (if \<not> GS_hasEngine eid s then s\<lparr>gs_engine_order := gs_engine_order s @ [eid]\<rparr> else s)
           in Inr (s1\<lparr>gs_sessions := AList.update eid
                     \<lparr>se_trading_engine_id = eid, se_channel = c\<rparr> (gs_sessions s1)\<rparr>)))"

definition GS_engineCount :: "OrderGatewayServer \<Rightarrow> nat" where
  "GS_engineCount s = length (gs_sessions s)"

definition GS_channelFor :: "trading_engine_id \<Rightarrow> OrderGatewayServer \<Rightarrow> chan option" where
  "GS_channelFor eid s = map_option se_channel (map_of (gs_sessions s) eid)"

section \<open>Replies\<close>

definition GS_isTerminal :: "OrderStatus \<Rightarrow> bool" where
  "GS_isTerminal status \<longleftrightarrow> status = Filled \<or> status = Cancelled \<or> status = Rejected"

definition GS_isValidActiveSide :: "Side \<Rightarrow> bool" where
  "GS_isValidActiveSide side \<longleftrightarrow> side = Bid \<or> side = Ask"

fun GS_rejectText :: "OrderRejectReason \<Rightarrow> string" where
  "GS_rejectText DuplicateOrderId = ''duplicate order id''"
| "GS_rejectText UnknownOrderId = ''unknown order id''"
| "GS_rejectText InvalidInstrument = ''invalid instrument''"
| "GS_rejectText InvalidSide = ''invalid side''"
| "GS_rejectText InvalidPrice = ''invalid price''"
| "GS_rejectText InvalidQuantity = ''invalid quantity''"
| "GS_rejectText AlreadyTerminal = ''order already terminal''"
| "GS_rejectText InternalError = ''internal error''"

definition GS_pushAck ::
  "OrderGatewaySession \<Rightarrow> OrderFields \<Rightarrow> OrderAckType \<Rightarrow> OrderStatus \<Rightarrow> Channels \<Rightarrow> Channels option" where
  "GS_pushAck session request_fields ack_type final_status chs =
     (let ack = \<lparr>ak_fields = request_fields\<lparr>fd_trading_engine_id := se_trading_engine_id session,
                   fd_status := final_status\<rparr>, ak_type = ack_type\<rparr>
      in on_channel (se_channel session) (OC_pushEvent (AckEvent ack)) chs)"

definition GS_pushReject ::
  "OrderGatewaySession \<Rightarrow> OrderFields \<Rightarrow> OrderMessageType \<Rightarrow> OrderRejectReason \<Rightarrow> Channels \<Rightarrow>
   (OrderGatewayTransition \<times> Channels) option" where
  "GS_pushReject session request_fields request_type reason chs =
     (let fs = request_fields\<lparr>fd_trading_engine_id := se_trading_engine_id session, fd_status := Rejected\<rparr>;
          reject = \<lparr>rj_fields = fs, rj_reason = reason, rj_text = GS_rejectText reason\<rparr>
      in do {
        chs' \<leftarrow> on_channel (se_channel session) (OC_pushEvent (RejectEvent reject)) chs;
        Some (\<lparr>tr_type = TransRejected, tr_request_type = request_type, tr_fields = fs,
               tr_snapshot = default_snapshot, tr_reject_reason = reason,
               tr_reject_text = GS_rejectText reason\<rparr>, chs')
      })"

definition GS_acceptedTransition ::
  "OrderGatewayTransitionType \<Rightarrow> OrderMessageType \<Rightarrow> OrderFields \<Rightarrow> OrderSnapshot \<Rightarrow> OrderStatus \<Rightarrow>
   OrderGatewayTransition" where
  "GS_acceptedTransition type request_type request_fields snapshot final_status =
     \<lparr>tr_type = type, tr_request_type = request_type,
      tr_fields = request_fields\<lparr>fd_trading_engine_id := os_trading_engine_id snapshot, fd_status := final_status\<rparr>,
      tr_snapshot = snapshot, tr_reject_reason = InternalError, tr_reject_text = []\<rparr>"

section \<open>Requests\<close>

definition snapshot_of_new :: "OrderGatewaySession \<Rightarrow> OrderFields \<Rightarrow> OrderSnapshot" where
  "snapshot_of_new session f =
     \<lparr>os_trading_engine_id = se_trading_engine_id session, os_order_id = fd_order_id f,
      os_instrument_id = fd_instrument_id f, os_side = fd_side f, os_price = fd_price f,
      os_original_size = fd_size f, os_remaining_size = fd_size f, os_status = Accepted,
      os_last_timestamp_ns = fd_timestamp_ns f\<rparr>"

definition GS_processNewOrder ::
  "OrderGatewaySession \<Rightarrow> OrderFields \<Rightarrow> OrderGatewayServer \<Rightarrow> Channels \<Rightarrow>
   (OrderGatewayTransition \<times> OrderGatewayServer \<times> Channels) option" where
  "GS_processNewOrder session f s chs =
     (let key = (se_trading_engine_id session, fd_order_id f);
          reject = (\<lambda>reason. do { (t, chs') \<leftarrow> GS_pushReject session f NewOrderMsg reason chs; Some (t, s, chs') })
      in if map_of (gs_orders s) key \<noteq> None then reject DuplicateOrderId
         else if fd_instrument_id f = 0 then reject InvalidInstrument
         else if \<not> GS_isValidActiveSide (fd_side f) then reject InvalidSide
         else if \<not> isDefinedPrice (fd_price f) then reject InvalidPrice
         else if fd_size f = 0 then reject InvalidQuantity
         else do {
           let snapshot = snapshot_of_new session f;
           let s' = s\<lparr>gs_orders := AList.update key snapshot (gs_orders s)\<rparr>;
           chs' \<leftarrow> GS_pushAck session f NewAccepted Accepted chs;
           Some (GS_acceptedTransition TransNewAccepted NewOrderMsg f snapshot Accepted, s', chs')
         })"

definition GS_processCancelOrder ::
  "OrderGatewaySession \<Rightarrow> OrderFields \<Rightarrow> OrderGatewayServer \<Rightarrow> Channels \<Rightarrow>
   (OrderGatewayTransition \<times> OrderGatewayServer \<times> Channels) option" where
  "GS_processCancelOrder session f s chs =
     (let key = (se_trading_engine_id session, fd_order_id f);
          reject = (\<lambda>reason. do { (t, chs') \<leftarrow> GS_pushReject session f CancelOrderMsg reason chs; Some (t, s, chs') })
      in case map_of (gs_orders s) key of
           None \<Rightarrow> reject UnknownOrderId
         | Some order \<Rightarrow>
             if GS_isTerminal (os_status order) then reject AlreadyTerminal
             else do {
               let order' = order\<lparr>os_status := Cancelled, os_last_timestamp_ns := fd_timestamp_ns f\<rparr>;
               let s' = s\<lparr>gs_orders := AList.update key order' (gs_orders s)\<rparr>;
               chs' \<leftarrow> GS_pushAck session f CancelAccepted Cancelled chs;
               Some (GS_acceptedTransition TransCancelAccepted CancelOrderMsg f order' Cancelled, s', chs')
             })"

definition GS_processModifyOrder ::
  "OrderGatewaySession \<Rightarrow> OrderFields \<Rightarrow> OrderGatewayServer \<Rightarrow> Channels \<Rightarrow>
   (OrderGatewayTransition \<times> OrderGatewayServer \<times> Channels) option" where
  "GS_processModifyOrder session f s chs =
     (let key = (se_trading_engine_id session, fd_order_id f);
          reject = (\<lambda>reason. do { (t, chs') \<leftarrow> GS_pushReject session f ModifyOrderMsg reason chs; Some (t, s, chs') })
      in case map_of (gs_orders s) key of
           None \<Rightarrow> reject UnknownOrderId
         | Some order \<Rightarrow>
             if GS_isTerminal (os_status order) then reject AlreadyTerminal
             else if \<not> GS_isValidActiveSide (fd_side f) then reject InvalidSide
             else if \<not> isDefinedPrice (fd_price f) then reject InvalidPrice
             else if fd_size f = 0 then reject InvalidQuantity
             else do {
               let order' = order\<lparr>os_side := fd_side f, os_price := fd_price f, os_original_size := fd_size f,
                     os_remaining_size := fd_size f, os_status := Accepted,
                     os_last_timestamp_ns := fd_timestamp_ns f\<rparr>;
               let s' = s\<lparr>gs_orders := AList.update key order' (gs_orders s)\<rparr>;
               chs' \<leftarrow> GS_pushAck session f ModifyAccepted Accepted chs;
               Some (GS_acceptedTransition TransModifyAccepted ModifyOrderMsg f order' Accepted, s', chs')
             })"

fun GS_processRequest ::
  "OrderGatewaySession \<Rightarrow> OrderRequest \<Rightarrow> OrderGatewayServer \<Rightarrow> Channels \<Rightarrow>
   (OrderGatewayTransition \<times> OrderGatewayServer \<times> Channels) option" where
  "GS_processRequest session (NewOrder f) s chs = GS_processNewOrder session f s chs"
| "GS_processRequest session (CancelOrder f) s chs = GS_processCancelOrder session f s chs"
| "GS_processRequest session (ModifyOrder f) s chs = GS_processModifyOrder session f s chs"

text \<open>The \<^verbatim>\<open>while\<close> loop over one session, then the \<^verbatim>\<open>for\<close> loop over the engines in order.\<close>

partial_function (option) GS_drainSession ::
  "OrderGatewaySession \<Rightarrow> OrderGatewayServer \<Rightarrow> Channels \<Rightarrow> OrderGatewayTransition list \<Rightarrow> u64 \<Rightarrow>
   (OrderGatewayServer \<times> Channels \<times> OrderGatewayTransition list \<times> u64) option" where
  "GS_drainSession session s chs transitions drained =
     Option.bind (pop_channel (se_channel session) OC_tryPopRequest chs) (\<lambda>(request, chs1).
       case request of
         None \<Rightarrow> Some (s, chs1, transitions, drained)
       | Some r \<Rightarrow>
           Option.bind (GS_processRequest session r s chs1) (\<lambda>(t, s', chs2).
             GS_drainSession session s' chs2 (transitions @ [t]) (drained + 1)))"

declare GS_drainSession.simps [code]

fun GS_drainEngines ::
  "trading_engine_id list \<Rightarrow> OrderGatewayServer \<Rightarrow> Channels \<Rightarrow> OrderGatewayTransition list \<Rightarrow> u64 \<Rightarrow>
   (OrderGatewayServer \<times> Channels \<times> OrderGatewayTransition list \<times> u64) option" where
  "GS_drainEngines [] s chs transitions drained = Some (s, chs, transitions, drained)"
| "GS_drainEngines (eid # eids) s chs transitions drained =
     (case map_of (gs_sessions s) eid of
        None \<Rightarrow> GS_drainEngines eids s chs transitions drained
      | Some session \<Rightarrow>
          Option.bind (GS_drainSession session s chs transitions drained) (\<lambda>(s', chs', transitions', drained').
            GS_drainEngines eids s' chs' transitions' drained'))"

definition GS_drainRequests_into ::
  "OrderGatewayServer \<Rightarrow> Channels \<Rightarrow> OrderGatewayTransition list \<Rightarrow>
   (OrderGatewayServer \<times> Channels \<times> OrderGatewayTransition list \<times> u64) option" where
  "GS_drainRequests_into s chs transitions = GS_drainEngines (gs_engine_order s) s chs transitions 0"

definition GS_drainRequests ::
  "OrderGatewayServer \<Rightarrow> Channels \<Rightarrow> (u64 \<times> OrderGatewayServer \<times> Channels) option" where
  "GS_drainRequests s chs =
     map_option (\<lambda>(s', chs', ignored, drained). (drained, s', chs')) (GS_drainRequests_into s chs [])"

definition GS_drainRequestTransitions ::
  "OrderGatewayServer \<Rightarrow> Channels \<Rightarrow> (OrderGatewayTransition list \<times> OrderGatewayServer \<times> Channels) option" where
  "GS_drainRequestTransitions s chs =
     map_option (\<lambda>(s', chs', transitions, drained). (transitions, s', chs')) (GS_drainRequests_into s chs [])"

fun GS_flushEngines ::
  "trading_engine_id list \<Rightarrow> OrderGatewayServer \<Rightarrow> Channels \<Rightarrow> Channels option" where
  "GS_flushEngines [] s chs = Some chs"
| "GS_flushEngines (eid # eids) s chs =
     (case map_of (gs_sessions s) eid of
        None \<Rightarrow> GS_flushEngines eids s chs
      | Some session \<Rightarrow>
          Option.bind (on_channel (se_channel session) OC_flushEvents chs) (GS_flushEngines eids s))"

definition GS_flushEvents :: "OrderGatewayServer \<Rightarrow> Channels \<Rightarrow> Channels option" where
  "GS_flushEvents s chs = GS_flushEngines (gs_engine_order s) s chs"

section \<open>Fills and queries\<close>

definition GS_emitFill ::
  "trading_engine_id \<Rightarrow> order_id \<Rightarrow> price \<Rightarrow> quantity \<Rightarrow> timestamp_ns \<Rightarrow> OrderGatewayServer \<Rightarrow> Channels \<Rightarrow>
   (bool \<times> OrderGatewayServer \<times> Channels) option" where
  "GS_emitFill eid oid fill_price fill_size timestamp s chs =
     (if fill_size = 0 then Some (False, s, chs)
      else case map_of (gs_sessions s) eid of
        None \<Rightarrow> Some (False, s, chs)
      | Some session \<Rightarrow>
          (case map_of (gs_orders s) (eid, oid) of
             None \<Rightarrow> Some (False, s, chs)
           | Some order \<Rightarrow>
               if GS_isTerminal (os_status order) then Some (False, s, chs)
               else do {
                 let actual_fill_size = (if fill_size < os_remaining_size order then fill_size else os_remaining_size order);
                 let remaining = os_remaining_size order - actual_fill_size;
                 let order' = order\<lparr>os_remaining_size := remaining,
                       os_status := (if remaining = 0 then Filled else PartiallyFilled),
                       os_last_timestamp_ns := timestamp\<rparr>;
                 let fill = \<lparr>fl_fields = \<lparr>fd_trading_engine_id = os_trading_engine_id order',
                         fd_order_id = os_order_id order', fd_instrument_id = os_instrument_id order',
                         fd_side = os_side order', fd_price = os_price order', fd_size = os_original_size order',
                         fd_timestamp_ns = timestamp, fd_status = os_status order'\<rparr>,
                       fl_fill_price = fill_price, fl_fill_size = actual_fill_size,
                       fl_remaining_size = os_remaining_size order'\<rparr>;
                 chs' \<leftarrow> on_channel (se_channel session) (OC_pushEvent (FillEvent fill)) chs;
                 Some (True, s\<lparr>gs_orders := AList.update (eid, oid) order' (gs_orders s)\<rparr>, chs')
               }))"

definition GS_openOrderCount :: "OrderGatewayServer \<Rightarrow> nat" where
  "GS_openOrderCount s = length (filter (\<lambda>(key, order). \<not> GS_isTerminal (os_status order)) (gs_orders s))"

definition GS_findOrder :: "trading_engine_id \<Rightarrow> order_id \<Rightarrow> OrderGatewayServer \<Rightarrow> OrderSnapshot option" where
  "GS_findOrder eid oid s = map_of (gs_orders s) (eid, oid)"

section \<open>Specification of one request\<close>

text \<open>
  The validation tables of \<^verbatim>\<open>docs/order_trade_protocol.md\<close>: the checks of each request type in
  order; the first one that holds is the reason of the reject.
\<close>

type_synonym order_map = "OrderKey \<rightharpoonup> OrderSnapshot"

fun checks :: "order_map \<Rightarrow> trading_engine_id \<Rightarrow> OrderRequest \<Rightarrow> (bool \<times> OrderRejectReason) list" where
  "checks m eid (NewOrder f) =
     [(m (eid, fd_order_id f) \<noteq> None, DuplicateOrderId), (fd_instrument_id f = 0, InvalidInstrument),
      (fd_side f = SideNone, InvalidSide), (fd_price f = undefined_price, InvalidPrice),
      (fd_size f = 0, InvalidQuantity)]"
| "checks m eid (CancelOrder f) =
     [(m (eid, fd_order_id f) = None, UnknownOrderId),
      (\<exists>x. m (eid, fd_order_id f) = Some x \<and> os_status x \<in> {Filled, Cancelled, Rejected}, AlreadyTerminal)]"
| "checks m eid (ModifyOrder f) =
     [(m (eid, fd_order_id f) = None, UnknownOrderId),
      (\<exists>x. m (eid, fd_order_id f) = Some x \<and> os_status x \<in> {Filled, Cancelled, Rejected}, AlreadyTerminal),
      (fd_side f = SideNone, InvalidSide), (fd_price f = undefined_price, InvalidPrice),
      (fd_size f = 0, InvalidQuantity)]"

definition verdict :: "order_map \<Rightarrow> trading_engine_id \<Rightarrow> OrderRequest \<Rightarrow> OrderRejectReason option" where
  "verdict m eid r = map_option snd (List.find fst (checks m eid r))"

text \<open>The order as it is stored after an accepted request, and the reply that is sent.\<close>

fun accepted_order :: "order_map \<Rightarrow> trading_engine_id \<Rightarrow> OrderRequest \<Rightarrow> OrderSnapshot" where
  "accepted_order m eid (NewOrder f) =
     \<lparr>os_trading_engine_id = eid, os_order_id = fd_order_id f, os_instrument_id = fd_instrument_id f,
      os_side = fd_side f, os_price = fd_price f, os_original_size = fd_size f, os_remaining_size = fd_size f,
      os_status = Accepted, os_last_timestamp_ns = fd_timestamp_ns f\<rparr>"
| "accepted_order m eid (CancelOrder f) =
     (the (m (eid, fd_order_id f)))\<lparr>os_status := Cancelled, os_last_timestamp_ns := fd_timestamp_ns f\<rparr>"
| "accepted_order m eid (ModifyOrder f) =
     (the (m (eid, fd_order_id f)))\<lparr>os_side := fd_side f, os_price := fd_price f,
       os_original_size := fd_size f, os_remaining_size := fd_size f, os_status := Accepted,
       os_last_timestamp_ns := fd_timestamp_ns f\<rparr>"

fun ack_of :: "OrderRequest \<Rightarrow> OrderAckType \<times> OrderStatus" where
  "ack_of (NewOrder _) = (NewAccepted, Accepted)"
| "ack_of (CancelOrder _) = (CancelAccepted, Cancelled)"
| "ack_of (ModifyOrder _) = (ModifyAccepted, Accepted)"

definition reply :: "order_map \<Rightarrow> trading_engine_id \<Rightarrow> OrderRequest \<Rightarrow> OrderEvent" where
  "reply m eid r =
     (case verdict m eid r of
        Some reason \<Rightarrow> RejectEvent \<lparr>rj_fields = (fields_request r)\<lparr>fd_trading_engine_id := eid, fd_status := Rejected\<rparr>,
          rj_reason = reason, rj_text = GS_rejectText reason\<rparr>
      | None \<Rightarrow> AckEvent \<lparr>ak_fields = (fields_request r)\<lparr>fd_trading_engine_id := eid, fd_status := snd (ack_of r)\<rparr>,
          ak_type = fst (ack_of r)\<rparr>)"

definition after_request :: "order_map \<Rightarrow> trading_engine_id \<Rightarrow> OrderRequest \<Rightarrow> order_map" where
  "after_request m eid r =
     (case verdict m eid r of
        Some _ \<Rightarrow> m
      | None \<Rightarrow> m((eid, fd_order_id (fields_request r)) \<mapsto> accepted_order m eid r))"

lemma verdict_simps:
  "verdict m eid (NewOrder f) =
     (if m (eid, fd_order_id f) \<noteq> None then Some DuplicateOrderId
      else if fd_instrument_id f = 0 then Some InvalidInstrument
      else if \<not> GS_isValidActiveSide (fd_side f) then Some InvalidSide
      else if \<not> isDefinedPrice (fd_price f) then Some InvalidPrice
      else if fd_size f = 0 then Some InvalidQuantity else None)"
  "verdict m eid (CancelOrder f) =
     (case m (eid, fd_order_id f) of
        None \<Rightarrow> Some UnknownOrderId
      | Some x \<Rightarrow> if GS_isTerminal (os_status x) then Some AlreadyTerminal else None)"
  "verdict m eid (ModifyOrder f) =
     (case m (eid, fd_order_id f) of
        None \<Rightarrow> Some UnknownOrderId
      | Some x \<Rightarrow>
          if GS_isTerminal (os_status x) then Some AlreadyTerminal
          else if \<not> GS_isValidActiveSide (fd_side f) then Some InvalidSide
          else if \<not> isDefinedPrice (fd_price f) then Some InvalidPrice
          else if fd_size f = 0 then Some InvalidQuantity else None)"
  by (cases "fd_side f"; auto simp: verdict_def GS_isValidActiveSide_def GS_isTerminal_def isDefinedPrice_def
      split: option.split)+

text \<open>
  Processing a request never faults: it stores the order of the specification and pushes exactly
  the specified reply on the channel of the session.
\<close>

lemma GS_processRequest_correct:
  assumes ok: "channels_ok chs" and ch: "se_channel session \<in> fst ` set chs"
  defines "eid \<equiv> se_trading_engine_id session" and "c \<equiv> se_channel session"
  shows "\<exists>t s' chs'. GS_processRequest session r s chs = Some (t, s', chs') \<and>
     map_of (gs_orders s') = after_request (map_of (gs_orders s)) eid r \<and>
     s' = s\<lparr>gs_orders := gs_orders s'\<rparr> \<and>
     (distinct (keys (gs_orders s)) \<longrightarrow> distinct (keys (gs_orders s'))) \<and>
     channels_ok chs' \<and> fst ` set chs' = fst ` set chs \<and>
     events_at chs' = (events_at chs)(c := events_at chs c @ [reply (map_of (gs_orders s)) eid r]) \<and>
     visible_requests chs' = visible_requests chs \<and> requests_at chs' = requests_at chs \<and>
     (tr_type t = TransRejected) = (verdict (map_of (gs_orders s)) eid r \<noteq> None)"
proof -
  from push_event [OF ok ch, of "reply (map_of (gs_orders s)) eid r"] obtain chs' where
    chs': "on_channel c (OC_pushEvent (reply (map_of (gs_orders s)) eid r)) chs = Some chs'" "channels_ok chs'"
    "fst ` set chs' = fst ` set chs"
    "events_at chs' = (events_at chs)(c := events_at chs c @ [reply (map_of (gs_orders s)) eid r])"
    "visible_requests chs' = visible_requests chs" "requests_at chs' = requests_at chs"
    unfolding c_def .
  have "\<exists>t s'. GS_processRequest session r s chs = Some (t, s', chs') \<and>
      map_of (gs_orders s') = after_request (map_of (gs_orders s)) eid r \<and> s' = s\<lparr>gs_orders := gs_orders s'\<rparr> \<and>
      (distinct (keys (gs_orders s)) \<longrightarrow> distinct (keys (gs_orders s'))) \<and>
      (tr_type t = TransRejected) = (verdict (map_of (gs_orders s)) eid r \<noteq> None)"
    using chs'(1)
    by (cases r)
      (auto simp: GS_processNewOrder_def GS_processCancelOrder_def GS_processModifyOrder_def Let_def eid_def c_def
        after_request_def reply_def verdict_simps GS_pushReject_def GS_pushAck_def GS_acceptedTransition_def
        snapshot_of_new_def AList.update_conv' distinct_keys_update
        simp del: map_of_eq_Some_iff map_of_eq_None_iff split: option.splits if_splits)
  then show ?thesis using chs' by blast
qed

section \<open>Draining\<close>

text \<open>The replies to a list of requests of one engine, and the orders after them.\<close>

fun replies :: "order_map \<Rightarrow> trading_engine_id \<Rightarrow> OrderRequest list \<Rightarrow> OrderEvent list" where
  "replies m eid [] = []"
| "replies m eid (r # rs) = reply m eid r # replies (after_request m eid r) eid rs"

abbreviation after_requests :: "order_map \<Rightarrow> trading_engine_id \<Rightarrow> OrderRequest list \<Rightarrow> order_map" where
  "after_requests m eid rs \<equiv> foldl (\<lambda>m r. after_request m eid r) m rs"

lemma length_replies [simp]: "length (replies m eid rs) = length rs"
  by (induction m eid rs rule: replies.induct) auto

lemma GS_drainSession_correct:
  assumes "channels_ok chs" "se_channel session \<in> fst ` set chs"
  defines "eid \<equiv> se_trading_engine_id session" and "c \<equiv> se_channel session"
  shows "\<exists>s' chs' ts. GS_drainSession session s chs transitions drained =
       Some (s', chs', transitions @ ts, drained + of_nat (length (visible_requests chs c))) \<and>
     map_of (gs_orders s') = after_requests (map_of (gs_orders s)) eid (visible_requests chs c) \<and>
     s' = s\<lparr>gs_orders := gs_orders s'\<rparr> \<and>
     (distinct (keys (gs_orders s)) \<longrightarrow> distinct (keys (gs_orders s'))) \<and>
     channels_ok chs' \<and> fst ` set chs' = fst ` set chs \<and>
     events_at chs' = (events_at chs)(c := events_at chs c @
       replies (map_of (gs_orders s)) eid (visible_requests chs c)) \<and>
     visible_requests chs' = (visible_requests chs)(c := []) \<and> length ts = length (visible_requests chs c)"
  using assms(1,2)
proof (induction "visible_requests chs c" arbitrary: s chs transitions drained)
  case Nil
  from Nil.prems show ?case
  proof (cases rule: pop_request)
    case (empty chs')
    with Nil(1) show ?thesis
      by (subst GS_drainSession.simps) (auto simp: c_def)
  next
    case (item r rs chs')
    with Nil(1) show ?thesis by (simp add: c_def)
  qed
next
  case (Cons r rs)
  from Cons.prems show ?case
  proof (cases rule: pop_request)
    case (empty chs')
    with Cons(2) show ?thesis by (simp add: c_def)
  next
    case (item r' rs' chs1)
    with Cons(2) have r': "r' = r" "rs' = rs" by (auto simp: c_def)
    have "se_channel session \<in> fst ` set chs1" using item Cons.prems by simp
    from GS_processRequest_correct [OF item(3) this, of r s, folded eid_def c_def] obtain t s2 chs2 where
      p: "GS_processRequest session r s chs1 = Some (t, s2, chs2)"
      "map_of (gs_orders s2) = after_request (map_of (gs_orders s)) eid r" "s2 = s\<lparr>gs_orders := gs_orders s2\<rparr>"
      "distinct (keys (gs_orders s)) \<longrightarrow> distinct (keys (gs_orders s2))"
      "channels_ok chs2" "fst ` set chs2 = fst ` set chs1"
      "events_at chs2 = (events_at chs1)(c := events_at chs1 c @ [reply (map_of (gs_orders s)) eid r])"
      "visible_requests chs2 = visible_requests chs1" by blast
    have rs: "rs = visible_requests chs2 c" using item p r' by (simp add: c_def)
    have "se_channel session \<in> fst ` set chs2" using p(6) item Cons.prems by simp
    from Cons.hyps(1) [OF rs p(5) this, of s2 "transitions @ [t]" "drained + 1"] obtain s' chs' ts where
      d: "GS_drainSession session s2 chs2 (transitions @ [t]) (drained + 1) =
          Some (s', chs', (transitions @ [t]) @ ts, (drained + 1) + of_nat (length rs))"
        "map_of (gs_orders s') = after_requests (map_of (gs_orders s2)) eid rs"
        "s' = s2\<lparr>gs_orders := gs_orders s'\<rparr>"
        "distinct (keys (gs_orders s2)) \<longrightarrow> distinct (keys (gs_orders s'))"
        "channels_ok chs'" "fst ` set chs' = fst ` set chs2"
        "events_at chs' = (events_at chs2)(c := events_at chs2 c @ replies (map_of (gs_orders s2)) eid rs)"
        "visible_requests chs' = (visible_requests chs2)(c := [])" "length ts = length rs"
      unfolding rs [symmetric] by blast
    have "GS_drainSession session s chs transitions drained =
        GS_drainSession session s2 chs2 (transitions @ [t]) (drained + 1)"
      using item(1) p(1) by (subst GS_drainSession.simps) (simp add: r')
    moreover have "s' = s\<lparr>gs_orders := gs_orders s'\<rparr>"
      using d(3) by (subst (asm) p(3)) simp
    moreover have "visible_requests chs c = r # rs" using Cons(2) by simp
    moreover have "events_at chs2 = (events_at chs)(c := events_at chs c @ [reply (map_of (gs_orders s)) eid r])"
      using p(7) item(7) by simp
    moreover have "visible_requests chs2 = (visible_requests chs)(c := rs)"
      using p(8) item(5) r' by (simp add: c_def)
    ultimately show ?thesis
      using d p(2,4,6) item(4)
      by (intro exI [of _ s'] exI [of _ chs'] exI [of _ "t # ts"]) (simp add: algebra_simps)
  qed
qed

section \<open>Fills\<close>

definition after_fill ::
  "order_map \<Rightarrow> trading_engine_id \<Rightarrow> order_id \<Rightarrow> quantity \<Rightarrow> timestamp_ns \<Rightarrow> order_map" where
  "after_fill m eid oid sz ts =
     (case m (eid, oid) of
        None \<Rightarrow> m
      | Some x \<Rightarrow>
          if sz = 0 \<or> GS_isTerminal (os_status x) then m
          else let rem = os_remaining_size x - min sz (os_remaining_size x)
               in m((eid, oid) \<mapsto> x\<lparr>os_remaining_size := rem,
                      os_status := (if rem = 0 then Filled else PartiallyFilled), os_last_timestamp_ns := ts\<rparr>))"

lemma GS_emitFill_correct:
  assumes ok: "channels_ok chs" and ch: "\<And>x. map_of (gs_sessions s) eid = Some x \<Longrightarrow> se_channel x \<in> fst ` set chs"
  shows "\<exists>b s' chs'. GS_emitFill eid oid p sz ts s chs = Some (b, s', chs') \<and> channels_ok chs' \<and>
     fst ` set chs' = fst ` set chs \<and> s' = s\<lparr>gs_orders := gs_orders s'\<rparr> \<and>
     (distinct (keys (gs_orders s)) \<longrightarrow> distinct (keys (gs_orders s'))) \<and>
     map_of (gs_orders s') = (if GS_hasEngine eid s then after_fill (map_of (gs_orders s)) eid oid sz ts
                              else map_of (gs_orders s)) \<and>
     visible_requests chs' = visible_requests chs"
proof (cases "map_of (gs_sessions s) eid")
  case None
  with ok show ?thesis by (auto simp: GS_emitFill_def GS_hasEngine_def simp del: map_of_eq_None_iff)
next
  case (Some session)
  show ?thesis
  proof (cases "sz = 0 \<or> (case map_of (gs_orders s) (eid, oid) of None \<Rightarrow> True | Some x \<Rightarrow> GS_isTerminal (os_status x))")
    case True
    with ok Some show ?thesis
      by (auto simp: GS_emitFill_def GS_hasEngine_def after_fill_def
          simp del: map_of_eq_Some_iff map_of_eq_None_iff split: option.splits)
  next
    case False
    then obtain x where x: "map_of (gs_orders s) (eid, oid) = Some x" "\<not> GS_isTerminal (os_status x)" "sz \<noteq> 0"
      by (auto simp del: map_of_eq_Some_iff map_of_eq_None_iff split: option.splits)
    define a where "a = (if sz < os_remaining_size x then sz else os_remaining_size x)"
    have a: "a = min sz (os_remaining_size x)" by (auto simp: a_def min_def)
    have "\<exists>chs'. on_channel (se_channel session) (OC_pushEvent e) chs = Some chs' \<and> channels_ok chs' \<and>
        fst ` set chs' = fst ` set chs \<and> visible_requests chs' = visible_requests chs" for e
      by (rule push_event [OF ok ch [OF Some], of e]) blast
    note push = this
    show ?thesis
      unfolding GS_emitFill_def Let_def using Some x push
      by (simp add: GS_hasEngine_def after_fill_def Let_def AList.update_conv' distinct_keys_update
          a_def [symmetric] a [symmetric] bind_eq_Some_conv del: map_of_eq_Some_iff map_of_eq_None_iff split del: if_split) blast
  qed
qed

section \<open>The life of an order\<close>

text \<open>
  What holds of every stored order: it is filed under its own key, was validated, and its status
  says how much of it is left. \<open>Rejected\<close> and the request statuses are never stored.
\<close>

definition order_ok :: "OrderKey \<Rightarrow> OrderSnapshot \<Rightarrow> bool" where
  "order_ok key x \<longleftrightarrow>
     (os_trading_engine_id x, os_order_id x) = key \<and> os_instrument_id x \<noteq> 0 \<and> os_side x \<noteq> SideNone \<and>
     os_price x \<noteq> undefined_price \<and> 0 < os_original_size x \<and> os_remaining_size x \<le> os_original_size x \<and>
     (case os_status x of
        Accepted \<Rightarrow> os_remaining_size x = os_original_size x
      | PartiallyFilled \<Rightarrow> 0 < os_remaining_size x \<and> os_remaining_size x < os_original_size x
      | Filled \<Rightarrow> os_remaining_size x = 0
      | Cancelled \<Rightarrow> 0 < os_remaining_size x
      | _ \<Rightarrow> False)"

definition orders_ok :: "order_map \<Rightarrow> bool" where
  "orders_ok m \<longleftrightarrow> (\<forall>key x. m key = Some x \<longrightarrow> order_ok key x)"

lemma order_ok_remaining:
  "order_ok key x \<Longrightarrow> \<not> GS_isTerminal (os_status x) \<Longrightarrow> 0 < os_remaining_size x"
  by (auto simp: order_ok_def GS_isTerminal_def split: OrderStatus.splits)

lemma orders_ok_request: "orders_ok m \<Longrightarrow> orders_ok (after_request m eid r)"
proof -
  assume ok: "orders_ok m"
  have "order_ok (eid, fd_order_id (fields_request r)) (accepted_order m eid r)" if "verdict m eid r = None"
  proof (cases r)
    case (NewOrder f)
    with that show ?thesis
      by (auto simp: verdict_simps order_ok_def GS_isValidActiveSide_def isDefinedPrice_def u64_pos_iff split: if_splits)
  next
    case (CancelOrder f)
    with that obtain x where x: "m (eid, fd_order_id f) = Some x" "\<not> GS_isTerminal (os_status x)"
      by (auto simp: verdict_simps split: option.splits if_splits)
    then have "order_ok (eid, fd_order_id f) x" using ok by (simp add: orders_ok_def)
    with x CancelOrder show ?thesis using order_ok_remaining by (auto simp: order_ok_def)
  next
    case (ModifyOrder f)
    with that obtain x where x: "m (eid, fd_order_id f) = Some x"
      by (auto simp: verdict_simps split: option.splits if_splits)
    then have "order_ok (eid, fd_order_id f) x" using ok by (simp add: orders_ok_def)
    with x ModifyOrder that show ?thesis
      by (auto simp: verdict_simps order_ok_def GS_isValidActiveSide_def isDefinedPrice_def u64_pos_iff split: if_splits)
  qed
  with ok show ?thesis by (auto simp: orders_ok_def after_request_def split: option.split)
qed

lemma orders_ok_fill: "orders_ok m \<Longrightarrow> orders_ok (after_fill m eid oid sz ts)"
proof (cases "m (eid, oid)")
  case (Some x)
  assume ok: "orders_ok m"
  then have x: "order_ok (eid, oid) x" using Some by (simp add: orders_ok_def)
  show ?thesis
  proof (cases "sz = 0 \<or> GS_isTerminal (os_status x)")
    case False
    let ?a = "min sz (os_remaining_size x)"
    have pos: "0 < os_remaining_size x" using order_ok_remaining [OF x] False by simp
    have "?a \<le> os_remaining_size x" "0 < ?a" using pos False by (auto simp: min_def u64_pos_iff)
    then have u: "unat (os_remaining_size x - ?a) = unat (os_remaining_size x) - unat ?a" "0 < unat ?a"
      by (simp_all add: unat_diff_u64 unat_pos_u64)
    have le: "os_remaining_size x \<le> os_original_size x" using x by (simp add: order_ok_def)
    then have "os_remaining_size x - ?a < os_original_size x"
      using u pos by (simp add: word_less_nat_alt word_le_nat_alt unat_pos_u64)
    with x False have "order_ok (eid, oid) (x\<lparr>os_remaining_size := os_remaining_size x - ?a,
        os_status := (if os_remaining_size x - ?a = 0 then Filled else PartiallyFilled), os_last_timestamp_ns := ts\<rparr>)"
      by (auto simp: order_ok_def u64_pos_iff)
    with ok Some False show ?thesis by (auto simp: orders_ok_def after_fill_def Let_def)
  qed (use ok Some in \<open>simp add: after_fill_def\<close>)
qed (simp add: after_fill_def)

lemma orders_ok_requests: "orders_ok m \<Longrightarrow> orders_ok (after_requests m eid rs)"
  by (induction rs arbitrary: m) (auto intro: orders_ok_request)

text \<open>A terminal order is left alone by every request and every fill.\<close>

lemma terminal_request:
  "m key = Some x \<Longrightarrow> GS_isTerminal (os_status x) \<Longrightarrow> after_request m eid r key = Some x"
  by (cases r) (auto simp: after_request_def verdict_simps split: option.splits if_splits)

lemma terminal_requests:
  "m key = Some x \<Longrightarrow> GS_isTerminal (os_status x) \<Longrightarrow> after_requests m eid rs key = Some x"
  by (induction rs arbitrary: m) (auto intro: terminal_request)

lemma terminal_fill:
  "m key = Some x \<Longrightarrow> GS_isTerminal (os_status x) \<Longrightarrow> after_fill m eid oid sz ts key = Some x"
  by (auto simp: after_fill_def Let_def split: option.splits)

section \<open>The gateway as a state machine\<close>

type_synonym gateway = "OrderGatewayServer \<times> Channels"

definition gateway_inv :: "gateway \<Rightarrow> bool" where
  "gateway_inv g \<longleftrightarrow>
     channels_ok (snd g) \<and> distinct (keys (gs_orders (fst g))) \<and> orders_ok (map_of (gs_orders (fst g))) \<and>
     (\<forall>eid x. map_of (gs_sessions (fst g)) eid = Some x \<longrightarrow>
        se_trading_engine_id x = eid \<and> se_channel x \<in> fst ` set (snd g))"

text \<open>
  One step of the whole gateway: a new channel, a registration, what the clients do to their
  channels, and what the server does.
\<close>

inductive gateway_step :: "gateway \<Rightarrow> gateway \<Rightarrow> bool" where
  connect: "OC_new rb eb = Inr ch \<Longrightarrow> map_of chs c = None \<Longrightarrow>
     gateway_step (s, chs) (s, AList.update c ch chs)"
| register: "c \<in> fst ` set chs \<Longrightarrow> GS_registerEngine eid (Some c) s = Inr s' \<Longrightarrow>
     gateway_step (s, chs) (s', chs)"
| send: "c \<in> fst ` set chs \<Longrightarrow> on_channel c (OC_pushRequest r) chs = Some chs' \<Longrightarrow>
     gateway_step (s, chs) (s, chs')"
| flush: "c \<in> fst ` set chs \<Longrightarrow> on_channel c OC_flushRequests chs = Some chs' \<Longrightarrow>
     gateway_step (s, chs) (s, chs')"
| receive: "c \<in> fst ` set chs \<Longrightarrow> pop_channel c OC_tryPopEvent chs = Some (e, chs') \<Longrightarrow>
     gateway_step (s, chs) (s, chs')"
| drain: "GS_drainRequests s chs = Some (n, s', chs') \<Longrightarrow> gateway_step (s, chs) (s', chs')"
| fill: "GS_emitFill eid oid p sz ts s chs = Some (b, s', chs') \<Longrightarrow> gateway_step (s, chs) (s', chs')"
| publish: "GS_flushEvents s chs = Some chs' \<Longrightarrow> gateway_step (s, chs) (s, chs')"

inductive_cases gateway_stepE: "gateway_step g g'"

lemma GS_drainEngines_correct:
  assumes "gateway_inv (s, chs)"
  shows "\<exists>s' chs' ts n. GS_drainEngines eids s chs transitions drained = Some (s', chs', transitions @ ts, drained + of_nat n) \<and>
     gateway_inv (s', chs') \<and> length ts = n \<and>
     (\<forall>key x. map_of (gs_orders s) key = Some x \<and> GS_isTerminal (os_status x) \<longrightarrow> map_of (gs_orders s') key = Some x)"
  using assms
proof (induction eids arbitrary: s chs transitions drained)
  case Nil
  then show ?case by force
next
  case (Cons eid eids)
  show ?case
  proof (cases "map_of (gs_sessions s) eid")
    case None
    with Cons show ?thesis by simp
  next
    case (Some session)
    then have ch: "se_channel session \<in> fst ` set chs" "channels_ok chs"
      using Cons.prems by (auto simp: gateway_inv_def simp del: map_of_eq_Some_iff)
    from GS_drainSession_correct [OF ch(2,1), of s transitions drained] obtain s1 chs1 ts1 n1 where
      d: "GS_drainSession session s chs transitions drained = Some (s1, chs1, transitions @ ts1, drained + of_nat n1)"
      "map_of (gs_orders s1) = after_requests (map_of (gs_orders s)) (se_trading_engine_id session)
         (visible_requests chs (se_channel session))"
      "s1 = s\<lparr>gs_orders := gs_orders s1\<rparr>" "distinct (keys (gs_orders s)) \<longrightarrow> distinct (keys (gs_orders s1))"
      "channels_ok chs1" "fst ` set chs1 = fst ` set chs" "length ts1 = n1" by metis
    have "gs_sessions s1 = gs_sessions s" by (subst d(3)) simp
    then have inv1: "gateway_inv (s1, chs1)"
      using Cons.prems d(2,4,5,6) orders_ok_requests by (simp add: gateway_inv_def del: map_of_eq_Some_iff)
    from Cons.IH [OF inv1, of "transitions @ ts1" "drained + of_nat n1"] obtain s' chs' ts n where
      r: "GS_drainEngines eids s1 chs1 (transitions @ ts1) (drained + of_nat n1) =
          Some (s', chs', (transitions @ ts1) @ ts, (drained + of_nat n1) + of_nat n)"
      "gateway_inv (s', chs')" "length ts = n"
      "\<forall>key x. map_of (gs_orders s1) key = Some x \<and> GS_isTerminal (os_status x) \<longrightarrow> map_of (gs_orders s') key = Some x"
      by blast
    have "GS_drainEngines (eid # eids) s chs transitions drained =
        Some (s', chs', transitions @ (ts1 @ ts), drained + of_nat (n1 + n))"
      using Some d(1) r(1) by (simp add: add.assoc del: map_of_eq_Some_iff)
    moreover have "\<forall>key x. map_of (gs_orders s) key = Some x \<and> GS_isTerminal (os_status x) \<longrightarrow> map_of (gs_orders s') key = Some x"
      using r(4) d(2) terminal_requests by metis
    ultimately show ?thesis using r(2,3) d(7) by (intro exI [of _ s'] exI [of _ chs'] exI [of _ "ts1 @ ts"] exI [of _ "n1 + n"]) simp
  qed
qed

lemma GS_flushEngines_correct:
  assumes "gateway_inv (s, chs)"
  shows "\<exists>chs'. GS_flushEngines eids s chs = Some chs' \<and> gateway_inv (s, chs') \<and> events_at chs' = events_at chs \<and>
     (\<forall>c. visible_events chs' c = (if \<exists>eid \<in> set eids. \<exists>x. map_of (gs_sessions s) eid = Some x \<and> se_channel x = c
                                  then events_at chs c else visible_events chs c))"
  using assms
proof (induction eids arbitrary: chs)
  case (Cons eid eids)
  show ?case
  proof (cases "map_of (gs_sessions s) eid")
    case None
    with Cons.IH [OF Cons.prems] show ?thesis by (simp del: map_of_eq_Some_iff map_of_eq_None_iff)
  next
    case (Some session)
    then have ch: "channels_ok chs" "se_channel session \<in> fst ` set chs"
      using Cons.prems by (auto simp: gateway_inv_def simp del: map_of_eq_Some_iff)
    obtain chs1 where c1: "on_channel (se_channel session) OC_flushEvents chs = Some chs1" "channels_ok chs1"
      "fst ` set chs1 = fst ` set chs" "events_at chs1 = events_at chs"
      "visible_events chs1 = (visible_events chs)(se_channel session := events_at chs (se_channel session))"
      by (rule flush_events [OF ch]) blast
    have "gateway_inv (s, chs1)" using Cons.prems c1(2,3) by (simp add: gateway_inv_def)
    from Cons.IH [OF this] c1 Some show ?thesis by (auto simp del: map_of_eq_Some_iff; blast)
  qed
qed simp

lemma GS_emitFill_inv:
  assumes inv: "gateway_inv (s, chs)"
  shows "\<exists>b s' chs'. GS_emitFill eid oid p sz ts s chs = Some (b, s', chs') \<and> gateway_inv (s', chs') \<and>
     gs_sessions s' = gs_sessions s \<and>
     map_of (gs_orders s') = (if GS_hasEngine eid s then after_fill (map_of (gs_orders s)) eid oid sz ts
                              else map_of (gs_orders s))"
proof -
  have "channels_ok chs" and ch: "map_of (gs_sessions s) eid = Some x \<Longrightarrow> se_channel x \<in> fst ` set chs" for x
    using inv by (auto simp: gateway_inv_def simp del: map_of_eq_Some_iff)
  from GS_emitFill_correct [of chs s eid oid p sz ts, OF this] obtain b s' chs' where
    e: "GS_emitFill eid oid p sz ts s chs = Some (b, s', chs')" "channels_ok chs'" "fst ` set chs' = fst ` set chs"
    "s' = s\<lparr>gs_orders := gs_orders s'\<rparr>" "distinct (keys (gs_orders s)) \<longrightarrow> distinct (keys (gs_orders s'))"
    "map_of (gs_orders s') = (if GS_hasEngine eid s then after_fill (map_of (gs_orders s)) eid oid sz ts
       else map_of (gs_orders s))" by blast
  have same: "gs_sessions s' = gs_sessions s" by (subst e(4)) simp
  with e inv orders_ok_fill have "gateway_inv (s', chs')" by (simp add: gateway_inv_def del: map_of_eq_Some_iff)
  with e(1,6) same show ?thesis by blast
qed

lemma gateway_step_inv:
  assumes "gateway_step g g'" "gateway_inv g"
  shows "gateway_inv g'"
  using assms
proof (cases rule: gateway_step.cases)
  case (connect rb eb ch chs c s)
  with assms(2) OC_new_ok show ?thesis
    by (auto simp: gateway_inv_def channels_ok_def AList.dom_update simp del: map_of_eq_Some_iff)
next
  case (register c chs eid s s')
  with assms(2) show ?thesis
    by (auto simp: gateway_inv_def GS_registerEngine_def Let_def simp del: map_of_eq_Some_iff split: if_splits; force)
next
  case (send c chs r chs' s)
  then have "channels_ok chs" using assms(2) by (simp add: gateway_inv_def)
  then obtain chs1 where "on_channel c (OC_pushRequest r) chs = Some chs1" "channels_ok chs1" "fst ` set chs1 = fst ` set chs"
    by (rule push_request [OF _ send(3), of r]) blast+
  with send(1,2,4) assms(2) show ?thesis by (auto simp: gateway_inv_def simp del: map_of_eq_Some_iff)
next
  case (flush c chs chs' s)
  then have "channels_ok chs" using assms(2) by (simp add: gateway_inv_def)
  then obtain chs1 where "on_channel c OC_flushRequests chs = Some chs1" "channels_ok chs1" "fst ` set chs1 = fst ` set chs"
    by (rule flush_requests [OF _ flush(3)]) blast+
  with flush(1,2,4) assms(2) show ?thesis by (auto simp: gateway_inv_def simp del: map_of_eq_Some_iff)
next
  case (receive c chs e chs' s)
  then have "channels_ok chs" using assms(2) by (simp add: gateway_inv_def)
  then obtain chs1 where "\<exists>e. pop_channel c OC_tryPopEvent chs = Some (e, chs1)" "channels_ok chs1" "fst ` set chs1 = fst ` set chs"
    by (rule pop_event [OF _ receive(3)]) blast+
  with receive(1,2,4) assms(2) show ?thesis by (auto simp: gateway_inv_def simp del: map_of_eq_Some_iff)
next
  case (drain s chs n s' chs')
  with assms(2) GS_drainEngines_correct [of s chs "gs_engine_order s" "[]" 0] show ?thesis
    by (auto simp: GS_drainRequests_def GS_drainRequests_into_def)
next
  case (fill eid oid p sz ts s chs b s' chs')
  with assms(2) GS_emitFill_inv [of s chs eid oid p sz ts] show ?thesis by auto
next
  case (publish s chs chs')
  with assms(2) GS_flushEngines_correct [of s chs "gs_engine_order s"] show ?thesis by (auto simp: GS_flushEvents_def)
qed

lemma gateway_step_terminal:
  assumes "gateway_step g g'" "gateway_inv g" "map_of (gs_orders (fst g)) key = Some x" "GS_isTerminal (os_status x)"
  shows "map_of (gs_orders (fst g')) key = Some x"
  using assms
proof (cases rule: gateway_step.cases)
  case (register c chs eid s s')
  with assms(3) show ?thesis
    by (auto simp: GS_registerEngine_def Let_def simp del: map_of_eq_Some_iff split: if_splits)
next
  case (drain s chs n s' chs')
  with assms(2-4) GS_drainEngines_correct [of s chs "gs_engine_order s" "[]" 0] show ?thesis
    by (cases key) (auto simp: GS_drainRequests_def GS_drainRequests_into_def simp del: map_of_eq_Some_iff)
next
  case (fill eid oid p sz ts s chs b s' chs')
  with assms(2-4) GS_emitFill_inv [of s chs eid oid p sz ts]
    terminal_fill [of "map_of (gs_orders s)" key x eid oid sz ts]
  show ?thesis by (auto simp del: map_of_eq_Some_iff)
qed (auto simp del: map_of_eq_Some_iff)

definition gateway_start :: gateway where
  "gateway_start = (GS_new, [])"

lemma gateway_start_inv: "gateway_inv gateway_start"
  by (simp add: gateway_inv_def gateway_start_def GS_new_def channels_ok_def orders_ok_def)

lemma gateway_reachable_inv: "gateway_step\<^sup>*\<^sup>* g g' \<Longrightarrow> gateway_inv g \<Longrightarrow> gateway_inv g'"
  by (induction rule: rtranclp_induct) (auto intro: gateway_step_inv)

text \<open>The same steps as an executable run, for concrete scenarios.\<close>

datatype gateway_op =
  OpConnect chan u64 u64 | OpRegister trading_engine_id chan | OpSend chan OrderRequest | OpFlush chan
| OpReceive chan | OpDrain | OpFill trading_engine_id order_id price quantity timestamp_ns | OpPublish

fun gateway_exec :: "gateway \<Rightarrow> gateway_op \<Rightarrow> gateway option" where
  "gateway_exec (s, chs) (OpConnect c rb eb) =
     (case OC_new rb eb of
        Inr ch \<Rightarrow> if map_of chs c = None then Some (s, AList.update c ch chs) else None
      | Inl _ \<Rightarrow> None)"
| "gateway_exec (s, chs) (OpRegister eid c) =
     (if map_of chs c = None then None
      else case GS_registerEngine eid (Some c) s of Inr s' \<Rightarrow> Some (s', chs) | Inl _ \<Rightarrow> None)"
| "gateway_exec (s, chs) (OpSend c r) = map_option (Pair s) (on_channel c (OC_pushRequest r) chs)"
| "gateway_exec (s, chs) (OpFlush c) = map_option (Pair s) (on_channel c OC_flushRequests chs)"
| "gateway_exec (s, chs) (OpReceive c) = map_option (\<lambda>(e, chs'). (s, chs')) (pop_channel c OC_tryPopEvent chs)"
| "gateway_exec (s, chs) OpDrain = map_option snd (GS_drainRequests s chs)"
| "gateway_exec (s, chs) (OpFill eid oid p sz ts) = map_option snd (GS_emitFill eid oid p sz ts s chs)"
| "gateway_exec (s, chs) OpPublish = map_option (Pair s) (GS_flushEvents s chs)"

fun gateway_run :: "gateway \<Rightarrow> gateway_op list \<Rightarrow> gateway option" where
  "gateway_run g [] = Some g"
| "gateway_run g (op # ops) = (case gateway_exec g op of None \<Rightarrow> None | Some g' \<Rightarrow> gateway_run g' ops)"

lemma channel_exists:
  "on_channel c m chs = Some chs' \<Longrightarrow> c \<in> fst ` set chs"
  "pop_channel c n chs = Some r \<Longrightarrow> c \<in> fst ` set chs"
  "map_of chs c = Some ch \<Longrightarrow> c \<in> fst ` set chs"
  by (auto simp: on_channel_def pop_channel_def rev_image_eqI dest!: map_of_SomeD split: option.splits)

lemma gateway_exec_step: "gateway_exec g op = Some g' \<Longrightarrow> gateway_step g g'"
proof (induction g op rule: gateway_exec.induct)
  case (1 s chs c rb eb)
  then show ?case by (auto simp del: map_of_eq_None_iff split: sum.splits if_splits intro: gateway_step.connect)
next
  case (2 s chs eid c)
  then show ?case
    by (auto simp del: map_of_eq_None_iff split: sum.splits if_splits intro: gateway_step.register channel_exists(3))
qed (auto intro: gateway_step.intros channel_exists)

lemma gateway_run_reachable: "gateway_run g ops = Some g' \<Longrightarrow> gateway_step\<^sup>*\<^sup>* g g'"
  by (induction ops arbitrary: g)
    (auto split: option.splits dest: gateway_exec_step intro: converse_rtranclp_into_rtranclp)

section \<open>Properties\<close>

text \<open>
  C15: The life of an order. In every reachable state of the gateway, whatever the engines send
  and however their queues are interleaved with the server, every stored order was validated, the
  remaining size never exceeds the original size, and the status tells how much is left:
  all of an accepted order, some of a partially filled one, nothing of a filled one.
\<close>

theorem gateway_orders_ok:
  assumes "gateway_step\<^sup>*\<^sup>* gateway_start (s, chs)" and "GS_findOrder eid oid s = Some x"
  shows "order_ok (eid, oid) x"
  using gateway_reachable_inv [OF assms(1) gateway_start_inv] assms(2)
  by (simp add: gateway_inv_def orders_ok_def GS_findOrder_def del: map_of_eq_Some_iff)

definition demo_fields :: OrderFields where
  "demo_fields = default_fields\<lparr>fd_order_id := 1, fd_instrument_id := 7, fd_side := Bid, fd_price := i64 100,
     fd_size := 10\<rparr>"

definition demo_gateway_ops :: "gateway_op list" where
  "demo_gateway_ops =
     [OpConnect 0 1 1, OpRegister 5 0, OpSend 0 (NewOrder demo_fields), OpDrain, OpFill 5 1 (i64 99) 4 (i64 1)]"

lemma demo_gateway_order:
  "map_option (\<lambda>g. map_option (\<lambda>x. (os_remaining_size x, os_status x)) (GS_findOrder 5 1 (fst g)))
     (gateway_run gateway_start demo_gateway_ops) = Some (Some (6, PartiallyFilled))"
  by code_simp

theorem gateway_orders_ok_witness:
  "\<exists>s chs x. gateway_run gateway_start demo_gateway_ops = Some (s, chs) \<and> GS_findOrder 5 1 s = Some x \<and>
     order_ok (5, 1) x \<and> os_remaining_size x = 6 \<and> os_status x = PartiallyFilled"
proof -
  from demo_gateway_order obtain s chs x where
    g: "gateway_run gateway_start demo_gateway_ops = Some (s, chs)" "GS_findOrder 5 1 s = Some x"
    "os_remaining_size x = 6" "os_status x = PartiallyFilled" by auto
  with gateway_orders_ok [OF gateway_run_reachable [OF g(1)] g(2)] show ?thesis by blast
qed

text \<open>
  C16: Terminal states are final. Once an order is filled or cancelled, no later request, fill or
  registration, in any order, changes it again.
\<close>

theorem gateway_terminal_final:
  assumes "gateway_step\<^sup>*\<^sup>* gateway_start (s, chs)" and "GS_findOrder eid oid s = Some x"
    and "GS_isTerminal (os_status x)" and "gateway_step\<^sup>*\<^sup>* (s, chs) (s', chs')"
  shows "GS_findOrder eid oid s' = Some x"
proof -
  have "gateway_step\<^sup>*\<^sup>* g g' \<Longrightarrow> gateway_inv g \<Longrightarrow> map_of (gs_orders (fst g)) (eid, oid) = Some x \<Longrightarrow>
      map_of (gs_orders (fst g')) (eid, oid) = Some x" for g g'
    by (induction rule: rtranclp_induct)
      (auto intro: gateway_step_terminal gateway_reachable_inv assms(3) simp del: map_of_eq_Some_iff)
  from this [OF assms(4) gateway_reachable_inv [OF assms(1) gateway_start_inv]] assms(2) show ?thesis
    by (simp add: GS_findOrder_def del: map_of_eq_Some_iff)
qed

theorem gateway_terminal_final_witness:
  "\<exists>s chs x s' chs'. gateway_run gateway_start (demo_gateway_ops @ [OpFill 5 1 (i64 99) 9 (i64 2)]) = Some (s, chs) \<and>
     gateway_run (s, chs) [OpSend 0 (ModifyOrder demo_fields), OpDrain, OpPublish] = Some (s', chs') \<and>
     GS_findOrder 5 1 s = Some x \<and> os_status x = Filled \<and> GS_findOrder 5 1 s' = Some x"
proof -
  have "map_option (\<lambda>g. (map_option os_status (GS_findOrder 5 1 (fst g)),
        gateway_run g [OpSend 0 (ModifyOrder demo_fields), OpDrain, OpPublish] \<noteq> None))
      (gateway_run gateway_start (demo_gateway_ops @ [OpFill 5 1 (i64 99) 9 (i64 2)])) = Some (Some Filled, True)"
    by code_simp
  then obtain s chs x s' chs' where
    g: "gateway_run gateway_start (demo_gateway_ops @ [OpFill 5 1 (i64 99) 9 (i64 2)]) = Some (s, chs)"
    "GS_findOrder 5 1 s = Some x" "os_status x = Filled"
    "gateway_run (s, chs) [OpSend 0 (ModifyOrder demo_fields), OpDrain, OpPublish] = Some (s', chs')" by auto
  moreover have "GS_isTerminal (os_status x)" using g(3) by (simp add: GS_isTerminal_def)
  ultimately show ?thesis
    using gateway_terminal_final [OF gateway_run_reachable [OF g(1)] g(2) _ gateway_run_reachable [OF g(4)]] by blast
qed

text \<open>
  One reply per request, in order. Draining a session in a reachable state ends without a
  fault; every visible request is answered on the session's own channel by exactly the reply of
  the validation tables (an acknowledgement, or a reject with the first failing check), in the
  order of the requests, one transition is recorded for each, and the orders are those of the
  specification.
\<close>

theorem gateway_drain_replies:
  assumes "gateway_step\<^sup>*\<^sup>* gateway_start (s, chs)" and "map_of (gs_sessions s) eid = Some session"
  shows "\<exists>s' chs' ts. GS_drainSession session s chs [] 0 =
           Some (s', chs', ts, of_nat (length (visible_requests chs (se_channel session)))) \<and>
         events_at chs' (se_channel session) = events_at chs (se_channel session) @
           replies (map_of (gs_orders s)) eid (visible_requests chs (se_channel session)) \<and>
         (\<forall>c. c \<noteq> se_channel session \<longrightarrow> events_at chs' c = events_at chs c) \<and>
         map_of (gs_orders s') = after_requests (map_of (gs_orders s)) eid (visible_requests chs (se_channel session)) \<and>
         length ts = length (visible_requests chs (se_channel session)) \<and>
         visible_requests chs' (se_channel session) = []"
proof -
  have inv: "gateway_inv (s, chs)" using gateway_reachable_inv [OF assms(1) gateway_start_inv] .
  then have "channels_ok chs" "se_channel session \<in> fst ` set chs" "se_trading_engine_id session = eid"
    using assms(2) by (auto simp: gateway_inv_def simp del: map_of_eq_Some_iff)
  from GS_drainSession_correct [OF this(1,2), of s "[]" 0, unfolded this(3)] show ?thesis by auto
qed

theorem gateway_drain_replies_witness:
  "\<exists>s chs session s' chs' ts. gateway_run gateway_start
       [OpConnect 0 1 1, OpRegister 5 0, OpSend 0 (NewOrder demo_fields), OpSend 0 (NewOrder demo_fields)] = Some (s, chs) \<and>
     map_of (gs_sessions s) 5 = Some session \<and> length (visible_requests chs (se_channel session)) = 2 \<and>
     GS_drainSession session s chs [] 0 = Some (s', chs', ts, 2) \<and> length ts = 2"
proof -
  have "map_option (\<lambda>g. (map_option (\<lambda>x. length (visible_requests (snd g) (se_channel x))) (map_of (gs_sessions (fst g)) 5)))
      (gateway_run gateway_start [OpConnect 0 1 1, OpRegister 5 0, OpSend 0 (NewOrder demo_fields),
         OpSend 0 (NewOrder demo_fields)]) = Some (Some 2)"
    by code_simp
  then obtain s chs session where
    g: "gateway_run gateway_start [OpConnect 0 1 1, OpRegister 5 0, OpSend 0 (NewOrder demo_fields),
         OpSend 0 (NewOrder demo_fields)] = Some (s, chs)"
    "map_of (gs_sessions s) 5 = Some session" "length (visible_requests chs (se_channel session)) = 2"
    by (auto simp del: map_of_eq_Some_iff gateway_run.simps)
  from gateway_drain_replies [OF gateway_run_reachable [OF g(1)] g(2)] g show ?thesis
    by (auto simp del: map_of_eq_Some_iff gateway_run.simps)
qed

end
