(* ===== verification/OrderGatewayClient.thy ===== *)
theory OrderGatewayClient
  imports OrderGateway
begin

text \<open>
  \<^verbatim>\<open>src/gateway/OrderGatewayClient.{hpp,cpp}\<close>: the engine's side of the gateway. The registered
  \<^verbatim>\<open>std::function\<close> callbacks are code of the trading engine; they are functions on a state \<open>'s\<close>
  of that engine, which may throw, so that what they are called with, and in which order, can be
  stated.
\<close>

section \<open>State and operations\<close>

record 's OrderGatewayClient =
  cl_trading_engine_id :: trading_engine_id
  cl_channel :: chan
  cl_next_order_id :: order_id
  cl_on_ack :: "(OrderAck, 's) callback option"
  cl_on_fill :: "(OrderFill, 's) callback option"
  cl_on_reject :: "(OrderReject, 's) callback option"

definition GC_new :: "trading_engine_id \<Rightarrow> chan option \<Rightarrow> exn + 's OrderGatewayClient" where
  "GC_new eid channel =
     (case channel of
        None \<Rightarrow> Inl (invalid_argument ''OrderGatewayClient requires a non-null OrderChannel'')
      | Some c \<Rightarrow> Inr \<lparr>cl_trading_engine_id = eid, cl_channel = c, cl_next_order_id = 1,
                    cl_on_ack = None, cl_on_fill = None, cl_on_reject = None\<rparr>)"

definition GC_nextOrderId :: "'s OrderGatewayClient \<Rightarrow> order_id \<times> 's OrderGatewayClient" where
  "GC_nextOrderId cl = (cl_next_order_id cl, cl\<lparr>cl_next_order_id := cl_next_order_id cl + 1\<rparr>)"

definition GC_sendNewOrder :: "OrderFields \<Rightarrow> 's OrderGatewayClient \<Rightarrow> Channels \<Rightarrow> Channels option" where
  "GC_sendNewOrder f cl chs =
     on_channel (cl_channel cl) (OC_pushRequest (NewOrder (f\<lparr>fd_trading_engine_id := cl_trading_engine_id cl\<rparr>))) chs"

definition GC_sendOrder ::
  "instrument_id \<Rightarrow> Side \<Rightarrow> price \<Rightarrow> quantity \<Rightarrow> timestamp_ns \<Rightarrow> 's OrderGatewayClient \<Rightarrow> Channels \<Rightarrow>
   (order_id \<times> 's OrderGatewayClient \<times> Channels) option" where
  "GC_sendOrder i side price sz ts cl chs =
     (let (oid, cl') = GC_nextOrderId cl
      in do {
        chs' \<leftarrow> GC_sendNewOrder \<lparr>fd_trading_engine_id = cl_trading_engine_id cl', fd_order_id = oid,
            fd_instrument_id = i, fd_side = side, fd_price = price, fd_size = sz, fd_timestamp_ns = ts,
            fd_status = New\<rparr> cl' chs;
        Some (oid, cl', chs')
      })"

definition GC_cancelOrder ::
  "order_id \<Rightarrow> instrument_id \<Rightarrow> timestamp_ns \<Rightarrow> 's OrderGatewayClient \<Rightarrow> Channels \<Rightarrow> Channels option" where
  "GC_cancelOrder oid i ts cl chs =
     on_channel (cl_channel cl) (OC_pushRequest (CancelOrder \<lparr>fd_trading_engine_id = cl_trading_engine_id cl,
       fd_order_id = oid, fd_instrument_id = i, fd_side = SideNone, fd_price = i64 0, fd_size = 0,
       fd_timestamp_ns = ts, fd_status = CancelRequested\<rparr>)) chs"

definition GC_modifyOrder ::
  "order_id \<Rightarrow> instrument_id \<Rightarrow> Side \<Rightarrow> price \<Rightarrow> quantity \<Rightarrow> timestamp_ns \<Rightarrow> 's OrderGatewayClient \<Rightarrow>
   Channels \<Rightarrow> Channels option" where
  "GC_modifyOrder oid i side new_price new_size ts cl chs =
     on_channel (cl_channel cl) (OC_pushRequest (ModifyOrder \<lparr>fd_trading_engine_id = cl_trading_engine_id cl,
       fd_order_id = oid, fd_instrument_id = i, fd_side = side, fd_price = new_price, fd_size = new_size,
       fd_timestamp_ns = ts, fd_status = ModifyRequested\<rparr>)) chs"

definition GC_flush :: "'s OrderGatewayClient \<Rightarrow> Channels \<Rightarrow> Channels option" where
  "GC_flush cl chs = on_channel (cl_channel cl) OC_flushRequests chs"

definition GC_tryPopEvent :: "'s OrderGatewayClient \<Rightarrow> Channels \<Rightarrow> (OrderEvent option \<times> Channels) option" where
  "GC_tryPopEvent cl chs = pop_channel (cl_channel cl) OC_tryPopEvent chs"

definition GC_popEvent :: "'s OrderGatewayClient \<Rightarrow> Channels \<Rightarrow> (OrderEvent option \<times> Channels) option" where
  "GC_popEvent cl chs = pop_channel (cl_channel cl) OC_popEvent chs"

definition GC_onAck :: "(OrderAck, 's) callback \<Rightarrow> 's OrderGatewayClient \<Rightarrow> 's OrderGatewayClient" where
  "GC_onAck callback cl = cl\<lparr>cl_on_ack := Some callback\<rparr>"

definition GC_onFill :: "(OrderFill, 's) callback \<Rightarrow> 's OrderGatewayClient \<Rightarrow> 's OrderGatewayClient" where
  "GC_onFill callback cl = cl\<lparr>cl_on_fill := Some callback\<rparr>"

definition GC_onReject :: "(OrderReject, 's) callback \<Rightarrow> 's OrderGatewayClient \<Rightarrow> 's OrderGatewayClient" where
  "GC_onReject callback cl = cl\<lparr>cl_on_reject := Some callback\<rparr>"

fun GC_dispatchEvent :: "'s OrderGatewayClient \<Rightarrow> (OrderEvent, 's) callback" where
  "GC_dispatchEvent cl (AckEvent a) st = (case cl_on_ack cl of None \<Rightarrow> (None, st) | Some cb \<Rightarrow> cb a st)"
| "GC_dispatchEvent cl (FillEvent f) st = (case cl_on_fill cl of None \<Rightarrow> (None, st) | Some cb \<Rightarrow> cb f st)"
| "GC_dispatchEvent cl (RejectEvent r) st = (case cl_on_reject cl of None \<Rightarrow> (None, st) | Some cb \<Rightarrow> cb r st)"

text \<open>An exception of a callback leaves the loop; the event it was called with has been taken from the channel.\<close>

partial_function (option) GC_drainLoop ::
  "'s OrderGatewayClient \<Rightarrow> Channels \<Rightarrow> 's \<Rightarrow> u64 \<Rightarrow> ((exn + u64) \<times> 's \<times> Channels) option" where
  "GC_drainLoop cl chs st drained =
     Option.bind (GC_tryPopEvent cl chs) (\<lambda>(ev, chs').
       case ev of
         None \<Rightarrow> Some (Inr drained, st, chs')
       | Some e \<Rightarrow>
           (case GC_dispatchEvent cl e st of
              (Some x, st') \<Rightarrow> Some (Inl x, st', chs')
            | (None, st') \<Rightarrow> GC_drainLoop cl chs' st' (drained + 1)))"

declare GC_drainLoop.simps [code]

definition GC_drainEvents :: "'s OrderGatewayClient \<Rightarrow> Channels \<Rightarrow> 's \<Rightarrow> ((exn + u64) \<times> 's \<times> Channels) option" where
  "GC_drainEvents cl chs st = GC_drainLoop cl chs st 0"

section \<open>Draining events\<close>

lemma GC_drainLoop_correct:
  assumes "channels_ok chs" "cl_channel cl \<in> fst ` set chs"
    and "call_all (GC_dispatchEvent cl) (visible_events chs (cl_channel cl)) st = (x, st', rest)"
  shows "\<exists>n chs'. GC_drainLoop cl chs st drained = Some (counted x (drained + of_nat n), st', chs') \<and>
     n + length rest = length (visible_events chs (cl_channel cl)) \<and>
     channels_ok chs' \<and> fst ` set chs' = fst ` set chs \<and>
     visible_events chs' = (visible_events chs)(cl_channel cl := rest) \<and> requests_at chs' = requests_at chs"
  using assms
proof (induction "visible_events chs (cl_channel cl)" arbitrary: chs st drained)
  case Nil
  from Nil.prems(1,2) show ?case
  proof (cases rule: pop_event)
    case (empty chs')
    with Nil(1,4) show ?thesis by (subst GC_drainLoop.simps) (auto simp: GC_tryPopEvent_def)
  next
    case (item e es chs')
    with Nil(1) show ?thesis by simp
  qed
next
  case (Cons e es)
  from Cons.prems(1,2) show ?case
  proof (cases rule: pop_event)
    case (empty chs')
    with Cons(2) show ?thesis by simp
  next
    case (item e' es' chs1)
    with Cons(2) have e': "e' = e" "es' = es" by auto
    have es: "es = visible_events chs1 (cl_channel cl)" using item e' by simp
    have ch: "cl_channel cl \<in> fst ` set chs1" using item Cons.prems by simp
    obtain y st1 where c: "GC_dispatchEvent cl e st = (y, st1)" by fastforce
    have step: "GC_drainLoop cl chs st drained =
        (case y of Some x \<Rightarrow> Some (Inl x, st1, chs1) | None \<Rightarrow> GC_drainLoop cl chs1 st1 (drained + 1))"
      using item(1) c by (subst GC_drainLoop.simps) (simp add: GC_tryPopEvent_def e' split: option.split)
    have vis: "visible_events chs (cl_channel cl) = e # es" using Cons(2) by simp
    show ?thesis
    proof (cases y)
      case None
      then have "call_all (GC_dispatchEvent cl) (visible_events chs1 (cl_channel cl)) st1 = (x, st', rest)"
        using Cons.prems(3) c unfolding vis es [symmetric] by simp
      from Cons.hyps(1) [OF es item(3) ch this, of "drained + 1"] obtain n chs' where
        "GC_drainLoop cl chs1 st1 (drained + 1) = Some (counted x (drained + 1 + of_nat n), st', chs')"
        "n + length rest = length es" "channels_ok chs'" "fst ` set chs' = fst ` set chs1"
        "visible_events chs' = (visible_events chs1)(cl_channel cl := rest)" "requests_at chs' = requests_at chs1"
        unfolding es [symmetric] by blast
      with step None item vis show ?thesis
        by (intro exI [of _ "Suc n"] exI [of _ chs']) (simp add: algebra_simps)
    next
      case (Some z)
      with step Cons.prems(3) c item vis e' show ?thesis
        by (intro exI [of _ 1] exI [of _ chs1]) auto
    qed
  qed
qed

section \<open>Properties\<close>

text \<open>
  Callbacks see every event once, in order. In a reachable state, draining the events of a
  client ends and calls the registered callbacks on the visible events of its channel in the
  order in which the server produced them, up to the first one on which a callback throws; it
  returns their number, or that exception, and leaves the events that come after.
\<close>

theorem client_drain_in_order:
  assumes "gateway_step\<^sup>*\<^sup>* gateway_start (s, chs)" and "cl_channel cl \<in> fst ` set chs"
  shows "\<exists>x st' rest n chs'. call_all (GC_dispatchEvent cl) (visible_events chs (cl_channel cl)) st = (x, st', rest) \<and>
         GC_drainEvents cl chs st = Some (counted x (of_nat n), st', chs') \<and>
         n + length rest = length (visible_events chs (cl_channel cl)) \<and> visible_events chs' (cl_channel cl) = rest"
proof -
  obtain x st' rest where c: "call_all (GC_dispatchEvent cl) (visible_events chs (cl_channel cl)) st = (x, st', rest)"
    by (metis prod_cases3)
  have "channels_ok chs" using gateway_reachable_inv [OF assms(1) gateway_start_inv] by (simp add: gateway_inv_def)
  from GC_drainLoop_correct [OF this assms(2) c, of 0] c show ?thesis by (auto simp: GC_drainEvents_def)
qed

definition demo_client :: "OrderEvent list OrderGatewayClient" where
  "demo_client = \<lparr>cl_trading_engine_id = 5, cl_channel = 0, cl_next_order_id = 1,
     cl_on_ack = Some (\<lambda>a st. (None, st @ [AckEvent a])), cl_on_fill = Some (\<lambda>f st. (None, st @ [FillEvent f])), cl_on_reject = None\<rparr>"

theorem client_drain_in_order_witness:
  "\<exists>s chs chs' st. gateway_run gateway_start (demo_gateway_ops @ [OpPublish]) = Some (s, chs) \<and>
     cl_channel demo_client \<in> fst ` set chs \<and> length (visible_events chs 0) = 2 \<and>
     GC_drainEvents demo_client chs [] = Some (Inr 2, st, chs') \<and> visible_events chs' 0 = []"
proof -
  have "map_option (\<lambda>g. (map_of (snd g) 0 \<noteq> None, length (visible_events (snd g) 0)))
      (gateway_run gateway_start (demo_gateway_ops @ [OpPublish])) = Some (True, 2)"
    by code_simp
  then obtain s chs where g: "gateway_run gateway_start (demo_gateway_ops @ [OpPublish]) = Some (s, chs)"
    "map_of chs 0 \<noteq> None" "length (visible_events chs 0) = 2"
    by (auto simp del: map_of_eq_None_iff gateway_run.simps)
  then have "cl_channel demo_client \<in> fst ` set chs" by (simp add: demo_client_def map_of_eq_None_iff)
  note ch = this
  have "GC_dispatchEvent demo_client e st = (None, snd (GC_dispatchEvent demo_client e st))" for e st
    by (cases e) (simp_all add: demo_client_def)
  note quiet = call_all_total [of "GC_dispatchEvent demo_client", OF this]
  have "cl_channel demo_client = 0" by (simp add: demo_client_def)
  with client_drain_in_order [OF gateway_run_reachable [OF g(1)] ch, of "[]"] ch g show ?thesis
    by (auto simp: quiet)
qed

text \<open>
  C17: Order ids of a client are unique and its requests arrive in order. Any number (below
  \<open>2 ^ 64 - 1\<close>) of \<open>sendOrder\<close> calls of a fresh client on a working channel succeeds, returns
  pairwise distinct non-zero ids, and puts one new-order request per call on the channel, in the
  order of the calls, each with the client's own engine id and the returned order id.
\<close>

fun GC_sendOrders ::
  "(instrument_id \<times> Side \<times> price \<times> quantity \<times> timestamp_ns) list \<Rightarrow> 's OrderGatewayClient \<Rightarrow> Channels \<Rightarrow>
   (order_id list \<times> 's OrderGatewayClient \<times> Channels) option" where
  "GC_sendOrders [] cl chs = Some ([], cl, chs)"
| "GC_sendOrders ((i, sd, p, sz, ts) # os) cl chs =
     Option.bind (GC_sendOrder i sd p sz ts cl chs) (\<lambda>(oid, cl', chs').
       Option.bind (GC_sendOrders os cl' chs') (\<lambda>(oids, cl'', chs''). Some (oid # oids, cl'', chs'')))"

lemma GC_sendOrder_correct:
  assumes "channels_ok chs" "cl_channel cl \<in> fst ` set chs"
  shows "\<exists>chs'. GC_sendOrder i sd p sz ts cl chs =
       Some (cl_next_order_id cl, cl\<lparr>cl_next_order_id := cl_next_order_id cl + 1\<rparr>, chs') \<and>
     channels_ok chs' \<and> fst ` set chs' = fst ` set chs \<and>
     requests_at chs' (cl_channel cl) = requests_at chs (cl_channel cl) @
       [NewOrder \<lparr>fd_trading_engine_id = cl_trading_engine_id cl, fd_order_id = cl_next_order_id cl,
          fd_instrument_id = i, fd_side = sd, fd_price = p, fd_size = sz, fd_timestamp_ns = ts, fd_status = New\<rparr>]"
  by (rule push_request [OF assms, of "NewOrder \<lparr>fd_trading_engine_id = cl_trading_engine_id cl,
      fd_order_id = cl_next_order_id cl, fd_instrument_id = i, fd_side = sd, fd_price = p, fd_size = sz,
      fd_timestamp_ns = ts, fd_status = New\<rparr>"])
    (auto simp: GC_sendOrder_def GC_nextOrderId_def GC_sendNewOrder_def)

lemma GC_sendOrders_correct:
  assumes "channels_ok chs" "cl_channel cl \<in> fst ` set chs"
  shows "\<exists>cl' chs'. GC_sendOrders os cl chs =
       Some (map (\<lambda>n. cl_next_order_id cl + of_nat n) [0..<length os], cl', chs') \<and>
     requests_at chs' (cl_channel cl) = requests_at chs (cl_channel cl) @
       map (\<lambda>(n, i, sd, p, sz, ts). NewOrder \<lparr>fd_trading_engine_id = cl_trading_engine_id cl,
          fd_order_id = cl_next_order_id cl + of_nat n, fd_instrument_id = i, fd_side = sd, fd_price = p,
          fd_size = sz, fd_timestamp_ns = ts, fd_status = New\<rparr>) (zip [0..<length os] os)"
  using assms
proof (induction os arbitrary: cl chs)
  case (Cons x os)
  obtain i sd p sz ts where x: "x = (i, sd, p, sz, ts)" by (cases x) auto
  from GC_sendOrder_correct [OF Cons.prems, of i sd p sz ts] obtain chs1 where
    c1: "GC_sendOrder i sd p sz ts cl chs = Some (cl_next_order_id cl, cl\<lparr>cl_next_order_id := cl_next_order_id cl + 1\<rparr>, chs1)"
    "channels_ok chs1" "fst ` set chs1 = fst ` set chs"
    "requests_at chs1 (cl_channel cl) = requests_at chs (cl_channel cl) @
       [NewOrder \<lparr>fd_trading_engine_id = cl_trading_engine_id cl, fd_order_id = cl_next_order_id cl,
          fd_instrument_id = i, fd_side = sd, fd_price = p, fd_size = sz, fd_timestamp_ns = ts, fd_status = New\<rparr>]"
    by blast
  have up: "[0..<length (x # os)] = 0 # map Suc [0..<length os]" by (simp add: map_Suc_upt upt_conv_Cons del: upt_Suc)
  from Cons.IH [of chs1 "cl\<lparr>cl_next_order_id := cl_next_order_id cl + 1\<rparr>"] c1 Cons.prems(2) show ?case
    unfolding up by (auto simp: x comp_def zip_map1 case_prod_beta add.assoc simp del: upt_Suc)
qed simp

theorem client_ids_unique:
  assumes "channels_ok chs" and "c \<in> fst ` set chs" and "GC_new eid (Some c) = Inr cl"
    and "length os < two64 - 1"
  shows "\<exists>oids cl' chs'. GC_sendOrders os cl chs = Some (oids, cl', chs') \<and>
           distinct oids \<and> 0 \<notin> set oids \<and> length oids = length os \<and>
           requests_at chs' c = requests_at chs c @
             map (\<lambda>(oid, i, sd, p, sz, ts). NewOrder \<lparr>fd_trading_engine_id = eid, fd_order_id = oid,
                fd_instrument_id = i, fd_side = sd, fd_price = p, fd_size = sz, fd_timestamp_ns = ts,
                fd_status = New\<rparr>) (zip oids os)"
proof -
  have cl: "cl_channel cl = c" "cl_next_order_id cl = 1" "cl_trading_engine_id cl = eid"
    using assms(3) by (auto simp: GC_new_def)
  have u: "unat (1 + of_nat n :: u64) = Suc n" if "n < length os" for n
  proof -
    have "Suc n < two64" using that assms(4) by simp
    then show ?thesis using unat_of_nat_u64 [of "Suc n"] by simp
  qed
  have inj: "inj_on (\<lambda>n. 1 + of_nat n :: u64) {0..<length os}"
    by (rule inj_onI) (metis atLeastLessThan_iff nat.inject u)
  have nz: "1 + of_nat n \<noteq> (0 :: u64)" if "n < length os" for n
    using u [OF that] by (metis nat.distinct(1) unat_0)
  from GC_sendOrders_correct [OF assms(1), of cl os] assms(2) obtain cl' chs' where
    r: "GC_sendOrders os cl chs = Some (map (\<lambda>n. 1 + of_nat n) [0..<length os], cl', chs')"
    "requests_at chs' c = requests_at chs c @
       map (\<lambda>(n, i, sd, p, sz, ts). NewOrder \<lparr>fd_trading_engine_id = eid, fd_order_id = 1 + of_nat n,
          fd_instrument_id = i, fd_side = sd, fd_price = p, fd_size = sz, fd_timestamp_ns = ts,
          fd_status = New\<rparr>) (zip [0..<length os] os)"
    unfolding cl by blast
  show ?thesis
    by (intro exI [of _ "map (\<lambda>n. 1 + of_nat n) [0..<length os]"] exI [of _ cl'] exI [of _ chs'])
      (use r inj nz in \<open>auto simp: distinct_map zip_map1 case_prod_beta comp_def\<close>)
qed

theorem client_ids_unique_witness:
  "\<exists>ch cl oids cl' chs'. OC_new 1 1 = Inr ch \<and> GC_new 5 (Some 0) = Inr (cl :: unit OrderGatewayClient) \<and>
     GC_sendOrders [(7, Bid, i64 100, 5, i64 0), (7, Ask, i64 101, 5, i64 1)] cl [(0, ch)] = Some (oids, cl', chs') \<and>
     distinct oids \<and> length oids = 2"
proof -
  obtain ch where ch: "OC_new 1 1 = Inr ch" by (simp add: OC_new_def NBQ_new_def)
  then have "channels_ok [(0, ch)]" by (simp add: channels_ok_def OC_new_ok)
  moreover obtain cl :: "unit OrderGatewayClient" where "GC_new 5 (Some 0) = Inr cl" by (simp add: GC_new_def)
  ultimately show ?thesis
    using client_ids_unique [of "[(0, ch)]" 0 5 cl "[(7, Bid, i64 100, 5, i64 0), (7, Ask, i64 101, 5, i64 1)]"] ch
    by (auto simp: two64_def)
qed

end
