(* ===== verification/OrderedMap.thy ===== *)
theory OrderedMap
  imports Domain
begin

text \<open>
  The model of \<^verbatim>\<open>std::map<Price, Quantity, Compare>\<close> as every book of the repository uses it:
  an association list kept sorted by the comparator, whose first entry is
  \<^verbatim>\<open>*levels.begin()\<close>. The comparator is a parameter: \<^verbatim>\<open>std::greater<>\<close> for bids,
  \<^verbatim>\<open>std::less<>\<close> for asks. The locale \<open>key_order\<close> states what a comparator has to
  satisfy; its lemmas are proved once and interpreted for both sides of a book.
\<close>

type_synonym levels = "(price \<times> quantity) list"

section \<open>Operations\<close>

text \<open>\<^verbatim>\<open>m[k] = v\<close> on a sorted list, \<^verbatim>\<open>m.erase(k)\<close>, and the copy of the first \<open>depth\<close> entries.\<close>

fun om_set :: "('k \<Rightarrow> 'k \<Rightarrow> bool) \<Rightarrow> 'k \<Rightarrow> 'v \<Rightarrow> ('k \<times> 'v) list \<Rightarrow> ('k \<times> 'v) list" where
  "om_set lt k v [] = [(k, v)]"
| "om_set lt k v (e # m) =
     (if k = fst e then (k, v) # m
      else if lt k (fst e) then (k, v) # e # m
      else e # om_set lt k v m)"

definition om_erase :: "'k \<Rightarrow> ('k \<times> 'v) list \<Rightarrow> ('k \<times> 'v) list" where
  "om_erase k m = filter (\<lambda>e. fst e \<noteq> k) m"

definition om_at :: "('k \<times> u64) list \<Rightarrow> 'k \<Rightarrow> u64" where
  "om_at m k = (case map_of m k of None \<Rightarrow> 0 | Some v \<Rightarrow> v)"

text \<open>\<^verbatim>\<open>levels[price] += size\<close>: a missing entry is value-initialised, the sum wraps.\<close>

definition om_add :: "('k \<Rightarrow> 'k \<Rightarrow> bool) \<Rightarrow> 'k \<Rightarrow> u64 \<Rightarrow> ('k \<times> u64) list \<Rightarrow> ('k \<times> u64) list" where
  "om_add lt k s m = om_set lt k (om_at m k + s) m"

text \<open>The find / erase-or-subtract block of every \<^verbatim>\<open>removeLevelVolume\<close> and \<^verbatim>\<open>removeLevel\<close>.\<close>

definition om_sub :: "('k \<Rightarrow> 'k \<Rightarrow> bool) \<Rightarrow> 'k \<Rightarrow> u64 \<Rightarrow> ('k \<times> u64) list \<Rightarrow> ('k \<times> u64) list" where
  "om_sub lt k s m =
     (case map_of m k of
        None \<Rightarrow> m
      | Some v \<Rightarrow> if v \<le> s then om_erase k m else om_set lt k (v - s) m)"

text \<open>
  \<^verbatim>\<open>if (copied++ >= depth) break; levels.push_back(level);\<close> over the entries in order, with
  the 64-bit counter of the source; it never passes \<open>depth\<close>, so it does not wrap.
\<close>

fun copyLevels :: "u64 \<Rightarrow> u64 \<Rightarrow> 'a list \<Rightarrow> 'a list" where
  "copyLevels copied depth [] = []"
| "copyLevels copied depth (l # ls) =
     (if depth \<le> copied then [] else l # copyLevels (copied + 1) depth ls)"

lemma copyLevels_from: "copyLevels c d ls = take (unat d - unat c) ls"
proof (induction c d ls rule: copyLevels.induct)
  case (2 c d l ls)
  show ?case
  proof (cases "d \<le> c")
    case True
    then show ?thesis by (simp add: word_le_nat_alt)
  next
    case False
    then have "c \<noteq> - 1" by (metis word_order.extremum)
    then have "unat d - unat c = Suc (unat d - unat (c + 1))"
      using False by (simp add: unat_suc_u64 word_le_nat_alt Suc_diff_Suc)
    with 2 False show ?thesis by simp
  qed
qed simp

lemma copyLevels_take: "copyLevels 0 d ls = take (unat d) ls"
  by (simp add: copyLevels_from)

section \<open>Contents, for any comparator\<close>

lemma map_of_om_set [simp]: "map_of (om_set lt k v m) = (map_of m)(k \<mapsto> v)"
  by (induction m) auto

lemma map_of_om_erase [simp]: "map_of (om_erase k m) = (map_of m)(k := None)"
  by (induction m) (auto simp: om_erase_def)

lemma map_of_om_add: "map_of (om_add lt k s m) = (map_of m)(k \<mapsto> om_at m k + s)"
  by (simp add: om_add_def)

lemma map_of_om_sub:
  "map_of (om_sub lt k s m) =
     (case map_of m k of
        None \<Rightarrow> map_of m
      | Some v \<Rightarrow> if v \<le> s then (map_of m)(k := None) else (map_of m)(k \<mapsto> v - s))"
  by (simp add: om_sub_def split: option.split)

lemma om_at_add: "om_at (om_add lt k s m) k' = (if k' = k then om_at m k + s else om_at m k')"
  by (simp add: om_at_def map_of_om_add)

lemma om_at_sub:
  "om_at (om_sub lt k s m) k' =
     (if k' = k then (if om_at m k \<le> s then 0 else om_at m k - s) else om_at m k')"
  by (auto simp: om_at_def map_of_om_sub split: option.splits)

lemma set_keys_om_set: "fst ` set (om_set lt k v m) = insert k (fst ` set m)"
  by (induction m) auto

section \<open>A level map represents a volume function\<close>

text \<open>
  The specification of a side of a book is a function from prices to (unbounded) volumes.
  A level map represents it when it has exactly the prices of non-zero volume, each with its
  volume, and the volumes fit in 64 bits.
\<close>

definition represents :: "('k \<times> u64) list \<Rightarrow> ('k \<Rightarrow> nat) \<Rightarrow> bool" where
  "represents m f \<longleftrightarrow>
     (\<forall>k. f k < two64 \<and> map_of m k = (if f k = 0 then None else Some (of_nat (f k))))"

lemma represents_Nil [simp]: "represents [] f \<longleftrightarrow> (\<forall>k. f k = 0)"
  by (auto simp: represents_def split: if_splits)

lemma represents_SomeD: "represents m f \<Longrightarrow> map_of m k = Some v \<Longrightarrow> 0 < f k \<and> unat v = f k"
  by (simp add: represents_def) (metis neq0_conv option.distinct(1) option.inject unat_of_nat_u64)

lemma represents_NoneD: "represents m f \<Longrightarrow> map_of m k = None \<Longrightarrow> f k = 0"
  by (simp add: represents_def) (metis option.distinct(1))

lemma represents_at: "represents m f \<Longrightarrow> unat (om_at m k) = f k"
  by (auto simp: om_at_def dest: represents_SomeD represents_NoneD split: option.split)

lemma represents_add:
  assumes rep: "represents m f" and pos: "0 < s" and fits: "f k + unat s < two64"
  shows "represents (om_add lt k s m) (f(k := f k + unat s))"
proof -
  have "unat (om_at m k + s) = f k + unat s"
    using fits represents_at [OF rep, of k] by (simp add: unat_add_u64)
  then have "om_at m k + s = of_nat (f k + unat s)" by (rule of_nat_volume)
  moreover have "0 < unat s" using pos by (rule unat_pos_u64)
  ultimately show ?thesis
    using rep fits by (auto simp: represents_def map_of_om_add)
qed

text \<open>Removing more than there is empties the level, as the truncating difference says.\<close>

lemma represents_sub:
  assumes rep: "represents m f"
  shows "represents (om_sub lt k s m) (f(k := f k - unat s))"
proof (cases "map_of m k")
  case None
  with rep have "f k = 0" by (rule represents_NoneD)
  with None rep show ?thesis by (auto simp: represents_def map_of_om_sub)
next
  case (Some v)
  with rep have v: "unat v = f k" by (blast dest: represents_SomeD)
  show ?thesis
  proof (cases "v \<le> s")
    case True
    then have "f k - unat s = 0" using v by (simp add: word_le_nat_alt)
    with True Some rep show ?thesis by (auto simp: represents_def map_of_om_sub)
  next
    case False
    then have "unat (v - s) = f k - unat s" "unat s < f k"
      using v by (auto simp: word_le_nat_alt unat_diff_u64)
    with False Some rep show ?thesis
      by (auto simp: represents_def map_of_om_sub less_imp_diff_less dest: of_nat_volume)
  qed
qed

section \<open>Comparators\<close>

abbreviation sorted_levels :: "('k \<Rightarrow> 'k \<Rightarrow> bool) \<Rightarrow> ('k \<times> 'v) list \<Rightarrow> bool" where
  "sorted_levels lt m \<equiv> sorted_wrt lt (keys m)"

locale key_order =
  fixes lt :: "'k \<Rightarrow> 'k \<Rightarrow> bool"
  assumes lt_irrefl: "\<not> lt x x"
    and lt_trans: "lt x y \<Longrightarrow> lt y z \<Longrightarrow> lt x z"
    and lt_total: "x \<noteq> y \<Longrightarrow> lt x y \<or> lt y x"
begin

lemma sorted_distinct: "sorted_levels lt m \<Longrightarrow> distinct (keys m)"
  by (induction m) (auto simp: lt_irrefl)

lemma sorted_om_set: "sorted_levels lt m \<Longrightarrow> sorted_levels lt (om_set lt k v m)"
proof (induction m)
  case Nil
  then show ?case by simp
next
  case (Cons e m)
  then show ?case
    using lt_total [of k "fst e"] by (auto simp: set_keys_om_set simp flip: image_set intro: lt_trans)
qed

lemma sorted_om_erase: "sorted_levels lt m \<Longrightarrow> sorted_levels lt (om_erase k m)"
  by (induction m) (auto simp: om_erase_def)

lemma sorted_om_add: "sorted_levels lt m \<Longrightarrow> sorted_levels lt (om_add lt k s m)"
  by (simp add: om_add_def sorted_om_set)

lemma sorted_om_sub: "sorted_levels lt m \<Longrightarrow> sorted_levels lt (om_sub lt k s m)"
  by (simp add: om_sub_def sorted_om_set sorted_om_erase split: option.split)

text \<open>The first entry is the best: every other key comes after it.\<close>

lemma begin_is_best: "sorted_levels lt (e # m) \<Longrightarrow> map_of (e # m) k = Some v \<Longrightarrow> k = fst e \<or> lt (fst e) k"
  by (auto dest!: map_of_SomeD split: if_splits)

text \<open>A sorted map is determined by its contents.\<close>

lemma sorted_map_eqI:
  "sorted_levels lt m \<Longrightarrow> sorted_levels lt m' \<Longrightarrow> map_of m = map_of m' \<Longrightarrow> m = m'"
proof (induction m arbitrary: m')
  case Nil
  then show ?case by (cases m') (auto dest: fun_cong split: if_splits)
next
  case (Cons e m)
  obtain e' n where m': "m' = e' # n"
    using Cons.prems(3) by (cases m') (auto dest: fun_cong [where x = "fst e"])
  have "fst e = fst e'"
  proof (rule ccontr)
    assume ne: "fst e \<noteq> fst e'"
    have "map_of (e # m) (fst e') \<noteq> None" "map_of m' (fst e) \<noteq> None"
      using fun_cong [OF Cons.prems(3), of "fst e"] fun_cong [OF Cons.prems(3), of "fst e'"]
      by (auto simp: m' split: if_splits dest: sym)
    then obtain v v' where "map_of (e # m) (fst e') = Some v" "map_of (e' # n) (fst e) = Some v'"
      unfolding m' by blast
    with ne have "lt (fst e) (fst e')" "lt (fst e') (fst e)"
      using begin_is_best [of e m "fst e'" v] begin_is_best [of e' n "fst e" v'] Cons.prems(1,2)
      unfolding m' by auto
    then show False using lt_irrefl lt_trans by blast
  qed
  moreover have "snd e = snd e'"
    using Cons.prems(3) calculation by (auto simp: m' dest: fun_cong [where x = "fst e"])
  moreover have "m = n"
  proof (rule Cons.IH)
    show "sorted_levels lt m" "sorted_levels lt n"
      using Cons.prems(1,2) by (auto simp: m')
    have "map_of m (fst e) = None" "map_of n (fst e) = None"
      using sorted_distinct [OF Cons.prems(1)] sorted_distinct [OF Cons.prems(2)] \<open>fst e = fst e'\<close>
      by (auto simp: m' map_of_eq_None_iff)
    then show "map_of m = map_of n"
      using fun_cong [OF Cons.prems(3)] \<open>fst e = fst e'\<close>
      by (intro ext) (metis m' map_of.simps(2) fun_upd_apply)
  qed
  ultimately show ?case by (simp add: m' prod_eq_iff)
qed

lemma represents_unique:
  "sorted_levels lt m \<Longrightarrow> sorted_levels lt m' \<Longrightarrow> represents m f \<Longrightarrow> represents m' f \<Longrightarrow> m = m'"
  by (rule sorted_map_eqI) (auto simp: represents_def fun_eq_iff)

text \<open>The head of a represented side is the extreme price of non-zero volume.\<close>

lemma best_of_represents:
  assumes "sorted_levels lt m" and "represents m f"
  shows "m = [] \<longleftrightarrow> (\<forall>k. f k = 0)"
    and "m = (k, v) # m' \<Longrightarrow> 0 < f k \<and> unat v = f k \<and> (\<forall>k'. 0 < f k' \<longrightarrow> k' = k \<or> lt k k')"
proof -
  show "m = [] \<longleftrightarrow> (\<forall>k. f k = 0)"
  proof (cases m)
    case (Cons e n)
    then have "f (fst e) \<noteq> 0" using assms(2) by (auto simp: represents_def split: if_splits)
    with Cons show ?thesis by auto
  qed (use assms(2) in simp)
  assume m: "m = (k, v) # m'"
  then have "map_of m k = Some v" by simp
  with assms(2) have "0 < f k \<and> unat v = f k" by (rule represents_SomeD)
  moreover have "k' = k \<or> lt k k'" if "0 < f k'" for k'
  proof -
    have "map_of m k' = Some (of_nat (f k'))" using assms(2) that by (auto simp: represents_def)
    then show ?thesis using begin_is_best [of "(k, v)" m' k'] assms(1) m by auto
  qed
  ultimately show "0 < f k \<and> unat v = f k \<and> (\<forall>k'. 0 < f k' \<longrightarrow> k' = k \<or> lt k k')" by blast
qed

end

text \<open>The two comparators of the books: \<^verbatim>\<open>std::less\<close> (asks) and \<^verbatim>\<open>std::greater\<close> (bids).\<close>

interpretation asc: key_order "(<) :: int64 \<Rightarrow> int64 \<Rightarrow> bool"
  by unfold_locales auto

interpretation desc: key_order "(>) :: int64 \<Rightarrow> int64 \<Rightarrow> bool"
  by unfold_locales auto

section \<open>A pair of sides\<close>

text \<open>
  The invariant that every two-sided book keeps: each side is sorted by its comparator and
  represents the volume function \<open>tot\<close> of that side.
\<close>

definition sides_ok :: "levels \<Rightarrow> levels \<Rightarrow> (Side \<Rightarrow> price \<Rightarrow> nat) \<Rightarrow> bool" where
  "sides_ok b a tot \<longleftrightarrow>
     sorted_levels (>) b \<and> sorted_levels (<) a \<and> represents b (tot Bid) \<and> represents a (tot Ask)"

lemma sides_ok_unique:
  "sides_ok b a tot \<Longrightarrow> sides_ok b' a' tot \<Longrightarrow> b = b' \<and> a = a'"
  unfolding sides_ok_def by (blast intro: asc.represents_unique desc.represents_unique)

text \<open>
  Raising and lowering a volume function at one side and price, and the effect of the level
  operations on a pair of sides. \<open>side_vol\<close> is the volume function of a map of orders, for
  any order type: \<open>sf\<close>, \<open>pf\<close> and \<open>zf\<close> read the side, price and size of an order.
\<close>

definition raise :: "(Side \<Rightarrow> price \<Rightarrow> nat) \<Rightarrow> Side \<Rightarrow> price \<Rightarrow> nat \<Rightarrow> Side \<Rightarrow> price \<Rightarrow> nat" where
  "raise tot sd p n = tot(sd := (tot sd)(p := tot sd p + n))"

definition lower :: "(Side \<Rightarrow> price \<Rightarrow> nat) \<Rightarrow> Side \<Rightarrow> price \<Rightarrow> nat \<Rightarrow> Side \<Rightarrow> price \<Rightarrow> nat" where
  "lower tot sd p n = tot(sd := (tot sd)(p := tot sd p - n))"

definition side_vol ::
  "('o \<Rightarrow> Side) \<Rightarrow> ('o \<Rightarrow> price) \<Rightarrow> ('o \<Rightarrow> u64) \<Rightarrow> ('k, 'o) umap \<Rightarrow> Side \<Rightarrow> price \<Rightarrow> nat" where
  "side_vol sf pf zf m sd p = vol (\<lambda>x. sf x = sd \<and> pf x = p) zf m"

lemma sides_ok_add:
  assumes "sides_ok b a tot" and "0 < s" and "tot sd p + unat s < two64"
  shows "sd = Bid \<Longrightarrow> sides_ok (om_add (>) p s b) a (raise tot sd p (unat s))"
    and "sd = Ask \<Longrightarrow> sides_ok b (om_add (<) p s a) (raise tot sd p (unat s))"
  using assms by (auto simp: sides_ok_def raise_def represents_add asc.sorted_om_add desc.sorted_om_add)

lemma sides_ok_sub:
  assumes "sides_ok b a tot"
  shows "sd = Bid \<Longrightarrow> sides_ok (om_sub (>) p s b) a (lower tot sd p (unat s))"
    and "sd = Ask \<Longrightarrow> sides_ok b (om_sub (<) p s a) (lower tot sd p (unat s))"
  using assms by (auto simp: sides_ok_def lower_def represents_sub asc.sorted_om_sub desc.sorted_om_sub)

lemma side_vol_Nil: "side_vol sf pf zf [] = (\<lambda>_ _. 0)"
  by (simp add: side_vol_def fun_eq_iff)

lemma sides_ok_empty: "sides_ok [] [] (side_vol sf pf zf [])"
  by (simp add: sides_ok_def side_vol_Nil)

lemma side_vol_delete:
  "distinct (keys m) \<Longrightarrow> map_of m k = Some x \<Longrightarrow>
   side_vol sf pf zf (AList.delete k m) = lower (side_vol sf pf zf m) (sf x) (pf x) (unat (zf x))"
  by (auto simp: side_vol_def lower_def fun_eq_iff vol_delete)

lemma side_vol_update:
  "distinct (keys m) \<Longrightarrow>
   side_vol sf pf zf (AList.update k x m) =
     raise (side_vol sf pf zf (AList.delete k m)) (sf x) (pf x) (unat (zf x))"
  by (auto simp: side_vol_def raise_def fun_eq_iff vol_update)

text \<open>Shrinking an order in place lowers its level by what was taken off.\<close>

lemma side_vol_shrink:
  assumes "distinct (keys m)" and "map_of m k = Some x" and "sf y = sf x" and "pf y = pf x"
    and "unat (zf y) = unat (zf x) - n" and "n \<le> unat (zf x)"
  shows "side_vol sf pf zf (AList.update k y m) = lower (side_vol sf pf zf m) (sf x) (pf x) n"
  using assms by (auto simp: side_vol_update side_vol_delete raise_def lower_def fun_eq_iff
      side_vol_def vol_delete)

lemma side_vol_le_total: "side_vol sf pf zf m sd p \<le> vol (\<lambda>_. True) zf m"
  unfolding side_vol_def by (rule vol_le_total)

text \<open>Levels exist only at the prices of orders.\<close>

lemma side_vol_price:
  "0 < side_vol sf pf zf m sd p \<Longrightarrow> \<exists>k x. (k, x) \<in> set m \<and> sf x = sd \<and> pf x = p"
  unfolding side_vol_def by (induction m) (auto split: if_splits, blast)

lemma levels_of_sides:
  assumes "sides_ok b a tot"
  shows "p \<in> set (keys b) \<Longrightarrow> 0 < tot Bid p" and "p \<in> set (keys a) \<Longrightarrow> 0 < tot Ask p"
  using assms unfolding sides_ok_def
  by (metis not_None_eq represents_SomeD map_of_eq_None_iff set_map)+

text \<open>
  There are only \<open>2 ^ 64\<close> prices, and a book never has a level at the undefined one, so the
  depth \<^verbatim>\<open>std::numeric_limits<std::size_t>::max()\<close> used for full snapshots copies every level.
\<close>

lemma copy_all_levels:
  assumes "distinct (keys (m :: (price \<times> 'v) list))" and "undefined_price \<notin> set (keys m)"
  shows "copyLevels 0 (- 1) m = m"
proof -
  have "length m = card (set (keys m))"
    using distinct_card [OF assms(1)] by simp
  also have "\<dots> < card (UNIV :: int64 set)"
    by (rule psubset_card_mono) (use assms(2) in auto)
  finally have "length m \<le> unat (- 1 :: u64)"
    by (simp add: card_int64 unat_minus_one_u64)
  then show ?thesis by (simp add: copyLevels_take)
qed

end
