(* ===== verification/LimitOrderBook.thy ===== *)
theory LimitOrderBook
  imports OrderedMap
begin

text \<open>
  \<^verbatim>\<open>src/book/LimitOrderBook.{hpp,cpp}\<close>: the order-by-order book of one instrument. The
  record is the private state of the class, \<open>LOB_<method>\<close> is the method. The
  specification of the book is the map of resting orders; the two level maps are proved to be
  the exact aggregation of that map, as long as the volume at a price fits in 64 bits.
\<close>

section \<open>State\<close>

record RestingOrder =
  ro_side :: Side
  ro_price :: price
  ro_size :: quantity

record UnknownOrderDiagnostic =
  ud_operation :: string
  ud_decision :: string
  ud_timestamp :: u64
  ud_instrument_id :: u64
  ud_order_id :: u64
  ud_side :: Side
  ud_price :: price
  ud_size :: u64
  ud_source_file_id :: u32
  ud_source_sequence :: u64
  ud_line_number :: u64

record LimitOrderBook =
  lb_instrument_id :: u64
  lb_bids :: levels
  lb_asks :: levels
  lb_orders :: "(u64, RestingOrder) umap"
  lb_unknown_modify_recovered_as_add_count :: u64
  lb_unknown_modify_skipped_count :: u64
  lb_unknown_cancel_skipped_count :: u64
  lb_trade_count :: u64
  lb_fill_count :: u64
  lb_unknown_order_diagnostics :: "UnknownOrderDiagnostic list"

definition unknown_order_diagnostic_sample_limit :: nat where
  "unknown_order_diagnostic_sample_limit = 32"

definition LOB_new :: "u64 \<Rightarrow> LimitOrderBook" where
  "LOB_new instrument_id =
     \<lparr>lb_instrument_id = instrument_id, lb_bids = [], lb_asks = [], lb_orders = [],
      lb_unknown_modify_recovered_as_add_count = 0, lb_unknown_modify_skipped_count = 0,
      lb_unknown_cancel_skipped_count = 0, lb_trade_count = 0, lb_fill_count = 0,
      lb_unknown_order_diagnostics = []\<rparr>"

section \<open>Operations\<close>

definition LOB_addLevelVolume ::
  "Side \<Rightarrow> price \<Rightarrow> u64 \<Rightarrow> LimitOrderBook \<Rightarrow> LimitOrderBook" where
  "LOB_addLevelVolume side price sz b =
     (if side = Bid then b\<lparr>lb_bids := om_add (>) price sz (lb_bids b)\<rparr>
      else if side = Ask then b\<lparr>lb_asks := om_add (<) price sz (lb_asks b)\<rparr>
      else b)"

definition LOB_removeLevelVolume ::
  "Side \<Rightarrow> price \<Rightarrow> u64 \<Rightarrow> LimitOrderBook \<Rightarrow> LimitOrderBook" where
  "LOB_removeLevelVolume side price sz b =
     (if side = Bid then b\<lparr>lb_bids := om_sub (>) price sz (lb_bids b)\<rparr>
      else if side = Ask then b\<lparr>lb_asks := om_sub (<) price sz (lb_asks b)\<rparr>
      else b)"

definition LOB_removeOrder :: "u64 \<Rightarrow> LimitOrderBook \<Rightarrow> LimitOrderBook" where
  "LOB_removeOrder order_id b =
     (case map_of (lb_orders b) order_id of
        None \<Rightarrow> b
      | Some ord \<Rightarrow>
          (let b' = LOB_removeLevelVolume (ro_side ord) (ro_price ord) (ro_size ord) b
           in b'\<lparr>lb_orders := AList.delete order_id (lb_orders b')\<rparr>))"

definition LOB_recordUnknownOrderDiagnostic ::
  "MarketDataEvent \<Rightarrow> string \<Rightarrow> string \<Rightarrow> LimitOrderBook \<Rightarrow> LimitOrderBook" where
  "LOB_recordUnknownOrderDiagnostic e operation decision b =
     (if length (lb_unknown_order_diagnostics b) \<ge> unknown_order_diagnostic_sample_limit then b
      else b\<lparr>lb_unknown_order_diagnostics := lb_unknown_order_diagnostics b @
        [\<lparr>ud_operation = operation, ud_decision = decision, ud_timestamp = ev_timestamp e,
          ud_instrument_id = ev_instrument_id e, ud_order_id = ev_order_id e,
          ud_side = ev_side e, ud_price = ev_price e, ud_size = ev_size e,
          ud_source_file_id = ev_source_file_id e, ud_source_sequence = ev_source_sequence e,
          ud_line_number = ev_line_number e\<rparr>]\<rparr>)"

definition LOB_applyAdd :: "LimitOrderBook \<Rightarrow> MarketDataEvent \<Rightarrow> LimitOrderBook" where
  "LOB_applyAdd b e =
     (if \<not> hasValidRestingState e then b
      else
        let b1 = LOB_removeOrder (ev_order_id e) b;
            b2 = b1\<lparr>lb_orders := AList.update (ev_order_id e)
                      \<lparr>ro_side = ev_side e, ro_price = ev_price e, ro_size = ev_size e\<rparr>
                      (lb_orders b1)\<rparr>
        in LOB_addLevelVolume (ev_side e) (ev_price e) (ev_size e) b2)"

definition LOB_applyCancel :: "LimitOrderBook \<Rightarrow> MarketDataEvent \<Rightarrow> LimitOrderBook" where
  "LOB_applyCancel b e =
     (case map_of (lb_orders b) (ev_order_id e) of
        None \<Rightarrow>
          LOB_recordUnknownOrderDiagnostic e ''cancel'' ''skipped''
            (b\<lparr>lb_unknown_cancel_skipped_count := lb_unknown_cancel_skipped_count b + 1\<rparr>)
      | Some ord \<Rightarrow>
          let cancel_size = (if ev_size e = 0 then ro_size ord else min (ev_size e) (ro_size ord));
              b1 = LOB_removeLevelVolume (ro_side ord) (ro_price ord) cancel_size b;
              ord' = ord\<lparr>ro_size := ro_size ord - cancel_size\<rparr>
          in if ro_size ord' = 0
             then b1\<lparr>lb_orders := AList.delete (ev_order_id e) (lb_orders b1)\<rparr>
             else b1\<lparr>lb_orders := AList.update (ev_order_id e) ord' (lb_orders b1)\<rparr>)"

definition LOB_applyModify :: "LimitOrderBook \<Rightarrow> MarketDataEvent \<Rightarrow> LimitOrderBook" where
  "LOB_applyModify b e =
     (case map_of (lb_orders b) (ev_order_id e) of
        None \<Rightarrow>
          if hasValidRestingState e
          then LOB_applyAdd
                 (LOB_recordUnknownOrderDiagnostic e ''modify'' ''recovered_as_add''
                    (b\<lparr>lb_unknown_modify_recovered_as_add_count :=
                         lb_unknown_modify_recovered_as_add_count b + 1\<rparr>)) e
          else LOB_recordUnknownOrderDiagnostic e ''modify'' ''skipped''
                 (b\<lparr>lb_unknown_modify_skipped_count := lb_unknown_modify_skipped_count b + 1\<rparr>)
      | Some ord \<Rightarrow>
          if \<not> hasValidRestingState e then b
          else
            let b1 = LOB_removeLevelVolume (ro_side ord) (ro_price ord) (ro_size ord) b;
                b2 = b1\<lparr>lb_orders := AList.update (ev_order_id e)
                          \<lparr>ro_side = ev_side e, ro_price = ev_price e, ro_size = ev_size e\<rparr>
                          (lb_orders b1)\<rparr>
            in LOB_addLevelVolume (ev_side e) (ev_price e) (ev_size e) b2)"

definition LOB_applyClear :: "LimitOrderBook \<Rightarrow> MarketDataEvent \<Rightarrow> LimitOrderBook" where
  "LOB_applyClear b e = b\<lparr>lb_bids := [], lb_asks := [], lb_orders := []\<rparr>"

definition LOB_applyTrade :: "LimitOrderBook \<Rightarrow> MarketDataEvent \<Rightarrow> LimitOrderBook" where
  "LOB_applyTrade b e = b\<lparr>lb_trade_count := lb_trade_count b + 1\<rparr>"

definition LOB_applyFill :: "LimitOrderBook \<Rightarrow> MarketDataEvent \<Rightarrow> LimitOrderBook" where
  "LOB_applyFill b e = b\<lparr>lb_fill_count := lb_fill_count b + 1\<rparr>"

definition LOB_apply :: "LimitOrderBook \<Rightarrow> MarketDataEvent \<Rightarrow> LimitOrderBook" where
  "LOB_apply b e =
     (case ev_action e of
        Add \<Rightarrow> LOB_applyAdd b e
      | Modify \<Rightarrow> LOB_applyModify b e
      | Cancel \<Rightarrow> LOB_applyCancel b e
      | Clear \<Rightarrow> LOB_applyClear b e
      | Trade \<Rightarrow> LOB_applyTrade b e
      | Fill \<Rightarrow> LOB_applyFill b e
      | ActionNone \<Rightarrow> b)"

section \<open>Queries\<close>

definition LOB_bestBid :: "LimitOrderBook \<Rightarrow> price option" where
  "LOB_bestBid b = (case lb_bids b of [] \<Rightarrow> None | l # _ \<Rightarrow> Some (fst l))"

definition LOB_bestAsk :: "LimitOrderBook \<Rightarrow> price option" where
  "LOB_bestAsk b = (case lb_asks b of [] \<Rightarrow> None | l # _ \<Rightarrow> Some (fst l))"

definition LOB_volumeAt :: "LimitOrderBook \<Rightarrow> Side \<Rightarrow> price \<Rightarrow> u64" where
  "LOB_volumeAt b side price =
     (if side = Bid then (case map_of (lb_bids b) price of None \<Rightarrow> 0 | Some v \<Rightarrow> v)
      else if side = Ask then (case map_of (lb_asks b) price of None \<Rightarrow> 0 | Some v \<Rightarrow> v)
      else 0)"

definition LOB_restingOrderCount :: "LimitOrderBook \<Rightarrow> nat" where
  "LOB_restingOrderCount b = length (lb_orders b)"

definition LOB_skippedUnknownOrderCount :: "LimitOrderBook \<Rightarrow> u64" where
  "LOB_skippedUnknownOrderCount b =
     lb_unknown_modify_skipped_count b + lb_unknown_cancel_skipped_count b"

definition LOB_containsOrder :: "LimitOrderBook \<Rightarrow> u64 \<Rightarrow> bool" where
  "LOB_containsOrder b order_id \<longleftrightarrow> map_of (lb_orders b) order_id \<noteq> None"

definition LOB_bidLevels :: "LimitOrderBook \<Rightarrow> u64 \<Rightarrow> levels" where
  "LOB_bidLevels b depth = copyLevels 0 depth (lb_bids b)"

definition LOB_askLevels :: "LimitOrderBook \<Rightarrow> u64 \<Rightarrow> levels" where
  "LOB_askLevels b depth = copyLevels 0 depth (lb_asks b)"

section \<open>The invariant\<close>

text \<open>
  \<open>LOB_total b\<close> is the abstract volume function, read off the resting orders. The invariant
  says that the orders are well formed and that both level maps are sorted and represent it.
\<close>

abbreviation LOB_total :: "LimitOrderBook \<Rightarrow> Side \<Rightarrow> price \<Rightarrow> nat" where
  "LOB_total b \<equiv> side_vol ro_side ro_price ro_size (lb_orders b)"

definition valid_resting :: "RestingOrder \<Rightarrow> bool" where
  "valid_resting x \<longleftrightarrow> hasValidSide (ro_side x) \<and> hasValidPrice (ro_price x) \<and> 0 < ro_size x"

definition LOB_inv :: "LimitOrderBook \<Rightarrow> bool" where
  "LOB_inv b \<longleftrightarrow>
     distinct (keys (lb_orders b)) \<and>
     (\<forall>(k, x) \<in> set (lb_orders b). k \<noteq> 0 \<and> valid_resting x) \<and>
     sides_ok (lb_bids b) (lb_asks b) (LOB_total b)"

text \<open>The room a step needs: an added volume must fit in 64 bits together with its level.\<close>

definition LOB_room :: "LimitOrderBook \<Rightarrow> MarketDataEvent \<Rightarrow> bool" where
  "LOB_room b e \<longleftrightarrow>
     (ev_action e = Add \<or> ev_action e = Modify) \<and> hasValidRestingState e \<longrightarrow>
     side_vol ro_side ro_price ro_size (AList.delete (ev_order_id e) (lb_orders b))
       (ev_side e) (ev_price e) + unat (ev_size e) < two64"

lemma LOB_inv_new: "LOB_inv (LOB_new i)"
  by (simp add: LOB_inv_def LOB_new_def sides_ok_empty)

subsection \<open>Frames of the level operations\<close>

lemma LOB_level_frame [simp]:
  "lb_orders (LOB_addLevelVolume sd p s b) = lb_orders b"
  "lb_orders (LOB_removeLevelVolume sd p s b) = lb_orders b"
  by (simp_all add: LOB_addLevelVolume_def LOB_removeLevelVolume_def)

lemma LOB_record_frame [simp]:
  "lb_orders (LOB_recordUnknownOrderDiagnostic e x y b) = lb_orders b"
  "lb_bids (LOB_recordUnknownOrderDiagnostic e x y b) = lb_bids b"
  "lb_asks (LOB_recordUnknownOrderDiagnostic e x y b) = lb_asks b"
  by (simp_all add: LOB_recordUnknownOrderDiagnostic_def)

abbreviation LOB_sides :: "LimitOrderBook \<Rightarrow> (Side \<Rightarrow> price \<Rightarrow> nat) \<Rightarrow> bool" where
  "LOB_sides b tot \<equiv> sides_ok (lb_bids b) (lb_asks b) tot"

lemma LOB_sides_add:
  "LOB_sides b tot \<Longrightarrow> hasValidSide sd \<Longrightarrow> 0 < s \<Longrightarrow> tot sd p + unat s < two64 \<Longrightarrow>
   LOB_sides (LOB_addLevelVolume sd p s b) (raise tot sd p (unat s))"
  by (auto simp: LOB_addLevelVolume_def hasValidSide_def sides_ok_add)

lemma LOB_sides_remove:
  "LOB_sides b tot \<Longrightarrow> hasValidSide sd \<Longrightarrow>
   LOB_sides (LOB_removeLevelVolume sd p s b) (lower tot sd p (unat s))"
  by (auto simp: LOB_removeLevelVolume_def hasValidSide_def sides_ok_sub)

lemma LOB_inv_order:
  "LOB_inv b \<Longrightarrow> map_of (lb_orders b) k = Some x \<Longrightarrow> k \<noteq> 0 \<and> valid_resting x"
  by (auto simp: LOB_inv_def dest: map_of_SomeD)

lemma LOB_orders_removeOrder:
  "lb_orders (LOB_removeOrder k b) = AList.delete k (lb_orders b)"
  by (simp add: LOB_removeOrder_def delete_notin Let_def split: option.split)

subsection \<open>Every operation keeps the invariant\<close>

lemma LOB_inv_removeOrder [inv_intros]: "LOB_inv b \<Longrightarrow> LOB_inv (LOB_removeOrder k b)"
proof (cases "map_of (lb_orders b) k")
  case (Some x)
  assume inv: "LOB_inv b"
  then have "LOB_sides (LOB_removeLevelVolume (ro_side x) (ro_price x) (ro_size x) b)
      (side_vol ro_side ro_price ro_size (AList.delete k (lb_orders b)))"
    using Some LOB_inv_order [OF inv Some]
    by (simp add: side_vol_delete LOB_inv_def valid_resting_def LOB_sides_remove)
  with inv Some show ?thesis
    by (auto simp: LOB_removeOrder_def LOB_inv_def Let_def distinct_keys_delete
        dest: set_delete_subset [THEN subsetD])
qed (simp add: LOB_removeOrder_def)

text \<open>Storing an order over a book from which its id has been taken out.\<close>

lemma LOB_inv_store:
  assumes dist: "distinct (keys (lb_orders b))"
    and wf: "\<forall>(j, y) \<in> set (AList.delete k (lb_orders b)). j \<noteq> 0 \<and> valid_resting y"
    and sides: "LOB_sides b (side_vol ro_side ro_price ro_size (AList.delete k (lb_orders b)))"
    and x: "k \<noteq> 0" "valid_resting x"
    and fits: "side_vol ro_side ro_price ro_size (AList.delete k (lb_orders b)) (ro_side x) (ro_price x)
                 + unat (ro_size x) < two64"
  shows "LOB_inv (LOB_addLevelVolume (ro_side x) (ro_price x) (ro_size x)
           (b\<lparr>lb_orders := AList.update k x (lb_orders b)\<rparr>))"
proof -
  let ?b = "b\<lparr>lb_orders := AList.update k x (lb_orders b)\<rparr>"
  have "LOB_sides (LOB_addLevelVolume (ro_side x) (ro_price x) (ro_size x) ?b)
      (side_vol ro_side ro_price ro_size (AList.update k x (lb_orders b)))"
    unfolding side_vol_update [OF dist]
    by (rule LOB_sides_add) (use sides x fits in \<open>auto simp: valid_resting_def\<close>)
  then show ?thesis
    using dist wf x by (auto simp: LOB_inv_def set_update distinct_keys_update)
qed

lemma LOB_inv_applyAdd [inv_intros]:
  assumes inv: "LOB_inv b" and room: "hasValidRestingState e \<Longrightarrow>
      side_vol ro_side ro_price ro_size (AList.delete (ev_order_id e) (lb_orders b))
       (ev_side e) (ev_price e) + unat (ev_size e) < two64"
  shows "LOB_inv (LOB_applyAdd b e)"
proof (cases "hasValidRestingState e")
  case True
  let ?x = "\<lparr>ro_side = ev_side e, ro_price = ev_price e, ro_size = ev_size e\<rparr>"
  let ?b = "LOB_removeOrder (ev_order_id e) b"
  have inv': "LOB_inv ?b" using inv by (rule inv_intros)
  have idem: "AList.delete k (AList.delete k m) = AList.delete k m" for k and m :: "(u64, RestingOrder) umap"
    by (simp add: delete_notin)
  have "LOB_inv (LOB_addLevelVolume (ro_side ?x) (ro_price ?x) (ro_size ?x)
           (?b\<lparr>lb_orders := AList.update (ev_order_id e) ?x (lb_orders ?b)\<rparr>))"
    by (rule LOB_inv_store)
      (use inv' True room in \<open>auto simp: LOB_inv_def LOB_orders_removeOrder idem valid_resting_def
        hasValidRestingState_def\<close>)
  with True show ?thesis by (simp add: LOB_applyAdd_def Let_def)
qed (simp add: LOB_applyAdd_def inv)

text \<open>Counters and diagnostics are not part of the invariant.\<close>

lemma LOB_inv_counters [simp]:
  "LOB_inv (b\<lparr>lb_trade_count := n\<rparr>) = LOB_inv b"
  "LOB_inv (b\<lparr>lb_fill_count := n\<rparr>) = LOB_inv b"
  "LOB_inv (b\<lparr>lb_unknown_cancel_skipped_count := n\<rparr>) = LOB_inv b"
  "LOB_inv (b\<lparr>lb_unknown_modify_skipped_count := n\<rparr>) = LOB_inv b"
  "LOB_inv (b\<lparr>lb_unknown_modify_recovered_as_add_count := n\<rparr>) = LOB_inv b"
  "LOB_inv (LOB_recordUnknownOrderDiagnostic e x y b) = LOB_inv b"
  by (simp_all add: LOB_inv_def)

lemma LOB_inv_applyCancel [inv_intros]:
  assumes inv: "LOB_inv b" shows "LOB_inv (LOB_applyCancel b e)"
proof (cases "map_of (lb_orders b) (ev_order_id e)")
  case None
  then show ?thesis using inv by (simp add: LOB_applyCancel_def)
next
  case (Some x)
  define c where "c = (if ev_size e = 0 then ro_size x else min (ev_size e) (ro_size x))"
  let ?x = "x\<lparr>ro_size := ro_size x - c\<rparr>"
  let ?b = "LOB_removeLevelVolume (ro_side x) (ro_price x) c b"
  have x: "ev_order_id e \<noteq> 0" "valid_resting x" using LOB_inv_order [OF inv Some] by auto
  have c: "c \<le> ro_size x" by (simp add: c_def)
  have sides: "LOB_sides ?b (lower (LOB_total b) (ro_side x) (ro_price x) (unat c))"
    using inv x by (simp add: LOB_inv_def valid_resting_def LOB_sides_remove)
  show ?thesis
  proof (cases "ro_size x - c = 0")
    case True
    then have "c = ro_size x" by simp
    with inv Some sides show ?thesis
      by (auto simp: LOB_applyCancel_def Let_def c_def [symmetric] LOB_inv_def side_vol_delete
          distinct_keys_delete dest: set_delete_subset [THEN subsetD])
  next
    case False
    have "side_vol ro_side ro_price ro_size (AList.update (ev_order_id e) ?x (lb_orders b)) =
        lower (LOB_total b) (ro_side x) (ro_price x) (unat c)"
      by (rule side_vol_shrink) (use inv Some c in \<open>auto simp: LOB_inv_def unat_diff_u64 word_le_nat_alt\<close>)
    moreover have "valid_resting ?x" using x False by (simp add: valid_resting_def u64_pos_iff)
    ultimately show ?thesis
      using inv Some sides x False
      by (auto simp: LOB_applyCancel_def Let_def c_def [symmetric] LOB_inv_def set_update
          distinct_keys_update dest: set_delete_subset [THEN subsetD])
  qed
qed

lemma LOB_inv_applyModify [inv_intros]:
  assumes inv: "LOB_inv b" and room: "hasValidRestingState e \<Longrightarrow>
      side_vol ro_side ro_price ro_size (AList.delete (ev_order_id e) (lb_orders b))
       (ev_side e) (ev_price e) + unat (ev_size e) < two64"
  shows "LOB_inv (LOB_applyModify b e)"
proof (cases "map_of (lb_orders b) (ev_order_id e)")
  case None
  then show ?thesis
    using inv room by (auto simp: LOB_applyModify_def intro!: LOB_inv_applyAdd)
next
  case (Some y)
  let ?x = "\<lparr>ro_side = ev_side e, ro_price = ev_price e, ro_size = ev_size e\<rparr>"
  let ?b = "LOB_removeLevelVolume (ro_side y) (ro_price y) (ro_size y) b"
  have "LOB_inv (LOB_addLevelVolume (ro_side ?x) (ro_price ?x) (ro_size ?x)
          (?b\<lparr>lb_orders := AList.update (ev_order_id e) ?x (lb_orders ?b)\<rparr>))"
    if "hasValidRestingState e"
  proof (rule LOB_inv_store)
    show "LOB_sides ?b (side_vol ro_side ro_price ro_size (AList.delete (ev_order_id e) (lb_orders ?b)))"
      using inv Some LOB_inv_order [OF inv Some]
      by (simp add: LOB_inv_def side_vol_delete valid_resting_def LOB_sides_remove)
  qed (use inv that room in \<open>auto simp: LOB_inv_def valid_resting_def hasValidRestingState_def
      dest: set_delete_subset [THEN subsetD]\<close>)
  with Some inv show ?thesis by (simp add: LOB_applyModify_def Let_def)
qed

lemma LOB_inv_applyClear [inv_intros]: "LOB_inv b \<Longrightarrow> LOB_inv (LOB_applyClear b e)"
  by (simp add: LOB_applyClear_def LOB_inv_def sides_ok_empty)

lemma LOB_inv_apply: "LOB_inv b \<Longrightarrow> LOB_room b e \<Longrightarrow> LOB_inv (LOB_apply b e)"
  unfolding LOB_apply_def LOB_room_def
  by (cases "ev_action e") (auto intro!: inv_intros simp: LOB_applyTrade_def LOB_applyFill_def)

section \<open>The resting orders: refinement of an order-by-order specification\<close>

text \<open>
  The specification of the book is the partial map from order ids to resting orders, and one
  event acts on it as follows.
\<close>

definition resting_of :: "MarketDataEvent \<Rightarrow> RestingOrder" where
  "resting_of e = \<lparr>ro_side = ev_side e, ro_price = ev_price e, ro_size = ev_size e\<rparr>"

definition book_spec ::
  "(u64 \<rightharpoonup> RestingOrder) \<Rightarrow> MarketDataEvent \<Rightarrow> (u64 \<rightharpoonup> RestingOrder)" where
  "book_spec m e =
     (case ev_action e of
        Add \<Rightarrow> if hasValidRestingState e then m(ev_order_id e \<mapsto> resting_of e) else m
      | Modify \<Rightarrow> if hasValidRestingState e then m(ev_order_id e \<mapsto> resting_of e) else m
      | Cancel \<Rightarrow>
          (case m (ev_order_id e) of
             None \<Rightarrow> m
           | Some x \<Rightarrow>
               if ev_size e = 0 \<or> ro_size x \<le> ev_size e then m(ev_order_id e := None)
               else m(ev_order_id e \<mapsto> x\<lparr>ro_size := ro_size x - ev_size e\<rparr>))
      | Clear \<Rightarrow> Map.empty
      | _ \<Rightarrow> m)"

lemma LOB_orders_applyAdd:
  "lb_orders (LOB_applyAdd b e) =
     (if hasValidRestingState e
      then AList.update (ev_order_id e) (resting_of e) (AList.delete (ev_order_id e) (lb_orders b))
      else lb_orders b)"
  by (simp add: LOB_applyAdd_def Let_def LOB_orders_removeOrder resting_of_def)

lemma LOB_orders_applyModify:
  "lb_orders (LOB_applyModify b e) =
     (if \<not> hasValidRestingState e then lb_orders b
      else if map_of (lb_orders b) (ev_order_id e) = None
      then AList.update (ev_order_id e) (resting_of e) (AList.delete (ev_order_id e) (lb_orders b))
      else AList.update (ev_order_id e) (resting_of e) (lb_orders b))"
  by (auto simp: LOB_applyModify_def Let_def LOB_orders_applyAdd resting_of_def split: option.split)

lemma min_u64_cancel: "c = (if s = 0 then n else min s (n :: u64)) \<Longrightarrow> n - c = 0 \<longleftrightarrow> s = 0 \<or> n \<le> s"
  by (auto simp: min_def)

lemma LOB_orders_applyCancel:
  "lb_orders (LOB_applyCancel b e) =
     (case map_of (lb_orders b) (ev_order_id e) of
        None \<Rightarrow> lb_orders b
      | Some x \<Rightarrow>
          if ev_size e = 0 \<or> ro_size x \<le> ev_size e then AList.delete (ev_order_id e) (lb_orders b)
          else AList.update (ev_order_id e) (x\<lparr>ro_size := ro_size x - ev_size e\<rparr>) (lb_orders b))"
  by (auto simp: LOB_applyCancel_def Let_def min_def split: option.split)

lemmas LOB_orders_simps =
  LOB_orders_applyAdd LOB_orders_applyModify LOB_orders_applyCancel
  LOB_applyClear_def LOB_applyTrade_def LOB_applyFill_def

lemma LOB_apply_orders: "map_of (lb_orders (LOB_apply b e)) = book_spec (map_of (lb_orders b)) e"
  by (cases "ev_action e")
    (auto simp: LOB_apply_def book_spec_def LOB_orders_simps fun_eq_iff split: option.split)

lemma LOB_run_orders:
  "map_of (lb_orders (foldl LOB_apply b es)) = foldl book_spec (map_of (lb_orders b)) es"
  by (induction es arbitrary: b) (simp_all add: LOB_apply_orders)

text \<open>Order-level well-formedness holds after every event, whatever the volumes.\<close>

definition LOB_wf :: "LimitOrderBook \<Rightarrow> bool" where
  "LOB_wf b \<longleftrightarrow> distinct (keys (lb_orders b)) \<and> map_of (lb_orders b) 0 = None"

lemma LOB_wf_new: "LOB_wf (LOB_new i)"
  by (simp add: LOB_wf_def LOB_new_def)

lemma LOB_wf_apply: "LOB_wf b \<Longrightarrow> LOB_wf (LOB_apply b e)"
  by (cases "ev_action e")
    (auto simp: LOB_wf_def LOB_apply_def LOB_orders_simps distinct_keys_update distinct_keys_delete
      hasValidRestingState_def simp del: map_of_eq_Some_iff split: option.split)

lemma LOB_instrument_level [simp]:
  "lb_instrument_id (LOB_addLevelVolume sd p s b) = lb_instrument_id b"
  "lb_instrument_id (LOB_removeLevelVolume sd p s b) = lb_instrument_id b"
  "lb_instrument_id (LOB_removeOrder k b) = lb_instrument_id b"
  "lb_instrument_id (LOB_recordUnknownOrderDiagnostic e x y b) = lb_instrument_id b"
  by (simp_all add: LOB_addLevelVolume_def LOB_removeLevelVolume_def LOB_removeOrder_def
      LOB_recordUnknownOrderDiagnostic_def Let_def split: option.split)

lemma LOB_instrument_apply [simp]: "lb_instrument_id (LOB_apply b e) = lb_instrument_id b"
  by (cases "ev_action e")
    (auto simp: LOB_apply_def LOB_applyAdd_def LOB_applyModify_def LOB_applyCancel_def
      LOB_applyClear_def LOB_applyTrade_def LOB_applyFill_def Let_def split: option.split)

lemma LOB_contains_other:
  "k \<noteq> ev_order_id e \<Longrightarrow> ev_action e \<noteq> Clear \<Longrightarrow>
   LOB_containsOrder (LOB_apply b e) k = LOB_containsOrder b k"
  by (cases "ev_action e")
    (auto simp: LOB_containsOrder_def LOB_apply_orders book_spec_def split: option.split)

lemma LOB_contains_own:
  "LOB_containsOrder (LOB_apply b e) (ev_order_id e) \<longleftrightarrow>
     (case ev_action e of
        Add \<Rightarrow> hasValidRestingState e \<or> LOB_containsOrder b (ev_order_id e)
      | Modify \<Rightarrow> hasValidRestingState e \<or> LOB_containsOrder b (ev_order_id e)
      | Cancel \<Rightarrow> (\<exists>x. map_of (lb_orders b) (ev_order_id e) = Some x \<and>
                     ev_size e \<noteq> 0 \<and> \<not> ro_size x \<le> ev_size e)
      | Clear \<Rightarrow> False
      | _ \<Rightarrow> LOB_containsOrder b (ev_order_id e))"
  by (cases "ev_action e")
    (auto simp: LOB_containsOrder_def LOB_apply_orders book_spec_def split: option.split)

lemma LOB_contains_clear: "ev_action e = Clear \<Longrightarrow> \<not> LOB_containsOrder (LOB_apply b e) k"
  by (simp add: LOB_containsOrder_def LOB_apply_orders book_spec_def)

lemmas LOB_contains_simps = LOB_contains_other LOB_contains_own LOB_contains_clear

section \<open>Volume budget of a run\<close>

definition added_volume :: "MarketDataEvent \<Rightarrow> nat" where
  "added_volume e = (if ev_action e = Add \<or> ev_action e = Modify then unat (ev_size e) else 0)"

lemma LOB_used_step:
  assumes "LOB_inv b"
  shows "vol (\<lambda>_. True) ro_size (lb_orders (LOB_apply b e)) \<le>
         vol (\<lambda>_. True) ro_size (lb_orders b) + added_volume e"
proof -
  have dist: "distinct (keys (lb_orders b))" using assms by (simp add: LOB_inv_def)
  have del: "vol (\<lambda>_. True) ro_size (AList.delete k (AList.delete k m)) \<le> vol (\<lambda>_. True) ro_size m"
    for k and m :: "(u64, RestingOrder) umap"
    by (meson order_trans vol_delete_le)
  have shrink: "vol (\<lambda>_. True) ro_size (AList.delete k (lb_orders b)) + unat (ro_size x - t)
      \<le> vol (\<lambda>_. True) ro_size (lb_orders b)"
    if "(k, x) \<in> set (lb_orders b)" "\<not> ro_size x \<le> t" for k x t
    using vol_delete [OF dist map_of_is_SomeI [OF dist that(1)], of "\<lambda>_. True" ro_size] that(2)
    by (simp add: unat_diff_u64)
  show ?thesis
    by (cases "ev_action e")
      (auto simp: LOB_apply_def LOB_orders_simps added_volume_def vol_update dist distinct_keys_delete
        resting_of_def del vol_delete_le shrink split: option.split)
qed

lemma LOB_room_budget:
  assumes "vol (\<lambda>_. True) ro_size (lb_orders b) + added_volume e < two64"
  shows "LOB_room b e"
proof -
  have "side_vol ro_side ro_price ro_size (AList.delete k (lb_orders b)) sd p
      \<le> vol (\<lambda>_. True) ro_size (lb_orders b)" for k sd p
    by (rule order_trans [OF side_vol_le_total vol_delete_le])
  note le = this [of "ev_order_id e" "ev_side e" "ev_price e"]
  show ?thesis
    unfolding LOB_room_def
  proof (intro impI)
    assume "(ev_action e = Add \<or> ev_action e = Modify) \<and> hasValidRestingState e"
    then have "added_volume e = unat (ev_size e)" by (auto simp: added_volume_def)
    with assms le show "side_vol ro_side ro_price ro_size (AList.delete (ev_order_id e) (lb_orders b))
        (ev_side e) (ev_price e) + unat (ev_size e) < two64" by linarith
  qed
qed

interpretation lob: budgeted_machine LOB_apply LOB_room LOB_inv
  "\<lambda>b. vol (\<lambda>_. True) ro_size (lb_orders b)" added_volume two64
  by unfold_locales (auto intro: LOB_inv_apply LOB_room_budget LOB_used_step)

section \<open>What the queries return\<close>

lemma LOB_volumeAt_total:
  "LOB_inv b \<Longrightarrow> hasValidSide sd \<Longrightarrow> unat (LOB_volumeAt b sd p) = LOB_total b sd p"
  by (auto simp: LOB_volumeAt_def LOB_inv_def sides_ok_def hasValidSide_def om_at_def [symmetric]
      dest: represents_at)

definition side_prices :: "LimitOrderBook \<Rightarrow> Side \<Rightarrow> price set" where
  "side_prices b sd = {ro_price x | k x. map_of (lb_orders b) k = Some x \<and> ro_side x = sd}"

lemma LOB_total_pos_iff:
  assumes "LOB_inv b"
  shows "0 < LOB_total b sd p \<longleftrightarrow> p \<in> side_prices b sd"
proof -
  have dist: "distinct (keys (lb_orders b))"
    and pos: "\<And>k x. (k, x) \<in> set (lb_orders b) \<Longrightarrow> 0 < ro_size x"
    using assms by (auto simp: LOB_inv_def valid_resting_def)
  have "0 < LOB_total b sd p \<longleftrightarrow> (\<exists>(k, x) \<in> set (lb_orders b). ro_side x = sd \<and> ro_price x = p)"
    using pos by (force simp: side_vol_def vol_eq_0_iff neq0_conv [symmetric] simp del: neq0_conv)
  then show ?thesis
    using dist by (auto simp: side_prices_def)
qed

lemma finite_side_prices [simp]: "finite (side_prices b sd)"
  by (rule finite_subset [of _ UNIV]) auto

lemma LOB_bestBid_extreme:
  assumes inv: "LOB_inv b"
  shows "LOB_bestBid b = (if side_prices b Bid = {} then None else Some (Max (side_prices b Bid)))"
proof -
  have srt: "sorted_levels (>) (lb_bids b)" and rep: "represents (lb_bids b) (LOB_total b Bid)"
    using inv by (auto simp: LOB_inv_def sides_ok_def)
  show ?thesis
  proof (cases "lb_bids b")
    case Nil
    then have "side_prices b Bid = {}"
      using desc.best_of_represents(1) [OF srt rep] LOB_total_pos_iff [OF inv, of Bid] by auto
    with Nil show ?thesis by (simp add: LOB_bestBid_def)
  next
    case (Cons l ls)
    then have "fst l \<in> side_prices b Bid \<and> (\<forall>p \<in> side_prices b Bid. p = fst l \<or> p < fst l)"
      using desc.best_of_represents(2) [OF srt rep, of "fst l" "snd l" ls]
        LOB_total_pos_iff [OF inv, of Bid] by auto
    then have "side_prices b Bid \<noteq> {}" "Max (side_prices b Bid) = fst l"
      by (auto intro!: Max_eqI)
    with Cons show ?thesis by (simp add: LOB_bestBid_def)
  qed
qed

lemma LOB_bestAsk_extreme:
  assumes inv: "LOB_inv b"
  shows "LOB_bestAsk b = (if side_prices b Ask = {} then None else Some (Min (side_prices b Ask)))"
proof -
  have srt: "sorted_levels (<) (lb_asks b)" and rep: "represents (lb_asks b) (LOB_total b Ask)"
    using inv by (auto simp: LOB_inv_def sides_ok_def)
  show ?thesis
  proof (cases "lb_asks b")
    case Nil
    then have "side_prices b Ask = {}"
      using asc.best_of_represents(1) [OF srt rep] LOB_total_pos_iff [OF inv, of Ask] by auto
    with Nil show ?thesis by (simp add: LOB_bestAsk_def)
  next
    case (Cons l ls)
    then have "fst l \<in> side_prices b Ask \<and> (\<forall>p \<in> side_prices b Ask. p = fst l \<or> fst l < p)"
      using asc.best_of_represents(2) [OF srt rep, of "fst l" "snd l" ls]
        LOB_total_pos_iff [OF inv, of Ask] by auto
    then have "side_prices b Ask \<noteq> {}" "Min (side_prices b Ask) = fst l"
      by (auto intro!: Min_eqI)
    with Cons show ?thesis by (simp add: LOB_bestAsk_def)
  qed
qed

text \<open>A full-depth snapshot shows every level of the book.\<close>

lemma LOB_full_depth:
  assumes "LOB_inv b"
  shows "LOB_bidLevels b (- 1) = lb_bids b" and "LOB_askLevels b (- 1) = lb_asks b"
proof -
  have "LOB_total b sd undefined_price = 0" for sd
    using LOB_total_pos_iff [OF assms, of sd undefined_price] LOB_inv_order [OF assms]
    by (fastforce simp: side_prices_def valid_resting_def hasValidPrice_def undefined_price_def)
  then have "undefined_price \<notin> set (keys (lb_bids b))" "undefined_price \<notin> set (keys (lb_asks b))"
    using assms levels_of_sides [of "lb_bids b" "lb_asks b" "LOB_total b" undefined_price]
    by (auto simp: LOB_inv_def)
  moreover have "distinct (keys (lb_bids b))" "distinct (keys (lb_asks b))"
    using assms desc.sorted_distinct asc.sorted_distinct by (auto simp: LOB_inv_def sides_ok_def)
  ultimately show "LOB_bidLevels b (- 1) = lb_bids b" "LOB_askLevels b (- 1) = lb_asks b"
    by (simp_all only: LOB_bidLevels_def LOB_askLevels_def copy_all_levels not_False_eq_True)
qed

section \<open>Properties\<close>

text \<open>The volume that a map of resting orders puts at a price, in the specification.\<close>

definition spec_volume :: "(u64 \<rightharpoonup> RestingOrder) \<Rightarrow> Side \<Rightarrow> price \<Rightarrow> nat" where
  "spec_volume m sd p =
     (\<Sum>k | \<exists>x. m k = Some x \<and> ro_side x = sd \<and> ro_price x = p. unat (ro_size (the (m k))))"

definition spec_prices :: "(u64 \<rightharpoonup> RestingOrder) \<Rightarrow> Side \<Rightarrow> price set" where
  "spec_prices m sd = {ro_price x | k x. m k = Some x \<and> ro_side x = sd}"

lemma LOB_run_inv:
  "sum_list (map added_volume es) < two64 \<Longrightarrow> LOB_inv (foldl LOB_apply (LOB_new i) es)"
  by (rule lob.budget_run_inv [OF LOB_inv_new]) (simp add: LOB_new_def)

lemma LOB_volumeAt_spec:
  assumes "LOB_inv b" "hasValidSide sd"
  shows "unat (LOB_volumeAt b sd p) = spec_volume (map_of (lb_orders b)) sd p"
  using LOB_volumeAt_total [OF assms] assms(1)
  by (simp add: side_vol_def spec_volume_def vol_as_key_sum LOB_inv_def del: map_of_eq_Some_iff)

text \<open>
  C1: Functional correctness of the order book. After any stream of events whose added volume
  fits in 64 bits, the resting orders are those of the order-by-order specification and the
  volume reported at every price is the exact sum of the sizes resting there.
\<close>

theorem LOB_matches_order_spec:
  assumes "sum_list (map added_volume es) < two64"
  shows "map_of (lb_orders (foldl LOB_apply (LOB_new i) es)) = foldl book_spec Map.empty es \<and>
         (\<forall>sd p. hasValidSide sd \<longrightarrow>
            unat (LOB_volumeAt (foldl LOB_apply (LOB_new i) es) sd p) =
            spec_volume (foldl book_spec Map.empty es) sd p)"
proof -
  let ?b = "foldl LOB_apply (LOB_new i) es"
  have inv: "LOB_inv ?b" using assms by (rule LOB_run_inv)
  have orders: "map_of (lb_orders ?b) = foldl book_spec Map.empty es"
    by (simp add: LOB_run_orders LOB_new_def)
  moreover note LOB_volumeAt_spec [OF inv]
  ultimately show ?thesis by simp
qed

definition demo_events :: "MarketDataEvent list" where
  "demo_events =
     [event Add 1 Bid 100 5 7, event Add 2 Bid 101 3 7, event Add 3 Ask 105 4 7,
      event Modify 1 Bid 101 6 7, event Cancel 2 SideNone 0 1 7, event Add 4 Ask 104 9 7]"

lemma demo_events_budget: "sum_list (map added_volume demo_events) < two64"
  by (simp add: demo_events_def added_volume_def event_def default_event_def two64_def)

theorem LOB_matches_order_spec_witness:
  "sum_list (map added_volume demo_events) < two64 \<and>
   unat (LOB_volumeAt (foldl LOB_apply (LOB_new 7) demo_events) Bid (i64 101)) =
     spec_volume (foldl book_spec Map.empty demo_events) Bid (i64 101) \<and>
   LOB_volumeAt (foldl LOB_apply (LOB_new 7) demo_events) Bid (i64 101) = 8"
proof -
  have "LOB_volumeAt (foldl LOB_apply (LOB_new 7) demo_events) Bid (i64 101) = 8"
    by code_simp
  moreover have "hasValidSide Bid" by (simp add: hasValidSide_def)
  ultimately show ?thesis
    using demo_events_budget LOB_matches_order_spec [OF demo_events_budget, of 7] by blast
qed

text \<open>
  The top of the book. After any such stream, \<^verbatim>\<open>bestBid\<close> is the highest price of a
  resting bid of the specification and \<^verbatim>\<open>bestAsk\<close> the lowest price of a resting ask;
  they are absent exactly when that side has no resting order.
\<close>

theorem LOB_best_prices:
  assumes "sum_list (map added_volume es) < two64"
  shows "LOB_bestBid (foldl LOB_apply (LOB_new i) es) =
           (let ps = spec_prices (foldl book_spec Map.empty es) Bid
            in if ps = {} then None else Some (Max ps)) \<and>
         LOB_bestAsk (foldl LOB_apply (LOB_new i) es) =
           (let ps = spec_prices (foldl book_spec Map.empty es) Ask
            in if ps = {} then None else Some (Min ps))"
proof -
  let ?b = "foldl LOB_apply (LOB_new i) es"
  have inv: "LOB_inv ?b" using assms by (rule LOB_run_inv)
  have "map_of (lb_orders ?b) = foldl book_spec Map.empty es"
    by (simp add: LOB_run_orders LOB_new_def)
  then have "side_prices ?b sd = spec_prices (foldl book_spec Map.empty es) sd" for sd
    by (simp add: side_prices_def spec_prices_def)
  then show ?thesis
    using LOB_bestBid_extreme [OF inv] LOB_bestAsk_extreme [OF inv] by (simp add: Let_def)
qed

theorem LOB_best_prices_witness:
  "sum_list (map added_volume demo_events) < two64 \<and>
   (let ps = spec_prices (foldl book_spec Map.empty demo_events) Bid
    in (if ps = {} then None else Some (Max ps)) = Some (i64 101)) \<and>
   (let ps = spec_prices (foldl book_spec Map.empty demo_events) Ask
    in (if ps = {} then None else Some (Min ps)) = Some (i64 104))"
proof -
  have "LOB_bestBid (foldl LOB_apply (LOB_new 7) demo_events) = Some (i64 101)"
    "LOB_bestAsk (foldl LOB_apply (LOB_new 7) demo_events) = Some (i64 104)"
    by code_simp+
  then show ?thesis
    using demo_events_budget LOB_best_prices [OF demo_events_budget, of 7] by (simp add: Let_def)
qed



lemma LOB_volumeAt_orders [simp]: "LOB_volumeAt (b\<lparr>lb_orders := m\<rparr>) sd p = LOB_volumeAt b sd p"
  by (simp add: LOB_volumeAt_def)





end
