(* ===== verification/BookManager.thy ===== *)
theory BookManager
  imports LimitOrderBook
begin

text \<open>
  \<^verbatim>\<open>src/book/BookManager.{hpp,cpp}\<close> and \<^verbatim>\<open>src/book/BookSnapshot.hpp\<close>: one
  \<open>LimitOrderBook\<close> per instrument, the index from order ids to instruments, and the routing of
  events. The index is proved to be exact: it maps an order to the one instrument whose book
  holds it.
\<close>

section \<open>State\<close>

record BookManager =
  bm_books :: "(u64, LimitOrderBook) umap"
  bm_order_to_instrument :: "(u64, u64) umap"
  bm_processed_events :: u64
  bm_unresolved_events :: u64

definition BM_new :: BookManager where
  "BM_new = \<lparr>bm_books = [], bm_order_to_instrument = [], bm_processed_events = 0,
     bm_unresolved_events = 0\<rparr>"

section \<open>Operations\<close>

definition BM_resolveInstrumentId :: "BookManager \<Rightarrow> MarketDataEvent \<Rightarrow> u64" where
  "BM_resolveInstrumentId bm e =
     (if ev_instrument_id e \<noteq> 0 then ev_instrument_id e
      else if ev_order_id e = 0 then 0
      else (case map_of (bm_order_to_instrument bm) (ev_order_id e) of None \<Rightarrow> 0 | Some i \<Rightarrow> i))"

definition BM_findBook :: "BookManager \<Rightarrow> u64 \<Rightarrow> LimitOrderBook option" where
  "BM_findBook bm i = map_of (bm_books bm) i"

text \<open>\<^verbatim>\<open>try_emplace\<close>: the existing book, or a fresh one that is stored; returns the reference.\<close>

definition BM_getOrCreateBook :: "BookManager \<Rightarrow> u64 \<Rightarrow> LimitOrderBook \<times> BookManager" where
  "BM_getOrCreateBook bm i =
     (case map_of (bm_books bm) i of
        Some b \<Rightarrow> (b, bm)
      | None \<Rightarrow> (LOB_new i, bm\<lparr>bm_books := AList.update i (LOB_new i) (bm_books bm)\<rparr>))"

definition BM_eraseOrderMappingIfMatches :: "u64 \<Rightarrow> u64 \<Rightarrow> BookManager \<Rightarrow> BookManager" where
  "BM_eraseOrderMappingIfMatches oid i bm =
     (if map_of (bm_order_to_instrument bm) oid = Some i
      then bm\<lparr>bm_order_to_instrument := AList.delete oid (bm_order_to_instrument bm)\<rparr> else bm)"

definition BM_eraseOrderMappingsForInstrument :: "u64 \<Rightarrow> BookManager \<Rightarrow> BookManager" where
  "BM_eraseOrderMappingsForInstrument i bm =
     bm\<lparr>bm_order_to_instrument := filter (\<lambda>(oid, j). j \<noteq> i) (bm_order_to_instrument bm)\<rparr>"

definition BM_updateOrderMapping ::
  "MarketDataEvent \<Rightarrow> LimitOrderBook \<Rightarrow> BookManager \<Rightarrow> BookManager" where
  "BM_updateOrderMapping e book bm =
     (case ev_action e of
        Add \<Rightarrow>
          (if ev_order_id e \<noteq> 0 \<and> LOB_containsOrder book (ev_order_id e)
           then bm\<lparr>bm_order_to_instrument :=
                     AList.update (ev_order_id e) (ev_instrument_id e) (bm_order_to_instrument bm)\<rparr>
           else bm)
      | Modify \<Rightarrow>
          (if ev_order_id e \<noteq> 0 \<and> LOB_containsOrder book (ev_order_id e)
           then bm\<lparr>bm_order_to_instrument :=
                     AList.update (ev_order_id e) (ev_instrument_id e) (bm_order_to_instrument bm)\<rparr>
           else bm)
      | Cancel \<Rightarrow>
          (if ev_order_id e = 0 then bm
           else if LOB_containsOrder book (ev_order_id e)
           then bm\<lparr>bm_order_to_instrument :=
                     AList.update (ev_order_id e) (ev_instrument_id e) (bm_order_to_instrument bm)\<rparr>
           else BM_eraseOrderMappingIfMatches (ev_order_id e) (ev_instrument_id e) bm)
      | Clear \<Rightarrow> BM_eraseOrderMappingsForInstrument (ev_instrument_id e) bm
      | Trade \<Rightarrow> bm
      | Fill \<Rightarrow> bm
      | ActionNone \<Rightarrow> bm)"

definition cancel_previous :: "MarketDataEvent \<Rightarrow> u64 \<Rightarrow> MarketDataEvent" where
  "cancel_previous e previous_instrument_id =
     e\<lparr>ev_action := Cancel, ev_instrument_id := previous_instrument_id, ev_size := 0\<rparr>"

definition BM_removePreviousInstrumentMapping ::
  "MarketDataEvent \<Rightarrow> u64 \<Rightarrow> BookManager \<Rightarrow> BookManager" where
  "BM_removePreviousInstrumentMapping e target_instrument_id bm =
     (if (ev_action e \<noteq> Add \<and> ev_action e \<noteq> Modify) \<or> \<not> hasValidRestingState e then bm
      else
        case map_of (bm_order_to_instrument bm) (ev_order_id e) of
          None \<Rightarrow> bm
        | Some previous_instrument_id \<Rightarrow>
            if previous_instrument_id = target_instrument_id then bm
            else
              let bm1 =
                (case map_of (bm_books bm) previous_instrument_id of
                   None \<Rightarrow> bm
                 | Some book \<Rightarrow>
                     bm\<lparr>bm_books := AList.update previous_instrument_id
                          (LOB_apply book (cancel_previous e previous_instrument_id)) (bm_books bm)\<rparr>)
              in bm1\<lparr>bm_order_to_instrument :=
                       AList.delete (ev_order_id e) (bm_order_to_instrument bm1)\<rparr>)"

definition BM_apply :: "BookManager \<Rightarrow> MarketDataEvent \<Rightarrow> BookManager" where
  "BM_apply bm0 e =
     (let bm = bm0\<lparr>bm_processed_events := bm_processed_events bm0 + 1\<rparr>;
          instrument_id = BM_resolveInstrumentId bm e
      in if instrument_id = 0
         then bm\<lparr>bm_unresolved_events := bm_unresolved_events bm + 1\<rparr>
         else
           let routed_event = e\<lparr>ev_instrument_id := instrument_id\<rparr>;
               bm1 = BM_removePreviousInstrumentMapping routed_event instrument_id bm;
               (book, bm2) = BM_getOrCreateBook bm1 instrument_id;
               book' = LOB_apply book routed_event;
               bm3 = bm2\<lparr>bm_books := AList.update instrument_id book' (bm_books bm2)\<rparr>
           in BM_updateOrderMapping routed_event book' bm3)"

section \<open>Queries and snapshots\<close>

definition BM_instrumentCount :: "BookManager \<Rightarrow> nat" where
  "BM_instrumentCount bm = length (bm_books bm)"

definition sortedInstrumentIds :: "(u64 \<times> 'b) list \<Rightarrow> u64 list" where
  "sortedInstrumentIds books = sort (map fst books)"

definition BM_unknownModifyRecoveredAsAddCount :: "BookManager \<Rightarrow> u64" where
  "BM_unknownModifyRecoveredAsAddCount bm =
     foldl (\<lambda>total (i, book). total + lb_unknown_modify_recovered_as_add_count book) 0 (bm_books bm)"

definition BM_unknownModifySkippedCount :: "BookManager \<Rightarrow> u64" where
  "BM_unknownModifySkippedCount bm =
     foldl (\<lambda>total (i, book). total + lb_unknown_modify_skipped_count book) 0 (bm_books bm)"

definition BM_unknownCancelSkippedCount :: "BookManager \<Rightarrow> u64" where
  "BM_unknownCancelSkippedCount bm =
     foldl (\<lambda>total (i, book). total + lb_unknown_cancel_skipped_count book) 0 (bm_books bm)"

record PriceLevelSnapshot =
  pls_price :: price
  pls_size :: u64

record InstrumentBookSnapshot =
  ibs_instrument_id :: u64
  ibs_resting_orders :: nat
  ibs_best_bid :: "price option"
  ibs_best_ask :: "price option"
  ibs_bids :: "PriceLevelSnapshot list"
  ibs_asks :: "PriceLevelSnapshot list"

record BookManagerSnapshot =
  bms_event_count :: u64
  bms_timestamp :: u64
  bms_processed_events :: u64
  bms_unresolved_events :: u64
  bms_instruments :: "InstrumentBookSnapshot list"

definition makeLevelSnapshots :: "levels \<Rightarrow> PriceLevelSnapshot list" where
  "makeLevelSnapshots ls = map (\<lambda>(p, s). \<lparr>pls_price = p, pls_size = s\<rparr>) ls"

definition instrument_snapshot :: "u64 \<Rightarrow> LimitOrderBook \<Rightarrow> u64 \<Rightarrow> InstrumentBookSnapshot" where
  "instrument_snapshot i book depth =
     \<lparr>ibs_instrument_id = i, ibs_resting_orders = LOB_restingOrderCount book,
      ibs_best_bid = LOB_bestBid book, ibs_best_ask = LOB_bestAsk book,
      ibs_bids = makeLevelSnapshots (LOB_bidLevels book depth),
      ibs_asks = makeLevelSnapshots (LOB_askLevels book depth)\<rparr>"

text \<open>\<^verbatim>\<open>books.at(id)\<close> would throw for a missing id; the ids come from the map, so it never does.\<close>

definition BM_snapshot :: "BookManager \<Rightarrow> u64 \<Rightarrow> u64 \<Rightarrow> u64 \<Rightarrow> BookManagerSnapshot" where
  "BM_snapshot bm event_count timestamp depth =
     \<lparr>bms_event_count = event_count, bms_timestamp = timestamp,
      bms_processed_events = bm_processed_events bm,
      bms_unresolved_events = bm_unresolved_events bm,
      bms_instruments =
        List.map_filter (\<lambda>i. map_option (\<lambda>book. instrument_snapshot i book depth)
          (map_of (bm_books bm) i)) (sortedInstrumentIds (bm_books bm))\<rparr>"

section \<open>The books as a function of the instrument\<close>

definition BM_book :: "BookManager \<Rightarrow> u64 \<Rightarrow> LimitOrderBook" where
  "BM_book bm i = (case map_of (bm_books bm) i of None \<Rightarrow> LOB_new i | Some b \<Rightarrow> b)"

text \<open>The instrument an accepted add or modify takes its order away from, if there is one.\<close>

definition BM_moved_from :: "BookManager \<Rightarrow> MarketDataEvent \<Rightarrow> u64 option" where
  "BM_moved_from bm e =
     (if (ev_action e = Add \<or> ev_action e = Modify) \<and> hasValidRestingState e
      then (case map_of (bm_order_to_instrument bm) (ev_order_id e) of
              None \<Rightarrow> None
            | Some j \<Rightarrow> if j = ev_instrument_id e then None else Some j)
      else None)"

text \<open>
  The index invariant: every stored book is well formed and filed under its own non-zero
  instrument, and the order index names exactly the book that holds an order.
\<close>

definition BM_index_ok :: "BookManager \<Rightarrow> bool" where
  "BM_index_ok bm \<longleftrightarrow>
     distinct (keys (bm_books bm)) \<and> distinct (keys (bm_order_to_instrument bm)) \<and>
     (\<forall>i b. map_of (bm_books bm) i = Some b \<longrightarrow> i \<noteq> 0 \<and> lb_instrument_id b = i \<and> LOB_wf b) \<and>
     (\<forall>k i. map_of (bm_order_to_instrument bm) k = Some i \<longleftrightarrow>
            (\<exists>b. map_of (bm_books bm) i = Some b \<and> LOB_containsOrder b k))"

lemma BM_index_new: "BM_index_ok BM_new"
  by (simp add: BM_index_ok_def BM_new_def)

lemma LOB_contains_new [simp]: "\<not> LOB_containsOrder (LOB_new i) k"
  by (simp add: LOB_containsOrder_def LOB_new_def)

lemma BM_index_iff:
  "BM_index_ok bm \<Longrightarrow>
   map_of (bm_order_to_instrument bm) k = Some i \<longleftrightarrow> LOB_containsOrder (BM_book bm i) k"
  by (auto simp: BM_index_ok_def BM_book_def simp del: map_of_eq_Some_iff split: option.split)

lemma BM_book_wf: "BM_index_ok bm \<Longrightarrow> LOB_wf (BM_book bm i)"
  by (auto simp: BM_index_ok_def BM_book_def LOB_wf_new simp del: map_of_eq_Some_iff split: option.split)

lemma BM_book_instrument: "BM_index_ok bm \<Longrightarrow> lb_instrument_id (BM_book bm i) = i"
  by (auto simp: BM_index_ok_def BM_book_def LOB_new_def simp del: map_of_eq_Some_iff split: option.split)

lemma BM_no_order_zero: "BM_index_ok bm \<Longrightarrow> \<not> LOB_containsOrder (BM_book bm j) 0"
  using BM_book_wf [of bm j] by (simp add: LOB_wf_def LOB_containsOrder_def)

lemma BM_one_book:
  "BM_index_ok bm \<Longrightarrow> LOB_containsOrder (BM_book bm i) k \<Longrightarrow> LOB_containsOrder (BM_book bm j) k \<Longrightarrow> i = j"
  by (metis BM_index_iff option.inject)

lemma BM_exists_if_contains:
  "LOB_containsOrder (BM_book bm i) k \<Longrightarrow> map_of (bm_books bm) i = Some (BM_book bm i)"
  by (auto simp: BM_book_def simp del: map_of_eq_Some_iff split: option.splits)

text \<open>
  One resolved event, seen through the books: the target book takes the event, the book the
  order moves away from takes a full cancellation, every other book is untouched.
\<close>

abbreviation routed :: "BookManager \<Rightarrow> MarketDataEvent \<Rightarrow> MarketDataEvent" where
  "routed bm e \<equiv> e\<lparr>ev_instrument_id := BM_resolveInstrumentId bm e\<rparr>"

lemma BM_resolve_processed [simp]:
  "BM_resolveInstrumentId (bm\<lparr>bm_processed_events := n\<rparr>) e = BM_resolveInstrumentId bm e"
  by (simp add: BM_resolveInstrumentId_def)

lemma BM_updateOrderMapping_books [simp]:
  "bm_books (BM_updateOrderMapping e b bm) = bm_books bm"
  by (cases "ev_action e")
    (simp_all add: BM_updateOrderMapping_def BM_eraseOrderMappingIfMatches_def
      BM_eraseOrderMappingsForInstrument_def)

lemma BM_removePrevious_books:
  assumes "BM_index_ok bm" and "ev_instrument_id e = i"
  shows "map_of (bm_books (BM_removePreviousInstrumentMapping e i bm)) k =
     (if BM_moved_from bm e = Some k
      then Some (LOB_apply (BM_book bm k) (cancel_previous e k)) else map_of (bm_books bm) k)"
proof -
  have ex: "map_of (bm_books bm) j \<noteq> None" if "map_of (bm_order_to_instrument bm) k' = Some j" for j k'
    using assms(1) that by (auto simp: BM_index_ok_def simp del: map_of_eq_Some_iff)
  show ?thesis
    using assms(2)
    by (auto simp: BM_removePreviousInstrumentMapping_def BM_moved_from_def BM_book_def Let_def
        simp del: map_of_eq_Some_iff split: option.splits if_splits dest: ex)
qed

lemma BM_apply_books:
  assumes ok: "BM_index_ok bm" and res: "BM_resolveInstrumentId bm e \<noteq> 0"
  shows "map_of (bm_books (BM_apply bm e)) k =
     (if k = BM_resolveInstrumentId bm e then Some (LOB_apply (BM_book bm k) (routed bm e))
      else if BM_moved_from bm (routed bm e) = Some k
      then Some (LOB_apply (BM_book bm k) (cancel_previous (routed bm e) k))
      else map_of (bm_books bm) k)"
proof -
  let ?i = "BM_resolveInstrumentId bm e"
  let ?bm = "bm\<lparr>bm_processed_events := bm_processed_events bm + 1\<rparr>"
  have ok': "BM_index_ok ?bm" using ok by (simp add: BM_index_ok_def)
  have same: "BM_moved_from ?bm = BM_moved_from bm" "BM_book ?bm = BM_book bm"
    by (auto simp: BM_moved_from_def BM_book_def fun_eq_iff)
  have not_self: "BM_moved_from bm (routed bm e) \<noteq> Some ?i"
    by (auto simp: BM_moved_from_def split: option.splits)
  show ?thesis
    using res not_self BM_removePrevious_books [OF ok', of "routed bm e" ?i]
    by (auto simp: BM_apply_def BM_getOrCreateBook_def Let_def same BM_book_def [of bm ?i]
        simp del: map_of_eq_Some_iff split: option.splits)
qed

lemma BM_apply_unresolved:
  "BM_resolveInstrumentId bm e = 0 \<Longrightarrow>
   BM_apply bm e = bm\<lparr>bm_processed_events := bm_processed_events bm + 1,
     bm_unresolved_events := bm_unresolved_events bm + 1\<rparr>"
  by (simp add: BM_apply_def Let_def)

lemma BM_book_apply:
  assumes "BM_index_ok bm" and "BM_resolveInstrumentId bm e \<noteq> 0"
  shows "BM_book (BM_apply bm e) k =
     (if k = BM_resolveInstrumentId bm e then LOB_apply (BM_book bm k) (routed bm e)
      else if BM_moved_from bm (routed bm e) = Some k
      then LOB_apply (BM_book bm k) (cancel_previous (routed bm e) k)
      else BM_book bm k)"
  using BM_apply_books [OF assms, of k] by (simp add: BM_book_def [of "BM_apply bm e"] BM_book_def)

section \<open>The index stays exact\<close>

lemma BM_removePrevious_index:
  "ev_instrument_id e = i \<Longrightarrow>
   map_of (bm_order_to_instrument (BM_removePreviousInstrumentMapping e i bm)) k =
     (if k = ev_order_id e \<and> BM_moved_from bm e \<noteq> None then None
      else map_of (bm_order_to_instrument bm) k)"
  by (auto simp: BM_removePreviousInstrumentMapping_def BM_moved_from_def Let_def
      simp del: map_of_eq_Some_iff split: option.splits if_splits)

lemma BM_getOrCreate_index [simp]:
  "bm_order_to_instrument (snd (BM_getOrCreateBook bm i)) = bm_order_to_instrument bm"
  by (simp add: BM_getOrCreateBook_def split: option.split)

lemma BM_distinct_removePrevious:
  assumes "distinct (keys (bm_books bm))" "distinct (keys (bm_order_to_instrument bm))"
  shows "distinct (keys (bm_books (BM_removePreviousInstrumentMapping e i bm)))"
    and "distinct (keys (bm_order_to_instrument (BM_removePreviousInstrumentMapping e i bm)))"
  using assms
  by (auto simp: BM_removePreviousInstrumentMapping_def Let_def distinct_keys_update
      distinct_keys_delete simp del: map_of_eq_Some_iff split: option.split)

lemma BM_distinct_updateOrderMapping:
  assumes "distinct (keys (bm_order_to_instrument bm))"
  shows "distinct (keys (bm_order_to_instrument (BM_updateOrderMapping e b bm)))"
  using assms
  by (cases "ev_action e")
    (auto simp: BM_updateOrderMapping_def BM_eraseOrderMappingIfMatches_def
      BM_eraseOrderMappingsForInstrument_def distinct_keys_update distinct_keys_delete
      distinct_keys_filter)

lemma BM_updateOrderMapping_index:
  assumes "distinct (keys (bm_order_to_instrument bm))"
  shows "map_of (bm_order_to_instrument (BM_updateOrderMapping e b bm)) k =
     (if ev_action e = Clear
      then (if map_of (bm_order_to_instrument bm) k = Some (ev_instrument_id e) then None
            else map_of (bm_order_to_instrument bm) k)
      else if k = ev_order_id e \<and> k \<noteq> 0 \<and> ev_action e \<in> {Add, Modify, Cancel} \<and> LOB_containsOrder b k
      then Some (ev_instrument_id e)
      else if k = ev_order_id e \<and> k \<noteq> 0 \<and> ev_action e = Cancel \<and>
              map_of (bm_order_to_instrument bm) k = Some (ev_instrument_id e)
      then None
      else map_of (bm_order_to_instrument bm) k)"
  by (cases "ev_action e")
    (auto simp: BM_updateOrderMapping_def BM_eraseOrderMappingIfMatches_def
      BM_eraseOrderMappingsForInstrument_def map_of_filter_key [OF assms, where P = "\<lambda>_ j. j \<noteq> _"]
      simp del: map_of_eq_Some_iff split: option.split)

lemma BM_apply_index:
  assumes ok: "BM_index_ok bm" and res: "BM_resolveInstrumentId bm e \<noteq> 0"
  defines "i \<equiv> BM_resolveInstrumentId bm e"
  shows "map_of (bm_order_to_instrument (BM_apply bm e)) k =
     (if ev_action e = Clear
      then (if map_of (bm_order_to_instrument bm) k = Some i then None
            else map_of (bm_order_to_instrument bm) k)
      else if k = ev_order_id e \<and> k \<noteq> 0 \<and> ev_action e \<in> {Add, Modify, Cancel} \<and>
              LOB_containsOrder (LOB_apply (BM_book bm i) (routed bm e)) k
      then Some i
      else if k = ev_order_id e \<and> k \<noteq> 0 \<and> ev_action e = Cancel \<and>
              map_of (bm_order_to_instrument bm) k = Some i
      then None
      else map_of (bm_order_to_instrument bm) k)"
proof -
  let ?bm = "bm\<lparr>bm_processed_events := bm_processed_events bm + 1\<rparr>"
  let ?bm1 = "BM_removePreviousInstrumentMapping (routed bm e) i ?bm"
  have dist: "distinct (keys (bm_books ?bm))" "distinct (keys (bm_order_to_instrument ?bm))"
    using ok by (auto simp: BM_index_ok_def)
  have moved: "BM_moved_from ?bm = BM_moved_from bm" by (simp add: BM_moved_from_def fun_eq_iff)
  obtain book bm2 where g: "BM_getOrCreateBook ?bm1 i = (book, bm2)" by fastforce
  have idx: "bm_order_to_instrument bm2 = bm_order_to_instrument ?bm1"
    using BM_getOrCreate_index [of ?bm1 i] g by simp
  have book: "book = BM_book ?bm1 i"
    using g by (auto simp: BM_getOrCreateBook_def BM_book_def simp del: map_of_eq_Some_iff split: option.splits)
  have "BM_moved_from bm (routed bm e) \<noteq> Some i"
    by (auto simp: BM_moved_from_def i_def split: option.splits)
  then have "BM_book ?bm1 i = BM_book bm i"
    using BM_removePrevious_books [of ?bm "routed bm e" i i] ok
    by (simp add: BM_book_def moved i_def BM_index_ok_def del: map_of_eq_Some_iff)
  moreover have "BM_moved_from bm (routed bm e) \<noteq> None \<Longrightarrow>
      ev_action e \<in> {Add, Modify} \<and> hasValidRestingState (routed bm e) \<and> ev_order_id e \<noteq> 0"
    by (auto simp: BM_moved_from_def hasValidRestingState_def split: if_splits)
  moreover have "BM_apply bm e = BM_updateOrderMapping (routed bm e) (LOB_apply book (routed bm e))
      (bm2\<lparr>bm_books := AList.update i (LOB_apply book (routed bm e)) (bm_books bm2)\<rparr>)"
    using res g by (simp add: BM_apply_def Let_def i_def)
  ultimately show ?thesis
    using BM_distinct_removePrevious(2) [OF dist, of "routed bm e" i] LOB_contains_own [of "BM_book bm i" "routed bm e"]
    by (auto simp: BM_updateOrderMapping_index idx BM_removePrevious_index moved book i_def [symmetric]
        simp del: map_of_eq_Some_iff)
qed

lemma BM_distinct_apply:
  assumes "distinct (keys (bm_books bm))" "distinct (keys (bm_order_to_instrument bm))"
  shows "distinct (keys (bm_books (BM_apply bm e)))"
    and "distinct (keys (bm_order_to_instrument (BM_apply bm e)))"
  using assms
  by (auto simp: BM_apply_def Let_def BM_getOrCreateBook_def intro!: distinct_keys_update
      BM_distinct_updateOrderMapping BM_distinct_removePrevious split: option.split)

lemma BM_index_okI:
  assumes "distinct (keys (bm_books bm))" "distinct (keys (bm_order_to_instrument bm))"
    and "\<And>i b. map_of (bm_books bm) i = Some b \<Longrightarrow> i \<noteq> 0 \<and> lb_instrument_id b = i \<and> LOB_wf b"
    and "\<And>k i. map_of (bm_order_to_instrument bm) k = Some i \<longleftrightarrow> LOB_containsOrder (BM_book bm i) k"
  shows "BM_index_ok bm"
  unfolding BM_index_ok_def
proof (intro conjI allI)
  fix k i
  show "map_of (bm_order_to_instrument bm) k = Some i \<longleftrightarrow>
      (\<exists>b. map_of (bm_books bm) i = Some b \<and> LOB_containsOrder b k)"
    unfolding assms(4) using BM_exists_if_contains [of bm i k]
    by (auto simp: BM_book_def simp del: map_of_eq_Some_iff)
qed (use assms(1,2,3) in blast)+

text \<open>A full cancellation takes the order out of the book it moves away from.\<close>

lemma contains_cancel_previous:
  "LOB_containsOrder (LOB_apply b (cancel_previous e j)) k \<longleftrightarrow>
     k \<noteq> ev_order_id e \<and> LOB_containsOrder b k"
  using LOB_contains_own [of b "cancel_previous e j"] LOB_contains_other [of k "cancel_previous e j" b]
  by (auto simp: cancel_previous_def)

lemma BM_moved_from_SomeD:
  "BM_moved_from bm e = Some j \<Longrightarrow>
   (ev_action e = Add \<or> ev_action e = Modify) \<and> hasValidRestingState e \<and> j \<noteq> ev_instrument_id e \<and>
   map_of (bm_order_to_instrument bm) (ev_order_id e) = Some j"
  by (auto simp: BM_moved_from_def simp del: map_of_eq_Some_iff split: if_splits option.splits)

lemma BM_not_moved:
  "BM_moved_from bm e = None \<Longrightarrow> ev_action e = Add \<or> ev_action e = Modify \<Longrightarrow>
   hasValidRestingState e \<Longrightarrow> map_of (bm_order_to_instrument bm) (ev_order_id e) = Some j \<Longrightarrow>
   j = ev_instrument_id e"
  by (auto simp: BM_moved_from_def simp del: map_of_eq_Some_iff split: if_splits option.splits)

text \<open>The order of the event itself, after the event.\<close>

lemma BM_index_own:
  assumes ok: "BM_index_ok bm" and res: "BM_resolveInstrumentId bm e \<noteq> 0"
  shows "map_of (bm_order_to_instrument (BM_apply bm e)) (ev_order_id e) = Some j \<longleftrightarrow>
         LOB_containsOrder (BM_book (BM_apply bm e) j) (ev_order_id e)"
proof -
  let ?i = "BM_resolveInstrumentId bm e" and ?r = "routed bm e" and ?k = "ev_order_id e"
  note iff = BM_index_iff [OF ok] and zero = BM_no_order_zero [OF ok]
  note own = LOB_contains_own [of "BM_book bm ?i" ?r] and one = BM_one_book [OF ok, of ?i ?k j]
  note upd = BM_apply_index [OF ok res] BM_book_apply [OF ok res]
  consider (store) "ev_action e = Add \<or> ev_action e = Modify" "hasValidRestingState ?r"
    | (ignore) "ev_action e = Add \<or> ev_action e = Modify" "\<not> hasValidRestingState ?r"
    | (cancel) "ev_action e = Cancel" | (other) "ev_action e \<notin> {Add, Modify, Cancel}"
    by blast
  then show ?thesis
  proof cases
    case store
    then have "LOB_containsOrder (LOB_apply (BM_book bm ?i) ?r) ?k" and "?k \<noteq> 0"
      using own by (auto simp: hasValidRestingState_def)
    moreover have "LOB_containsOrder (BM_book bm j) ?k \<Longrightarrow> j \<noteq> ?i \<Longrightarrow> BM_moved_from bm ?r = Some j"
      using store by (simp add: BM_moved_from_def flip: iff)
    ultimately show ?thesis
      using store by (auto simp: upd contains_cancel_previous)
  next
    case ignore
    then have "LOB_containsOrder (LOB_apply (BM_book bm ?i) ?r) ?k = LOB_containsOrder (BM_book bm ?i) ?k"
      using own by auto
    moreover have "BM_moved_from bm ?r = None" using ignore by (simp add: BM_moved_from_def)
    ultimately show ?thesis using ignore zero one by (auto simp: upd iff)
  next
    case cancel
    then have "LOB_containsOrder (LOB_apply (BM_book bm ?i) ?r) ?k \<Longrightarrow> LOB_containsOrder (BM_book bm ?i) ?k"
      using own by (auto simp: LOB_containsOrder_def)
    moreover have "BM_moved_from bm ?r = None" using cancel by (simp add: BM_moved_from_def)
    ultimately show ?thesis using cancel zero one by (auto simp: upd iff)
  next
    case other
    then have "BM_moved_from bm ?r = None" by (simp add: BM_moved_from_def)
    with other own zero one show ?thesis by (cases "ev_action e") (auto simp: upd iff)
  qed
qed

text \<open>Every stored book is filed under its own instrument, after the event as before.\<close>

lemma BM_stored_book_apply:
  assumes ok: "BM_index_ok bm" and res: "BM_resolveInstrumentId bm e \<noteq> 0"
    and stored: "map_of (bm_books (BM_apply bm e)) j = Some b"
  shows "j \<noteq> 0 \<and> lb_instrument_id b = j \<and> LOB_wf b"
proof -
  consider "b = LOB_apply (BM_book bm j) (routed bm e)" "j = BM_resolveInstrumentId bm e"
    | "b = LOB_apply (BM_book bm j) (cancel_previous (routed bm e) j)" "BM_moved_from bm (routed bm e) = Some j"
    | "map_of (bm_books bm) j = Some b"
    using stored unfolding BM_apply_books [OF ok res] by (metis option.inject)
  then show ?thesis
  proof cases
    case 1
    with res show ?thesis
      by (simp add: LOB_wf_apply BM_book_wf [OF ok] BM_book_instrument [OF ok])
  next
    case 2
    then have "LOB_containsOrder (BM_book bm j) (ev_order_id e)"
      using BM_moved_from_SomeD [of bm "routed bm e" j] BM_index_iff [OF ok, of "ev_order_id e" j] by simp
    then have "map_of (bm_books bm) j = Some (BM_book bm j)" by (rule BM_exists_if_contains)
    with 2 ok show ?thesis
      unfolding BM_index_ok_def by (simp add: LOB_wf_apply del: map_of_eq_Some_iff)
  next
    case 3
    with ok show ?thesis unfolding BM_index_ok_def by blast
  qed
qed

lemma BM_index_apply: assumes ok: "BM_index_ok bm" shows "BM_index_ok (BM_apply bm e)"
proof (cases "BM_resolveInstrumentId bm e = 0")
  case True
  then show ?thesis using ok by (simp add: BM_apply_unresolved BM_index_ok_def)
next
  case False
  show ?thesis
  proof (rule BM_index_okI)
    show "distinct (keys (bm_books (BM_apply bm e)))"
      "distinct (keys (bm_order_to_instrument (BM_apply bm e)))"
      using ok by (auto intro!: BM_distinct_apply simp: BM_index_ok_def)
  next
    fix k j
    show "map_of (bm_order_to_instrument (BM_apply bm e)) k = Some j \<longleftrightarrow>
        LOB_containsOrder (BM_book (BM_apply bm e) j) k"
    proof (cases "k = ev_order_id e")
      case True
      then show ?thesis using BM_index_own [OF ok False, of j] by simp
    next
      case other: False
      with False show ?thesis
        using BM_one_book [OF ok, of _ k]
        by (auto simp: BM_apply_index [OF ok] BM_book_apply [OF ok] BM_index_iff [OF ok]
            contains_cancel_previous LOB_contains_simps)
    qed
  qed (use ok False in \<open>auto dest!: BM_stored_book_apply\<close>)
qed

interpretation bm: guarded_machine BM_apply "\<lambda>_ _. True" BM_index_ok
  by unfold_locales (rule BM_index_apply)

lemma guarded_run_True [simp]: "guarded_run step (\<lambda>_ _. True) s es"
  by (induction es arbitrary: s) auto

lemma BM_run_index: "BM_index_ok (foldl BM_apply BM_new es)"
  by (rule bm.run_inv [OF BM_index_new guarded_run_True])

section \<open>Refinement of the market specification\<close>

text \<open>
  The specification of the whole market: a map from order ids to the instrument an order rests
  on and its resting state. An event without an instrument goes to the instrument its order is
  known on; an event that resolves to no instrument does nothing.
\<close>

definition market_instrument :: "(u64 \<rightharpoonup> u64 \<times> RestingOrder) \<Rightarrow> MarketDataEvent \<Rightarrow> u64" where
  "market_instrument m e =
     (if ev_instrument_id e \<noteq> 0 then ev_instrument_id e
      else (case m (ev_order_id e) of None \<Rightarrow> 0 | Some (j, x) \<Rightarrow> j))"

definition market_spec ::
  "(u64 \<rightharpoonup> u64 \<times> RestingOrder) \<Rightarrow> MarketDataEvent \<Rightarrow> (u64 \<rightharpoonup> u64 \<times> RestingOrder)" where
  "market_spec m e =
     (let i = market_instrument m e in
      if i = 0 then m
      else case ev_action e of
        Add \<Rightarrow> if hasValidRestingState e then m(ev_order_id e \<mapsto> (i, resting_of e)) else m
      | Modify \<Rightarrow> if hasValidRestingState e then m(ev_order_id e \<mapsto> (i, resting_of e)) else m
      | Cancel \<Rightarrow>
          (case m (ev_order_id e) of
             None \<Rightarrow> m
           | Some (j, x) \<Rightarrow>
               if j \<noteq> i then m
               else if ev_size e = 0 \<or> ro_size x \<le> ev_size e then m(ev_order_id e := None)
               else m(ev_order_id e \<mapsto> (i, x\<lparr>ro_size := ro_size x - ev_size e\<rparr>)))
      | Clear \<Rightarrow> (\<lambda>k. case m k of None \<Rightarrow> None | Some (j, x) \<Rightarrow> if j = i then None else m k)
      | _ \<Rightarrow> m)"

definition market_orders :: "(u64 \<rightharpoonup> u64 \<times> RestingOrder) \<Rightarrow> u64 \<Rightarrow> (u64 \<rightharpoonup> RestingOrder)" where
  "market_orders m i k = (case m k of None \<Rightarrow> None | Some (j, x) \<Rightarrow> if j = i then Some x else None)"

definition BM_abs :: "BookManager \<Rightarrow> (u64 \<rightharpoonup> u64 \<times> RestingOrder)" where
  "BM_abs bm k =
     (case map_of (bm_order_to_instrument bm) k of
        None \<Rightarrow> None
      | Some i \<Rightarrow> map_option (Pair i) (map_of (lb_orders (BM_book bm i)) k))"

lemma BM_abs_None: "BM_index_ok bm \<Longrightarrow> BM_abs bm k = None \<longleftrightarrow> map_of (bm_order_to_instrument bm) k = None"
  using BM_index_iff [of bm k]
  by (auto simp: BM_abs_def LOB_containsOrder_def simp del: map_of_eq_Some_iff map_of_eq_None_iff split: option.split)

lemma BM_abs_Some:
  assumes "BM_index_ok bm"
  shows "BM_abs bm k = Some (i, x) \<longleftrightarrow> map_of (lb_orders (BM_book bm i)) k = Some x"
proof (cases "map_of (bm_order_to_instrument bm) k = Some i")
  case True
  then show ?thesis by (simp add: BM_abs_def map_option_case split: option.split)
next
  case False
  then have "map_of (lb_orders (BM_book bm i)) k = None"
    unfolding BM_index_iff [OF assms] by (simp add: LOB_containsOrder_def)
  with False show ?thesis
    by (auto simp: BM_abs_def simp del: map_of_eq_Some_iff map_of_eq_None_iff split: option.splits)
qed

lemma market_orders_Some: "market_orders m i k = Some x \<longleftrightarrow> m k = Some (i, x)"
  by (auto simp: market_orders_def split: option.splits if_splits)

lemma BM_orders_abs:
  assumes "BM_index_ok bm"
  shows "map_of (lb_orders (BM_book bm i)) = market_orders (BM_abs bm) i"
  by (intro ext option_eqI) (simp only: market_orders_Some BM_abs_Some [OF assms])

lemma BM_index_abs:
  assumes "BM_index_ok bm"
  shows "map_of (bm_order_to_instrument bm) k = map_option fst (BM_abs bm k)"
proof (cases "BM_abs bm k")
  case None
  with BM_abs_None [OF assms] show ?thesis by simp
next
  case (Some p)
  then show ?thesis
    by (auto simp: BM_abs_def simp del: map_of_eq_Some_iff map_of_eq_None_iff split: option.splits)
qed

lemma market_orders_inject: "market_orders m = market_orders m' \<Longrightarrow> m = m'"
  by (intro ext option_eqI) (metis market_orders_Some surj_pair)

lemma BM_resolve_abs:
  "BM_index_ok bm \<Longrightarrow> BM_resolveInstrumentId bm e = market_instrument (BM_abs bm) e"
  using BM_abs_None [of bm 0] BM_no_order_zero [of bm] BM_index_iff [of bm 0]
  by (auto simp: BM_resolveInstrumentId_def market_instrument_def BM_index_abs
      simp del: map_of_eq_Some_iff map_of_eq_None_iff split: option.split)

lemma BM_refines_market:
  assumes ok: "BM_index_ok bm"
  shows "BM_abs (BM_apply bm e) = market_spec (BM_abs bm) e"
proof (cases "BM_resolveInstrumentId bm e = 0")
  case True
  moreover have "BM_abs (BM_apply bm e) = BM_abs bm"
    using True by (auto simp: BM_apply_unresolved BM_abs_def BM_book_def fun_eq_iff split: option.split)
  ultimately show ?thesis using BM_resolve_abs [OF ok, of e] by (simp add: market_spec_def)
next
  case False
  show ?thesis
  proof (rule market_orders_inject, intro ext)
    fix j k
    show "market_orders (BM_abs (BM_apply bm e)) j k = market_orders (market_spec (BM_abs bm) e) j k"
      unfolding BM_orders_abs [OF BM_index_apply [OF ok], symmetric] BM_book_apply [OF ok False]
      using False unfolding BM_resolve_abs [OF ok]
      by (cases "ev_action e") (auto simp: LOB_apply_orders BM_orders_abs [OF ok] market_spec_def Let_def book_spec_def
          cancel_previous_def BM_moved_from_def BM_index_abs [OF ok] market_orders_def resting_of_def
          hasValidRestingState_def split: option.split)
  qed
qed

lemma BM_run_refines: "BM_abs (foldl BM_apply BM_new es) = foldl market_spec Map.empty es"
proof (induction es rule: rev_induct)
  case Nil
  show ?case by (simp add: BM_abs_def BM_new_def fun_eq_iff)
next
  case (snoc e es)
  then show ?case by (simp add: BM_refines_market [OF BM_run_index])
qed

subsection \<open>Volumes of all books\<close>

lemma added_volume_routed [simp]:
  "added_volume (e\<lparr>ev_instrument_id := i\<rparr>) = added_volume e"
  "added_volume (cancel_previous e j) = 0"
  by (simp_all add: added_volume_def cancel_previous_def)

abbreviation book_used :: "LimitOrderBook \<Rightarrow> nat" where
  "book_used b \<equiv> vol (\<lambda>_. True) ro_size (lb_orders b)"

text \<open>Every book is within its invariant and within what the events so far have added.\<close>

definition BM_volumes_ok :: "BookManager \<Rightarrow> nat \<Rightarrow> bool" where
  "BM_volumes_ok bm n \<longleftrightarrow> (\<forall>i. LOB_inv (BM_book bm i) \<and> book_used (BM_book bm i) \<le> n)"

lemma LOB_step_within:
  assumes "LOB_inv b" "book_used b \<le> n" "n + added_volume e < two64"
  shows "LOB_inv (LOB_apply b e)" "book_used (LOB_apply b e) \<le> n + added_volume e"
proof -
  have "LOB_room b e" using assms by (intro lob.within_budget) auto
  with assms show "LOB_inv (LOB_apply b e)" "book_used (LOB_apply b e) \<le> n + added_volume e"
    using lob.step_inv lob.used_step [of b e] by (auto intro: order_trans)
qed

lemma BM_volumes_apply:
  assumes ok: "BM_index_ok bm" and vols: "BM_volumes_ok bm n" and fits: "n + added_volume e < two64"
  shows "BM_volumes_ok (BM_apply bm e) (n + added_volume e)"
proof (cases "BM_resolveInstrumentId bm e = 0")
  case True
  then show ?thesis using vols by (auto simp: BM_apply_unresolved BM_volumes_ok_def BM_book_def trans_le_add1)
next
  case False
  have b: "LOB_inv (BM_book bm i)" "book_used (BM_book bm i) \<le> n" for i
    using vols by (auto simp: BM_volumes_ok_def)
  show ?thesis
    using LOB_step_within [OF b, of "routed bm e"] LOB_step_within [OF b, of "cancel_previous (routed bm e) _"] b fits
    by (auto simp: BM_volumes_ok_def BM_book_apply [OF ok False] trans_le_add1)
qed

lemma BM_run_volumes:
  "sum_list (map added_volume es) < two64 \<Longrightarrow>
   BM_volumes_ok (foldl BM_apply BM_new es) (sum_list (map added_volume es))"
proof (induction es rule: rev_induct)
  case Nil
  show ?case using LOB_inv_new by (auto simp: BM_volumes_ok_def BM_book_def BM_new_def LOB_new_def)
next
  case (snoc e es)
  then show ?case using BM_volumes_apply [OF BM_run_index, of es "sum_list (map added_volume es)" e] by simp
qed

section \<open>Properties\<close>

text \<open>
  C3: The order index is exact. After any stream of events, an order id is filed under an
  instrument if and only if the book of that instrument exists and holds the order, and no
  order rests in two books.
\<close>

theorem BM_order_index_exact:
  "(map_of (bm_order_to_instrument (foldl BM_apply BM_new es)) k = Some i \<longleftrightarrow>
     (\<exists>b. BM_findBook (foldl BM_apply BM_new es) i = Some b \<and> LOB_containsOrder b k)) \<and>
   card {j. \<exists>b. BM_findBook (foldl BM_apply BM_new es) j = Some b \<and> LOB_containsOrder b k} \<le> 1"
proof -
  let ?bm = "foldl BM_apply BM_new es"
  have iff: "map_of (bm_order_to_instrument ?bm) k = Some j \<longleftrightarrow>
      (\<exists>b. BM_findBook ?bm j = Some b \<and> LOB_containsOrder b k)" for j
    using BM_run_index [of es] unfolding BM_index_ok_def BM_findBook_def by blast
  then have "{j. \<exists>b. BM_findBook ?bm j = Some b \<and> LOB_containsOrder b k} \<subseteq>
      set_option (map_of (bm_order_to_instrument ?bm) k)" by auto
  then have "card {j. \<exists>b. BM_findBook ?bm j = Some b \<and> LOB_containsOrder b k} \<le> 1"
    by (rule card_mono [THEN order_trans, rotated]) (cases "map_of (bm_order_to_instrument ?bm) k", auto)
  with iff show ?thesis by blast
qed

text \<open>
  C4: The book manager implements the market specification. After any stream of events whose
  added volume fits in 64 bits, every book holds exactly the orders the specification places
  on its instrument, the index names their instruments, and every level volume is the exact
  sum over those orders.
\<close>

theorem BM_matches_market_spec:
  assumes "sum_list (map added_volume es) < two64"
  shows "map_of (lb_orders (BM_book (foldl BM_apply BM_new es) i)) =
           market_orders (foldl market_spec Map.empty es) i \<and>
         map_of (bm_order_to_instrument (foldl BM_apply BM_new es)) =
           map_option fst \<circ> foldl market_spec Map.empty es \<and>
         (\<forall>sd p. hasValidSide sd \<longrightarrow>
            unat (LOB_volumeAt (BM_book (foldl BM_apply BM_new es) i) sd p) =
            spec_volume (market_orders (foldl market_spec Map.empty es) i) sd p)"
proof -
  let ?bm = "foldl BM_apply BM_new es"
  have inv: "LOB_inv (BM_book ?bm i)"
    using BM_run_volumes [OF assms] by (simp add: BM_volumes_ok_def)
  have orders: "map_of (lb_orders (BM_book ?bm i)) = market_orders (foldl market_spec Map.empty es) i"
    by (simp add: BM_orders_abs [OF BM_run_index] BM_run_refines)
  moreover have "unat (LOB_volumeAt (BM_book ?bm i) sd p) = spec_volume (map_of (lb_orders (BM_book ?bm i))) sd p"
    if "hasValidSide sd" for sd p
    using inv that by (rule LOB_volumeAt_spec)
  moreover have "map_of (bm_order_to_instrument ?bm) = map_option fst \<circ> foldl market_spec Map.empty es"
    by (rule ext) (simp add: BM_index_abs [OF BM_run_index] BM_run_refines)
  ultimately show ?thesis by simp
qed

definition two_instruments :: "MarketDataEvent list" where
  "two_instruments =
     [event Add 1 Bid 100 5 7, event Add 2 Ask 105 3 8, event Modify 1 Bid 99 6 8,
      event Cancel 2 SideNone 0 1 0]"

theorem BM_matches_market_spec_witness:
  "sum_list (map added_volume two_instruments) < two64 \<and>
   map_of (lb_orders (BM_book (foldl BM_apply BM_new two_instruments) 7)) =
     market_orders (foldl market_spec Map.empty two_instruments) 7 \<and>
   LOB_bestBid (BM_book (foldl BM_apply BM_new two_instruments) 7) = None \<and>
   LOB_bestBid (BM_book (foldl BM_apply BM_new two_instruments) 8) = Some (i64 99)"
proof -
  have fits: "sum_list (map added_volume two_instruments) < two64"
    by (simp add: two_instruments_def added_volume_def event_def default_event_def two64_def)
  moreover have "LOB_bestBid (BM_book (foldl BM_apply BM_new two_instruments) 7) = None"
    "LOB_bestBid (BM_book (foldl BM_apply BM_new two_instruments) 8) = Some (i64 99)"
    by code_simp+
  ultimately show ?thesis using BM_matches_market_spec [OF fits, of 7] by blast
qed

end
