(* ===== verification/HistoricalLOB.thy ===== *)
theory HistoricalLOB
  imports BookManager
begin

text \<open>
  \<^verbatim>\<open>src/lob/HistoricalLOB.{hpp,cpp}\<close>, \<^verbatim>\<open>HistoricalLobStore.{hpp,cpp}\<close> and
  \<^verbatim>\<open>HistoricalLobProcessor.{hpp,cpp}\<close>: the reconstruction of the historical market that the
  fill simulation trades against. The book is related to the \<open>LimitOrderBook\<close> of the replay
  engine by a projection: every operation is one of that class with the diagnostics left out,
  so its invariant and its volumes come from there. The \<^verbatim>\<open>shared_mutex\<close> of the store makes its
  operations atomic; the model has one function per operation.
\<close>

section \<open>State\<close>

record BookLevel =
  bl_price :: price
  bl_size :: quantity

record LobSnapshot =
  ls_instrument_id :: instrument_id
  ls_bids :: "BookLevel list"
  ls_asks :: "BookLevel list"

record HistoricalOrder =
  ho_instrument_id :: instrument_id
  ho_side :: Side
  ho_price :: price
  ho_quantity :: quantity

record HistoricalLOB =
  hl_instrument_id :: instrument_id
  hl_bids :: levels
  hl_asks :: levels
  hl_orders :: "(order_id, HistoricalOrder) umap"

definition HLOB_new :: HistoricalLOB where
  "HLOB_new = \<lparr>hl_instrument_id = 0, hl_bids = [], hl_asks = [], hl_orders = []\<rparr>"

definition toBookLevel :: "price \<times> quantity \<Rightarrow> BookLevel" where
  "toBookLevel level = \<lparr>bl_price = fst level, bl_size = snd level\<rparr>"

section \<open>Operations\<close>

definition HLOB_addLevelVolume :: "Side \<Rightarrow> price \<Rightarrow> quantity \<Rightarrow> HistoricalLOB \<Rightarrow> HistoricalLOB" where
  "HLOB_addLevelVolume side price sz b =
     (if side = Bid then b\<lparr>hl_bids := om_add (>) price sz (hl_bids b)\<rparr>
      else if side = Ask then b\<lparr>hl_asks := om_add (<) price sz (hl_asks b)\<rparr>
      else b)"

definition HLOB_removeLevelVolume :: "Side \<Rightarrow> price \<Rightarrow> quantity \<Rightarrow> HistoricalLOB \<Rightarrow> HistoricalLOB" where
  "HLOB_removeLevelVolume side price sz b =
     (if side = Bid then b\<lparr>hl_bids := om_sub (>) price sz (hl_bids b)\<rparr>
      else if side = Ask then b\<lparr>hl_asks := om_sub (<) price sz (hl_asks b)\<rparr>
      else b)"

definition HLOB_removeOrder :: "order_id \<Rightarrow> HistoricalLOB \<Rightarrow> HistoricalLOB" where
  "HLOB_removeOrder oid b =
     (case map_of (hl_orders b) oid of
        None \<Rightarrow> b
      | Some ord \<Rightarrow>
          (let b' = HLOB_removeLevelVolume (ho_side ord) (ho_price ord) (ho_quantity ord) b
           in b'\<lparr>hl_orders := AList.delete oid (hl_orders b')\<rparr>))"

definition historical_order :: "MarketDataEvent \<Rightarrow> HistoricalOrder" where
  "historical_order e =
     \<lparr>ho_instrument_id = ev_instrument_id e, ho_side = ev_side e, ho_price = ev_price e,
      ho_quantity = ev_size e\<rparr>"

definition HLOB_applyAdd :: "HistoricalLOB \<Rightarrow> MarketDataEvent \<Rightarrow> HistoricalLOB" where
  "HLOB_applyAdd b e =
     (if \<not> hasValidRestingState e then b
      else
        let b1 = HLOB_removeOrder (ev_order_id e) b;
            b2 = b1\<lparr>hl_orders := AList.update (ev_order_id e) (historical_order e) (hl_orders b1)\<rparr>
        in HLOB_addLevelVolume (ev_side e) (ev_price e) (ev_size e) b2)"

definition HLOB_applyModify :: "HistoricalLOB \<Rightarrow> MarketDataEvent \<Rightarrow> HistoricalLOB" where
  "HLOB_applyModify b e =
     (case map_of (hl_orders b) (ev_order_id e) of
        None \<Rightarrow> b
      | Some ord \<Rightarrow>
          if \<not> hasValidRestingState e then b
          else
            let b1 = HLOB_removeLevelVolume (ho_side ord) (ho_price ord) (ho_quantity ord) b;
                b2 = b1\<lparr>hl_orders := AList.update (ev_order_id e) (historical_order e) (hl_orders b1)\<rparr>
            in HLOB_addLevelVolume (ev_side e) (ev_price e) (ev_size e) b2)"

definition HLOB_applyCancel :: "HistoricalLOB \<Rightarrow> MarketDataEvent \<Rightarrow> HistoricalLOB" where
  "HLOB_applyCancel b e =
     (case map_of (hl_orders b) (ev_order_id e) of
        None \<Rightarrow> b
      | Some ord \<Rightarrow>
          let cancel_quantity = (if ev_size e = 0 then ho_quantity ord else min (ev_size e) (ho_quantity ord));
              b1 = HLOB_removeLevelVolume (ho_side ord) (ho_price ord) cancel_quantity b;
              ord' = ord\<lparr>ho_quantity := ho_quantity ord - cancel_quantity\<rparr>
          in if ho_quantity ord' = 0
             then b1\<lparr>hl_orders := AList.delete (ev_order_id e) (hl_orders b1)\<rparr>
             else b1\<lparr>hl_orders := AList.update (ev_order_id e) ord' (hl_orders b1)\<rparr>)"

text \<open>The iterator loop of \<^verbatim>\<open>applyClear\<close>, over the orders it visits.\<close>

fun HLOB_clearOrders ::
  "instrument_id \<Rightarrow> (order_id \<times> HistoricalOrder) list \<Rightarrow> HistoricalLOB \<Rightarrow> HistoricalLOB" where
  "HLOB_clearOrders i [] b = b"
| "HLOB_clearOrders i ((k, ord) # it) b =
     (if ho_instrument_id ord \<noteq> i then HLOB_clearOrders i it b
      else
        let b1 = HLOB_removeLevelVolume (ho_side ord) (ho_price ord) (ho_quantity ord) b
        in HLOB_clearOrders i it (b1\<lparr>hl_orders := AList.delete k (hl_orders b1)\<rparr>))"

definition HLOB_applyClear :: "HistoricalLOB \<Rightarrow> MarketDataEvent \<Rightarrow> HistoricalLOB" where
  "HLOB_applyClear b e =
     (if ev_instrument_id e = 0 then b\<lparr>hl_bids := [], hl_asks := [], hl_orders := []\<rparr>
      else HLOB_clearOrders (ev_instrument_id e) (hl_orders b) b)"

definition HLOB_apply :: "HistoricalLOB \<Rightarrow> MarketDataEvent \<Rightarrow> HistoricalLOB" where
  "HLOB_apply b0 e =
     (let b = (if ev_instrument_id e \<noteq> 0 then b0\<lparr>hl_instrument_id := ev_instrument_id e\<rparr> else b0)
      in case ev_action e of
           Add \<Rightarrow> HLOB_applyAdd b e
         | Modify \<Rightarrow> HLOB_applyModify b e
         | Cancel \<Rightarrow> HLOB_applyCancel b e
         | Clear \<Rightarrow> HLOB_applyClear b e
         | Trade \<Rightarrow> b
         | Fill \<Rightarrow> b
         | ActionNone \<Rightarrow> b)"

section \<open>Queries\<close>

definition HLOB_bestBid :: "HistoricalLOB \<Rightarrow> BookLevel option" where
  "HLOB_bestBid b = (case hl_bids b of [] \<Rightarrow> None | l # _ \<Rightarrow> Some (toBookLevel l))"

definition HLOB_bestAsk :: "HistoricalLOB \<Rightarrow> BookLevel option" where
  "HLOB_bestAsk b = (case hl_asks b of [] \<Rightarrow> None | l # _ \<Rightarrow> Some (toBookLevel l))"

definition HLOB_bids :: "HistoricalLOB \<Rightarrow> u64 \<Rightarrow> BookLevel list" where
  "HLOB_bids b depth = map toBookLevel (copyLevels 0 depth (hl_bids b))"

definition HLOB_asks :: "HistoricalLOB \<Rightarrow> u64 \<Rightarrow> BookLevel list" where
  "HLOB_asks b depth = map toBookLevel (copyLevels 0 depth (hl_asks b))"

definition HLOB_snapshot :: "HistoricalLOB \<Rightarrow> u64 \<Rightarrow> LobSnapshot" where
  "HLOB_snapshot b depth =
     \<lparr>ls_instrument_id = hl_instrument_id b, ls_bids = HLOB_bids b depth, ls_asks = HLOB_asks b depth\<rparr>"

definition HLOB_restingOrderCount :: "HistoricalLOB \<Rightarrow> nat" where
  "HLOB_restingOrderCount b = length (hl_orders b)"

definition HLOB_bidLevelCount :: "HistoricalLOB \<Rightarrow> nat" where
  "HLOB_bidLevelCount b = length (hl_bids b)"

definition HLOB_askLevelCount :: "HistoricalLOB \<Rightarrow> nat" where
  "HLOB_askLevelCount b = length (hl_asks b)"

section \<open>The store and the processor\<close>

type_synonym HistoricalLobStore = "(instrument_id, HistoricalLOB) umap"

text \<open>\<^verbatim>\<open>books_[id]\<close> default-constructs a missing book.\<close>

definition HLS_at :: "HistoricalLobStore \<Rightarrow> instrument_id \<Rightarrow> HistoricalLOB" where
  "HLS_at books i = (case map_of books i of None \<Rightarrow> HLOB_new | Some b \<Rightarrow> b)"

definition HLS_apply :: "HistoricalLobStore \<Rightarrow> MarketDataEvent \<Rightarrow> HistoricalLobStore" where
  "HLS_apply books e =
     (if ev_action e = Clear \<and> ev_instrument_id e = 0 then []
      else if ev_instrument_id e = 0 then books
      else AList.update (ev_instrument_id e) (HLOB_apply (HLS_at books (ev_instrument_id e)) e) books)"

definition HLS_bestBid :: "HistoricalLobStore \<Rightarrow> instrument_id \<Rightarrow> BookLevel option" where
  "HLS_bestBid books i = (case map_of books i of None \<Rightarrow> None | Some b \<Rightarrow> HLOB_bestBid b)"

definition HLS_bestAsk :: "HistoricalLobStore \<Rightarrow> instrument_id \<Rightarrow> BookLevel option" where
  "HLS_bestAsk books i = (case map_of books i of None \<Rightarrow> None | Some b \<Rightarrow> HLOB_bestAsk b)"

definition HLS_snapshot :: "HistoricalLobStore \<Rightarrow> instrument_id \<Rightarrow> u64 \<Rightarrow> LobSnapshot" where
  "HLS_snapshot books i depth =
     (case map_of books i of
        None \<Rightarrow> \<lparr>ls_instrument_id = i, ls_bids = [], ls_asks = []\<rparr>
      | Some b \<Rightarrow> HLOB_snapshot b depth)"

definition HLS_bookSnapshot :: "HistoricalLobStore \<Rightarrow> instrument_id \<Rightarrow> HistoricalLOB" where
  "HLS_bookSnapshot books i = (case map_of books i of None \<Rightarrow> HLOB_new | Some b \<Rightarrow> b)"

definition HLS_instrumentIds :: "HistoricalLobStore \<Rightarrow> instrument_id list" where
  "HLS_instrumentIds books = sortedInstrumentIds books"

definition HLS_totalRestingOrderCount :: "HistoricalLobStore \<Rightarrow> nat" where
  "HLS_totalRestingOrderCount books = foldl (\<lambda>total (i, b). total + HLOB_restingOrderCount b) 0 books"

definition HLS_instrumentCount :: "HistoricalLobStore \<Rightarrow> nat" where
  "HLS_instrumentCount books = length books"

definition HLP_processMarketDataEvent :: "HistoricalLobStore \<Rightarrow> MarketDataEvent \<Rightarrow> HistoricalLobStore" where
  "HLP_processMarketDataEvent books e = HLS_apply books e"

definition HLP_book :: "HistoricalLobStore \<Rightarrow> instrument_id \<Rightarrow> HistoricalLOB" where
  "HLP_book books i = HLS_bookSnapshot books i"

definition HLP_instrumentCount :: "HistoricalLobStore \<Rightarrow> nat" where
  "HLP_instrumentCount books = HLS_instrumentCount books"

section \<open>Projection to the replay book\<close>

text \<open>
  \<open>HLOB_book b\<close> is the \<open>LimitOrderBook\<close> with the same levels and orders and empty diagnostics;
  \<open>HLOB_levels_eq\<close> relates two books that differ only in identity, counters and diagnostics.
\<close>

definition as_resting :: "HistoricalOrder \<Rightarrow> RestingOrder" where
  "as_resting x = \<lparr>ro_side = ho_side x, ro_price = ho_price x, ro_size = ho_quantity x\<rparr>"

definition HLOB_book :: "HistoricalLOB \<Rightarrow> LimitOrderBook" where
  "HLOB_book b = (LOB_new 0)\<lparr>lb_bids := hl_bids b, lb_asks := hl_asks b,
     lb_orders := map (\<lambda>(k, x). (k, as_resting x)) (hl_orders b)\<rparr>"

lemma as_resting_sel [simp]:
  "ro_side (as_resting x) = ho_side x" "ro_price (as_resting x) = ho_price x"
  "ro_size (as_resting x) = ho_quantity x"
  "as_resting (historical_order e) = resting_of e"
  "as_resting (x\<lparr>ho_quantity := n\<rparr>) = (as_resting x)\<lparr>ro_size := n\<rparr>"
  by (simp_all add: as_resting_def historical_order_def resting_of_def)

lemma HLOB_book_sel [simp]:
  "lb_bids (HLOB_book b) = hl_bids b" "lb_asks (HLOB_book b) = hl_asks b"
  "map_of (lb_orders (HLOB_book b)) k = map_option as_resting (map_of (hl_orders b) k)"
  "HLOB_book (b\<lparr>hl_instrument_id := i\<rparr>) = HLOB_book b"
  by (simp_all add: HLOB_book_def map_of_map)

lemma HLOB_book_levels:
  "HLOB_book (HLOB_addLevelVolume sd p s b) = LOB_addLevelVolume sd p s (HLOB_book b)"
  "HLOB_book (HLOB_removeLevelVolume sd p s b) = LOB_removeLevelVolume sd p s (HLOB_book b)"
  by (simp_all add: HLOB_addLevelVolume_def HLOB_removeLevelVolume_def LOB_addLevelVolume_def
      LOB_removeLevelVolume_def HLOB_book_def)

lemma map_snd_update:
  "map (\<lambda>(k, x). (k, f x)) (AList.update k v m) = AList.update k (f v) (map (\<lambda>(k, x). (k, f x)) m)"
  by (induction m) auto

lemma map_snd_delete:
  "map (\<lambda>(k, x). (k, f x)) (AList.delete k m) = AList.delete k (map (\<lambda>(k, x). (k, f x)) m)"
  by (induction m) auto

lemma HLOB_book_orders:
  "HLOB_book (b\<lparr>hl_orders := m\<rparr>) = (HLOB_book b)\<lparr>lb_orders := map (\<lambda>(k, x). (k, as_resting x)) m\<rparr>"
  "lb_orders (HLOB_book b) = map (\<lambda>(k, x). (k, as_resting x)) (hl_orders b)"
  by (simp_all add: HLOB_book_def)

lemma HLOB_orders_levels [simp]:
  "hl_orders (HLOB_addLevelVolume sd p s b) = hl_orders b"
  "hl_orders (HLOB_removeLevelVolume sd p s b) = hl_orders b"
  by (simp_all add: HLOB_addLevelVolume_def HLOB_removeLevelVolume_def)

lemmas HLOB_book_simps = HLOB_book_levels HLOB_book_orders map_snd_update map_snd_delete map_of_map

lemma HLOB_book_lookup:
  "map_of (lb_orders (HLOB_book b)) k = map_option as_resting (map_of (hl_orders b) k)"
  by (simp add: HLOB_book_def map_of_map)

lemma HLOB_book_removeOrder: "HLOB_book (HLOB_removeOrder k b) = LOB_removeOrder k (HLOB_book b)"
  by (cases "map_of (hl_orders b) k")
    (simp_all add: HLOB_removeOrder_def LOB_removeOrder_def Let_def HLOB_book_simps
      del: map_of_eq_Some_iff map_of_eq_None_iff)

lemma HLOB_book_applyAdd: "HLOB_book (HLOB_applyAdd b e) = LOB_applyAdd (HLOB_book b) e"
  by (simp add: HLOB_applyAdd_def LOB_applyAdd_def Let_def HLOB_book_removeOrder [symmetric]
      HLOB_book_simps resting_of_def)

lemma HLOB_book_applyModify:
  "HLOB_book (HLOB_applyModify b e) =
     (if map_of (hl_orders b) (ev_order_id e) = None then HLOB_book b
      else LOB_applyModify (HLOB_book b) e)"
  by (cases "map_of (hl_orders b) (ev_order_id e)")
    (simp_all add: HLOB_applyModify_def LOB_applyModify_def Let_def HLOB_book_simps
      resting_of_def del: map_of_eq_Some_iff map_of_eq_None_iff)

lemma HLOB_book_applyCancel:
  "HLOB_book (HLOB_applyCancel b e) =
     (if map_of (hl_orders b) (ev_order_id e) = None then HLOB_book b
      else LOB_applyCancel (HLOB_book b) e)"
proof (cases "map_of (hl_orders b) (ev_order_id e)")
  case (Some x)
  define c where "c = (if ev_size e = 0 then ho_quantity x else min (ev_size e) (ho_quantity x))"
  show ?thesis
    unfolding HLOB_applyCancel_def LOB_applyCancel_def HLOB_book_lookup Some option.case option.map Let_def
      as_resting_sel c_def [symmetric]
    by (simp add: HLOB_book_simps del: right_minus_eq)
qed (simp add: HLOB_applyCancel_def del: map_of_eq_None_iff)

text \<open>The clear loop removes the visited orders of the instrument one by one.\<close>

lemma HLOB_clear_step:
  assumes "map_of (hl_orders b) k = Some ord"
  shows "(HLOB_removeLevelVolume (ho_side ord) (ho_price ord) (ho_quantity ord) b)
           \<lparr>hl_orders := AList.delete k (hl_orders b)\<rparr> = HLOB_removeOrder k b"
  using assms by (simp add: HLOB_removeOrder_def Let_def)

lemma HLOB_orders_removeOrder: "hl_orders (HLOB_removeOrder k b) = AList.delete k (hl_orders b)"
  by (simp add: HLOB_removeOrder_def delete_notin Let_def split: option.split)

lemma HLOB_clearOrders_removes:
  assumes "distinct (keys it)" "\<And>k x. (k, x) \<in> set it \<Longrightarrow> map_of (hl_orders b) k = Some x"
  shows "HLOB_clearOrders i it b =
     foldl (\<lambda>b k. HLOB_removeOrder k b) b (map fst (filter (\<lambda>(k, x). ho_instrument_id x = i) it))"
  using assms
proof (induction i it b rule: HLOB_clearOrders.induct)
  case (2 i k ord it b)
  have k: "map_of (hl_orders b) k = Some ord" using 2(4) [of k ord] by simp
  have rest: "map_of (hl_orders (HLOB_removeOrder k b)) j = Some x" if "(j, x) \<in> set it" for j x
    using 2(3) 2(4) [of j x] that by (force simp: HLOB_orders_removeOrder simp del: map_of_eq_Some_iff)
  show ?case
    using 2(1) 2(2) [of _, OF _ refl] 2(3) 2(4) rest by (auto simp: HLOB_clear_step [OF k] Let_def simp del: map_of_eq_Some_iff)
qed simp

section \<open>Invariant\<close>

abbreviation HLOB_inv :: "HistoricalLOB \<Rightarrow> bool" where
  "HLOB_inv b \<equiv> LOB_inv (HLOB_book b)"

lemma HLOB_inv_new: "HLOB_inv HLOB_new"
  by (simp add: HLOB_book_def HLOB_new_def LOB_inv_def LOB_new_def sides_ok_empty)

lemma HLOB_keys: "keys (lb_orders (HLOB_book b)) = keys (hl_orders b)"
  by (simp add: HLOB_book_orders comp_def case_prod_beta)

lemma HLOB_distinct: "HLOB_inv b \<Longrightarrow> distinct (keys (hl_orders b))"
  using HLOB_keys [of b] by (simp add: LOB_inv_def)

lemma LOB_removes_inv:
  "LOB_inv b \<Longrightarrow> LOB_inv (foldl (\<lambda>b k. LOB_removeOrder k b) b ks)"
  by (induction ks arbitrary: b) (auto intro: LOB_inv_removeOrder)

lemma HLOB_book_removes:
  "HLOB_book (foldl (\<lambda>b k. HLOB_removeOrder k b) b ks) = foldl (\<lambda>b k. LOB_removeOrder k b) (HLOB_book b) ks"
  by (induction ks arbitrary: b) (auto simp: HLOB_book_removeOrder)

lemma HLOB_clear_removes:
  assumes "distinct (keys (hl_orders b))"
  shows "HLOB_clearOrders i (hl_orders b) b =
     foldl (\<lambda>b k. HLOB_removeOrder k b) b (map fst (filter (\<lambda>(k, x). ho_instrument_id x = i) (hl_orders b)))"
  by (rule HLOB_clearOrders_removes) (use assms in auto)

text \<open>
  The only differences to the replay book: a modify or cancel of an unknown order is ignored
  without a diagnostic, and a clear with an instrument removes the orders of that instrument.
\<close>

lemma HLOB_book_apply:
  "ev_action e \<noteq> Clear \<Longrightarrow>
   HLOB_book (HLOB_apply b e) =
     (if ev_action e = Add \<or>
         ev_action e \<in> {Modify, Cancel} \<and> map_of (hl_orders b) (ev_order_id e) \<noteq> None
      then LOB_apply (HLOB_book b) e else HLOB_book b)"
  by (cases "ev_action e")
    (simp_all add: HLOB_apply_def LOB_apply_def Let_def HLOB_book_applyAdd HLOB_book_applyModify
      HLOB_book_applyCancel del: map_of_eq_None_iff)

lemma HLOB_book_clear:
  "ev_action e = Clear \<Longrightarrow> HLOB_inv b \<Longrightarrow>
   HLOB_book (HLOB_apply b e) =
     (if ev_instrument_id e = 0 then LOB_apply (HLOB_book b) e
      else foldl (\<lambda>b k. LOB_removeOrder k b) (HLOB_book b)
             (map fst (filter (\<lambda>(k, x). ho_instrument_id x = ev_instrument_id e) (hl_orders b))))"
  using HLOB_clear_removes [of "b\<lparr>hl_instrument_id := ev_instrument_id e\<rparr>" "ev_instrument_id e"]
  by (simp add: HLOB_apply_def LOB_apply_def HLOB_applyClear_def LOB_applyClear_def HLOB_distinct
      HLOB_book_removes) (simp add: HLOB_book_def)

lemma HLOB_inv_apply [inv_intros]:
  assumes "HLOB_inv b" and "LOB_room (HLOB_book b) e"
  shows "HLOB_inv (HLOB_apply b e)"
  using assms LOB_inv_apply [of "HLOB_book b" e] LOB_removes_inv [of "HLOB_book b"]
  by (cases "ev_action e = Clear") (auto simp: HLOB_book_apply HLOB_book_clear)

lemma HLOB_removes_used:
  "book_used (foldl (\<lambda>b k. LOB_removeOrder k b) b ks) \<le> book_used b"
proof (induction ks arbitrary: b)
  case (Cons k ks)
  have "book_used (LOB_removeOrder k b) \<le> book_used b"
    by (simp add: LOB_orders_removeOrder vol_delete_le)
  with Cons [of "LOB_removeOrder k b"] show ?case by simp
qed simp

lemma HLOB_used_step:
  assumes "HLOB_inv b"
  shows "book_used (HLOB_book (HLOB_apply b e)) \<le> book_used (HLOB_book b) + added_volume e"
  using LOB_used_step [OF assms, of e] HLOB_removes_used [of "HLOB_book b"] assms
  by (cases "ev_action e = Clear") (auto simp: HLOB_book_apply HLOB_book_clear intro: trans_le_add1)

interpretation hlob: budgeted_machine HLOB_apply "\<lambda>b e. LOB_room (HLOB_book b) e" HLOB_inv
  "\<lambda>b. book_used (HLOB_book b)" added_volume two64
  by unfold_locales (auto intro: HLOB_inv_apply LOB_room_budget HLOB_used_step)

lemma HLOB_run_inv:
  "sum_list (map added_volume es) < two64 \<Longrightarrow> HLOB_inv (foldl HLOB_apply HLOB_new es)"
  by (rule hlob.budget_run_inv [OF HLOB_inv_new]) (simp add: HLOB_book_def HLOB_new_def LOB_new_def)

section \<open>Refinement of the order specification\<close>

definition hist_spec ::
  "(order_id \<rightharpoonup> HistoricalOrder) \<Rightarrow> MarketDataEvent \<Rightarrow> (order_id \<rightharpoonup> HistoricalOrder)" where
  "hist_spec m e =
     (case ev_action e of
        Add \<Rightarrow> if hasValidRestingState e then m(ev_order_id e \<mapsto> historical_order e) else m
      | Modify \<Rightarrow>
          if hasValidRestingState e \<and> m (ev_order_id e) \<noteq> None
          then m(ev_order_id e \<mapsto> historical_order e) else m
      | Cancel \<Rightarrow>
          (case m (ev_order_id e) of
             None \<Rightarrow> m
           | Some x \<Rightarrow>
               if ev_size e = 0 \<or> ho_quantity x \<le> ev_size e then m(ev_order_id e := None)
               else m(ev_order_id e \<mapsto> x\<lparr>ho_quantity := ho_quantity x - ev_size e\<rparr>))
      | Clear \<Rightarrow>
          (\<lambda>k. case m k of
                 None \<Rightarrow> None
               | Some x \<Rightarrow>
                   if ev_instrument_id e = 0 \<or> ho_instrument_id x = ev_instrument_id e then None else Some x)
      | _ \<Rightarrow> m)"

lemma map_of_removes:
  "map_of (hl_orders (foldl (\<lambda>b k. HLOB_removeOrder k b) b ks)) k =
     (if k \<in> set ks then None else map_of (hl_orders b) k)"
  by (induction ks arbitrary: b) (auto simp: HLOB_orders_removeOrder)

lemma HLOB_orders_clear:
  assumes "distinct (keys (hl_orders b))"
  shows "map_of (hl_orders (HLOB_clearOrders i (hl_orders b) b)) k =
     (case map_of (hl_orders b) k of None \<Rightarrow> None | Some x \<Rightarrow> if ho_instrument_id x = i then None else Some x)"
  using assms map_of_is_SomeI [OF assms]
  by (auto simp: HLOB_clear_removes map_of_removes image_iff split: option.split
      dest!: map_of_SomeD dest: eq_key_imp_eq_value [OF assms])

lemma HLOB_apply_orders:
  assumes "distinct (keys (hl_orders b))"
  shows "map_of (hl_orders (HLOB_apply b e)) = hist_spec (map_of (hl_orders b)) e"
  by (cases "ev_action e")
    (auto simp: HLOB_apply_def hist_spec_def HLOB_applyAdd_def HLOB_applyModify_def HLOB_applyCancel_def
      HLOB_applyClear_def Let_def HLOB_orders_removeOrder fun_eq_iff min_def HLOB_orders_clear
      HLOB_orders_clear [where b = "b\<lparr>hl_instrument_id := _\<rparr>", simplified] assms
      simp del: map_of_eq_Some_iff map_of_eq_None_iff split: option.split)

lemma HLOB_distinct_removes:
  "distinct (keys (hl_orders b)) \<Longrightarrow> distinct (keys (hl_orders (foldl (\<lambda>b k. HLOB_removeOrder k b) b ks)))"
  by (induction ks arbitrary: b) (auto simp: HLOB_orders_removeOrder distinct_keys_delete)

lemma HLOB_distinct_apply:
  assumes "distinct (keys (hl_orders b))"
  shows "distinct (keys (hl_orders (HLOB_apply b e)))"
proof (cases "ev_action e = Clear")
  case True
  with assms show ?thesis
    by (auto simp: HLOB_apply_def HLOB_applyClear_def HLOB_clear_removes [of "b\<lparr>hl_instrument_id := _\<rparr>", simplified]
        intro: HLOB_distinct_removes)
next
  case False
  with assms show ?thesis
    by (cases "ev_action e")
      (auto simp: HLOB_apply_def HLOB_applyAdd_def HLOB_applyModify_def HLOB_applyCancel_def Let_def
        HLOB_orders_removeOrder distinct_keys_update distinct_keys_delete split: option.split)
qed

lemma HLOB_run_distinct: "distinct (keys (hl_orders (foldl HLOB_apply HLOB_new es)))"
  by (induction es rule: rev_induct) (simp_all add: HLOB_new_def HLOB_distinct_apply)

lemma HLOB_run_orders:
  "map_of (hl_orders (foldl HLOB_apply HLOB_new es)) = foldl hist_spec Map.empty es"
proof (induction es rule: rev_induct)
  case (snoc e es)
  then show ?case by (simp add: HLOB_apply_orders [OF HLOB_run_distinct])
qed (simp add: HLOB_new_def)

section \<open>The levels stay sorted, whatever the volumes\<close>

definition HLOB_sorted :: "HistoricalLOB \<Rightarrow> bool" where
  "HLOB_sorted b \<longleftrightarrow> sorted_levels (>) (hl_bids b) \<and> sorted_levels (<) (hl_asks b)"

lemma HLOB_sorted_levels [inv_intros]:
  "HLOB_sorted b \<Longrightarrow> HLOB_sorted (HLOB_addLevelVolume sd p s b)"
  "HLOB_sorted b \<Longrightarrow> HLOB_sorted (HLOB_removeLevelVolume sd p s b)"
  "HLOB_sorted (b\<lparr>hl_orders := m\<rparr>) = HLOB_sorted b"
  "HLOB_sorted (b\<lparr>hl_instrument_id := i\<rparr>) = HLOB_sorted b"
  by (auto simp: HLOB_sorted_def HLOB_addLevelVolume_def HLOB_removeLevelVolume_def
      asc.sorted_om_add asc.sorted_om_sub desc.sorted_om_add desc.sorted_om_sub)

lemma HLOB_sorted_removeOrder [inv_intros]: "HLOB_sorted b \<Longrightarrow> HLOB_sorted (HLOB_removeOrder k b)"
  by (auto simp: HLOB_removeOrder_def Let_def HLOB_sorted_levels split: option.split)

lemma HLOB_sorted_clear [inv_intros]: "HLOB_sorted b \<Longrightarrow> HLOB_sorted (HLOB_clearOrders i it b)"
  by (induction i it b rule: HLOB_clearOrders.induct) (simp_all add: Let_def HLOB_sorted_levels)

lemma HLOB_sorted_apply [inv_intros]: "HLOB_sorted b \<Longrightarrow> HLOB_sorted (HLOB_apply b e)"
  by (cases "ev_action e")
    (auto simp: HLOB_apply_def HLOB_applyAdd_def HLOB_applyModify_def HLOB_applyCancel_def
      HLOB_applyClear_def Let_def HLOB_sorted_levels HLOB_sorted_removeOrder HLOB_sorted_clear
      split: option.split, auto simp: HLOB_sorted_def)

text \<open>A price level exists only at a defined price, so full-depth snapshots are complete.\<close>

definition HLOB_defined :: "HistoricalLOB \<Rightarrow> bool" where
  "HLOB_defined b \<longleftrightarrow>
     undefined_price \<notin> set (keys (hl_bids b)) \<and> undefined_price \<notin> set (keys (hl_asks b))"

lemma keys_om_add: "set (keys (om_add lt k s m)) = insert k (set (keys m))"
  by (simp add: om_add_def set_keys_om_set)

lemma keys_om_sub: "set (keys (om_sub lt k s m)) \<subseteq> set (keys m)"
  by (auto simp: om_sub_def om_erase_def set_keys_om_set rev_image_eqI dest: map_of_SomeD split: option.splits if_splits)

lemma HLOB_defined_levels [inv_intros]:
  "HLOB_defined b \<Longrightarrow> hasValidPrice p \<Longrightarrow> HLOB_defined (HLOB_addLevelVolume sd p s b)"
  "HLOB_defined b \<Longrightarrow> HLOB_defined (HLOB_removeLevelVolume sd p' s b)"
  "HLOB_defined (b\<lparr>hl_orders := m\<rparr>) = HLOB_defined b"
  "HLOB_defined (b\<lparr>hl_instrument_id := i\<rparr>) = HLOB_defined b"
  by (auto simp: HLOB_defined_def HLOB_addLevelVolume_def HLOB_removeLevelVolume_def hasValidPrice_def
      undefined_price_def keys_om_add simp del: set_map dest: keys_om_sub [THEN subsetD])

lemma HLOB_defined_removeOrder [inv_intros]: "HLOB_defined b \<Longrightarrow> HLOB_defined (HLOB_removeOrder k b)"
  by (auto simp: HLOB_removeOrder_def Let_def HLOB_defined_levels split: option.split)

lemma HLOB_defined_clear [inv_intros]: "HLOB_defined b \<Longrightarrow> HLOB_defined (HLOB_clearOrders i it b)"
  by (induction i it b rule: HLOB_clearOrders.induct) (simp_all add: Let_def HLOB_defined_levels)

lemma HLOB_defined_apply [inv_intros]: "HLOB_defined b \<Longrightarrow> HLOB_defined (HLOB_apply b e)"
  by (cases "ev_action e")
    (auto simp: HLOB_apply_def HLOB_applyAdd_def HLOB_applyModify_def HLOB_applyCancel_def
      HLOB_applyClear_def Let_def HLOB_defined_levels HLOB_defined_removeOrder HLOB_defined_clear
      hasValidRestingState_def split: option.split, auto simp: HLOB_defined_def)

definition HLOB_levels_ok :: "HistoricalLOB \<Rightarrow> bool" where
  "HLOB_levels_ok b \<longleftrightarrow> HLOB_sorted b \<and> HLOB_defined b"

lemma HLOB_levels_ok_new: "HLOB_levels_ok HLOB_new"
  by (simp add: HLOB_levels_ok_def HLOB_sorted_def HLOB_defined_def HLOB_new_def)

lemma HLOB_levels_ok_apply: "HLOB_levels_ok b \<Longrightarrow> HLOB_levels_ok (HLOB_apply b e)"
  by (simp add: HLOB_levels_ok_def HLOB_sorted_apply HLOB_defined_apply)

lemma HLOB_full_snapshot:
  assumes "HLOB_levels_ok b"
  shows "HLOB_snapshot b (- 1) = \<lparr>ls_instrument_id = hl_instrument_id b,
    ls_bids = map toBookLevel (hl_bids b), ls_asks = map toBookLevel (hl_asks b)\<rparr>"
  using assms copy_all_levels [of "hl_bids b"] copy_all_levels [of "hl_asks b"]
  by (auto simp: HLOB_snapshot_def HLOB_bids_def HLOB_asks_def HLOB_levels_ok_def HLOB_sorted_def
      HLOB_defined_def dest: asc.sorted_distinct desc.sorted_distinct)

section \<open>The books of the store\<close>

definition HLS_ok :: "HistoricalLobStore \<Rightarrow> bool" where
  "HLS_ok books \<longleftrightarrow> (\<forall>i b. map_of books i = Some b \<longrightarrow> hl_instrument_id b = i \<and> HLOB_levels_ok b)"

lemma HLOB_apply_instrument:
  "ev_instrument_id e \<noteq> 0 \<Longrightarrow> hl_instrument_id (HLOB_apply b e) = ev_instrument_id e"
proof -
  have frame: "hl_instrument_id (HLOB_clearOrders i it c) = hl_instrument_id c" for i it c
    by (induction i it c rule: HLOB_clearOrders.induct) (simp_all add: Let_def HLOB_removeLevelVolume_def)
  assume "ev_instrument_id e \<noteq> 0"
  then show ?thesis
    by (cases "ev_action e")
      (simp_all add: HLOB_apply_def HLOB_applyAdd_def HLOB_applyModify_def HLOB_applyCancel_def
        HLOB_applyClear_def HLOB_removeOrder_def HLOB_addLevelVolume_def HLOB_removeLevelVolume_def
        Let_def frame split: option.split)
qed

lemma HLS_ok_new: "HLS_ok []"
  by (simp add: HLS_ok_def)

lemma HLS_ok_apply: "HLS_ok books \<Longrightarrow> HLS_ok (HLS_apply books e)"
  by (auto simp: HLS_ok_def HLS_apply_def HLS_at_def HLOB_apply_instrument HLOB_levels_ok_apply
      HLOB_levels_ok_new simp del: map_of_eq_Some_iff split: if_splits option.splits)

text \<open>The events that a book of the store has seen: those of its instrument since the last reset.\<close>

fun since_reset :: "MarketDataEvent list \<Rightarrow> MarketDataEvent list \<Rightarrow> MarketDataEvent list" where
  "since_reset acc [] = acc"
| "since_reset acc (e # es) =
     since_reset (if ev_action e = Clear \<and> ev_instrument_id e = 0 then [] else acc @ [e]) es"

lemma since_reset_snoc:
  "since_reset acc (es @ [e]) =
     (if ev_action e = Clear \<and> ev_instrument_id e = 0 then [] else since_reset acc es @ [e])"
  by (induction acc es rule: since_reset.induct) auto

lemma HLS_run_book:
  "i \<noteq> 0 \<Longrightarrow> HLS_bookSnapshot (foldl HLS_apply [] es) i =
     foldl HLOB_apply HLOB_new (filter (\<lambda>e. ev_instrument_id e = i) (since_reset [] es))"
proof (induction es rule: rev_induct)
  case (snoc e es)
  then show ?case
    by (auto simp: HLS_apply_def HLS_bookSnapshot_def HLS_at_def since_reset_snoc)
qed (simp add: HLS_bookSnapshot_def)

section \<open>Properties\<close>

text \<open>
  C6: The historical book is the specified reconstruction. After any stream of events whose added
  volume fits in 64 bits the book holds the orders of the specification; the best bid is the
  highest price with resting bids together with the exact volume there, the best ask the lowest
  price with resting asks together with its volume.
\<close>

theorem HLOB_matches_spec:
  assumes "sum_list (map added_volume es) < two64"
  shows "let b = foldl HLOB_apply HLOB_new es; m = foldl hist_spec Map.empty es;
             r = map_option as_resting \<circ> m; bps = spec_prices r Bid; aps = spec_prices r Ask
         in map_of (hl_orders b) = m \<and>
            HLOB_bestBid b = (if bps = {} then None
              else Some \<lparr>bl_price = Max bps, bl_size = of_nat (spec_volume r Bid (Max bps))\<rparr>) \<and>
            HLOB_bestAsk b = (if aps = {} then None
              else Some \<lparr>bl_price = Min aps, bl_size = of_nat (spec_volume r Ask (Min aps))\<rparr>)"
proof -
  let ?b = "foldl HLOB_apply HLOB_new es" and ?m = "foldl hist_spec Map.empty es"
  let ?r = "map_option as_resting \<circ> ?m"
  have inv: "HLOB_inv ?b" using assms by (rule HLOB_run_inv)
  have r: "map_of (lb_orders (HLOB_book ?b)) = ?r"
    by (simp add: fun_eq_iff HLOB_book_lookup HLOB_run_orders)
  have prices: "side_prices (HLOB_book ?b) sd = spec_prices ?r sd" for sd
    by (simp add: side_prices_def spec_prices_def r)
  have at: "of_nat (spec_volume ?r sd p) = LOB_volumeAt (HLOB_book ?b) sd p" if "hasValidSide sd" for sd p
    using of_nat_volume [OF LOB_volumeAt_spec [OF inv that, of p]] by (simp add: r)
  have "HLOB_bestBid ?b = map_option (\<lambda>p. \<lparr>bl_price = p, bl_size = LOB_volumeAt (HLOB_book ?b) Bid p\<rparr>) (LOB_bestBid (HLOB_book ?b))"
    "HLOB_bestAsk ?b = map_option (\<lambda>p. \<lparr>bl_price = p, bl_size = LOB_volumeAt (HLOB_book ?b) Ask p\<rparr>) (LOB_bestAsk (HLOB_book ?b))"
    by (auto simp: HLOB_bestBid_def HLOB_bestAsk_def LOB_bestBid_def LOB_bestAsk_def toBookLevel_def
        LOB_volumeAt_def split: list.split)
  then show ?thesis
    using LOB_bestBid_extreme [OF inv] LOB_bestAsk_extreme [OF inv]
    by (simp add: Let_def HLOB_run_orders prices at hasValidSide_def)
qed

theorem HLOB_matches_spec_witness:
  "sum_list (map added_volume demo_events) < two64 \<and>
   (let b = foldl HLOB_apply HLOB_new demo_events; m = foldl hist_spec Map.empty demo_events;
        bps = spec_prices (map_option as_resting \<circ> m) Bid
    in map_of (hl_orders b) = m \<and> bps \<noteq> {} \<and> Max bps = i64 101 \<and>
       HLOB_bestBid b = Some \<lparr>bl_price = i64 101, bl_size = 8\<rparr>)"
proof -
  have "HLOB_bestBid (foldl HLOB_apply HLOB_new demo_events) = Some \<lparr>bl_price = i64 101, bl_size = 8\<rparr>"
    by code_simp
  then show ?thesis
    using HLOB_matches_spec [OF demo_events_budget] demo_events_budget
    by (auto simp: Let_def split: if_splits)
qed

text \<open>
  C7: Instruments do not interfere in the store. The book the store returns for an instrument is
  the book that results from replaying only the events of that instrument since the last
  global reset (a clear without an instrument).
\<close>

theorem HLS_instruments_isolated:
  assumes "i \<noteq> 0"
  shows "HLP_book (foldl HLP_processMarketDataEvent [] es) i =
           foldl HLOB_apply HLOB_new (filter (\<lambda>e. ev_instrument_id e = i) (since_reset [] es))"
proof -
  have "HLP_processMarketDataEvent = HLS_apply" by (simp add: fun_eq_iff HLP_processMarketDataEvent_def)
  then show ?thesis using HLS_run_book [OF assms] by (simp add: HLP_book_def)
qed

theorem HLS_instruments_isolated_witness:
  "(8 :: u64) \<noteq> 0 \<and>
   HLP_book (foldl HLP_processMarketDataEvent [] two_instruments) 8 =
     foldl HLOB_apply HLOB_new [event Add 2 Ask 105 3 8, event Modify 1 Bid 99 6 8]"
  using HLS_instruments_isolated [of 8 two_instruments]
  by (simp add: two_instruments_def event_def default_event_def)

text \<open>The levels of a book are determined by its orders.\<close>

lemma LOB_levels_determined:
  assumes "LOB_inv b" "LOB_inv c" "map_of (lb_orders b) = map_of (lb_orders c)"
  shows "lb_bids b = lb_bids c" "lb_asks b = lb_asks c"
proof -
  have "LOB_total b = LOB_total c"
    using assms by (auto simp: fun_eq_iff side_vol_def vol_as_key_sum LOB_inv_def simp del: map_of_eq_Some_iff)
  then have "sides_ok (lb_bids b) (lb_asks b) (LOB_total b)" "sides_ok (lb_bids c) (lb_asks c) (LOB_total b)"
    using assms(1,2) by (simp_all add: LOB_inv_def)
  then show "lb_bids b = lb_bids c" "lb_asks b = lb_asks c" using sides_ok_unique by blast+
qed

lemma hist_spec_instrument:
  "\<forall>k x. m k = Some x \<longrightarrow> ho_instrument_id x = i \<Longrightarrow> ev_instrument_id e = i \<Longrightarrow>
   \<forall>k x. hist_spec m e k = Some x \<longrightarrow> ho_instrument_id x = i"
  by (auto simp: hist_spec_def historical_order_def split: Action.splits option.splits if_splits)

lemma hist_spec_as_book_spec:
  assumes "\<forall>k x. m k = Some x \<longrightarrow> ho_instrument_id x = i" "ev_instrument_id e = i"
    and "ev_action e = Modify \<longrightarrow> m (ev_order_id e) \<noteq> None"
  shows "map_option as_resting \<circ> hist_spec m e = book_spec (map_option as_resting \<circ> m) e"
  using assms
  by (cases "ev_action e") (auto simp: hist_spec_def book_spec_def fun_eq_iff split: option.split)

definition modifies_known :: "HistoricalLOB \<Rightarrow> MarketDataEvent \<Rightarrow> bool" where
  "modifies_known b e \<longleftrightarrow> (ev_action e = Modify \<longrightarrow> map_of (hl_orders b) (ev_order_id e) \<noteq> None)"

lemma HLOB_run_as_book:
  assumes "\<forall>e \<in> set es. ev_instrument_id e = i" "guarded_run HLOB_apply modifies_known b es"
    "distinct (keys (hl_orders b))" "\<forall>k x. map_of (hl_orders b) k = Some x \<longrightarrow> ho_instrument_id x = i"
  shows "map_option as_resting \<circ> foldl hist_spec (map_of (hl_orders b)) es =
     foldl book_spec (map_option as_resting \<circ> map_of (hl_orders b)) es"
  using assms
proof (induction es arbitrary: b)
  case (Cons e es)
  then have "map_option as_resting \<circ> hist_spec (map_of (hl_orders b)) e =
      book_spec (map_option as_resting \<circ> map_of (hl_orders b)) e"
    by (intro hist_spec_as_book_spec) (auto simp: modifies_known_def simp del: map_of_eq_Some_iff map_of_eq_None_iff)
  with Cons.IH [of "HLOB_apply b e"] Cons.prems show ?case
    using hist_spec_instrument [of "map_of (hl_orders b)" i e]
    by (simp add: HLOB_apply_orders HLOB_distinct_apply comp_def del: map_of_eq_Some_iff)
qed simp

text \<open>
  C8: The historical book agrees with the replay book. On a stream of one instrument in which
  every modify names an order that rests in the book, both books show the same levels.
\<close>

theorem HLOB_agrees_with_LOB:
  assumes "i \<noteq> 0" and "\<forall>e \<in> set es. ev_instrument_id e = i"
    and "guarded_run HLOB_apply modifies_known HLOB_new es"
    and "sum_list (map added_volume es) < two64"
  shows "hl_bids (foldl HLOB_apply HLOB_new es) = lb_bids (foldl LOB_apply (LOB_new i) es) \<and>
         hl_asks (foldl HLOB_apply HLOB_new es) = lb_asks (foldl LOB_apply (LOB_new i) es)"
proof -
  have empty: "hl_orders HLOB_new = []" by (simp add: HLOB_new_def)
  have "map_option as_resting \<circ> foldl hist_spec Map.empty es = foldl book_spec Map.empty es"
    using HLOB_run_as_book [OF assms(2,3)] by (simp add: empty comp_def)
  then have "map_of (lb_orders (HLOB_book (foldl HLOB_apply HLOB_new es))) = foldl book_spec Map.empty es"
    by (simp add: fun_eq_iff HLOB_book_lookup HLOB_run_orders)
  then show ?thesis
    using LOB_levels_determined [OF HLOB_run_inv [OF assms(4)] LOB_run_inv [OF assms(4), of i]]
    by (simp add: LOB_run_orders LOB_new_def)
qed

theorem HLOB_agrees_with_LOB_witness:
  "list_all (\<lambda>e. ev_instrument_id e = 7) demo_events \<and>
   guarded_run HLOB_apply modifies_known HLOB_new demo_events \<and>
   sum_list (map added_volume demo_events) < two64 \<and>
   hl_bids (foldl HLOB_apply HLOB_new demo_events) = lb_bids (foldl LOB_apply (LOB_new 7) demo_events) \<and>
   hl_asks (foldl HLOB_apply HLOB_new demo_events) = lb_asks (foldl LOB_apply (LOB_new 7) demo_events)"
proof -
  have "\<forall>e \<in> set demo_events. ev_instrument_id e = 7"
    by (simp add: demo_events_def event_def default_event_def)
  moreover have "guarded_run HLOB_apply modifies_known HLOB_new demo_events" by code_simp
  ultimately show ?thesis
    using HLOB_agrees_with_LOB [of 7 demo_events] demo_events_budget by (simp add: list_all_iff)
qed

end
