(* ===== verification/EngineView.thy ===== *)
theory EngineView
  imports HistoricalLOB
begin

text \<open>
  \<^verbatim>\<open>src/lob/EngineView.{hpp,cpp}\<close> and \<^verbatim>\<open>src/lob/SimulatedLOB.{hpp,cpp}\<close>: what one trading
  engine adds to the historical market (its own resting orders) and what it has already taken
  out of it (consumed liquidity), and the book it therefore sees. The \<^verbatim>\<open>mutex\<close> of the view makes
  each operation atomic; the \<^verbatim>\<open>thread_local\<close> snapshots that its accessors return are values here.
\<close>

section \<open>SyntheticBook and ConsumedLiquidityBook\<close>

record SyntheticBook =
  sb_bids :: levels
  sb_asks :: levels

definition SB_new :: SyntheticBook where
  "SB_new = \<lparr>sb_bids = [], sb_asks = []\<rparr>"

definition SB_bestBid :: "SyntheticBook \<Rightarrow> BookLevel option" where
  "SB_bestBid b = (case sb_bids b of [] \<Rightarrow> None | l # _ \<Rightarrow> Some (toBookLevel l))"

definition SB_bestAsk :: "SyntheticBook \<Rightarrow> BookLevel option" where
  "SB_bestAsk b = (case sb_asks b of [] \<Rightarrow> None | l # _ \<Rightarrow> Some (toBookLevel l))"

definition SB_bids :: "SyntheticBook \<Rightarrow> u64 \<Rightarrow> BookLevel list" where
  "SB_bids b depth = map toBookLevel (copyLevels 0 depth (sb_bids b))"

definition SB_asks :: "SyntheticBook \<Rightarrow> u64 \<Rightarrow> BookLevel list" where
  "SB_asks b depth = map toBookLevel (copyLevels 0 depth (sb_asks b))"

definition SB_bidLevelCount :: "SyntheticBook \<Rightarrow> u64" where
  "SB_bidLevelCount b = of_nat (length (sb_bids b))"

definition SB_askLevelCount :: "SyntheticBook \<Rightarrow> u64" where
  "SB_askLevelCount b = of_nat (length (sb_asks b))"

definition SB_addLevelVolume :: "Side \<Rightarrow> price \<Rightarrow> quantity \<Rightarrow> SyntheticBook \<Rightarrow> SyntheticBook" where
  "SB_addLevelVolume side price sz b =
     (if side = Bid then b\<lparr>sb_bids := om_add (>) price sz (sb_bids b)\<rparr>
      else if side = Ask then b\<lparr>sb_asks := om_add (<) price sz (sb_asks b)\<rparr>
      else b)"

definition SB_removeLevelVolume :: "Side \<Rightarrow> price \<Rightarrow> quantity \<Rightarrow> SyntheticBook \<Rightarrow> SyntheticBook" where
  "SB_removeLevelVolume side price sz b =
     (if side = Bid then b\<lparr>sb_bids := om_sub (>) price sz (sb_bids b)\<rparr>
      else if side = Ask then b\<lparr>sb_asks := om_sub (<) price sz (sb_asks b)\<rparr>
      else b)"

record ConsumedLiquidityBook =
  cb_bids :: levels
  cb_asks :: levels

definition CB_new :: ConsumedLiquidityBook where
  "CB_new = \<lparr>cb_bids = [], cb_asks = []\<rparr>"

definition CB_consume :: "Side \<Rightarrow> price \<Rightarrow> quantity \<Rightarrow> ConsumedLiquidityBook \<Rightarrow> ConsumedLiquidityBook" where
  "CB_consume side price sz b =
     (if side = Bid then b\<lparr>cb_bids := om_add (>) price sz (cb_bids b)\<rparr>
      else if side = Ask then b\<lparr>cb_asks := om_add (<) price sz (cb_asks b)\<rparr>
      else b)"

definition CB_consumedAt :: "ConsumedLiquidityBook \<Rightarrow> Side \<Rightarrow> price \<Rightarrow> quantity" where
  "CB_consumedAt b side price =
     (if side = Bid then (case map_of (cb_bids b) price of None \<Rightarrow> 0 | Some v \<Rightarrow> v)
      else if side = Ask then (case map_of (cb_asks b) price of None \<Rightarrow> 0 | Some v \<Rightarrow> v)
      else 0)"

definition CB_bids :: "ConsumedLiquidityBook \<Rightarrow> u64 \<Rightarrow> BookLevel list" where
  "CB_bids b depth = map toBookLevel (copyLevels 0 depth (cb_bids b))"

definition CB_asks :: "ConsumedLiquidityBook \<Rightarrow> u64 \<Rightarrow> BookLevel list" where
  "CB_asks b depth = map toBookLevel (copyLevels 0 depth (cb_asks b))"

definition CB_bidLevelCount :: "ConsumedLiquidityBook \<Rightarrow> u64" where
  "CB_bidLevelCount b = of_nat (length (cb_bids b))"

definition CB_askLevelCount :: "ConsumedLiquidityBook \<Rightarrow> u64" where
  "CB_askLevelCount b = of_nat (length (cb_asks b))"

section \<open>EngineView\<close>

record SyntheticOrder =
  so_instrument_id :: instrument_id
  so_side :: Side
  so_price :: price
  so_size :: quantity
  so_timestamp_ns :: timestamp_ns

record EngineView =
  vw_engine_id :: u64
  vw_next_order_id :: u64
  vw_own_orders :: "(u64, SyntheticOrder) umap"
  vw_synthetic_books :: "(instrument_id, SyntheticBook) umap"
  vw_consumed :: "(instrument_id, ConsumedLiquidityBook) umap"

definition EV_new :: "u64 \<Rightarrow> EngineView" where
  "EV_new engine_id =
     \<lparr>vw_engine_id = engine_id, vw_next_order_id = 1, vw_own_orders = [], vw_synthetic_books = [],
      vw_consumed = []\<rparr>"

definition hasValidSyntheticOrder :: "Side \<Rightarrow> price \<Rightarrow> quantity \<Rightarrow> bool" where
  "hasValidSyntheticOrder side price sz \<longleftrightarrow> hasValidSide side \<and> hasValidPrice price \<and> 0 < sz"

definition EV_syntheticBook :: "EngineView \<Rightarrow> instrument_id \<Rightarrow> SyntheticBook" where
  "EV_syntheticBook v i = (case map_of (vw_synthetic_books v) i of None \<Rightarrow> SB_new | Some b \<Rightarrow> b)"

definition EV_consumedHistoricalLiquidity :: "EngineView \<Rightarrow> instrument_id \<Rightarrow> ConsumedLiquidityBook" where
  "EV_consumedHistoricalLiquidity v i = (case map_of (vw_consumed v) i of None \<Rightarrow> CB_new | Some b \<Rightarrow> b)"

definition EV_reserveSyntheticOrderId :: "EngineView \<Rightarrow> u64 \<times> EngineView" where
  "EV_reserveSyntheticOrderId v =
     (vw_next_order_id v, v\<lparr>vw_next_order_id := vw_next_order_id v + 1\<rparr>)"

definition EV_addSyntheticOrderWithId ::
  "u64 \<Rightarrow> instrument_id \<Rightarrow> Side \<Rightarrow> price \<Rightarrow> quantity \<Rightarrow> timestamp_ns \<Rightarrow> EngineView \<Rightarrow> EngineView" where
  "EV_addSyntheticOrderWithId oid i side price sz ts v =
     v\<lparr>vw_own_orders := AList.update oid
         \<lparr>so_instrument_id = i, so_side = side, so_price = price, so_size = sz, so_timestamp_ns = ts\<rparr>
         (vw_own_orders v),
       vw_synthetic_books := AList.update i
         (SB_addLevelVolume side price sz (EV_syntheticBook v i)) (vw_synthetic_books v)\<rparr>"

definition EV_addSyntheticOrder ::
  "instrument_id \<Rightarrow> Side \<Rightarrow> price \<Rightarrow> quantity \<Rightarrow> timestamp_ns \<Rightarrow> EngineView \<Rightarrow> u64 \<times> EngineView" where
  "EV_addSyntheticOrder i side price sz ts v =
     (if i = 0 \<or> \<not> hasValidSyntheticOrder side price sz then (0, v)
      else
        let oid = vw_next_order_id v;
            v1 = v\<lparr>vw_next_order_id := vw_next_order_id v + 1\<rparr>;
            v2 = v1\<lparr>vw_own_orders := AList.update oid
                  \<lparr>so_instrument_id = i, so_side = side, so_price = price, so_size = sz,
                   so_timestamp_ns = ts\<rparr> (vw_own_orders v1)\<rparr>
        in (oid, v2\<lparr>vw_synthetic_books := AList.update i
                     (SB_addLevelVolume side price sz (EV_syntheticBook v2 i)) (vw_synthetic_books v2)\<rparr>))"

definition EV_cancelSyntheticOrder :: "u64 \<Rightarrow> EngineView \<Rightarrow> EngineView" where
  "EV_cancelSyntheticOrder oid v =
     (case map_of (vw_own_orders v) oid of
        None \<Rightarrow> v
      | Some ord \<Rightarrow>
          (let i = so_instrument_id ord
           in v\<lparr>vw_synthetic_books := AList.update i
                  (SB_removeLevelVolume (so_side ord) (so_price ord) (so_size ord) (EV_syntheticBook v i))
                  (vw_synthetic_books v),
                vw_own_orders := AList.delete oid (vw_own_orders v)\<rparr>))"

definition EV_consumeHistoricalLiquidity ::
  "instrument_id \<Rightarrow> Side \<Rightarrow> price \<Rightarrow> quantity \<Rightarrow> EngineView \<Rightarrow> EngineView" where
  "EV_consumeHistoricalLiquidity i side price sz v =
     (if i = 0 \<or> sz = 0 then v
      else v\<lparr>vw_consumed := AList.update i
               (CB_consume side price sz (EV_consumedHistoricalLiquidity v i)) (vw_consumed v)\<rparr>)"

section \<open>SimulatedLOB\<close>

text \<open>
  The level helpers that \<^verbatim>\<open>SimulatedLOB.cpp\<close> and \<^verbatim>\<open>FillSimulator.cpp\<close> share, for either
  comparator, and the source of the historical snapshot: a single book or the store.
\<close>

definition addLevel :: "(price \<Rightarrow> price \<Rightarrow> bool) \<Rightarrow> levels \<Rightarrow> BookLevel \<Rightarrow> levels" where
  "addLevel lt ls l = (if 0 < bl_size l then om_add lt (bl_price l) (bl_size l) ls else ls)"

definition removeLevel :: "(price \<Rightarrow> price \<Rightarrow> bool) \<Rightarrow> levels \<Rightarrow> BookLevel \<Rightarrow> levels" where
  "removeLevel lt ls l = om_sub lt (bl_price l) (bl_size l) ls"

datatype HistoricalSource = Book HistoricalLOB | Store HistoricalLobStore

definition all_levels :: u64 where
  "all_levels = - 1"

fun historicalSnapshot :: "HistoricalSource \<Rightarrow> instrument_id \<Rightarrow> LobSnapshot" where
  "historicalSnapshot (Store books) i = HLS_snapshot books i all_levels"
| "historicalSnapshot (Book b) i =
     (let snapshot = HLOB_snapshot b all_levels
      in if ls_instrument_id snapshot \<noteq> i
         then \<lparr>ls_instrument_id = i, ls_bids = [], ls_asks = []\<rparr> else snapshot)"

definition visibleBids :: "LobSnapshot \<Rightarrow> EngineView \<Rightarrow> instrument_id \<Rightarrow> levels" where
  "visibleBids historical_snapshot view i =
     (let ls0 = (if ls_instrument_id historical_snapshot = i
                 then foldl (addLevel (>)) [] (ls_bids historical_snapshot) else []);
          consumed = EV_consumedHistoricalLiquidity view i;
          ls1 = foldl (removeLevel (>)) ls0 (CB_bids consumed (CB_bidLevelCount consumed));
          synthetic = EV_syntheticBook view i
      in foldl (addLevel (>)) ls1 (SB_bids synthetic (SB_bidLevelCount synthetic)))"

definition visibleAsks :: "LobSnapshot \<Rightarrow> EngineView \<Rightarrow> instrument_id \<Rightarrow> levels" where
  "visibleAsks historical_snapshot view i =
     (let ls0 = (if ls_instrument_id historical_snapshot = i
                 then foldl (addLevel (<)) [] (ls_asks historical_snapshot) else []);
          consumed = EV_consumedHistoricalLiquidity view i;
          ls1 = foldl (removeLevel (<)) ls0 (CB_asks consumed (CB_askLevelCount consumed));
          synthetic = EV_syntheticBook view i
      in foldl (addLevel (<)) ls1 (SB_asks synthetic (SB_askLevelCount synthetic)))"

definition topLevels :: "levels \<Rightarrow> u64 \<Rightarrow> BookLevel list" where
  "topLevels ls depth = map toBookLevel (copyLevels 0 depth ls)"

definition SIM_bestBid :: "HistoricalSource \<Rightarrow> EngineView \<Rightarrow> instrument_id \<Rightarrow> BookLevel option" where
  "SIM_bestBid src view i =
     (case visibleBids (historicalSnapshot src i) view i of [] \<Rightarrow> None | l # _ \<Rightarrow> Some (toBookLevel l))"

definition SIM_bestAsk :: "HistoricalSource \<Rightarrow> EngineView \<Rightarrow> instrument_id \<Rightarrow> BookLevel option" where
  "SIM_bestAsk src view i =
     (case visibleAsks (historicalSnapshot src i) view i of [] \<Rightarrow> None | l # _ \<Rightarrow> Some (toBookLevel l))"

definition SIM_snapshot :: "HistoricalSource \<Rightarrow> EngineView \<Rightarrow> instrument_id \<Rightarrow> u64 \<Rightarrow> LobSnapshot" where
  "SIM_snapshot src view i depth =
     (let historical = historicalSnapshot src i
      in \<lparr>ls_instrument_id = i, ls_bids = topLevels (visibleBids historical view i) depth,
          ls_asks = topLevels (visibleAsks historical view i) depth\<rparr>)"

section \<open>Folding levels\<close>

text \<open>The size a list of levels has at a price.\<close>

definition level_at :: "BookLevel list \<Rightarrow> price \<Rightarrow> nat" where
  "level_at ls p = unat (om_at (map (\<lambda>l. (bl_price l, bl_size l)) ls) p)"

lemma level_at_simps [simp]:
  "level_at [] p = 0"
  "level_at (l # ls) p = (if p = bl_price l then unat (bl_size l) else level_at ls p)"
  by (simp_all add: level_at_def om_at_def)

lemma level_at_levels: "level_at (map toBookLevel m) p = unat (om_at m p)"
  by (induction m) (auto simp: toBookLevel_def om_at_def)

lemma level_at_notin: "p \<notin> bl_price ` set ls \<Longrightarrow> level_at ls p = 0"
  by (induction ls) auto

lemma represents_addLevels:
  assumes "represents m f" "distinct (map bl_price ls)" "\<And>p. f p + level_at ls p < two64"
  shows "represents (foldl (addLevel lt) m ls) (\<lambda>p. f p + level_at ls p)"
  using assms
proof (induction ls arbitrary: m f)
  case (Cons l ls)
  let ?f = "f(bl_price l := f (bl_price l) + unat (bl_size l))"
  have zero: "level_at ls (bl_price l) = 0" using Cons.prems(2) by (simp add: level_at_notin)
  have "represents (addLevel lt m l) ?f"
    using Cons.prems(1) Cons.prems(3) [of "bl_price l"] represents_add [OF Cons.prems(1), of "bl_size l" "bl_price l" lt]
    by (auto simp: addLevel_def u64_pos_iff)
  moreover have "?f p + level_at ls p < two64" for p using Cons.prems(3) [of p] zero by auto
  moreover have "(\<lambda>p. ?f p + level_at ls p) = (\<lambda>p. f p + level_at (l # ls) p)"
    using zero by (auto simp: fun_eq_iff)
  ultimately show ?case using Cons.IH [of "addLevel lt m l" ?f] Cons.prems(2)
    by (simp del: fun_upd_apply level_at_simps)
qed simp

lemma represents_removeLevels:
  assumes "represents m f" "distinct (map bl_price ls)"
  shows "represents (foldl (removeLevel lt) m ls) (\<lambda>p. f p - level_at ls p)"
  using assms
proof (induction ls arbitrary: m f)
  case (Cons l ls)
  let ?f = "f(bl_price l := f (bl_price l) - unat (bl_size l))"
  have zero: "level_at ls (bl_price l) = 0" using Cons.prems(2) by (simp add: level_at_notin)
  have "represents (removeLevel lt m l) ?f"
    unfolding removeLevel_def by (rule represents_sub [OF Cons.prems(1)])
  moreover have "(\<lambda>p. ?f p - level_at ls p) = (\<lambda>p. f p - level_at (l # ls) p)"
    using zero by (auto simp: fun_eq_iff)
  ultimately show ?case using Cons.IH [of "removeLevel lt m l" ?f] Cons.prems(2)
    by (simp del: fun_upd_apply level_at_simps)
qed simp

lemma sorted_addLevels:
  "sorted_levels (<) m \<Longrightarrow> sorted_levels (<) (foldl (addLevel (<)) m ls)"
  "sorted_levels (>) m \<Longrightarrow> sorted_levels (>) (foldl (addLevel (>)) m ls)"
  by (induction ls arbitrary: m) (auto simp: addLevel_def asc.sorted_om_add desc.sorted_om_add)

lemma sorted_removeLevels:
  "sorted_levels (<) m \<Longrightarrow> sorted_levels (<) (foldl (removeLevel (<)) m ls)"
  "sorted_levels (>) m \<Longrightarrow> sorted_levels (>) (foldl (removeLevel (>)) m ls)"
  by (induction ls arbitrary: m) (auto simp: removeLevel_def asc.sorted_om_sub desc.sorted_om_sub)

section \<open>Well-formed views and sources\<close>

text \<open>
  The level maps of the view are sorted and have no level at the undefined price; the same for
  every book of the historical source. These hold in every reachable state, without a bound on
  volumes, and make every full-depth copy complete.
\<close>

definition good_levels :: "(price \<Rightarrow> price \<Rightarrow> bool) \<Rightarrow> levels \<Rightarrow> bool" where
  "good_levels lt m \<longleftrightarrow> sorted_levels lt m \<and> undefined_price \<notin> set (keys m)"

definition EV_levels_ok :: "EngineView \<Rightarrow> bool" where
  "EV_levels_ok v \<longleftrightarrow>
     (\<forall>i. good_levels (>) (sb_bids (EV_syntheticBook v i)) \<and> good_levels (<) (sb_asks (EV_syntheticBook v i)) \<and>
          good_levels (>) (cb_bids (EV_consumedHistoricalLiquidity v i)) \<and>
          good_levels (<) (cb_asks (EV_consumedHistoricalLiquidity v i)))"

fun source_ok :: "HistoricalSource \<Rightarrow> bool" where
  "source_ok (Book b) = HLOB_levels_ok b"
| "source_ok (Store books) = HLS_ok books"

text \<open>The historical levels of an instrument, whichever source they come from.\<close>

fun source_bids :: "HistoricalSource \<Rightarrow> instrument_id \<Rightarrow> levels" where
  "source_bids (Book b) i = (if hl_instrument_id b = i then hl_bids b else [])"
| "source_bids (Store books) i = hl_bids (HLS_at books i)"

fun source_asks :: "HistoricalSource \<Rightarrow> instrument_id \<Rightarrow> levels" where
  "source_asks (Book b) i = (if hl_instrument_id b = i then hl_asks b else [])"
| "source_asks (Store books) i = hl_asks (HLS_at books i)"

lemma good_levels_Nil [simp]: "good_levels lt []"
  by (simp add: good_levels_def)

lemma good_levels_add:
  "good_levels (<) m \<Longrightarrow> hasValidPrice p \<Longrightarrow> good_levels (<) (om_add (<) p s m)"
  "good_levels (>) m \<Longrightarrow> hasValidPrice p \<Longrightarrow> good_levels (>) (om_add (>) p s m)"
  by (auto simp: good_levels_def asc.sorted_om_add desc.sorted_om_add keys_om_add hasValidPrice_def
      undefined_price_def simp del: set_map)

lemma good_levels_sub:
  "good_levels (<) m \<Longrightarrow> good_levels (<) (om_sub (<) p s m)"
  "good_levels (>) m \<Longrightarrow> good_levels (>) (om_sub (>) p s m)"
  by (auto simp: good_levels_def asc.sorted_om_sub desc.sorted_om_sub simp del: set_map
      dest: keys_om_sub [THEN subsetD])

lemma good_levels_distinct:
  "good_levels (<) m \<Longrightarrow> distinct (keys m)" "good_levels (>) m \<Longrightarrow> distinct (keys m)"
  by (auto simp: good_levels_def asc.sorted_distinct desc.sorted_distinct)

lemma good_levels_price:
  "good_levels lt m \<Longrightarrow> map_of m p = Some s \<Longrightarrow> hasValidPrice p"
  by (force simp: good_levels_def hasValidPrice_def undefined_price_def dest: map_of_SomeD)

lemma copy_own_count:
  assumes "distinct (keys (m :: levels))" "undefined_price \<notin> set (keys m)"
  shows "copyLevels 0 (of_nat (length m)) m = m"
proof -
  have "length m = card (set (keys m))" using distinct_card [OF assms(1)] by simp
  also have "\<dots> < card (UNIV :: int64 set)" by (rule psubset_card_mono) (use assms(2) in auto)
  finally have "length m < two64" by (simp add: card_int64)
  then show ?thesis by (simp add: copyLevels_take unat_of_nat_u64)
qed

lemma good_levels_copy:
  assumes "good_levels (<) m \<or> good_levels (>) m"
  shows "copyLevels 0 (of_nat (length m)) m = m" "copyLevels 0 all_levels m = m"
  using assms copy_own_count [of m] copy_all_levels [of m]
  by (auto simp: good_levels_def all_levels_def dest: asc.sorted_distinct desc.sorted_distinct)

lemma map_price_levels: "map bl_price (map toBookLevel m) = keys m"
  by (simp add: toBookLevel_def comp_def)

lemma EV_levels_ok_new: "EV_levels_ok (EV_new i)"
  by (simp add: EV_levels_ok_def EV_new_def EV_syntheticBook_def EV_consumedHistoricalLiquidity_def
      SB_new_def CB_new_def)

lemma source_ok_levels:
  assumes "source_ok src"
  shows "good_levels (>) (source_bids src i)" "good_levels (<) (source_asks src i)"
proof -
  have ok: "HLOB_levels_ok b \<Longrightarrow> good_levels (>) (hl_bids b) \<and> good_levels (<) (hl_asks b)" for b
    by (simp add: HLOB_levels_ok_def HLOB_sorted_def HLOB_defined_def good_levels_def)
  have "HLS_ok books \<Longrightarrow> HLOB_levels_ok (HLS_at books i)" for books
    by (auto simp: HLS_ok_def HLS_at_def HLOB_levels_ok_new simp del: map_of_eq_Some_iff split: option.split)
  then show "good_levels (>) (source_bids src i)" "good_levels (<) (source_asks src i)"
    using assms ok by (cases src; auto)+
qed

lemma historicalSnapshot_levels:
  assumes "source_ok src"
  shows "historicalSnapshot src i = \<lparr>ls_instrument_id = i,
     ls_bids = map toBookLevel (source_bids src i), ls_asks = map toBookLevel (source_asks src i)\<rparr>"
proof (cases src)
  case (Book b)
  then show ?thesis using assms HLOB_full_snapshot [of b] by (auto simp: Let_def all_levels_def)
next
  case (Store books)
  show ?thesis
  proof (cases "map_of books i")
    case None
    with Store show ?thesis by (simp add: HLS_snapshot_def HLS_at_def HLOB_new_def)
  next
    case (Some b)
    with assms Store have "HLOB_levels_ok b" "hl_instrument_id b = i"
      by (auto simp: HLS_ok_def simp del: map_of_eq_Some_iff)
    with Some Store show ?thesis
      using HLOB_full_snapshot [of b] by (simp add: HLS_snapshot_def HLS_at_def all_levels_def)
  qed
qed

section \<open>What an engine sees\<close>

definition visible_volume :: "levels \<Rightarrow> levels \<Rightarrow> levels \<Rightarrow> price \<Rightarrow> nat" where
  "visible_volume hist consumed synth p =
     (unat (om_at hist p) - unat (om_at consumed p)) + unat (om_at synth p)"

lemma represents_visible:
  assumes dist: "distinct (keys hist)" "distinct (keys consumed)" "distinct (keys synth)"
    and fits: "\<And>p. visible_volume hist consumed synth p < two64"
  shows "represents (foldl (addLevel lt) (foldl (removeLevel lt)
            (foldl (addLevel lt) [] (map toBookLevel hist)) (map toBookLevel consumed))
            (map toBookLevel synth)) (visible_volume hist consumed synth)"
proof -
  have "represents (foldl (addLevel lt) [] (map toBookLevel hist)) (\<lambda>p. 0 + level_at (map toBookLevel hist) p)"
    by (rule represents_addLevels) (use dist(1) in \<open>auto simp: map_price_levels level_at_levels simp del: map_map\<close>)
  then have "represents (foldl (removeLevel lt) (foldl (addLevel lt) [] (map toBookLevel hist)) (map toBookLevel consumed))
      (\<lambda>p. unat (om_at hist p) - level_at (map toBookLevel consumed) p)"
    using represents_removeLevels [where ls = "map toBookLevel consumed" and lt = lt] dist(2)
    by (simp add: map_price_levels level_at_levels del: map_map)
  then show ?thesis
    using represents_addLevels [where ls = "map toBookLevel synth" and lt = lt] dist(3) fits
    unfolding visible_volume_def by (simp add: map_price_levels level_at_levels del: map_map)
qed

lemma visibleBids_represents:
  assumes src: "source_ok src" and v: "EV_levels_ok v"
    and fits: "\<And>p. visible_volume (source_bids src i) (cb_bids (EV_consumedHistoricalLiquidity v i))
        (sb_bids (EV_syntheticBook v i)) p < two64"
  shows "sorted_levels (>) (visibleBids (historicalSnapshot src i) v i)"
    and "represents (visibleBids (historicalSnapshot src i) v i)
       (visible_volume (source_bids src i) (cb_bids (EV_consumedHistoricalLiquidity v i)) (sb_bids (EV_syntheticBook v i)))"
proof -
  let ?h = "source_bids src i" and ?c = "cb_bids (EV_consumedHistoricalLiquidity v i)"
    and ?s = "sb_bids (EV_syntheticBook v i)"
  have good: "good_levels (>) ?h" "good_levels (>) ?c" "good_levels (>) ?s"
    using v source_ok_levels [OF src] by (auto simp: EV_levels_ok_def)
  have vis: "visibleBids (historicalSnapshot src i) v i =
      foldl (addLevel (>)) (foldl (removeLevel (>)) (foldl (addLevel (>)) [] (map toBookLevel ?h))
        (map toBookLevel ?c)) (map toBookLevel ?s)"
    using good by (simp add: visibleBids_def Let_def historicalSnapshot_levels [OF src] CB_bids_def SB_bids_def
        CB_bidLevelCount_def SB_bidLevelCount_def good_levels_copy)
  show "sorted_levels (>) (visibleBids (historicalSnapshot src i) v i)"
    unfolding vis by (intro sorted_addLevels sorted_removeLevels) simp
  show "represents (visibleBids (historicalSnapshot src i) v i) (visible_volume ?h ?c ?s)"
    unfolding vis by (rule represents_visible) (use good fits in \<open>auto dest: good_levels_distinct\<close>)
qed

lemma visibleAsks_represents:
  assumes src: "source_ok src" and v: "EV_levels_ok v"
    and fits: "\<And>p. visible_volume (source_asks src i) (cb_asks (EV_consumedHistoricalLiquidity v i))
        (sb_asks (EV_syntheticBook v i)) p < two64"
  shows "sorted_levels (<) (visibleAsks (historicalSnapshot src i) v i)"
    and "represents (visibleAsks (historicalSnapshot src i) v i)
       (visible_volume (source_asks src i) (cb_asks (EV_consumedHistoricalLiquidity v i)) (sb_asks (EV_syntheticBook v i)))"
proof -
  let ?h = "source_asks src i" and ?c = "cb_asks (EV_consumedHistoricalLiquidity v i)"
    and ?s = "sb_asks (EV_syntheticBook v i)"
  have good: "good_levels (<) ?h" "good_levels (<) ?c" "good_levels (<) ?s"
    using v source_ok_levels [OF src] by (auto simp: EV_levels_ok_def)
  have vis: "visibleAsks (historicalSnapshot src i) v i =
      foldl (addLevel (<)) (foldl (removeLevel (<)) (foldl (addLevel (<)) [] (map toBookLevel ?h))
        (map toBookLevel ?c)) (map toBookLevel ?s)"
    using good by (simp add: visibleAsks_def Let_def historicalSnapshot_levels [OF src] CB_asks_def SB_asks_def
        CB_askLevelCount_def SB_askLevelCount_def good_levels_copy)
  show "sorted_levels (<) (visibleAsks (historicalSnapshot src i) v i)"
    unfolding vis by (intro sorted_addLevels sorted_removeLevels) simp
  show "represents (visibleAsks (historicalSnapshot src i) v i) (visible_volume ?h ?c ?s)"
    unfolding vis by (rule represents_visible) (use good fits in \<open>auto dest: good_levels_distinct\<close>)
qed

section \<open>The synthetic books aggregate the engine's own orders\<close>

abbreviation own_on :: "EngineView \<Rightarrow> instrument_id \<Rightarrow> (u64, SyntheticOrder) umap" where
  "own_on v i \<equiv> filter (\<lambda>e. so_instrument_id (snd e) = i) (vw_own_orders v)"

abbreviation own_volume :: "(u64, SyntheticOrder) umap \<Rightarrow> Side \<Rightarrow> price \<Rightarrow> nat" where
  "own_volume m \<equiv> side_vol so_side so_price so_size m"

definition EV_inv :: "EngineView \<Rightarrow> bool" where
  "EV_inv v \<longleftrightarrow>
     distinct (keys (vw_own_orders v)) \<and>
     (\<forall>(k, x) \<in> set (vw_own_orders v).
        k < vw_next_order_id v \<and> so_instrument_id x \<noteq> 0 \<and>
        hasValidSyntheticOrder (so_side x) (so_price x) (so_size x)) \<and>
     (\<forall>i. sides_ok (sb_bids (EV_syntheticBook v i)) (sb_asks (EV_syntheticBook v i)) (own_volume (own_on v i)))"

lemma EV_inv_new: "EV_inv (EV_new i)"
  by (simp add: EV_inv_def EV_new_def EV_syntheticBook_def SB_new_def sides_ok_empty)

lemma update_fresh: "map_of m k = None \<Longrightarrow> AList.update k v m = m @ [(k, v)]"
  by (induction m) (auto split: if_splits)

lemma filter_delete: "filter P (AList.delete k m) = AList.delete k (filter P m)"
  by (induction m) auto

lemma vol_append: "vol P sz (m @ n) = vol P sz m + vol P sz n"
  by (induction m) auto

lemma SB_sides_add:
  "sides_ok (sb_bids b) (sb_asks b) tot \<Longrightarrow> hasValidSide sd \<Longrightarrow> 0 < s \<Longrightarrow> tot sd p + unat s < two64 \<Longrightarrow>
   sides_ok (sb_bids (SB_addLevelVolume sd p s b)) (sb_asks (SB_addLevelVolume sd p s b)) (raise tot sd p (unat s))"
  by (auto simp: SB_addLevelVolume_def hasValidSide_def sides_ok_add)

lemma SB_sides_remove:
  "sides_ok (sb_bids b) (sb_asks b) tot \<Longrightarrow> hasValidSide sd \<Longrightarrow>
   sides_ok (sb_bids (SB_removeLevelVolume sd p s b)) (sb_asks (SB_removeLevelVolume sd p s b)) (lower tot sd p (unat s))"
  by (auto simp: SB_removeLevelVolume_def hasValidSide_def sides_ok_sub)

lemma EV_book_addWithId:
  "EV_syntheticBook (EV_addSyntheticOrderWithId oid i sd p s ts v) j =
     (if j = i then SB_addLevelVolume sd p s (EV_syntheticBook v i) else EV_syntheticBook v j)"
  by (simp add: EV_syntheticBook_def EV_addSyntheticOrderWithId_def)

lemma EV_inv_addWithId [inv_intros]:
  assumes inv: "EV_inv v" and fresh: "map_of (vw_own_orders v) oid = None" "oid < vw_next_order_id v"
    and valid: "i \<noteq> 0" "hasValidSyntheticOrder sd p s"
    and room: "own_volume (own_on v i) sd p + unat s < two64"
  shows "EV_inv (EV_addSyntheticOrderWithId oid i sd p s ts v)"
proof -
  let ?v = "EV_addSyntheticOrderWithId oid i sd p s ts v"
  let ?x = "\<lparr>so_instrument_id = i, so_side = sd, so_price = p, so_size = s, so_timestamp_ns = ts\<rparr>"
  have own: "vw_own_orders ?v = vw_own_orders v @ [(oid, ?x)]"
    using fresh by (simp add: EV_addSyntheticOrderWithId_def update_fresh)
  have nx: "vw_next_order_id ?v = vw_next_order_id v" by (simp add: EV_addSyntheticOrderWithId_def)
  have tot: "own_volume (own_on ?v i) = raise (own_volume (own_on v i)) sd p (unat s)"
    by (auto simp: own side_vol_def raise_def vol_append fun_eq_iff)
  have "sides_ok (sb_bids (EV_syntheticBook ?v j)) (sb_asks (EV_syntheticBook ?v j)) (own_volume (own_on ?v j))" for j
  proof (cases "j = i")
    case True
    have "sides_ok (sb_bids (EV_syntheticBook v i)) (sb_asks (EV_syntheticBook v i)) (own_volume (own_on v i))"
      using inv unfolding EV_inv_def by blast
    from SB_sides_add [OF this _ _ room] valid show ?thesis
      unfolding True tot EV_book_addWithId by (simp add: hasValidSyntheticOrder_def)
  next
    case False
    with inv show ?thesis by (auto simp: EV_inv_def own EV_book_addWithId)
  qed
  then show ?thesis
    using inv fresh valid unfolding EV_inv_def own nx by (auto simp: map_of_eq_None_iff)
qed

lemma EV_inv_cancel [inv_intros]:
  assumes inv: "EV_inv v" shows "EV_inv (EV_cancelSyntheticOrder oid v)"
proof (cases "map_of (vw_own_orders v) oid")
  case None
  with inv show ?thesis by (simp add: EV_cancelSyntheticOrder_def)
next
  case (Some x)
  let ?v = "EV_cancelSyntheticOrder oid v" and ?i = "so_instrument_id x"
  have own: "vw_own_orders ?v = AList.delete oid (vw_own_orders v)"
    and nx: "vw_next_order_id ?v = vw_next_order_id v"
    using Some by (simp_all add: EV_cancelSyntheticOrder_def Let_def)
  have book: "EV_syntheticBook ?v j = (if j = ?i
      then SB_removeLevelVolume (so_side x) (so_price x) (so_size x) (EV_syntheticBook v ?i) else EV_syntheticBook v j)" for j
    using Some by (simp add: EV_cancelSyntheticOrder_def EV_syntheticBook_def Let_def)
  have dist: "distinct (keys (vw_own_orders v))" and x: "hasValidSide (so_side x)"
    using inv map_of_SomeD [OF Some] by (auto simp: EV_inv_def hasValidSyntheticOrder_def)
  have there: "map_of (own_on v j) oid = None" if "j \<noteq> ?i" for j
    using Some map_of_filter_key [OF dist, where P = "\<lambda>_ y. so_instrument_id y = j"] that
    by (auto simp: case_prod_beta' simp del: map_of_eq_Some_iff)
  have sides: "sides_ok (sb_bids (EV_syntheticBook v j)) (sb_asks (EV_syntheticBook v j)) (own_volume (own_on v j))" for j
    using inv unfolding EV_inv_def by blast
  have "sides_ok (sb_bids (EV_syntheticBook ?v j)) (sb_asks (EV_syntheticBook ?v j)) (own_volume (own_on ?v j))" for j
  proof (cases "j = ?i")
    case True
    have "map_of (own_on v ?i) oid = Some x"
      using Some map_of_filter_key [OF dist, where P = "\<lambda>_ y. so_instrument_id y = ?i"]
      by (simp add: case_prod_beta' del: map_of_eq_Some_iff)
    from side_vol_delete [OF distinct_keys_filter [OF dist] this] SB_sides_remove [OF sides x] show ?thesis
      unfolding True own filter_delete by (simp add: book)
  next
    case False
    with sides [of j] there [OF False] show ?thesis
      unfolding own filter_delete by (simp add: book delete_notin)
  qed
  then show ?thesis
    using inv dist unfolding EV_inv_def own nx
    by (auto simp: distinct_keys_delete dest: set_delete_subset [THEN subsetD])
qed

lemma EV_inv_consume [inv_intros]: "EV_inv v \<Longrightarrow> EV_inv (EV_consumeHistoricalLiquidity i sd p s v)"
  by (simp add: EV_inv_def EV_consumeHistoricalLiquidity_def EV_syntheticBook_def)

lemma EV_inv_reserve [inv_intros]:
  assumes inv: "EV_inv v" and room: "vw_next_order_id v \<noteq> - 1"
  shows "EV_inv (snd (EV_reserveSyntheticOrderId v))"
proof -
  have "k < vw_next_order_id v \<Longrightarrow> k < vw_next_order_id v + 1" for k
    using less_suc_u64 [OF room] by (simp add: order.strict_implies_order)
  with inv show ?thesis by (auto simp: EV_inv_def EV_reserveSyntheticOrderId_def EV_syntheticBook_def)
qed

lemma EV_add_split:
  "i \<noteq> 0 \<Longrightarrow> hasValidSyntheticOrder sd p s \<Longrightarrow>
   EV_addSyntheticOrder i sd p s ts v =
     (let (oid, v1) = EV_reserveSyntheticOrderId v in (oid, EV_addSyntheticOrderWithId oid i sd p s ts v1))"
  by (simp add: EV_addSyntheticOrder_def EV_reserveSyntheticOrderId_def EV_addSyntheticOrderWithId_def
      EV_syntheticBook_def Let_def)

lemma EV_reserve_fresh:
  "EV_inv v \<Longrightarrow> map_of (vw_own_orders v) (vw_next_order_id v) = None"
  by (auto simp: EV_inv_def map_of_eq_None_iff)

subsection \<open>Level maps stay good\<close>

lemma EV_frames [simp]:
  "EV_consumedHistoricalLiquidity (EV_addSyntheticOrderWithId oid i sd p s ts v) = EV_consumedHistoricalLiquidity v"
  "EV_consumedHistoricalLiquidity (EV_cancelSyntheticOrder oid v) = EV_consumedHistoricalLiquidity v"
  "EV_syntheticBook (EV_consumeHistoricalLiquidity i sd p s v) = EV_syntheticBook v"
  "EV_consumedHistoricalLiquidity (v\<lparr>vw_next_order_id := n\<rparr>) = EV_consumedHistoricalLiquidity v"
  "EV_syntheticBook (v\<lparr>vw_next_order_id := n\<rparr>) = EV_syntheticBook v"
  by (auto simp: fun_eq_iff EV_consumedHistoricalLiquidity_def EV_addSyntheticOrderWithId_def
      EV_cancelSyntheticOrder_def EV_syntheticBook_def EV_consumeHistoricalLiquidity_def Let_def split: option.split)

lemma EV_levels_ok_addWithId [inv_intros]:
  "EV_levels_ok v \<Longrightarrow> hasValidPrice p \<Longrightarrow> EV_levels_ok (EV_addSyntheticOrderWithId oid i sd p s ts v)"
  by (auto simp: EV_levels_ok_def EV_book_addWithId SB_addLevelVolume_def good_levels_add)

lemma EV_book_cancel:
  "EV_syntheticBook (EV_cancelSyntheticOrder oid v) j =
     (case map_of (vw_own_orders v) oid of
        None \<Rightarrow> EV_syntheticBook v j
      | Some x \<Rightarrow>
          if j = so_instrument_id x
          then SB_removeLevelVolume (so_side x) (so_price x) (so_size x) (EV_syntheticBook v j)
          else EV_syntheticBook v j)"
  by (auto simp: EV_cancelSyntheticOrder_def EV_syntheticBook_def Let_def split: option.split)

lemma EV_levels_ok_cancel [inv_intros]:
  "EV_levels_ok v \<Longrightarrow> EV_levels_ok (EV_cancelSyntheticOrder oid v)"
  by (auto simp: EV_levels_ok_def EV_book_cancel SB_removeLevelVolume_def good_levels_sub split: option.split)

lemma EV_levels_ok_next [simp]: "EV_levels_ok (v\<lparr>vw_next_order_id := n\<rparr>) = EV_levels_ok v"
  by (simp add: EV_levels_ok_def)

lemma EV_consumed_consume:
  "EV_consumedHistoricalLiquidity (EV_consumeHistoricalLiquidity i sd p s v) j =
     (if j = i \<and> i \<noteq> 0 \<and> s \<noteq> 0 then CB_consume sd p s (EV_consumedHistoricalLiquidity v i)
      else EV_consumedHistoricalLiquidity v j)"
  by (simp add: EV_consumedHistoricalLiquidity_def EV_consumeHistoricalLiquidity_def)

lemma EV_levels_ok_consume [inv_intros]:
  "EV_levels_ok v \<Longrightarrow> hasValidPrice p \<Longrightarrow> EV_levels_ok (EV_consumeHistoricalLiquidity i sd p s v)"
  by (auto simp: EV_levels_ok_def EV_consumed_consume CB_consume_def good_levels_add)

section \<open>Runs of a view\<close>

datatype view_op =
  ViewAdd instrument_id Side price quantity timestamp_ns
| ViewCancel u64
| ViewConsume instrument_id Side price quantity

fun EV_step :: "EngineView \<Rightarrow> view_op \<Rightarrow> EngineView" where
  "EV_step v (ViewAdd i sd p s ts) = snd (EV_addSyntheticOrder i sd p s ts v)"
| "EV_step v (ViewCancel oid) = EV_cancelSyntheticOrder oid v"
| "EV_step v (ViewConsume i sd p s) = EV_consumeHistoricalLiquidity i sd p s v"

fun view_cost :: "view_op \<Rightarrow> nat" where
  "view_cost (ViewAdd i sd p s ts) = unat s"
| "view_cost _ = 0"

fun EV_room :: "EngineView \<Rightarrow> view_op \<Rightarrow> bool" where
  "EV_room v (ViewAdd i sd p s ts) \<longleftrightarrow>
     (i \<noteq> 0 \<and> hasValidSyntheticOrder sd p s \<longrightarrow>
      vw_next_order_id v \<noteq> - 1 \<and> own_volume (own_on v i) sd p + unat s < two64)"
| "EV_room v _ \<longleftrightarrow> True"

definition EV_used :: "EngineView \<Rightarrow> nat" where
  "EV_used v = max (vol (\<lambda>_. True) so_size (vw_own_orders v)) (unat (vw_next_order_id v) - 1)"

lemma vol_filter_le: "vol P sz (filter Q m) \<le> vol P sz m"
  by (induction m) auto

lemma EV_reserve_sel [simp]:
  "EV_reserveSyntheticOrderId v = (vw_next_order_id v, v\<lparr>vw_next_order_id := vw_next_order_id v + 1\<rparr>)"
  by (simp add: EV_reserveSyntheticOrderId_def)

lemma EV_step_inv:
  assumes inv: "EV_inv v" and room: "EV_room v op"
  shows "EV_inv (EV_step v op)"
proof (cases op)
  case (ViewAdd i sd p s ts)
  show ?thesis
  proof (cases "i \<noteq> 0 \<and> hasValidSyntheticOrder sd p s")
    case True
    have "vw_next_order_id v \<noteq> - 1" using room ViewAdd True by simp
    from EV_inv_reserve [OF inv this] less_suc_u64 [OF this, of "vw_next_order_id v"] show ?thesis
      using ViewAdd True room EV_reserve_fresh [OF inv]
      by (auto simp: EV_add_split intro!: EV_inv_addWithId simp del: map_of_eq_None_iff)
  next
    case False
    with ViewAdd inv show ?thesis by (auto simp: EV_addSyntheticOrder_def)
  qed
qed (use inv in \<open>auto intro: inv_intros\<close>)

lemma EV_room_budget:
  assumes "EV_used v + view_cost op < two64 - 1"
  shows "EV_room v op"
proof (cases op)
  case (ViewAdd i sd p s ts)
  have le: "own_volume (own_on v i) sd p \<le> vol (\<lambda>_. True) so_size (vw_own_orders v)"
    by (rule order_trans [OF side_vol_le_total vol_filter_le])
  have "vw_next_order_id v \<noteq> - 1" if "0 < s"
  proof
    assume "vw_next_order_id v = - 1"
    then have "EV_used v \<ge> two64 - 2" by (simp add: EV_used_def unat_minus_one_u64)
    moreover have "0 < unat s" using that by (rule unat_pos_u64)
    ultimately show False using assms ViewAdd by (simp del: unat_u64_less)
  qed
  moreover have "own_volume (own_on v i) sd p + unat s < two64"
    using assms le ViewAdd by (simp add: EV_used_def del: unat_u64_less)
  ultimately show ?thesis using ViewAdd by (simp add: hasValidSyntheticOrder_def)
qed auto

lemma EV_used_step:
  assumes inv: "EV_inv v" and room: "EV_room v op"
  shows "EV_used (EV_step v op) \<le> EV_used v + view_cost op"
proof (cases op)
  case (ViewAdd i sd p s ts)
  show ?thesis
  proof (cases "i \<noteq> 0 \<and> hasValidSyntheticOrder sd p s")
    case True
    then have n: "vw_next_order_id v \<noteq> - 1" "0 < unat s"
      using room ViewAdd by (auto simp: hasValidSyntheticOrder_def intro: unat_pos_u64)
    show ?thesis
      using ViewAdd True n EV_reserve_fresh [OF inv]
      by (simp add: EV_add_split EV_used_def EV_addSyntheticOrderWithId_def update_fresh vol_append
          unat_suc_u64 del: map_of_eq_None_iff unat_u64_less)
  next
    case False
    with ViewAdd show ?thesis by (auto simp: EV_addSyntheticOrder_def)
  qed
next
  case (ViewCancel oid)
  then show ?thesis
    using vol_delete_le [of "\<lambda>_. True" so_size oid "vw_own_orders v"]
    by (auto simp: EV_used_def EV_cancelSyntheticOrder_def Let_def max_def split: option.split)
qed (simp add: EV_used_def EV_consumeHistoricalLiquidity_def)

interpretation ev: budgeted_machine EV_step EV_room EV_inv EV_used view_cost "two64 - 1"
  by unfold_locales (auto intro: EV_step_inv EV_room_budget EV_used_step)

text \<open>The simulator consumes only at prices of levels, which are defined prices.\<close>

fun view_op_ok :: "view_op \<Rightarrow> bool" where
  "view_op_ok (ViewConsume i sd p s) = hasValidPrice p"
| "view_op_ok _ = True"

lemma EV_step_levels_ok: "EV_levels_ok v \<Longrightarrow> view_op_ok op \<Longrightarrow> EV_levels_ok (EV_step v op)"
proof (cases op)
  case (ViewAdd i sd p s ts)
  assume "EV_levels_ok v"
  with ViewAdd show ?thesis
  proof (cases "i \<noteq> 0 \<and> hasValidSyntheticOrder sd p s")
    case True
    with ViewAdd \<open>EV_levels_ok v\<close> show ?thesis
      by (simp add: EV_add_split hasValidSyntheticOrder_def EV_levels_ok_addWithId)
  qed (auto simp: EV_addSyntheticOrder_def)
qed (auto intro: inv_intros)

lemma EV_run_levels_ok:
  "EV_levels_ok v \<Longrightarrow> list_all view_op_ok ops \<Longrightarrow> EV_levels_ok (foldl EV_step v ops)"
  by (induction ops arbitrary: v) (auto intro: EV_step_levels_ok)

lemma EV_used_new: "EV_used (EV_new eid) = 0"
  by (simp add: EV_used_def EV_new_def)

lemma EV_run_inv: "sum_list (map view_cost ops) < two64 - 1 \<Longrightarrow> EV_inv (foldl EV_step (EV_new eid) ops)"
  by (rule ev.budget_run_inv [OF EV_inv_new]) (simp add: EV_used_new)

lemma EV_run_used:
  "sum_list (map view_cost ops) < two64 - 1 \<Longrightarrow>
   EV_used (foldl EV_step (EV_new eid) ops) \<le> sum_list (map view_cost ops)"
  using ev.budget_used [OF EV_inv_new, of eid ops] by (simp add: EV_used_new)

definition resting_volume :: "EngineView \<Rightarrow> instrument_id \<Rightarrow> Side \<Rightarrow> price \<Rightarrow> nat" where
  "resting_volume v i sd p =
     (\<Sum>(k, x)\<leftarrow>vw_own_orders v.
        if so_instrument_id x = i \<and> so_side x = sd \<and> so_price x = p then unat (so_size x) else 0)"

lemma resting_volume_own: "own_volume (own_on v i) sd p = resting_volume v i sd p"
proof -
  have "vol (\<lambda>x. so_side x = sd \<and> so_price x = p) so_size (filter (\<lambda>e. so_instrument_id (snd e) = i) m) =
      (\<Sum>(k, x)\<leftarrow>m. if so_instrument_id x = i \<and> so_side x = sd \<and> so_price x = p then unat (so_size x) else 0)" for m
    by (induction m) auto
  then show ?thesis by (simp add: side_vol_def resting_volume_def)
qed

section \<open>The best level of a represented side\<close>

definition best_of :: "levels \<Rightarrow> BookLevel option" where
  "best_of ls = (case ls of [] \<Rightarrow> None | l # _ \<Rightarrow> Some (toBookLevel l))"

lemma best_bid_of_represents:
  assumes "sorted_levels (>) m" "represents m f"
  shows "best_of m = (if \<forall>p. f p = 0 then None
     else Some \<lparr>bl_price = Max {p. 0 < f p}, bl_size = of_nat (f (Max {p. 0 < f p}))\<rparr>)"
proof (cases m)
  case (Cons l ls)
  then have l: "0 < f (fst l)" "unat (snd l) = f (fst l)" "\<forall>p. 0 < f p \<longrightarrow> p = fst l \<or> p < fst l"
    using desc.best_of_represents(2) [OF assms, of "fst l" "snd l" ls] by auto
  have "p \<le> fst l" if "0 < f p" for p using l(3) that by (auto simp: order_le_less)
  with l have "Max {p. 0 < f p} = fst l" by (auto intro!: Max_eqI)
  with l Cons show ?thesis by (auto simp: best_of_def toBookLevel_def dest: of_nat_volume)
qed (use assms in \<open>simp add: best_of_def\<close>)

lemma best_ask_of_represents:
  assumes "sorted_levels (<) m" "represents m f"
  shows "best_of m = (if \<forall>p. f p = 0 then None
     else Some \<lparr>bl_price = Min {p. 0 < f p}, bl_size = of_nat (f (Min {p. 0 < f p}))\<rparr>)"
proof (cases m)
  case (Cons l ls)
  then have l: "0 < f (fst l)" "unat (snd l) = f (fst l)" "\<forall>p. 0 < f p \<longrightarrow> p = fst l \<or> fst l < p"
    using asc.best_of_represents(2) [OF assms, of "fst l" "snd l" ls] by auto
  have "fst l \<le> p" if "0 < f p" for p using l(3) that by (auto simp: order_le_less)
  with l have "Min {p. 0 < f p} = fst l" by (auto intro!: Min_eqI)
  with l Cons show ?thesis by (auto simp: best_of_def toBookLevel_def dest: of_nat_volume)
qed (use assms in \<open>simp add: best_of_def\<close>)

text \<open>A sorted map that represents a function lists its positive prices in order, each with its value.\<close>

lemma represented_entries:
  assumes "distinct (keys m)" "represents m f"
  shows "m = map (\<lambda>p. (p, of_nat (f p))) (keys m)" and "set (keys m) = {p. 0 < f p}"
proof -
  have rep: "map_of m p = (if f p = 0 then None else Some (of_nat (f p)))" for p
    using assms(2) by (simp add: represents_def)
  have "snd e = of_nat (f (fst e))" if "e \<in> set m" for e
    using rep [of "fst e"] that assms(1) by (cases e) (auto split: if_splits)
  then show "m = map (\<lambda>p. (p, of_nat (f p))) (keys m)"
    by (intro nth_equalityI) (simp_all add: prod_eq_iff)
  show "set (keys m) = {p. 0 < f p}"
    using rep by (auto simp: set_eq_iff simp del: map_of_eq_Some_iff) (metis domI dom_map_of_conv_image_fst domIff image_eqI fst_conv neq0_conv)+
qed

lemma all_asks_of_represents:
  fixes m :: levels
  assumes "sorted_levels (<) m" "represents m f"
  shows "m = map (\<lambda>p. (p, of_nat (f p))) (sorted_list_of_set {p. 0 < f p})"
proof -
  have d: "distinct (keys m)" using assms(1) by (rule asc.sorted_distinct)
  have "sorted_list_of_set (set (keys m)) = keys m"
    using assms(1) d by (intro sorted_list_of_set.idem_if_sorted_distinct) (auto simp: strict_sorted_iff)
  with represented_entries [OF d assms(2)] show ?thesis by simp
qed

lemma all_bids_of_represents:
  fixes m :: levels
  assumes "sorted_levels (>) m" "represents m f"
  shows "m = map (\<lambda>p. (p, of_nat (f p))) (rev (sorted_list_of_set {p. 0 < f p}))"
proof -
  have d: "distinct (keys m)" using assms(1) by (rule desc.sorted_distinct)
  have "sorted_wrt (<) (rev (keys m))" using assms(1) by (simp add: sorted_wrt_rev)
  then have "sorted_list_of_set (set (rev (keys m))) = rev (keys m)"
    using d by (intro sorted_list_of_set.idem_if_sorted_distinct) (auto simp: strict_sorted_iff)
  with represented_entries [OF d assms(2)] show ?thesis by simp
qed

lemma best_level_Some:
  "x = (if \<forall>p. f p = (0 :: nat) then None else Some \<lparr>bl_price = q, bl_size = n\<rparr>) \<Longrightarrow>
   x = Some \<lparr>bl_price = q', bl_size = n'\<rparr> \<Longrightarrow> \<not> (\<forall>p. f p = 0) \<and> q = q'"
  by (simp split: if_splits)

section \<open>Properties\<close>

text \<open>
  C9: The synthetic book of an engine shows exactly its own orders. After any sequence of order
  additions and cancellations (and consumption of historical liquidity) whose total size fits in
  64 bits, the volume of the synthetic book at every price is the sum of the sizes of the
  engine's resting orders there, and both sides are sorted best price first.
\<close>

theorem EV_synthetic_exact:
  assumes "sum_list (map view_cost ops) < two64 - 1"
  shows "let v = foldl EV_step (EV_new eid) ops; b = EV_syntheticBook v i
         in (\<forall>p. unat (om_at (sb_bids b) p) = resting_volume v i Bid p \<and>
                 unat (om_at (sb_asks b) p) = resting_volume v i Ask p) \<and>
            sorted_levels (>) (sb_bids b) \<and> sorted_levels (<) (sb_asks b)"
proof -
  let ?v = "foldl EV_step (EV_new eid) ops"
  have "sides_ok (sb_bids (EV_syntheticBook ?v i)) (sb_asks (EV_syntheticBook ?v i)) (own_volume (own_on ?v i))"
    using EV_run_inv [OF assms] unfolding EV_inv_def by blast
  then show ?thesis
    by (auto simp: Let_def sides_ok_def resting_volume_own dest: represents_at)
qed

definition demo_view_ops :: "view_op list" where
  "demo_view_ops =
     [ViewAdd 7 Bid (i64 99) 5 (i64 0), ViewAdd 7 Bid (i64 99) 4 (i64 1), ViewAdd 8 Ask (i64 120) 2 (i64 2),
      ViewCancel 1, ViewConsume 7 Ask (i64 104) 9]"

lemma demo_view_ops_budget: "sum_list (map view_cost demo_view_ops) < two64 - 1"
  by (simp add: demo_view_ops_def two64_def)

theorem EV_synthetic_exact_witness:
  "sum_list (map view_cost demo_view_ops) < two64 - 1 \<and>
   unat (om_at (sb_bids (EV_syntheticBook (foldl EV_step (EV_new 1) demo_view_ops) 7)) (i64 99)) =
     resting_volume (foldl EV_step (EV_new 1) demo_view_ops) 7 Bid (i64 99) \<and>
   om_at (sb_bids (EV_syntheticBook (foldl EV_step (EV_new 1) demo_view_ops) 7)) (i64 99) = 4"
proof -
  have "om_at (sb_bids (EV_syntheticBook (foldl EV_step (EV_new 1) demo_view_ops) 7)) (i64 99) = 4"
    by code_simp
  moreover note EV_synthetic_exact [OF demo_view_ops_budget, of 1 7, unfolded Let_def]
  ultimately show ?thesis using demo_view_ops_budget by blast
qed

lemma HLS_run_ok: "HLS_ok (foldl HLS_apply [] es)"
  by (induction es rule: rev_induct) (simp_all add: HLS_ok_new HLS_ok_apply)

lemma since_reset_cost:
  "sum_list (map f (since_reset acc es)) \<le> sum_list (map f acc) + sum_list (map (f :: _ \<Rightarrow> nat) es)"
  by (induction acc es rule: since_reset.induct) (auto simp: algebra_simps intro: order_trans)

lemma filter_cost: "sum_list (map f (filter P es)) \<le> sum_list (map (f :: _ \<Rightarrow> nat) es)"
  by (induction es) auto

text \<open>No level of the store exceeds the volume the events added.\<close>

lemma HLS_level_bound:
  assumes "i \<noteq> 0" "sum_list (map added_volume es) < two64"
  shows "unat (om_at (hl_bids (HLS_at (foldl HLS_apply [] es) i)) p) \<le> sum_list (map added_volume es)"
    "unat (om_at (hl_asks (HLS_at (foldl HLS_apply [] es) i)) p) \<le> sum_list (map added_volume es)"
proof -
  let ?es = "filter (\<lambda>e. ev_instrument_id e = i) (since_reset [] es)"
  let ?b = "foldl HLOB_apply HLOB_new ?es"
  have at: "HLS_at (foldl HLS_apply [] es) i = ?b"
    using HLS_run_book [OF assms(1), of es] by (simp add: HLS_at_def HLS_bookSnapshot_def)
  have le: "sum_list (map added_volume ?es) \<le> sum_list (map added_volume es)"
    using order_trans [OF filter_cost since_reset_cost, of added_volume _ "[]" es] by simp
  with assms(2) have fits: "sum_list (map added_volume ?es) < two64" by simp
  then have inv: "HLOB_inv ?b" by (rule HLOB_run_inv)
  have "book_used (HLOB_book ?b) \<le> sum_list (map added_volume ?es)"
    using hlob.budget_used [OF HLOB_inv_new, of ?es] fits by (simp add: HLOB_book_def HLOB_new_def LOB_new_def)
  then have tot: "LOB_total (HLOB_book ?b) sd p \<le> sum_list (map added_volume es)" for sd
    using le side_vol_le_total [of ro_side ro_price ro_size "lb_orders (HLOB_book ?b)" sd p] by simp
  have "unat (om_at (hl_bids ?b) p) = LOB_total (HLOB_book ?b) Bid p"
    "unat (om_at (hl_asks ?b) p) = LOB_total (HLOB_book ?b) Ask p"
    using inv by (auto simp: LOB_inv_def sides_ok_def dest: represents_at)
  then show "unat (om_at (hl_bids (HLS_at (foldl HLS_apply [] es) i)) p) \<le> sum_list (map added_volume es)"
    "unat (om_at (hl_asks (HLS_at (foldl HLS_apply [] es) i)) p) \<le> sum_list (map added_volume es)"
    unfolding at using tot by simp_all
qed

lemma EV_level_bound:
  assumes "sum_list (map view_cost ops) < two64 - 1"
  shows "unat (om_at (sb_bids (EV_syntheticBook (foldl EV_step (EV_new eid) ops) i)) p) \<le> sum_list (map view_cost ops)"
    "unat (om_at (sb_asks (EV_syntheticBook (foldl EV_step (EV_new eid) ops) i)) p) \<le> sum_list (map view_cost ops)"
proof -
  let ?v = "foldl EV_step (EV_new eid) ops"
  have "own_volume (own_on ?v i) sd p \<le> vol (\<lambda>_. True) so_size (vw_own_orders ?v)" for sd
    by (rule order_trans [OF side_vol_le_total vol_filter_le])
  then have "own_volume (own_on ?v i) sd p \<le> EV_used ?v" for sd
    by (simp add: EV_used_def le_max_iff_disj)
  then have tot: "own_volume (own_on ?v i) sd p \<le> sum_list (map view_cost ops)" for sd
    using EV_run_used [OF assms, of eid] by (meson order_trans)
  have "sides_ok (sb_bids (EV_syntheticBook ?v i)) (sb_asks (EV_syntheticBook ?v i)) (own_volume (own_on ?v i))"
    using EV_run_inv [OF assms] unfolding EV_inv_def by blast
  then have "unat (om_at (sb_bids (EV_syntheticBook ?v i)) p) = own_volume (own_on ?v i) Bid p"
    "unat (om_at (sb_asks (EV_syntheticBook ?v i)) p) = own_volume (own_on ?v i) Ask p"
    by (auto simp: sides_ok_def intro: represents_at)
  then show "unat (om_at (sb_bids (EV_syntheticBook ?v i)) p) \<le> sum_list (map view_cost ops)"
    "unat (om_at (sb_asks (EV_syntheticBook ?v i)) p) \<le> sum_list (map view_cost ops)"
    using tot by simp_all
qed

text \<open>
  C10: What an engine sees. For a store built from any events and a view built by any operations
  whose total volume fits in 64 bits, the simulated book has at every price the historical
  volume, less what this engine has consumed (never below zero), plus its own resting volume;
  the best bid is the highest price where this is positive, the best ask the lowest, each with
  that volume, and the snapshot of any depth lists the first so many of the prices where it is
  positive, from the best one, each with that volume.
\<close>

theorem SIM_sees_merged_book:
  assumes "i \<noteq> 0" and "list_all view_op_ok ops"
    and "sum_list (map added_volume es) + sum_list (map view_cost ops) < two64 - 1"
  shows "let books = foldl HLS_apply [] es; v = foldl EV_step (EV_new eid) ops;
             c = EV_consumedHistoricalLiquidity v i; s = EV_syntheticBook v i;
             bid = visible_volume (hl_bids (HLS_at books i)) (cb_bids c) (sb_bids s);
             ask = visible_volume (hl_asks (HLS_at books i)) (cb_asks c) (sb_asks s)
         in SIM_bestBid (Store books) v i = (if \<forall>p. bid p = 0 then None
              else Some \<lparr>bl_price = Max {p. 0 < bid p}, bl_size = of_nat (bid (Max {p. 0 < bid p}))\<rparr>) \<and>
            SIM_bestAsk (Store books) v i = (if \<forall>p. ask p = 0 then None
              else Some \<lparr>bl_price = Min {p. 0 < ask p}, bl_size = of_nat (ask (Min {p. 0 < ask p}))\<rparr>) \<and>
            SIM_snapshot (Store books) v i depth =
              \<lparr>ls_instrument_id = i,
               ls_bids = take (unat depth) (map (\<lambda>p. \<lparr>bl_price = p, bl_size = of_nat (bid p)\<rparr>)
                 (rev (sorted_list_of_set {p. 0 < bid p}))),
               ls_asks = take (unat depth) (map (\<lambda>p. \<lparr>bl_price = p, bl_size = of_nat (ask p)\<rparr>)
                 (sorted_list_of_set {p. 0 < ask p}))\<rparr>"
proof -
  let ?src = "Store (foldl HLS_apply [] es)" and ?v = "foldl EV_step (EV_new eid) ops"
  have src: "source_ok ?src" by (simp add: HLS_run_ok)
  have v: "EV_levels_ok ?v" by (rule EV_run_levels_ok [OF EV_levels_ok_new assms(2)])
  have b: "sum_list (map added_volume es) < two64" "sum_list (map view_cost ops) < two64 - 1"
    using assms(3) by auto
  have fits: "visible_volume (source_bids ?src i) (cb_bids (EV_consumedHistoricalLiquidity ?v i))
        (sb_bids (EV_syntheticBook ?v i)) p < two64"
      "visible_volume (source_asks ?src i) (cb_asks (EV_consumedHistoricalLiquidity ?v i))
        (sb_asks (EV_syntheticBook ?v i)) p < two64" for p
    using HLS_level_bound [OF assms(1) b(1), of p] EV_level_bound [OF b(2), of eid i p] assms(3)
    by (auto simp: visible_volume_def simp del: unat_u64_less)
  note bids = visibleBids_represents [OF src v fits(1)] and asks = visibleAsks_represents [OF src v fits(2)]
  have "SIM_snapshot ?src ?v i depth =
      \<lparr>ls_instrument_id = i,
       ls_bids = take (unat depth) (map toBookLevel (visibleBids (historicalSnapshot ?src i) ?v i)),
       ls_asks = take (unat depth) (map toBookLevel (visibleAsks (historicalSnapshot ?src i) ?v i))\<rparr>"
    by (simp add: SIM_snapshot_def topLevels_def copyLevels_take take_map Let_def)
  then show ?thesis
    using best_bid_of_represents [OF bids] best_ask_of_represents [OF asks]
      arg_cong [OF all_bids_of_represents [OF bids], of "map toBookLevel"]
      arg_cong [OF all_asks_of_represents [OF asks], of "map toBookLevel"]
    by (simp add: Let_def SIM_bestBid_def SIM_bestAsk_def best_of_def toBookLevel_def comp_def)
qed

theorem SIM_sees_merged_book_witness:
  "list_all view_op_ok demo_view_ops \<and>
   sum_list (map added_volume demo_events) + sum_list (map view_cost demo_view_ops) < two64 - 1 \<and>
   (let books = foldl HLS_apply [] demo_events; v = foldl EV_step (EV_new 1) demo_view_ops;
        ask = visible_volume (hl_asks (HLS_at books 7)) (cb_asks (EV_consumedHistoricalLiquidity v 7))
          (sb_asks (EV_syntheticBook v 7))
    in \<not> (\<forall>p. ask p = 0) \<and> Min {p. 0 < ask p} = i64 105 \<and>
       SIM_bestAsk (Store books) v 7 = Some \<lparr>bl_price = i64 105, bl_size = 4\<rparr>)"
proof -
  have ok: "list_all view_op_ok demo_view_ops" by code_simp
  have fits: "sum_list (map added_volume demo_events) + sum_list (map view_cost demo_view_ops) < two64 - 1"
    by (simp add: demo_events_def demo_view_ops_def added_volume_def event_def default_event_def two64_def)
  have best: "SIM_bestAsk (Store (foldl HLS_apply [] demo_events)) (foldl EV_step (EV_new 1) demo_view_ops) 7 =
      Some \<lparr>bl_price = i64 105, bl_size = 4\<rparr>" by code_simp
  have "(7 :: u64) \<noteq> 0" by simp
  note best_level_Some [OF SIM_sees_merged_book [OF this ok fits, of 1, unfolded Let_def, THEN conjunct2, THEN conjunct1] best]
  with ok fits best show ?thesis unfolding Let_def by blast
qed

end
