(* ===== verification/FillSimulator.thy ===== *)
theory FillSimulator
  imports EngineView
begin

text \<open>
  \<^verbatim>\<open>src/lob/FillSimulator.{hpp,cpp}\<close>: a limit order of an engine is matched against the
  historical liquidity the engine has not consumed yet, best price first, and the rest becomes a
  synthetic order. The matching loop of the source recomputes the visible book in every round;
  it is proved equal to one sweep over the levels that were visible at the start. The historical
  source does not change during a call.
\<close>

section \<open>Data\<close>

record SimulatedOrderRequest =
  rq_engine_id :: u64
  rq_instrument_id :: instrument_id
  rq_side :: Side
  rq_limit_price :: price
  rq_size :: quantity
  rq_timestamp_ns :: timestamp_ns

record SimulatedFill =
  sf_engine_id :: u64
  sf_instrument_id :: instrument_id
  sf_order_id :: u64
  sf_side :: Side
  sf_price :: price
  sf_size :: quantity
  sf_timestamp_ns :: timestamp_ns

record SimulatedOrderResult =
  sr_synthetic_order_id :: u64
  sr_requested_size :: quantity
  sr_filled_size :: quantity
  sr_remaining_size :: quantity
  sr_fills :: "SimulatedFill list"

type_synonym EngineViews = "(u64, EngineView) umap"

section \<open>Operations\<close>

definition hasValidRequest :: "SimulatedOrderRequest \<Rightarrow> bool" where
  "hasValidRequest rq \<longleftrightarrow>
     rq_instrument_id rq \<noteq> 0 \<and> hasValidSide (rq_side rq) \<and> hasValidPrice (rq_limit_price rq) \<and> 0 < rq_size rq"

definition visibleHistoricalBids :: "LobSnapshot \<Rightarrow> EngineView \<Rightarrow> instrument_id \<Rightarrow> levels" where
  "visibleHistoricalBids historical_snapshot view i =
     (let ls0 = (if ls_instrument_id historical_snapshot = i
                 then foldl (addLevel (>)) [] (ls_bids historical_snapshot) else []);
          consumed = EV_consumedHistoricalLiquidity view i
      in foldl (removeLevel (>)) ls0 (CB_bids consumed (CB_bidLevelCount consumed)))"

definition visibleHistoricalAsks :: "LobSnapshot \<Rightarrow> EngineView \<Rightarrow> instrument_id \<Rightarrow> levels" where
  "visibleHistoricalAsks historical_snapshot view i =
     (let ls0 = (if ls_instrument_id historical_snapshot = i
                 then foldl (addLevel (<)) [] (ls_asks historical_snapshot) else []);
          consumed = EV_consumedHistoricalLiquidity view i
      in foldl (removeLevel (<)) ls0 (CB_asks consumed (CB_askLevelCount consumed)))"

definition visibleHistoricalBestBid :: "LobSnapshot \<Rightarrow> EngineView \<Rightarrow> instrument_id \<Rightarrow> BookLevel option" where
  "visibleHistoricalBestBid snap view i =
     (case visibleHistoricalBids snap view i of [] \<Rightarrow> None | l # _ \<Rightarrow> Some (toBookLevel l))"

definition visibleHistoricalBestAsk :: "LobSnapshot \<Rightarrow> EngineView \<Rightarrow> instrument_id \<Rightarrow> BookLevel option" where
  "visibleHistoricalBestAsk snap view i =
     (case visibleHistoricalAsks snap view i of [] \<Rightarrow> None | l # _ \<Rightarrow> Some (toBookLevel l))"

definition makeFill :: "SimulatedOrderRequest \<Rightarrow> u64 \<Rightarrow> price \<Rightarrow> quantity \<Rightarrow> SimulatedFill" where
  "makeFill rq oid p s =
     \<lparr>sf_engine_id = rq_engine_id rq, sf_instrument_id = rq_instrument_id rq, sf_order_id = oid,
      sf_side = rq_side rq, sf_price = p, sf_size = s, sf_timestamp_ns = rq_timestamp_ns rq\<rparr>"

text \<open>
  The \<^verbatim>\<open>while (remaining > 0)\<close> loop. Its state is the engine's view, the fills so far, the
  filled size and the remaining size. That it ends is proved below, not assumed.
\<close>

partial_function (option) FS_fillLoop ::
  "HistoricalSource \<Rightarrow> SimulatedOrderRequest \<Rightarrow> u64 \<Rightarrow> EngineView \<Rightarrow> SimulatedFill list \<Rightarrow> u64 \<Rightarrow> u64 \<Rightarrow>
   (EngineView \<times> SimulatedFill list \<times> u64 \<times> u64) option" where
  "FS_fillLoop src rq oid view fills filled remaining =
     (if \<not> 0 < remaining then Some (view, fills, filled, remaining)
      else if rq_side rq = Bid then
        (case visibleHistoricalBestAsk (historicalSnapshot src (rq_instrument_id rq)) view (rq_instrument_id rq) of
           None \<Rightarrow> Some (view, fills, filled, remaining)
         | Some best_ask \<Rightarrow>
             if rq_limit_price rq < bl_price best_ask then Some (view, fills, filled, remaining)
             else
               let fill_size = min remaining (bl_size best_ask)
               in FS_fillLoop src rq oid
                    (EV_consumeHistoricalLiquidity (rq_instrument_id rq) Ask (bl_price best_ask) fill_size view)
                    (fills @ [makeFill rq oid (bl_price best_ask) fill_size])
                    (filled + fill_size) (remaining - fill_size))
      else
        (case visibleHistoricalBestBid (historicalSnapshot src (rq_instrument_id rq)) view (rq_instrument_id rq) of
           None \<Rightarrow> Some (view, fills, filled, remaining)
         | Some best_bid \<Rightarrow>
             if bl_price best_bid < rq_limit_price rq then Some (view, fills, filled, remaining)
             else
               let fill_size = min remaining (bl_size best_bid)
               in FS_fillLoop src rq oid
                    (EV_consumeHistoricalLiquidity (rq_instrument_id rq) Bid (bl_price best_bid) fill_size view)
                    (fills @ [makeFill rq oid (bl_price best_bid) fill_size])
                    (filled + fill_size) (remaining - fill_size)))"

declare FS_fillLoop.simps [code]

definition FS_submitLimitOrderResult ::
  "HistoricalSource \<Rightarrow> EngineViews \<Rightarrow> SimulatedOrderRequest \<Rightarrow> (SimulatedOrderResult \<times> EngineViews) option" where
  "FS_submitLimitOrderResult src views rq =
     (let result = \<lparr>sr_synthetic_order_id = 0, sr_requested_size = rq_size rq, sr_filled_size = 0,
                    sr_remaining_size = 0, sr_fills = []\<rparr>
      in if \<not> hasValidRequest rq then Some (result, views)
         else case map_of views (rq_engine_id rq) of
           None \<Rightarrow> Some (result, views)
         | Some view \<Rightarrow>
             (let (oid, view1) = EV_reserveSyntheticOrderId view
              in case FS_fillLoop src rq oid view1 [] 0 (rq_size rq) of
                   None \<Rightarrow> None
                 | Some (view2, fills, filled, remaining) \<Rightarrow>
                     let view3 = (if 0 < remaining
                           then EV_addSyntheticOrderWithId oid (rq_instrument_id rq) (rq_side rq)
                                  (rq_limit_price rq) remaining (rq_timestamp_ns rq) view2
                           else view2)
                     in Some (result\<lparr>sr_synthetic_order_id := oid, sr_filled_size := filled,
                                     sr_remaining_size := remaining, sr_fills := fills\<rparr>,
                              AList.update (rq_engine_id rq) view3 views)))"

definition FS_submitLimitOrder ::
  "HistoricalSource \<Rightarrow> EngineViews \<Rightarrow> SimulatedOrderRequest \<Rightarrow> (SimulatedFill list \<times> EngineViews) option" where
  "FS_submitLimitOrder src views rq =
     map_option (\<lambda>(result, views'). (sr_fills result, views')) (FS_submitLimitOrderResult src views rq)"

section \<open>The reference: one sweep over the visible levels\<close>

fun sweep :: "(price \<Rightarrow> bool) \<Rightarrow> levels \<Rightarrow> u64 \<Rightarrow> (price \<times> u64) list \<times> u64" where
  "sweep ok [] r = ([], r)"
| "sweep ok ((p, s) # ls) r =
     (if r = 0 \<or> \<not> ok p then ([], r)
      else let f = min r s; (fs, r') = sweep ok ls (r - f) in ((p, f) # fs, r'))"

lemma sweep_zero [simp]: "sweep ok ls 0 = ([], 0)"
  by (cases ls) auto

lemma sweep_conserves:
  "sweep ok ls r = (fs, r') \<Longrightarrow> r' \<le> r \<and> unat r = sum_list (map (unat \<circ> snd) fs) + unat r'"
proof (induction ok ls r arbitrary: fs r' rule: sweep.induct)
  case (2 ok p s ls r)
  show ?case
  proof (cases "r = 0 \<or> \<not> ok p")
    case False
    define f where "f = min r s"
    obtain fs1 where fs1: "sweep ok ls (r - f) = (fs1, r')" "fs = (p, f) # fs1"
      using 2(2) False by (auto simp: f_def Let_def split: prod.splits)
    have "f \<le> r" by (simp add: f_def)
    then have "unat (r - f) = unat r - unat f" "unat f \<le> unat r"
      by (simp_all add: unat_diff_u64 word_le_nat_alt)
    with 2(1) [OF False f_def fs1(1)] fs1 show ?thesis by (auto simp: word_le_nat_alt)
  qed (use 2 in auto)
qed auto

lemma sweep_fills:
  "sweep ok ls r = (fs, r') \<Longrightarrow> \<forall>l \<in> set ls. 0 < snd l \<Longrightarrow>
   (\<forall>(p, f) \<in> set fs. ok p \<and> 0 < f \<and> (\<exists>s. (p, s) \<in> set ls \<and> f \<le> s)) \<and>
   map fst fs = take (length fs) (map fst ls)"
proof (induction ok ls r arbitrary: fs r' rule: sweep.induct)
  case (2 ok p s ls r)
  show ?case
  proof (cases "r = 0 \<or> \<not> ok p")
    case False
    define f where "f = min r s"
    obtain fs1 where fs1: "sweep ok ls (r - f) = (fs1, r')" "fs = (p, f) # fs1"
      using 2(2) False by (auto simp: f_def Let_def split: prod.splits)
    have "0 < f" "f \<le> s" using False 2(3) by (auto simp: f_def min_def u64_pos_iff)
    with 2(1) [OF False f_def fs1(1)] 2(3) fs1 False show ?thesis by fastforce
  qed (use 2 in auto)
qed auto

text \<open>What is left over found no acceptable price: the sweep stopped at the first level it could not take.\<close>

lemma sweep_rest:
  assumes "sweep ok ls r = (fs, r')" "0 < r'" "\<forall>l \<in> set ls. 0 < snd l"
  shows "(\<forall>(p, f) \<in> set fs. (p, f) \<in> set ls) \<and>
         (case drop (length fs) ls of [] \<Rightarrow> True | l # _ \<Rightarrow> \<not> ok (fst l))"
  using assms
proof (induction ok ls r arbitrary: fs r' rule: sweep.induct)
  case (2 ok p s ls r)
  show ?case
  proof (cases "r = 0 \<or> \<not> ok p")
    case False
    define f where "f = min r s"
    obtain fs1 where fs1: "sweep ok ls (r - f) = (fs1, r')" "fs = (p, f) # fs1"
      using 2(2) False by (auto simp: f_def Let_def split: prod.splits)
    have "f = s"
    proof (rule ccontr)
      assume "f \<noteq> s"
      then have "r - f = 0" by (auto simp: f_def min_def)
      with fs1(1) 2(3) show False by simp
    qed
    with 2(1) [OF False f_def fs1(1)] 2(3,4) fs1 show ?thesis by auto
  qed (use 2 in auto)
qed auto

section \<open>The visible historical liquidity\<close>

lemma visible_fits: "visible_volume hist consumed [] p < two64"
  by (simp add: visible_volume_def om_at_def [of "[]"] less_imp_diff_less)

lemma visibleHistoricalBids_represents:
  assumes src: "source_ok src" and v: "EV_levels_ok v"
  shows "sorted_levels (>) (visibleHistoricalBids (historicalSnapshot src i) v i)"
    and "represents (visibleHistoricalBids (historicalSnapshot src i) v i)
       (visible_volume (source_bids src i) (cb_bids (EV_consumedHistoricalLiquidity v i)) [])"
proof -
  let ?h = "source_bids src i" and ?c = "cb_bids (EV_consumedHistoricalLiquidity v i)"
  have good: "good_levels (>) ?h" "good_levels (>) ?c"
    using v source_ok_levels [OF src] by (auto simp: EV_levels_ok_def)
  have vis: "visibleHistoricalBids (historicalSnapshot src i) v i =
      foldl (removeLevel (>)) (foldl (addLevel (>)) [] (map toBookLevel ?h)) (map toBookLevel ?c)"
    using good by (simp add: visibleHistoricalBids_def Let_def historicalSnapshot_levels [OF src] CB_bids_def
        CB_bidLevelCount_def good_levels_copy)
  show "sorted_levels (>) (visibleHistoricalBids (historicalSnapshot src i) v i)"
    unfolding vis by (intro sorted_addLevels sorted_removeLevels) simp
  show "represents (visibleHistoricalBids (historicalSnapshot src i) v i) (visible_volume ?h ?c [])"
    using represents_visible [of ?h ?c "[]" "(>)"] good visible_fits
    unfolding vis by (auto dest: good_levels_distinct)
qed

lemma visibleHistoricalAsks_represents:
  assumes src: "source_ok src" and v: "EV_levels_ok v"
  shows "sorted_levels (<) (visibleHistoricalAsks (historicalSnapshot src i) v i)"
    and "represents (visibleHistoricalAsks (historicalSnapshot src i) v i)
       (visible_volume (source_asks src i) (cb_asks (EV_consumedHistoricalLiquidity v i)) [])"
proof -
  let ?h = "source_asks src i" and ?c = "cb_asks (EV_consumedHistoricalLiquidity v i)"
  have good: "good_levels (<) ?h" "good_levels (<) ?c"
    using v source_ok_levels [OF src] by (auto simp: EV_levels_ok_def)
  have vis: "visibleHistoricalAsks (historicalSnapshot src i) v i =
      foldl (removeLevel (<)) (foldl (addLevel (<)) [] (map toBookLevel ?h)) (map toBookLevel ?c)"
    using good by (simp add: visibleHistoricalAsks_def Let_def historicalSnapshot_levels [OF src] CB_asks_def
        CB_askLevelCount_def good_levels_copy)
  show "sorted_levels (<) (visibleHistoricalAsks (historicalSnapshot src i) v i)"
    unfolding vis by (intro sorted_addLevels sorted_removeLevels) simp
  show "represents (visibleHistoricalAsks (historicalSnapshot src i) v i) (visible_volume ?h ?c [])"
    using represents_visible [of ?h ?c "[]" "(<)"] good visible_fits
    unfolding vis by (auto dest: good_levels_distinct)
qed

text \<open>The levels on the other side of a request and the prices it accepts.\<close>

definition opposite_levels :: "HistoricalSource \<Rightarrow> SimulatedOrderRequest \<Rightarrow> EngineView \<Rightarrow> levels" where
  "opposite_levels src rq v =
     (let i = rq_instrument_id rq; snap = historicalSnapshot src i
      in if rq_side rq = Bid then visibleHistoricalAsks snap v i else visibleHistoricalBids snap v i)"

definition accepts :: "SimulatedOrderRequest \<Rightarrow> price \<Rightarrow> bool" where
  "accepts rq p \<longleftrightarrow> (if rq_side rq = Bid then p \<le> rq_limit_price rq else rq_limit_price rq \<le> p)"

definition opposite :: "SimulatedOrderRequest \<Rightarrow> Side" where
  "opposite rq = (if rq_side rq = Bid then Ask else Bid)"

text \<open>The volume at a price that an engine can still take from the other side.\<close>

definition available :: "HistoricalSource \<Rightarrow> SimulatedOrderRequest \<Rightarrow> EngineView \<Rightarrow> price \<Rightarrow> nat" where
  "available src rq v =
     (let i = rq_instrument_id rq; c = EV_consumedHistoricalLiquidity v i
      in if rq_side rq = Bid then visible_volume (source_asks src i) (cb_asks c) []
         else visible_volume (source_bids src i) (cb_bids c) [])"

lemma opposite_represents:
  assumes "source_ok src" "EV_levels_ok v"
  shows "represents (opposite_levels src rq v) (available src rq v)"
    and "sorted_levels (if rq_side rq = Bid then (<) else (>)) (opposite_levels src rq v)"
  using visibleHistoricalAsks_represents [OF assms, of "rq_instrument_id rq"]
    visibleHistoricalBids_represents [OF assms, of "rq_instrument_id rq"]
  by (auto simp: opposite_levels_def available_def Let_def)

lemma FS_fillLoop_unfold:
  "FS_fillLoop src rq oid v fills filled r =
     (if r = 0 then Some (v, fills, filled, r)
      else case opposite_levels src rq v of
        [] \<Rightarrow> Some (v, fills, filled, r)
      | (p, s) # _ \<Rightarrow>
          if \<not> accepts rq p then Some (v, fills, filled, r)
          else FS_fillLoop src rq oid
                 (EV_consumeHistoricalLiquidity (rq_instrument_id rq) (opposite rq) p (min r s) v)
                 (fills @ [makeFill rq oid p (min r s)]) (filled + min r s) (r - min r s))"
  by (subst FS_fillLoop.simps)
    (auto simp: opposite_def opposite_levels_def accepts_def visibleHistoricalBestAsk_def visibleHistoricalBestBid_def
      toBookLevel_def Let_def u64_pos_iff not_less split: list.split)

text \<open>Taking \<open>f\<close> at the best price lowers the available volume there by \<open>f\<close>.\<close>

lemma available_consume:
  assumes "rq_instrument_id rq \<noteq> 0" "unat f \<le> available src rq v p"
  shows "available src rq (EV_consumeHistoricalLiquidity (rq_instrument_id rq) (opposite rq) p f v) =
     (available src rq v)(p := available src rq v p - unat f)"
proof -
  have step: "visible_volume h (om_add lt p f c) [] = (visible_volume h c [])(p := visible_volume h c [] p - unat f)"
    if "unat f \<le> visible_volume h c [] p" "f \<noteq> 0" for h c lt
  proof -
    have "unat f \<noteq> 0" using that(2) by (simp add: unat_eq_zero)
    with that(1) have "unat (om_at c p) + unat f \<le> unat (om_at h p)" by (simp add: visible_volume_def om_at_def [of "[]"])
    then have "unat (om_at c p) + unat f < two64" by (rule order_le_less_trans) simp
    then have "unat (om_at c p + f) = unat (om_at c p) + unat f" by (rule unat_add_u64)
    then show ?thesis by (auto simp: visible_volume_def om_at_add fun_eq_iff om_at_def [of "[]"])
  qed
  show ?thesis
  proof (cases "f = 0")
    case True
    then show ?thesis by (simp add: EV_consumeHistoricalLiquidity_def)
  next
    case False
    with assms show ?thesis
      by (auto simp: available_def opposite_def EV_consumed_consume CB_consume_def Let_def step)
  qed
qed

lemma available_price:
  assumes src: "source_ok src" and "0 < available src rq v p"
  shows "hasValidPrice p"
proof -
  let ?h = "if rq_side rq = Bid then source_asks src (rq_instrument_id rq) else source_bids src (rq_instrument_id rq)"
  have "0 < unat (om_at ?h p)"
    using assms(2) by (auto simp: available_def Let_def visible_volume_def om_at_def [of "[]"] split: if_splits)
  then obtain s where "map_of ?h p = Some s" by (auto simp: om_at_def split: option.splits)
  then show ?thesis
    using good_levels_price [OF source_ok_levels(1) [OF src]] good_levels_price [OF source_ok_levels(2) [OF src]]
    by (cases "rq_side rq = Bid") (auto simp del: map_of_eq_Some_iff)
qed

lemma om_sub_head:
  assumes "distinct (keys ((p, s) # ls))"
  shows "om_sub lt p f ((p, s) # ls) = (if s \<le> f then ls else (p, s - f) # ls)"
  using assms by (auto simp: om_sub_def om_erase_def intro!: filter_True)

lemma opposite_consume:
  assumes src: "source_ok src" and v: "EV_levels_ok v" and i: "rq_instrument_id rq \<noteq> 0"
    and head: "opposite_levels src rq v = (p, s) # ls" and f: "f \<le> s"
  defines "v' \<equiv> EV_consumeHistoricalLiquidity (rq_instrument_id rq) (opposite rq) p f v"
  shows "EV_levels_ok v'" "opposite_levels src rq v' = (if s \<le> f then ls else (p, s - f) # ls)"
proof -
  let ?lt = "if rq_side rq = Bid then (<) else (>)"
  note rep = opposite_represents [OF src v, of rq]
  have srt: "sorted_levels ?lt ((p, s) # ls)" using rep(2) head by simp
  then have dist: "distinct (keys ((p, s) # ls))"
    by (cases "rq_side rq = Bid") (auto dest!: asc.sorted_distinct desc.sorted_distinct)
  have s: "unat s = available src rq v p" "0 < available src rq v p"
    using represents_SomeD [OF rep(1), of p s] head by auto
  have "hasValidPrice p" using available_price [OF src s(2)] .
  with v show v': "EV_levels_ok v'" unfolding v'_def by (rule EV_levels_ok_consume)
  have "unat f \<le> available src rq v p" using f s by (simp add: word_le_nat_alt)
  then have "available src rq v' = (available src rq v)(p := available src rq v p - unat f)"
    unfolding v'_def by (rule available_consume [OF i])
  moreover have "represents (om_sub ?lt p f ((p, s) # ls)) ((available src rq v)(p := available src rq v p - unat f))"
    using represents_sub [OF rep(1)] head by simp
  moreover have "sorted_levels ?lt (om_sub ?lt p f ((p, s) # ls))"
    using srt asc.sorted_om_sub [of "(p, s) # ls" p f] desc.sorted_om_sub [of "(p, s) # ls" p f]
    by (cases "rq_side rq = Bid") auto
  ultimately have "opposite_levels src rq v' = om_sub ?lt p f ((p, s) # ls)"
    using opposite_represents [OF src v', of rq] asc.represents_unique desc.represents_unique
    by (cases "rq_side rq = Bid") auto
  then show "opposite_levels src rq v' = (if s \<le> f then ls else (p, s - f) # ls)"
    by (simp add: om_sub_head [OF dist])
qed

section \<open>The loop is the sweep\<close>

abbreviation consume_all :: "SimulatedOrderRequest \<Rightarrow> EngineView \<Rightarrow> (price \<times> u64) list \<Rightarrow> EngineView" where
  "consume_all rq v fs \<equiv>
     foldl (\<lambda>v (p, f). EV_consumeHistoricalLiquidity (rq_instrument_id rq) (opposite rq) p f v) v fs"

lemma FS_fillLoop_sweeps:
  assumes "source_ok src" "EV_levels_ok v" "rq_instrument_id rq \<noteq> 0"
    and "sweep (accepts rq) (opposite_levels src rq v) r = (fs, r')"
  shows "FS_fillLoop src rq oid v fills filled r =
     Some (consume_all rq v fs, fills @ map (\<lambda>(p, f). makeFill rq oid p f) fs, filled + (r - r'), r')"
  using assms(2,4)
proof (induction "opposite_levels src rq v" arbitrary: v fills filled r fs)
  case Nil
  then show ?case by (subst FS_fillLoop_unfold) (auto simp flip: Nil.hyps)
next
  case (Cons l ls)
  obtain p s where l: "l = (p, s)" by fastforce
  show ?case
  proof (cases "r = 0 \<or> \<not> accepts rq p")
    case True
    with Cons.prems Cons.hyps(2) show ?thesis
      by (subst FS_fillLoop_unfold) (auto simp: l simp flip: Cons.hyps(2))
  next
    case False
    define f where "f = min r s"
    let ?v = "EV_consumeHistoricalLiquidity (rq_instrument_id rq) (opposite rq) p f v"
    obtain fs1 where fs1: "sweep (accepts rq) ls (r - f) = (fs1, r')" "fs = (p, f) # fs1"
      using Cons.prems(2) False by (auto simp: l f_def Let_def simp flip: Cons.hyps(2) split: prod.splits)
    have "f \<le> s" by (simp add: f_def)
    note v' = opposite_consume [OF assms(1) Cons.prems(1) assms(3) Cons.hyps(2) [symmetric, unfolded l] this]
    have step: "FS_fillLoop src rq oid v fills filled r =
        FS_fillLoop src rq oid ?v (fills @ [makeFill rq oid p f]) (filled + f) (r - f)"
      using False by (subst FS_fillLoop_unfold) (simp add: l f_def flip: Cons.hyps(2))
    have "FS_fillLoop src rq oid ?v (fills @ [makeFill rq oid p f]) (filled + f) (r - f) =
        Some (consume_all rq ?v fs1, (fills @ [makeFill rq oid p f]) @ map (\<lambda>(p, f). makeFill rq oid p f) fs1,
          (filled + f) + ((r - f) - r'), r')"
    proof (cases "s \<le> f")
      case True
      with Cons.hyps(1) [of ?v] v' fs1 show ?thesis by simp
    next
      case False
      then have "r - f = 0" by (simp add: f_def min_def split: if_splits)
      with fs1(1) show ?thesis by (subst FS_fillLoop_unfold) auto
    qed
    then show ?thesis using step fs1(2) by simp
  qed
qed

section \<open>Effects of a submission\<close>

lemma consume_all_levels_ok:
  assumes "source_ok src" "EV_levels_ok v" "\<forall>(p, f) \<in> set fs. hasValidPrice p"
  shows "EV_levels_ok (consume_all rq v fs)"
  using assms(2,3) by (induction fs arbitrary: v) (auto intro: EV_levels_ok_consume)

lemma available_consume_all:
  assumes "rq_instrument_id rq \<noteq> 0" "distinct (map fst fs)"
    "\<forall>(p, f) \<in> set fs. unat f \<le> available src rq v p"
  shows "available src rq (consume_all rq v fs) p = available src rq v p - unat (om_at fs p)"
  using assms(2,3)
proof (induction fs arbitrary: v)
  case (Cons pf fs)
  obtain q f where pf: "pf = (q, f)" by fastforce
  have upd: "available src rq (EV_consumeHistoricalLiquidity (rq_instrument_id rq) (opposite rq) q f v) =
      (available src rq v)(q := available src rq v q - unat f)"
    using available_consume [OF assms(1)] Cons.prems(2) by (simp add: pf)
  have "\<forall>(p, g) \<in> set fs. unat g \<le> ((available src rq v)(q := available src rq v q - unat f)) p"
    using Cons.prems by (force simp: pf)
  moreover have "q \<notin> fst ` set fs" using Cons.prems(1) by (simp add: pf)
  ultimately show ?case
    using Cons.IH [of "EV_consumeHistoricalLiquidity (rq_instrument_id rq) (opposite rq) q f v"] Cons.prems(1)
    by (auto simp: pf upd om_at_def map_of_eq_None_iff [THEN iffD2] split: option.split)
qed (simp add: om_at_def)

lemma consume_all_frame:
  "j \<noteq> rq_instrument_id rq \<Longrightarrow>
   EV_consumedHistoricalLiquidity (consume_all rq v fs) j = EV_consumedHistoricalLiquidity v j"
  "EV_syntheticBook (consume_all rq v fs) = EV_syntheticBook v"
  "vw_own_orders (consume_all rq v fs) = vw_own_orders v"
  "vw_next_order_id (consume_all rq v fs) = vw_next_order_id v"
proof (induction fs arbitrary: v)
  case (Cons pf fs)
  {
    case 1
    then show ?case using Cons(1) by (simp add: EV_consumed_consume split: prod.split)
  next
    case 2
    then show ?case using Cons(2) by (simp split: prod.split)
  next
    case 3
    then show ?case using Cons(3) by (simp add: EV_consumeHistoricalLiquidity_def split: prod.split)
  next
    case 4
    then show ?case using Cons(4) by (simp add: EV_consumeHistoricalLiquidity_def split: prod.split)
  }
qed simp_all

text \<open>When something is left over, every acceptable level was taken completely.\<close>

lemma sweep_exhausts:
  assumes "sweep ok ls r = (fs, r')" "0 < r'" "sorted_wrt (\<lambda>x y. ok y \<longrightarrow> ok x) (map fst ls)"
    and "(p, s) \<in> set ls" "ok p"
  shows "(p, s) \<in> set fs"
  using assms
proof (induction ok ls r arbitrary: fs r' rule: sweep.induct)
  case (2 ok q t ls r)
  have "ok q" using 2(4,5,6) by (fastforce simp: image_iff)
  moreover have "r \<noteq> 0" using 2(2,3) by auto
  ultimately have go: "\<not> (r = 0 \<or> \<not> ok q)" by simp
  define f where "f = min r t"
  obtain fs1 where fs1: "sweep ok ls (r - f) = (fs1, r')" "fs = (q, f) # fs1"
    using 2(2) go by (auto simp: f_def Let_def split: prod.splits)
  have "f = t"
  proof (rule ccontr)
    assume "f \<noteq> t"
    then have "r - f = 0" by (auto simp: f_def min_def)
    with fs1(1) 2(3) show False by simp
  qed
  with 2(1) [OF go f_def fs1(1)] 2(3-6) fs1 show ?case by auto
qed simp

lemma accepts_closed:
  assumes "sorted_levels (if rq_side rq = Bid then (<) else (>)) ls"
  shows "sorted_wrt (\<lambda>x y. accepts rq y \<longrightarrow> accepts rq x) (map fst ls)"
  using assms by (rule sorted_wrt_mono_rel [rotated]) (auto simp: accepts_def split: if_splits)

lemma FS_submit_eq:
  assumes "source_ok src" "map_of views (rq_engine_id rq) = Some v" "EV_levels_ok v" "hasValidRequest rq"
    and "sweep (accepts rq) (opposite_levels src rq v) (rq_size rq) = (fs, r)"
  defines "oid \<equiv> vw_next_order_id v"
  defines "v2 \<equiv> consume_all rq (v\<lparr>vw_next_order_id := oid + 1\<rparr>) fs"
  shows "FS_submitLimitOrderResult src views rq =
     Some (\<lparr>sr_synthetic_order_id = oid, sr_requested_size = rq_size rq, sr_filled_size = rq_size rq - r,
            sr_remaining_size = r, sr_fills = map (\<lambda>(p, f). makeFill rq oid p f) fs\<rparr>,
           AList.update (rq_engine_id rq)
             (if 0 < r then EV_addSyntheticOrderWithId oid (rq_instrument_id rq) (rq_side rq)
                (rq_limit_price rq) r (rq_timestamp_ns rq) v2 else v2) views)"
proof -
  let ?v1 = "v\<lparr>vw_next_order_id := oid + 1\<rparr>"
  have "opposite_levels src rq ?v1 = opposite_levels src rq v"
    by (simp add: opposite_levels_def visibleHistoricalAsks_def visibleHistoricalBids_def Let_def)
  then have "FS_fillLoop src rq oid ?v1 [] 0 (rq_size rq) =
      Some (v2, map (\<lambda>(p, f). makeFill rq oid p f) fs, rq_size rq - r, r)"
    using FS_fillLoop_sweeps [OF assms(1), of ?v1 rq "rq_size rq" fs r oid "[]" 0] assms(3,4,5)
    by (simp add: v2_def hasValidRequest_def)
  then show ?thesis
    using assms(2,4) by (simp add: FS_submitLimitOrderResult_def Let_def oid_def del: map_of_eq_Some_iff)
qed

lemma fills_at:
  "distinct (map fst fs) \<Longrightarrow>
   sum_list (map (unat \<circ> sf_size) (filter (\<lambda>f. sf_price f = p) (map (\<lambda>(p, f). makeFill rq oid p f) fs))) =
     unat (om_at fs p)"
proof (induction fs)
  case (Cons pf fs)
  then have "fst pf = p \<Longrightarrow> om_at fs p = 0" by (auto simp: om_at_def map_of_eq_None_iff [THEN iffD2])
  with Cons show ?case by (auto simp: makeFill_def om_at_def split: prod.splits)
qed (simp add: om_at_def)

lemma opposite_positive:
  assumes "source_ok src" "EV_levels_ok v"
  shows "\<forall>l \<in> set (opposite_levels src rq v). 0 < snd l \<and> unat (snd l) = available src rq v (fst l)"
proof
  fix l assume l: "l \<in> set (opposite_levels src rq v)"
  note rep = opposite_represents [OF assms, of rq]
  have "distinct (keys (opposite_levels src rq v))"
    using rep(2) by (cases "rq_side rq = Bid") (auto dest: asc.sorted_distinct desc.sorted_distinct)
  with l have "map_of (opposite_levels src rq v) (fst l) = Some (snd l)" by (simp add: map_of_is_SomeI)
  from represents_SomeD [OF rep(1) this] show "0 < snd l \<and> unat (snd l) = available src rq v (fst l)"
    by (auto simp: u64_pos_iff unat_eq_zero)
qed

definition views_ok :: "EngineViews \<Rightarrow> bool" where
  "views_ok views \<longleftrightarrow> (\<forall>e v. map_of views e = Some v \<longrightarrow> EV_levels_ok v)"

lemma FS_submit_total:
  assumes src: "source_ok src" and views: "views_ok views"
  shows "\<exists>result views'. FS_submitLimitOrderResult src views rq = Some (result, views') \<and> views_ok views'"
proof (cases "hasValidRequest rq \<and> map_of views (rq_engine_id rq) \<noteq> None")
  case False
  with views show ?thesis
    by (cases "map_of views (rq_engine_id rq)") (auto simp: FS_submitLimitOrderResult_def Let_def)
next
  case True
  then obtain v where v: "map_of views (rq_engine_id rq) = Some v" by blast
  with views have ok: "EV_levels_ok v" by (simp add: views_ok_def del: map_of_eq_Some_iff)
  obtain fs r where sw: "sweep (accepts rq) (opposite_levels src rq v) (rq_size rq) = (fs, r)" by fastforce
  have pos: "\<forall>l \<in> set (opposite_levels src rq v). 0 < snd l \<and> 0 < available src rq v (fst l)"
    using opposite_positive [OF src ok, of rq] by (fastforce dest: unat_pos_u64)
  then have "\<forall>(p, f) \<in> set fs. hasValidPrice p"
    using sweep_fills [OF sw] available_price [OF src] by fastforce
  then have "EV_levels_ok (consume_all rq (v\<lparr>vw_next_order_id := vw_next_order_id v + 1\<rparr>) fs)"
    using consume_all_levels_ok [OF src] ok by simp
  then show ?thesis
    using FS_submit_eq [OF src v ok _ sw] True views
    by (auto simp: views_ok_def hasValidRequest_def EV_levels_ok_addWithId simp del: map_of_eq_Some_iff)
qed

section \<open>Properties\<close>

text \<open>
  C11: The matching loop ends and equals one sweep. For a valid request of a known engine, the
  loop that recomputes the visible book in every round terminates, and its fills, the filled and
  the remaining size are those of a single pass over the initially visible levels of the other
  side, best price first, that stops at the first price the limit does not accept.
\<close>

theorem FS_submit_is_one_sweep:
  assumes "source_ok src" "map_of views (rq_engine_id rq) = Some v" "EV_levels_ok v" "hasValidRequest rq"
  shows "\<exists>result views'. FS_submitLimitOrderResult src views rq = Some (result, views') \<and>
     (let (fs, r) = sweep (accepts rq) (opposite_levels src rq v) (rq_size rq)
      in sr_fills result = map (\<lambda>(p, f). makeFill rq (vw_next_order_id v) p f) fs \<and>
         sr_remaining_size result = r \<and> sr_filled_size result = rq_size rq - r)"
  using FS_submit_eq [OF assms]
  by (cases "sweep (accepts rq) (opposite_levels src rq v) (rq_size rq)") simp

definition demo_source :: HistoricalSource where
  "demo_source = Store (foldl HLS_apply [] demo_events)"

definition demo_views :: EngineViews where
  "demo_views = [(1, EV_new 1), (2, EV_new 2)]"

definition demo_request :: SimulatedOrderRequest where
  "demo_request = \<lparr>rq_engine_id = 1, rq_instrument_id = 7, rq_side = Bid, rq_limit_price = i64 105,
     rq_size = 20, rq_timestamp_ns = i64 0\<rparr>"

lemma demo_submit_ok:
  "source_ok demo_source" "map_of demo_views (rq_engine_id demo_request) = Some (EV_new 1)"
  "EV_levels_ok (EV_new 1)" "hasValidRequest demo_request"
proof -
  show "source_ok demo_source" by (simp add: demo_source_def HLS_run_ok)
  show "map_of demo_views (rq_engine_id demo_request) = Some (EV_new 1)"
    by (simp add: demo_views_def demo_request_def)
  show "EV_levels_ok (EV_new 1)" by (rule EV_levels_ok_new)
  show "hasValidRequest demo_request" by code_simp
qed

theorem FS_submit_is_one_sweep_witness:
  "\<exists>result views'. FS_submitLimitOrderResult demo_source demo_views demo_request = Some (result, views') \<and>
     map (\<lambda>f. (sf_price f, sf_size f)) (sr_fills result) = [(i64 104, 9), (i64 105, 4)] \<and>
     sr_remaining_size result = 7 \<and> sr_filled_size result = 13"
proof -
  have "sweep (accepts demo_request) (opposite_levels demo_source demo_request (EV_new 1)) (rq_size demo_request) =
      ([(i64 104, 9), (i64 105, 4)], 7)" by code_simp
  then show ?thesis
    using FS_submit_is_one_sweep [OF demo_submit_ok]
    by (auto simp: makeFill_def demo_request_def)
qed

text \<open>
  C12: Conservation and price protection. The fills of an accepted submission add up to the filled
  size, filled and remaining size add up to the requested size, every fill has a positive size, a
  price the limit accepts and the synthetic id of the order, and the fills come in strictly
  worsening price order.
\<close>

theorem FS_submit_conserves:
  assumes "source_ok src" "map_of views (rq_engine_id rq) = Some v" "EV_levels_ok v" "hasValidRequest rq"
    and "FS_submitLimitOrderResult src views rq = Some (result, views')"
  shows "sum_list (map (unat \<circ> sf_size) (sr_fills result)) = unat (sr_filled_size result) \<and>
         unat (sr_filled_size result) + unat (sr_remaining_size result) = unat (rq_size rq) \<and>
         list_all (\<lambda>f. 0 < sf_size f \<and> accepts rq (sf_price f) \<and> sf_order_id f = sr_synthetic_order_id result)
           (sr_fills result) \<and>
         sorted_wrt (if rq_side rq = Bid then (<) else (>)) (map sf_price (sr_fills result))"
proof -
  obtain fs r where sw: "sweep (accepts rq) (opposite_levels src rq v) (rq_size rq) = (fs, r)" by fastforce
  let ?oid = "vw_next_order_id v"
  have res: "sr_fills result = map (\<lambda>(p, f). makeFill rq ?oid p f) fs" "sr_remaining_size result = r"
    "sr_filled_size result = rq_size rq - r" "sr_synthetic_order_id result = ?oid"
    using FS_submit_eq [OF assms(1-4) sw] assms(5) by auto
  have sum: "sum_list (map (unat \<circ> sf_size) (sr_fills result)) = sum_list (map (unat \<circ> snd) fs)"
    unfolding res by (induction fs) (auto simp: makeFill_def)
  have cons: "r \<le> rq_size rq" "unat (rq_size rq) = sum_list (map (unat \<circ> snd) fs) + unat r"
    using sweep_conserves [OF sw] by auto
  have fills: "\<forall>(p, f) \<in> set fs. accepts rq p \<and> 0 < f"
    "map fst fs = take (length fs) (map fst (opposite_levels src rq v))"
    using sweep_fills [OF sw] opposite_positive [OF assms(1,3), of rq] by auto
  have "map sf_price (sr_fills result) = map fst fs"
    unfolding res by (auto simp: makeFill_def)
  then have "sorted_wrt (if rq_side rq = Bid then (<) else (>)) (map sf_price (sr_fills result))"
    using opposite_represents(2) [OF assms(1,3), of rq] fills(2) sorted_wrt_take by metis
  moreover have "list_all (\<lambda>f. 0 < sf_size f \<and> accepts rq (sf_price f) \<and>
      sf_order_id f = sr_synthetic_order_id result) (sr_fills result)"
    using fills(1) unfolding res by (auto simp: list_all_iff makeFill_def)
  ultimately show ?thesis
    using cons sum by (simp add: res unat_diff_u64)
qed

theorem FS_submit_conserves_witness:
  "\<exists>result views'. FS_submitLimitOrderResult demo_source demo_views demo_request = Some (result, views') \<and>
     sum_list (map (unat \<circ> sf_size) (sr_fills result)) = unat (sr_filled_size result) \<and>
     unat (sr_filled_size result) + unat (sr_remaining_size result) = 20"
proof -
  obtain fs r where "sweep (accepts demo_request) (opposite_levels demo_source demo_request (EV_new 1))
      (rq_size demo_request) = (fs, r)" by fastforce
  from FS_submit_eq [OF demo_submit_ok this] obtain result views' where
    res: "FS_submitLimitOrderResult demo_source demo_views demo_request = Some (result, views')" by blast
  from FS_submit_conserves [OF demo_submit_ok res] res show ?thesis by (auto simp: demo_request_def)
qed

text \<open>
  C13: Liquidity accounting. A submission lowers the historical liquidity its engine can still take
  at each price by exactly the fills at that price (an engine can never trade the same volume
  twice), and if part of the order is left over, no acceptable liquidity remains: the order that
  is put to rest does not cross the visible market.
\<close>

theorem FS_submit_liquidity:
  assumes "source_ok src" "map_of views (rq_engine_id rq) = Some v" "EV_levels_ok v" "hasValidRequest rq"
    and "FS_submitLimitOrderResult src views rq = Some (result, views')"
  shows "\<exists>v'. map_of views' (rq_engine_id rq) = Some v' \<and>
           (\<forall>p. available src rq v p = available src rq v' p +
                  sum_list (map (unat \<circ> sf_size) (filter (\<lambda>f. sf_price f = p) (sr_fills result)))) \<and>
           (0 < sr_remaining_size result \<longrightarrow> (\<forall>p. accepts rq p \<longrightarrow> available src rq v' p = 0))"
proof -
  obtain fs r where sw: "sweep (accepts rq) (opposite_levels src rq v) (rq_size rq) = (fs, r)" by fastforce
  let ?oid = "vw_next_order_id v" and ?ls = "opposite_levels src rq v"
  define v2 where "v2 = consume_all rq (v\<lparr>vw_next_order_id := ?oid + 1\<rparr>) fs"
  define v' where "v' = (if 0 < r then EV_addSyntheticOrderWithId ?oid (rq_instrument_id rq) (rq_side rq)
      (rq_limit_price rq) r (rq_timestamp_ns rq) v2 else v2)"
  have res: "sr_fills result = map (\<lambda>(p, f). makeFill rq ?oid p f) fs" "sr_remaining_size result = r"
    "map_of views' (rq_engine_id rq) = Some v'"
    using FS_submit_eq [OF assms(1-4) sw] assms(5) by (auto simp: v'_def v2_def simp del: map_of_eq_Some_iff)
  have i: "rq_instrument_id rq \<noteq> 0" using assms(4) by (simp add: hasValidRequest_def)
  note rep = opposite_represents [OF assms(1,3), of rq] and pos = opposite_positive [OF assms(1,3), of rq]
  have dls: "distinct (map fst ?ls)"
    using rep(2) by (cases "rq_side rq = Bid") (auto dest: asc.sorted_distinct desc.sorted_distinct)
  have fills: "\<forall>(p, f) \<in> set fs. \<exists>s. (p, s) \<in> set ?ls \<and> f \<le> s" "map fst fs = take (length fs) (map fst ?ls)"
    using sweep_fills [OF sw] pos by auto
  have dist: "distinct (map fst fs)" using dls fills(2) by (metis distinct_take)
  have le: "\<forall>(p, f) \<in> set fs. unat f \<le> available src rq v p"
    using fills(1) pos by (fastforce simp: word_le_nat_alt)
  have av: "available src rq v' p = available src rq v p - unat (om_at fs p)" for p
  proof -
    have "available src rq v' p = available src rq v2 p" by (simp add: available_def v'_def Let_def)
    moreover have "available src rq (v\<lparr>vw_next_order_id := ?oid + 1\<rparr>) = available src rq v"
      by (simp add: available_def Let_def fun_eq_iff)
    ultimately show ?thesis
      using available_consume_all [OF i dist, of src "v\<lparr>vw_next_order_id := ?oid + 1\<rparr>" p] le
      by (simp add: v2_def)
  qed
  have sum: "sum_list (map (unat \<circ> sf_size) (filter (\<lambda>f. sf_price f = p) (sr_fills result))) = unat (om_at fs p)" for p
    unfolding res(1) by (rule fills_at [OF dist])
  have at_le: "unat (om_at fs p) \<le> available src rq v p" for p
    using le by (auto simp: om_at_def split: option.split dest!: map_of_SomeD)
  have "available src rq v' p = 0" if "0 < r" "accepts rq p" for p
  proof (cases "available src rq v p = 0")
    case False
    then have "map_of ?ls p = Some (of_nat (available src rq v p))" using rep(1) by (simp add: represents_def)
    then have "(p, of_nat (available src rq v p)) \<in> set fs"
      using sweep_exhausts [OF sw that(1) accepts_closed [OF rep(2)]] that(2) by (auto dest: map_of_SomeD)
    then have "om_at fs p = of_nat (available src rq v p)" using dist by (simp add: om_at_def)
    then show ?thesis using av [of p] rep(1) by (simp add: unat_of_nat_u64 represents_def)
  qed (simp add: av)
  with res av sum at_le show ?thesis by auto
qed

theorem FS_submit_liquidity_witness:
  "\<exists>result views' v'. FS_submitLimitOrderResult demo_source demo_views demo_request = Some (result, views') \<and>
     map_of views' 1 = Some v' \<and>
     available demo_source demo_request (EV_new 1) (i64 104) = available demo_source demo_request v' (i64 104) +
       sum_list (map (unat \<circ> sf_size) (filter (\<lambda>f. sf_price f = i64 104) (sr_fills result)))"
proof -
  obtain fs r where "sweep (accepts demo_request) (opposite_levels demo_source demo_request (EV_new 1))
      (rq_size demo_request) = (fs, r)" by fastforce
  from FS_submit_eq [OF demo_submit_ok this] obtain result views' where
    res: "FS_submitLimitOrderResult demo_source demo_views demo_request = Some (result, views')" by blast
  have "rq_engine_id demo_request = 1" by (simp add: demo_request_def)
  with FS_submit_liquidity [OF demo_submit_ok res] res show ?thesis by auto
qed

text \<open>
  C14: Engines are isolated. A submission changes no other engine's view, and of its own engine's
  view neither the synthetic book nor the consumed liquidity of any other instrument.
\<close>

theorem FS_engines_isolated:
  assumes "source_ok src" "map_of views (rq_engine_id rq) = Some v" "EV_levels_ok v" "hasValidRequest rq"
    and "FS_submitLimitOrderResult src views rq = Some (result, views')"
  shows "(\<forall>e. e \<noteq> rq_engine_id rq \<longrightarrow> map_of views' e = map_of views e) \<and>
         (\<exists>v'. map_of views' (rq_engine_id rq) = Some v' \<and>
            (\<forall>j. j \<noteq> rq_instrument_id rq \<longrightarrow>
               EV_syntheticBook v' j = EV_syntheticBook v j \<and>
               EV_consumedHistoricalLiquidity v' j = EV_consumedHistoricalLiquidity v j))"
proof -
  obtain fs r where sw: "sweep (accepts rq) (opposite_levels src rq v) (rq_size rq) = (fs, r)" by fastforce
  show ?thesis
    using FS_submit_eq [OF assms(1-4) sw] assms(5)
    by (auto simp: EV_book_addWithId consume_all_frame simp del: map_of_eq_Some_iff)
qed

theorem FS_engines_isolated_witness:
  "\<exists>result views'. FS_submitLimitOrderResult demo_source demo_views demo_request = Some (result, views') \<and>
     map_of views' 2 = Some (EV_new 2)"
proof -
  obtain fs r where "sweep (accepts demo_request) (opposite_levels demo_source demo_request (EV_new 1))
      (rq_size demo_request) = (fs, r)" by fastforce
  from FS_submit_eq [OF demo_submit_ok this] obtain result views' where
    res: "FS_submitLimitOrderResult demo_source demo_views demo_request = Some (result, views')" by blast
  have "rq_engine_id demo_request = 1" "map_of demo_views 2 = Some (EV_new 2)"
    by (simp_all add: demo_request_def demo_views_def)
  with FS_engines_isolated [OF demo_submit_ok res] res show ?thesis by auto
qed

end
