(* ===== verification/OrderExecutionBridge.thy ===== *)
theory OrderExecutionBridge
  imports FillSimulator OrderGateway
begin

text \<open>
  \<^verbatim>\<open>src/backtest/OrderExecutionBridge.{hpp,cpp}\<close>: the bridge drains the requests of the gateway,
  executes every accepted one in the fill simulator, reports the fills through the gateway and
  remembers which synthetic order of an engine's view belongs to which gateway order. The server,
  the historical store and the views are references in the source; here they are fields of the
  bridge's state.
\<close>

section \<open>State\<close>

record ExecutionOrderMapping =
  xm_trading_engine_id :: trading_engine_id
  xm_gateway_order_id :: order_id
  xm_synthetic_order_id :: u64
  xm_instrument_id :: instrument_id
  xm_side :: Side
  xm_price :: price
  xm_remaining_size :: quantity
  xm_last_timestamp_ns :: timestamp_ns

record OrderExecutionBridgeResult =
  xr_transitions :: "OrderGatewayTransition list"
  xr_new_accepted_count :: u64
  xr_cancel_accepted_count :: u64
  xr_modify_accepted_count :: u64
  xr_rejected_count :: u64
  xr_fills_emitted :: u64
  xr_mappings_added :: u64
  xr_mappings_erased :: u64

definition default_bridge_result :: OrderExecutionBridgeResult where
  "default_bridge_result =
     \<lparr>xr_transitions = [], xr_new_accepted_count = 0, xr_cancel_accepted_count = 0,
      xr_modify_accepted_count = 0, xr_rejected_count = 0, xr_fills_emitted = 0,
      xr_mappings_added = 0, xr_mappings_erased = 0\<rparr>"

record OrderExecutionBridge =
  xb_server :: OrderGatewayServer
  xb_source :: HistoricalSource
  xb_views :: EngineViews
  xb_mappings :: "(OrderKey, ExecutionOrderMapping) umap"

definition XB_new :: "OrderGatewayServer \<Rightarrow> HistoricalSource \<Rightarrow> EngineViews \<Rightarrow> OrderExecutionBridge" where
  "XB_new server historical_lobs engine_views =
     \<lparr>xb_server = server, xb_source = historical_lobs, xb_views = engine_views, xb_mappings = []\<rparr>"

section \<open>Operations\<close>

text \<open>The \<^verbatim>\<open>static_cast\<close> from the 32-bit engine id of the gateway to the 64-bit id of a view.\<close>

definition engine_of :: "trading_engine_id \<Rightarrow> u64" where
  "engine_of eid = ucast eid"

lemma engine_of_inject [simp]: "engine_of a = engine_of b \<longleftrightarrow> a = b"
proof
  assume eq: "engine_of a = engine_of b"
  have "unat (engine_of x) = unat x" for x :: trading_engine_id
    using unsigned_less [of x, where ?'a = nat]
    by (simp add: engine_of_def unsigned_ucast_eq take_bit_nat_eq_self_iff)
  with eq show "a = b" by (metis word_unat_eq_iff)
qed simp

definition XB_mappingCount :: "OrderExecutionBridge \<Rightarrow> u64" where
  "XB_mappingCount b = of_nat (length (xb_mappings b))"

definition XB_findMapping :: "trading_engine_id \<Rightarrow> order_id \<Rightarrow> OrderExecutionBridge \<Rightarrow> ExecutionOrderMapping option" where
  "XB_findMapping eid oid b = map_of (xb_mappings b) (eid, oid)"

definition XB_eraseMapping ::
  "trading_engine_id \<Rightarrow> order_id \<Rightarrow> OrderExecutionBridgeResult \<Rightarrow> OrderExecutionBridge \<Rightarrow>
   OrderExecutionBridgeResult \<times> OrderExecutionBridge" where
  "XB_eraseMapping eid oid result b =
     (case map_of (xb_mappings b) (eid, oid) of
        None \<Rightarrow> (result, b)
      | Some m \<Rightarrow>
          let views = (case map_of (xb_views b) (engine_of eid) of
                None \<Rightarrow> xb_views b
              | Some v \<Rightarrow> AList.update (engine_of eid) (EV_cancelSyntheticOrder (xm_synthetic_order_id m) v) (xb_views b))
          in (result\<lparr>xr_mappings_erased := xr_mappings_erased result + 1\<rparr>,
              b\<lparr>xb_views := views, xb_mappings := AList.delete (eid, oid) (xb_mappings b)\<rparr>))"

definition XB_storeOrEraseMapping ::
  "OrderGatewayTransition \<Rightarrow> SimulatedOrderResult \<Rightarrow> OrderExecutionBridgeResult \<Rightarrow> OrderExecutionBridge \<Rightarrow>
   OrderExecutionBridgeResult \<times> OrderExecutionBridge" where
  "XB_storeOrEraseMapping t simulated_result result b =
     (let f = tr_fields t; key = (fd_trading_engine_id f, fd_order_id f)
      in if sr_synthetic_order_id simulated_result = 0 \<or> sr_remaining_size simulated_result = 0
         then XB_eraseMapping (fd_trading_engine_id f) (fd_order_id f) result b
         else
           let existed = (map_of (xb_mappings b) key \<noteq> None);
               m = \<lparr>xm_trading_engine_id = fd_trading_engine_id f, xm_gateway_order_id = fd_order_id f,
                    xm_synthetic_order_id = sr_synthetic_order_id simulated_result,
                    xm_instrument_id = fd_instrument_id f, xm_side = fd_side f, xm_price = fd_price f,
                    xm_remaining_size = sr_remaining_size simulated_result,
                    xm_last_timestamp_ns = fd_timestamp_ns f\<rparr>
           in (if existed then result else result\<lparr>xr_mappings_added := xr_mappings_added result + 1\<rparr>,
               b\<lparr>xb_mappings := AList.update key m (xb_mappings b)\<rparr>))"

text \<open>The loop that reports the fills of one simulated order.\<close>

fun XB_emitFills ::
  "trading_engine_id \<Rightarrow> order_id \<Rightarrow> SimulatedFill list \<Rightarrow> OrderExecutionBridgeResult \<Rightarrow>
   OrderGatewayServer \<Rightarrow> Channels \<Rightarrow> (OrderExecutionBridgeResult \<times> OrderGatewayServer \<times> Channels) option" where
  "XB_emitFills eid oid [] result s chs = Some (result, s, chs)"
| "XB_emitFills eid oid (f # fs) result s chs =
     Option.bind (GS_emitFill eid oid (sf_price f) (sf_size f) (sf_timestamp_ns f) s chs) (\<lambda>(emitted, s', chs').
       XB_emitFills eid oid fs
         (if emitted then result\<lparr>xr_fills_emitted := xr_fills_emitted result + 1\<rparr> else result) s' chs')"

definition simulated_request :: "OrderFields \<Rightarrow> SimulatedOrderRequest" where
  "simulated_request f =
     \<lparr>rq_engine_id = engine_of (fd_trading_engine_id f), rq_instrument_id = fd_instrument_id f, rq_side = fd_side f,
      rq_limit_price = fd_price f, rq_size = fd_size f, rq_timestamp_ns = fd_timestamp_ns f\<rparr>"

definition XB_submitAcceptedOrder ::
  "OrderGatewayTransition \<Rightarrow> OrderExecutionBridgeResult \<Rightarrow> OrderExecutionBridge \<Rightarrow> Channels \<Rightarrow>
   (OrderExecutionBridgeResult \<times> OrderExecutionBridge \<times> Channels) option" where
  "XB_submitAcceptedOrder t result b chs =
     (let f = tr_fields t
      in case FS_submitLimitOrderResult (xb_source b) (xb_views b) (simulated_request f) of
           None \<Rightarrow> None
         | Some (simulated_result, views) \<Rightarrow>
             (case XB_emitFills (fd_trading_engine_id f) (fd_order_id f) (sr_fills simulated_result) result
                     (xb_server b) chs of
                None \<Rightarrow> None
              | Some (result', s, chs') \<Rightarrow>
                  (case XB_storeOrEraseMapping t simulated_result result' (b\<lparr>xb_server := s, xb_views := views\<rparr>) of
                     (result'', b') \<Rightarrow> Some (result'', b', chs'))))"

definition XB_processNewAccepted ::
  "OrderGatewayTransition \<Rightarrow> OrderExecutionBridgeResult \<Rightarrow> OrderExecutionBridge \<Rightarrow> Channels \<Rightarrow>
   (OrderExecutionBridgeResult \<times> OrderExecutionBridge \<times> Channels) option" where
  "XB_processNewAccepted t result b chs =
     XB_submitAcceptedOrder t (result\<lparr>xr_new_accepted_count := xr_new_accepted_count result + 1\<rparr>) b chs"

definition XB_processCancelAccepted ::
  "OrderGatewayTransition \<Rightarrow> OrderExecutionBridgeResult \<Rightarrow> OrderExecutionBridge \<Rightarrow> Channels \<Rightarrow>
   (OrderExecutionBridgeResult \<times> OrderExecutionBridge \<times> Channels) option" where
  "XB_processCancelAccepted t result b chs =
     (case XB_eraseMapping (fd_trading_engine_id (tr_fields t)) (fd_order_id (tr_fields t))
             (result\<lparr>xr_cancel_accepted_count := xr_cancel_accepted_count result + 1\<rparr>) b of
        (result', b') \<Rightarrow> Some (result', b', chs))"

definition XB_processModifyAccepted ::
  "OrderGatewayTransition \<Rightarrow> OrderExecutionBridgeResult \<Rightarrow> OrderExecutionBridge \<Rightarrow> Channels \<Rightarrow>
   (OrderExecutionBridgeResult \<times> OrderExecutionBridge \<times> Channels) option" where
  "XB_processModifyAccepted t result b chs =
     (case XB_eraseMapping (fd_trading_engine_id (tr_fields t)) (fd_order_id (tr_fields t))
             (result\<lparr>xr_modify_accepted_count := xr_modify_accepted_count result + 1\<rparr>) b of
        (result', b') \<Rightarrow> XB_submitAcceptedOrder t result' b' chs)"

definition XB_processTransition ::
  "OrderGatewayTransition \<Rightarrow> OrderExecutionBridgeResult \<Rightarrow> OrderExecutionBridge \<Rightarrow> Channels \<Rightarrow>
   (OrderExecutionBridgeResult \<times> OrderExecutionBridge \<times> Channels) option" where
  "XB_processTransition t result b chs =
     (case tr_type t of
        TransNewAccepted \<Rightarrow> XB_processNewAccepted t result b chs
      | TransCancelAccepted \<Rightarrow> XB_processCancelAccepted t result b chs
      | TransModifyAccepted \<Rightarrow> XB_processModifyAccepted t result b chs
      | TransRejected \<Rightarrow> Some (result\<lparr>xr_rejected_count := xr_rejected_count result + 1\<rparr>, b, chs))"

fun XB_processTransitions ::
  "OrderGatewayTransition list \<Rightarrow> OrderExecutionBridgeResult \<Rightarrow> OrderExecutionBridge \<Rightarrow> Channels \<Rightarrow>
   (OrderExecutionBridgeResult \<times> OrderExecutionBridge \<times> Channels) option" where
  "XB_processTransitions [] result b chs = Some (result, b, chs)"
| "XB_processTransitions (t # ts) result b chs =
     Option.bind (XB_processTransition t result b chs) (\<lambda>(result', b', chs').
       XB_processTransitions ts result' b' chs')"

definition XB_drainAndProcessRequests ::
  "OrderExecutionBridge \<Rightarrow> Channels \<Rightarrow> (OrderExecutionBridgeResult \<times> OrderExecutionBridge \<times> Channels) option" where
  "XB_drainAndProcessRequests b chs =
     (case GS_drainRequestTransitions (xb_server b) chs of
        None \<Rightarrow> None
      | Some (transitions, s, chs') \<Rightarrow>
          XB_processTransitions transitions (default_bridge_result\<lparr>xr_transitions := transitions\<rparr>)
            (b\<lparr>xb_server := s\<rparr>) chs')"

section \<open>What a drain hands over\<close>

text \<open>
  A transition as a change of the order store, and what it says about the store it was applied
  to. The transitions of one drain form such a sequence.
\<close>

abbreviation trans_key :: "OrderGatewayTransition \<Rightarrow> OrderKey" where
  "trans_key t \<equiv> (fd_trading_engine_id (tr_fields t), fd_order_id (tr_fields t))"

definition apply_trans :: "order_map \<Rightarrow> OrderGatewayTransition \<Rightarrow> order_map" where
  "apply_trans m t = (if tr_type t = TransRejected then m else m(trans_key t \<mapsto> tr_snapshot t))"

definition trans_ok :: "order_map \<Rightarrow> OrderGatewayTransition \<Rightarrow> bool" where
  "trans_ok m t \<longleftrightarrow>
     (case tr_type t of
        TransRejected \<Rightarrow> True
      | TransNewAccepted \<Rightarrow> m (trans_key t) = None \<and> os_instrument_id (tr_snapshot t) = fd_instrument_id (tr_fields t)
      | TransModifyAccepted \<Rightarrow> (\<exists>x. m (trans_key t) = Some x \<and> \<not> GS_isTerminal (os_status x))
      | TransCancelAccepted \<Rightarrow> (\<exists>x. m (trans_key t) = Some x \<and> \<not> GS_isTerminal (os_status x))) \<and>
     (tr_type t \<noteq> TransRejected \<longrightarrow>
        order_ok (trans_key t) (tr_snapshot t) \<and> os_status (tr_snapshot t) = (if tr_type t = TransCancelAccepted then Cancelled else Accepted)) \<and>
     (tr_type t \<in> {TransNewAccepted, TransModifyAccepted} \<longrightarrow>
        os_side (tr_snapshot t) = fd_side (tr_fields t) \<and> os_price (tr_snapshot t) = fd_price (tr_fields t) \<and>
        os_remaining_size (tr_snapshot t) = fd_size (tr_fields t))"

fun trans_seq :: "order_map \<Rightarrow> OrderGatewayTransition list \<Rightarrow> bool" where
  "trans_seq m [] = True"
| "trans_seq m (t # ts) = (trans_ok m t \<and> trans_seq (apply_trans m t) ts)"

lemma trans_seq_append [simp]:
  "trans_seq m (ts @ us) \<longleftrightarrow> trans_seq m ts \<and> trans_seq (foldl apply_trans m ts) us"
  by (induction ts arbitrary: m) auto

lemma trans_rejected:
  "GS_pushReject session f ty reason chs = Some (t, chs') \<Longrightarrow> tr_type t = TransRejected"
  "GS_pushReject session f ty reason chs = Some (t, chs') \<Longrightarrow>
     fd_trading_engine_id (tr_fields t) = se_trading_engine_id session"
  "tr_type t = TransRejected \<Longrightarrow> trans_ok m t"
  "tr_type t = TransRejected \<Longrightarrow> apply_trans m t = m"
  by (auto simp: GS_pushReject_def Let_def bind_eq_Some_conv trans_ok_def apply_trans_def)

lemma GS_processRequest_trans:
  assumes "GS_processRequest session r s chs = Some (t, s', chs')" "orders_ok (map_of (gs_orders s))"
  shows "trans_ok (map_of (gs_orders s)) t \<and> map_of (gs_orders s') = apply_trans (map_of (gs_orders s)) t \<and>
    s' = s\<lparr>gs_orders := gs_orders s'\<rparr> \<and> fd_trading_engine_id (tr_fields t) = se_trading_engine_id session"
proof -
  have ok: "map_of (gs_orders s) key = Some x \<Longrightarrow> order_ok key x" for key x
    using assms(2) unfolding orders_ok_def by blast
  then have left: "map_of (gs_orders s) key = Some x \<Longrightarrow> \<not> GS_isTerminal (os_status x) \<Longrightarrow> 0 < os_remaining_size x" for key x
    using order_ok_remaining by blast
  note req = trans_rejected GS_acceptedTransition_def bind_eq_Some_conv
    and acc = apply_trans_def trans_ok_def AList.update_conv'
  show ?thesis
  proof (cases r)
    case (NewOrder f)
    let ?x = "snapshot_of_new session f"
    have "fd_instrument_id f \<noteq> 0 \<Longrightarrow> fd_side f \<noteq> SideNone \<Longrightarrow> isDefinedPrice (fd_price f) \<Longrightarrow> fd_size f \<noteq> 0 \<Longrightarrow>
        order_ok (se_trading_engine_id session, fd_order_id f) ?x"
      "os_trading_engine_id ?x = se_trading_engine_id session" "os_instrument_id ?x = fd_instrument_id f"
      "os_side ?x = fd_side f" "os_price ?x = fd_price f" "os_remaining_size ?x = fd_size f" "os_status ?x = Accepted"
      by (auto simp: order_ok_def snapshot_of_new_def word_gt_0 isDefinedPrice_def)
    with NewOrder assms(1) show ?thesis
      by (auto simp: GS_processNewOrder_def Let_def req GS_isValidActiveSide_def
          simp del: map_of_eq_Some_iff map_of_eq_None_iff split: if_splits) (auto simp: acc simp del: map_of_eq_Some_iff map_of_eq_None_iff)
  next
    case (CancelOrder f)
    let ?key = "(se_trading_engine_id session, fd_order_id f)"
    show ?thesis
    proof (cases "map_of (gs_orders s) ?key")
      case None
      with CancelOrder assms(1) show ?thesis by (auto simp: GS_processCancelOrder_def Let_def req)
    next
      case (Some x)
      from ok [OF Some] left [OF Some] have x: "\<not> GS_isTerminal (os_status x) \<Longrightarrow>
        order_ok ?key (x\<lparr>os_status := Cancelled, os_last_timestamp_ns := fd_timestamp_ns f\<rparr>)"
        "os_trading_engine_id x = se_trading_engine_id session"
        by (auto simp: order_ok_def)
      with CancelOrder assms(1) Some show ?thesis
        by (auto simp: GS_processCancelOrder_def Let_def req acc simp del: map_of_eq_Some_iff split: if_splits)
    qed
  next
    case (ModifyOrder f)
    let ?key = "(se_trading_engine_id session, fd_order_id f)"
    show ?thesis
    proof (cases "map_of (gs_orders s) ?key")
      case None
      with ModifyOrder assms(1) show ?thesis by (auto simp: GS_processModifyOrder_def Let_def req)
    next
      case (Some x)
      from ok [OF Some] have x: "fd_side f \<noteq> SideNone \<Longrightarrow> isDefinedPrice (fd_price f) \<Longrightarrow> fd_size f \<noteq> 0 \<Longrightarrow>
        order_ok ?key (x\<lparr>os_side := fd_side f, os_price := fd_price f, os_original_size := fd_size f,
          os_remaining_size := fd_size f, os_status := Accepted, os_last_timestamp_ns := fd_timestamp_ns f\<rparr>)"
        "os_trading_engine_id x = se_trading_engine_id session"
        by (auto simp: order_ok_def word_gt_0 isDefinedPrice_def)
      with ModifyOrder assms(1) Some show ?thesis
        by (auto simp: GS_processModifyOrder_def Let_def req GS_isValidActiveSide_def
            simp del: map_of_eq_Some_iff split: if_splits) (auto simp: acc simp del: map_of_eq_Some_iff)
    qed
  qed
qed

lemma orders_ok_trans: "orders_ok m \<Longrightarrow> trans_ok m t \<Longrightarrow> orders_ok (apply_trans m t)"
  by (auto simp: orders_ok_def apply_trans_def trans_ok_def)

lemma orders_ok_trans_seq: "orders_ok m \<Longrightarrow> trans_seq m ts \<Longrightarrow> orders_ok (foldl apply_trans m ts)"
  by (induction ts arbitrary: m) (auto simp: orders_ok_trans)

lemma GS_drainSession_trans:
  assumes "GS_drainSession session s chs acc n = Some (s', chs', acc', n')" "orders_ok (map_of (gs_orders s))"
  shows "\<exists>ts. acc' = acc @ ts \<and> trans_seq (map_of (gs_orders s)) ts \<and>
     map_of (gs_orders s') = foldl apply_trans (map_of (gs_orders s)) ts \<and> gs_sessions s' = gs_sessions s \<and>
     (\<forall>t \<in> set ts. fd_trading_engine_id (tr_fields t) = se_trading_engine_id session)"
  using assms
proof (induction session s chs acc n "(s', chs', acc', n')" rule: GS_drainSession.raw_induct [rotated, consumes 1, case_names 1])
  case (1 drain session s chs acc n)
  obtain r chs1 where pop: "pop_channel (se_channel session) OC_tryPopRequest chs = Some (r, chs1)"
    using 1(2) by (auto simp: bind_eq_Some_conv)
  show ?case
  proof (cases r)
    case None
    with 1(2) pop show ?thesis by auto
  next
    case (Some q)
    with 1(2) pop obtain t s2 chs2 where step: "GS_processRequest session q s chs1 = Some (t, s2, chs2)"
      "drain session s2 chs2 (acc @ [t]) (n + 1) = Some (s', chs', acc', n')"
      by (auto simp: bind_eq_Some_conv)
    from GS_processRequest_trans [OF step(1) 1(3)] have t: "trans_ok (map_of (gs_orders s)) t"
      "map_of (gs_orders s2) = apply_trans (map_of (gs_orders s)) t" "gs_sessions s2 = gs_sessions s"
      "fd_trading_engine_id (tr_fields t) = se_trading_engine_id session"
      by (metis OrderGatewayServer.select_convs(2) OrderGatewayServer.surjective OrderGatewayServer.update_convs(3))+
    have "orders_ok (map_of (gs_orders s2))" using orders_ok_trans [OF 1(3) t(1)] t(2) by simp
    from 1(1) [OF step(2) this] obtain ts where ts: "acc' = (acc @ [t]) @ ts"
      "trans_seq (map_of (gs_orders s2)) ts" "map_of (gs_orders s') = foldl apply_trans (map_of (gs_orders s2)) ts"
      "gs_sessions s' = gs_sessions s2" "\<forall>t \<in> set ts. fd_trading_engine_id (tr_fields t) = se_trading_engine_id session"
      by blast
    show ?thesis by (rule exI [of _ "t # ts"]) (use ts t in simp)
  qed
qed

lemma GS_drainEngines_trans:
  assumes "GS_drainEngines eids s chs acc n = Some (s', chs', acc', n')" "orders_ok (map_of (gs_orders s))"
    and "\<forall>eid x. map_of (gs_sessions s) eid = Some x \<longrightarrow> se_trading_engine_id x = eid"
  shows "\<exists>ts. acc' = acc @ ts \<and> trans_seq (map_of (gs_orders s)) ts \<and>
     map_of (gs_orders s') = foldl apply_trans (map_of (gs_orders s)) ts \<and> gs_sessions s' = gs_sessions s \<and>
     (\<forall>t \<in> set ts. GS_hasEngine (fd_trading_engine_id (tr_fields t)) s)"
  using assms
proof (induction eids s chs acc n rule: GS_drainEngines.induct)
  case (2 eid eids s chs acc n)
  show ?case
  proof (cases "map_of (gs_sessions s) eid")
    case None
    with 2 show ?thesis by (simp del: map_of_eq_None_iff)
  next
    case (Some session)
    with 2(3) obtain s1 chs1 acc1 n1 where d: "GS_drainSession session s chs acc n = Some (s1, chs1, acc1, n1)"
      "GS_drainEngines eids s1 chs1 acc1 n1 = Some (s', chs', acc', n')"
      by (auto simp: bind_eq_Some_conv simp del: map_of_eq_Some_iff)
    from GS_drainSession_trans [OF d(1) 2(4)] obtain ts1 where t1: "acc1 = acc @ ts1"
      "trans_seq (map_of (gs_orders s)) ts1" "map_of (gs_orders s1) = foldl apply_trans (map_of (gs_orders s)) ts1"
      "gs_sessions s1 = gs_sessions s" "\<forall>t \<in> set ts1. fd_trading_engine_id (tr_fields t) = se_trading_engine_id session"
      by blast
    have hs: "\<forall>t \<in> set ts1. GS_hasEngine (fd_trading_engine_id (tr_fields t)) s"
      using t1(5) 2(5) Some by (simp add: GS_hasEngine_def del: map_of_eq_Some_iff map_of_eq_None_iff)
    have "orders_ok (map_of (gs_orders s1))" using orders_ok_trans_seq [OF 2(4) t1(2)] t1(3) by simp
    moreover have "\<forall>eid x. map_of (gs_sessions s1) eid = Some x \<longrightarrow> se_trading_engine_id x = eid"
      using 2(5) t1(4) by simp
    ultimately obtain ts2 where "acc' = acc1 @ ts2"
      "trans_seq (map_of (gs_orders s1)) ts2" "map_of (gs_orders s') = foldl apply_trans (map_of (gs_orders s1)) ts2"
      "gs_sessions s' = gs_sessions s1" "\<forall>t \<in> set ts2. GS_hasEngine (fd_trading_engine_id (tr_fields t)) s1"
      using 2(2) [OF Some d(1) refl refl refl d(2)] by metis
    with t1 hs show ?thesis
      by (intro exI [of _ "ts1 @ ts2"]) (auto simp: GS_hasEngine_def simp del: map_of_eq_Some_iff map_of_eq_None_iff)
  qed
qed simp

lemma GS_drainRequestTransitions_correct:
  assumes "gateway_inv (s, chs)"
  shows "\<exists>ts s' chs'. GS_drainRequestTransitions s chs = Some (ts, s', chs') \<and> gateway_inv (s', chs') \<and>
     trans_seq (map_of (gs_orders s)) ts \<and> map_of (gs_orders s') = foldl apply_trans (map_of (gs_orders s)) ts \<and>
     gs_sessions s' = gs_sessions s \<and> (\<forall>t \<in> set ts. GS_hasEngine (fd_trading_engine_id (tr_fields t)) s')"
proof -
  from GS_drainEngines_correct [OF assms, of "gs_engine_order s" "[]" 0] obtain s' chs' ts n where
    d: "GS_drainEngines (gs_engine_order s) s chs [] 0 = Some (s', chs', ts, n)" "gateway_inv (s', chs')" by auto
  have "orders_ok (map_of (gs_orders s))" "\<forall>eid x. map_of (gs_sessions s) eid = Some x \<longrightarrow> se_trading_engine_id x = eid"
    using assms by (auto simp: gateway_inv_def simp del: map_of_eq_Some_iff)
  from GS_drainEngines_trans [OF d(1) this] d show ?thesis
    by (auto simp: GS_drainRequestTransitions_def GS_drainRequests_into_def GS_hasEngine_def
        simp del: map_of_eq_Some_iff map_of_eq_None_iff)
qed

section \<open>The mappings and the resting orders\<close>

definition ids_ok :: "EngineView \<Rightarrow> bool" where
  "ids_ok v \<longleftrightarrow> 0 < vw_next_order_id v \<and> (\<forall>k \<in> dom (map_of (vw_own_orders v)). k < vw_next_order_id v)"

definition synthetic_of :: "ExecutionOrderMapping \<Rightarrow> SyntheticOrder" where
  "synthetic_of m = \<lparr>so_instrument_id = xm_instrument_id m, so_side = xm_side m, so_price = xm_price m,
                  so_size = xm_remaining_size m, so_timestamp_ns = xm_last_timestamp_ns m\<rparr>"

definition rests :: "EngineViews \<Rightarrow> OrderKey \<Rightarrow> ExecutionOrderMapping \<Rightarrow> bool" where
  "rests views key m \<longleftrightarrow>
     (xm_trading_engine_id m, xm_gateway_order_id m) = key \<and> 0 < xm_remaining_size m \<and>
     (\<exists>v. map_of views (engine_of (fst key)) = Some v \<and>
          map_of (vw_own_orders v) (xm_synthetic_order_id m) =
            Some (synthetic_of m))"

definition mappings_exact :: "EngineViews \<Rightarrow> (OrderKey, ExecutionOrderMapping) umap \<Rightarrow> bool" where
  "mappings_exact views maps \<longleftrightarrow>
     (\<forall>key m. map_of maps key = Some m \<longrightarrow> rests views key m) \<and>
     (\<forall>eid oid oid' m m'. map_of maps (eid, oid) = Some m \<and> map_of maps (eid, oid') = Some m' \<and>
        xm_synthetic_order_id m = xm_synthetic_order_id m' \<longrightarrow> oid = oid') \<and>
     (\<forall>e v k. map_of views e = Some v \<and> k \<in> dom (map_of (vw_own_orders v)) \<longrightarrow>
        (\<exists>eid oid m. engine_of eid = e \<and> map_of maps (eid, oid) = Some m \<and> xm_synthetic_order_id m = k)) \<and>
     (\<forall>e v. map_of views e = Some v \<longrightarrow> ids_ok v)"

lemma mappings_exact_inj:
  "mappings_exact views maps \<Longrightarrow> map_of maps (eid, oid) = Some m \<Longrightarrow> map_of maps (eid, oid') = Some m' \<Longrightarrow>
   xm_synthetic_order_id m = xm_synthetic_order_id m' \<Longrightarrow> oid = oid'"
  unfolding mappings_exact_def by blast

lemma own_cancel:
  "map_of (vw_own_orders (EV_cancelSyntheticOrder k v)) = (map_of (vw_own_orders v))(k := None)"
  "vw_next_order_id (EV_cancelSyntheticOrder k v) = vw_next_order_id v"
  by (auto simp: EV_cancelSyntheticOrder_def Let_def delete_conv fun_eq_iff simp del: map_of_eq_Some_iff
      split: option.split)

lemma mappings_exact_erase:
  assumes ex: "mappings_exact views maps" and m: "map_of maps (eid, oid) = Some m"
    and v: "map_of views (engine_of eid) = Some v"
  shows "mappings_exact (AList.update (engine_of eid) (EV_cancelSyntheticOrder (xm_synthetic_order_id m) v) views)
     (AList.delete (eid, oid) maps)"
  unfolding mappings_exact_def
proof (intro conjI allI impI; (elim conjE)?)
  let ?views = "AList.update (engine_of eid) (EV_cancelSyntheticOrder (xm_synthetic_order_id m) v) views"
  {
    fix key n assume n: "map_of (AList.delete (eid, oid) maps) key = Some n"
    then have n': "map_of maps key = Some n" "key \<noteq> (eid, oid)" by (auto simp del: map_of_eq_Some_iff split: if_splits)
    then have r: "rests views key n" using ex unfolding mappings_exact_def by blast
    have "fst key = eid \<Longrightarrow> xm_synthetic_order_id n \<noteq> xm_synthetic_order_id m"
      using ex m n' unfolding mappings_exact_def by (metis prod.collapse)
    with r v show "rests ?views key n" by (auto simp: rests_def own_cancel simp del: map_of_eq_Some_iff)
  next
    fix e v' k assume v': "map_of ?views e = Some v'" and k: "k \<in> dom (map_of (vw_own_orders v'))"
    from v' v k have "\<exists>v0. map_of views e = Some v0 \<and> k \<in> dom (map_of (vw_own_orders v0)) \<and>
        \<not> (e = engine_of eid \<and> k = xm_synthetic_order_id m)"
      by (auto simp: own_cancel simp del: map_of_eq_Some_iff split: if_splits)
    then obtain eid' oid' n where n: "engine_of eid' = e" "map_of maps (eid', oid') = Some n"
      "xm_synthetic_order_id n = k" "\<not> (e = engine_of eid \<and> k = xm_synthetic_order_id m)"
      using ex unfolding mappings_exact_def by blast
    with m have "(eid', oid') \<noteq> (eid, oid)" by auto
    with n show "\<exists>eid' oid' n. engine_of eid' = e \<and> map_of (AList.delete (eid, oid) maps) (eid', oid') = Some n \<and>
        xm_synthetic_order_id n = k"
      by (intro exI [of _ eid'] exI [of _ oid'] exI [of _ n]) (simp del: map_of_eq_Some_iff)
  next
    fix e v' assume "map_of ?views e = Some v'"
    with ex v show "ids_ok v'" unfolding mappings_exact_def
      by (auto simp: own_cancel ids_ok_def dom_def simp del: map_of_eq_Some_iff split: if_splits)
  }
  fix e o1 o2 n1 n2 assume "map_of (AList.delete (eid, oid) maps) (e, o1) = Some n1"
    "map_of (AList.delete (eid, oid) maps) (e, o2) = Some n2" "xm_synthetic_order_id n1 = xm_synthetic_order_id n2"
  then show "o1 = o2"
    using mappings_exact_inj [OF ex, of e o1 n1 o2 n2] by (simp del: map_of_eq_Some_iff split: if_splits)
qed

lemma mappings_exact_add:
  assumes ex: "mappings_exact views maps" and key: "map_of maps (eid, oid) = None"
    and v: "map_of views (engine_of eid) = Some v" and room: "vw_next_order_id v \<noteq> - 1"
    and v': "map_of (vw_own_orders v') = (map_of (vw_own_orders v))(vw_next_order_id v \<mapsto> synthetic_of m)"
      "vw_next_order_id v' = vw_next_order_id v + 1"
    and m: "xm_trading_engine_id m = eid" "xm_gateway_order_id m = oid" "0 < xm_remaining_size m"
      "xm_synthetic_order_id m = vw_next_order_id v"
  shows "mappings_exact (AList.update (engine_of eid) v' views) (AList.update (eid, oid) m maps)"
  unfolding mappings_exact_def
proof (intro conjI allI impI; (elim conjE)?)
  have ids: "ids_ok v" using ex v unfolding mappings_exact_def by blast
  have old: "xm_synthetic_order_id n \<noteq> vw_next_order_id v" if "map_of maps (eid, oid') = Some n" for oid' n
  proof -
    have "rests views (eid, oid') n" using ex that unfolding mappings_exact_def by blast
    with v ids show ?thesis by (auto simp: rests_def ids_ok_def simp del: map_of_eq_Some_iff)
  qed
  {
    fix key' n assume n: "map_of (AList.update (eid, oid) m maps) key' = Some n"
    show "rests (AList.update (engine_of eid) v' views) key' n"
    proof (cases "key' = (eid, oid)")
      case True
      with n v' m show ?thesis by (auto simp: rests_def simp del: map_of_eq_Some_iff)
    next
      case False
      with n have n': "map_of maps key' = Some n" by (simp del: map_of_eq_Some_iff)
      then have r: "rests views key' n" using ex unfolding mappings_exact_def by blast
      have "fst key' = eid \<Longrightarrow> xm_synthetic_order_id n \<noteq> vw_next_order_id v" using n' old by (metis prod.collapse)
      with r v v' show ?thesis by (auto simp: rests_def simp del: map_of_eq_Some_iff)
    qed
  next
    fix e o1 o2 n1 n2 assume "map_of (AList.update (eid, oid) m maps) (e, o1) = Some n1"
      "map_of (AList.update (eid, oid) m maps) (e, o2) = Some n2" "xm_synthetic_order_id n1 = xm_synthetic_order_id n2"
    then show "o1 = o2"
      using old m(4) mappings_exact_inj [OF ex, of e o1 n1 o2 n2]
      by (cases "e = eid"; cases "o1 = oid"; cases "o2 = oid") (auto simp del: map_of_eq_Some_iff)
  next
    fix e w k assume w: "map_of (AList.update (engine_of eid) v' views) e = Some w" "k \<in> dom (map_of (vw_own_orders w))"
    show "\<exists>eid' oid' n. engine_of eid' = e \<and> map_of (AList.update (eid, oid) m maps) (eid', oid') = Some n \<and>
        xm_synthetic_order_id n = k"
    proof (cases "e = engine_of eid \<and> k = vw_next_order_id v")
      case True
      with m show ?thesis by (intro exI [of _ eid] exI [of _ oid] exI [of _ m]) simp
    next
      case False
      with w v v' have "\<exists>v0. map_of views e = Some v0 \<and> k \<in> dom (map_of (vw_own_orders v0))"
        by (auto simp del: map_of_eq_Some_iff split: if_splits)
      then obtain eid' oid' n where n: "engine_of eid' = e" "map_of maps (eid', oid') = Some n" "xm_synthetic_order_id n = k"
        using ex unfolding mappings_exact_def by blast
      then have "(eid', oid') \<noteq> (eid, oid)" using key by (metis option.distinct(1))
      with n show ?thesis by (intro exI [of _ eid'] exI [of _ oid'] exI [of _ n]) (auto simp del: map_of_eq_Some_iff)
    qed
  next
    fix e w assume "map_of (AList.update (engine_of eid) v' views) e = Some w"
    moreover have "ids_ok v'"
      using ids v' less_suc_u64 [OF room] unfolding ids_ok_def
      by (auto simp: less_imp_le dest!: bspec simp del: map_of_eq_Some_iff)
    moreover have "map_of views e = Some w \<Longrightarrow> ids_ok w" using ex unfolding mappings_exact_def by blast
    ultimately show "ids_ok w" by (auto simp del: map_of_eq_Some_iff split: if_splits)
  }
qed

lemma mappings_exact_keep:
  assumes ex: "mappings_exact views maps"
    and v: "map_of views e = Some v" and room: "vw_next_order_id v \<noteq> - 1"
    and v': "map_of (vw_own_orders v') = map_of (vw_own_orders v)" "vw_next_order_id v' = vw_next_order_id v + 1"
  shows "mappings_exact (AList.update e v' views) maps"
proof -
  have ids: "ids_ok v" using ex v unfolding mappings_exact_def by blast
  have "ids_ok v'" using ids v' less_suc_u64 [OF room] unfolding ids_ok_def by (auto intro: order.strict_trans)
  moreover have "rests (AList.update e v' views) key m" if "rests views key m" for key m
    using that v v' by (auto simp: rests_def simp del: map_of_eq_Some_iff)
  ultimately show ?thesis
    using ex v v' unfolding mappings_exact_def
    by (simp add: if_split_mem2 del: map_of_eq_Some_iff) (metis option.inject)
qed

section \<open>Executing one accepted order\<close>

abbreviation after_fills :: "order_map \<Rightarrow> OrderKey \<Rightarrow> SimulatedFill list \<Rightarrow> order_map" where
  "after_fills m key fs \<equiv> foldl (\<lambda>m f. after_fill m (fst key) (snd key) (sf_size f) (sf_timestamp_ns f)) m fs"

lemma XB_emitFills_correct:
  assumes "gateway_inv (s, chs)"
  shows "\<exists>result' s' chs'. XB_emitFills eid oid fs result s chs = Some (result', s', chs') \<and> gateway_inv (s', chs') \<and>
     gs_sessions s' = gs_sessions s \<and> xr_transitions result' = xr_transitions result \<and>
     map_of (gs_orders s') = (if GS_hasEngine eid s then after_fills (map_of (gs_orders s)) (eid, oid) fs
                              else map_of (gs_orders s))"
  using assms
proof (induction fs arbitrary: s chs result)
  case (Cons f fs)
  from GS_emitFill_inv [OF Cons.prems, of eid oid "sf_price f" "sf_size f" "sf_timestamp_ns f"] obtain b s1 chs1 where
    e: "GS_emitFill eid oid (sf_price f) (sf_size f) (sf_timestamp_ns f) s chs = Some (b, s1, chs1)"
      "gateway_inv (s1, chs1)" "gs_sessions s1 = gs_sessions s"
      "map_of (gs_orders s1) = (if GS_hasEngine eid s
         then after_fill (map_of (gs_orders s)) eid oid (sf_size f) (sf_timestamp_ns f) else map_of (gs_orders s))"
    by blast
  have "GS_hasEngine eid s1 = GS_hasEngine eid s" using e(3) by (simp add: GS_hasEngine_def)
  with e Cons.IH [OF e(2), of "if b then result\<lparr>xr_fills_emitted := xr_fills_emitted result + 1\<rparr> else result"]
  show ?case by (auto simp del: map_of_eq_Some_iff)
qed auto

lemma after_fills_exact:
  assumes "m key = Some x" "\<not> GS_isTerminal (os_status x)" "0 < os_remaining_size x"
    and "\<forall>f \<in> set fs. 0 < sf_size f" "sum_list (map (unat \<circ> sf_size) fs) + unat r = unat (os_remaining_size x)"
  shows "\<exists>x'. after_fills m key fs = m(key \<mapsto> x') \<and> os_remaining_size x' = r \<and>
     (GS_isTerminal (os_status x') \<longleftrightarrow> r = 0) \<and> os_instrument_id x' = os_instrument_id x \<and>
     os_side x' = os_side x \<and> os_price x' = os_price x"
  using assms
proof (induction fs arbitrary: m x)
  case Nil
  then have "r = os_remaining_size x" by (simp add: word_unat_eq_iff)
  with Nil show ?case by (intro exI [of _ x]) auto
next
  case (Cons f fs)
  define rem where "rem = os_remaining_size x - sf_size f"
  define x1 where "x1 = x\<lparr>os_remaining_size := rem,
    os_status := (if rem = 0 then Filled else PartiallyFilled), os_last_timestamp_ns := sf_timestamp_ns f\<rparr>"
  have le: "sf_size f \<le> os_remaining_size x" using Cons.prems(5) by (simp add: word_le_nat_alt)
  have unat_rem: "unat rem = unat (os_remaining_size x) - unat (sf_size f)" using le by (simp add: rem_def unat_diff_u64)
  have fill: "after_fill m (fst key) (snd key) (sf_size f) (sf_timestamp_ns f) = m(key \<mapsto> x1)"
    using Cons.prems(1,2,4) le by (auto simp: after_fill_def x1_def rem_def min_def Let_def)
  show ?case
  proof (cases "rem = 0")
    case True
    have "sum_list (map (unat \<circ> sf_size) fs) = 0 \<and> unat r = 0"
      using True unat_rem Cons.prems(5) by (simp only: unat_0 list.map sum_list.Cons o_def) arith
    then have "fs = []" "r = 0" using Cons.prems(4) by (cases fs; auto simp: unat_eq_zero)+
    with True fill show ?thesis
      by (auto simp: x1_def GS_isTerminal_def)
  next
    case False
    have "\<exists>x'. after_fills (m(key \<mapsto> x1)) key fs = m(key \<mapsto> x1, key \<mapsto> x') \<and> os_remaining_size x' = r \<and>
       (GS_isTerminal (os_status x') \<longleftrightarrow> r = 0) \<and> os_instrument_id x' = os_instrument_id x1 \<and>
       os_side x' = os_side x1 \<and> os_price x' = os_price x1"
      by (rule Cons.IH) (use False unat_rem Cons.prems(4,5) in
        \<open>auto simp: x1_def GS_isTerminal_def word_gt_0\<close>)
    with fill show ?thesis by (auto simp: x1_def)
  qed
qed

lemma FS_submit_shape:
  assumes src: "source_ok src" and views: "views_ok views"
    and v: "map_of views (rq_engine_id rq) = Some v" and valid: "hasValidRequest rq"
  obtains result v' r where
    "FS_submitLimitOrderResult src views rq = Some (result, AList.update (rq_engine_id rq) v' views)"
    "sr_synthetic_order_id result = vw_next_order_id v" "sr_remaining_size result = r"
    "\<forall>f \<in> set (sr_fills result). 0 < sf_size f"
    "sum_list (map (unat \<circ> sf_size) (sr_fills result)) + unat r = unat (rq_size rq)"
    "vw_next_order_id v' = vw_next_order_id v + 1"
    "map_of (vw_own_orders v') = (if 0 < r then (map_of (vw_own_orders v))(vw_next_order_id v \<mapsto>
       \<lparr>so_instrument_id = rq_instrument_id rq, so_side = rq_side rq, so_price = rq_limit_price rq, so_size = r,
        so_timestamp_ns = rq_timestamp_ns rq\<rparr>) else map_of (vw_own_orders v))"
proof -
  have ok: "EV_levels_ok v" using views v by (simp add: views_ok_def del: map_of_eq_Some_iff)
  obtain fs r where sw: "sweep (accepts rq) (opposite_levels src rq v) (rq_size rq) = (fs, r)" by fastforce
  have pos: "\<forall>(p, f) \<in> set fs. 0 < f"
    using sweep_fills [OF sw] opposite_positive [OF src ok, of rq] by fast
  have "sum_list (map (unat \<circ> sf_size) (map (\<lambda>(p, f). makeFill rq (vw_next_order_id v) p f) fs)) =
      sum_list (map (unat \<circ> snd) fs)"
    by (induction fs) (auto simp: makeFill_def)
  with sweep_conserves [OF sw] have
    sum: "sum_list (map (unat \<circ> sf_size) (map (\<lambda>(p, f). makeFill rq (vw_next_order_id v) p f) fs)) + unat r = unat (rq_size rq)"
    by linarith
  show ?thesis
    by (rule that [OF FS_submit_eq [OF src v ok valid sw]])
      (use pos sum in \<open>auto simp: makeFill_def consume_all_frame EV_addSyntheticOrderWithId_def AList.update_conv'\<close>)
qed

text \<open>
  What submitting an accepted order does to the bridge, when the order has no mapping yet: nothing
  if the simulator refuses it, and otherwise the fills, the rest and the mapping belong together.
\<close>

definition mapping_of :: "OrderFields \<Rightarrow> u64 \<Rightarrow> quantity \<Rightarrow> ExecutionOrderMapping" where
  "mapping_of f k r =
     \<lparr>xm_trading_engine_id = fd_trading_engine_id f, xm_gateway_order_id = fd_order_id f, xm_synthetic_order_id = k,
      xm_instrument_id = fd_instrument_id f, xm_side = fd_side f, xm_price = fd_price f, xm_remaining_size = r,
      xm_last_timestamp_ns = fd_timestamp_ns f\<rparr>"

definition submit_outcome :: "OrderGatewayTransition \<Rightarrow> OrderExecutionBridge \<Rightarrow> OrderExecutionBridge \<Rightarrow> bool" where
  "submit_outcome t b b' \<longleftrightarrow>
     (if \<not> hasValidRequest (simulated_request (tr_fields t)) \<or> map_of (xb_views b) (engine_of (fst (trans_key t))) = None
      then b' = b
      else \<exists>v v' fs r m. map_of (xb_views b) (engine_of (fst (trans_key t))) = Some v \<and>
        xb_views b' = AList.update (engine_of (fst (trans_key t))) v' (xb_views b) \<and>
        vw_next_order_id v' = vw_next_order_id v + 1 \<and>
        (\<forall>f \<in> set fs. 0 < sf_size f) \<and> sum_list (map (unat \<circ> sf_size) fs) + unat r = unat (fd_size (tr_fields t)) \<and>
        m = mapping_of (tr_fields t) (vw_next_order_id v) r \<and>
        map_of (vw_own_orders v') = (if 0 < r then (map_of (vw_own_orders v))(vw_next_order_id v \<mapsto>
          synthetic_of m) else map_of (vw_own_orders v)) \<and>
        map_of (gs_orders (xb_server b')) =
          (if GS_hasEngine (fst (trans_key t)) (xb_server b)
           then after_fills (map_of (gs_orders (xb_server b))) (trans_key t) fs
           else map_of (gs_orders (xb_server b))) \<and>
        xb_mappings b' = (if vw_next_order_id v = 0 \<or> r = 0 then xb_mappings b
                          else AList.update (trans_key t) m (xb_mappings b)))"

lemma submit_outcome_cases:
  assumes "submit_outcome t b b'"
  obtains (refused) "\<not> hasValidRequest (simulated_request (tr_fields t)) \<or>
      map_of (xb_views b) (engine_of (fst (trans_key t))) = None" "b' = b"
  | (executed) v v' fs r m where "map_of (xb_views b) (engine_of (fst (trans_key t))) = Some v"
      "xb_views b' = AList.update (engine_of (fst (trans_key t))) v' (xb_views b)"
      "vw_next_order_id v' = vw_next_order_id v + 1"
      "\<forall>f \<in> set fs. 0 < sf_size f" "sum_list (map (unat \<circ> sf_size) fs) + unat r = unat (fd_size (tr_fields t))"
      "m = mapping_of (tr_fields t) (vw_next_order_id v) r"
      "map_of (vw_own_orders v') = (if 0 < r then (map_of (vw_own_orders v))(vw_next_order_id v \<mapsto> synthetic_of m)
         else map_of (vw_own_orders v))"
      "map_of (gs_orders (xb_server b')) = (if GS_hasEngine (fst (trans_key t)) (xb_server b)
         then after_fills (map_of (gs_orders (xb_server b))) (trans_key t) fs else map_of (gs_orders (xb_server b)))"
      "xb_mappings b' = (if vw_next_order_id v = 0 \<or> r = 0 then xb_mappings b
         else AList.update (trans_key t) m (xb_mappings b))"
proof (cases "\<not> hasValidRequest (simulated_request (tr_fields t)) \<or>
    map_of (xb_views b) (engine_of (fst (trans_key t))) = None")
  case True
  from refused [OF True] assms [unfolded submit_outcome_def if_P [OF True]] show ?thesis by blast
next
  case False
  from assms [unfolded submit_outcome_def if_not_P [OF False]] show ?thesis
    by (elim exE conjE) (rule executed; assumption)
qed

definition bridge_ok :: "OrderExecutionBridge \<times> Channels \<Rightarrow> bool" where
  "bridge_ok bc \<longleftrightarrow>
     gateway_inv (xb_server (fst bc), snd bc) \<and> source_ok (xb_source (fst bc)) \<and> views_ok (xb_views (fst bc))"

lemma XB_submit_effect:
  assumes ok: "bridge_ok (b, chs)" and key: "map_of (xb_mappings b) (trans_key t) = None"
  shows "\<exists>result' b' chs'. XB_submitAcceptedOrder t result b chs = Some (result', b', chs') \<and>
     bridge_ok (b', chs') \<and> gs_sessions (xb_server b') = gs_sessions (xb_server b) \<and>
     xr_transitions result' = xr_transitions result \<and> submit_outcome t b b'"
proof (cases "hasValidRequest (simulated_request (tr_fields t)) \<and> map_of (xb_views b) (engine_of (fst (trans_key t))) \<noteq> None")
  case False
  then have sub: "FS_submitLimitOrderResult (xb_source b) (xb_views b) (simulated_request (tr_fields t)) =
      Some (\<lparr>sr_synthetic_order_id = 0, sr_requested_size = fd_size (tr_fields t), sr_filled_size = 0,
             sr_remaining_size = 0, sr_fills = []\<rparr>, xb_views b)"
    by (auto simp: FS_submitLimitOrderResult_def Let_def simulated_request_def simp del: map_of_eq_Some_iff map_of_eq_None_iff
        split: option.split)
  have "XB_submitAcceptedOrder t result b chs = Some (result, b, chs)"
    using key by (simp add: XB_submitAcceptedOrder_def Let_def sub XB_storeOrEraseMapping_def XB_eraseMapping_def)
  with False ok show ?thesis by (auto simp: submit_outcome_def)
next
  case True
  let ?f = "tr_fields t" and ?rq = "simulated_request (tr_fields t)" and ?key = "trans_key t"
  from True obtain v where v: "map_of (xb_views b) (engine_of (fst ?key)) = Some v" by blast
  have inv: "gateway_inv (xb_server b, chs)" "source_ok (xb_source b)" "views_ok (xb_views b)"
    using ok by (auto simp: bridge_ok_def)
  have rq: "rq_engine_id ?rq = engine_of (fst ?key)" "rq_instrument_id ?rq = fd_instrument_id ?f" "rq_side ?rq = fd_side ?f"
    "rq_limit_price ?rq = fd_price ?f" "rq_size ?rq = fd_size ?f" "rq_timestamp_ns ?rq = fd_timestamp_ns ?f"
    by (simp_all add: simulated_request_def)
  obtain sres v' r where s: "FS_submitLimitOrderResult (xb_source b) (xb_views b) ?rq =
      Some (sres, AList.update (engine_of (fst ?key)) v' (xb_views b))"
    "sr_synthetic_order_id sres = vw_next_order_id v" "sr_remaining_size sres = r"
    "\<forall>f \<in> set (sr_fills sres). 0 < sf_size f"
    "sum_list (map (unat \<circ> sf_size) (sr_fills sres)) + unat r = unat (fd_size ?f)"
    "vw_next_order_id v' = vw_next_order_id v + 1"
    "map_of (vw_own_orders v') = (if 0 < r then (map_of (vw_own_orders v))(vw_next_order_id v \<mapsto>
       \<lparr>so_instrument_id = fd_instrument_id ?f, so_side = fd_side ?f, so_price = fd_price ?f, so_size = r,
        so_timestamp_ns = fd_timestamp_ns ?f\<rparr>) else map_of (vw_own_orders v))"
    by (rule FS_submit_shape [OF inv(2,3), of ?rq v]) (use v True in \<open>simp_all add: rq del: map_of_eq_Some_iff\<close>)
  have views': "views_ok (AList.update (engine_of (fst ?key)) v' (xb_views b))"
    using FS_submit_total [OF inv(2,3), of ?rq] s(1) by auto
  from XB_emitFills_correct [OF inv(1), of "fst ?key" "snd ?key" "sr_fills sres" result] obtain res1 sv chs' where
    e: "XB_emitFills (fst ?key) (snd ?key) (sr_fills sres) result (xb_server b) chs = Some (res1, sv, chs')"
      "gateway_inv (sv, chs')" "gs_sessions sv = gs_sessions (xb_server b)" "xr_transitions res1 = xr_transitions result"
      "map_of (gs_orders sv) = (if GS_hasEngine (fst ?key) (xb_server b)
         then after_fills (map_of (gs_orders (xb_server b))) ?key (sr_fills sres) else map_of (gs_orders (xb_server b)))"
    by auto
  let ?m = "mapping_of ?f (vw_next_order_id v) r"
  define b' where "b' = b\<lparr>xb_server := sv, xb_views := AList.update (engine_of (fst ?key)) v' (xb_views b),
      xb_mappings := (if vw_next_order_id v = 0 \<or> r = 0 then xb_mappings b else AList.update ?key ?m (xb_mappings b))\<rparr>"
  have "\<exists>res'. XB_submitAcceptedOrder t result b chs = Some (res', b', chs') \<and> xr_transitions res' = xr_transitions result"
    using s(1-3) e(1,4) key
    by (simp add: XB_submitAcceptedOrder_def Let_def XB_storeOrEraseMapping_def XB_eraseMapping_def b'_def mapping_of_def)
  moreover have "submit_outcome t b b'"
    unfolding submit_outcome_def using True v s(4-7) e(5)
    by (subst if_not_P) (simp, intro exI [of _ v] exI [of _ v'] exI [of _ "sr_fills sres"] exI [of _ r] exI [of _ ?m],
        simp add: b'_def synthetic_of_def mapping_of_def del: map_of_eq_Some_iff map_of_eq_None_iff)
  moreover have "bridge_ok (b', chs')" using inv(2) views' e(2) by (simp add: bridge_ok_def b'_def)
  ultimately show ?thesis using e(3) by (auto simp: b'_def)
qed

section \<open>Executing the transitions of a drain\<close>

text \<open>No engine is about to use up its 64-bit synthetic order ids: \<open>n\<close> more of them fit.\<close>

definition id_room :: "nat \<Rightarrow> EngineViews \<Rightarrow> bool" where
  "id_room n views \<longleftrightarrow> (\<forall>e v. map_of views e = Some v \<longrightarrow> unat (vw_next_order_id v) + n < two64)"

abbreviation exact :: "OrderExecutionBridge \<Rightarrow> bool" where
  "exact b \<equiv> mappings_exact (xb_views b) (xb_mappings b)"

abbreviation mapped_keys :: "OrderExecutionBridge \<Rightarrow> OrderKey set" where
  "mapped_keys b \<equiv> dom (map_of (xb_mappings b))"

lemma id_room_mono: "id_room n views \<Longrightarrow> k \<le> n \<Longrightarrow> id_room k views"
  by (fastforce simp: id_room_def simp del: map_of_eq_Some_iff)

lemma XB_erase_effect:
  assumes ok: "bridge_ok (b, chs)" and er: "XB_eraseMapping eid oid result b = (result', b')"
  shows "bridge_ok (b', chs)" "xb_server b' = xb_server b" "xr_transitions result' = xr_transitions result"
    "map_of (xb_mappings b') = (map_of (xb_mappings b))((eid, oid) := None)"
    "id_room n (xb_views b) \<Longrightarrow> id_room n (xb_views b')" "exact b \<Longrightarrow> exact b'"
    "map_of (xb_views b') e = None \<longleftrightarrow> map_of (xb_views b) e = None"
proof -
  have "bridge_ok (b', chs) \<and> xb_server b' = xb_server b \<and> xr_transitions result' = xr_transitions result \<and>
    map_of (xb_mappings b') = (map_of (xb_mappings b))((eid, oid) := None) \<and>
    (id_room n (xb_views b) \<longrightarrow> id_room n (xb_views b')) \<and> (exact b \<longrightarrow> exact b') \<and>
    (map_of (xb_views b') e = None \<longleftrightarrow> map_of (xb_views b) e = None)"
  proof (cases "map_of (xb_mappings b) (eid, oid)")
    case None
    with ok er show ?thesis by (auto simp: XB_eraseMapping_def simp del: map_of_eq_None_iff)
  next
    case (Some m)
    show ?thesis
    proof (cases "map_of (xb_views b) (engine_of eid)")
      case None
      have "\<not> exact b" using Some None unfolding mappings_exact_def rests_def by fastforce
      with Some None ok er show ?thesis
        by (auto simp: XB_eraseMapping_def bridge_ok_def delete_conv simp del: map_of_eq_None_iff map_of_eq_Some_iff)
    next
      case v: (Some v)
      have "views_ok (AList.update (engine_of eid) (EV_cancelSyntheticOrder (xm_synthetic_order_id m) v) (xb_views b))"
        using ok v by (auto simp: bridge_ok_def views_ok_def EV_levels_ok_cancel simp del: map_of_eq_Some_iff)
      with Some v ok er mappings_exact_erase [of "xb_views b" "xb_mappings b" eid oid m v] show ?thesis
        by (auto simp: XB_eraseMapping_def bridge_ok_def delete_conv id_room_def own_cancel
            simp del: map_of_eq_None_iff map_of_eq_Some_iff split: if_splits)
    qed
  qed
  then show "bridge_ok (b', chs)" "xb_server b' = xb_server b" "xr_transitions result' = xr_transitions result"
    "map_of (xb_mappings b') = (map_of (xb_mappings b))((eid, oid) := None)"
    "id_room n (xb_views b) \<Longrightarrow> id_room n (xb_views b')" "exact b \<Longrightarrow> exact b'"
    "map_of (xb_views b') e = None \<longleftrightarrow> map_of (xb_views b) e = None"
    by blast+
qed

lemma submit_outcome_exact:
  assumes out: "submit_outcome t b b'" and key: "map_of (xb_mappings b) (trans_key t) = None"
    and room: "id_room (Suc n) (xb_views b)" and ex: "exact b"
  shows "exact b'" "id_room n (xb_views b')"
proof -
  let ?key = "trans_key t"
  from out have "exact b' \<and> id_room n (xb_views b')"
  proof (cases rule: submit_outcome_cases)
    case refused
    with room ex show ?thesis by (auto intro: id_room_mono)
  next
    case (executed v v' fs r m)
    note o = executed
    have nxt: "unat (vw_next_order_id v) + Suc n < two64" using room o(1) unfolding id_room_def by blast
    then have ne: "vw_next_order_id v \<noteq> - 1" by (auto simp: unat_minus_one_u64)
    then have nxt': "unat (vw_next_order_id v + 1) + n < two64" using unat_suc_u64 [OF ne] nxt by linarith
    have "ids_ok v" using ex o(1) unfolding mappings_exact_def by blast
    then have pos: "vw_next_order_id v \<noteq> 0" by (auto simp: ids_ok_def)
    have "exact b'"
    proof (cases "r = 0")
      case True
      with mappings_exact_keep [OF ex o(1) ne, of v'] o show ?thesis by simp
    next
      case False
      then have r: "0 < r" by (simp add: word_gt_0)
      have "mappings_exact (AList.update (engine_of (fst ?key)) v' (xb_views b))
          (AList.update (fst ?key, snd ?key) m (xb_mappings b))"
        by (rule mappings_exact_add [OF ex _ o(1) ne]) (use o r key in \<open>simp_all add: mapping_of_def\<close>)
      with o False pos show ?thesis by simp
    qed
    moreover have "id_room n (xb_views b')"
      unfolding id_room_def o(2) using nxt' o(3) id_room_mono [OF room, of n]
      by (simp add: id_room_def del: map_of_eq_Some_iff)
    ultimately show ?thesis ..
  qed
  then show "exact b'" "id_room n (xb_views b')" by auto
qed

lemma submit_outcome_keys:
  assumes "submit_outcome t b b'"
  shows "mapped_keys b' \<subseteq> insert (trans_key t) (mapped_keys b)"
  using assms
  by (cases rule: submit_outcome_cases) (auto simp: AList.update_conv' simp del: map_of_eq_Some_iff map_of_eq_None_iff split: if_splits)

lemma after_fill_dom [simp]: "dom (after_fill m eid oid sz ts) = dom m"
  by (auto simp: after_fill_def Let_def split: option.splits if_splits)

lemma after_fills_dom [simp]: "dom (after_fills m key fs) = dom m"
  by (induction fs arbitrary: m) auto

abbreviation order_keys :: "OrderExecutionBridge \<Rightarrow> OrderKey set" where
  "order_keys b \<equiv> dom (map_of (gs_orders (xb_server b)))"

lemma dom_apply_trans: "dom (apply_trans m t) = (if tr_type t = TransRejected then dom m else insert (trans_key t) (dom m))"
  by (simp add: apply_trans_def)

lemma submit_outcome_orders:
  "submit_outcome t b b' \<Longrightarrow> order_keys b' = order_keys b"
proof (erule submit_outcome_cases)
  fix fs assume *: "map_of (gs_orders (xb_server b')) = (if GS_hasEngine (fst (trans_key t)) (xb_server b)
      then after_fills (map_of (gs_orders (xb_server b))) (trans_key t) fs else map_of (gs_orders (xb_server b)))"
  show ?thesis unfolding * by (simp only: after_fills_dom split: if_split) simp
qed simp

definition trans_outcome :: "OrderGatewayTransition \<Rightarrow> OrderExecutionBridge \<Rightarrow> OrderExecutionBridge \<Rightarrow> bool" where
  "trans_outcome t b b' \<longleftrightarrow>
     (case tr_type t of
        TransRejected \<Rightarrow> b' = b
      | TransCancelAccepted \<Rightarrow> (\<exists>r r'. XB_eraseMapping (fst (trans_key t)) (snd (trans_key t)) r b = (r', b'))
      | TransNewAccepted \<Rightarrow> submit_outcome t b b'
      | TransModifyAccepted \<Rightarrow> (\<exists>b1 r r'. XB_eraseMapping (fst (trans_key t)) (snd (trans_key t)) r b = (r', b1) \<and>
          submit_outcome t b1 b'))"

lemma XB_processTransition_effect:
  assumes ok: "bridge_ok (b, chs)" and t: "trans_ok m t" and keys: "mapped_keys b \<subseteq> dom m"
  shows "\<exists>result' b' chs'. XB_processTransition t result b chs = Some (result', b', chs') \<and>
     bridge_ok (b', chs') \<and> gs_sessions (xb_server b') = gs_sessions (xb_server b) \<and>
     xr_transitions result' = xr_transitions result \<and> mapped_keys b' \<subseteq> dom (apply_trans m t) \<and>
     order_keys b' = order_keys b \<and>
     (\<forall>n. id_room (Suc n) (xb_views b) \<and> exact b \<longrightarrow> id_room n (xb_views b') \<and> exact b') \<and>
     trans_outcome t b b'"
proof (cases "tr_type t")
  case TransNewAccepted
  then have key: "map_of (xb_mappings b) (trans_key t) = None" using t keys by (auto simp: trans_ok_def)
  let ?r = "result\<lparr>xr_new_accepted_count := xr_new_accepted_count result + 1\<rparr>"
  from XB_submit_effect [OF ok key, of ?r] obtain result' b' chs' where
    e: "XB_submitAcceptedOrder t ?r b chs = Some (result', b', chs')" "bridge_ok (b', chs')" "gs_sessions (xb_server b') = gs_sessions (xb_server b)"
      "xr_transitions result' = xr_transitions result" "submit_outcome t b b'" by auto
  moreover have "mapped_keys b' \<subseteq> dom (apply_trans m t)"
    using order_trans [OF submit_outcome_keys [OF e(5)] insert_mono [OF keys]] TransNewAccepted by (simp add: dom_apply_trans)
  ultimately show ?thesis
    using TransNewAccepted submit_outcome_exact [OF e(5) key]
      submit_outcome_orders [OF e(5)]
    by (auto simp: XB_processTransition_def XB_processNewAccepted_def trans_outcome_def simp del: map_of_eq_Some_iff)
next
  case TransModifyAccepted
  let ?r = "result\<lparr>xr_modify_accepted_count := xr_modify_accepted_count result + 1\<rparr>"
  obtain r1 b1 where er: "XB_eraseMapping (fst (trans_key t)) (snd (trans_key t)) ?r b = (r1, b1)" by fastforce
  note e1 = XB_erase_effect [OF ok er]
  then have key: "map_of (xb_mappings b1) (trans_key t) = None" by simp
  from XB_submit_effect [OF e1(1) key, of r1] obtain result' b' chs' where
    e: "XB_submitAcceptedOrder t r1 b1 chs = Some (result', b', chs')" "bridge_ok (b', chs')"
      "gs_sessions (xb_server b') = gs_sessions (xb_server b1)"
      "xr_transitions result' = xr_transitions r1" "submit_outcome t b1 b'" by blast
  have "id_room n (xb_views b') \<and> exact b'" if "id_room (Suc n) (xb_views b) \<and> exact b" for n
    using submit_outcome_exact [OF e(5) key e1(5) e1(6)] that by blast
  moreover have "mapped_keys b1 \<subseteq> dom m" unfolding e1(4) using keys by auto
  then have "mapped_keys b' \<subseteq> dom (apply_trans m t)"
    using order_trans [OF submit_outcome_keys [OF e(5)] insert_mono] TransModifyAccepted by (simp add: dom_apply_trans)
  ultimately show ?thesis
    using TransModifyAccepted er e e1(2,3) submit_outcome_orders [OF e(5)]
    by (auto simp: XB_processTransition_def XB_processModifyAccepted_def trans_outcome_def simp del: map_of_eq_Some_iff)
next
  case TransCancelAccepted
  let ?r = "result\<lparr>xr_cancel_accepted_count := xr_cancel_accepted_count result + 1\<rparr>"
  obtain r1 b1 where er: "XB_eraseMapping (fst (trans_key t)) (snd (trans_key t)) ?r b = (r1, b1)" by fastforce
  note e1 = XB_erase_effect [OF ok er]
  have "mapped_keys b1 \<subseteq> dom (apply_trans m t)"
    using e1(4) keys TransCancelAccepted by (auto simp: apply_trans_def simp del: map_of_eq_Some_iff)
  moreover have "id_room n (xb_views b1) \<and> exact b1" if "id_room (Suc n) (xb_views b) \<and> exact b" for n
    using e1(5,6) that id_room_mono [of "Suc n" "xb_views b" n] by auto
  ultimately show ?thesis
    using TransCancelAccepted er e1(1-3) by (auto simp: XB_processTransition_def XB_processCancelAccepted_def trans_outcome_def simp del: map_of_eq_Some_iff)
next
  case TransRejected
  with ok keys show ?thesis
    by (auto simp: XB_processTransition_def apply_trans_def trans_outcome_def id_room_mono simp del: map_of_eq_Some_iff)
qed

lemma XB_processTransitions_effect:
  assumes "bridge_ok (b, chs)" "trans_seq m ts" "mapped_keys b \<subseteq> dom m"
  shows "\<exists>result' b' chs'. XB_processTransitions ts result b chs = Some (result', b', chs') \<and>
     bridge_ok (b', chs') \<and> gs_sessions (xb_server b') = gs_sessions (xb_server b) \<and>
     xr_transitions result' = xr_transitions result \<and> mapped_keys b' \<subseteq> dom (foldl apply_trans m ts) \<and>
     order_keys b' = order_keys b \<and> (id_room (length ts) (xb_views b) \<and> exact b \<longrightarrow> exact b')"
  using assms
proof (induction ts arbitrary: m b chs result)
  case (Cons t ts)
  then have t: "trans_ok m t" and ts: "trans_seq (apply_trans m t) ts" by auto
  from XB_processTransition_effect [OF Cons.prems(1) t Cons.prems(3), of result] obtain r1 b1 chs1 where
    p: "XB_processTransition t result b chs = Some (r1, b1, chs1)" "bridge_ok (b1, chs1)"
      "gs_sessions (xb_server b1) = gs_sessions (xb_server b)" "xr_transitions r1 = xr_transitions result"
      "mapped_keys b1 \<subseteq> dom (apply_trans m t)" "order_keys b1 = order_keys b"
      "\<forall>n. id_room (Suc n) (xb_views b) \<and> exact b \<longrightarrow> id_room n (xb_views b1) \<and> exact b1" by auto
  from Cons.IH [OF p(2) ts p(5), of r1] p show ?case by auto
qed auto

section \<open>Gateway and engine views stay in step\<close>

text \<open>
  For an order of an engine that has a view: the order is open exactly if it has a mapping, and
  then both know the same remaining size, instrument, side and price.
\<close>

definition in_step_at :: "OrderExecutionBridge \<Rightarrow> OrderKey \<Rightarrow> bool" where
  "in_step_at b key \<longleftrightarrow>
     (case GS_findOrder (fst key) (snd key) (xb_server b) of
        None \<Rightarrow> True
      | Some x \<Rightarrow> map_of (xb_views b) (engine_of (fst key)) = None \<or>
          (case XB_findMapping (fst key) (snd key) b of
             None \<Rightarrow> GS_isTerminal (os_status x)
           | Some m \<Rightarrow> \<not> GS_isTerminal (os_status x) \<and> xm_remaining_size m = os_remaining_size x \<and>
               xm_instrument_id m = os_instrument_id x \<and> xm_side m = os_side x \<and> xm_price m = os_price x))"

text \<open>The transition executes the order that the gateway has stored, on the stored instrument.\<close>

definition executable :: "OrderGatewayServer \<Rightarrow> OrderGatewayTransition \<Rightarrow> bool" where
  "executable s t \<longleftrightarrow>
     map_of (gs_orders s) (trans_key t) = Some (tr_snapshot t) \<and> GS_hasEngine (fst (trans_key t)) s \<and>
     (tr_type t = TransModifyAccepted \<longrightarrow> fd_instrument_id (tr_fields t) = os_instrument_id (tr_snapshot t))"

abbreviation is_accepted :: "OrderGatewayTransition \<Rightarrow> bool" where
  "is_accepted t \<equiv> tr_type t \<noteq> TransRejected"

lemma after_fills_other: "key' \<noteq> key \<Longrightarrow> after_fills m key fs key' = m key'"
  by (induction fs arbitrary: m) (auto simp: after_fill_def Let_def split: option.split)

lemma submit_outcome_frame:
  assumes "submit_outcome t b b'" "key \<noteq> trans_key t"
  shows "map_of (gs_orders (xb_server b')) key = map_of (gs_orders (xb_server b)) key"
    "map_of (xb_mappings b') key = map_of (xb_mappings b) key"
    "map_of (xb_views b') e = None \<longleftrightarrow> map_of (xb_views b) e = None"
proof -
  from assms(1) have "map_of (gs_orders (xb_server b')) key = map_of (gs_orders (xb_server b)) key \<and>
    map_of (xb_mappings b') key = map_of (xb_mappings b) key \<and>
    (map_of (xb_views b') e = None \<longleftrightarrow> map_of (xb_views b) e = None)"
  proof (cases rule: submit_outcome_cases)
    case (executed v v' fs r m)
    then show ?thesis
      using assms(2) after_fills_other [of key "trans_key t"]
      by (simp del: map_of_eq_Some_iff map_of_eq_None_iff fst_conv snd_conv)
  qed simp
  then show "map_of (gs_orders (xb_server b')) key = map_of (gs_orders (xb_server b)) key"
    "map_of (xb_mappings b') key = map_of (xb_mappings b) key"
    "map_of (xb_views b') e = None \<longleftrightarrow> map_of (xb_views b) e = None" by blast+
qed

lemma trans_outcome_frame:
  assumes "trans_outcome t b b'" "bridge_ok (b, chs)" "tr_type t = TransRejected \<or> key \<noteq> trans_key t"
  shows "map_of (gs_orders (xb_server b')) key = map_of (gs_orders (xb_server b)) key \<and>
    map_of (xb_mappings b') key = map_of (xb_mappings b) key \<and>
    (map_of (xb_views b') e = None \<longleftrightarrow> map_of (xb_views b) e = None)"
proof (cases "tr_type t")
  case TransNewAccepted
  with assms submit_outcome_frame [of t b b' key] show ?thesis by (simp add: trans_outcome_def)
next
  case TransModifyAccepted
  with assms(1) obtain b1 r r' where b1: "XB_eraseMapping (fst (trans_key t)) (snd (trans_key t)) r b = (r', b1)"
    "submit_outcome t b1 b'" by (auto simp: trans_outcome_def)
  from XB_erase_effect [OF assms(2) b1(1)] submit_outcome_frame [OF b1(2), of key] TransModifyAccepted assms(3)
  show ?thesis by (simp del: map_of_eq_None_iff)
next
  case TransCancelAccepted
  with assms(1) obtain r r' where "XB_eraseMapping (fst (trans_key t)) (snd (trans_key t)) r b = (r', b')"
    by (auto simp: trans_outcome_def)
  from XB_erase_effect [OF assms(2) this] TransCancelAccepted assms(3) show ?thesis by (simp del: map_of_eq_None_iff)
next
  case TransRejected
  with assms(1) show ?thesis by (simp add: trans_outcome_def)
qed

lemma submit_in_step:
  assumes out: "submit_outcome t b b'" and key: "map_of (xb_mappings b) (trans_key t) = None"
    and t: "trans_ok m t" "tr_type t \<in> {TransNewAccepted, TransModifyAccepted}" and ex: "executable (xb_server b) t"
    and ids: "exact b"
  shows "in_step_at b' (trans_key t)"
proof -
  let ?x = "tr_snapshot t" and ?key = "trans_key t"
  have x: "map_of (gs_orders (xb_server b)) ?key = Some ?x" "GS_hasEngine (fst ?key) (xb_server b)"
    using ex by (auto simp: executable_def simp del: map_of_eq_Some_iff)
  have sn: "os_status ?x = Accepted" "order_ok ?key ?x" "os_side ?x = fd_side (tr_fields t)"
    "os_price ?x = fd_price (tr_fields t)" "os_remaining_size ?x = fd_size (tr_fields t)"
    "os_instrument_id ?x = fd_instrument_id (tr_fields t)"
    using t ex by (auto simp: trans_ok_def executable_def simp del: map_of_eq_Some_iff)
  have live: "\<not> GS_isTerminal (os_status ?x)" using sn(1) by (simp add: GS_isTerminal_def)
  note live = live order_ok_remaining [OF sn(2) live]
  have valid: "hasValidRequest (simulated_request (tr_fields t))"
    using sn live(2) by (auto simp: hasValidRequest_def simulated_request_def order_ok_def hasValidSide_def
        hasValidPrice_iff_defined isDefinedPrice_def) (metis Side.exhaust)
  from out show ?thesis
  proof (cases rule: submit_outcome_cases)
    case refused
    with valid show ?thesis by (auto simp: in_step_at_def simp del: map_of_eq_None_iff split: option.split)
  next
    case (executed v v' fs r m')
    have "ids_ok v" using ids executed(1) unfolding mappings_exact_def by blast
    then have pos: "vw_next_order_id v \<noteq> 0" by (auto simp: ids_ok_def)
    have "\<exists>x'. after_fills (map_of (gs_orders (xb_server b))) ?key fs = (map_of (gs_orders (xb_server b)))(?key \<mapsto> x') \<and>
        os_remaining_size x' = r \<and> (GS_isTerminal (os_status x') \<longleftrightarrow> r = 0) \<and> os_instrument_id x' = os_instrument_id ?x \<and>
        os_side x' = os_side ?x \<and> os_price x' = os_price ?x"
      by (rule after_fills_exact) (use x(1) live executed(4,5) sn(5) in \<open>simp_all del: map_of_eq_Some_iff\<close>)
    then obtain x' where
      x': "after_fills (map_of (gs_orders (xb_server b))) ?key fs = (map_of (gs_orders (xb_server b)))(?key \<mapsto> x')"
      "os_remaining_size x' = r" "GS_isTerminal (os_status x') \<longleftrightarrow> r = 0" "os_instrument_id x' = os_instrument_id ?x"
      "os_side x' = os_side ?x" "os_price x' = os_price ?x" by blast
    have "map_of (gs_orders (xb_server b')) ?key = Some x'" using executed(8) x(2) x'(1) by (simp del: map_of_eq_Some_iff)
    moreover have "map_of (xb_mappings b') ?key = (if r = 0 then None else Some m')"
      using executed(9) pos key by (simp del: map_of_eq_Some_iff)
    ultimately show ?thesis
      using x' sn executed(6)
      by (simp add: in_step_at_def GS_findOrder_def XB_findMapping_def mapping_of_def del: map_of_eq_Some_iff map_of_eq_None_iff)
  qed
qed

lemma trans_in_step:
  assumes out: "trans_outcome t b b'" and ok: "bridge_ok (b, chs)" and t: "trans_ok m t" "is_accepted t"
    and keys: "mapped_keys b \<subseteq> dom m" and ex: "executable (xb_server b) t" and ids: "exact b"
  shows "in_step_at b' (trans_key t)"
proof (cases "tr_type t")
  case TransNewAccepted
  then have "map_of (xb_mappings b) (trans_key t) = None" using t keys by (auto simp: trans_ok_def)
  with TransNewAccepted out submit_in_step [of t b b' m] t(1) ex ids show ?thesis by (simp add: trans_outcome_def)
next
  case TransModifyAccepted
  with out obtain b1 r r' where b1: "XB_eraseMapping (fst (trans_key t)) (snd (trans_key t)) r b = (r', b1)"
    "submit_outcome t b1 b'" by (auto simp: trans_outcome_def)
  note e1 = XB_erase_effect [OF ok b1(1)]
  have "executable (xb_server b1) t" using ex e1(2) by simp
  with submit_in_step [OF b1(2) _ t(1)] TransModifyAccepted e1(4) e1(6) ids show ?thesis by simp
next
  case TransCancelAccepted
  with out obtain r r' where e: "XB_eraseMapping (fst (trans_key t)) (snd (trans_key t)) r b = (r', b')"
    by (auto simp: trans_outcome_def)
  note e1 = XB_erase_effect [OF ok e]
  have "os_status (tr_snapshot t) = Cancelled" using t TransCancelAccepted by (simp add: trans_ok_def)
  with ex e1(2,4) show ?thesis
    by (simp add: in_step_at_def executable_def GS_findOrder_def XB_findMapping_def GS_isTerminal_def
        del: map_of_eq_Some_iff map_of_eq_None_iff)
qed (use t(2) in simp)

lemma in_step_frame:
  assumes "trans_outcome t b b'" "bridge_ok (b, chs)" "tr_type t = TransRejected \<or> key \<noteq> trans_key t" "in_step_at b key"
  shows "in_step_at b' key"
proof -
  note fr = trans_outcome_frame [OF assms(1-3), of "engine_of (fst key)"]
  then show ?thesis
    using assms(4) by (simp add: in_step_at_def GS_findOrder_def XB_findMapping_def
        del: map_of_eq_Some_iff map_of_eq_None_iff cong: option.case_cong)
qed

lemma XB_processTransitions_in_step:
  assumes "bridge_ok (b, chs)" "trans_seq m ts" "mapped_keys b \<subseteq> dom m" "exact b" "id_room (length ts) (xb_views b)"
    and "distinct (map trans_key (filter is_accepted ts))" "\<forall>t \<in> set ts. is_accepted t \<longrightarrow> executable (xb_server b) t"
    and "\<forall>key. key \<notin> trans_key ` set (filter is_accepted ts) \<longrightarrow> in_step_at b key"
    and "XB_processTransitions ts result b chs = Some (result', b', chs')"
  shows "in_step_at b' key"
  using assms
proof (induction ts arbitrary: m b chs result)
  case (Cons t ts)
  then have t: "trans_ok m t" and ts: "trans_seq (apply_trans m t) ts" by auto
  from XB_processTransition_effect [OF Cons.prems(1) t Cons.prems(3), of result] obtain r1 b1 chs1 where
    p: "XB_processTransition t result b chs = Some (r1, b1, chs1)" "bridge_ok (b1, chs1)"
      "gs_sessions (xb_server b1) = gs_sessions (xb_server b)" "mapped_keys b1 \<subseteq> dom (apply_trans m t)"
      "\<forall>n. id_room (Suc n) (xb_views b) \<and> exact b \<longrightarrow> id_room n (xb_views b1) \<and> exact b1" "trans_outcome t b b1" by auto
  have fresh: "tr_type t = TransRejected \<or> trans_key u \<noteq> trans_key t" if "u \<in> set ts" "is_accepted u" for u
  proof -
    from that have "trans_key u \<in> set (map trans_key (filter is_accepted ts))"
      by (simp only: set_map set_filter) (rule imageI, simp)
    moreover have "is_accepted t \<Longrightarrow> trans_key t \<notin> set (map trans_key (filter is_accepted ts))"
      using Cons.prems(6) by (simp only: filter.simps if_True list.map distinct.simps not_False_eq_True simp_thms)
    ultimately show ?thesis by metis
  qed
  show ?case
  proof (rule Cons.IH [OF p(2) ts p(4)])
    show "exact b1" "id_room (length ts) (xb_views b1)" using p(5) Cons.prems(4,5) by auto
    show "distinct (map trans_key (filter is_accepted ts))" using Cons.prems(6) by (simp split: if_splits)
    show "\<forall>u \<in> set ts. is_accepted u \<longrightarrow> executable (xb_server b1) u"
      using Cons.prems(7) trans_outcome_frame [OF p(6) Cons.prems(1) fresh] p(3)
      by (simp add: executable_def GS_hasEngine_def del: map_of_eq_Some_iff map_of_eq_None_iff)
    show "\<forall>key. key \<notin> trans_key ` set (filter is_accepted ts) \<longrightarrow> in_step_at b1 key"
    proof (intro allI impI)
      fix key assume key: "key \<notin> trans_key ` set (filter is_accepted ts)"
      show "in_step_at b1 key"
      proof (cases "is_accepted t \<and> key = trans_key t")
        case True
        with trans_in_step [OF p(6) Cons.prems(1) t _ Cons.prems(3) _ Cons.prems(4)] Cons.prems(7) show ?thesis by simp
      next
        case False
        have "trans_key ` set (filter is_accepted (t # ts)) \<subseteq> insert (trans_key t) (trans_key ` set (filter is_accepted ts))"
          "\<not> is_accepted t \<Longrightarrow> set (filter is_accepted (t # ts)) = set (filter is_accepted ts)" by auto
        with False key have "key \<notin> trans_key ` set (filter is_accepted (t # ts))" by blast
        with Cons.prems(8) have "in_step_at b key" by blast
        with in_step_frame [OF p(6) Cons.prems(1)] False show ?thesis by blast
      qed
    qed
    show "XB_processTransitions ts r1 b1 chs1 = Some (result', b', chs')" using Cons.prems(9) p(1) by simp
  qed
qed (cases key; auto)

section \<open>The bridge as a state machine\<close>

definition bridge_inv :: "OrderExecutionBridge \<times> Channels \<Rightarrow> bool" where
  "bridge_inv bc \<longleftrightarrow> bridge_ok bc \<and> exact (fst bc) \<and> mapped_keys (fst bc) \<subseteq> order_keys (fst bc)"

text \<open>
  What can happen around the bridge: the clients and the gateway exchange messages (any step of
  the gateway that leaves the orders alone), the historical market moves, a fresh view of another
  engine appears, and the bridge executes what it drained.
\<close>

inductive bridge_step :: "OrderExecutionBridge \<times> Channels \<Rightarrow> OrderExecutionBridge \<times> Channels \<Rightarrow> bool" where
  messages: "gateway_step (xb_server b, chs) (s', chs') \<Longrightarrow> gs_orders s' = gs_orders (xb_server b) \<Longrightarrow>
     bridge_step (b, chs) (b\<lparr>xb_server := s'\<rparr>, chs')"
| market: "source_ok src \<Longrightarrow> bridge_step (b, chs) (b\<lparr>xb_source := src\<rparr>, chs)"
| engine: "map_of (xb_views b) e = None \<Longrightarrow>
     bridge_step (b, chs) (b\<lparr>xb_views := AList.update e (EV_new e) (xb_views b)\<rparr>, chs)"
| execute: "XB_drainAndProcessRequests b chs = Some (result, b', chs') \<Longrightarrow>
     id_room (length (xr_transitions result)) (xb_views b) \<Longrightarrow> bridge_step (b, chs) (b', chs')"

lemma XB_drain_effect:
  assumes ok: "bridge_ok (b, chs)" and keys: "mapped_keys b \<subseteq> order_keys b"
  shows "\<exists>result b' chs'. XB_drainAndProcessRequests b chs = Some (result, b', chs') \<and> bridge_ok (b', chs') \<and>
     mapped_keys b' \<subseteq> order_keys b' \<and> (id_room (length (xr_transitions result)) (xb_views b) \<and> exact b \<longrightarrow> exact b')"
proof -
  have "gateway_inv (xb_server b, chs)" using ok by (simp add: bridge_ok_def)
  from GS_drainRequestTransitions_correct [OF this] obtain ts s chs1 where
    d: "GS_drainRequestTransitions (xb_server b) chs = Some (ts, s, chs1)" "gateway_inv (s, chs1)"
      "trans_seq (map_of (gs_orders (xb_server b))) ts"
      "map_of (gs_orders s) = foldl apply_trans (map_of (gs_orders (xb_server b))) ts" by blast
  let ?b = "b\<lparr>xb_server := s\<rparr>"
  have "bridge_ok (?b, chs1)" "mapped_keys ?b \<subseteq> dom (map_of (gs_orders (xb_server b)))"
    using ok d(2) keys by (auto simp: bridge_ok_def)
  from XB_processTransitions_effect [OF this(1) d(3) this(2), of "default_bridge_result\<lparr>xr_transitions := ts\<rparr>"] d(1,4)
  show ?thesis by (auto simp: XB_drainAndProcessRequests_def)
qed

lemma EV_levels_views_new: "views_ok views \<Longrightarrow> views_ok (AList.update e (EV_new e) views)"
  by (auto simp: views_ok_def EV_levels_ok_new simp del: map_of_eq_Some_iff)

lemma exact_new_view:
  assumes "mappings_exact views maps" "map_of views e = None"
  shows "mappings_exact (AList.update e (EV_new e) views) maps"
proof -
  have "ids_ok (EV_new e)" "map_of (vw_own_orders (EV_new e)) = Map.empty" by (simp_all add: ids_ok_def EV_new_def)
  moreover have "rests (AList.update e (EV_new e) views) key m" if "rests views key m" for key m
    using that assms(2) by (auto simp: rests_def simp del: map_of_eq_Some_iff)
  ultimately show ?thesis
    using assms(1) unfolding mappings_exact_def
    by (simp del: map_of_eq_Some_iff map_of_eq_None_iff) (metis domIff option.distinct(1) option.inject)
qed

lemma bridge_step_inv: "bridge_step bc bc' \<Longrightarrow> bridge_inv bc \<Longrightarrow> bridge_inv bc'"
proof (induction rule: bridge_step.induct)
  case (messages b chs s' chs')
  then show ?case using gateway_step_inv [OF messages(1)] by (auto simp: bridge_inv_def bridge_ok_def)
next
  case (market src b chs)
  then show ?case by (simp add: bridge_inv_def bridge_ok_def)
next
  case (engine b e chs)
  then show ?case using exact_new_view EV_levels_views_new by (simp add: bridge_inv_def bridge_ok_def)
next
  case (execute b chs result b' chs')
  then have "bridge_ok (b, chs)" "mapped_keys b \<subseteq> order_keys b" "exact b" by (auto simp: bridge_inv_def)
  from XB_drain_effect [OF this(1,2)] this(3) execute(1,2) show ?case
    unfolding bridge_inv_def by (metis (no_types, lifting) fst_conv option.inject prod.inject)
qed

lemma bridge_reachable_inv: "bridge_step\<^sup>*\<^sup>* bc bc' \<Longrightarrow> bridge_inv bc \<Longrightarrow> bridge_inv bc'"
  by (induction rule: rtranclp_induct) (auto intro: bridge_step_inv)

text \<open>The bridge as it is constructed: on a gateway that may already be in use, with fresh views.\<close>

lemma bridge_start_inv:
  assumes "gateway_step\<^sup>*\<^sup>* gateway_start (s, chs)" "source_ok src" "\<forall>(e, v) \<in> set views. v = EV_new e"
  shows "bridge_inv (XB_new s src views, chs)"
proof -
  have v: "map_of views e = Some v \<Longrightarrow> v = EV_new e" for e v using assms(3) by (fastforce dest: map_of_SomeD)
  then have "views_ok views" unfolding views_ok_def using EV_levels_ok_new by metis
  moreover have "mappings_exact views []"
    unfolding mappings_exact_def using v by (fastforce simp: ids_ok_def EV_new_def)
  ultimately show ?thesis
    using gateway_reachable_inv [OF assms(1) gateway_start_inv] assms(2)
    by (simp add: bridge_inv_def bridge_ok_def XB_new_def)
qed

section \<open>Properties\<close>

text \<open>
  C18: Mappings are exactly the resting orders. However messages, market moves and new engines
  interleave with the bridge, a drain always completes, every mapping names a synthetic order of
  that very engine with the recorded instrument, side, price and remaining size, and every
  synthetic order resting in a view of a gateway engine belongs to exactly one gateway order.
\<close>

theorem bridge_mappings_exact:
  assumes "gateway_step\<^sup>*\<^sup>* gateway_start (s0, chs0)" "source_ok src" "\<forall>(e, v) \<in> set views. v = EV_new e"
    and "bridge_step\<^sup>*\<^sup>* (XB_new s0 src views, chs0) (b, chs)"
  shows "(\<exists>result b' chs'. XB_drainAndProcessRequests b chs = Some (result, b', chs')) \<and>
     (\<forall>eid oid m. XB_findMapping eid oid b = Some m \<longrightarrow>
        xm_trading_engine_id m = eid \<and> xm_gateway_order_id m = oid \<and> 0 < xm_remaining_size m \<and>
        (\<exists>v. map_of (xb_views b) (engine_of eid) = Some v \<and>
             map_of (vw_own_orders v) (xm_synthetic_order_id m) = Some (synthetic_of m))) \<and>
     (\<forall>eid v k x. map_of (xb_views b) (engine_of eid) = Some v \<and> map_of (vw_own_orders v) k = Some x \<longrightarrow>
        (\<exists>!oid. \<exists>m. XB_findMapping eid oid b = Some m \<and> xm_synthetic_order_id m = k))"
proof -
  have inv: "bridge_inv (b, chs)" by (rule bridge_reachable_inv [OF assms(4) bridge_start_inv [OF assms(1-3)]])
  then have ex: "exact b" and ok: "bridge_ok (b, chs)" "mapped_keys b \<subseteq> order_keys b" by (auto simp: bridge_inv_def)
  have "\<exists>!oid. \<exists>m. XB_findMapping eid oid b = Some m \<and> xm_synthetic_order_id m = k"
    if "map_of (xb_views b) (engine_of eid) = Some v" "map_of (vw_own_orders v) k = Some x" for eid v k x
  proof -
    note v = that
    then have "k \<in> dom (map_of (vw_own_orders v))" by blast
    then obtain eid' oid m where m: "engine_of eid' = engine_of eid" "map_of (xb_mappings b) (eid', oid) = Some m"
      "xm_synthetic_order_id m = k" using ex v(1) unfolding mappings_exact_def by blast
    then show ?thesis
      using mappings_exact_inj [OF ex] unfolding XB_findMapping_def engine_of_inject by blast
  qed
  moreover have "xm_trading_engine_id m = eid \<and> xm_gateway_order_id m = oid \<and> 0 < xm_remaining_size m \<and>
        (\<exists>v. map_of (xb_views b) (engine_of eid) = Some v \<and>
             map_of (vw_own_orders v) (xm_synthetic_order_id m) = Some (synthetic_of m))"
    if "XB_findMapping eid oid b = Some m" for eid oid m
  proof -
    have "rests (xb_views b) (eid, oid) m" using that ex unfolding mappings_exact_def XB_findMapping_def by blast
    then show ?thesis unfolding rests_def by simp
  qed
  ultimately show ?thesis using XB_drain_effect [OF ok] by blast
qed

definition bridge_fields :: OrderFields where
  "bridge_fields = \<lparr>fd_trading_engine_id = 1, fd_order_id = 1, fd_instrument_id = rq_instrument_id demo_request,
     fd_side = rq_side demo_request, fd_price = rq_limit_price demo_request, fd_size = rq_size demo_request,
     fd_timestamp_ns = i64 5, fd_status = New\<rparr>"

definition demo_gateway :: "OrderRequest list \<Rightarrow> gateway option" where
  "demo_gateway rs = gateway_run gateway_start
     ([OpConnect 1 4 4, OpRegister 1 1] @ map (OpSend 1) rs @ [OpFlush 1])"

definition demo_bridge :: "OrderRequest list \<Rightarrow> (OrderExecutionBridgeResult \<times> OrderExecutionBridge \<times> Channels) option" where
  "demo_bridge rs = Option.bind (demo_gateway rs) (\<lambda>(s, chs).
     XB_drainAndProcessRequests (XB_new s demo_source [(1, EV_new 1)]) chs)"

lemma demo_bridge_evaluated:
  "map_option (\<lambda>(r, b, chs). (length (xr_transitions r), map_of (xb_views b) 1 \<noteq> None,
      map_option (\<lambda>m. (xm_synthetic_order_id m, xm_remaining_size m)) (XB_findMapping 1 1 b)))
     (demo_bridge [NewOrder bridge_fields]) = Some (1, True, Some (1, 7))"
  by code_simp

lemma demo_bridge_start:
  assumes "demo_bridge rs = Some (r, b, chs)" and "length (xr_transitions r) < 100"
  obtains s0 chs0 where "demo_gateway rs = Some (s0, chs0)" "gateway_step\<^sup>*\<^sup>* gateway_start (s0, chs0)"
    "XB_drainAndProcessRequests (XB_new s0 demo_source [(1, EV_new 1)]) chs0 = Some (r, b, chs)"
    "id_room (length (xr_transitions r)) (xb_views (XB_new s0 demo_source [(1, EV_new 1)]))"
    "bridge_step\<^sup>*\<^sup>* (XB_new s0 demo_source [(1, EV_new 1)], chs0) (b, chs)"
proof -
  from assms(1) obtain s0 chs0 where g: "demo_gateway rs = Some (s0, chs0)"
    "XB_drainAndProcessRequests (XB_new s0 demo_source [(1, EV_new 1)]) chs0 = Some (r, b, chs)"
    by (auto simp: demo_bridge_def bind_eq_Some_conv)
  have room: "id_room (length (xr_transitions r)) (xb_views (XB_new s0 demo_source [(1, EV_new 1)]))"
    using assms(2) by (simp add: id_room_def XB_new_def EV_new_def two64_def)
  show ?thesis
    using that [OF g(1) gateway_run_reachable [OF g(1) [unfolded demo_gateway_def]] g(2) room]
      bridge_step.execute [OF g(2) room] by blast
qed

theorem bridge_mappings_exact_witness:
  "\<exists>r b chs m v. demo_bridge [NewOrder bridge_fields] = Some (r, b, chs) \<and> XB_findMapping 1 1 b = Some m \<and>
     xm_remaining_size m = 7 \<and> map_of (xb_views b) 1 = Some v \<and>
     map_of (vw_own_orders v) (xm_synthetic_order_id m) = Some (synthetic_of m)"
proof -
  from demo_bridge_evaluated obtain r b chs m where d: "demo_bridge [NewOrder bridge_fields] = Some (r, b, chs)"
    "length (xr_transitions r) = 1" "XB_findMapping 1 1 b = Some m" "xm_remaining_size m = 7" by auto
  then obtain s0 chs0 where s: "gateway_step\<^sup>*\<^sup>* gateway_start (s0, chs0)"
    "bridge_step\<^sup>*\<^sup>* (XB_new s0 demo_source [(1, EV_new 1)], chs0) (b, chs)"
    using demo_bridge_start by (metis One_nat_def one_less_numeral_iff semiring_norm(76,77))
  have "\<forall>(e, v) \<in> set [(1, EV_new 1)]. v = EV_new e" by simp
  from bridge_mappings_exact [OF s(1) demo_submit_ok(1) this s(2)] d show ?thesis
    by (fastforce simp: engine_of_def)
qed

lemma untouched_trans:
  "key \<notin> trans_key ` set (filter is_accepted ts) \<Longrightarrow> foldl apply_trans m ts key = m key"
proof (induction ts arbitrary: m)
  case (Cons t ts)
  then have "key \<notin> trans_key ` set (filter is_accepted ts)" "\<not> (is_accepted t \<and> key = trans_key t)"
    by (auto split: if_splits)
  with Cons.IH [of "apply_trans m t"] show ?case by (auto simp: apply_trans_def)
qed simp

lemma last_trans:
  assumes "distinct (map trans_key (filter is_accepted ts))" "t \<in> set ts" "is_accepted t"
  shows "foldl apply_trans m ts (trans_key t) = Some (tr_snapshot t)"
proof -
  obtain us vs where ts: "ts = us @ t # vs" using assms(2) by (meson split_list)
  have "filter is_accepted ts = filter is_accepted us @ t # filter is_accepted vs" using assms(3) ts by simp
  with assms(1) have "trans_key t \<notin> trans_key ` set (filter is_accepted vs)"
    by (simp only: map_append list.map distinct_append distinct.simps set_map simp_thms)
  from untouched_trans [OF this] assms(3) show ?thesis by (simp add: ts apply_trans_def)
qed

text \<open>
  C19: Gateway and views agree. Let a batch hold at most one accepted request per order, and let
  modifications keep the instrument of their order. If before the batch every open gateway order
  of an engine with a view had a resting synthetic order of the same remaining size, instrument,
  side and price (and no closed one had), then so it is after the batch: the fills reported through
  the gateway are exactly the ones the simulator took out of the market.
\<close>

theorem bridge_in_step:
  assumes "gateway_step\<^sup>*\<^sup>* gateway_start (s0, chs0)" "source_ok src" "\<forall>(e, v) \<in> set views. v = EV_new e"
    and "bridge_step\<^sup>*\<^sup>* (XB_new s0 src views, chs0) (b, chs)"
    and "\<forall>eid oid. in_step_at b (eid, oid)"
    and "XB_drainAndProcessRequests b chs = Some (result, b', chs')"
    and "id_room (length (xr_transitions result)) (xb_views b)"
    and "distinct (map trans_key (filter is_accepted (xr_transitions result)))"
    and "\<forall>t \<in> set (xr_transitions result). tr_type t = TransModifyAccepted \<longrightarrow>
           fd_instrument_id (tr_fields t) = os_instrument_id (tr_snapshot t)"
  shows "in_step_at b' (eid, oid)"
proof -
  have inv: "bridge_inv (b, chs)" by (rule bridge_reachable_inv [OF assms(4) bridge_start_inv [OF assms(1-3)]])
  then have ok: "bridge_ok (b, chs)" "mapped_keys b \<subseteq> order_keys b" "exact b" by (auto simp: bridge_inv_def)
  then have "gateway_inv (xb_server b, chs)" by (simp add: bridge_ok_def)
  from GS_drainRequestTransitions_correct [OF this] obtain ts s chs1 where
    d: "GS_drainRequestTransitions (xb_server b) chs = Some (ts, s, chs1)" "gateway_inv (s, chs1)"
      "trans_seq (map_of (gs_orders (xb_server b))) ts"
      "map_of (gs_orders s) = foldl apply_trans (map_of (gs_orders (xb_server b))) ts"
      "\<forall>t \<in> set ts. GS_hasEngine (fd_trading_engine_id (tr_fields t)) s" by blast
  let ?b = "b\<lparr>xb_server := s\<rparr>"
  have b1: "bridge_ok (?b, chs1)" "mapped_keys ?b \<subseteq> dom (map_of (gs_orders (xb_server b)))" "exact ?b"
    using ok d(2) by (auto simp: bridge_ok_def)
  have run: "XB_processTransitions ts (default_bridge_result\<lparr>xr_transitions := ts\<rparr>) ?b chs1 = Some (result, b', chs')"
    using assms(6) d(1) by (simp add: XB_drainAndProcessRequests_def)
  with XB_processTransitions_effect [OF b1(1) d(3) b1(2), of "default_bridge_result\<lparr>xr_transitions := ts\<rparr>"]
  have ts: "xr_transitions result = ts" by auto
  let ?m = "map_of (gs_orders (xb_server b))"
  note last = last_trans [OF assms(8) [unfolded ts], where m = ?m, folded d(4)] untouched_trans [of _ ts ?m, folded d(4)]
  show ?thesis
  proof (rule XB_processTransitions_in_step [OF b1(1) d(3) b1(2,3) _ _ _ _ run])
    show "id_room (length ts) (xb_views ?b)" using assms(7) ts by simp
    show "distinct (map trans_key (filter is_accepted ts))" using assms(8) ts by simp
    show "\<forall>t \<in> set ts. is_accepted t \<longrightarrow> executable (xb_server ?b) t"
      using last(1) d(5) assms(9) ts by (simp add: executable_def del: map_of_eq_Some_iff)
    show "\<forall>key. key \<notin> trans_key ` set (filter is_accepted ts) \<longrightarrow> in_step_at ?b key"
    proof (intro allI impI)
      fix key assume "key \<notin> trans_key ` set (filter is_accepted ts)"
      from last(2) [OF this] assms(5) show "in_step_at ?b key"
        by (cases key) (simp add: in_step_at_def GS_findOrder_def XB_findMapping_def
            del: map_of_eq_Some_iff map_of_eq_None_iff cong: option.case_cong)
    qed
  qed
qed

lemma demo_in_step_evaluated:
  "map_option (\<lambda>(s, chs). gs_orders s) (demo_gateway [NewOrder bridge_fields]) = Some []"
  "map_option (\<lambda>(r, b, chs). map tr_type (xr_transitions r)) (demo_bridge [NewOrder bridge_fields]) = Some [TransNewAccepted]"
  by code_simp+

theorem bridge_in_step_witness:
  "\<exists>r b chs. demo_bridge [NewOrder bridge_fields] = Some (r, b, chs) \<and> in_step_at b (1, 1)"
proof -
  from demo_in_step_evaluated(2) obtain r b chs t where d: "demo_bridge [NewOrder bridge_fields] = Some (r, b, chs)"
    "xr_transitions r = [t]" "tr_type t = TransNewAccepted" by (auto simp: map_eq_Cons_conv)
  then have "length (xr_transitions r) < 100" by simp
  with d(1) obtain s0 chs0 where s: "gateway_step\<^sup>*\<^sup>* gateway_start (s0, chs0)"
    "XB_drainAndProcessRequests (XB_new s0 demo_source [(1, EV_new 1)]) chs0 = Some (r, b, chs)"
    "id_room (length (xr_transitions r)) (xb_views (XB_new s0 demo_source [(1, EV_new 1)]))"
    "demo_gateway [NewOrder bridge_fields] = Some (s0, chs0)"
    using demo_bridge_start by metis
  have "gs_orders s0 = []" using s(4) demo_in_step_evaluated(1) by simp
  then have start: "\<forall>eid oid. in_step_at (XB_new s0 demo_source [(1, EV_new 1)]) (eid, oid)"
    by (simp add: in_step_at_def GS_findOrder_def XB_new_def)
  have "\<forall>(e, v) \<in> set [(1, EV_new 1)]. v = EV_new e" by simp
  from bridge_in_step [OF s(1) demo_submit_ok(1) this rtranclp.rtrancl_refl start s(2,3)] d show ?thesis by simp
qed

text \<open>
  A request batch is executed only after all of it has been validated. An order that is
  placed and cancelled in the same batch is still executed in the simulator: no fill is reported
  (the gateway order is already cancelled, with its full size), yet the engine's view has lost 9
  units of the best ask and 4 of the next one for good.
\<close>

theorem bridge_batched_cancel_burns_liquidity:
  "map_option (\<lambda>(r, b, chs). (xr_fills_emitted r,
      map_option (\<lambda>x. (os_remaining_size x, os_status x)) (GS_findOrder 1 1 (xb_server b)),
      map_option (\<lambda>v. map (CB_consumedAt (EV_consumedHistoricalLiquidity v 7) Ask) [i64 104, i64 105]) (map_of (xb_views b) 1)))
     (demo_bridge [NewOrder bridge_fields, CancelOrder bridge_fields]) =
   Some (0, Some (20, Cancelled), Some [9, 4])"
  by code_simp

text \<open>
  The gateway does not compare the instrument of a modification with the order's, and the
  bridge executes the modification on the requested instrument: afterwards the gateway's order is
  on instrument 7 while its resting synthetic order is on instrument 8.
\<close>

theorem bridge_modify_moves_instrument:
  "map_option (\<lambda>(r, b, chs). (xr_modify_accepted_count r, map_option os_instrument_id (GS_findOrder 1 1 (xb_server b)),
      map_option xm_instrument_id (XB_findMapping 1 1 b)))
     (demo_bridge [NewOrder bridge_fields, ModifyOrder (bridge_fields\<lparr>fd_instrument_id := 8\<rparr>)]) =
   Some (1, Some 7, Some 8)"
  by code_simp

end
