(* ===== verification/MarketDataFeed.thy ===== *)
theory MarketDataFeed
  imports Domain NonBlockingQueue
begin

text \<open>
  \<^verbatim>\<open>src/messaging/\<close>: the market data messages (\<^verbatim>\<open>MarketDataMessage.hpp\<close>), the subscriber with
  its queue and callback (\<^verbatim>\<open>MarketDataSubscriber.hpp\<close>), the publisher that numbers messages per
  instrument and fans them out (\<^verbatim>\<open>MarketDataPublisher.{hpp,cpp}\<close>), and the gap detector
  (\<^verbatim>\<open>MarketDataGapDetector.{hpp,cpp}\<close>). A \<^verbatim>\<open>shared_ptr\<close> to a subscriber is its index in the list
  of allocated subscribers; a callback is a function on a state \<open>'w\<close> of the subscriber's owner.
\<close>

section \<open>Messages\<close>

datatype MarketDataMessageType = BookUpdateType | BookSnapshotType | TradeType

record PriceLevel =
  pl_level_index :: u32
  pl_price :: price
  pl_size :: quantity

record BookUpdate =
  bu_instrument_id :: instrument_id
  bu_timestamp_ns :: timestamp_ns
  bu_seq_no :: seq_no
  bu_side :: Side
  bu_price :: price
  bu_size :: quantity

record BookSnapshot =
  bs_instrument_id :: instrument_id
  bs_timestamp_ns :: timestamp_ns
  bs_seq_no :: seq_no
  bs_bids :: "PriceLevel list"
  bs_asks :: "PriceLevel list"

record TradeMessage =
  tm_instrument_id :: instrument_id
  tm_timestamp_ns :: timestamp_ns
  tm_seq_no :: seq_no
  tm_price :: price
  tm_size :: quantity
  tm_aggressor_side :: Side

datatype MarketDataMessage = UpdateMsg BookUpdate | SnapshotMsg BookSnapshot | TradeMsg TradeMessage

fun messageType :: "MarketDataMessage \<Rightarrow> MarketDataMessageType" where
  "messageType (UpdateMsg _) = BookUpdateType"
| "messageType (SnapshotMsg _) = BookSnapshotType"
| "messageType (TradeMsg _) = TradeType"

fun instrumentId :: "MarketDataMessage \<Rightarrow> instrument_id" where
  "instrumentId (UpdateMsg u) = bu_instrument_id u"
| "instrumentId (SnapshotMsg s) = bs_instrument_id s"
| "instrumentId (TradeMsg t) = tm_instrument_id t"

fun timestampNs :: "MarketDataMessage \<Rightarrow> timestamp_ns" where
  "timestampNs (UpdateMsg u) = bu_timestamp_ns u"
| "timestampNs (SnapshotMsg s) = bs_timestamp_ns s"
| "timestampNs (TradeMsg t) = tm_timestamp_ns t"

fun seqNo :: "MarketDataMessage \<Rightarrow> seq_no" where
  "seqNo (UpdateMsg u) = bu_seq_no u"
| "seqNo (SnapshotMsg s) = bs_seq_no s"
| "seqNo (TradeMsg t) = tm_seq_no t"

fun setSeqNo :: "MarketDataMessage \<Rightarrow> seq_no \<Rightarrow> MarketDataMessage" where
  "setSeqNo (UpdateMsg u) n = UpdateMsg (u\<lparr>bu_seq_no := n\<rparr>)"
| "setSeqNo (SnapshotMsg s) n = SnapshotMsg (s\<lparr>bs_seq_no := n\<rparr>)"
| "setSeqNo (TradeMsg t) n = TradeMsg (t\<lparr>tm_seq_no := n\<rparr>)"

lemma setSeqNo_simps [simp]:
  "seqNo (setSeqNo m n) = n" "instrumentId (setSeqNo m n) = instrumentId m"
  "timestampNs (setSeqNo m n) = timestampNs m" "messageType (setSeqNo m n) = messageType m"
  "setSeqNo (setSeqNo m k) n = setSeqNo m n"
  by (cases m; simp)+

section \<open>MarketDataGapDetector\<close>

datatype SequenceCheckStatus = SeqOk | SeqGap | DuplicateOrOutOfOrder

record SequenceCheckResult =
  sc_status :: SequenceCheckStatus
  sc_instrument_id :: instrument_id
  sc_expected_seq_no :: seq_no
  sc_observed_seq_no :: seq_no

type_synonym MarketDataGapDetector = "(instrument_id, seq_no) umap"

definition GD_observe :: "MarketDataMessage \<Rightarrow> MarketDataGapDetector \<Rightarrow> SequenceCheckResult \<times> MarketDataGapDetector" where
  "GD_observe message d =
     (let instrument_id = instrumentId message; observed_seq_no = seqNo message;
          answer = (\<lambda>status expected. \<lparr>sc_status = status, sc_instrument_id = instrument_id,
                      sc_expected_seq_no = expected, sc_observed_seq_no = observed_seq_no\<rparr>)
      in case map_of d instrument_id of
           None \<Rightarrow>
             if observed_seq_no = 1 then (answer SeqOk 1, AList.update instrument_id observed_seq_no d)
             else if observed_seq_no > 1 then (answer SeqGap 1, AList.update instrument_id observed_seq_no d)
             else (answer DuplicateOrOutOfOrder 1, d)
         | Some last_seq_no \<Rightarrow>
             let expected_seq_no = last_seq_no + 1
             in if observed_seq_no = expected_seq_no
                then (answer SeqOk expected_seq_no, AList.update instrument_id observed_seq_no d)
                else if observed_seq_no > expected_seq_no
                then (answer SeqGap expected_seq_no, AList.update instrument_id observed_seq_no d)
                else (answer DuplicateOrOutOfOrder expected_seq_no, d))"

definition GD_reset :: "MarketDataGapDetector \<Rightarrow> MarketDataGapDetector" where
  "GD_reset d = []"

definition GD_reset_instrument :: "instrument_id \<Rightarrow> MarketDataGapDetector \<Rightarrow> MarketDataGapDetector" where
  "GD_reset_instrument i d = AList.delete i d"

fun GD_observe_all :: "MarketDataGapDetector \<Rightarrow> MarketDataMessage list \<Rightarrow> SequenceCheckResult list \<times> MarketDataGapDetector" where
  "GD_observe_all d [] = ([], d)"
| "GD_observe_all d (m # ms) =
     (let (r, d1) = GD_observe m d; (rs, d2) = GD_observe_all d1 ms in (r # rs, d2))"

section \<open>MarketDataSubscriber\<close>

type_synonym 'w MarketDataCallback = "(MarketDataMessage, 'w) callback"

record 'w MarketDataSubscriber =
  ms_queue :: "MarketDataMessage NonBlockingQueue"
  ms_callback :: "'w MarketDataCallback"

definition MS_new :: "'w MarketDataCallback \<Rightarrow> u64 \<Rightarrow> exn + 'w MarketDataSubscriber" where
  "MS_new callback batch_size =
     (case NBQ_new batch_size of
        Inl e \<Rightarrow> Inl e
      | Inr q \<Rightarrow> Inr \<lparr>ms_queue = q, ms_callback = callback\<rparr>)"

definition MS_push :: "MarketDataMessage \<Rightarrow> 'w MarketDataSubscriber \<Rightarrow> 'w MarketDataSubscriber option" where
  "MS_push m s = map_option (\<lambda>q. s\<lparr>ms_queue := q\<rparr>) (NBQ_push m (ms_queue s))"

definition MS_flush :: "'w MarketDataSubscriber \<Rightarrow> 'w MarketDataSubscriber option" where
  "MS_flush s = map_option (\<lambda>q. s\<lparr>ms_queue := q\<rparr>) (NBQ_flush (ms_queue s))"

definition MS_tryPop :: "'w MarketDataSubscriber \<Rightarrow> (MarketDataMessage option \<times> 'w MarketDataSubscriber) option" where
  "MS_tryPop s = map_option (\<lambda>(m, q). (m, s\<lparr>ms_queue := q\<rparr>)) (NBQ_tryPop (ms_queue s))"

definition MS_pop :: "'w MarketDataSubscriber \<Rightarrow> (MarketDataMessage option \<times> 'w MarketDataSubscriber) option" where
  "MS_pop s = map_option (\<lambda>(m, q). (m, s\<lparr>ms_queue := q\<rparr>)) (NBQ_pop (ms_queue s))"

text \<open>An exception of the callback leaves the loop; the message it was called with has been taken from the queue.\<close>

partial_function (option) MS_drainLoop ::
  "'w MarketDataSubscriber \<Rightarrow> 'w \<Rightarrow> u64 \<Rightarrow> ((exn + u64) \<times> 'w \<times> 'w MarketDataSubscriber) option" where
  "MS_drainLoop s w drained =
     Option.bind (MS_tryPop s) (\<lambda>(message, s').
       case message of
         None \<Rightarrow> Some (Inr drained, w, s')
       | Some m \<Rightarrow>
           (case ms_callback s' m w of
              (Some x, w') \<Rightarrow> Some (Inl x, w', s')
            | (None, w') \<Rightarrow> MS_drainLoop s' w' (drained + 1)))"

declare MS_drainLoop.simps [code]

definition MS_drainAvailable ::
  "'w MarketDataSubscriber \<Rightarrow> 'w \<Rightarrow> ((exn + u64) \<times> 'w \<times> 'w MarketDataSubscriber) option" where
  "MS_drainAvailable s w = MS_drainLoop s w 0"

definition MS_pendingApprox :: "'w MarketDataSubscriber \<Rightarrow> u64" where
  "MS_pendingApprox s = NBQ_size (ms_queue s)"

section \<open>MarketDataPublisher\<close>

record MarketDataSubscription =
  sn_subscriber_id :: u64
  sn_instrument_id :: instrument_id
  sn_subscriber :: nat

record MarketDataPublisher =
  mp_next_subscriber_id :: u64
  mp_subscriber_count :: u64
  mp_last_seq_no :: "(instrument_id, seq_no) umap"
  mp_subscribers :: "(instrument_id, MarketDataSubscription list) umap"

type_synonym 'w Subscribers = "'w MarketDataSubscriber list"

definition MP_new :: MarketDataPublisher where
  "MP_new = \<lparr>mp_next_subscriber_id = 1, mp_subscriber_count = 0, mp_last_seq_no = [], mp_subscribers = []\<rparr>"

definition MP_subscriptions :: "MarketDataPublisher \<Rightarrow> instrument_id \<Rightarrow> MarketDataSubscription list" where
  "MP_subscriptions p i = (case map_of (mp_subscribers p) i of None \<Rightarrow> [] | Some sns \<Rightarrow> sns)"

text \<open>The id is taken before the subscriber is constructed: it is used up even if that throws.\<close>

definition MP_subscribe ::
  "instrument_id \<Rightarrow> 'w MarketDataCallback \<Rightarrow> u64 \<Rightarrow> MarketDataPublisher \<Rightarrow> 'w Subscribers \<Rightarrow>
   (exn + MarketDataSubscription) \<times> MarketDataPublisher \<times> 'w Subscribers" where
  "MP_subscribe i callback queue_batch_size p subs =
     (let p1 = p\<lparr>mp_next_subscriber_id := mp_next_subscriber_id p + 1\<rparr>
      in case MS_new callback queue_batch_size of
           Inl e \<Rightarrow> (Inl e, p1, subs)
         | Inr s \<Rightarrow>
             let subscription = \<lparr>sn_subscriber_id = mp_next_subscriber_id p, sn_instrument_id = i,
                                 sn_subscriber = length subs\<rparr>
             in (Inr subscription,
                 p1\<lparr>mp_subscribers := AList.update i (MP_subscriptions p i @ [subscription]) (mp_subscribers p1),
                    mp_subscriber_count := mp_subscriber_count p1 + 1\<rparr>,
                 subs @ [s]))"

text \<open>Calling a method of each subscriber in turn, through its pointer.\<close>

fun for_subscribers ::
  "('w MarketDataSubscriber \<Rightarrow> 'w MarketDataSubscriber option) \<Rightarrow> MarketDataSubscription list \<Rightarrow>
   'w Subscribers \<Rightarrow> 'w Subscribers option" where
  "for_subscribers f [] subs = Some subs"
| "for_subscribers f (sn # sns) subs =
     (if sn_subscriber sn < length subs
      then (case f (subs ! sn_subscriber sn) of
              None \<Rightarrow> None
            | Some s \<Rightarrow> for_subscribers f sns (subs[sn_subscriber sn := s]))
      else None)"

definition MP_nextSeqNo :: "instrument_id \<Rightarrow> MarketDataPublisher \<Rightarrow> seq_no \<times> MarketDataPublisher" where
  "MP_nextSeqNo i p =
     (let last_seq_no = (case map_of (mp_last_seq_no p) i of None \<Rightarrow> 0 | Some n \<Rightarrow> n) + 1
      in (last_seq_no, p\<lparr>mp_last_seq_no := AList.update i last_seq_no (mp_last_seq_no p)\<rparr>))"

definition MP_publish :: "MarketDataMessage \<Rightarrow> MarketDataPublisher \<Rightarrow> 'w Subscribers \<Rightarrow> 'w Subscribers option" where
  "MP_publish message p subs =
     (case map_of (mp_subscribers p) (instrumentId message) of
        None \<Rightarrow> Some subs
      | Some sns \<Rightarrow> for_subscribers (MS_push message) sns subs)"

definition MP_publishUpdate ::
  "BookUpdate \<Rightarrow> MarketDataPublisher \<Rightarrow> 'w Subscribers \<Rightarrow> (seq_no \<times> MarketDataPublisher \<times> 'w Subscribers) option" where
  "MP_publishUpdate u p subs =
     (let (n, p') = MP_nextSeqNo (bu_instrument_id u) p
      in map_option (\<lambda>subs'. (n, p', subs')) (MP_publish (UpdateMsg (u\<lparr>bu_seq_no := n\<rparr>)) p' subs))"

definition MP_publishSnapshot ::
  "BookSnapshot \<Rightarrow> MarketDataPublisher \<Rightarrow> 'w Subscribers \<Rightarrow> (seq_no \<times> MarketDataPublisher \<times> 'w Subscribers) option" where
  "MP_publishSnapshot s p subs =
     (let (n, p') = MP_nextSeqNo (bs_instrument_id s) p
      in map_option (\<lambda>subs'. (n, p', subs')) (MP_publish (SnapshotMsg (s\<lparr>bs_seq_no := n\<rparr>)) p' subs))"

definition MP_publishTrade ::
  "TradeMessage \<Rightarrow> MarketDataPublisher \<Rightarrow> 'w Subscribers \<Rightarrow> (seq_no \<times> MarketDataPublisher \<times> 'w Subscribers) option" where
  "MP_publishTrade t p subs =
     (let (n, p') = MP_nextSeqNo (tm_instrument_id t) p
      in map_option (\<lambda>subs'. (n, p', subs')) (MP_publish (TradeMsg (t\<lparr>tm_seq_no := n\<rparr>)) p' subs))"

text \<open>
  The iteration order over the instruments is that of the unordered map; every subscriber is
  flushed in any order, and flushing one does not touch another.
\<close>

definition MP_flush :: "MarketDataPublisher \<Rightarrow> 'w Subscribers \<Rightarrow> 'w Subscribers option" where
  "MP_flush p subs = for_subscribers MS_flush (concat (map snd (mp_subscribers p))) subs"

definition MP_subscriberCount :: "MarketDataPublisher \<Rightarrow> u64" where
  "MP_subscriberCount p = mp_subscriber_count p"

definition MP_subscriberCount_for :: "instrument_id \<Rightarrow> MarketDataPublisher \<Rightarrow> u64" where
  "MP_subscriberCount_for i p =
     (case map_of (mp_subscribers p) i of None \<Rightarrow> 0 | Some sns \<Rightarrow> of_nat (length sns))"

section \<open>The gap detector follows the highest number seen\<close>

definition high :: "MarketDataGapDetector \<Rightarrow> instrument_id \<Rightarrow> seq_no" where
  "high d i = (case map_of d i of None \<Rightarrow> 0 | Some n \<Rightarrow> n)"

fun highest :: "seq_no \<Rightarrow> instrument_id \<Rightarrow> MarketDataMessage list \<Rightarrow> seq_no" where
  "highest h i [] = h"
| "highest h i (m # ms) = highest (if instrumentId m = i then max h (seqNo m) else h) i ms"

definition seq_status :: "seq_no \<Rightarrow> seq_no \<Rightarrow> SequenceCheckStatus" where
  "seq_status h n = (if n = h + 1 then SeqOk else if h < n then SeqGap else DuplicateOrOutOfOrder)"

lemma GD_observe_eq:
  "GD_observe m d =
     (let i = instrumentId m; n = seqNo m; e = high d i + 1
      in (\<lparr>sc_status = (if n = e then SeqOk else if n > e then SeqGap else DuplicateOrOutOfOrder),
           sc_instrument_id = i, sc_expected_seq_no = e, sc_observed_seq_no = n\<rparr>,
          if n = e \<or> n > e then AList.update i n d else d))"
  by (cases "map_of d (instrumentId m)") (simp_all add: GD_observe_def high_def Let_def del: map_of_eq_None_iff map_of_eq_Some_iff)

lemma suc_less_u64: "(h :: u64) \<noteq> - 1 \<Longrightarrow> h < n \<longleftrightarrow> n = h + 1 \<or> h + 1 < n"
  using unat_suc_u64 [of h] by (auto simp: word_less_nat_alt word_unat_eq_iff)

lemma high_update: "high (AList.update k n d) i = (if k = i then n else high d i)"
  by (simp add: high_def)

lemma GD_observe_high:
  assumes "high d (instrumentId m) \<noteq> - 1"
  shows "sc_status (fst (GD_observe m d)) = seq_status (high d (instrumentId m)) (seqNo m)"
    "sc_expected_seq_no (fst (GD_observe m d)) = high d (instrumentId m) + 1"
    "high (snd (GD_observe m d)) i = (if instrumentId m = i then max (high d i) (seqNo m) else high d i)"
  using suc_less_u64 [OF assms, of "seqNo m"]
  by (auto simp: GD_observe_eq Let_def seq_status_def high_update max_def not_less)

lemma GD_observe_all_high:
  assumes "\<forall>m \<in> set ms. seqNo m \<noteq> - 1" "\<forall>i. high d i \<noteq> - 1"
  shows "high (snd (GD_observe_all d ms)) i = highest (high d i) i ms \<and> highest (high d i) i ms \<noteq> - 1"
  using assms
proof (induction ms arbitrary: d)
  case (Cons m ms)
  let ?d = "snd (GD_observe m d)"
  have "high ?d j = (if instrumentId m = j then max (high d j) (seqNo m) else high d j)" for j
    using GD_observe_high(3) Cons.prems(2) by simp
  moreover from this Cons.prems have "\<forall>j. high ?d j \<noteq> - 1" by (auto simp: max_def)
  ultimately show ?case using Cons.IH [of ?d] Cons.prems(1) by (auto simp: case_prod_beta Let_def)
qed simp

lemma GD_observe_all_nth:
  "j < length ms \<Longrightarrow> fst (GD_observe_all d ms) ! j = fst (GD_observe (ms ! j) (snd (GD_observe_all d (take j ms))))"
  by (induction ms arbitrary: d j) (auto simp: case_prod_beta Let_def nth_Cons split: nat.split)

lemma length_GD_observe_all [simp]: "length (fst (GD_observe_all d ms)) = length ms"
  by (induction ms arbitrary: d) (auto simp: case_prod_beta Let_def)

text \<open>
  The gap detector is exact. On any stream of messages of any instruments (numbers below the
  last 64-bit value), the answer to each message compares its number with the highest number seen
  before for that instrument, zero if none: \<open>Ok\<close> for the next number, \<open>Gap\<close> above it, and
  duplicate or out of order below it; the expected number is the next one.
\<close>

theorem gap_detector_exact:
  assumes "\<forall>m \<in> set ms. seqNo m \<noteq> - 1" and "j < length ms"
  defines "h \<equiv> highest 0 (instrumentId (ms ! j)) (take j ms)"
  shows "sc_status (fst (GD_observe_all [] ms) ! j) = seq_status h (seqNo (ms ! j)) \<and>
         sc_expected_seq_no (fst (GD_observe_all [] ms) ! j) = h + 1"
proof -
  let ?d = "snd (GD_observe_all [] (take j ms))"
  have "\<forall>m \<in> set (take j ms). seqNo m \<noteq> - 1" using assms(1) by (meson in_set_takeD)
  then have "high ?d i = highest 0 i (take j ms) \<and> highest 0 i (take j ms) \<noteq> - 1" for i
    using GD_observe_all_high [of "take j ms" "[]" i] by (simp add: high_def)
  then have "high ?d (instrumentId (ms ! j)) = h" "h \<noteq> - 1" by (auto simp: h_def)
  with GD_observe_high [of ?d "ms ! j"] show ?thesis by (simp add: GD_observe_all_nth [OF assms(2)])
qed

definition trade_message :: "instrument_id \<Rightarrow> seq_no \<Rightarrow> MarketDataMessage" where
  "trade_message i n = TradeMsg \<lparr>tm_instrument_id = i, tm_timestamp_ns = i64 0, tm_seq_no = n, tm_price = i64 100,
     tm_size = 1, tm_aggressor_side = Bid\<rparr>"

theorem gap_detector_exact_witness:
  "sc_status (fst (GD_observe_all [] [trade_message 7 1, trade_message 8 3, trade_message 7 4, trade_message 7 2]) ! 2) = SeqGap \<and>
   sc_status (fst (GD_observe_all [] [trade_message 7 1, trade_message 8 3, trade_message 7 4, trade_message 7 2]) ! 3) =
     DuplicateOrOutOfOrder"
proof -
  let ?ms = "[trade_message 7 1, trade_message 8 3, trade_message 7 4, trade_message 7 2]"
  have ok: "\<forall>m \<in> set ?ms. seqNo m \<noteq> - 1" by (simp add: trade_message_def)
  have "seq_status (highest 0 (instrumentId (?ms ! 2)) (take 2 ?ms)) (seqNo (?ms ! 2)) = SeqGap"
    "seq_status (highest 0 (instrumentId (?ms ! 3)) (take 3 ?ms)) (seqNo (?ms ! 3)) = DuplicateOrOutOfOrder"
    by code_simp+
  with gap_detector_exact [OF ok, of 2] gap_detector_exact [OF ok, of 3] show ?thesis by simp
qed

section \<open>Subscribers\<close>

abbreviation pending :: "'w MarketDataSubscriber \<Rightarrow> MarketDataMessage list" where
  "pending s \<equiv> NBQ_contents (ms_queue s)"

definition subs_ok :: "'w Subscribers \<Rightarrow> bool" where
  "subs_ok subs \<longleftrightarrow> (\<forall>s \<in> set subs. NBQ_inv (ms_queue s))"

lemma MS_push_law:
  assumes "NBQ_inv (ms_queue s)"
  shows "\<exists>s'. MS_push m s = Some s' \<and> NBQ_inv (ms_queue s') \<and> pending s' = pending s @ [m] \<and> ms_callback s' = ms_callback s"
  using nbq.push_law [OF assms, of m] by (auto simp: MS_push_def)

lemma MS_flush_law:
  assumes "NBQ_inv (ms_queue s)"
  shows "\<exists>s'. MS_flush s = Some s' \<and> NBQ_inv (ms_queue s') \<and> pending s' = pending s \<and>
     NBQ_published (ms_queue s') = pending s \<and> ms_callback s' = ms_callback s"
  using nbq.flush_law [OF assms] by (auto simp: MS_flush_def)

lemma MS_drainLoop_correct:
  assumes "NBQ_inv (ms_queue s)" and "call_all (ms_callback s) (NBQ_published (ms_queue s)) w = (x, w', rest)"
  shows "\<exists>s' taken. MS_drainLoop s w n = Some (counted x (n + of_nat (length taken)), w', s') \<and>
     NBQ_inv (ms_queue s') \<and> ms_callback s' = ms_callback s \<and> NBQ_published (ms_queue s) = taken @ rest \<and>
     pending s = taken @ pending s' \<and> NBQ_published (ms_queue s') = rest"
  using assms
proof (induction "NBQ_published (ms_queue s)" arbitrary: s w n)
  case Nil
  from nbq.take_none [OF Nil.prems(1) Nil(1) [symmetric]] obtain q where
    "NBQ_tryPop (ms_queue s) = Some (None, q)" "NBQ_inv q" "NBQ_contents q = pending s" "NBQ_published q = []" by blast
  with Nil(1,3) show ?case by (subst MS_drainLoop.simps) (auto simp: MS_tryPop_def)
next
  case (Cons m ms)
  from nbq.take_some [OF Cons.prems(1) Cons(2) [symmetric]] obtain q where
    q: "NBQ_tryPop (ms_queue s) = Some (Some m, q)" "NBQ_inv q" "pending s = m # NBQ_contents q" "NBQ_published q = ms" by blast
  let ?s = "s\<lparr>ms_queue := q\<rparr>"
  obtain y w1 where c: "ms_callback s m w = (y, w1)" by fastforce
  have step: "MS_drainLoop s w n =
      (case y of Some x \<Rightarrow> Some (Inl x, w1, ?s) | None \<Rightarrow> MS_drainLoop ?s w1 (n + 1))"
    using q(1) c by (subst MS_drainLoop.simps) (simp add: MS_tryPop_def split: option.split)
  show ?case
  proof (cases y)
    case None
    from Cons.hyps(1) [of ?s w1 "n + 1"] Cons.prems(2) q Cons(2) [symmetric] c None obtain s' taken where
      "MS_drainLoop ?s w1 (n + 1) = Some (counted x ((n + 1) + of_nat (length taken)), w', s')"
      "NBQ_inv (ms_queue s')" "ms_callback s' = ms_callback s" "ms = taken @ rest"
      "NBQ_contents q = taken @ pending s'" "NBQ_published (ms_queue s') = rest" by auto
    with step None q(3) Cons(2) [symmetric] show ?thesis
      by (intro exI [of _ s'] exI [of _ "m # taken"]) (simp add: algebra_simps)
  next
    case (Some z)
    with step q Cons(2) [symmetric] Cons.prems(2) c show ?thesis
      by (intro exI [of _ ?s] exI [of _ "[m]"]) auto
  qed
qed

lemma for_subscribers_correct:
  assumes "\<forall>sn \<in> set sns. sn_subscriber sn < length subs" "distinct (map sn_subscriber sns)"
    and "\<And>s. NBQ_inv (ms_queue s) \<Longrightarrow> f s \<noteq> None" "subs_ok subs"
  shows "\<exists>subs'. for_subscribers f sns subs = Some subs' \<and> length subs' = length subs \<and>
     (\<forall>i < length subs. if i \<in> sn_subscriber ` set sns then f (subs ! i) = Some (subs' ! i) else subs' ! i = subs ! i)"
proof -
  have "\<exists>subs'. for_subscribers f sns ss = Some subs' \<and> length subs' = length ss \<and>
      (\<forall>i < length ss. if i \<in> sn_subscriber ` set sns then f (ss ! i) = Some (subs' ! i) else subs' ! i = ss ! i)"
    if "\<forall>sn \<in> set sns. sn_subscriber sn < length ss \<and> NBQ_inv (ms_queue (ss ! sn_subscriber sn))" for ss
    using that assms(2)
  proof (induction sns arbitrary: ss)
    case (Cons sn sns)
    let ?p = "sn_subscriber sn"
    obtain s where s: "f (ss ! ?p) = Some s" using Cons.prems(1) assms(3) by fastforce
    have "\<forall>sn \<in> set sns. sn_subscriber sn < length (ss[?p := s]) \<and> NBQ_inv (ms_queue (ss[?p := s] ! sn_subscriber sn))"
      using Cons.prems by (auto simp: nth_list_update image_iff)
    from Cons.IH [OF this] Cons.prems(2) obtain subs' where r: "for_subscribers f sns (ss[?p := s]) = Some subs'"
      "length subs' = length ss" "\<forall>i < length ss. if i \<in> sn_subscriber ` set sns then f (ss[?p := s] ! i) = Some (subs' ! i)
         else subs' ! i = ss[?p := s] ! i" by auto
    show ?case
      by (rule exI [of _ subs']) (use r s Cons.prems in \<open>auto simp: nth_list_update split: if_splits\<close>)
  qed auto
  then show ?thesis using assms(1,4) by (simp add: subs_ok_def)
qed

section \<open>A feed in use\<close>

text \<open>
  Everything that can be done with a publisher and its subscribers. The callbacks of the
  subscribers record what they are called with, the state \<open>w\<close> maps a subscriber to its history, and
  then some of them may throw on some messages: \<open>raises\<close>.
\<close>

type_synonym seen = "nat \<Rightarrow> MarketDataMessage list"
type_synonym feed = "MarketDataPublisher \<times> seen Subscribers \<times> seen"

datatype feed_op =
  FeedSubscribe instrument_id u64 | FeedUpdate BookUpdate | FeedSnapshot BookSnapshot | FeedTrade TradeMessage
| FeedFlush | FeedDrain nat

definition record_seen :: "(nat \<Rightarrow> MarketDataMessage \<Rightarrow> exn option) \<Rightarrow> nat \<Rightarrow> seen MarketDataCallback" where
  "record_seen raises i m w = (raises i m, w(i := w i @ [m]))"

abbreviation never_raises :: "nat \<Rightarrow> MarketDataMessage \<Rightarrow> exn option" where
  "never_raises \<equiv> \<lambda>_ _. None"

fun feed_step :: "(nat \<Rightarrow> MarketDataMessage \<Rightarrow> exn option) \<Rightarrow> feed \<Rightarrow> feed_op \<Rightarrow> feed option" where
  "feed_step raises (p, subs, w) (FeedSubscribe i bs) =
     (let (r, p', subs') = MP_subscribe i (record_seen raises (length subs)) bs p subs in Some (p', subs', w))"
| "feed_step raises (p, subs, w) (FeedUpdate u) =
     map_option (\<lambda>(n, p', subs'). (p', subs', w)) (MP_publishUpdate u p subs)"
| "feed_step raises (p, subs, w) (FeedSnapshot s) =
     map_option (\<lambda>(n, p', subs'). (p', subs', w)) (MP_publishSnapshot s p subs)"
| "feed_step raises (p, subs, w) (FeedTrade t) =
     map_option (\<lambda>(n, p', subs'). (p', subs', w)) (MP_publishTrade t p subs)"
| "feed_step raises (p, subs, w) FeedFlush = map_option (\<lambda>subs'. (p, subs', w)) (MP_flush p subs)"
| "feed_step raises (p, subs, w) (FeedDrain i) =
     (if i < length subs
      then map_option (\<lambda>(n, w', s). (p, subs[i := s], w')) (MS_drainAvailable (subs ! i) w)
      else Some (p, subs, w))"

fun feed_run :: "(nat \<Rightarrow> MarketDataMessage \<Rightarrow> exn option) \<Rightarrow> feed \<Rightarrow> feed_op list \<Rightarrow> feed option" where
  "feed_run raises f [] = Some f"
| "feed_run raises f (op # ops) = Option.bind (feed_step raises f op) (\<lambda>f'. feed_run raises f' ops)"

definition feed_start :: feed where
  "feed_start = (MP_new, [], \<lambda>_. [])"

text \<open>
  The specification: the numbered messages in the order of publication, and for each subscriber
  its instrument and how many messages had been published when it subscribed.
\<close>

record feed_spec =
  fs_published :: "MarketDataMessage list"
  fs_joined :: "(instrument_id \<times> nat) list"

abbreviation of_instrument :: "instrument_id \<Rightarrow> MarketDataMessage list \<Rightarrow> MarketDataMessage list" where
  "of_instrument i ms \<equiv> filter (\<lambda>m. instrumentId m = i) ms"

definition spec_publish :: "MarketDataMessage \<Rightarrow> feed_spec \<Rightarrow> feed_spec" where
  "spec_publish m f = f\<lparr>fs_published := fs_published f @
     [setSeqNo m (of_nat (Suc (length (of_instrument (instrumentId m) (fs_published f)))))]\<rparr>"

fun spec_step :: "feed_spec \<Rightarrow> feed_op \<Rightarrow> feed_spec" where
  "spec_step f (FeedSubscribe i bs) =
     (if bs = 0 then f else f\<lparr>fs_joined := fs_joined f @ [(i, length (fs_published f))]\<rparr>)"
| "spec_step f (FeedUpdate u) = spec_publish (UpdateMsg u) f"
| "spec_step f (FeedSnapshot s) = spec_publish (SnapshotMsg s) f"
| "spec_step f (FeedTrade t) = spec_publish (TradeMsg t) f"
| "spec_step f FeedFlush = f"
| "spec_step f (FeedDrain i) = f"

abbreviation spec_feed :: "feed_op list \<Rightarrow> feed_spec" where
  "spec_feed \<equiv> foldl spec_step \<lparr>fs_published = [], fs_joined = []\<rparr>"

text \<open>The messages a subscriber is owed.\<close>

definition owed :: "feed_spec \<Rightarrow> nat \<Rightarrow> MarketDataMessage list" where
  "owed f i = (let (k, n) = fs_joined f ! i in of_instrument k (drop n (fs_published f)))"

section \<open>The feed implements its specification\<close>

text \<open>The three publishing operations are one operation on messages.\<close>

definition publish_numbered ::
  "MarketDataMessage \<Rightarrow> MarketDataPublisher \<Rightarrow> 'w Subscribers \<Rightarrow> (seq_no \<times> MarketDataPublisher \<times> 'w Subscribers) option" where
  "publish_numbered m p subs =
     (let (n, p') = MP_nextSeqNo (instrumentId m) p
      in map_option (\<lambda>subs'. (n, p', subs')) (MP_publish (setSeqNo m n) p' subs))"

lemma publish_as_numbered:
  "MP_publishUpdate u p subs = publish_numbered (UpdateMsg u) p subs"
  "MP_publishSnapshot s p subs = publish_numbered (SnapshotMsg s) p subs"
  "MP_publishTrade t p subs = publish_numbered (TradeMsg t) p subs"
  by (simp_all add: publish_numbered_def MP_publishUpdate_def MP_publishSnapshot_def MP_publishTrade_def)

definition feed_rel :: "(nat \<Rightarrow> MarketDataMessage \<Rightarrow> exn option) \<Rightarrow> feed \<Rightarrow> feed_spec \<Rightarrow> bool" where
  "feed_rel raises st f \<longleftrightarrow>
     (case st of (p, subs, w) \<Rightarrow>
        subs_ok subs \<and> length subs = length (fs_joined f) \<and>
        (\<forall>i < length subs. snd (fs_joined f ! i) \<le> length (fs_published f)) \<and>
        (\<forall>k. high (mp_last_seq_no p) k = of_nat (length (of_instrument k (fs_published f)))) \<and>
        (\<forall>k. sn_subscriber ` set (MP_subscriptions p k) = {i. i < length subs \<and> fst (fs_joined f ! i) = k} \<and>
             distinct (map sn_subscriber (MP_subscriptions p k))) \<and>
        distinct (keys (mp_subscribers p)) \<and>
        (\<forall>i < length subs. ms_callback (subs ! i) = record_seen raises i \<and> w i @ pending (subs ! i) = owed f i) \<and>
        (\<forall>i \<ge> length subs. w i = []))"

lemma feed_rel_start: "feed_rel raises feed_start \<lparr>fs_published = [], fs_joined = []\<rparr>"
  by (simp add: feed_rel_def feed_start_def MP_new_def subs_ok_def high_def MP_subscriptions_def)

lemma feed_rel_subscribe:
  assumes rel: "feed_rel raises (p, subs, w) f" and sub: "MP_subscribe k (record_seen raises (length subs)) bs p subs = (r, p', subs')"
  shows "feed_rel raises (p', subs', w) (spec_step f (FeedSubscribe k bs))"
proof (cases "bs = 0")
  case True
  then have "p' = p\<lparr>mp_next_subscriber_id := mp_next_subscriber_id p + 1\<rparr>" "subs' = subs"
    using sub by (auto simp: MP_subscribe_def MS_new_def NBQ_new_def Let_def)
  moreover have "MP_subscriptions (p\<lparr>mp_next_subscriber_id := n\<rparr>) j = MP_subscriptions p j" for n j
    by (simp add: MP_subscriptions_def)
  ultimately show ?thesis using rel True by (simp add: feed_rel_def)
next
  case False
  then obtain q :: "MarketDataMessage NonBlockingQueue" where q: "NBQ_new bs = Inr q" by (simp add: NBQ_new_def)
  then have q': "NBQ_inv q" "NBQ_contents q = []" using NBQ_new_correct by blast+
  let ?s = "\<lparr>ms_queue = q, ms_callback = record_seen raises (length subs)\<rparr>"
  have s': "subs' = subs @ [?s]" "mp_last_seq_no p' = mp_last_seq_no p"
    "MP_subscriptions p' j = (if j = k then MP_subscriptions p k @ [\<lparr>sn_subscriber_id = mp_next_subscriber_id p,
       sn_instrument_id = k, sn_subscriber = length subs\<rparr>] else MP_subscriptions p j)"
    "distinct (keys (mp_subscribers p)) \<Longrightarrow> distinct (keys (mp_subscribers p'))" for j
    using sub q by (auto simp: MP_subscribe_def MS_new_def Let_def MP_subscriptions_def distinct_keys_update)
  let ?f = "spec_step f (FeedSubscribe k bs)"
  have r: "subs_ok subs" "length subs = length (fs_joined f)" "\<forall>i < length subs. snd (fs_joined f ! i) \<le> length (fs_published f)"
    "\<And>k. sn_subscriber ` set (MP_subscriptions p k) = {i. i < length subs \<and> fst (fs_joined f ! i) = k}"
    "\<And>k. distinct (map sn_subscriber (MP_subscriptions p k))"
    "\<forall>i < length subs. ms_callback (subs ! i) = record_seen raises i \<and> w i @ pending (subs ! i) = owed f i"
    "\<forall>i \<ge> length subs. w i = []"
    using rel by (auto simp: feed_rel_def)
  have f': "fs_published ?f = fs_published f" "fs_joined ?f = fs_joined f @ [(k, length (fs_published f))]"
    using False by simp_all
  have ptrs: "sn_subscriber ` set (MP_subscriptions p' j) = {i. i < length subs' \<and> fst (fs_joined ?f ! i) = j}" for j
    using r(2) r(4) [of j] r(4) [of k] unfolding s' f' by (auto simp: nth_append less_Suc_eq)
  have "length subs \<notin> sn_subscriber ` set (MP_subscriptions p k)" unfolding r(4) by simp
  then have dist: "distinct (map sn_subscriber (MP_subscriptions p' j))" for j
    using r(5) [of j] r(5) [of k] unfolding s' by auto
  have "owed ?f i = owed f i" if "i < length subs" for i using that r(2) by (simp add: owed_def f' nth_append del: spec_step.simps)
  moreover have "owed ?f (length subs) = []" using r(2) by (simp add: owed_def f' nth_append del: spec_step.simps)
  ultimately have seen: "\<forall>i < length subs'. ms_callback (subs' ! i) = record_seen raises i \<and> w i @ pending (subs' ! i) = owed ?f i"
    using r(6,7) q'(2) by (auto simp: s' nth_append less_Suc_eq)
  have "subs_ok subs'" using r(1) q'(1) by (simp add: s' subs_ok_def)
  moreover have "\<forall>i < length subs'. snd (fs_joined ?f ! i) \<le> length (fs_published ?f)"
    using r(2,3) by (simp add: s' f' nth_append less_Suc_eq del: spec_step.simps)
  ultimately show ?thesis
    using rel ptrs dist seen s'(2,4) r(2) unfolding feed_rel_def prod.case f' by (simp add: s'(1))
qed

lemma feed_rel_publish:
  assumes rel: "feed_rel raises (p, subs, w) f"
  shows "\<exists>n p' subs'. publish_numbered m p subs = Some (n, p', subs') \<and> feed_rel raises (p', subs', w) (spec_publish m f) \<and>
     n = of_nat (Suc (length (of_instrument (instrumentId m) (fs_published f))))"
proof -
  let ?k = "instrumentId m"
  define n :: seq_no where "n = of_nat (Suc (length (of_instrument ?k (fs_published f))))"
  define p' where "p' = p\<lparr>mp_last_seq_no := AList.update ?k n (mp_last_seq_no p)\<rparr>"
  have r: "subs_ok subs" "length subs = length (fs_joined f)" "\<forall>i < length subs. snd (fs_joined f ! i) \<le> length (fs_published f)"
    "\<forall>k. high (mp_last_seq_no p) k = of_nat (length (of_instrument k (fs_published f)))"
    "\<And>k. sn_subscriber ` set (MP_subscriptions p k) = {i. i < length subs \<and> fst (fs_joined f ! i) = k}"
    "\<And>k. distinct (map sn_subscriber (MP_subscriptions p k))" "distinct (keys (mp_subscribers p))"
    "\<forall>i < length subs. ms_callback (subs ! i) = record_seen raises i \<and> w i @ pending (subs ! i) = owed f i"
    "\<forall>i \<ge> length subs. w i = []"
    using rel by (auto simp: feed_rel_def)
  have seq: "MP_nextSeqNo ?k p = (n, p')"
    using r(4) by (simp add: MP_nextSeqNo_def p'_def high_def [symmetric] Let_def n_def add.commute)
  have subn: "MP_subscriptions p' j = MP_subscriptions p j" for j by (simp add: p'_def MP_subscriptions_def)
  have pub: "MP_publish (setSeqNo m n) p' subs = for_subscribers (MS_push (setSeqNo m n)) (MP_subscriptions p ?k) subs"
    unfolding MP_publish_def MP_subscriptions_def by (auto simp: p'_def simp del: map_of_eq_None_iff map_of_eq_Some_iff split: option.split)
  have "\<forall>sn \<in> set (MP_subscriptions p ?k). sn_subscriber sn < length subs" using r(5) [of ?k] by auto
  moreover have "NBQ_inv (ms_queue s) \<Longrightarrow> MS_push (setSeqNo m n) s \<noteq> None" for s :: "seen MarketDataSubscriber"
    using MS_push_law by fastforce
  ultimately obtain subs' where
    s': "for_subscribers (MS_push (setSeqNo m n)) (MP_subscriptions p ?k) subs = Some subs'" "length subs' = length subs"
      "\<forall>i < length subs. if i \<in> sn_subscriber ` set (MP_subscriptions p ?k)
         then MS_push (setSeqNo m n) (subs ! i) = Some (subs' ! i) else subs' ! i = subs ! i"
    using for_subscribers_correct [OF _ r(6) _ r(1)] by blast
  have s3: "if fst (fs_joined f ! i) = ?k then MS_push (setSeqNo m n) (subs ! i) = Some (subs' ! i) else subs' ! i = subs ! i"
    if "i < length subs" for i
    using s'(3) that unfolding r(5) by simp
  have o: "owed (spec_publish m f) i = owed f i @ (if fst (fs_joined f ! i) = ?k then [setSeqNo m n] else [])"
    if "i < length subs" for i
    using r(3) that by (auto simp: owed_def spec_publish_def case_prod_beta Let_def n_def)
  have each: "NBQ_inv (ms_queue (subs' ! i)) \<and> ms_callback (subs' ! i) = record_seen raises i \<and>
      w i @ pending (subs' ! i) = owed (spec_publish m f) i" if i: "i < length subs" for i
  proof -
    have "NBQ_inv (ms_queue (subs ! i))" using r(1) i by (simp add: subs_ok_def)
    from MS_push_law [OF this, of "setSeqNo m n"] s3 [OF i] r(8) i this show ?thesis
      by (auto simp: o split: if_splits)
  qed
  then have ok: "subs_ok subs'" using s'(2) by (auto simp: subs_ok_def in_set_conv_nth)
  have "feed_rel raises (p', subs', w) (spec_publish m f)"
    unfolding feed_rel_def prod.case using r(2,3,4,5,6,7,9) each s'(2) ok subn
    by (auto simp: spec_publish_def p'_def high_update n_def)
  then show ?thesis using seq pub s'(1) unfolding n_def [symmetric] by (simp add: publish_numbered_def)
qed

lemma for_subscribers_flush:
  assumes "\<forall>sn \<in> set sns. sn_subscriber sn < length subs" "subs_ok subs"
  shows "\<exists>subs'. for_subscribers MS_flush sns subs = Some subs' \<and> length subs' = length subs \<and> subs_ok subs' \<and>
     (\<forall>i < length subs. pending (subs' ! i) = pending (subs ! i) \<and> ms_callback (subs' ! i) = ms_callback (subs ! i) \<and>
        (i \<in> sn_subscriber ` set sns \<or> NBQ_published (ms_queue (subs ! i)) = pending (subs ! i) \<longrightarrow>
         NBQ_published (ms_queue (subs' ! i)) = pending (subs ! i)))"
  using assms
proof (induction sns arbitrary: subs)
  case (Cons sn sns)
  let ?p = "sn_subscriber sn"
  have p: "?p < length subs" "NBQ_inv (ms_queue (subs ! ?p))" using Cons.prems by (auto simp: subs_ok_def)
  from MS_flush_law [OF p(2)] obtain s where s: "MS_flush (subs ! ?p) = Some s" "NBQ_inv (ms_queue s)"
    "pending s = pending (subs ! ?p)" "NBQ_published (ms_queue s) = pending (subs ! ?p)"
    "ms_callback s = ms_callback (subs ! ?p)" by blast
  have "subs_ok (subs[?p := s])" using Cons.prems(2) s(2) by (auto simp: subs_ok_def dest!: set_update_subset_insert [THEN subsetD])
  with Cons.IH [of "subs[?p := s]"] Cons.prems(1) obtain subs' where r: "for_subscribers MS_flush sns (subs[?p := s]) = Some subs'"
    "length subs' = length subs" "subs_ok subs'"
    "\<forall>i < length subs. pending (subs' ! i) = pending (subs[?p := s] ! i) \<and>
       ms_callback (subs' ! i) = ms_callback (subs[?p := s] ! i) \<and>
       (i \<in> sn_subscriber ` set sns \<or> NBQ_published (ms_queue (subs[?p := s] ! i)) = pending (subs[?p := s] ! i) \<longrightarrow>
        NBQ_published (ms_queue (subs' ! i)) = pending (subs[?p := s] ! i))" by auto
  show ?case
    by (rule exI [of _ subs']) (use r s p in \<open>auto simp: nth_list_update\<close>)
qed simp

lemma flush_pointers:
  assumes "feed_rel raises (p, subs, w) f"
  shows "sn_subscriber ` set (concat (map snd (mp_subscribers p))) = {i. i < length subs}"
proof -
  have d: "distinct (keys (mp_subscribers p))" using assms by (simp add: feed_rel_def)
  have "set (concat (map snd (mp_subscribers p))) = (\<Union>k. set (MP_subscriptions p k))"
  proof (intro set_eqI iffI)
    fix sn assume "sn \<in> set (concat (map snd (mp_subscribers p)))"
    then obtain k sns where "(k, sns) \<in> set (mp_subscribers p)" "sn \<in> set sns" by auto
    with d have "sn \<in> set (MP_subscriptions p k)" by (simp add: MP_subscriptions_def del: map_of_eq_Some_iff)
    then show "sn \<in> (\<Union>k. set (MP_subscriptions p k))" by blast
  next
    fix sn assume "sn \<in> (\<Union>k. set (MP_subscriptions p k))"
    then obtain k where k: "sn \<in> set (MP_subscriptions p k)" by blast
    then obtain sns where "map_of (mp_subscribers p) k = Some sns" "sn \<in> set sns"
      by (cases "map_of (mp_subscribers p) k") (auto simp: MP_subscriptions_def simp del: map_of_eq_Some_iff map_of_eq_None_iff)
    then have "(k, sns) \<in> set (mp_subscribers p)" by (simp only: map_of_SomeD)
    with \<open>sn \<in> set sns\<close> show "sn \<in> set (concat (map snd (mp_subscribers p)))" by force
  qed
  moreover have "sn_subscriber ` (\<Union>k. set (MP_subscriptions p k)) = {i. i < length subs}"
    unfolding image_UN using assms by (auto simp: feed_rel_def)
  ultimately show ?thesis by simp
qed

lemma feed_rel_flush:
  assumes rel: "feed_rel raises (p, subs, w) f"
  shows "\<exists>subs'. MP_flush p subs = Some subs' \<and> feed_rel raises (p, subs', w) f \<and>
     (\<forall>i < length subs. NBQ_published (ms_queue (subs' ! i)) = pending (subs' ! i))"
proof -
  note ptrs = flush_pointers [OF rel]
  have "\<forall>sn \<in> set (concat (map snd (mp_subscribers p))). sn_subscriber sn < length subs" using ptrs by blast
  moreover have "subs_ok subs" using rel by (simp add: feed_rel_def)
  ultimately obtain subs' where "MP_flush p subs = Some subs'" "length subs' = length subs" "subs_ok subs'"
    "\<forall>i < length subs. pending (subs' ! i) = pending (subs ! i) \<and> ms_callback (subs' ! i) = ms_callback (subs ! i) \<and>
       NBQ_published (ms_queue (subs' ! i)) = pending (subs ! i)"
    using for_subscribers_flush [of "concat (map snd (mp_subscribers p))" subs] unfolding MP_flush_def ptrs by auto
  with rel show ?thesis by (auto simp: feed_rel_def)
qed

text \<open>What a subscriber has taken from its queue, its callback has seen.\<close>

lemma feed_rel_take:
  assumes rel: "feed_rel raises (p, subs, w) f" and i: "i < length subs"
    and s: "NBQ_inv (ms_queue s')" "ms_callback s' = record_seen raises i" "pending (subs ! i) = ms @ pending s'"
  shows "feed_rel raises (p, subs[i := s'], w(i := w i @ ms)) f"
proof -
  have "subs_ok subs" using rel by (simp add: feed_rel_def)
  then have "subs_ok (subs[i := s'])" using s(1) by (auto simp: subs_ok_def dest!: set_update_subset_insert [THEN subsetD])
  moreover have "w i @ pending (subs ! i) = owed f i" using rel i by (simp add: feed_rel_def)
  ultimately show ?thesis using rel s(2,3) i by (auto simp: feed_rel_def nth_list_update)
qed

lemma feed_rel_pop:
  assumes rel: "feed_rel raises (p, subs, w) f" and i: "i < length subs"
  obtains (empty) s' where "MS_tryPop (subs ! i) = Some (None, s')" "feed_rel raises (p, subs[i := s'], w) f"
      "NBQ_published (ms_queue (subs ! i)) = []" "NBQ_published (ms_queue s') = []" "pending s' = pending (subs ! i)"
  | (item) m s' where "MS_tryPop (subs ! i) = Some (Some m, s')" "feed_rel raises (p, subs[i := s'], w(i := w i @ [m])) f"
      "NBQ_published (ms_queue (subs ! i)) = m # NBQ_published (ms_queue s')" "pending (subs ! i) = m # pending s'"
proof -
  have r: "NBQ_inv (ms_queue (subs ! i))" "ms_callback (subs ! i) = record_seen raises i"
    using rel i by (auto simp: feed_rel_def subs_ok_def)
  show thesis
  proof (cases "NBQ_published (ms_queue (subs ! i))")
    case Nil
    from nbq.take_none [OF r(1) Nil] obtain q where
      q: "NBQ_tryPop (ms_queue (subs ! i)) = Some (None, q)" "NBQ_inv q" "NBQ_contents q = pending (subs ! i)" "NBQ_published q = []" by blast
    let ?s = "(subs ! i)\<lparr>ms_queue := q\<rparr>"
    have "feed_rel raises (p, subs[i := ?s], w(i := w i @ [])) f"
      by (rule feed_rel_take [OF rel i]) (use q r in simp_all)
    with q Nil show ?thesis by (intro empty [of ?s]) (simp_all add: MS_tryPop_def)
  next
    case (Cons m ms)
    from nbq.take_some [OF r(1) Cons] obtain q where
      q: "NBQ_tryPop (ms_queue (subs ! i)) = Some (Some m, q)" "NBQ_inv q" "pending (subs ! i) = m # NBQ_contents q"
        "NBQ_published q = ms" by blast
    let ?s = "(subs ! i)\<lparr>ms_queue := q\<rparr>"
    have "feed_rel raises (p, subs[i := ?s], w(i := w i @ [m])) f"
      by (rule feed_rel_take [OF rel i]) (use q r in simp_all)
    with q Cons show ?thesis by (intro item [of m ?s]) (simp_all add: MS_tryPop_def)
  qed
qed

text \<open>How a run of calls ends: an exception comes from the last call and from no other.\<close>

definition calls_end :: "(nat \<Rightarrow> MarketDataMessage \<Rightarrow> exn option) \<Rightarrow> nat \<Rightarrow> exn option \<Rightarrow> MarketDataMessage list \<Rightarrow> bool" where
  "calls_end raises i x ms \<longleftrightarrow>
     (case x of
        None \<Rightarrow> \<forall>m \<in> set ms. raises i m = None
      | Some _ \<Rightarrow> ms \<noteq> [] \<and> raises i (last ms) = x \<and> (\<forall>m \<in> set (butlast ms). raises i m = None))"

lemma record_seen_calls:
  assumes "call_all (record_seen raises i) ms w = (x, w', rest)" and "ms = taken @ rest"
  shows "w' = w(i := w i @ taken)" and "calls_end raises i x taken"
proof -
  have "w' = w(i := w i @ taken) \<and> calls_end raises i x taken"
    using assms
  proof (induction ms arbitrary: w taken)
    case (Cons m ms)
    show ?case
    proof (cases taken)
      case Nil
      have "length rest \<le> length ms"
        using Cons.prems(1) by (auto simp: record_seen_def split: option.splits dest: call_all_suffix)
      with Cons.prems(2) Nil show ?thesis by (metis Suc_n_not_le_n append_Nil length_Cons)
    next
      case (Cons m' taken')
      note t = this
      with Cons.prems(2) have ms: "m' = m" "ms = taken' @ rest" by simp_all
      show ?thesis
      proof (cases "raises i m")
        case None
        then have "call_all (record_seen raises i) ms (w(i := w i @ [m])) = (x, w', rest)"
          using Cons.prems(1) by (simp add: record_seen_def [of raises i m w])
        from Cons.IH [OF this ms(2)] t ms(1) None show ?thesis
          by (auto simp: fun_upd_def calls_end_def split: option.splits)
      next
        case (Some z)
        with Cons.prems(1) ms t show ?thesis by (auto simp: record_seen_def [of raises i m w] calls_end_def split: option.splits)
      qed
    qed
  qed (simp add: calls_end_def)
  then show "w' = w(i := w i @ taken)" and "calls_end raises i x taken" by blast+
qed

text \<open>
  A drain hands over the visible messages up to the first one on which the callback throws; whatever
  happens, nothing is lost and nothing is seen twice.
\<close>

lemma feed_rel_drain:
  assumes rel: "feed_rel raises (p, subs, w) f" and i: "i < length subs"
  obtains x s' ms rest where "MS_drainAvailable (subs ! i) w = Some (counted x (of_nat (length ms)), w(i := w i @ ms), s')"
    "NBQ_published (ms_queue (subs ! i)) = ms @ rest" "NBQ_published (ms_queue s') = rest"
    "pending (subs ! i) = ms @ pending s'" "feed_rel raises (p, subs[i := s'], w(i := w i @ ms)) f"
    "x = None \<longrightarrow> rest = []" "calls_end raises i x ms"
proof -
  have r: "NBQ_inv (ms_queue (subs ! i))" "ms_callback (subs ! i) = record_seen raises i"
    using rel i by (auto simp: feed_rel_def subs_ok_def)
  obtain x w' rest where c: "call_all (record_seen raises i) (NBQ_published (ms_queue (subs ! i))) w = (x, w', rest)"
    by (metis prod_cases3)
  from MS_drainLoop_correct [OF r(1), of w x w' rest 0] c r(2) obtain s' ms where
    s': "MS_drainAvailable (subs ! i) w = Some (counted x (of_nat (length ms)), w', s')"
      "NBQ_inv (ms_queue s')" "ms_callback s' = record_seen raises i" "NBQ_published (ms_queue (subs ! i)) = ms @ rest"
      "pending (subs ! i) = ms @ pending s'" "NBQ_published (ms_queue s') = rest"
    by (auto simp: MS_drainAvailable_def)
  note seen = record_seen_calls [OF c s'(4)]
  have "feed_rel raises (p, subs[i := s'], w(i := w i @ ms)) f" by (rule feed_rel_take [OF rel i s'(2,3,5)])
  with s' seen call_all_suffix [OF c] that show thesis by blast
qed

lemma feed_rel_drain_quiet:
  assumes "feed_rel raises (p, subs, w) f" and "i < length subs" and "\<And>m. raises i m = None"
  shows "\<exists>n s' ms. MS_drainAvailable (subs ! i) w = Some (Inr n, w(i := w i @ ms), s') \<and>
     ms = NBQ_published (ms_queue (subs ! i)) \<and> n = of_nat (length ms) \<and> NBQ_published (ms_queue s') = [] \<and>
     pending (subs ! i) = ms @ pending s' \<and> feed_rel raises (p, subs[i := s'], w(i := w i @ ms)) f"
proof -
  obtain x s' ms rest where d: "MS_drainAvailable (subs ! i) w = Some (counted x (of_nat (length ms)), w(i := w i @ ms), s')"
    "NBQ_published (ms_queue (subs ! i)) = ms @ rest" "NBQ_published (ms_queue s') = rest"
    "pending (subs ! i) = ms @ pending s'" "feed_rel raises (p, subs[i := s'], w(i := w i @ ms)) f"
    "x = None \<longrightarrow> rest = []" "calls_end raises i x ms"
    by (rule feed_rel_drain [OF assms(1,2)])
  then have "x = None" using assms(3) by (auto simp: calls_end_def split: option.splits)
  with d show ?thesis by auto
qed

lemma feed_rel_step:
  assumes "feed_rel raises st f"
  shows "\<exists>st'. feed_step raises st op = Some st' \<and> feed_rel raises st' (spec_step f op)"
proof -
  obtain p subs w where st: "st = (p, subs, w)" by (cases st)
  note rel = assms [unfolded st]
  show ?thesis
  proof (cases op)
    case (FeedSubscribe k bs)
    obtain r p' subs' where s: "MP_subscribe k (record_seen raises (length subs)) bs p subs = (r, p', subs')" by (metis prod_cases3)
    from feed_rel_subscribe [OF rel s] s FeedSubscribe st show ?thesis by simp
  next
    case FeedFlush
    with feed_rel_flush [OF rel] st show ?thesis by auto
  next
    case (FeedDrain i)
    show ?thesis
    proof (cases "i < length subs")
      case True
      show ?thesis by (rule feed_rel_drain [OF rel True]) (use True FeedDrain st in auto)
    qed (use FeedDrain st rel in simp)
  qed (use feed_rel_publish [OF rel] st in \<open>auto simp: publish_as_numbered; metis\<close>)+
qed

lemma feed_rel_run:
  "feed_rel raises st f \<Longrightarrow> \<exists>st'. feed_run raises st ops = Some st' \<and> feed_rel raises st' (foldl spec_step f ops)"
proof (induction ops arbitrary: st f)
  case (Cons op ops)
  from feed_rel_step [OF Cons.prems, of op] obtain st1 where "feed_step raises st op = Some st1" "feed_rel raises st1 (spec_step f op)" by blast
  with Cons.IH [of st1 "spec_step f op"] show ?case by simp
qed simp

section \<open>Numbers of published messages\<close>

definition numbered :: "nat \<Rightarrow> MarketDataMessage list \<Rightarrow> bool" where
  "numbered a ms \<longleftrightarrow> map seqNo ms = map of_nat [Suc a..<Suc a + length ms]"

lemma numbered_Nil [simp]: "numbered a []"
  by (simp add: numbered_def)

lemma numbered_Cons: "numbered a (m # ms) \<longleftrightarrow> seqNo m = of_nat (Suc a) \<and> numbered (Suc a) ms"
proof -
  have "[Suc a..<Suc a + length (m # ms)] = Suc a # [Suc (Suc a)..<Suc (Suc a) + length ms]"
    by (subst upt_conv_Cons) simp_all
  then show ?thesis by (simp add: numbered_def)
qed

lemma numbered_append: "numbered a (ms @ ns) \<longleftrightarrow> numbered a ms \<and> numbered (a + length ms) ns"
  by (induction ms arbitrary: a) (auto simp: numbered_Cons)

lemma spec_numbered: "numbered 0 (of_instrument k (fs_published (spec_feed ops)))"
proof (induction ops rule: rev_induct)
  case (snoc op ops)
  have "numbered 0 (of_instrument k (fs_published (spec_publish m (spec_feed ops))))" for m
    using snoc.IH by (simp add: spec_publish_def numbered_append numbered_Cons)
  with snoc.IH show ?case by (cases op) simp_all
qed simp

lemma owed_numbered:
  assumes "fs_joined f ! i = (k, n)" and "\<And>k. numbered 0 (of_instrument k (fs_published f))"
  shows "numbered (length (of_instrument k (take n (fs_published f)))) (owed f i) \<and> (\<forall>m \<in> set (owed f i). instrumentId m = k)"
proof -
  have "of_instrument k (fs_published f) = of_instrument k (take n (fs_published f)) @ owed f i"
    using assms(1) by (simp add: owed_def flip: filter_append)
  with assms(2) [of k] have "numbered (length (of_instrument k (take n (fs_published f)))) (owed f i)"
    by (simp add: numbered_append)
  then show ?thesis using assms(1) by (auto simp: owed_def)
qed

lemma published_length: "length (fs_published (spec_feed ops)) \<le> length ops"
proof (induction ops rule: rev_induct)
  case (snoc op ops)
  then show ?case by (cases op) (simp_all add: spec_publish_def)
qed simp

lemma GD_consecutive_ok:
  assumes "numbered a ms" "\<forall>m \<in> set ms. instrumentId m = k" "high d k = of_nat a" "a + length ms < two64 - 1"
  shows "list_all (\<lambda>r. sc_status r = SeqOk) (fst (GD_observe_all d ms))"
  using assms
proof (induction ms arbitrary: a d)
  case (Cons m ms)
  have m: "seqNo m = of_nat (Suc a)" "instrumentId m = k" using Cons.prems by (auto simp: numbered_Cons)
  have "unat (of_nat a :: u64) = a" using Cons.prems(4) by (intro unat_of_nat_u64) simp
  then have "of_nat a \<noteq> (- 1 :: u64)" using Cons.prems(4) unat_minus_one_u64 by fastforce
  then have h: "high d (instrumentId m) \<noteq> - 1" using Cons.prems(3) m(2) by simp
  have "high (snd (GD_observe m d)) k = of_nat (Suc a)"
    using GD_observe_high(3) [OF h, of k] m Cons.prems(3) suc_less_u64 [OF h, of "of_nat (Suc a)"]
    by (simp add: max_def add.commute)
  then have "list_all (\<lambda>r. sc_status r = SeqOk) (fst (GD_observe_all (snd (GD_observe m d)) ms))"
    using Cons.prems by (intro Cons.IH [of "Suc a"]) (auto simp: numbered_Cons)
  moreover have "sc_status (fst (GD_observe m d)) = SeqOk"
    using GD_observe_high(1) [OF h] m Cons.prems(3) by (simp add: seq_status_def add.commute)
  ultimately show ?case by (simp add: case_prod_beta Let_def)
qed simp

section \<open>Properties of the feed\<close>

text \<open>
  C20: Every subscriber gets its messages once, in order and in full. Whatever the order of
  subscriptions, publications, flushes and drains, and whichever messages make a callback throw,
  no operation faults, and for every subscriber
  what its callback has seen followed by what still waits in its queue is exactly the sequence of
  messages of its instrument published since it subscribed, numbered per instrument from 1.
\<close>

theorem feed_in_order:
  "\<exists>p subs w. feed_run raises feed_start ops = Some (p, subs, w) \<and> length subs = length (fs_joined (spec_feed ops)) \<and>
     (\<forall>i < length subs. w i @ pending (subs ! i) = owed (spec_feed ops) i) \<and>
     (\<forall>k. numbered 0 (of_instrument k (fs_published (spec_feed ops))))"
proof -
  from feed_rel_run [OF feed_rel_start, of raises ops] obtain p subs w where
    "feed_run raises feed_start ops = Some (p, subs, w)" "feed_rel raises (p, subs, w) (spec_feed ops)" by (metis prod_cases3)
  then show ?thesis by (intro exI [of _ p] exI [of _ subs] exI [of _ w]) (simp add: feed_rel_def spec_numbered)
qed

definition demo_trade :: "instrument_id \<Rightarrow> TradeMessage" where
  "demo_trade i = \<lparr>tm_instrument_id = i, tm_timestamp_ns = i64 0, tm_seq_no = 0, tm_price = i64 100, tm_size = 1,
     tm_aggressor_side = Bid\<rparr>"

definition demo_feed_ops :: "feed_op list" where
  "demo_feed_ops = [FeedSubscribe 7 2, FeedTrade (demo_trade 7), FeedTrade (demo_trade 8), FeedSubscribe 7 2,
     FeedTrade (demo_trade 7), FeedFlush, FeedDrain 0, FeedTrade (demo_trade 7)]"

lemma demo_feed_spec:
  "length (fs_joined (spec_feed demo_feed_ops)) = 2"
  "map seqNo (owed (spec_feed demo_feed_ops) 0) = [1, 2, 3]" "map seqNo (owed (spec_feed demo_feed_ops) 1) = [2, 3]"
  by code_simp+

definition demo_raises :: "nat \<Rightarrow> MarketDataMessage \<Rightarrow> exn option" where
  "demo_raises i m = (if seqNo m = 1 then Some (runtime_error ''callback'') else None)"

theorem feed_in_order_witness:
  "\<exists>p subs w. feed_run demo_raises feed_start demo_feed_ops = Some (p, subs, w) \<and> length subs = 2 \<and>
     map seqNo (w 0 @ pending (subs ! 0)) = [1, 2, 3] \<and> map seqNo (w 1 @ pending (subs ! 1)) = [2, 3]"
proof -
  from feed_in_order [of demo_raises demo_feed_ops] obtain p subs w where
    "feed_run demo_raises feed_start demo_feed_ops = Some (p, subs, w)" "length subs = 2"
    "\<forall>i < length subs. w i @ pending (subs ! i) = owed (spec_feed demo_feed_ops) i"
    using demo_feed_spec(1) by auto
  moreover from this(2,3) have "w 0 @ pending (subs ! 0) = owed (spec_feed demo_feed_ops) 0"
    "w 1 @ pending (subs ! 1) = owed (spec_feed demo_feed_ops) 1" by simp_all
  ultimately show ?thesis using demo_feed_spec(2,3) by metis
qed

text \<open>
  A flush followed by a drain delivers everything. After the publisher has flushed, draining a
  subscriber whose callback does not throw ends and leaves it having seen every message it is owed.
\<close>

theorem feed_flush_delivers:
  assumes "i < length (fs_joined (spec_feed ops))" and "\<And>m. raises i m = None"
  shows "\<exists>p subs w. feed_run raises feed_start (ops @ [FeedFlush, FeedDrain i]) = Some (p, subs, w) \<and>
     w i = owed (spec_feed ops) i \<and> pending (subs ! i) = []"
proof -
  from feed_rel_run [OF feed_rel_start, of raises ops] obtain p subs w where
    r: "feed_run raises feed_start ops = Some (p, subs, w)" "feed_rel raises (p, subs, w) (spec_feed ops)" by (metis prod_cases3)
  from feed_rel_flush [OF r(2)] obtain subs1 where f: "MP_flush p subs = Some subs1" "feed_rel raises (p, subs1, w) (spec_feed ops)"
    "\<forall>i < length subs. NBQ_published (ms_queue (subs1 ! i)) = pending (subs1 ! i)" by blast
  have i: "i < length subs" "i < length subs1" using assms(1) r(2) f(2) by (auto simp: feed_rel_def)
  from feed_rel_drain_quiet [OF f(2) i(2) assms(2)] f(3) i obtain n s' where
    d: "MS_drainAvailable (subs1 ! i) w = Some (Inr n, w(i := w i @ pending (subs1 ! i)), s')"
      "pending s' = []" "feed_rel raises (p, subs1[i := s'], w(i := w i @ pending (subs1 ! i))) (spec_feed ops)" by auto
  have run: "feed_run raises st (xs @ ys) = Option.bind (feed_run raises st xs) (\<lambda>st'. feed_run raises st' ys)" for st xs ys
    by (induction xs arbitrary: st) (auto split: Option.bind_split)
  have "w i @ pending (subs1 ! i) = owed (spec_feed ops) i" using f(2) i(2) by (simp add: feed_rel_def)
  then show ?thesis using r(1) f(1) d i by (simp add: run)
qed

theorem feed_flush_delivers_witness:
  "\<exists>p subs w. feed_run never_raises feed_start (demo_feed_ops @ [FeedFlush, FeedDrain 1]) = Some (p, subs, w) \<and> map seqNo (w 1) = [2, 3]"
proof -
  have "1 < length (fs_joined (spec_feed demo_feed_ops))" using demo_feed_spec(1) by simp
  from feed_flush_delivers [OF this, of never_raises] demo_feed_spec(3) show ?thesis by metis
qed

text \<open>
  The publisher never makes the gap detector raise a false alarm. Feed a gap detector with
  what a subscriber has seen: if the subscriber joined before the first message of its instrument,
  every answer is \<open>Ok\<close>; if it joined later, the first answer is \<open>Gap\<close> (it did miss messages) and
  all others are \<open>Ok\<close>. This needs that fewer than 2 to the 64 less one operations were made.
\<close>

theorem feed_no_false_gaps:
  assumes "feed_run raises feed_start ops = Some (p, subs, w)" "i < length subs" "length ops < two64 - 1"
    and "fs_joined (spec_feed ops) ! i = (k, n)"
  defines "missed \<equiv> of_instrument k (take n (fs_published (spec_feed ops)))"
  shows "map sc_status (fst (GD_observe_all [] (w i))) =
     (if w i = [] then [] else (if missed = [] then SeqOk else SeqGap) # replicate (length (w i) - 1) SeqOk)"
proof -
  let ?a = "length missed"
  from feed_rel_run [OF feed_rel_start, of raises ops] assms(1,2) have "w i @ pending (subs ! i) = owed (spec_feed ops) i"
    by (auto simp: feed_rel_def)
  then have num: "numbered ?a (w i)" "\<forall>m \<in> set (w i). instrumentId m = k" "length (w i) \<le> length (owed (spec_feed ops) i)"
    using owed_numbered [OF assms(4) spec_numbered] by (auto simp: missed_def numbered_append simp flip: \<open>w i @ _ = _\<close>)
  have "?a + length (owed (spec_feed ops) i) \<le> length (fs_published (spec_feed ops))"
    using assms(4) by (simp add: missed_def owed_def flip: length_append filter_append)
  then have bound: "?a + length (w i) < two64 - 1" using num(3) published_length [of ops] assms(3) by linarith
  have ok: "list_all (\<lambda>r. sc_status r = SeqOk) rs \<Longrightarrow> map sc_status rs = replicate (length rs) SeqOk" for rs
    by (induction rs) auto
  show ?thesis
  proof (cases "w i")
    case (Cons m ms)
    have m: "seqNo m = of_nat (Suc ?a)" "instrumentId m = k" "numbered (Suc ?a) ms"
      using num Cons by (auto simp: numbered_Cons)
    have z: "high [] (instrumentId m) \<noteq> - 1" by (simp add: high_def)
    have sa: "unat (of_nat (Suc ?a) :: u64) = Suc ?a" using bound Cons by (intro unat_of_nat_u64) simp
    have "high (snd (GD_observe m [])) k = of_nat (Suc ?a)"
      using GD_observe_high(3) [OF z, of k] m by (simp add: high_def max_def)
    then have "list_all (\<lambda>r. sc_status r = SeqOk) (fst (GD_observe_all (snd (GD_observe m [])) ms))"
      using m num Cons bound by (intro GD_consecutive_ok [of "Suc ?a" _ k]) auto
    from ok [OF this] have "map sc_status (fst (GD_observe_all (snd (GD_observe m [])) ms)) = replicate (length ms) SeqOk" by simp
    moreover have "sc_status (fst (GD_observe m [])) = (if missed = [] then SeqOk else SeqGap)"
      using GD_observe_high(1) [OF z] m(1) sa
      by (auto simp: seq_status_def high_def word_unat_eq_iff word_less_nat_alt simp del: of_nat_Suc)
    ultimately show ?thesis using Cons by (simp add: case_prod_beta Let_def)
  qed simp
qed

theorem feed_no_false_gaps_witness:
  "\<exists>p subs w. feed_run never_raises feed_start (demo_feed_ops @ [FeedFlush, FeedDrain 1]) = Some (p, subs, w) \<and> length (w 1) = 2 \<and>
     map sc_status (fst (GD_observe_all [] (w 1))) = [SeqGap, SeqOk]"
proof -
  let ?ops = "demo_feed_ops @ [FeedFlush, FeedDrain 1]"
  have "map_option (\<lambda>(p, subs, w). (length subs, length (w 1))) (feed_run never_raises feed_start ?ops) = Some (2, 2)" by code_simp
  then obtain p subs w where r: "feed_run never_raises feed_start ?ops = Some (p, subs, w)" "1 < length subs" "length (w 1) = 2" by auto
  have "fs_joined (spec_feed ?ops) ! 1 = (7, 2)" "of_instrument 7 (take 2 (fs_published (spec_feed ?ops))) \<noteq> []"
    "length ?ops = 10" by code_simp+
  with feed_no_false_gaps [OF r(1,2)] r show ?thesis
    by (intro exI [of _ p] exI [of _ subs] exI [of _ w]) (auto simp: two64_def)
qed

end
