(* ===== verification/IntegratedBacktest.thy ===== *)
theory IntegratedBacktest
  imports HistoricalLOB MarketDataFeed
begin

text \<open>
  \<^verbatim>\<open>src/backtest/MarketDataEventAdapter.{hpp,cpp}\<close> turns accepted historical events into changes of
  the historical store and market data messages; \<^verbatim>\<open>src/backtest/IntegratedBacktestEngine.{hpp,cpp}\<close>
  drives it: filter, event limit, publication, flush and synchronous delivery to the callbacks,
  and statistics.
\<close>

section \<open>MarketDataEventAdapter\<close>

record MarketDataEventAdapterConfig =
  ac_instruments :: "instrument_id list"
  ac_publish_book_updates :: bool
  ac_publish_trades :: bool
  ac_snapshot_depth :: u64
  ac_snapshot_interval_events :: u64

record MarketDataEventAdapterResult =
  ar_accepted :: bool
  ar_applied_to_lob :: bool
  ar_published_book_update :: bool
  ar_published_trade :: bool
  ar_published_snapshot :: bool
  ar_instrument_id :: instrument_id
  ar_accepted_event_count :: u64
  ar_messages :: "MarketDataMessage list"

record MarketDataEventAdapter =
  ad_config :: MarketDataEventAdapterConfig
  ad_instrument_filter :: "instrument_id list"
  ad_store :: HistoricalLobStore
  ad_accepted_event_count :: u64

definition isLobMutatingAction :: "Action \<Rightarrow> bool" where
  "isLobMutatingAction a \<longleftrightarrow> a = Add \<or> a = Modify \<or> a = Cancel \<or> a = Clear"

definition isTradeLikeAction :: "Action \<Rightarrow> bool" where
  "isTradeLikeAction a \<longleftrightarrow> a = Trade \<or> a = Fill"

definition toTimestampNs :: "raw_timestamp \<Rightarrow> timestamp_ns" where
  "toTimestampNs t =
     (if t = raw_undefined_timestamp then undefined_timestamp
      else if t > of_int (2 ^ 63 - 1) then undefined_timestamp
      else i64 (uint t))"

definition toPriceLevels :: "BookLevel list \<Rightarrow> PriceLevel list" where
  "toPriceLevels levels =
     map (\<lambda>(index, l). \<lparr>pl_level_index = of_nat index, pl_price = bl_price l, pl_size = bl_size l\<rparr>)
       (List.enumerate 0 levels)"

definition AD_new :: "MarketDataEventAdapterConfig \<Rightarrow> MarketDataEventAdapter" where
  "AD_new config =
     \<lparr>ad_config = config,
      ad_instrument_filter =
        foldl (\<lambda>flt i. if i \<noteq> 0 then List.insert i flt else flt) [] (ac_instruments config),
      ad_store = [], ad_accepted_event_count = 0\<rparr>"

definition AD_accepts :: "MarketDataEventAdapter \<Rightarrow> MarketDataEvent \<Rightarrow> bool" where
  "AD_accepts a e =
     (if ad_instrument_filter a = [] then True
      else if ev_action e = Clear \<and> ev_instrument_id e = 0 then True
      else ev_instrument_id e \<in> set (ad_instrument_filter a))"

definition AD_shouldPublishSnapshot :: "MarketDataEventAdapter \<Rightarrow> MarketDataEvent \<Rightarrow> bool" where
  "AD_shouldPublishSnapshot a e \<longleftrightarrow>
     ac_snapshot_interval_events (ad_config a) > 0 \<and> ev_instrument_id e \<noteq> 0 \<and> ev_action e \<noteq> ActionNone \<and>
     ad_accepted_event_count a mod ac_snapshot_interval_events (ad_config a) = 0"

definition AD_makeSnapshot :: "MarketDataEventAdapter \<Rightarrow> MarketDataEvent \<Rightarrow> BookSnapshot" where
  "AD_makeSnapshot a e =
     (let snapshot = HLS_snapshot (ad_store a) (ev_instrument_id e) (ac_snapshot_depth (ad_config a))
      in \<lparr>bs_instrument_id = ev_instrument_id e, bs_timestamp_ns = toTimestampNs (ev_timestamp e), bs_seq_no = 0,
          bs_bids = toPriceLevels (ls_bids snapshot), bs_asks = toPriceLevels (ls_asks snapshot)\<rparr>)"

definition AD_makeBookUpdate :: "MarketDataEvent \<Rightarrow> BookUpdate" where
  "AD_makeBookUpdate e =
     \<lparr>bu_instrument_id = ev_instrument_id e, bu_timestamp_ns = toTimestampNs (ev_timestamp e), bu_seq_no = 0,
      bu_side = ev_side e, bu_price = ev_price e, bu_size = ev_size e\<rparr>"

definition AD_makeTrade :: "MarketDataEvent \<Rightarrow> TradeMessage" where
  "AD_makeTrade e =
     \<lparr>tm_instrument_id = ev_instrument_id e, tm_timestamp_ns = toTimestampNs (ev_timestamp e), tm_seq_no = 0,
      tm_price = ev_price e, tm_size = ev_size e, tm_aggressor_side = ev_side e\<rparr>"

definition AD_process :: "MarketDataEvent \<Rightarrow> MarketDataEventAdapter \<Rightarrow> MarketDataEventAdapterResult \<times> MarketDataEventAdapter" where
  "AD_process e a =
     (let result = \<lparr>ar_accepted = False, ar_applied_to_lob = False, ar_published_book_update = False,
            ar_published_trade = False, ar_published_snapshot = False, ar_instrument_id = ev_instrument_id e,
            ar_accepted_event_count = ad_accepted_event_count a, ar_messages = []\<rparr>
      in if \<not> AD_accepts a e then (result, a)
         else
           let a1 = a\<lparr>ad_accepted_event_count := ad_accepted_event_count a + 1\<rparr>;
               r1 = result\<lparr>ar_accepted := True, ar_accepted_event_count := ad_accepted_event_count a1\<rparr>;
               (r2, a2) =
                 (if isLobMutatingAction (ev_action e) then
                    let a' = a1\<lparr>ad_store := HLS_apply (ad_store a1) e\<rparr>;
                        r' = r1\<lparr>ar_applied_to_lob := True\<rparr>
                    in (if ac_publish_book_updates (ad_config a1) \<and> ev_instrument_id e \<noteq> 0
                        then r'\<lparr>ar_messages := ar_messages r' @ [UpdateMsg (AD_makeBookUpdate e)],
                                ar_published_book_update := True\<rparr>
                        else r', a')
                  else if isTradeLikeAction (ev_action e) \<and> ac_publish_trades (ad_config a1) \<and> ev_instrument_id e \<noteq> 0
                  then (r1\<lparr>ar_messages := ar_messages r1 @ [TradeMsg (AD_makeTrade e)], ar_published_trade := True\<rparr>, a1)
                  else (r1, a1))
           in (if AD_shouldPublishSnapshot a2 e
               then r2\<lparr>ar_messages := ar_messages r2 @ [SnapshotMsg (AD_makeSnapshot a2 e)],
                       ar_published_snapshot := True\<rparr>
               else r2, a2))"

section \<open>IntegratedBacktestEngine\<close>

record IntegratedBacktestConfig =
  ic_instruments :: "instrument_id list"
  ic_publish_book_updates :: bool
  ic_publish_trades :: bool
  ic_snapshot_depth :: u64
  ic_snapshot_interval_events :: u64
  ic_max_events :: u64
  ic_subscriber_queue_batch_size :: u64

record IntegratedBacktestEventResult =
  ie_processed :: bool
  ie_skipped_by_filter :: bool
  ie_skipped_by_max_events :: bool
  ie_chronological_violation :: bool
  ie_input_event_count :: u64
  ie_accepted_event_count :: u64
  ie_published_message_count :: u64
  ie_delivered_message_count :: u64
  ie_published_messages :: "MarketDataMessage list"

record IntegratedBacktestRunResult =
  ir_input_event_count :: u64
  ir_accepted_event_count :: u64
  ir_skipped_by_filter_count :: u64
  ir_skipped_by_max_events_count :: u64
  ir_chronological_violations :: u64
  ir_published_message_count :: u64
  ir_delivered_message_count :: u64

definition zero_stats :: IntegratedBacktestRunResult where
  "zero_stats = \<lparr>ir_input_event_count = 0, ir_accepted_event_count = 0, ir_skipped_by_filter_count = 0,
     ir_skipped_by_max_events_count = 0, ir_chronological_violations = 0, ir_published_message_count = 0,
     ir_delivered_message_count = 0\<rparr>"

record IntegratedBacktestEngine =
  en_config :: IntegratedBacktestConfig
  en_adapter :: MarketDataEventAdapter
  en_publisher :: MarketDataPublisher
  en_subscriptions :: "MarketDataSubscription list"
  en_stats :: IntegratedBacktestRunResult
  en_last_input_event :: "MarketDataEvent option"

definition IB_adapterConfig :: "IntegratedBacktestConfig \<Rightarrow> MarketDataEventAdapterConfig" where
  "IB_adapterConfig c =
     \<lparr>ac_instruments = ic_instruments c, ac_publish_book_updates = ic_publish_book_updates c,
      ac_publish_trades = ic_publish_trades c, ac_snapshot_depth = ic_snapshot_depth c,
      ac_snapshot_interval_events = ic_snapshot_interval_events c\<rparr>"

definition IB_new :: "IntegratedBacktestConfig \<Rightarrow> IntegratedBacktestEngine" where
  "IB_new c = \<lparr>en_config = c, en_adapter = AD_new (IB_adapterConfig c), en_publisher = MP_new, en_subscriptions = [],
     en_stats = zero_stats, en_last_input_event = None\<rparr>"

definition IB_subscribe ::
  "instrument_id \<Rightarrow> 'w MarketDataCallback \<Rightarrow> IntegratedBacktestEngine \<Rightarrow> 'w Subscribers \<Rightarrow>
   (exn + MarketDataSubscription) \<times> IntegratedBacktestEngine \<times> 'w Subscribers" where
  "IB_subscribe i callback en subs =
     (case MP_subscribe i callback (ic_subscriber_queue_batch_size (en_config en)) (en_publisher en) subs of
        (Inl e, p, subs') \<Rightarrow> (Inl e, en\<lparr>en_publisher := p\<rparr>, subs')
      | (Inr sn, p, subs') \<Rightarrow>
          (Inr sn, en\<lparr>en_publisher := p, en_subscriptions := en_subscriptions en @ [sn]\<rparr>, subs'))"

definition IB_maxEventsReached :: "IntegratedBacktestEngine \<Rightarrow> bool" where
  "IB_maxEventsReached en \<longleftrightarrow>
     ic_max_events (en_config en) > 0 \<and> ir_accepted_event_count (en_stats en) \<ge> ic_max_events (en_config en)"

definition IB_publishMessage ::
  "MarketDataMessage \<Rightarrow> MarketDataPublisher \<Rightarrow> 'w Subscribers \<Rightarrow>
   (MarketDataMessage \<times> MarketDataPublisher \<times> 'w Subscribers) option" where
  "IB_publishMessage message p subs =
     map_option (\<lambda>(n, p', subs'). (setSeqNo message n, p', subs'))
       (case message of
          UpdateMsg u \<Rightarrow> MP_publishUpdate u p subs
        | SnapshotMsg s \<Rightarrow> MP_publishSnapshot s p subs
        | TradeMsg t \<Rightarrow> MP_publishTrade t p subs)"

fun IB_publishMessages ::
  "MarketDataMessage list \<Rightarrow> MarketDataMessage list \<Rightarrow> MarketDataPublisher \<Rightarrow> 'w Subscribers \<Rightarrow>
   (MarketDataMessage list \<times> MarketDataPublisher \<times> 'w Subscribers) option" where
  "IB_publishMessages acc [] p subs = Some (acc, p, subs)"
| "IB_publishMessages acc (m # ms) p subs =
     Option.bind (IB_publishMessage m p subs) (\<lambda>(m', p', subs'). IB_publishMessages (acc @ [m']) ms p' subs')"

text \<open>An exception of a callback passes through the loop and through the functions that call it.\<close>

fun IB_drainSubscribers ::
  "MarketDataSubscription list \<Rightarrow> u64 \<Rightarrow> 'w Subscribers \<Rightarrow> 'w \<Rightarrow> ((exn + u64) \<times> 'w Subscribers \<times> 'w) option" where
  "IB_drainSubscribers [] delivered subs w = Some (Inr delivered, subs, w)"
| "IB_drainSubscribers (sn # sns) delivered subs w =
     (if sn_subscriber sn < length subs
      then Option.bind (MS_drainAvailable (subs ! sn_subscriber sn) w) (\<lambda>(r, w', s).
        case r of
          Inl x \<Rightarrow> Some (Inl x, subs[sn_subscriber sn := s], w')
        | Inr n \<Rightarrow> IB_drainSubscribers sns (delivered + n) (subs[sn_subscriber sn := s]) w')
      else None)"

definition IB_processEvent ::
  "MarketDataEvent \<Rightarrow> IntegratedBacktestEngine \<Rightarrow> 'w Subscribers \<Rightarrow> 'w \<Rightarrow>
   ((exn + IntegratedBacktestEventResult) \<times> IntegratedBacktestEngine \<times> 'w Subscribers \<times> 'w) option" where
  "IB_processEvent e en0 subs w =
     (let st = en_stats en0;
          st1 = st\<lparr>ir_input_event_count := ir_input_event_count st + 1\<rparr>;
          violation = (case en_last_input_event en0 of None \<Rightarrow> False | Some l \<Rightarrow> eventComesBefore e l);
          result = \<lparr>ie_processed = False, ie_skipped_by_filter = False, ie_skipped_by_max_events = False,
            ie_chronological_violation = violation, ie_input_event_count = ir_input_event_count st1,
            ie_accepted_event_count = ir_accepted_event_count st1, ie_published_message_count = 0,
            ie_delivered_message_count = 0, ie_published_messages = []\<rparr>;
          st2 = (if violation then st1\<lparr>ir_chronological_violations := ir_chronological_violations st1 + 1\<rparr> else st1);
          en = en0\<lparr>en_stats := st2, en_last_input_event := Some e\<rparr>
      in if IB_maxEventsReached en
         then Some (Inr (result\<lparr>ie_skipped_by_max_events := True\<rparr>),
                    en\<lparr>en_stats := st2\<lparr>ir_skipped_by_max_events_count := ir_skipped_by_max_events_count st2 + 1\<rparr>\<rparr>, subs, w)
         else
           let (ar, adapter) = AD_process e (en_adapter en); en1 = en\<lparr>en_adapter := adapter\<rparr>
           in if \<not> ar_accepted ar
              then Some (Inr (result\<lparr>ie_skipped_by_filter := True\<rparr>),
                         en1\<lparr>en_stats := st2\<lparr>ir_skipped_by_filter_count := ir_skipped_by_filter_count st2 + 1\<rparr>\<rparr>, subs, w)
              else
                let st3 = st2\<lparr>ir_accepted_event_count := ir_accepted_event_count st2 + 1\<rparr>
                in Option.bind (IB_publishMessages [] (ar_messages ar) (en_publisher en1) subs) (\<lambda>(published, p, subs1).
                   let n = of_nat (length published);
                       st4 = st3\<lparr>ir_published_message_count := ir_published_message_count st3 + n\<rparr>
                   in Option.bind (MP_flush p subs1) (\<lambda>subs2.
                      map_option (\<lambda>(drained, subs3, w').
                        case drained of
                          Inl x \<Rightarrow> (Inl x, en1\<lparr>en_publisher := p, en_stats := st4\<rparr>, subs3, w')
                        | Inr delivered \<Rightarrow>
                            (Inr (result\<lparr>ie_processed := True, ie_accepted_event_count := ir_accepted_event_count st3,
                                    ie_published_messages := published, ie_published_message_count := n,
                                    ie_delivered_message_count := delivered\<rparr>),
                             en1\<lparr>en_publisher := p, en_stats := st4\<lparr>ir_delivered_message_count :=
                               ir_delivered_message_count st4 + delivered\<rparr>\<rparr>, subs3, w'))
                        (IB_drainSubscribers (en_subscriptions en1) 0 subs2 w))))"

definition IB_finish ::
  "IntegratedBacktestEngine \<Rightarrow> 'w Subscribers \<Rightarrow> 'w \<Rightarrow>
   ((exn + u64) \<times> IntegratedBacktestEngine \<times> 'w Subscribers \<times> 'w) option" where
  "IB_finish en subs w =
     Option.bind (MP_flush (en_publisher en) subs) (\<lambda>subs1.
     map_option (\<lambda>(drained, subs2, w').
       case drained of
         Inl x \<Rightarrow> (Inl x, en, subs2, w')
       | Inr delivered \<Rightarrow> (Inr delivered, en\<lparr>en_stats := (en_stats en)\<lparr>ir_delivered_message_count :=
           ir_delivered_message_count (en_stats en) + delivered\<rparr>\<rparr>, subs2, w'))
       (IB_drainSubscribers (en_subscriptions en) 0 subs1 w))"

fun IB_processEvents ::
  "MarketDataEvent list \<Rightarrow> IntegratedBacktestEngine \<Rightarrow> 'w Subscribers \<Rightarrow> 'w \<Rightarrow>
   ((exn + unit) \<times> IntegratedBacktestEngine \<times> 'w Subscribers \<times> 'w) option" where
  "IB_processEvents [] en subs w = Some (Inr (), en, subs, w)"
| "IB_processEvents (e # es) en subs w =
     Option.bind (IB_processEvent e en subs w) (\<lambda>(r, en', subs', w').
       case r of
         Inl x \<Rightarrow> Some (Inl x, en', subs', w')
       | Inr _ \<Rightarrow> IB_processEvents es en' subs' w')"

definition IB_run ::
  "MarketDataEvent list \<Rightarrow> IntegratedBacktestEngine \<Rightarrow> 'w Subscribers \<Rightarrow> 'w \<Rightarrow>
   ((exn + IntegratedBacktestRunResult) \<times> IntegratedBacktestEngine \<times> 'w Subscribers \<times> 'w) option" where
  "IB_run es en subs w =
     Option.bind (IB_processEvents es en subs w) (\<lambda>(r, en1, subs1, w1).
       case r of
         Inl x \<Rightarrow> Some (Inl x, en1, subs1, w1)
       | Inr _ \<Rightarrow>
           map_option (\<lambda>(r2, en2, subs2, w2).
             case r2 of
               Inl x \<Rightarrow> (Inl x, en2, subs2, w2)
             | Inr _ \<Rightarrow> (Inr (en_stats en2), en2, subs2, w2))
             (IB_finish en1 subs1 w1))"

section \<open>What an accepted event publishes\<close>

text \<open>
  The instrument filter: a list without instruments other than 0 accepts everything, and a global
  clear is always accepted.
\<close>

definition passes :: "instrument_id list \<Rightarrow> MarketDataEvent \<Rightarrow> bool" where
  "passes instruments e \<longleftrightarrow>
     set instruments \<subseteq> {0} \<or> ev_action e = Clear \<and> ev_instrument_id e = 0 \<or>
     ev_instrument_id e \<noteq> 0 \<and> ev_instrument_id e \<in> set instruments"

text \<open>The messages of one accepted event, from the store after the event and the number of accepted events.\<close>

definition event_messages ::
  "MarketDataEventAdapterConfig \<Rightarrow> HistoricalLobStore \<Rightarrow> u64 \<Rightarrow> MarketDataEvent \<Rightarrow> MarketDataMessage list" where
  "event_messages c store n e =
     (if ev_instrument_id e = 0 then [] else
        (if isLobMutatingAction (ev_action e) \<and> ac_publish_book_updates c then [UpdateMsg (AD_makeBookUpdate e)] else []) @
        (if isTradeLikeAction (ev_action e) \<and> ac_publish_trades c then [TradeMsg (AD_makeTrade e)] else []) @
        (if ac_snapshot_interval_events c \<noteq> 0 \<and> ev_action e \<noteq> ActionNone \<and> n mod ac_snapshot_interval_events c = 0
         then let snapshot = HLS_snapshot store (ev_instrument_id e) (ac_snapshot_depth c)
              in [SnapshotMsg \<lparr>bs_instrument_id = ev_instrument_id e, bs_timestamp_ns = toTimestampNs (ev_timestamp e),
                   bs_seq_no = 0, bs_bids = toPriceLevels (ls_bids snapshot), bs_asks = toPriceLevels (ls_asks snapshot)\<rparr>]
         else []))"

definition store_after :: "HistoricalLobStore \<Rightarrow> MarketDataEvent \<Rightarrow> HistoricalLobStore" where
  "store_after store e = (if isLobMutatingAction (ev_action e) then HLS_apply store e else store)"

definition adapter_ok :: "MarketDataEventAdapterConfig \<Rightarrow> MarketDataEventAdapter \<Rightarrow> bool" where
  "adapter_ok c a \<longleftrightarrow> ad_config a = c \<and> set (ad_instrument_filter a) = set (ac_instruments c) - {0}"

lemma AD_new_ok: "adapter_ok c (AD_new c)"
proof -
  have "set (foldl (\<lambda>flt i. if i \<noteq> 0 then List.insert i flt else flt) acc xs) = set acc \<union> (set xs - {0})" for acc xs :: "instrument_id list"
    by (induction xs arbitrary: acc) auto
  then show ?thesis by (simp add: adapter_ok_def AD_new_def)
qed

lemma AD_accepts_passes: "adapter_ok c a \<Longrightarrow> AD_accepts a e = passes (ac_instruments c) e"
proof -
  assume a: "adapter_ok c a"
  then have "ad_instrument_filter a = [] \<longleftrightarrow> set (ac_instruments c) \<subseteq> {0}"
    by (simp add: adapter_ok_def flip: set_empty)
  with a show ?thesis by (auto simp: AD_accepts_def passes_def adapter_ok_def)
qed

lemma AD_process_rejected: "\<not> AD_accepts a e \<Longrightarrow> snd (AD_process e a) = a \<and> \<not> ar_accepted (fst (AD_process e a))"
  by (simp add: AD_process_def)

lemma AD_process_state:
  "AD_accepts a e \<Longrightarrow> snd (AD_process e a) =
     a\<lparr>ad_store := store_after (ad_store a) e, ad_accepted_event_count := ad_accepted_event_count a + 1\<rparr>"
  by (simp add: AD_process_def case_prod_beta Let_def store_after_def)

lemma AD_process_accepted: "AD_accepts a e \<Longrightarrow> ar_accepted (fst (AD_process e a))"
  by (simp add: AD_process_def case_prod_beta Let_def)

lemma AD_process_messages:
  assumes "AD_accepts a e"
  shows "ar_messages (fst (AD_process e a)) =
     event_messages (ad_config a) (store_after (ad_store a) e) (ad_accepted_event_count a + 1) e"
proof -
  have act: "isTradeLikeAction (ev_action e) \<Longrightarrow> \<not> isLobMutatingAction (ev_action e)"
    by (auto simp: isTradeLikeAction_def isLobMutatingAction_def)
  with assms show ?thesis
    by (cases "ev_instrument_id e = 0"; cases "isLobMutatingAction (ev_action e)"; cases "isTradeLikeAction (ev_action e)")
      (simp_all add: AD_process_def event_messages_def store_after_def AD_shouldPublishSnapshot_def AD_makeSnapshot_def
        Let_def word_gt_0 split del: if_split cong: if_cong, simp_all)
qed

text \<open>Replaying accepted events: all their messages in order, and the store they build.\<close>

fun replay :: "MarketDataEventAdapterConfig \<Rightarrow> HistoricalLobStore \<Rightarrow> u64 \<Rightarrow> MarketDataEvent list \<Rightarrow>
    MarketDataMessage list \<times> HistoricalLobStore" where
  "replay c store n [] = ([], store)"
| "replay c store n (e # es) =
     (let store' = store_after store e; (ms, store2) = replay c store' (n + 1) es
      in (event_messages c store' (n + 1) e @ ms, store2))"

lemma replay_snoc:
  "replay c store n (es @ [e]) =
     (let (ms, s) = replay c store n es
      in (ms @ event_messages c (store_after s e) (n + of_nat (length es) + 1) e, store_after s e))"
  by (induction es arbitrary: store n) (auto simp: Let_def case_prod_beta algebra_simps)

lemma replay_store:
  "snd (replay c store n es) = foldl HLS_apply store (filter (\<lambda>e. isLobMutatingAction (ev_action e)) es)"
  by (induction es arbitrary: store n) (auto simp: Let_def case_prod_beta store_after_def)

text \<open>The events that are accepted: the first \<open>max_events\<close> that pass the filter, all of them if it is 0.\<close>

definition accepted :: "IntegratedBacktestConfig \<Rightarrow> MarketDataEvent list \<Rightarrow> MarketDataEvent list" where
  "accepted c es =
     (let passing = filter (passes (ic_instruments c)) es
      in if ic_max_events c = 0 then passing else take (unat (ic_max_events c)) passing)"

lemma accepted_length: "length (accepted c es) \<le> length es"
  by (auto simp: accepted_def Let_def intro: order_trans [OF _ length_filter_le] min.coboundedI1)

lemma accepted_snoc:
  "accepted c (es @ [e]) =
     (if ic_max_events c \<noteq> 0 \<and> unat (ic_max_events c) \<le> length (accepted c es) \<or> \<not> passes (ic_instruments c) e
      then accepted c es else accepted c es @ [e])"
  by (auto simp: accepted_def Let_def)

definition number_messages :: "MarketDataMessage list \<Rightarrow> feed_spec \<Rightarrow> feed_spec" where
  "number_messages ms f = foldl (\<lambda>f m. spec_publish m f) f ms"

lemma number_messages_simps [simp]:
  "number_messages [] f = f" "number_messages (m # ms) f = number_messages ms (spec_publish m f)"
  "number_messages (ms @ ns) f = number_messages ns (number_messages ms f)"
  by (simp_all add: number_messages_def)

lemma number_messages_joined [simp]: "fs_joined (number_messages ms f) = fs_joined f"
  by (induction ms arbitrary: f) (simp_all add: spec_publish_def)

lemma number_messages_length [simp]: "length (fs_published (number_messages ms f)) = length (fs_published f) + length ms"
  by (induction ms arbitrary: f) (simp_all add: spec_publish_def)

lemma number_messages_extends: "\<exists>zs. fs_published (number_messages ms f) = fs_published f @ zs"
proof (induction ms arbitrary: f)
  case (Cons m ms)
  from Cons [of "spec_publish m f"] obtain zs where
    "fs_published (number_messages ms (spec_publish m f)) = fs_published (spec_publish m f) @ zs" by blast
  then show ?case by (simp add: spec_publish_def)
qed simp

lemma number_messages_irrelevant:
  "fs_published f = fs_published g \<Longrightarrow> fs_published (number_messages ms f) = fs_published (number_messages ms g)"
  by (induction ms arbitrary: f g) (simp_all add: spec_publish_def)

section \<open>Publishing and delivering\<close>

lemma IB_publishMessage_numbered:
  "IB_publishMessage m p subs = map_option (\<lambda>(n, p', subs'). (setSeqNo m n, p', subs')) (publish_numbered m p subs)"
  by (cases m) (simp_all add: IB_publishMessage_def publish_as_numbered)

lemma IB_publishMessages_correct:
  assumes "feed_rel raises (p, subs, w) f"
  shows "\<exists>p' subs'. IB_publishMessages acc ms p subs =
       Some (acc @ drop (length (fs_published f)) (fs_published (number_messages ms f)), p', subs') \<and>
     feed_rel raises (p', subs', w) (number_messages ms f) \<and> length subs' = length subs"
  using assms
proof (induction ms arbitrary: acc p subs f)
  case Nil
  then show ?case by simp
next
  case (Cons m ms)
  from feed_rel_publish [OF Cons.prems, of m] obtain n p1 subs1 where
    s: "publish_numbered m p subs = Some (n, p1, subs1)" "feed_rel raises (p1, subs1, w) (spec_publish m f)"
      "n = of_nat (Suc (length (of_instrument (instrumentId m) (fs_published f))))" by blast
  from Cons.IH [OF s(2), of "acc @ [setSeqNo m n]"] obtain p' subs' where
    r: "IB_publishMessages (acc @ [setSeqNo m n]) ms p1 subs1 = Some ((acc @ [setSeqNo m n]) @
          drop (length (fs_published (spec_publish m f))) (fs_published (number_messages ms (spec_publish m f))), p', subs')"
      "feed_rel raises (p', subs', w) (number_messages ms (spec_publish m f))" "length subs' = length subs1" by blast
  from number_messages_extends [of ms "spec_publish m f"] obtain zs where
    "fs_published (number_messages ms (spec_publish m f)) = fs_published f @ setSeqNo m n # zs"
    unfolding s(3) by (auto simp: spec_publish_def)
  then have "drop (length (fs_published f)) (fs_published (number_messages ms (spec_publish m f))) =
      setSeqNo m n # drop (length (fs_published (spec_publish m f))) (fs_published (number_messages ms (spec_publish m f)))"
    by (simp add: spec_publish_def)
  moreover have "length subs1 = length subs" using s(2) Cons.prems by (simp add: feed_rel_def spec_publish_def)
  ultimately show ?case using r s(1) by (simp add: IB_publishMessage_numbered)
qed

definition total_seen :: "nat \<Rightarrow> seen \<Rightarrow> nat" where
  "total_seen k w = (\<Sum>i<k. length (w i))"

lemma total_seen_update:
  assumes "i < k" shows "total_seen k (w(i := w i @ ms)) = total_seen k w + length ms"
proof -
  have "(\<Sum>j<k. length ((w(i := w i @ ms)) j)) = (\<Sum>j<k. length (w j) + (if j = i then length ms else 0))"
    by (rule sum.cong) auto
  then show ?thesis using assms by (simp add: total_seen_def sum.distrib)
qed

text \<open>
  An exception of a run comes from one callback, thrown on the last message that it has seen; no
  other call threw.
\<close>

definition silent :: "(nat \<Rightarrow> MarketDataMessage \<Rightarrow> exn option) \<Rightarrow> nat \<Rightarrow> seen \<Rightarrow> bool" where
  "silent raises k w \<longleftrightarrow> (\<forall>i < k. \<forall>m \<in> set (w i). raises i m = None)"

definition raised :: "(nat \<Rightarrow> MarketDataMessage \<Rightarrow> exn option) \<Rightarrow> nat \<Rightarrow> seen \<Rightarrow> exn + 'a \<Rightarrow> bool" where
  "raised raises k w r \<longleftrightarrow>
     (case r of
        Inr _ \<Rightarrow> silent raises k w
      | Inl x \<Rightarrow> \<exists>i < k. w i \<noteq> [] \<and> raises i (last (w i)) = Some x \<and> silent raises k (w(i := butlast (w i))))"

lemma raised_simps [simp]:
  "raised raises k w (Inr a) \<longleftrightarrow> silent raises k w"
  "raised raises k w (Inl x) \<longleftrightarrow>
     (\<exists>i < k. w i \<noteq> [] \<and> raises i (last (w i)) = Some x \<and> silent raises k (w(i := butlast (w i))))"
  by (simp_all add: raised_def)

lemma silent_calls:
  assumes "silent raises k w" and "i < k" and "calls_end raises i x ms"
  shows "raised raises k (w(i := w i @ ms)) (counted x n)"
proof (cases x)
  case None
  with assms show ?thesis by (auto simp: silent_def calls_end_def)
next
  case (Some z)
  with assms show ?thesis by (intro exI [of _ i] | simp add: silent_def calls_end_def butlast_append ball_Un)+
qed

text \<open>What subscribers see after one more of them has been drained.\<close>

lemma IB_drainSubscribers_correct:
  assumes "feed_rel raises (p, subs, w) f" and "silent raises (length subs) w"
    and "\<forall>i < length subs. NBQ_published (ms_queue (subs ! i)) = pending (subs ! i)"
    and "\<forall>sn \<in> set sns. sn_subscriber sn < length subs"
  shows "\<exists>r n subs' w'. IB_drainSubscribers sns d subs w = Some (r, subs', w') \<and>
     feed_rel raises (p, subs', w') f \<and> length subs' = length subs \<and> raised raises (length subs) w' r \<and>
     total_seen (length subs) w' = total_seen (length subs) w + n \<and>
     (isl r \<or> r = Inr (d + of_nat n) \<and>
       (\<forall>i < length subs. i \<in> sn_subscriber ` set sns \<or> pending (subs ! i) = [] \<longrightarrow> pending (subs' ! i) = []))"
  using assms
proof (induction sns arbitrary: d subs w)
  case Nil
  then show ?case by (intro exI [of _ "Inr d"] exI [of _ 0]) auto
next
  case (Cons sn sns)
  let ?i = "sn_subscriber sn"
  have i: "?i < length subs" using Cons.prems(4) by simp
  obtain x s' ms rest where s: "MS_drainAvailable (subs ! ?i) w = Some (counted x (of_nat (length ms)), w(?i := w ?i @ ms), s')"
    "NBQ_published (ms_queue (subs ! ?i)) = ms @ rest" "NBQ_published (ms_queue s') = rest" "pending (subs ! ?i) = ms @ pending s'"
    "feed_rel raises (p, subs[?i := s'], w(?i := w ?i @ ms)) f" "x = None \<longrightarrow> rest = []" "calls_end raises ?i x ms"
    by (rule feed_rel_drain [OF Cons.prems(1) i])
  let ?w = "w(?i := w ?i @ ms)"
  have seen: "total_seen (length subs) ?w = total_seen (length subs) w + length ms" by (rule total_seen_update [OF i])
  have r: "raised raises (length subs) ?w (counted x (of_nat (length ms) :: u64))"
    by (rule silent_calls [OF Cons.prems(2) i s(7)])
  have rest: "rest = pending s'" using s(2,4) Cons.prems(3) i by simp
  show ?case
  proof (cases x)
    case None
    have "silent raises (length (subs[?i := s'])) ?w" using r None by simp
    moreover have "\<forall>i < length (subs[?i := s']). NBQ_published (ms_queue (subs[?i := s'] ! i)) = pending (subs[?i := s'] ! i)"
      "\<forall>sn \<in> set sns. sn_subscriber sn < length (subs[?i := s'])"
      using Cons.prems(3,4) s(3) rest by (auto simp: nth_list_update)
    ultimately obtain r' n subs' w' where
      r': "IB_drainSubscribers sns (d + of_nat (length ms)) (subs[?i := s']) ?w = Some (r', subs', w')"
        "feed_rel raises (p, subs', w') f" "length subs' = length subs" "raised raises (length subs) w' r'"
        "total_seen (length subs) w' = total_seen (length subs) ?w + n"
        "isl r' \<or> r' = Inr (d + of_nat (length ms) + of_nat n) \<and>
           (\<forall>i < length subs. i \<in> sn_subscriber ` set sns \<or> pending (subs[?i := s'] ! i) = [] \<longrightarrow> pending (subs' ! i) = [])"
      using Cons.IH [OF s(5), of "d + of_nat (length ms)"] unfolding length_list_update by blast
    have "pending s' = []" using None s(6) rest by simp
    then have "pending (subs[?i := s'] ! j) = []" if "j = ?i \<or> pending (subs ! j) = []" "j < length subs" for j
      using that i by (cases "j = ?i") simp_all
    with r' seen s(1) None i show ?thesis
      by (intro exI [of _ r'] exI [of _ "length ms + n"] exI [of _ subs'] exI [of _ w']) (auto simp: add.assoc)
  next
    case (Some z)
    then have "IB_drainSubscribers (sn # sns) d subs w = Some (Inl z, subs[?i := s'], ?w)"
      "raised raises (length subs) ?w (Inl z :: exn + u64)" using s(1) r i by simp_all
    moreover have "length (subs[?i := s']) = length subs" by simp
    ultimately show ?thesis using s(5) seen by (metis isl_def)
  qed
qed

text \<open>Flushing and draining every subscriber: afterwards everyone has seen all it is owed.\<close>

definition all_seen :: "seen Subscribers \<Rightarrow> bool" where
  "all_seen subs \<longleftrightarrow> (\<forall>s \<in> set subs. pending s = [])"

lemma deliver_all:
  assumes rel: "feed_rel raises (p, subs, w) f" and quiet: "silent raises (length subs) w"
    and sns: "sn_subscriber ` set sns = {..<length subs}"
  obtains r n subs1 subs' w' where "MP_flush p subs = Some subs1" "IB_drainSubscribers sns 0 subs1 w = Some (r, subs', w')"
    "feed_rel raises (p, subs', w') f" "length subs' = length subs" "raised raises (length subs) w' r"
    "total_seen (length subs) w' = total_seen (length subs) w + n" "isl r \<or> r = Inr (of_nat n) \<and> all_seen subs'"
proof -
  from feed_rel_flush [OF rel] obtain subs1 where f: "MP_flush p subs = Some subs1" "feed_rel raises (p, subs1, w) f"
    "\<forall>i < length subs. NBQ_published (ms_queue (subs1 ! i)) = pending (subs1 ! i)" by blast
  have len: "length subs1 = length subs" using rel f(2) by (simp add: feed_rel_def)
  have side: "\<forall>sn \<in> set sns. sn_subscriber sn < length subs1" using sns len by auto
  from IB_drainSubscribers_correct [OF f(2) _ _ side, of 0] quiet f(3) len sns obtain r n subs' w' where
    d: "IB_drainSubscribers sns 0 subs1 w = Some (r, subs', w')" "feed_rel raises (p, subs', w') f" "length subs' = length subs"
      "raised raises (length subs) w' r" "total_seen (length subs) w' = total_seen (length subs) w + n"
      "isl r \<or> r = Inr (of_nat n) \<and> (\<forall>i < length subs. pending (subs' ! i) = [])"
    by auto
  moreover have "isl r \<or> r = Inr (of_nat n) \<and> all_seen subs'" using d(3,6) by (auto simp: all_seen_def in_set_conv_nth)
  ultimately show thesis using f(1) that by blast
qed

lemma deliver_all_quiet:
  assumes "feed_rel never_raises (p, subs, w) f" and "sn_subscriber ` set sns = {..<length subs}"
  shows "\<exists>n subs1 subs' w'. MP_flush p subs = Some subs1 \<and> IB_drainSubscribers sns 0 subs1 w = Some (Inr (of_nat n), subs', w') \<and>
     feed_rel never_raises (p, subs', w') f \<and> length subs' = length subs \<and> all_seen subs' \<and>
     total_seen (length subs) w' = total_seen (length subs) w + n"
proof -
  have "silent never_raises (length subs) w" by (simp add: silent_def)
  then show ?thesis by (rule deliver_all [OF assms(1) _ assms(2)]) (auto simp: raised_def isl_def split: sum.splits)
qed

lemma all_seen_owed:
  "feed_rel raises (p, subs, w) f \<Longrightarrow> all_seen subs \<Longrightarrow> i < length subs \<Longrightarrow> w i = owed f i"
  by (auto simp: feed_rel_def all_seen_def)

section \<open>The engine\<close>

text \<open>An engine with one subscriber per entry of \<open>ks\<close>, whose callbacks record what they see.\<close>

fun subscribed :: "(nat \<Rightarrow> MarketDataMessage \<Rightarrow> exn option) \<Rightarrow> IntegratedBacktestEngine \<Rightarrow> seen Subscribers \<Rightarrow> instrument_id list \<Rightarrow>
    IntegratedBacktestEngine \<times> seen Subscribers" where
  "subscribed raises en subs [] = (en, subs)"
| "subscribed raises en subs (k # ks) =
     (let (r, en', subs') = IB_subscribe k (record_seen raises (length subs)) en subs in subscribed raises en' subs' ks)"

abbreviation joined_from_start :: "instrument_id list \<Rightarrow> feed_spec" where
  "joined_from_start ks \<equiv> \<lparr>fs_published = [], fs_joined = map (\<lambda>k. (k, 0)) ks\<rparr>"

lemma owed_from_start:
  "i < length ks \<Longrightarrow> owed (number_messages ms (joined_from_start ks)) i =
     of_instrument (ks ! i) (fs_published (number_messages ms \<lparr>fs_published = [], fs_joined = []\<rparr>))"
  using number_messages_irrelevant [of "joined_from_start ks" "\<lparr>fs_published = [], fs_joined = []\<rparr>" ms] by (simp add: owed_def)

definition engine_inv ::
  "(nat \<Rightarrow> MarketDataMessage \<Rightarrow> exn option) \<Rightarrow> IntegratedBacktestConfig \<Rightarrow> instrument_id list \<Rightarrow> MarketDataEvent list \<Rightarrow> MarketDataEvent list \<Rightarrow> nat \<Rightarrow> nat \<Rightarrow> nat \<Rightarrow>
   IntegratedBacktestEngine \<Rightarrow> seen Subscribers \<Rightarrow> seen \<Rightarrow> bool" where
  "engine_inv raises c ks es acc a b v en subs w \<longleftrightarrow>
     (let ms = fst (replay (IB_adapterConfig c) [] 0 acc); st = en_stats en
      in en_config en = c \<and> adapter_ok (IB_adapterConfig c) (en_adapter en) \<and>
         ad_store (en_adapter en) = snd (replay (IB_adapterConfig c) [] 0 acc) \<and>
         ad_accepted_event_count (en_adapter en) = of_nat (length acc) \<and>
         feed_rel raises (en_publisher en, subs, w) (number_messages ms (joined_from_start ks)) \<and>
         sn_subscriber ` set (en_subscriptions en) = {..<length subs} \<and> all_seen subs \<and>
         en_last_input_event en = (if es = [] then None else Some (last es)) \<and>
         st = \<lparr>ir_input_event_count = of_nat (length es), ir_accepted_event_count = of_nat (length acc),
              ir_skipped_by_filter_count = of_nat a, ir_skipped_by_max_events_count = of_nat b,
              ir_chronological_violations = of_nat v, ir_published_message_count = of_nat (length ms),
              ir_delivered_message_count = of_nat (total_seen (length ks) w)\<rparr>)"

lemma subscribed_inv:
  assumes "ic_subscriber_queue_batch_size c \<noteq> 0" "subscribed raises (IB_new c) [] ks = (en, subs)"
  shows "engine_inv raises c ks [] [] 0 0 0 en subs (\<lambda>_. [])"
proof -
  have "engine_inv raises c (js @ ks) [] [] 0 0 0 en subs (\<lambda>_. [])"
    if "engine_inv raises c js [] [] 0 0 0 en0 subs0 (\<lambda>_. [])" "subscribed raises en0 subs0 ks = (en, subs)" for js en0 subs0
    using that
  proof (induction ks arbitrary: js en0 subs0)
    case (Cons k ks)
    have e0: "feed_rel raises (en_publisher en0, subs0, \<lambda>_. []) (joined_from_start js)" "en_config en0 = c" "all_seen subs0"
      "sn_subscriber ` set (en_subscriptions en0) = {..<length subs0}"
      using Cons.prems(1) by (auto simp: engine_inv_def Let_def)
    obtain r p' subs1 where s: "MP_subscribe k (record_seen raises (length subs0)) (ic_subscriber_queue_batch_size c) (en_publisher en0) subs0 =
        (r, p', subs1)" by (metis prod_cases3)
    obtain q :: "MarketDataMessage NonBlockingQueue" where q: "NBQ_new (ic_subscriber_queue_batch_size c) = Inr q"
      using assms(1) by (simp add: NBQ_new_def)
    with s obtain sn where sn: "r = Inr sn" "sn_subscriber sn = length subs0"
        "subs1 = subs0 @ [\<lparr>ms_queue = q, ms_callback = record_seen raises (length subs0)\<rparr>]"
      by (auto simp: MP_subscribe_def MS_new_def Let_def)
    have "NBQ_contents q = []" using NBQ_new_correct [OF q] by simp
    note sn = sn this
    let ?en = "en0\<lparr>en_publisher := p', en_subscriptions := en_subscriptions en0 @ [sn]\<rparr>"
    have ib: "IB_subscribe k (record_seen raises (length subs0)) en0 subs0 = (Inr sn, ?en, subs1)"
      using s sn e0(2) by (simp add: IB_subscribe_def)
    have "feed_rel raises (p', subs1, \<lambda>_. []) (joined_from_start (js @ [k]))"
      using feed_rel_subscribe [OF e0(1) s] assms(1) by simp
    moreover have "sn_subscriber ` set (en_subscriptions ?en) = {..<length subs1}"
      using e0(4) sn by (auto simp: lessThan_Suc)
    moreover have "all_seen subs1" using e0(3) sn by (simp add: all_seen_def)
    ultimately have "engine_inv raises c (js @ [k]) [] [] 0 0 0 ?en subs1 (\<lambda>_. [])"
      using Cons.prems(1) by (simp add: engine_inv_def Let_def total_seen_def)
    from Cons.IH [OF this] Cons.prems(2) ib show ?case by simp
  qed simp
  moreover have "engine_inv raises c [] [] [] 0 0 0 (IB_new c) [] (\<lambda>_. [])"
    using feed_rel_start AD_new_ok
    by (simp add: engine_inv_def IB_new_def zero_stats_def total_seen_def all_seen_def feed_start_def)
      (simp add: AD_new_def)
  ultimately show ?thesis using assms(2) by fastforce
qed

definition violates :: "MarketDataEvent list \<Rightarrow> MarketDataEvent \<Rightarrow> bool" where
  "violates es e \<longleftrightarrow> es \<noteq> [] \<and> eventComesBefore e (last es)"

lemma IB_processEvent_step:
  assumes inv: "engine_inv never_raises c ks es acc a b v en subs w" and len: "length acc < two64"
  shows "\<exists>r en' subs' w'. IB_processEvent e en subs w = Some (Inr r, en', subs', w') \<and>
     engine_inv never_raises c ks (es @ [e])
       (if ic_max_events c \<noteq> 0 \<and> unat (ic_max_events c) \<le> length acc \<or> \<not> passes (ic_instruments c) e then acc else acc @ [e])
       (if \<not> (ic_max_events c \<noteq> 0 \<and> unat (ic_max_events c) \<le> length acc) \<and> \<not> passes (ic_instruments c) e then a + 1 else a)
       (if ic_max_events c \<noteq> 0 \<and> unat (ic_max_events c) \<le> length acc then b + 1 else b)
       (if violates es e then v + 1 else v) en' subs' w'"
proof -
  let ?c = "IB_adapterConfig c"
  let ?ms = "fst (replay ?c [] 0 acc)"
  note I = inv [unfolded engine_inv_def Let_def]
  have st: "en_stats en = \<lparr>ir_input_event_count = of_nat (length es), ir_accepted_event_count = of_nat (length acc),
              ir_skipped_by_filter_count = of_nat a, ir_skipped_by_max_events_count = of_nat b,
              ir_chronological_violations = of_nat v, ir_published_message_count = of_nat (length ?ms),
              ir_delivered_message_count = of_nat (total_seen (length ks) w)\<rparr>" "en_config en = c"
    "adapter_ok ?c (en_adapter en)" "ad_store (en_adapter en) = snd (replay ?c [] 0 acc)"
    "ad_accepted_event_count (en_adapter en) = of_nat (length acc)"
    "feed_rel never_raises (en_publisher en, subs, w) (number_messages ?ms (joined_from_start ks))"
    "sn_subscriber ` set (en_subscriptions en) = {..<length subs}" "all_seen subs"
    "en_last_input_event en = (if es = [] then None else Some (last es))"
    using I by blast+
  have len_ks: "length subs = length ks" using st(6) by (simp add: feed_rel_def)
  have viol: "(case en_last_input_event en of None \<Rightarrow> False | Some l \<Rightarrow> eventComesBefore e l) = violates es e"
    using st(9) by (simp add: violates_def)
  have full: "IB_maxEventsReached (en\<lparr>en_stats := s, en_last_input_event := Some e\<rparr>) \<longleftrightarrow>
      ic_max_events c \<noteq> 0 \<and> unat (ic_max_events c) \<le> length acc"
    if "ir_accepted_event_count s = of_nat (length acc)" for s
    using that st(2) unat_of_nat_u64 [OF len] by (simp add: IB_maxEventsReached_def word_gt_0 word_le_nat_alt)
  have acc: "AD_accepts (en_adapter en) e = passes (ic_instruments c) e"
    using AD_accepts_passes [OF st(3)] by (simp add: IB_adapterConfig_def)
  show ?thesis
  proof (cases "ic_max_events c \<noteq> 0 \<and> unat (ic_max_events c) \<le> length acc")
    case True
    with st(1-8) full show ?thesis
      by (simp add: IB_processEvent_def Let_def viol engine_inv_def add.commute)
  next
    case notfull: False
    show ?thesis
    proof (cases "passes (ic_instruments c) e")
      case False
      with notfull st(1-8) full acc AD_process_rejected [of "en_adapter en" e] show ?thesis
        by (simp add: IB_processEvent_def Let_def viol engine_inv_def case_prod_beta add.commute)
    next
      case True
      let ?ar = "fst (AD_process e (en_adapter en))" and ?ad = "snd (AD_process e (en_adapter en))"
      let ?new = "event_messages ?c (store_after (ad_store (en_adapter en)) e) (of_nat (length acc) + 1) e"
      have msgs: "ar_messages ?ar = ?new" "ar_accepted ?ar"
        using AD_process_messages [of "en_adapter en" e] AD_process_accepted [of "en_adapter en" e] acc True st(3,5)
        by (simp_all add: adapter_ok_def)
      have ad: "adapter_ok ?c ?ad" "ad_accepted_event_count ?ad = of_nat (length acc) + 1"
        "ad_store ?ad = store_after (snd (replay ?c [] 0 acc)) e"
        using AD_process_state [of "en_adapter en" e] acc True st(3,4,5) by (simp_all add: adapter_ok_def)
      have rep: "replay ?c [] 0 (acc @ [e]) = (?ms @ ?new, store_after (snd (replay ?c [] 0 acc)) e)"
        using st(4) by (simp add: replay_snoc case_prod_beta Let_def)
      from IB_publishMessages_correct [OF st(6), of "[]" ?new] obtain p subs1 where
        p: "IB_publishMessages [] ?new (en_publisher en) subs = Some (drop (length ?ms) (fs_published
              (number_messages ?new (number_messages ?ms (joined_from_start ks)))), p, subs1)"
          "feed_rel never_raises (p, subs1, w) (number_messages ?new (number_messages ?ms (joined_from_start ks)))" "length subs1 = length subs"
        by auto
      have "sn_subscriber ` set (en_subscriptions en) = {..<length subs1}" using st(7) p(3) by simp
      from deliver_all_quiet [OF p(2) this] p(3) len_ks obtain n subs2 subs3 w' where
        d: "MP_flush p subs1 = Some subs2" "IB_drainSubscribers (en_subscriptions en) 0 subs2 w = Some (Inr (of_nat n), subs3, w')"
          "feed_rel never_raises (p, subs3, w') (number_messages ?new (number_messages ?ms (joined_from_start ks)))"
          "length subs3 = length subs" "all_seen subs3" "total_seen (length ks) w' = total_seen (length ks) w + n" by auto
      show ?thesis
        using notfull True st(1-8) full msgs ad p(1) d
        by (simp add: IB_processEvent_def Let_def viol engine_inv_def case_prod_beta rep add.commute)
    qed
  qed
qed

text \<open>How often an event comes before its predecessor in the input.\<close>

fun violations :: "MarketDataEvent list \<Rightarrow> nat" where
  "violations (x # y # es) = (if eventComesBefore y x then 1 else 0) + violations (y # es)"
| "violations es = 0"

lemma violations_snoc: "violations (es @ [e]) = (if violates es e then violations es + 1 else violations es)"
  by (induction es rule: violations.induct) (auto simp: violates_def)

text \<open>
  Why an event is not processed: the limit is reached when as many events before it were accepted
  as \<^verbatim>\<open>max_events\<close> allows, and only otherwise the filter is asked.
\<close>

definition limit_reached :: "IntegratedBacktestConfig \<Rightarrow> MarketDataEvent list \<Rightarrow> bool" where
  "limit_reached c xs \<longleftrightarrow> ic_max_events c \<noteq> 0 \<and> unat (ic_max_events c) \<le> length (accepted c xs)"

definition skipped_by_limit :: "IntegratedBacktestConfig \<Rightarrow> MarketDataEvent list \<Rightarrow> nat" where
  "skipped_by_limit c es = length (filter (\<lambda>n. limit_reached c (take n es)) [0..<length es])"

definition skipped_by_filter :: "IntegratedBacktestConfig \<Rightarrow> MarketDataEvent list \<Rightarrow> nat" where
  "skipped_by_filter c es =
     length (filter (\<lambda>n. \<not> limit_reached c (take n es) \<and> \<not> passes (ic_instruments c) (es ! n)) [0..<length es])"

lemma filter_upt_snoc:
  "(\<And>n. n < length es \<Longrightarrow> P (es @ [e]) n = P es n) \<Longrightarrow>
   length (filter (P (es @ [e])) [0..<length (es @ [e])]) =
   length (filter (P es) [0..<length es]) + (if P (es @ [e]) (length es) then 1 else 0)"
  using filter_cong [of "[0..<length es]" "[0..<length es]" "P (es @ [e])" "P es"] by simp

lemma skipped_by_limit_snoc:
  "skipped_by_limit c (es @ [e]) = (if limit_reached c es then skipped_by_limit c es + 1 else skipped_by_limit c es)"
  using filter_upt_snoc [of es "\<lambda>es n. limit_reached c (take n es)" e] by (simp add: skipped_by_limit_def)

lemma skipped_by_filter_snoc:
  "skipped_by_filter c (es @ [e]) =
     (if \<not> limit_reached c es \<and> \<not> passes (ic_instruments c) e then skipped_by_filter c es + 1 else skipped_by_filter c es)"
  using filter_upt_snoc [of es "\<lambda>es n. \<not> limit_reached c (take n es) \<and> \<not> passes (ic_instruments c) (es ! n)" e]
  by (simp add: skipped_by_filter_def nth_append)

lemma skipped_sum: "skipped_by_filter c es + skipped_by_limit c es + length (accepted c es) = length es"
proof (induction es rule: rev_induct)
  case (snoc e es)
  then show ?case
    by (auto simp: skipped_by_filter_snoc skipped_by_limit_snoc accepted_snoc limit_reached_def)
qed (simp add: skipped_by_filter_def skipped_by_limit_def accepted_def)

lemma IB_processEvents_inv:
  assumes "engine_inv never_raises c ks xs (accepted c xs) (skipped_by_filter c xs) (skipped_by_limit c xs) (violations xs) en subs w"
    and "length (xs @ es) < two64"
  shows "\<exists>en' subs' w'. IB_processEvents es en subs w = Some (Inr (), en', subs', w') \<and>
     engine_inv never_raises c ks (xs @ es) (accepted c (xs @ es)) (skipped_by_filter c (xs @ es)) (skipped_by_limit c (xs @ es))
       (violations (xs @ es)) en' subs' w'"
  using assms
proof (induction es arbitrary: xs en subs w)
  case (Cons e es)
  have "length (accepted c xs) < two64" using accepted_length [of c xs] Cons.prems(2) by simp
  from IB_processEvent_step [OF Cons.prems(1) this, of e, folded violations_snoc accepted_snoc,
      folded limit_reached_def, folded skipped_by_filter_snoc skipped_by_limit_snoc [of c xs e]] obtain r en1 subs1 w1 where
    s: "IB_processEvent e en subs w = Some (Inr r, en1, subs1, w1)"
      "engine_inv never_raises c ks (xs @ [e]) (accepted c (xs @ [e])) (skipped_by_filter c (xs @ [e]))
         (skipped_by_limit c (xs @ [e])) (violations (xs @ [e])) en1 subs1 w1" by blast
  from Cons.IH [OF s(2)] Cons.prems(2) s(1) show ?case by simp
qed auto

lemma IB_run_inv:
  assumes "ic_subscriber_queue_batch_size c \<noteq> 0" "length es < two64"
    and start: "subscribed never_raises (IB_new c) [] ks = (en0, subs0)"
  shows "\<exists>en subs w. IB_run es en0 subs0 (\<lambda>_. []) = Some (Inr (en_stats en), en, subs, w) \<and>
     engine_inv never_raises c ks es (accepted c es) (skipped_by_filter c es) (skipped_by_limit c es) (violations es) en subs w"
proof -
  have "engine_inv never_raises c ks [] (accepted c []) (skipped_by_filter c []) (skipped_by_limit c []) (violations []) en0 subs0 (\<lambda>_. [])"
    using subscribed_inv [OF assms(1) start] by (simp add: accepted_def skipped_by_filter_def skipped_by_limit_def)
  from IB_processEvents_inv [OF this, of es] assms(2) obtain en subs w where
    r: "IB_processEvents es en0 subs0 (\<lambda>_. []) = Some (Inr (), en, subs, w)"
      "engine_inv never_raises c ks es (accepted c es) (skipped_by_filter c es) (skipped_by_limit c es) (violations es) en subs w"
    by auto
  let ?f = "number_messages (fst (replay (IB_adapterConfig c) [] 0 (accepted c es))) (joined_from_start ks)"
  have e: "feed_rel never_raises (en_publisher en, subs, w) ?f" "sn_subscriber ` set (en_subscriptions en) = {..<length subs}" "all_seen subs"
    using r(2) by (simp_all add: engine_inv_def Let_def)
  have len: "length subs = length ks" using e(1) by (simp add: feed_rel_def)
  from deliver_all_quiet [OF e(1,2)] obtain n subs1 subs2 w' where
    d: "MP_flush (en_publisher en) subs = Some subs1" "IB_drainSubscribers (en_subscriptions en) 0 subs1 w = Some (Inr (of_nat n), subs2, w')"
      "feed_rel never_raises (en_publisher en, subs2, w') ?f" "length subs2 = length subs" "all_seen subs2"
      "total_seen (length subs) w' = total_seen (length subs) w + n" by blast
  let ?en = "en\<lparr>en_stats := (en_stats en)\<lparr>ir_delivered_message_count := ir_delivered_message_count (en_stats en) + of_nat n\<rparr>\<rparr>"
  have "engine_inv never_raises c ks es (accepted c es) (skipped_by_filter c es) (skipped_by_limit c es) (violations es) ?en subs2 w'"
    using r(2) d(3-6) len by (simp add: engine_inv_def Let_def)
  moreover have "IB_run es en0 subs0 (\<lambda>_. []) = Some (Inr (en_stats ?en), ?en, subs2, w')"
    using r(1) d(1,2) by (simp add: IB_run_def IB_finish_def)
  ultimately show ?thesis by blast
qed

section \<open>Callbacks that throw\<close>

text \<open>The part of the invariant that an exception does not break: everything but the counters of deliveries.\<close>

definition engine_ok ::
  "(nat \<Rightarrow> MarketDataMessage \<Rightarrow> exn option) \<Rightarrow> IntegratedBacktestConfig \<Rightarrow> instrument_id list \<Rightarrow> MarketDataEvent list \<Rightarrow>
   IntegratedBacktestEngine \<Rightarrow> seen Subscribers \<Rightarrow> seen \<Rightarrow> bool" where
  "engine_ok raises c ks acc en subs w \<longleftrightarrow>
     (let ms = fst (replay (IB_adapterConfig c) [] 0 acc)
      in en_config en = c \<and> adapter_ok (IB_adapterConfig c) (en_adapter en) \<and>
         ad_store (en_adapter en) = snd (replay (IB_adapterConfig c) [] 0 acc) \<and>
         ad_accepted_event_count (en_adapter en) = of_nat (length acc) \<and>
         ir_accepted_event_count (en_stats en) = of_nat (length acc) \<and>
         feed_rel raises (en_publisher en, subs, w) (number_messages ms (joined_from_start ks)) \<and>
         sn_subscriber ` set (en_subscriptions en) = {..<length subs})"

abbreviation next_accepted :: "IntegratedBacktestConfig \<Rightarrow> MarketDataEvent list \<Rightarrow> MarketDataEvent \<Rightarrow> MarketDataEvent list" where
  "next_accepted c acc e \<equiv>
     if ic_max_events c \<noteq> 0 \<and> unat (ic_max_events c) \<le> length acc \<or> \<not> passes (ic_instruments c) e then acc else acc @ [e]"

lemma IB_processEvent_ok:
  assumes inv: "engine_ok raises c ks acc en subs w" and len: "length acc < two64" and quiet: "silent raises (length ks) w"
  shows "\<exists>r en' subs' w'. IB_processEvent e en subs w = Some (r, en', subs', w') \<and>
     engine_ok raises c ks (next_accepted c acc e) en' subs' w' \<and> raised raises (length ks) w' r"
proof -
  let ?c = "IB_adapterConfig c"
  let ?ms = "fst (replay ?c [] 0 acc)"
  have st: "en_config en = c" "adapter_ok ?c (en_adapter en)" "ad_store (en_adapter en) = snd (replay ?c [] 0 acc)"
    "ad_accepted_event_count (en_adapter en) = of_nat (length acc)" "ir_accepted_event_count (en_stats en) = of_nat (length acc)"
    "feed_rel raises (en_publisher en, subs, w) (number_messages ?ms (joined_from_start ks))"
    "sn_subscriber ` set (en_subscriptions en) = {..<length subs}"
    using inv [unfolded engine_ok_def Let_def] by blast+
  have len_ks: "length subs = length ks" using st(6) by (simp add: feed_rel_def)
  have full: "IB_maxEventsReached (en\<lparr>en_stats := s, en_last_input_event := Some e\<rparr>) \<longleftrightarrow>
      ic_max_events c \<noteq> 0 \<and> unat (ic_max_events c) \<le> length acc"
    if "ir_accepted_event_count s = of_nat (length acc)" for s
    using that st(1) unat_of_nat_u64 [OF len] by (simp add: IB_maxEventsReached_def word_gt_0 word_le_nat_alt)
  have acc: "AD_accepts (en_adapter en) e = passes (ic_instruments c) e"
    using AD_accepts_passes [OF st(2)] by (simp add: IB_adapterConfig_def)
  show ?thesis
  proof (cases "(ic_max_events c \<noteq> 0 \<and> unat (ic_max_events c) \<le> length acc) \<or> \<not> passes (ic_instruments c) e")
    case True
    then have "\<exists>r en'. IB_processEvent e en subs w = Some (Inr r, en', subs, w) \<and> engine_ok raises c ks acc en' subs w"
      using st full acc AD_process_rejected [of "en_adapter en" e]
      by (cases "ic_max_events c \<noteq> 0 \<and> unat (ic_max_events c) \<le> length acc")
        (simp_all add: IB_processEvent_def Let_def engine_ok_def case_prod_beta)
    with True quiet show ?thesis by auto
  next
    case False
    let ?ar = "fst (AD_process e (en_adapter en))" and ?ad = "snd (AD_process e (en_adapter en))"
    let ?new = "event_messages ?c (store_after (ad_store (en_adapter en)) e) (of_nat (length acc) + 1) e"
    have msgs: "ar_messages ?ar = ?new" "ar_accepted ?ar"
      using AD_process_messages [of "en_adapter en" e] AD_process_accepted [of "en_adapter en" e] acc False st(2,4)
      by (simp_all add: adapter_ok_def)
    have ad: "adapter_ok ?c ?ad" "ad_accepted_event_count ?ad = of_nat (length acc) + 1"
      "ad_store ?ad = store_after (snd (replay ?c [] 0 acc)) e"
      using AD_process_state [of "en_adapter en" e] acc False st(2,3,4) by (simp_all add: adapter_ok_def)
    have rep: "replay ?c [] 0 (acc @ [e]) = (?ms @ ?new, store_after (snd (replay ?c [] 0 acc)) e)"
      using st(3) by (simp add: replay_snoc case_prod_beta Let_def)
    from IB_publishMessages_correct [OF st(6), of "[]" ?new] obtain published p subs1 where
      p: "IB_publishMessages [] ?new (en_publisher en) subs = Some (published, p, subs1)"
        "feed_rel raises (p, subs1, w) (number_messages ?new (number_messages ?ms (joined_from_start ks)))" "length subs1 = length subs"
      by blast
    have sns: "sn_subscriber ` set (en_subscriptions en) = {..<length subs1}" using st(7) p(3) by simp
    have quiet1: "silent raises (length subs1) w" using quiet p(3) len_ks by simp
    obtain r n subs2 subs3 w' where
      d: "MP_flush p subs1 = Some subs2" "IB_drainSubscribers (en_subscriptions en) 0 subs2 w = Some (r, subs3, w')"
        "feed_rel raises (p, subs3, w') (number_messages ?new (number_messages ?ms (joined_from_start ks)))"
        "length subs3 = length subs1" "raised raises (length subs1) w' r"
      by (rule deliver_all [OF p(2) quiet1 sns])
    show ?thesis
      using False quiet st full acc msgs ad p d len_ks
      by (cases r) (simp_all add: IB_processEvent_def Let_def engine_ok_def case_prod_beta rep add.commute)
  qed
qed

lemma engine_inv_ok: "engine_inv raises c ks es acc a b v en subs w \<Longrightarrow> engine_ok raises c ks acc en subs w"
  by (simp add: engine_inv_def engine_ok_def Let_def)

lemma IB_processEvents_ok:
  assumes "engine_ok raises c ks (accepted c xs) en subs w" and "length (xs @ es) < two64" and "silent raises (length ks) w"
  shows "\<exists>r es1 es2 en' subs' w'. IB_processEvents es en subs w = Some (r, en', subs', w') \<and> es = es1 @ es2 \<and>
     engine_ok raises c ks (accepted c (xs @ es1)) en' subs' w' \<and> raised raises (length ks) w' r \<and> (isl r \<or> es2 = [])"
  using assms
proof (induction es arbitrary: xs en subs w)
  case (Cons e es)
  have "length (accepted c xs) < two64" using accepted_length [of c xs] Cons.prems(2) by simp
  from IB_processEvent_ok [OF Cons.prems(1) this Cons.prems(3), of e, folded accepted_snoc] obtain r en1 subs1 w1 where
    s: "IB_processEvent e en subs w = Some (r, en1, subs1, w1)"
      "engine_ok raises c ks (accepted c (xs @ [e])) en1 subs1 w1" "raised raises (length ks) w1 r" by blast
  show ?case
  proof (cases r)
    case (Inl x)
    with s show ?thesis by (intro exI [of _ "Inl x"] exI [of _ "[e]"] exI [of _ es]) simp
  next
    case (Inr a)
    have "length ((xs @ [e]) @ es) < two64" using Cons.prems(2) by simp
    moreover have "silent raises (length ks) w1" using s(3) Inr by simp
    ultimately obtain r' es1 es2 en' subs' w' where
      "IB_processEvents es en1 subs1 w1 = Some (r', en', subs', w')" "es = es1 @ es2"
      "engine_ok raises c ks (accepted c ((xs @ [e]) @ es1)) en' subs' w'" "raised raises (length ks) w' r'" "isl r' \<or> es2 = []"
      using Cons.IH [OF s(2)] by blast
    with s(1) Inr show ?thesis by (intro exI [of _ r'] exI [of _ "e # es1"] exI [of _ es2]) simp
  qed
qed simp

lemma IB_finish_ok:
  assumes "engine_ok raises c ks acc en subs w" and quiet: "silent raises (length ks) w"
  shows "\<exists>r en' subs' w'. IB_finish en subs w = Some (r, en', subs', w') \<and> engine_ok raises c ks acc en' subs' w' \<and>
     raised raises (length ks) w' r \<and> (isl r \<or> all_seen subs')"
proof -
  let ?f = "number_messages (fst (replay (IB_adapterConfig c) [] 0 acc)) (joined_from_start ks)"
  have e: "feed_rel raises (en_publisher en, subs, w) ?f" "sn_subscriber ` set (en_subscriptions en) = {..<length subs}"
    using assms(1) by (simp_all add: engine_ok_def Let_def)
  have len: "length subs = length ks" using e(1) by (simp add: feed_rel_def)
  have quiet1: "silent raises (length subs) w" using quiet len by simp
  obtain r n subs1 subs' w' where
    d: "MP_flush (en_publisher en) subs = Some subs1" "IB_drainSubscribers (en_subscriptions en) 0 subs1 w = Some (r, subs', w')"
      "feed_rel raises (en_publisher en, subs', w') ?f" "length subs' = length subs" "raised raises (length subs) w' r"
      "isl r \<or> r = Inr (of_nat n) \<and> all_seen subs'"
    by (rule deliver_all [OF e(1) quiet1 e(2)])
  show ?thesis using assms(1) d len by (cases r) (simp_all add: IB_finish_def engine_ok_def Let_def)
qed

lemma IB_run_ok:
  assumes "engine_ok raises c ks (accepted c []) en subs w" and "length es < two64" and "silent raises (length ks) w"
  shows "\<exists>r es1 es2 en' subs' w'. IB_run es en subs w = Some (r, en', subs', w') \<and> es = es1 @ es2 \<and>
     engine_ok raises c ks (accepted c es1) en' subs' w' \<and> raised raises (length ks) w' r \<and>
     (isl r \<or> es2 = [] \<and> all_seen subs')"
proof -
  have "length ([] @ es) < two64" using assms(2) by simp
  from IB_processEvents_ok [OF assms(1) this assms(3)] obtain r es1 es2 en1 subs1 w1 where
    p: "IB_processEvents es en subs w = Some (r, en1, subs1, w1)" "es = es1 @ es2"
      "engine_ok raises c ks (accepted c es1) en1 subs1 w1" "raised raises (length ks) w1 r" "isl r \<or> es2 = []"
    unfolding append_Nil by blast
  show ?thesis
  proof (cases r)
    case (Inl x)
    with p show ?thesis by (intro exI [of _ "Inl x"] exI [of _ es1] exI [of _ es2]) (simp add: IB_run_def)
  next
    case (Inr a)
    with p(4) have "silent raises (length ks) w1" by simp
    from IB_finish_ok [OF p(3) this] obtain r' en2 subs2 w2 where
      f: "IB_finish en1 subs1 w1 = Some (r', en2, subs2, w2)" "engine_ok raises c ks (accepted c es1) en2 subs2 w2"
        "raised raises (length ks) w2 r'" "isl r' \<or> all_seen subs2" by blast
    show ?thesis
    proof (cases r')
      case (Inl x)
      with p f Inr show ?thesis by (intro exI [of _ "Inl x"] exI [of _ es1] exI [of _ "[]"]) (simp add: IB_run_def)
    next
      case (Inr n)
      with p f \<open>r = Inr a\<close> show ?thesis
        by (intro exI [of _ "Inr (en_stats en2)"] exI [of _ es1] exI [of _ "[]"]) (simp add: IB_run_def)
    qed
  qed
qed

section \<open>Properties\<close>

text \<open>
  C21: The integrated run replays the market and tells every subscriber. For any configuration and
  any events, the run ends without a fault; the historical store is the one that the accepted
  book-changing events build; and every callback was called on exactly the messages of its
  instrument that the accepted events give rise to, numbered from 1, in order and without a rest:
  book updates and trades as configured, and snapshots of the book after every so many events.
\<close>

theorem integrated_run_delivers:
  assumes "ic_subscriber_queue_batch_size c \<noteq> 0" "length es < two64" "subscribed never_raises (IB_new c) [] ks = (en0, subs0)"
  defines "ms \<equiv> fst (replay (IB_adapterConfig c) [] 0 (accepted c es))"
  shows "\<exists>stats en subs w. IB_run es en0 subs0 (\<lambda>_. []) = Some (Inr stats, en, subs, w) \<and>
     ad_store (en_adapter en) = foldl HLS_apply [] (filter (\<lambda>e. isLobMutatingAction (ev_action e)) (accepted c es)) \<and>
     (\<forall>i < length ks. w i = of_instrument (ks ! i) (fs_published (number_messages ms \<lparr>fs_published = [], fs_joined = []\<rparr>)))"
proof -
  from IB_run_inv [OF assms(1-3)] obtain a b en subs w where
    r: "IB_run es en0 subs0 (\<lambda>_. []) = Some (Inr (en_stats en), en, subs, w)"
      "engine_inv never_raises c ks es (accepted c es) a b (violations es) en subs w" by blast
  have e: "feed_rel never_raises (en_publisher en, subs, w) (number_messages ms (joined_from_start ks))" "all_seen subs"
    "ad_store (en_adapter en) = snd (replay (IB_adapterConfig c) [] 0 (accepted c es))"
    using r(2) by (simp_all add: engine_inv_def Let_def ms_def)
  have "length subs = length ks" using e(1) by (simp add: feed_rel_def)
  then have "w i = of_instrument (ks ! i) (fs_published (number_messages ms \<lparr>fs_published = [], fs_joined = []\<rparr>))"
    if "i < length ks" for i
    using all_seen_owed [OF e(1,2), of i] that by (simp add: owed_from_start)
  with r(1) e(3) show ?thesis unfolding replay_store by blast
qed

definition demo_config :: IntegratedBacktestConfig where
  "demo_config = \<lparr>ic_instruments = [7], ic_publish_book_updates = True, ic_publish_trades = True, ic_snapshot_depth = 5,
     ic_snapshot_interval_events = 2, ic_max_events = 3, ic_subscriber_queue_batch_size = 4\<rparr>"

definition demo_run_events :: "MarketDataEvent list" where
  "demo_run_events = [event Add 1 Bid 100 5 7, event Add 2 Bid 100 5 8, event Trade 0 Bid 100 1 7,
     event Cancel 1 Bid 100 5 7, event Add 3 Ask 101 5 7]"

theorem integrated_run_delivers_witness:
  "\<exists>stats en subs w. IB_run demo_run_events (fst (subscribed never_raises (IB_new demo_config) [] [7, 8]))
       (snd (subscribed never_raises (IB_new demo_config) [] [7, 8])) (\<lambda>_. []) = Some (Inr stats, en, subs, w) \<and>
     map (\<lambda>m. (messageType m, seqNo m)) (w 0) =
       [(BookUpdateType, 1), (TradeType, 2), (BookSnapshotType, 3), (BookUpdateType, 4)] \<and> w 1 = []"
proof -
  obtain en0 subs0 where s: "subscribed never_raises (IB_new demo_config) [] [7, 8] = (en0, subs0)" by fastforce
  have "ic_subscriber_queue_batch_size demo_config \<noteq> 0" "length demo_run_events < two64"
    by (simp_all add: demo_config_def demo_run_events_def two64_def)
  from integrated_run_delivers [OF this s] obtain stats en subs w where
    r: "IB_run demo_run_events en0 subs0 (\<lambda>_. []) = Some (Inr stats, en, subs, w)"
      "\<forall>i < length [7, 8 :: u64]. w i = of_instrument ([7, 8] ! i) (fs_published (number_messages
         (fst (replay (IB_adapterConfig demo_config) [] 0 (accepted demo_config demo_run_events))) \<lparr>fs_published = [], fs_joined = []\<rparr>))"
    by blast
  let ?ms = "fs_published (number_messages
         (fst (replay (IB_adapterConfig demo_config) [] 0 (accepted demo_config demo_run_events))) \<lparr>fs_published = [], fs_joined = []\<rparr>)"
  have "map (\<lambda>m. (messageType m, seqNo m)) (of_instrument 7 ?ms) =
       [(BookUpdateType, 1), (TradeType, 2), (BookSnapshotType, 3), (BookUpdateType, 4)]" "of_instrument 8 ?ms = []"
    by code_simp+
  with r s show ?thesis by (force simp: less_Suc_eq)
qed

text \<open>
  C22: The statistics are exact, for fewer than \<open>2 ^ 64\<close> events and callbacks that do not throw. The
  accepted events are the first \<^verbatim>\<open>max_events\<close> that pass the filter; the ones skipped because of the
  limit are those that come when so many have been accepted, whether they would pass the filter or
  not; the ones skipped by the filter are the others that do not pass it; the three make up the
  input. Out-of-order events are counted (and still processed), and the published and delivered
  messages are those of the accepted events and those the callbacks have seen.
\<close>

theorem integrated_stats_exact:
  assumes "ic_subscriber_queue_batch_size c \<noteq> 0" "length es < two64" "subscribed never_raises (IB_new c) [] ks = (en0, subs0)"
  shows "\<exists>stats en subs w. IB_run es en0 subs0 (\<lambda>_. []) = Some (Inr stats, en, subs, w) \<and>
     unat (ir_input_event_count stats) = length es \<and>
     unat (ir_accepted_event_count stats) = length (accepted c es) \<and>
     unat (ir_skipped_by_filter_count stats) = skipped_by_filter c es \<and>
     unat (ir_skipped_by_max_events_count stats) = skipped_by_limit c es \<and>
     unat (ir_accepted_event_count stats) + unat (ir_skipped_by_filter_count stats) +
       unat (ir_skipped_by_max_events_count stats) = length es \<and>
     ir_chronological_violations stats = of_nat (violations es) \<and>
     ir_published_message_count stats = of_nat (length (fst (replay (IB_adapterConfig c) [] 0 (accepted c es)))) \<and>
     ir_delivered_message_count stats = of_nat (\<Sum>i < length ks. length (w i))"
proof -
  from IB_run_inv [OF assms] obtain en subs w where
    r: "IB_run es en0 subs0 (\<lambda>_. []) = Some (Inr (en_stats en), en, subs, w)"
      "engine_inv never_raises c ks es (accepted c es) (skipped_by_filter c es) (skipped_by_limit c es) (violations es) en subs w"
    by blast
  note sum = skipped_sum [of c es]
  then have "skipped_by_filter c es < two64" "skipped_by_limit c es < two64" "length (accepted c es) < two64"
    using assms(2) by linarith+
  with r assms(2) sum show ?thesis
    by (intro exI [of _ "en_stats en"] exI [of _ en] exI [of _ subs] exI [of _ w])
      (simp add: engine_inv_def Let_def unat_of_nat_u64 total_seen_def)
qed

theorem integrated_stats_exact_witness:
  "\<exists>stats en subs w. IB_run demo_run_events (fst (subscribed never_raises (IB_new demo_config) [] [7, 8]))
       (snd (subscribed never_raises (IB_new demo_config) [] [7, 8])) (\<lambda>_. []) = Some (Inr stats, en, subs, w) \<and>
     unat (ir_accepted_event_count stats) = 3 \<and>
     unat (ir_skipped_by_filter_count stats) = skipped_by_filter demo_config demo_run_events \<and>
     unat (ir_skipped_by_max_events_count stats) = skipped_by_limit demo_config demo_run_events \<and>
     skipped_by_filter demo_config demo_run_events = 1 \<and> skipped_by_limit demo_config demo_run_events = 1"
proof -
  obtain en0 subs0 where s: "subscribed never_raises (IB_new demo_config) [] [7, 8] = (en0, subs0)" by fastforce
  have "ic_subscriber_queue_batch_size demo_config \<noteq> 0" "length demo_run_events < two64"
    by (simp_all add: demo_config_def demo_run_events_def two64_def)
  note th = integrated_stats_exact [OF this s]
  have "length (accepted demo_config demo_run_events) = 3" "skipped_by_filter demo_config demo_run_events = 1"
    "skipped_by_limit demo_config demo_run_events = 1" by code_simp+
  with th s show ?thesis by auto
qed

text \<open>
  C23: A callback that throws loses nothing. Whatever the callbacks throw, the run ends without a
  fault after a prefix of the events: the store is the one that the accepted book-changing events of
  this prefix build, and what a subscriber has seen together with what is still queued for it are
  the messages of its instrument that the prefix gives rise to, in order. The run returns statistics
  only when all events were processed, nothing is left in a queue and no callback threw; otherwise
  it ends with the exception of the one callback that threw, on the last message that it saw.
\<close>

theorem raising_callbacks_lose_nothing:
  assumes "ic_subscriber_queue_batch_size c \<noteq> 0" "length es < two64" "subscribed raises (IB_new c) [] ks = (en0, subs0)"
  shows "\<exists>r en subs w es1 es2. IB_run es en0 subs0 (\<lambda>_. []) = Some (r, en, subs, w) \<and> es = es1 @ es2 \<and>
     ad_store (en_adapter en) = foldl HLS_apply [] (filter (\<lambda>e. isLobMutatingAction (ev_action e)) (accepted c es1)) \<and>
     (\<forall>i < length ks. w i @ pending (subs ! i) = of_instrument (ks ! i) (fs_published (number_messages
        (fst (replay (IB_adapterConfig c) [] 0 (accepted c es1))) \<lparr>fs_published = [], fs_joined = []\<rparr>))) \<and>
     (case r of
        Inr stats \<Rightarrow> es2 = [] \<and> (\<forall>i < length ks. pending (subs ! i) = []) \<and> silent raises (length ks) w
      | Inl x \<Rightarrow> \<exists>i < length ks. w i \<noteq> [] \<and> raises i (last (w i)) = Some x \<and> silent raises (length ks) (w(i := butlast (w i))))"
proof -
  have "engine_ok raises c ks (accepted c []) en0 subs0 (\<lambda>_. [])"
    using engine_inv_ok [OF subscribed_inv [OF assms(1,3)]] by (simp add: accepted_def)
  moreover have "silent raises (length ks) (\<lambda>_. [])" by (simp add: silent_def)
  ultimately obtain r es1 es2 en subs w where
    r: "IB_run es en0 subs0 (\<lambda>_. []) = Some (r, en, subs, w)" "es = es1 @ es2" "engine_ok raises c ks (accepted c es1) en subs w"
      "raised raises (length ks) w r" "isl r \<or> es2 = [] \<and> all_seen subs"
    using IB_run_ok [OF _ assms(2)] by blast
  let ?ms = "fst (replay (IB_adapterConfig c) [] 0 (accepted c es1))"
  have e: "feed_rel raises (en_publisher en, subs, w) (number_messages ?ms (joined_from_start ks))"
    "ad_store (en_adapter en) = snd (replay (IB_adapterConfig c) [] 0 (accepted c es1))"
    using r(3) by (simp_all add: engine_ok_def Let_def)
  then have len: "length subs = length ks" by (simp add: feed_rel_def)
  have "w i @ pending (subs ! i) = of_instrument (ks ! i) (fs_published (number_messages ?ms \<lparr>fs_published = [], fs_joined = []\<rparr>))"
    if "i < length ks" for i
    using e(1) len that by (simp add: feed_rel_def owed_from_start)
  moreover have "case r of Inr stats \<Rightarrow> es2 = [] \<and> (\<forall>i < length ks. pending (subs ! i) = []) \<and> silent raises (length ks) w
      | Inl x \<Rightarrow> \<exists>i < length ks. w i \<noteq> [] \<and> raises i (last (w i)) = Some x \<and> silent raises (length ks) (w(i := butlast (w i)))"
    using r(4,5) len by (cases r) (simp_all add: all_seen_def)
  ultimately show ?thesis using r(1,2) e(2) unfolding replay_store by blast
qed

theorem raising_callbacks_lose_nothing_witness:
  "\<exists>en subs w. IB_run demo_run_events (fst (subscribed demo_raises (IB_new demo_config) [] [7, 8]))
       (snd (subscribed demo_raises (IB_new demo_config) [] [7, 8])) (\<lambda>_. []) = Some (Inl (runtime_error ''callback''), en, subs, w)"
proof -
  obtain en0 subs0 where s: "subscribed demo_raises (IB_new demo_config) [] [7, 8] = (en0, subs0)" by fastforce
  let ?ms = "\<lambda>es. fs_published (number_messages
       (fst (replay (IB_adapterConfig demo_config) [] 0 (accepted demo_config es))) \<lparr>fs_published = [], fs_joined = []\<rparr>)"
  have "ic_subscriber_queue_batch_size demo_config \<noteq> 0" "length demo_run_events < two64"
    by (simp_all add: demo_config_def demo_run_events_def two64_def)
  from raising_callbacks_lose_nothing [OF this s] obtain r en subs w es1 es2 where
    r: "IB_run demo_run_events en0 subs0 (\<lambda>_. []) = Some (r, en, subs, w)" "demo_run_events = es1 @ es2"
      "\<forall>i < length [7, 8 :: u64]. w i @ pending (subs ! i) = of_instrument ([7, 8] ! i) (?ms es1)"
      "case r of Inr stats \<Rightarrow> es2 = [] \<and> (\<forall>i < length [7, 8 :: u64]. pending (subs ! i) = []) \<and> silent demo_raises (length [7, 8 :: u64]) w
        | Inl x \<Rightarrow> \<exists>i < length [7, 8 :: u64]. w i \<noteq> [] \<and> demo_raises i (last (w i)) = Some x \<and>
            silent demo_raises (length [7, 8 :: u64]) (w(i := butlast (w i)))"
    by blast
  have "1 \<in> set (map seqNo (of_instrument 7 (?ms demo_run_events)))" by code_simp
  then obtain m where "m \<in> set (of_instrument 7 (?ms demo_run_events))" "seqNo m = 1" unfolding set_map by force
  then have "\<not> silent demo_raises (length [7, 8 :: u64]) w" if "w 0 = of_instrument 7 (?ms demo_run_events)"
    using that by (auto simp: silent_def demo_raises_def intro!: exI [of _ 0])
  with r(2-4) have "r = Inl (runtime_error ''callback'')"
    by (cases r) (auto simp: demo_raises_def less_Suc_eq split: if_splits)
  with r(1) s show ?thesis by simp
qed

end
