(* ===== verification/TextFormat.thy ===== *)
theory TextFormat
  imports Domain Complex_Main
begin

text \<open>
  Decimal text, as \<^verbatim>\<open>std::ostream\<close> prints it, and the two formatting functions of
  \<^verbatim>\<open>src/domain/MarketDataEvent.cpp\<close>. \<^verbatim>\<open>formatPrice\<close> divides in \<^verbatim>\<open>long double\<close>, whose precision the
  language leaves open: the division is an argument here.
\<close>

section \<open>Decimal numbers\<close>

definition digit_char :: "nat \<Rightarrow> char" where
  "digit_char d = char_of (48 + d)"

text \<open>\<^verbatim>\<open>c - '0'\<close> with a signed eight-bit \<^verbatim>\<open>char\<close>.\<close>

definition char_digit :: "char \<Rightarrow> int" where
  "char_digit c = (let n = int (of_char c) in (if 128 \<le> n then n - 256 else n) - 48)"

definition is_digit :: "char \<Rightarrow> bool" where
  "is_digit c \<longleftrightarrow> 0 \<le> char_digit c \<and> char_digit c \<le> 9"

function dec_of_nat :: "nat \<Rightarrow> string" where
  "dec_of_nat n = (if n < 10 then [digit_char n] else dec_of_nat (n div 10) @ [digit_char (n mod 10)])"
  by auto
termination
  by (relation "measure id") auto

declare dec_of_nat.simps [simp del]

definition dec_of_int :: "int \<Rightarrow> string" where
  "dec_of_int n = (if n < 0 then CHR ''-'' # dec_of_nat (nat (- n)) else dec_of_nat (nat n))"

text \<open>Exactly \<open>k\<close> digits, with leading zeros.\<close>

fun dec_pad :: "nat \<Rightarrow> nat \<Rightarrow> string" where
  "dec_pad 0 n = []"
| "dec_pad (Suc k) n = dec_pad k (n div 10) @ [digit_char (n mod 10)]"

section \<open>MarketDataEvent.cpp: formatPrice and formatEventFields\<close>

text \<open>
  \<^verbatim>\<open>std::fixed << std::setprecision(9)\<close>: the value times \<open>10\<^sup>9\<close> rounded to the nearest integer, ties
  to even.
\<close>

definition round_half_even :: "rat \<Rightarrow> int" where
  "round_half_even r =
     (let f = floor r; d = r - of_int f
      in if d < 1 / 2 then f else if 1 / 2 < d then f + 1 else if even f then f else f + 1)"

definition fixed9 :: "rat \<Rightarrow> string" where
  "fixed9 r =
     (let m = nat (round_half_even (\<bar>r\<bar> * 1000000000))
      in (if r < 0 then ''-'' else []) @ dec_of_nat (m div 1000000000) @ ''.'' @ dec_pad 9 (m mod 1000000000))"

text \<open>\<open>ld_div x y\<close> is the \<^verbatim>\<open>long double\<close> quotient of two integers.\<close>

definition formatPrice :: "(int \<Rightarrow> int \<Rightarrow> rat) \<Rightarrow> price \<Rightarrow> string" where
  "formatPrice ld_div p =
     (if p = undefined_price then ''UNDEF'' else fixed9 (ld_div (val64 p) price_scale))"

definition formatEventFields :: "MarketDataEvent \<Rightarrow> string" where
  "formatEventFields e =
     ''timestamp='' @ dec_of_nat (unat (ev_timestamp e)) @
     '', order_id='' @ dec_of_nat (unat (ev_order_id e)) @
     '', side='' @ [toChar_Side (ev_side e)] @
     '', price='' @ dec_of_int (val64 (ev_price e)) @
     '', size='' @ dec_of_nat (unat (ev_size e)) @
     '', action='' @ [toChar_Action (ev_action e)]"

text \<open>The stream operator.\<close>

definition show_event :: "MarketDataEvent \<Rightarrow> string" where
  "show_event e =
     ''MarketDataEvent{'' @
     ''timestamp='' @ dec_of_nat (unat (ev_timestamp e)) @
     '', ts_recv='' @ dec_of_nat (unat (ev_ts_recv e)) @
     '', ts_event='' @ dec_of_nat (unat (ev_ts_event e)) @
     '', order_id='' @ dec_of_nat (unat (ev_order_id e)) @
     '', side='' @ [toChar_Side (ev_side e)] @
     '', price='' @ dec_of_int (val64 (ev_price e)) @
     '', size='' @ dec_of_nat (unat (ev_size e)) @
     '', action='' @ [toChar_Action (ev_action e)] @
     '', instrument_id='' @ dec_of_nat (unat (ev_instrument_id e)) @
     '', source_file_id='' @ dec_of_nat (unat (ev_source_file_id e)) @
     '', source_sequence='' @ dec_of_nat (unat (ev_source_sequence e)) @ ''}''"

section \<open>Digits\<close>

lemma char_digit_digit_char [simp]: "d < 10 \<Longrightarrow> char_digit (digit_char d) = int d"
  by (simp add: char_digit_def digit_char_def Let_def)

lemma is_digit_digit_char [simp]: "d < 10 \<Longrightarrow> is_digit (digit_char d)"
  by (simp add: is_digit_def)

lemma digit_char_neq [simp]:
  "d < 10 \<Longrightarrow> digit_char d \<noteq> CHR ''.''" "d < 10 \<Longrightarrow> digit_char d \<noteq> CHR ''-''" "d < 10 \<Longrightarrow> digit_char d \<noteq> CHR ''T''"
  by (auto dest: arg_cong [of _ _ char_digit] simp: char_digit_def [of "CHR ''.''"] char_digit_def [of "CHR ''-''"] char_digit_def [of "CHR ''T''"])

lemma dec_of_nat_digits: "list_all is_digit (dec_of_nat n)" "dec_of_nat n \<noteq> []"
proof -
  show "list_all is_digit (dec_of_nat n)"
    by (induction n rule: dec_of_nat.induct) (subst dec_of_nat.simps, auto)
  show "dec_of_nat n \<noteq> []" by (subst dec_of_nat.simps) auto
qed

lemma dec_pad_numeral:
  "dec_pad (numeral k) n = dec_pad (pred_numeral k) (n div 10) @ [digit_char (n mod 10)]"
  by (subst numeral_eq_Suc) (rule dec_pad.simps)

lemma length_dec_pad [simp]: "length (dec_pad k n) = k"
  by (induction k arbitrary: n) auto

text \<open>Reading digits from left to right, as every parser of the program does.\<close>

definition read_digits :: "int \<Rightarrow> string \<Rightarrow> int" where
  "read_digits = foldl (\<lambda>acc c. acc * 10 + char_digit c)"

lemma read_digits_simps [simp]:
  "read_digits a [] = a" "read_digits a (c # cs) = read_digits (a * 10 + char_digit c) cs"
  "read_digits a (xs @ ys) = read_digits (read_digits a xs) ys"
  by (simp_all add: read_digits_def)

lemma read_digits_dec_of_nat: "read_digits 0 (dec_of_nat n) = int n"
proof (induction n rule: dec_of_nat.induct)
  case (1 n)
  show ?case
  proof (cases "n < 10")
    case False
    with 1 show ?thesis by (subst dec_of_nat.simps) (simp add: zdiv_int zmod_int)
  qed (subst dec_of_nat.simps, simp)
qed

lemma read_digits_mono: "list_all is_digit ds \<Longrightarrow> 0 \<le> a \<Longrightarrow> a \<le> read_digits a ds"
proof (induction ds arbitrary: a)
  case (Cons c ds)
  then have "a * 10 + char_digit c \<le> read_digits (a * 10 + char_digit c) ds"
    by (intro Cons.IH) (auto simp: is_digit_def)
  with Cons.prems show ?case by (auto simp: is_digit_def)
qed simp

lemma read_digits_dec_pad: "n < 10 ^ k \<Longrightarrow> read_digits a (dec_pad k n) = a * 10 ^ k + int n"
proof (induction k arbitrary: n)
  case (Suc k)
  then have "n div 10 < 10 ^ k" by (simp add: less_mult_imp_div_less)
  with Suc.IH [of "n div 10"] show ?case by (simp add: algebra_simps zdiv_int zmod_int)
qed simp

end
