(* ===== verification/EventMerge.thy ===== *)
theory EventMerge
  imports Domain "HOL-Library.Product_Lexorder"
begin

text \<open>
  The k-way merge of \<^verbatim>\<open>src/runners/HardRunnerSupport.cpp\<close>: the heap of the merger thread and,
  as a reference for what the thread writes, the merge of complete streams. The C++ standard
  leaves open which of several equivalent elements \<^verbatim>\<open>std::priority_queue::top\<close> returns; the heap
  here returns the one that was pushed last. The runners never depend on it: the file index and
  the line number are part of the key that \<^verbatim>\<open>eventComesBefore\<close> compares.
\<close>

section \<open>The heap of the merger\<close>

record HeapNode =
  hn_event :: MarketDataEvent
  hn_input_index :: nat

definition HeapCompare :: "HeapNode \<Rightarrow> HeapNode \<Rightarrow> bool" where
  "HeapCompare lhs rhs \<longleftrightarrow> eventComesBefore (hn_event rhs) (hn_event lhs)"

text \<open>
  \<open>heap_split cmp xs\<close> splits a non-empty list into an element that no other one is above and
  the rest: \<^verbatim>\<open>top\<close> and \<^verbatim>\<open>pop\<close> in one.
\<close>

fun heap_split :: "('a \<Rightarrow> 'a \<Rightarrow> bool) \<Rightarrow> 'a list \<Rightarrow> ('a \<times> 'a list) option" where
  "heap_split cmp [] = None"
| "heap_split cmp (x # xs) =
     (case heap_split cmp xs of
        None \<Rightarrow> Some (x, [])
      | Some (t, r) \<Rightarrow> if cmp x t then Some (t, x # r) else Some (x, t # r))"

definition heap_push :: "HeapNode \<Rightarrow> HeapNode list \<Rightarrow> HeapNode list" where
  "heap_push n heap = n # heap"

definition heap_pop :: "HeapNode list \<Rightarrow> (HeapNode \<times> HeapNode list) option" where
  "heap_pop heap = heap_split HeapCompare heap"

section \<open>Merging complete streams\<close>

definition later_head :: "MarketDataEvent list \<Rightarrow> MarketDataEvent list \<Rightarrow> bool" where
  "later_head xs ys \<longleftrightarrow> eventComesBefore (hd ys) (hd xs)"

lemma heap_split_None [simp]: "heap_split cmp xs = None \<longleftrightarrow> xs = []"
  by (induction xs) (auto split: option.splits)

lemma heap_split_mset: "heap_split cmp xs = Some (t, r) \<Longrightarrow> mset xs = add_mset t (mset r)"
  by (induction xs arbitrary: t r) (auto split: option.splits if_splits)

lemma heap_split_in: "heap_split cmp xs = Some (t, r) \<Longrightarrow> t \<in> set xs \<and> set r \<subseteq> set xs"
  by (metis heap_split_mset set_mset_mset set_mset_add_mset_insert insertI1 subset_insertI)

lemma heap_split_map:
  "heap_split cmp (map f xs) = map_option (map_prod f (map f)) (heap_split (\<lambda>x y. cmp (f x) (f y)) xs)"
  by (induction xs) (auto split: option.splits)

lemma heap_split_cong:
  "(\<And>x y. x \<in> set xs \<Longrightarrow> y \<in> set xs \<Longrightarrow> p x y = q x y) \<Longrightarrow> heap_split p xs = heap_split q xs"
proof (induction xs)
  case (Cons x xs)
  then have "heap_split p xs = heap_split q xs" by simp
  then show ?case using Cons.prems by (auto split: option.splits dest: heap_split_in)
qed simp

lemma kmerge_measure:
  assumes "heap_split cmp (filter (\<lambda>l. l \<noteq> []) ls) = Some (t, r)"
  shows "length (concat (tl t # r)) < length (concat ls)"
proof -
  have "length (concat ls) = length (concat (filter (\<lambda>l. l \<noteq> []) ls))"
    by (induction ls) auto
  also have "\<dots> = length (concat (t # r))"
    using heap_split_mset [OF assms] by (simp add: length_concat sum_mset_sum_list [symmetric])
  finally show ?thesis
    using heap_split_in [OF assms] by (cases t) auto
qed

function kmerge :: "MarketDataEvent list list \<Rightarrow> MarketDataEvent list" where
  "kmerge ls =
     (case heap_split later_head (filter (\<lambda>l. l \<noteq> []) ls) of
        None \<Rightarrow> []
      | Some (t, r) \<Rightarrow> hd t # kmerge (tl t # r))"
  by auto

termination
  by (relation "measure (\<lambda>ls. length (concat ls))") (auto dest: kmerge_measure)

declare kmerge.simps [simp del]

lemma kmerge_Nil [simp]: "kmerge [] = []"
  by (simp add: kmerge.simps)

lemma heap_split_nonempty:
  assumes "heap_split cmp (filter (\<lambda>l. l \<noteq> []) ls) = Some (t, r)"
  shows "t \<noteq> []" and "[] \<notin> set r" and "mset (concat ls) = mset t + mset (concat r)"
proof -
  show "t \<noteq> []" "[] \<notin> set r" using heap_split_in [OF assms] by auto
  have "mset (concat ls) = mset (concat (filter (\<lambda>l. l \<noteq> []) ls))"
    by (induction ls) auto
  also have "\<dots> = mset (concat (t # r))"
    using heap_split_mset [OF assms] by (simp add: mset_concat sum_mset_sum_list [symmetric])
  finally show "mset (concat ls) = mset t + mset (concat r)" by simp
qed

lemma kmerge_mset: "mset (kmerge ls) = mset (concat ls)"
proof (induction ls rule: kmerge.induct)
  case (1 ls)
  show ?case
  proof (cases "heap_split later_head (filter (\<lambda>l. l \<noteq> []) ls)")
    case None
    then have "concat ls = []" by (auto simp: filter_empty_conv)
    with None show ?thesis by (simp add: kmerge.simps)
  next
    case (Some a)
    obtain t r where a: "a = (t, r)" by (cases a)
    with Some heap_split_nonempty [OF Some [unfolded a]] "1.IH" [OF Some a [symmetric]]
    show ?thesis by (cases t) (simp_all add: kmerge.simps [of ls])
  qed
qed

lemma later_head_iff: "later_head x y = eventComesBefore (hd y) (hd x)"
  by (simp add: later_head_def)

lemma heap_split_minimal:
  assumes "heap_split later_head xs = Some (t, r)" and "y \<in> set r"
  shows "\<not> eventComesBefore (hd y) (hd t)"
  using assms
proof (induction xs arbitrary: t r)
  case (Cons x xs)
  show ?case
  proof (cases "heap_split later_head xs")
    case (Some a)
    obtain t' r' where a: "a = (t', r')" by (cases a)
    note IH = Cons.IH [OF Some [unfolded a]]
    from a Some Cons.prems(1) consider
      "t = t'" "r = x # r'" "later_head x t'" | "t = x" "r = t' # r'" "\<not> later_head x t'"
      by (auto split: if_splits)
    then show ?thesis
    proof cases
      case 1
      with IH Cons.prems(2) show ?thesis
        by (auto simp: later_head_iff dest: eventComesBefore_asym)
    next
      case 2
      with IH Cons.prems(2) show ?thesis
        by (auto simp: later_head_iff dest: not_eventComesBefore_trans)
    qed
  qed (use Cons.prems in auto)
qed simp

abbreviation chronological :: "MarketDataEvent list \<Rightarrow> bool" where
  "chronological \<equiv> sorted_wrt (\<lambda>a b. \<not> eventComesBefore b a)"

lemma kmerge_chronological:
  "(\<And>l. l \<in> set ls \<Longrightarrow> chronological l) \<Longrightarrow> chronological (kmerge ls)"
proof (induction ls rule: kmerge.induct)
  case (1 ls)
  show ?case
  proof (cases "heap_split later_head (filter (\<lambda>l. l \<noteq> []) ls)")
    case None
    then show ?thesis by (simp add: kmerge.simps)
  next
    case (Some a)
    obtain t r where a: "a = (t, r)" by (cases a)
    note split = Some [unfolded a]
    have tr: "t \<in> set ls" "set r \<subseteq> set ls" "t \<noteq> []" "[] \<notin> set r"
      using heap_split_in [OF split] heap_split_nonempty(1,2) [OF split] by auto
    from \<open>t \<noteq> []\<close> obtain x xs where t: "t = x # xs" by (cases t) auto
    have sorted: "\<And>l. l \<in> set (t # r) \<Longrightarrow> chronological l" using "1.prems" tr by auto
    have "chronological (kmerge (tl t # r))"
    proof (rule "1.IH" [OF Some a [symmetric]])
      fix l assume "l \<in> set (tl t # r)"
      with sorted [of t] sorted [of l] t show "chronological l" by auto
    qed
    moreover have "\<not> eventComesBefore e x" if "e \<in> set (kmerge (tl t # r))" for e
    proof -
      from that have "e \<in> set (concat (tl t # r))"
        by (metis kmerge_mset set_mset_mset)
      then consider "e \<in> set xs" | l where "l \<in> set r" "e \<in> set l" using t by auto
      then show ?thesis
      proof cases
        case 1
        with sorted [of t] t show ?thesis by simp
      next
        case (2 l)
        with tr(4) obtain y ys where l: "l = y # ys" by (cases l) auto
        with 2 sorted [of l] have "e = y \<or> \<not> eventComesBefore e y" by auto
        moreover have "\<not> eventComesBefore y x"
          using heap_split_minimal [OF split \<open>l \<in> set r\<close>] t l by simp
        ultimately show ?thesis using not_eventComesBefore_trans by blast
      qed
    qed
    ultimately show ?thesis using split t by (simp add: kmerge.simps [of ls])
  qed
qed

section \<open>The merge as a sort\<close>

lemma eventComesBefore_key: "eventComesBefore a b \<longleftrightarrow> event_key a < event_key b"
  by (auto simp: eventComesBefore_def less_prod_def)

lemma chronological_sorted: "chronological es \<longleftrightarrow> sorted (map event_key es)"
  unfolding sorted_map eventComesBefore_key linorder_not_less ..

lemma filter_distinct_key:
  "distinct (map f zs) \<Longrightarrow> k \<in> set zs \<Longrightarrow> filter (\<lambda>x. f k = f x) zs = [k]"
proof (induction zs)
  case (Cons z zs)
  show ?case
  proof (cases "k = z")
    case True
    with Cons.prems have "filter (\<lambda>x. f k = f x) zs = []"
      by (fastforce simp: filter_empty_conv image_iff)
    with True show ?thesis by simp
  next
    case False
    with Cons.prems have "k \<in> set zs" by auto
    moreover from this Cons.prems have "f k \<noteq> f z" by (metis distinct.simps(2) imageI list.set_map list.simps(9))
    ultimately show ?thesis using Cons by simp
  qed
qed simp

lemma sorted_distinct_keys_unique:
  fixes f :: "'a \<Rightarrow> 'b :: linorder"
  assumes "sorted (map f ys)" and "mset ys = mset xs" and "distinct (map f xs)"
  shows "ys = sort_key f xs"
proof (rule properties_for_sort_key [symmetric])
  show "mset ys = mset xs" by fact
  show "sorted (map f ys)" by fact
  fix k assume k: "k \<in> set ys"
  have "distinct (map f ys)"
    using assms(2,3) by (metis mset_map mset_eq_imp_distinct_iff)
  moreover have "k \<in> set xs" using k assms(2) by (metis set_mset_mset)
  ultimately show "filter (\<lambda>x. f k = f x) ys = filter (\<lambda>x. f k = f x) xs"
    using k assms(3) by (simp add: filter_distinct_key)
qed

lemma kmerge_sorts:
  assumes "\<And>l. l \<in> set ls \<Longrightarrow> chronological l" and "distinct (map event_key (concat ls))"
  shows "kmerge ls = sort_key event_key (concat ls)"
proof (rule sorted_distinct_keys_unique)
  show "sorted (map event_key (kmerge ls))"
    using assms(1) chronological_sorted kmerge_chronological by blast
qed (fact kmerge_mset assms(2))+

end
