(* ===== verification/MergeNetwork.thy ===== *)
theory MergeNetwork
  imports EventMerge NonBlockingQueue
begin

text \<open>
  The threads of the merging runners: the producers of \<^verbatim>\<open>startProducerThreads\<close>, the mergers that
  run \<^verbatim>\<open>mergeInputQueues\<close> and the dispatcher of \<^verbatim>\<open>dispatchMergedQueue\<close>
  (\<^verbatim>\<open>src/runners/HardRunnerSupport.cpp\<close>), connected by the single-producer single-consumer queues of
  theory \<open>NonBlockingQueue\<close>. A thread is a program counter with its local variables; it asks for
  one queue operation at a time (\<open>request\<close>) and goes on with its result. A schedule is any sequence
  of thread numbers, so every interleaving of the queue operations is covered. A \<^verbatim>\<open>pop\<close> on a
  queue with nothing published is an attempt that leaves the thread where it is.
\<close>

section \<open>QueueItem.hpp and RunResult.hpp\<close>

record QueueItem =
  qi_end_of_stream :: bool
  qi_event :: MarketDataEvent

definition QueueItem_data :: "MarketDataEvent \<Rightarrow> QueueItem" where
  "QueueItem_data e = \<lparr>qi_end_of_stream = False, qi_event = e\<rparr>"

definition QueueItem_end :: QueueItem where
  "QueueItem_end = \<lparr>qi_end_of_stream = True, qi_event = default_event\<rparr>"

type_synonym EventQueue = "QueueItem NonBlockingQueue"

definition event_queue_batch_size :: u64 where
  "event_queue_batch_size = 256"

definition makeEventQueue :: "exn + EventQueue" where
  "makeEventQueue = NBQ_new event_queue_batch_size"

record ParseDiagnostics =
  pd_total_lines_read :: u64

definition ParseDiagnostics_add :: "ParseDiagnostics \<Rightarrow> ParseDiagnostics \<Rightarrow> ParseDiagnostics" where
  "ParseDiagnostics_add d other =
     d\<lparr>pd_total_lines_read := pd_total_lines_read d + pd_total_lines_read other\<rparr>"

record ProcessingSummary =
  ps_total_messages_processed :: u64
  ps_chronological_violations :: u64
  ps_first_timestamp :: "raw_timestamp option"
  ps_last_timestamp :: "raw_timestamp option"
  ps_previous_event :: "MarketDataEvent option"
  ps_first_events :: "MarketDataEvent list"
  ps_last_events :: "MarketDataEvent list"

definition ProcessingSummary_new :: ProcessingSummary where
  "ProcessingSummary_new =
     \<lparr>ps_total_messages_processed = 0, ps_chronological_violations = 0, ps_first_timestamp = None,
      ps_last_timestamp = None, ps_previous_event = None, ps_first_events = [], ps_last_events = []\<rparr>"

definition ProcessingSummary_observe :: "ProcessingSummary \<Rightarrow> MarketDataEvent \<Rightarrow> ProcessingSummary" where
  "ProcessingSummary_observe s e =
     (let violation = (case ps_previous_event s of None \<Rightarrow> False | Some p \<Rightarrow> eventComesBefore e p);
          first = ps_first_events s;
          kept = (if length (ps_last_events s) = 10 then tl (ps_last_events s) else ps_last_events s)
      in s\<lparr>ps_chronological_violations := ps_chronological_violations s + (if violation then 1 else 0),
           ps_previous_event := Some e,
           ps_first_timestamp :=
             (case ps_first_timestamp s of None \<Rightarrow> Some (ev_timestamp e) | Some t \<Rightarrow> Some t),
           ps_last_timestamp := Some (ev_timestamp e),
           ps_first_events := (if length first < 10 then first @ [e] else first),
           ps_last_events := kept @ [e],
           ps_total_messages_processed := ps_total_messages_processed s + 1\<rparr>)"

section \<open>Threads\<close>

text \<open>What a thread does next: one queue operation, nothing more, or an exception that escapes it.\<close>

datatype request = RPop nat | RPush nat QueueItem | RFlush nat | RHalt | RThrow exn

subsection \<open>The producer of one input file\<close>

text \<open>
  \<^verbatim>\<open>parseMarketDataEventLine\<close> is an argument here (theory \<open>JsonParser\<close> models it): line, line
  number, source file id, source sequence.
\<close>

type_synonym 'l line_parser = "'l \<Rightarrow> u64 \<Rightarrow> u32 \<Rightarrow> u64 \<Rightarrow> exn + MarketDataEvent"

datatype producer_pc = PReading | PFlushing | PReturned

record 'l producer =
  pr_index :: nat
  pr_lines :: "'l list"
  pr_line_number :: u64
  pr_diagnostics :: ParseDiagnostics
  pr_queue :: nat
  pr_pc :: producer_pc

definition producer_new :: "nat \<Rightarrow> 'l list \<Rightarrow> nat \<Rightarrow> 'l producer" where
  "producer_new index lines queue =
     \<lparr>pr_index = index, pr_lines = lines, pr_line_number = 0,
      pr_diagnostics = \<lparr>pd_total_lines_read = 0\<rparr>, pr_queue = queue, pr_pc = PReading\<rparr>"

definition producer_request :: "'l line_parser \<Rightarrow> 'l producer \<Rightarrow> request" where
  "producer_request parse p =
     (case pr_pc p of
        PReading \<Rightarrow>
          (case pr_lines p of
             [] \<Rightarrow> RPush (pr_queue p) QueueItem_end
           | line # _ \<Rightarrow>
               (let line_number = pr_line_number p + 1
                in case parse line line_number (of_nat (pr_index p)) line_number of
                     Inl x \<Rightarrow> RThrow x
                   | Inr e \<Rightarrow> RPush (pr_queue p) (QueueItem_data e)))
      | PFlushing \<Rightarrow> RFlush (pr_queue p)
      | PReturned \<Rightarrow> RHalt)"

definition producer_written :: "'l producer \<Rightarrow> 'l producer" where
  "producer_written p =
     (case pr_pc p of
        PReading \<Rightarrow>
          (case pr_lines p of
             [] \<Rightarrow> p\<lparr>pr_pc := PFlushing\<rparr>
           | _ # lines \<Rightarrow>
               p\<lparr>pr_lines := lines, pr_line_number := pr_line_number p + 1,
                 pr_diagnostics := (pr_diagnostics p)\<lparr>pd_total_lines_read :=
                    pd_total_lines_read (pr_diagnostics p) + 1\<rparr>\<rparr>)
      | PFlushing \<Rightarrow> p\<lparr>pr_pc := PReturned\<rparr>
      | PReturned \<Rightarrow> p)"

subsection \<open>The merger\<close>

text \<open>
  \<open>MPriming i\<close>: in the first loop, about to pop input \<open>i\<close>. \<open>MLooping\<close>: at the test of the second
  loop. \<open>MReplacing i\<close>: the top is written, its replacement comes from input \<open>i\<close>.
\<close>

datatype merger_pc = MPriming nat | MLooping | MReplacing nat | MFlushing | MReturned

record merger =
  mg_inputs :: "nat list"
  mg_output :: nat
  mg_heap :: "HeapNode list"
  mg_pc :: merger_pc

definition merger_new :: "nat list \<Rightarrow> nat \<Rightarrow> merger" where
  "merger_new inputs output =
     \<lparr>mg_inputs = inputs, mg_output = output, mg_heap = [],
      mg_pc = (if inputs = [] then MLooping else MPriming 0)\<rparr>"

definition merger_request :: "merger \<Rightarrow> request" where
  "merger_request m =
     (case mg_pc m of
        MPriming i \<Rightarrow> RPop (mg_inputs m ! i)
      | MLooping \<Rightarrow>
          (case heap_pop (mg_heap m) of
             None \<Rightarrow> RPush (mg_output m) QueueItem_end
           | Some (node, _) \<Rightarrow> RPush (mg_output m) (QueueItem_data (hn_event node)))
      | MReplacing i \<Rightarrow> RPop (mg_inputs m ! i)
      | MFlushing \<Rightarrow> RFlush (mg_output m)
      | MReturned \<Rightarrow> RHalt)"

definition merger_insert :: "QueueItem \<Rightarrow> nat \<Rightarrow> HeapNode list \<Rightarrow> HeapNode list" where
  "merger_insert item i heap =
     (if qi_end_of_stream item then heap
      else heap_push \<lparr>hn_event = qi_event item, hn_input_index = i\<rparr> heap)"

definition merger_popped :: "QueueItem \<Rightarrow> merger \<Rightarrow> merger" where
  "merger_popped item m =
     (case mg_pc m of
        MPriming i \<Rightarrow>
          m\<lparr>mg_heap := merger_insert item i (mg_heap m),
            mg_pc := (if i + 1 < length (mg_inputs m) then MPriming (i + 1) else MLooping)\<rparr>
      | MReplacing i \<Rightarrow> m\<lparr>mg_heap := merger_insert item i (mg_heap m), mg_pc := MLooping\<rparr>
      | _ \<Rightarrow> m)"

definition merger_written :: "merger \<Rightarrow> merger" where
  "merger_written m =
     (case mg_pc m of
        MLooping \<Rightarrow>
          (case heap_pop (mg_heap m) of
             None \<Rightarrow> m\<lparr>mg_pc := MFlushing\<rparr>
           | Some (node, rest) \<Rightarrow> m\<lparr>mg_heap := rest, mg_pc := MReplacing (hn_input_index node)\<rparr>)
      | MFlushing \<Rightarrow> m\<lparr>mg_pc := MReturned\<rparr>
      | _ \<Rightarrow> m)"

subsection \<open>The dispatcher\<close>

text \<open>
  \<^verbatim>\<open>IMarketDataEventProcessor\<close> is a state with a step \<open>process\<close>; the processors of theory
  \<open>EventProcessors\<close> are its instances.
\<close>

record 'p dispatcher =
  ds_input :: nat
  ds_processor :: 'p
  ds_summary :: ProcessingSummary
  ds_returned :: bool

definition dispatcher_new :: "nat \<Rightarrow> 'p \<Rightarrow> 'p dispatcher" where
  "dispatcher_new input processor =
     \<lparr>ds_input = input, ds_processor = processor, ds_summary = ProcessingSummary_new,
      ds_returned = False\<rparr>"

definition dispatcher_request :: "'p dispatcher \<Rightarrow> request" where
  "dispatcher_request d = (if ds_returned d then RHalt else RPop (ds_input d))"

definition dispatcher_popped ::
  "('p \<Rightarrow> MarketDataEvent \<Rightarrow> 'p) \<Rightarrow> QueueItem \<Rightarrow> 'p dispatcher \<Rightarrow> 'p dispatcher" where
  "dispatcher_popped process item d =
     (if qi_end_of_stream item then d\<lparr>ds_returned := True\<rparr>
      else d\<lparr>ds_processor := process (ds_processor d) (qi_event item),
             ds_summary := ProcessingSummary_observe (ds_summary d) (qi_event item)\<rparr>)"

section \<open>The network\<close>

datatype ('l, 'p) thread = Producer "'l producer" | Merger merger | Dispatcher "'p dispatcher"

fun thread_request :: "'l line_parser \<Rightarrow> ('l, 'p) thread \<Rightarrow> request" where
  "thread_request parse (Producer p) = producer_request parse p"
| "thread_request parse (Merger m) = merger_request m"
| "thread_request parse (Dispatcher d) = dispatcher_request d"

fun thread_popped :: "('p \<Rightarrow> MarketDataEvent \<Rightarrow> 'p) \<Rightarrow> QueueItem \<Rightarrow> ('l, 'p) thread \<Rightarrow> ('l, 'p) thread" where
  "thread_popped process item (Producer p) = Producer p"
| "thread_popped process item (Merger m) = Merger (merger_popped item m)"
| "thread_popped process item (Dispatcher d) = Dispatcher (dispatcher_popped process item d)"

fun thread_written :: "('l, 'p) thread \<Rightarrow> ('l, 'p) thread" where
  "thread_written (Producer p) = Producer (producer_written p)"
| "thread_written (Merger m) = Merger (merger_written m)"
| "thread_written (Dispatcher d) = Dispatcher d"

record ('l, 'p) merge_net =
  mn_queues :: "EventQueue list"
  mn_threads :: "('l, 'p) thread list"

text \<open>
  Thread \<open>k\<close> performs its next queue operation. \<open>None\<close>: an exception leaves a thread (which ends
  the process), or a queue operation faults.
\<close>

definition net_step ::
  "'l line_parser \<Rightarrow> ('p \<Rightarrow> MarketDataEvent \<Rightarrow> 'p) \<Rightarrow> ('l, 'p) merge_net \<Rightarrow> nat \<Rightarrow> ('l, 'p) merge_net option" where
  "net_step parse process net k =
     (if length (mn_threads net) \<le> k then Some net
      else let qs = mn_queues net; ts = mn_threads net; t = ts ! k
      in case thread_request parse t of
           RHalt \<Rightarrow> Some net
         | RThrow _ \<Rightarrow> None
         | RPop i \<Rightarrow>
             (if length qs \<le> i then None
              else Option.bind (NBQ_pop (qs ! i)) (\<lambda>(r, q).
                Some (case r of
                        None \<Rightarrow> net\<lparr>mn_queues := qs[i := q]\<rparr>
                      | Some item \<Rightarrow>
                          net\<lparr>mn_queues := qs[i := q],
                              mn_threads := ts[k := thread_popped process item t]\<rparr>)))
         | RPush i item \<Rightarrow>
             (if length qs \<le> i then None
              else map_option
                     (\<lambda>q. net\<lparr>mn_queues := qs[i := q], mn_threads := ts[k := thread_written t]\<rparr>)
                     (NBQ_push item (qs ! i)))
         | RFlush i \<Rightarrow>
             (if length qs \<le> i then None
              else map_option
                     (\<lambda>q. net\<lparr>mn_queues := qs[i := q], mn_threads := ts[k := thread_written t]\<rparr>)
                     (NBQ_flush (qs ! i))))"

fun net_run ::
  "'l line_parser \<Rightarrow> ('p \<Rightarrow> MarketDataEvent \<Rightarrow> 'p) \<Rightarrow> ('l, 'p) merge_net \<Rightarrow> nat list \<Rightarrow> ('l, 'p) merge_net option" where
  "net_run parse process net [] = Some net"
| "net_run parse process net (k # ks) =
     Option.bind (net_step parse process net k) (\<lambda>net'. net_run parse process net' ks)"

definition net_finished :: "'l line_parser \<Rightarrow> ('l, 'p) merge_net \<Rightarrow> bool" where
  "net_finished parse net \<longleftrightarrow> list_all (\<lambda>t. thread_request parse t = RHalt) (mn_threads net)"

section \<open>What a thread will still write\<close>

text \<open>
  \<open>R i\<close> is everything the consumer of queue \<open>i\<close> will still receive. The streams end with the end
  marker; \<open>future R t\<close> is what thread \<open>t\<close> will push if it receives \<open>R i\<close> from each of its inputs.
\<close>

definition stream :: "MarketDataEvent list \<Rightarrow> QueueItem list" where
  "stream es = map QueueItem_data es @ [QueueItem_end]"

definition is_stream :: "QueueItem list \<Rightarrow> bool" where
  "is_stream xs \<longleftrightarrow> (\<exists>es. xs = stream es)"

fun events_of :: "QueueItem list \<Rightarrow> MarketDataEvent list" where
  "events_of [] = []"
| "events_of (x # xs) = (if qi_end_of_stream x then [] else qi_event x # events_of xs)"

lemma item_simps [simp]:
  "qi_end_of_stream QueueItem_end" "\<not> qi_end_of_stream (QueueItem_data e)"
  "qi_event (QueueItem_data e) = e"
  by (simp_all add: QueueItem_end_def QueueItem_data_def)

lemma stream_simps: "stream [] = [QueueItem_end]" "stream (e # es) = QueueItem_data e # stream es"
  by (simp_all add: stream_def)

lemma events_of_stream [simp]: "events_of (stream es) = es"
  unfolding stream_def by (induction es) auto

lemma is_stream_stream [simp]: "is_stream (stream es)"
  by (auto simp: is_stream_def)

lemma is_stream_cases:
  assumes "is_stream xs"
  obtains "xs = [QueueItem_end]" | e ys where "xs = QueueItem_data e # ys" "is_stream ys"
proof -
  from assms obtain es where es: "xs = stream es" by (auto simp: is_stream_def)
  show thesis
  proof (cases es)
    case Nil
    with es that(1) show thesis by (simp add: stream_simps)
  next
    case (Cons e es')
    with es that(2) [of e "stream es'"] show thesis by (simp add: stream_simps)
  qed
qed

text \<open>The events of a file, numbered as the producer numbers them.\<close>

fun parse_lines :: "'l line_parser \<Rightarrow> u32 \<Rightarrow> u64 \<Rightarrow> 'l list \<Rightarrow> exn + MarketDataEvent list" where
  "parse_lines parse file n [] = Inr []"
| "parse_lines parse file n (line # lines) =
     (case parse line (n + 1) file (n + 1) of
        Inl x \<Rightarrow> Inl x
      | Inr e \<Rightarrow>
          (case parse_lines parse file (n + 1) lines of
             Inl x \<Rightarrow> Inl x
           | Inr es \<Rightarrow> Inr (e # es)))"

definition producer_left :: "'l line_parser \<Rightarrow> 'l producer \<Rightarrow> exn + MarketDataEvent list" where
  "producer_left parse p = parse_lines parse (of_nat (pr_index p)) (pr_line_number p) (pr_lines p)"

definition producer_future :: "'l line_parser \<Rightarrow> 'l producer \<Rightarrow> QueueItem list" where
  "producer_future parse p =
     (case pr_pc p of
        PReading \<Rightarrow> (case producer_left parse p of Inl _ \<Rightarrow> [] | Inr es \<Rightarrow> stream es)
      | _ \<Rightarrow> [])"

definition producer_valid :: "'l line_parser \<Rightarrow> 'l producer \<Rightarrow> bool" where
  "producer_valid parse p \<longleftrightarrow> (pr_pc p = PReading \<longrightarrow> (\<exists>es. producer_left parse p = Inr es))"

definition heap_lists :: "(nat \<Rightarrow> QueueItem list) \<Rightarrow> nat list \<Rightarrow> HeapNode list \<Rightarrow> MarketDataEvent list list" where
  "heap_lists R inputs heap = map (\<lambda>n. hn_event n # events_of (R (inputs ! hn_input_index n))) heap"

definition merger_left :: "(nat \<Rightarrow> QueueItem list) \<Rightarrow> merger \<Rightarrow> MarketDataEvent list list" where
  "merger_left R m =
     (case mg_pc m of
        MPriming i \<Rightarrow> rev (map (\<lambda>q. events_of (R q)) (drop i (mg_inputs m)))
      | MReplacing i \<Rightarrow> [events_of (R (mg_inputs m ! i))]
      | _ \<Rightarrow> []) @ heap_lists R (mg_inputs m) (mg_heap m)"

definition merger_future :: "(nat \<Rightarrow> QueueItem list) \<Rightarrow> merger \<Rightarrow> QueueItem list" where
  "merger_future R m =
     (if mg_pc m = MFlushing \<or> mg_pc m = MReturned then [] else stream (kmerge (merger_left R m)))"

text \<open>The inputs whose end marker has not been received yet.\<close>

definition merger_open :: "merger \<Rightarrow> nat set" where
  "merger_open m =
     hn_input_index ` set (mg_heap m) \<union>
     (case mg_pc m of MPriming i \<Rightarrow> {i..<length (mg_inputs m)} | MReplacing i \<Rightarrow> {i} | _ \<Rightarrow> {})"

definition merger_valid :: "(nat \<Rightarrow> QueueItem list) \<Rightarrow> merger \<Rightarrow> bool" where
  "merger_valid R m \<longleftrightarrow>
     distinct (mg_inputs m) \<and> distinct (map hn_input_index (mg_heap m)) \<and>
     (\<forall>j \<in> merger_open m. j < length (mg_inputs m) \<and> is_stream (R (mg_inputs m ! j))) \<and>
     (case mg_pc m of
        MPriming i \<Rightarrow> i < length (mg_inputs m) \<and> (\<forall>n \<in> set (mg_heap m). hn_input_index n < i)
      | MReplacing i \<Rightarrow> i \<notin> hn_input_index ` set (mg_heap m)
      | _ \<Rightarrow> True)"

lemma kmerge_filter:
  assumes "filter (\<lambda>l. l \<noteq> []) ls = filter (\<lambda>l. l \<noteq> []) ls'"
  shows "kmerge ls = kmerge ls'"
  using assms by (simp add: kmerge.simps [of ls] kmerge.simps [of ls'])

lemma heap_pop_lists:
  "heap_split later_head (heap_lists R inputs heap) =
     map_option (\<lambda>(n, r). (hn_event n # events_of (R (inputs ! hn_input_index n)), heap_lists R inputs r))
       (heap_pop heap)"
proof -
  have "heap_pop heap = heap_split (\<lambda>x y. later_head (hn_event x # events_of (R (inputs ! hn_input_index x)))
     (hn_event y # events_of (R (inputs ! hn_input_index y)))) heap"
    unfolding heap_pop_def by (rule heap_split_cong) (simp add: later_head_def HeapCompare_def)
  then show ?thesis
    unfolding heap_lists_def heap_split_map by (auto simp: map_option_case split: option.splits)
qed

lemma kmerge_heap:
  "kmerge (heap_lists R inputs heap) =
     (case heap_pop heap of
        None \<Rightarrow> []
      | Some (n, r) \<Rightarrow> hn_event n # kmerge (events_of (R (inputs ! hn_input_index n)) # heap_lists R inputs r))"
proof -
  have "filter (\<lambda>l. l \<noteq> []) (heap_lists R inputs heap) = heap_lists R inputs heap"
    by (auto simp: heap_lists_def filter_id_conv)
  then show ?thesis
    by (simp add: kmerge.simps [of "heap_lists R inputs heap"] heap_pop_lists split: option.splits)
qed

lemma heap_lists_other:
  assumes "distinct inputs" and "i < length inputs" and "i \<notin> hn_input_index ` set heap"
    and "\<And>n. n \<in> set heap \<Longrightarrow> hn_input_index n < length inputs"
  shows "heap_lists (R(inputs ! i := ys)) inputs heap = heap_lists R inputs heap"
  using assms by (auto simp: heap_lists_def nth_eq_iff_index_eq image_iff)

section \<open>The laws of the three kinds of thread\<close>

fun thread_ins :: "('l, 'p) thread \<Rightarrow> nat list" where
  "thread_ins (Producer p) = []"
| "thread_ins (Merger m) = mg_inputs m"
| "thread_ins (Dispatcher d) = [ds_input d]"

fun thread_out :: "('l, 'p) thread \<Rightarrow> nat option" where
  "thread_out (Producer p) = Some (pr_queue p)"
| "thread_out (Merger m) = Some (mg_output m)"
| "thread_out (Dispatcher d) = None"

fun thread_future :: "'l line_parser \<Rightarrow> (nat \<Rightarrow> QueueItem list) \<Rightarrow> ('l, 'p) thread \<Rightarrow> QueueItem list" where
  "thread_future parse R (Producer p) = producer_future parse p"
| "thread_future parse R (Merger m) = merger_future R m"
| "thread_future parse R (Dispatcher d) = []"

fun thread_valid :: "'l line_parser \<Rightarrow> (nat \<Rightarrow> QueueItem list) \<Rightarrow> ('l, 'p) thread \<Rightarrow> bool" where
  "thread_valid parse R (Producer p) = producer_valid parse p"
| "thread_valid parse R (Merger m) = merger_valid R m"
| "thread_valid parse R (Dispatcher d) = (ds_returned d \<or> is_stream (R (ds_input d)))"

text \<open>The processor and the summary a dispatcher ends with.\<close>

definition dispatched ::
  "('p \<Rightarrow> MarketDataEvent \<Rightarrow> 'p) \<Rightarrow> 'p \<times> ProcessingSummary \<Rightarrow> MarketDataEvent list \<Rightarrow> 'p \<times> ProcessingSummary" where
  "dispatched process ps es =
     (foldl process (fst ps) es, foldl ProcessingSummary_observe (snd ps) es)"

fun thread_goal ::
  "('p \<Rightarrow> MarketDataEvent \<Rightarrow> 'p) \<Rightarrow> (nat \<Rightarrow> QueueItem list) \<Rightarrow> ('l, 'p) thread \<Rightarrow> 'p \<times> ProcessingSummary \<Rightarrow> bool" where
  "thread_goal process R (Dispatcher d) goal \<longleftrightarrow>
     dispatched process (ds_processor d, ds_summary d)
       (if ds_returned d then [] else events_of (R (ds_input d))) = goal"
| "thread_goal process R _ goal \<longleftrightarrow> True"

fun thread_rank :: "('l, 'p) thread \<Rightarrow> nat" where
  "thread_rank (Producer p) =
     (case pr_pc p of PReading \<Rightarrow> length (pr_lines p) + 2 | PFlushing \<Rightarrow> 1 | PReturned \<Rightarrow> 0)"
| "thread_rank (Merger m) =
     (case mg_pc m of MPriming _ \<Rightarrow> 3 | MLooping \<Rightarrow> 2 | MReplacing _ \<Rightarrow> 1 | MFlushing \<Rightarrow> 1 | MReturned \<Rightarrow> 0)"
| "thread_rank (Dispatcher d) = 0"

lemma merger_insert_lists:
  assumes m: "distinct inputs" "i < length inputs" "i \<notin> hn_input_index ` set heap"
      "\<And>n. n \<in> set heap \<Longrightarrow> hn_input_index n < length inputs"
    and R: "is_stream (R (inputs ! i))" "R (inputs ! i) = x # xs"
  shows "filter (\<lambda>l. l \<noteq> []) (heap_lists (R(inputs ! i := xs)) inputs (merger_insert x i heap)) =
         filter (\<lambda>l. l \<noteq> []) (events_of (R (inputs ! i)) # heap_lists R inputs heap)"
  using R(1) heap_lists_other [OF m, of R xs]
proof (cases rule: is_stream_cases)
  case 1
  then show ?thesis using R heap_lists_other [OF m, of R xs] by (simp add: merger_insert_def)
next
  case (2 e ys)
  then show ?thesis using R heap_lists_other [OF m, of R xs]
    by (simp add: merger_insert_def heap_push_def heap_lists_def)
qed

lemma merger_insert_indices:
  "hn_input_index ` set (merger_insert x i heap) =
     (if qi_end_of_stream x then {} else {i}) \<union> hn_input_index ` set heap"
  by (simp add: merger_insert_def heap_push_def)

lemma merger_insert_distinct:
  "distinct (map hn_input_index heap) \<Longrightarrow> i \<notin> hn_input_index ` set heap \<Longrightarrow>
   distinct (map hn_input_index (merger_insert x i heap))"
  by (simp add: merger_insert_def heap_push_def)

lemma is_stream_tl: "is_stream (x # xs) \<Longrightarrow> \<not> qi_end_of_stream x \<Longrightarrow> is_stream xs"
  by (erule is_stream_cases) auto

lemma is_stream_nonempty: "is_stream xs \<Longrightarrow> \<exists>y ys. xs = y # ys"
  by (erule is_stream_cases) auto

text \<open>A pop: in both loops the input is open, and the new node takes the place of its stream.\<close>

lemma merger_request_pop:
  assumes "merger_request m = RPop q"
  obtains i where "mg_pc m = MPriming i \<or> mg_pc m = MReplacing i" "q = mg_inputs m ! i"
  using assms by (auto simp: merger_request_def split: merger_pc.splits option.splits)

lemma merger_pop_open:
  assumes "merger_valid R m" and "mg_pc m = MPriming i \<or> mg_pc m = MReplacing i"
  shows "i < length (mg_inputs m)" and "i \<notin> hn_input_index ` set (mg_heap m)"
    and "is_stream (R (mg_inputs m ! i))"
    and "\<And>n. n \<in> set (mg_heap m) \<Longrightarrow> hn_input_index n < length (mg_inputs m)"
  using assms by (auto simp: merger_valid_def merger_open_def)

lemma filter_rev_cong:
  "filter P xs = filter P ys \<Longrightarrow> filter P (zs @ xs) = filter P (zs @ ys)"
  by simp

lemma merger_popped_eq:
  "mg_pc m = MPriming i \<Longrightarrow> merger_popped x m = m\<lparr>mg_heap := merger_insert x i (mg_heap m),
     mg_pc := (if i + 1 < length (mg_inputs m) then MPriming (i + 1) else MLooping)\<rparr>"
  "mg_pc m = MReplacing i \<Longrightarrow>
     merger_popped x m = m\<lparr>mg_heap := merger_insert x i (mg_heap m), mg_pc := MLooping\<rparr>"
  by (simp_all add: merger_popped_def)

lemma merger_popped_frame:
  assumes "mg_pc m = MPriming i \<or> mg_pc m = MReplacing i"
  shows "mg_inputs (merger_popped x m) = mg_inputs m" "mg_output (merger_popped x m) = mg_output m"
    "mg_heap (merger_popped x m) = merger_insert x i (mg_heap m)"
    "merger_request (merger_popped x m) \<noteq> RHalt"
    "thread_rank (Merger (merger_popped x m)) < thread_rank (Merger m) + 3"
  using assms by (auto simp: merger_popped_eq merger_request_def split: option.splits if_splits)

lemma merger_popped_open:
  assumes v: "merger_valid R m" and pc: "mg_pc m = MPriming i \<or> mg_pc m = MReplacing i"
  shows "merger_open (merger_popped x m) \<subseteq>
      (if qi_end_of_stream x then merger_open m - {i} else merger_open m)"
  using pc
proof
  assume "mg_pc m = MPriming i"
  then show ?thesis using v
    by (auto simp: merger_open_def merger_popped_eq merger_insert_indices merger_valid_def)
next
  assume "mg_pc m = MReplacing i"
  then show ?thesis using v
    by (auto simp: merger_open_def merger_popped_eq merger_insert_indices merger_valid_def)
qed

lemma merger_popped_pc:
  assumes v: "merger_valid R m" and pc: "mg_pc m = MPriming i \<or> mg_pc m = MReplacing i"
  shows "case mg_pc (merger_popped x m) of
        MPriming k \<Rightarrow> k < length (mg_inputs m) \<and> (\<forall>n \<in> set (merger_insert x i (mg_heap m)). hn_input_index n < k)
      | MReplacing k \<Rightarrow> k \<notin> hn_input_index ` set (merger_insert x i (mg_heap m))
      | _ \<Rightarrow> True"
  using pc
proof
  assume "mg_pc m = MPriming i"
  then show ?thesis using v
    by (auto simp: merger_popped_eq merger_insert_def heap_push_def merger_valid_def less_SucI)
qed (simp add: merger_popped_eq)

lemma merger_popped_future:
  assumes v: "merger_valid R m" and pc: "mg_pc m = MPriming i \<or> mg_pc m = MReplacing i"
    and R: "R (mg_inputs m ! i) = x # xs"
  shows "merger_future (R(mg_inputs m ! i := xs)) (merger_popped x m) = merger_future R m"
proof -
  note op = merger_pop_open [OF v pc]
  have dist: "distinct (mg_inputs m)" using v by (simp add: merger_valid_def)
  note ins = merger_insert_lists [where R = R, OF dist op(1,2,4,3) R]
  let ?R = "R(mg_inputs m ! i := xs)"
  from pc show ?thesis
  proof
    assume p: "mg_pc m = MReplacing i"
    then have "kmerge (merger_left ?R (merger_popped x m)) = kmerge (merger_left R m)"
      by (intro kmerge_filter) (use ins in \<open>simp add: merger_left_def merger_popped_def\<close>)
    with p show ?thesis by (simp add: merger_future_def merger_popped_def)
  next
    assume p: "mg_pc m = MPriming i"
    let ?tail = "\<lambda>R. rev (map (\<lambda>q. events_of (R q)) (drop (i + 1) (mg_inputs m)))"
    have "mg_inputs m ! i \<notin> set (drop (i + 1) (mg_inputs m))"
      using dist op(1) by (auto simp: in_set_conv_nth nth_eq_iff_index_eq)
    then have tail: "?tail ?R = ?tail R" by auto
    have "drop i (mg_inputs m) = mg_inputs m ! i # drop (i + 1) (mg_inputs m)"
      using op(1) by (simp add: Cons_nth_drop_Suc)
    then have before: "merger_left R m =
        ?tail R @ events_of (R (mg_inputs m ! i)) # heap_lists R (mg_inputs m) (mg_heap m)"
      using p by (simp add: merger_left_def)
    have after: "merger_left ?R (merger_popped x m) =
        ?tail ?R @ heap_lists ?R (mg_inputs m) (merger_insert x i (mg_heap m))"
      using p by (simp add: merger_left_def merger_popped_def)
    have "kmerge (merger_left ?R (merger_popped x m)) = kmerge (merger_left R m)"
      unfolding before after tail by (rule kmerge_filter, rule filter_rev_cong, rule ins)
    with p show ?thesis by (simp add: merger_future_def merger_popped_def)
  qed
qed

lemma merger_popped_valid:
  assumes v: "merger_valid R m" and pc: "mg_pc m = MPriming i \<or> mg_pc m = MReplacing i"
    and R: "R (mg_inputs m ! i) = x # xs"
  shows "merger_valid (R(mg_inputs m ! i := xs)) (merger_popped x m)"
proof -
  note op = merger_pop_open [OF v pc]
  have dist: "distinct (mg_inputs m)" "distinct (map hn_input_index (mg_heap m))"
    using v by (simp_all add: merger_valid_def)
  note frame = merger_popped_frame(1,3) [OF pc, of x]
  note open_sub = merger_popped_open [OF v pc, of x]
  have "is_stream ((R(mg_inputs m ! i := xs)) (mg_inputs m ! j)) \<and> j < length (mg_inputs m)"
    if "j \<in> merger_open (merger_popped x m)" for j
  proof (cases "j = i")
    case True
    with that open_sub have "\<not> qi_end_of_stream x" by (auto split: if_splits)
    with True op R show ?thesis by (auto intro: is_stream_tl)
  next
    case False
    with that open_sub have "j \<in> merger_open m" by (auto split: if_splits)
    with v have "j < length (mg_inputs m)" "is_stream (R (mg_inputs m ! j))"
      by (auto simp: merger_valid_def)
    with False dist op(1) show ?thesis by (simp add: nth_eq_iff_index_eq)
  qed
  moreover have "distinct (map hn_input_index (mg_heap (merger_popped x m)))"
    unfolding frame using dist(2) op(2) by (rule merger_insert_distinct)
  ultimately show ?thesis
    using dist merger_popped_pc [OF v pc, of x] unfolding merger_valid_def frame by simp
qed

text \<open>A write: the top of the heap, or the end marker when the heap is empty.\<close>

lemma heap_pop_indices:
  assumes "heap_pop heap = Some (n, r)" and "distinct (map hn_input_index heap)"
  shows "hn_input_index n \<notin> hn_input_index ` set r" and "distinct (map hn_input_index r)"
    and "set heap = insert n (set r)"
proof -
  have m: "mset heap = mset (n # r)" using heap_split_mset assms(1) by (simp add: heap_pop_def)
  then have "mset (map hn_input_index heap) = mset (map hn_input_index (n # r))"
    by (metis mset_map)
  then have "distinct (map hn_input_index (n # r))"
    using assms(2) mset_eq_imp_distinct_iff by blast
  then show "hn_input_index n \<notin> hn_input_index ` set r" "distinct (map hn_input_index r)"
    by simp_all
  show "set heap = insert n (set r)" using mset_eq_setD [OF m] by simp
qed

lemma merger_push:
  assumes "merger_valid R m" and "merger_request m = RPush q x"
  shows "q = mg_output m" and "merger_future R m = x # merger_future R (merger_written m)"
    and "merger_valid R (merger_written m)" and "merger_request (merger_written m) \<noteq> RHalt"
    and "thread_rank (Merger (merger_written m)) < thread_rank (Merger m)"
proof -
  from assms(2) have pc: "mg_pc m = MLooping" and q: "q = mg_output m"
    by (auto simp: merger_request_def split: merger_pc.splits option.splits)
  show "q = mg_output m" by fact
  have d: "distinct (map hn_input_index (mg_heap m))" using assms(1) by (simp add: merger_valid_def)
  show "merger_future R m = x # merger_future R (merger_written m)"
    using pc assms(2) kmerge_heap [of R "mg_inputs m" "mg_heap m"]
    by (auto simp: merger_future_def merger_left_def merger_written_def merger_request_def stream_simps
        split: option.splits)
  show "merger_valid R (merger_written m)"
    using pc assms(1) heap_pop_indices [OF _ d]
    by (auto simp: merger_valid_def merger_open_def merger_written_def split: option.splits)
  show "merger_request (merger_written m) \<noteq> RHalt"
    and "thread_rank (Merger (merger_written m)) < thread_rank (Merger m)"
    using pc by (auto simp: merger_written_def merger_request_def split: option.splits)
qed

lemma merger_flush:
  assumes "merger_valid R m" and "merger_request m = RFlush q"
  shows "q = mg_output m" and "merger_future R m = merger_future R (merger_written m)"
    and "merger_valid R (merger_written m)"
    and "thread_rank (Merger (merger_written m)) < thread_rank (Merger m)"
  using assms
  by (auto simp: merger_request_def merger_future_def merger_valid_def merger_open_def merger_written_def
      split: merger_pc.splits option.splits)

lemma merger_written_frame:
  "mg_inputs (merger_written m) = mg_inputs m" "mg_output (merger_written m) = mg_output m"
  by (auto simp: merger_written_def split: merger_pc.splits option.splits)

lemma producer_push:
  assumes "producer_valid parse p" and "producer_request parse p = RPush q x"
  shows "q = pr_queue p" and "producer_future parse p = x # producer_future parse (producer_written p)"
    and "producer_valid parse (producer_written p)"
    and "producer_request parse (producer_written p) \<noteq> RHalt"
    and "thread_rank (Producer (producer_written p)) < thread_rank (Producer p)"
proof -
  from assms(2) have pc: "pr_pc p = PReading" and q: "q = pr_queue p"
    by (auto simp: producer_request_def Let_def split: producer_pc.splits list.splits sum.splits)
  show "q = pr_queue p" by fact
  show "producer_future parse p = x # producer_future parse (producer_written p)"
    using pc assms
    by (cases "pr_lines p")
      (auto simp: producer_future_def producer_written_def producer_request_def producer_left_def
        producer_valid_def stream_simps Let_def split: sum.splits)
  show "producer_valid parse (producer_written p)"
    using pc assms
    by (cases "pr_lines p")
      (auto simp: producer_written_def producer_left_def producer_valid_def split: sum.splits)
  show "producer_request parse (producer_written p) \<noteq> RHalt"
    and "thread_rank (Producer (producer_written p)) < thread_rank (Producer p)"
    using pc by (cases "pr_lines p"; auto simp: producer_written_def producer_request_def Let_def
        split: list.splits sum.splits)+
qed

lemma producer_flush:
  assumes "producer_request parse p = RFlush q"
  shows "q = pr_queue p" and "producer_future parse p = producer_future parse (producer_written p)"
    and "producer_valid parse (producer_written p)"
    and "thread_rank (Producer (producer_written p)) < thread_rank (Producer p)"
  using assms
  by (auto simp: producer_request_def producer_future_def producer_valid_def producer_written_def Let_def
      split: producer_pc.splits list.splits sum.splits)

lemma producer_requests:
  "producer_request parse p \<noteq> RPop q" "producer_valid parse p \<Longrightarrow> producer_request parse p \<noteq> RThrow x"
  "producer_request parse p = RHalt \<Longrightarrow> producer_future parse p = []"
  by (auto simp: producer_request_def producer_valid_def producer_left_def producer_future_def Let_def
      split: producer_pc.splits list.splits sum.splits)

lemma merger_requests:
  "merger_request m \<noteq> RThrow x" "merger_request m = RHalt \<Longrightarrow> merger_future R m = []"
  by (auto simp: merger_request_def merger_future_def split: merger_pc.splits option.splits)

lemma dispatcher_requests:
  "dispatcher_request d \<noteq> RPush i x" "dispatcher_request d \<noteq> RFlush i" "dispatcher_request d \<noteq> RThrow e"
  by (simp_all add: dispatcher_request_def)

lemma producer_written_frame:
  "pr_queue (producer_written p) = pr_queue p" "pr_index (producer_written p) = pr_index p"
  by (auto simp: producer_written_def split: producer_pc.splits list.splits)

text \<open>The same laws for all three kinds at once; the network needs nothing else.\<close>

lemma thread_pop:
  assumes "thread_valid parse R t" and "thread_request parse t = RPop i" and "thread_goal process R t goal"
  obtains x xs where "R i = x # xs" "i \<in> set (thread_ins t)"
    "thread_valid parse (R(i := xs)) (thread_popped process x t)"
    "thread_future parse (R(i := xs)) (thread_popped process x t) = thread_future parse R t"
    "thread_goal process (R(i := xs)) (thread_popped process x t) goal"
    "thread_ins (thread_popped process x t) = thread_ins t"
    "thread_out (thread_popped process x t) = thread_out t"
    "thread_out t \<noteq> None \<Longrightarrow> thread_request parse (thread_popped process x t) \<noteq> RHalt"
    "thread_rank (thread_popped process x t) < thread_rank t + 3"
proof (cases t)
  case (Producer p)
  with assms show ?thesis by (simp add: producer_requests)
next
  case (Merger m)
  with assms obtain j where j: "mg_pc m = MPriming j \<or> mg_pc m = MReplacing j" "i = mg_inputs m ! j"
    by (auto elim: merger_request_pop)
  have v: "merger_valid R m" using assms(1) Merger by simp
  note op = merger_pop_open [OF v j(1)]
  from is_stream_nonempty [OF op(3)] obtain x xs where R: "R i = x # xs" using j(2) by auto
  show ?thesis
    using that [of x xs] R op(1) j(2) Merger merger_popped_future [OF v j(1), of x xs]
      merger_popped_valid [OF v j(1), of x xs] merger_popped_frame [OF j(1), of x]
    by simp
next
  case (Dispatcher d)
  with assms have d: "\<not> ds_returned d" "i = ds_input d" "is_stream (R i)"
    by (auto simp: dispatcher_request_def split: if_splits)
  then obtain x xs where R: "R i = x # xs" using is_stream_nonempty by blast
  have "\<not> qi_end_of_stream x \<Longrightarrow> is_stream xs" using d(3) R is_stream_tl by simp
  with that [of x xs] d R Dispatcher assms(3) show ?thesis
    by (auto simp: dispatcher_popped_def dispatched_def)
qed

lemma thread_push:
  assumes "thread_valid parse R t" and "thread_request parse t = RPush o' x" and "thread_goal process R t goal"
  shows "thread_out t = Some o' \<and>
    thread_future parse R t = x # thread_future parse R (thread_written t) \<and>
    thread_valid parse R (thread_written t) \<and>
    thread_goal process R (thread_written t) goal \<and>
    thread_request parse (thread_written t) \<noteq> RHalt \<and>
    thread_rank (thread_written t) < thread_rank t"
proof (cases t)
  case (Producer p)
  then show ?thesis using assms producer_push [of parse p o' x] by simp
next
  case (Merger m)
  then show ?thesis using assms merger_push [of R m o' x] by simp
next
  case (Dispatcher d)
  then show ?thesis using assms by (simp add: dispatcher_requests)
qed

lemma thread_flush:
  assumes "thread_valid parse R t" and "thread_request parse t = RFlush o'" and "thread_goal process R t goal"
  shows "thread_out t = Some o' \<and>
    thread_future parse R t = thread_future parse R (thread_written t) \<and>
    thread_valid parse R (thread_written t) \<and>
    thread_goal process R (thread_written t) goal \<and>
    thread_rank (thread_written t) < thread_rank t"
proof (cases t)
  case (Producer p)
  then show ?thesis using assms producer_flush [of parse p o'] by simp
next
  case (Merger m)
  then show ?thesis using assms merger_flush [of R m o'] by simp
next
  case (Dispatcher d)
  then show ?thesis using assms by (simp add: dispatcher_requests)
qed

lemma thread_written_frame [simp]:
  "thread_ins (thread_written t) = thread_ins t" "thread_out (thread_written t) = thread_out t"
  by (cases t; simp add: merger_written_frame producer_written_frame)+

lemma thread_not_throw: "thread_valid parse R t \<Longrightarrow> thread_request parse t \<noteq> RThrow x"
  by (cases t) (auto simp: dispatcher_request_def producer_requests merger_requests)

lemma thread_halted: "thread_request parse t = RHalt \<Longrightarrow> thread_future parse R t = []"
  by (cases t) (auto simp: producer_requests merger_requests)

lemma heap_lists_cong:
  "(\<And>n. n \<in> set heap \<Longrightarrow> hn_input_index n < length inputs) \<Longrightarrow>
   (\<And>i. i \<in> set inputs \<Longrightarrow> R i = R' i) \<Longrightarrow> heap_lists R inputs heap = heap_lists R' inputs heap"
  by (auto simp: heap_lists_def)

lemma merger_cong:
  assumes "merger_valid R m" and "\<And>i. i \<in> set (mg_inputs m) \<Longrightarrow> R i = R' i"
  shows "merger_valid R' m" and "merger_future R' m = merger_future R m"
proof -
  have op: "j < length (mg_inputs m)" if "j \<in> merger_open m" for j
    using assms(1) that by (simp add: merger_valid_def)
  then have idx: "hn_input_index n < length (mg_inputs m)" if "n \<in> set (mg_heap m)" for n
    using that by (simp add: merger_open_def)
  have R: "R (mg_inputs m ! j) = R' (mg_inputs m ! j)" if "j \<in> merger_open m" for j
    using assms(2) op [OF that] by simp
  show "merger_valid R' m" using assms(1) R by (auto simp: merger_valid_def)
  have "heap_lists R' (mg_inputs m) (mg_heap m) = heap_lists R (mg_inputs m) (mg_heap m)"
    by (rule heap_lists_cong) (use idx assms(2) in auto)
  moreover have "map (\<lambda>q. events_of (R' q)) (drop i (mg_inputs m)) =
      map (\<lambda>q. events_of (R q)) (drop i (mg_inputs m))" for i
    by (rule map_cong [OF refl]) (use assms(2) in \<open>auto dest: in_set_dropD\<close>)
  moreover have "mg_pc m = MReplacing i \<Longrightarrow> R' (mg_inputs m ! i) = R (mg_inputs m ! i)" for i
    using R [of i] by (simp add: merger_open_def)
  ultimately show "merger_future R' m = merger_future R m"
    by (simp add: merger_future_def merger_left_def del: map_eq_conv split: merger_pc.splits)
qed

lemma thread_cong:
  assumes "thread_valid parse R t" and "\<And>i. i \<in> set (thread_ins t) \<Longrightarrow> R i = R' i"
  shows "thread_valid parse R' t" and "thread_future parse R' t = thread_future parse R t"
    and "thread_goal process R' t goal = thread_goal process R t goal"
  using assms merger_cong [of R _ R'] by (cases t; auto)+

section \<open>The invariant of the network\<close>

text \<open>
  Every queue has one writer and at most one reader, and a thread only reads queues that come
  before the one it writes: there is no cycle.
\<close>

definition wired :: "nat list list \<Rightarrow> nat option list \<Rightarrow> nat \<Rightarrow> bool" where
  "wired ins outs n \<longleftrightarrow>
     length ins = length outs \<and>
     (\<forall>k < length ins. \<forall>i \<in> set (ins ! k). i < n) \<and>
     (\<forall>k < length ins. \<forall>i. outs ! k = Some i \<longrightarrow> i < n \<and> (\<forall>j \<in> set (ins ! k). j < i)) \<and>
     (\<forall>k < length ins. \<forall>l < length ins. k \<noteq> l \<longrightarrow> set (ins ! k) \<inter> set (ins ! l) = {}) \<and>
     (\<forall>k < length ins. \<forall>l < length ins. k \<noteq> l \<longrightarrow> outs ! k \<noteq> None \<longrightarrow> outs ! k \<noteq> outs ! l) \<and>
     (\<forall>i < n. \<exists>k < length ins. outs ! k = Some i)"

definition net_wired :: "('l, 'p) merge_net \<Rightarrow> bool" where
  "net_wired net \<longleftrightarrow>
     wired (map thread_ins (mn_threads net)) (map thread_out (mn_threads net)) (length (mn_queues net))"

definition local_ok ::
  "'l line_parser \<Rightarrow> ('p \<Rightarrow> MarketDataEvent \<Rightarrow> 'p) \<Rightarrow> 'p \<times> ProcessingSummary \<Rightarrow> (nat \<Rightarrow> QueueItem list) \<Rightarrow>
   EventQueue list \<Rightarrow> ('l, 'p) thread \<Rightarrow> bool" where
  "local_ok parse process goal R qs t \<longleftrightarrow>
     thread_valid parse R t \<and> thread_goal process R t goal \<and>
     (case thread_out t of
        None \<Rightarrow> True
      | Some i \<Rightarrow>
          R i = NBQ_contents (qs ! i) @ thread_future parse R t \<and>
          (thread_request parse t = RHalt \<longrightarrow> NBQ_published (qs ! i) = NBQ_contents (qs ! i)))"

definition net_ok ::
  "'l line_parser \<Rightarrow> ('p \<Rightarrow> MarketDataEvent \<Rightarrow> 'p) \<Rightarrow> 'p \<times> ProcessingSummary \<Rightarrow> (nat \<Rightarrow> QueueItem list) \<Rightarrow>
   ('l, 'p) merge_net \<Rightarrow> bool" where
  "net_ok parse process goal R net \<longleftrightarrow>
     net_wired net \<and> (\<forall>q \<in> set (mn_queues net). NBQ_inv q) \<and>
     (\<forall>t \<in> set (mn_threads net). local_ok parse process goal R (mn_queues net) t)"

definition net_measure :: "(nat \<Rightarrow> QueueItem list) \<Rightarrow> ('l, 'p) merge_net \<Rightarrow> nat" where
  "net_measure R net =
     3 * (\<Sum>i < length (mn_queues net). length (R i)) + (\<Sum>t \<leftarrow> mn_threads net. thread_rank t)"

definition thread_enabled :: "'l line_parser \<Rightarrow> ('l, 'p) merge_net \<Rightarrow> nat \<Rightarrow> bool" where
  "thread_enabled parse net k \<longleftrightarrow>
     k < length (mn_threads net) \<and>
     (case thread_request parse (mn_threads net ! k) of
        RPop i \<Rightarrow> NBQ_published (mn_queues net ! i) \<noteq> []
      | RPush _ _ \<Rightarrow> True
      | RFlush _ \<Rightarrow> True
      | _ \<Rightarrow> False)"

lemma wired_facts:
  assumes "net_wired net" and "k < length (mn_threads net)"
  shows "i \<in> set (thread_ins (mn_threads net ! k)) \<Longrightarrow> i < length (mn_queues net)"
    and "thread_out (mn_threads net ! k) = Some j \<Longrightarrow> j < length (mn_queues net)"
    and "thread_out (mn_threads net ! k) = Some j \<Longrightarrow> i \<in> set (thread_ins (mn_threads net ! k)) \<Longrightarrow> i < j"
    and "l < length (mn_threads net) \<Longrightarrow> k \<noteq> l \<Longrightarrow> i \<in> set (thread_ins (mn_threads net ! k)) \<Longrightarrow>
         i \<notin> set (thread_ins (mn_threads net ! l))"
    and "l < length (mn_threads net) \<Longrightarrow> k \<noteq> l \<Longrightarrow> thread_out (mn_threads net ! k) = Some j \<Longrightarrow>
         thread_out (mn_threads net ! l) \<noteq> Some j"
proof -
  note w = assms(1) [unfolded net_wired_def wired_def length_map]
  show "i \<in> set (thread_ins (mn_threads net ! k)) \<Longrightarrow> i < length (mn_queues net)"
    using w assms(2) by (metis nth_map)
  show "thread_out (mn_threads net ! k) = Some j \<Longrightarrow> j < length (mn_queues net)"
    using w assms(2) by (metis nth_map)
  show "thread_out (mn_threads net ! k) = Some j \<Longrightarrow> i \<in> set (thread_ins (mn_threads net ! k)) \<Longrightarrow> i < j"
    using w assms(2) by (metis nth_map)
  show "l < length (mn_threads net) \<Longrightarrow> k \<noteq> l \<Longrightarrow> i \<in> set (thread_ins (mn_threads net ! k)) \<Longrightarrow>
      i \<notin> set (thread_ins (mn_threads net ! l))"
  proof
    assume l: "l < length (mn_threads net)" "k \<noteq> l" "i \<in> set (thread_ins (mn_threads net ! k))"
      "i \<in> set (thread_ins (mn_threads net ! l))"
    with w assms(2) have "set (map thread_ins (mn_threads net) ! k) \<inter> set (map thread_ins (mn_threads net) ! l) = {}" by blast
    with l assms(2) show False by auto
  qed
  show "l < length (mn_threads net) \<Longrightarrow> k \<noteq> l \<Longrightarrow> thread_out (mn_threads net ! k) = Some j \<Longrightarrow>
      thread_out (mn_threads net ! l) \<noteq> Some j"
    using w assms(2) by (metis nth_map option.distinct(1))
qed

lemma wired_writer:
  assumes "net_wired net" and "i < length (mn_queues net)"
  obtains k where "k < length (mn_threads net)" "thread_out (mn_threads net ! k) = Some i"
  using assms unfolding net_wired_def wired_def by auto

subsection \<open>One step\<close>

lemma sum_list_map_update:
  fixes f :: "'a \<Rightarrow> nat"
  assumes "k < length xs"
  shows "sum_list (map f (xs[k := x])) + f (xs ! k) = sum_list (map f xs) + f x"
  using assms by (induction xs arbitrary: k) (auto split: nat.splits)

lemma sum_length_tl:
  assumes "i < n" and "R i = x # xs"
  shows "(\<Sum>j < n. length ((R(i := xs)) j)) + 1 = (\<Sum>j < (n :: nat). length (R j))"
proof -
  have "(\<Sum>j < n. length ((R(i := xs)) j)) = length xs + (\<Sum>j \<in> {..<n} - {i}. length (R j))"
    using assms(1) by (simp add: sum.remove [of _ i])
  moreover have "(\<Sum>j < n. length (R j)) = length (R i) + (\<Sum>j \<in> {..<n} - {i}. length (R j))"
    using assms(1) by (simp add: sum.remove [of _ i])
  ultimately show ?thesis using assms(2) by simp
qed

lemma published_contents: "NBQ_inv q \<Longrightarrow> NBQ_published q \<noteq> [] \<Longrightarrow> NBQ_contents q \<noteq> []"
  using nbq_blocking.take_some [of q] by (cases "NBQ_published q") fastforce+

lemma map_update_same: "k < length xs \<Longrightarrow> f x = f (xs ! k) \<Longrightarrow> map f (xs[k := x]) = map f xs"
  by (simp add: map_update list_update_same_conv)

lemma net_wired_update:
  assumes "net_wired net" and "k < length (mn_threads net)"
    and "thread_ins t' = thread_ins (mn_threads net ! k)" and "thread_out t' = thread_out (mn_threads net ! k)"
  shows "net_wired (net\<lparr>mn_queues := (mn_queues net)[i := q], mn_threads := (mn_threads net)[k := t']\<rparr>)"
  using assms by (simp add: net_wired_def map_update_same)

lemma net_ok_update:
  assumes ok: "net_ok parse process goal R net" and k: "k < length (mn_threads net)"
    and t': "thread_ins t' = thread_ins (mn_threads net ! k)" "thread_out t' = thread_out (mn_threads net ! k)"
    and q: "NBQ_inv q"
    and self: "local_ok parse process goal R' ((mn_queues net)[i := q]) t'"
    and others: "\<And>l. l < length (mn_threads net) \<Longrightarrow> l \<noteq> k \<Longrightarrow>
      local_ok parse process goal R' ((mn_queues net)[i := q]) (mn_threads net ! l)"
  shows "net_ok parse process goal R'
    (net\<lparr>mn_queues := (mn_queues net)[i := q], mn_threads := (mn_threads net)[k := t']\<rparr>)"
  unfolding net_ok_def
proof (intro conjI ballI)
  have wired: "net_wired net" and inv: "\<forall>q \<in> set (mn_queues net). NBQ_inv q"
    using ok by (simp_all add: net_ok_def)
  show "net_wired (net\<lparr>mn_queues := (mn_queues net)[i := q], mn_threads := (mn_threads net)[k := t']\<rparr>)"
    by (rule net_wired_update [OF wired k t'])
  show "NBQ_inv x" if "x \<in> set (mn_queues (net\<lparr>mn_queues := (mn_queues net)[i := q],
      mn_threads := (mn_threads net)[k := t']\<rparr>))" for x
    using that inv q set_update_subset_insert [of "mn_queues net" i q] by auto
  show "local_ok parse process goal R' (mn_queues (net\<lparr>mn_queues := (mn_queues net)[i := q],
      mn_threads := (mn_threads net)[k := t']\<rparr>)) x"
    if "x \<in> set (mn_threads (net\<lparr>mn_queues := (mn_queues net)[i := q],
      mn_threads := (mn_threads net)[k := t']\<rparr>))" for x
    using that self others k by (auto simp: in_set_conv_nth nth_list_update split: if_splits)
qed

text \<open>What one step of thread \<open>k\<close> does to the invariant, the measure and the other threads.\<close>

definition step_ok ::
  "'l line_parser \<Rightarrow> ('p \<Rightarrow> MarketDataEvent \<Rightarrow> 'p) \<Rightarrow> 'p \<times> ProcessingSummary \<Rightarrow> (nat \<Rightarrow> QueueItem list) \<Rightarrow>
   ('l, 'p) merge_net \<Rightarrow> nat \<Rightarrow> ('l, 'p) merge_net \<Rightarrow> bool" where
  "step_ok parse process goal R net k net' \<longleftrightarrow>
     length (mn_threads net') = length (mn_threads net) \<and>
     (\<forall>l. l \<noteq> k \<longrightarrow> thread_enabled parse net l \<longrightarrow> thread_enabled parse net' l) \<and>
     (\<exists>R'. net_ok parse process goal R' net' \<and> net_measure R' net' \<le> net_measure R net \<and>
           (thread_enabled parse net k \<longrightarrow> net_measure R' net' < net_measure R net))"

text \<open>A write by thread \<open>k\<close> to its own queue concerns nobody else.\<close>

lemma local_ok_other_queue:
  "thread_out t \<noteq> Some i \<Longrightarrow> local_ok parse process goal R (qs[i := q]) t = local_ok parse process goal R qs t"
  by (auto simp: local_ok_def split: option.splits)

lemma step_ok_write:
  assumes ok: "net_ok parse process goal R net" and k: "k < length (mn_threads net)"
    and t: "t = mn_threads net ! k" and out: "thread_out t = Some i"
    and enabled: "thread_enabled parse net k"
    and q: "NBQ_inv q" "NBQ_published q = NBQ_published (mn_queues net ! i) \<or> NBQ_published q = NBQ_contents q"
      "NBQ_published (mn_queues net ! i) \<noteq> [] \<Longrightarrow> NBQ_contents q \<noteq> []"
    and self: "local_ok parse process goal R ((mn_queues net)[i := q]) (thread_written t)"
    and rank: "thread_rank (thread_written t) < thread_rank t"
  shows "step_ok parse process goal R net k
    (net\<lparr>mn_queues := (mn_queues net)[i := q], mn_threads := (mn_threads net)[k := thread_written t]\<rparr>)"
    (is "step_ok _ _ _ _ _ _ ?net")
proof -
  have wired: "net_wired net" using ok by (simp add: net_ok_def)
  have i: "i < length (mn_queues net)" using wired_facts(2) [OF wired k] out t by simp
  have "net_ok parse process goal R ?net"
  proof (rule net_ok_update [OF ok k _ _ q(1) self])
    fix l assume l: "l < length (mn_threads net)" "l \<noteq> k"
    then have "thread_out (mn_threads net ! l) \<noteq> Some i"
      using wired_facts(5) [OF wired k, of l i] out t by simp
    with ok l show "local_ok parse process goal R ((mn_queues net)[i := q]) (mn_threads net ! l)"
      by (simp add: local_ok_other_queue net_ok_def)
  qed (simp_all add: t)
  moreover have "net_measure R ?net < net_measure R net"
    using sum_list_map_update [OF k, of thread_rank "thread_written t"] rank t
    by (simp add: net_measure_def)
  moreover have "thread_enabled parse ?net l" if "l \<noteq> k" "thread_enabled parse net l" for l
    using that q(2,3) i by (auto simp: thread_enabled_def nth_list_update split: request.splits)
  ultimately show ?thesis by (auto simp: step_ok_def)
qed

lemma step_ok_push:
  assumes ok: "net_ok parse process goal R net" and k: "k < length (mn_threads net)"
    and t: "t = mn_threads net ! k" and req: "thread_request parse t = RPush i x"
  shows "\<exists>net'. net_step parse process net k = Some net' \<and> step_ok parse process goal R net k net'"
proof -
  have loc: "local_ok parse process goal R (mn_queues net) t" and wired: "net_wired net"
    using ok k t by (simp_all add: net_ok_def)
  then have valid: "thread_valid parse R t" and gl: "thread_goal process R t goal"
    by (simp_all add: local_ok_def)
  note law = thread_push [OF valid req gl]
  then have out: "thread_out t = Some i" by simp
  have i: "i < length (mn_queues net)" using wired_facts(2) [OF wired k] out t by simp
  then have inv: "NBQ_inv (mn_queues net ! i)" using ok by (simp add: net_ok_def)
  from nbq_blocking.push_law [OF inv, of x] obtain q where q:
    "NBQ_push x (mn_queues net ! i) = Some q" "NBQ_inv q"
    "NBQ_contents q = NBQ_contents (mn_queues net ! i) @ [x]"
    "NBQ_published q = NBQ_published (mn_queues net ! i) \<or> NBQ_published q = NBQ_contents q" by blast
  have self: "local_ok parse process goal R ((mn_queues net)[i := q]) (thread_written t)"
    using loc law out i q(3) by (simp add: local_ok_def)
  have "thread_enabled parse net k" using k req t by (simp add: thread_enabled_def)
  then have "step_ok parse process goal R net k
    (net\<lparr>mn_queues := (mn_queues net)[i := q], mn_threads := (mn_threads net)[k := thread_written t]\<rparr>)"
    by (intro step_ok_write [OF ok k t out _ q(2) q(4) _ self]) (use q(3) law in auto)
  then show ?thesis using k i q(1) req t by (auto simp: net_step_def Let_def)
qed

lemma step_ok_flush:
  assumes ok: "net_ok parse process goal R net" and k: "k < length (mn_threads net)"
    and t: "t = mn_threads net ! k" and req: "thread_request parse t = RFlush i"
  shows "\<exists>net'. net_step parse process net k = Some net' \<and> step_ok parse process goal R net k net'"
proof -
  have loc: "local_ok parse process goal R (mn_queues net) t" and wired: "net_wired net"
    using ok k t by (simp_all add: net_ok_def)
  then have valid: "thread_valid parse R t" and gl: "thread_goal process R t goal"
    by (simp_all add: local_ok_def)
  note law = thread_flush [OF valid req gl]
  then have out: "thread_out t = Some i" by simp
  have i: "i < length (mn_queues net)" using wired_facts(2) [OF wired k] out t by simp
  then have inv: "NBQ_inv (mn_queues net ! i)" using ok by (simp add: net_ok_def)
  from nbq_blocking.flush_law [OF inv] obtain q where q:
    "NBQ_flush (mn_queues net ! i) = Some q" "NBQ_inv q"
    "NBQ_contents q = NBQ_contents (mn_queues net ! i)"
    "NBQ_published q = NBQ_contents (mn_queues net ! i)" by blast
  have self: "local_ok parse process goal R ((mn_queues net)[i := q]) (thread_written t)"
    using loc law out i q(3,4) by (simp add: local_ok_def)
  have "thread_enabled parse net k" using k req t by (simp add: thread_enabled_def)
  then have "step_ok parse process goal R net k
    (net\<lparr>mn_queues := (mn_queues net)[i := q], mn_threads := (mn_threads net)[k := thread_written t]\<rparr>)"
    by (intro step_ok_write [OF ok k t out _ q(2) _ _ self])
      (use q(3,4) law published_contents [OF inv] in auto)
  then show ?thesis using k i q(1) req t by (auto simp: net_step_def Let_def)
qed

text \<open>A successful pop takes the head of what the queue still delivers.\<close>

lemma local_ok_popped_queue:
  assumes "local_ok parse process goal R qs t" and "i < length qs" and "i \<notin> set (thread_ins t)"
    and "R i = x # xs" and "NBQ_contents (qs ! i) = x # NBQ_contents q"
    and "NBQ_published (qs ! i) = x # NBQ_published q"
  shows "local_ok parse process goal (R(i := xs)) (qs[i := q]) t"
proof -
  have valid: "thread_valid parse R t" using assms(1) by (simp add: local_ok_def)
  have agree: "R j = (R(i := xs)) j" if "j \<in> set (thread_ins t)" for j using that assms(3) by auto
  note cong = thread_cong [OF valid, of "R(i := xs)", OF agree]
  from cong show ?thesis
    using assms by (cases "thread_out t = Some i") (auto simp: local_ok_def split: option.splits)
qed

lemma step_ok_popped:
  assumes ok: "net_ok parse process goal R net" and k: "k < length (mn_threads net)"
    and t: "t = mn_threads net ! k" and i: "i < length (mn_queues net)" "i \<in> set (thread_ins t)"
    and R: "R i = x # xs" and q: "NBQ_inv q" "NBQ_contents (mn_queues net ! i) = x # NBQ_contents q"
      "NBQ_published (mn_queues net ! i) = x # NBQ_published q"
    and law: "thread_valid parse (R(i := xs)) t'" "thread_future parse (R(i := xs)) t' = thread_future parse R t"
      "thread_goal process (R(i := xs)) t' goal" "thread_ins t' = thread_ins t" "thread_out t' = thread_out t"
      "thread_out t \<noteq> None \<Longrightarrow> thread_request parse t' \<noteq> RHalt" "thread_rank t' < thread_rank t + 3"
  shows "step_ok parse process goal R net k
    (net\<lparr>mn_queues := (mn_queues net)[i := q], mn_threads := (mn_threads net)[k := t']\<rparr>)"
    (is "step_ok _ _ _ _ _ _ ?net")
proof -
  have wired: "net_wired net" using ok by (simp add: net_ok_def)
  have not_out: "thread_out t \<noteq> Some i" using wired_facts(3) [OF wired k, of i i] i t by auto
  have foreign: "i \<notin> set (thread_ins (mn_threads net ! l))" if "l < length (mn_threads net)" "l \<noteq> k" for l
    using wired_facts(4) [OF wired k, of l i] that i t by simp
  have "net_ok parse process goal (R(i := xs)) ?net"
  proof (rule net_ok_update [OF ok k _ _ q(1)])
    have "local_ok parse process goal R (mn_queues net) t" using ok k t by (simp add: net_ok_def)
    with law not_out show "local_ok parse process goal (R(i := xs)) ((mn_queues net)[i := q]) t'"
      by (auto simp: local_ok_def split: option.splits)
    fix l assume l: "l < length (mn_threads net)" "l \<noteq> k"
    then have "local_ok parse process goal R (mn_queues net) (mn_threads net ! l)"
      using ok by (simp add: net_ok_def)
    then show "local_ok parse process goal (R(i := xs)) ((mn_queues net)[i := q]) (mn_threads net ! l)"
      by (rule local_ok_popped_queue [where R = R, OF _ i(1) foreign [OF l] R q(2,3)])
  qed (simp_all add: law t)
  moreover have "net_measure (R(i := xs)) ?net < net_measure R net"
    using sum_list_map_update [OF k, of thread_rank t'] sum_length_tl [OF i(1), of R, OF R] law(7) t
    by (simp add: net_measure_def)
  moreover have "thread_enabled parse ?net l" if l: "l \<noteq> k" "thread_enabled parse net l" for l
  proof -
    have len: "l < length (mn_threads net)" using l by (simp add: thread_enabled_def)
    then have loc: "local_ok parse process goal R (mn_queues net) (mn_threads net ! l)"
      using ok by (simp add: net_ok_def)
    have "j \<noteq> i" if "thread_request parse (mn_threads net ! l) = RPop j" for j
      using thread_pop [OF _ that, of R process goal] loc foreign [OF len l(1)]
      by (fastforce simp: local_ok_def)
    with l show ?thesis by (auto simp: thread_enabled_def split: request.splits)
  qed
  ultimately show ?thesis by (auto simp: step_ok_def)
qed

lemma step_ok_pop:
  assumes ok: "net_ok parse process goal R net" and k: "k < length (mn_threads net)"
    and t: "t = mn_threads net ! k" and req: "thread_request parse t = RPop i"
  shows "\<exists>net'. net_step parse process net k = Some net' \<and> step_ok parse process goal R net k net'"
proof -
  have loc: "local_ok parse process goal R (mn_queues net) t" and wired: "net_wired net"
    using ok k t by (simp_all add: net_ok_def)
  then have valid: "thread_valid parse R t" and gl: "thread_goal process R t goal"
    by (simp_all add: local_ok_def)
  from thread_pop [OF valid req gl] obtain x xs where law: "R i = x # xs" "i \<in> set (thread_ins t)"
    "thread_valid parse (R(i := xs)) (thread_popped process x t)"
    "thread_future parse (R(i := xs)) (thread_popped process x t) = thread_future parse R t"
    "thread_goal process (R(i := xs)) (thread_popped process x t) goal"
    "thread_ins (thread_popped process x t) = thread_ins t"
    "thread_out (thread_popped process x t) = thread_out t"
    "thread_out t \<noteq> None \<Longrightarrow> thread_request parse (thread_popped process x t) \<noteq> RHalt"
    "thread_rank (thread_popped process x t) < thread_rank t + 3" by blast
  have i: "i < length (mn_queues net)" using wired_facts(1) [OF wired k] law(2) t by simp
  then have inv: "NBQ_inv (mn_queues net ! i)" using ok by (simp add: net_ok_def)
  show ?thesis
  proof (cases "NBQ_published (mn_queues net ! i)")
    case Nil
    from nbq_blocking.take_none [OF inv Nil] obtain q where q:
      "NBQ_pop (mn_queues net ! i) = Some (None, q)" "NBQ_inv q"
      "NBQ_contents q = NBQ_contents (mn_queues net ! i)" "NBQ_published q = []" by blast
    let ?net = "net\<lparr>mn_queues := (mn_queues net)[i := q], mn_threads := (mn_threads net)[k := t]\<rparr>"
    have same: "local_ok parse process goal R ((mn_queues net)[i := q]) u =
        local_ok parse process goal R (mn_queues net) u" for u
      using q Nil i by (cases "thread_out u = Some i") (auto simp: local_ok_def split: option.splits)
    have "net_ok parse process goal R ?net"
      by (rule net_ok_update [OF ok k _ _ q(2)]) (use ok same t k in \<open>simp_all add: net_ok_def\<close>)
    moreover have "thread_enabled parse ?net l = thread_enabled parse net l" for l
      using q(4) Nil t i by (auto simp: thread_enabled_def nth_list_update split: request.splits)
    moreover have "\<not> thread_enabled parse net k" using req t Nil by (simp add: thread_enabled_def)
    ultimately have "step_ok parse process goal R net k ?net"
      using t by (auto simp: step_ok_def net_measure_def intro!: exI [of _ R])
    then show ?thesis using k i q(1) req t by (auto simp: net_step_def Let_def)
  next
    case (Cons y ys)
    from nbq_blocking.take_some [OF inv Cons] obtain q where q:
      "NBQ_pop (mn_queues net ! i) = Some (Some y, q)" "NBQ_inv q"
      "NBQ_contents (mn_queues net ! i) = y # NBQ_contents q" "NBQ_published q = ys" by blast
    from wired_writer [OF wired i] obtain w where w: "w < length (mn_threads net)"
      "thread_out (mn_threads net ! w) = Some i" .
    then have "local_ok parse process goal R (mn_queues net) (mn_threads net ! w)"
      using ok by (simp add: net_ok_def)
    then have y: "y = x" using w(2) law(1) q(3) by (simp add: local_ok_def)
    have "step_ok parse process goal R net k (net\<lparr>mn_queues := (mn_queues net)[i := q],
        mn_threads := (mn_threads net)[k := thread_popped process x t]\<rparr>)"
      using q Cons y by (intro step_ok_popped [OF ok k t i law(2,1) _ _ _ law(3-9)]) simp_all
    then show ?thesis using k i q(1) req t y by (auto simp: net_step_def Let_def)
  qed
qed

lemma net_step_ok:
  assumes ok: "net_ok parse process goal R net"
  shows "\<exists>net'. net_step parse process net k = Some net' \<and> step_ok parse process goal R net k net'"
proof (cases "k < length (mn_threads net)")
  case False
  then show ?thesis using ok by (auto simp: net_step_def step_ok_def thread_enabled_def)
next
  case k: True
  let ?t = "mn_threads net ! k"
  have "thread_valid parse R ?t" using ok k by (simp add: net_ok_def local_ok_def)
  note nothrow = thread_not_throw [OF this]
  show ?thesis
  proof (cases "thread_request parse ?t")
    case RHalt
    then show ?thesis using ok k by (auto simp: net_step_def step_ok_def thread_enabled_def Let_def)
  qed (use nothrow step_ok_pop [OF ok k refl] step_ok_push [OF ok k refl] step_ok_flush [OF ok k refl] in auto)
qed

subsection \<open>Every fair schedule finishes\<close>

text \<open>No deadlock: whoever waits for a queue waits for a writer that is not done.\<close>

lemma queue_owner_enabled:
  assumes ok: "net_ok parse process goal R net"
  shows "i < length (mn_queues net) \<Longrightarrow> R i \<noteq> [] \<Longrightarrow> NBQ_published (mn_queues net ! i) = [] \<Longrightarrow>
    \<exists>k. thread_enabled parse net k"
proof (induction i rule: less_induct)
  case (less i)
  have wired: "net_wired net" using ok by (simp add: net_ok_def)
  from wired_writer [OF wired less.prems(1)] obtain k where k: "k < length (mn_threads net)"
    and out: "thread_out (mn_threads net ! k) = Some i" .
  let ?t = "mn_threads net ! k"
  have loc: "local_ok parse process goal R (mn_queues net) ?t" using ok k by (simp add: net_ok_def)
  then have valid: "thread_valid parse R ?t" "thread_goal process R ?t goal" by (simp_all add: local_ok_def)
  have not_halted: "thread_request parse ?t \<noteq> RHalt"
    using loc out less.prems thread_halted [of parse ?t R] by (auto simp: local_ok_def)
  show ?case
  proof (cases "thread_request parse ?t")
    case (RPop j)
    from thread_pop [OF valid(1) RPop valid(2)] have j: "j \<in> set (thread_ins ?t)" "R j \<noteq> []"
      by fastforce+
    then have "j < i" "j < length (mn_queues net)"
      using wired_facts(1,3) [OF wired k] out by auto
    then show ?thesis
      using less.IH [of j] j(2) RPop k by (cases "NBQ_published (mn_queues net ! j) = []")
        (auto simp: thread_enabled_def intro!: exI [of _ k])
  qed (use not_halted thread_not_throw [OF valid(1)] k in \<open>auto simp: thread_enabled_def intro!: exI [of _ k]\<close>)
qed

lemma net_no_deadlock:
  assumes ok: "net_ok parse process goal R net" and nf: "\<not> net_finished parse net"
  shows "\<exists>k. thread_enabled parse net k"
proof -
  from nf obtain k where k: "k < length (mn_threads net)"
    and nh: "thread_request parse (mn_threads net ! k) \<noteq> RHalt"
    by (auto simp: net_finished_def list_all_length)
  let ?t = "mn_threads net ! k"
  have loc: "local_ok parse process goal R (mn_queues net) ?t" and wired: "net_wired net"
    using ok k by (simp_all add: net_ok_def)
  then have valid: "thread_valid parse R ?t" "thread_goal process R ?t goal" by (simp_all add: local_ok_def)
  show ?thesis
  proof (cases "thread_request parse ?t")
    case (RPop j)
    from thread_pop [OF valid(1) RPop valid(2)] have j: "j \<in> set (thread_ins ?t)" "R j \<noteq> []"
      by fastforce+
    then have "j < length (mn_queues net)" using wired_facts(1) [OF wired k] by auto
    then show ?thesis
      using queue_owner_enabled [OF ok, of j] j(2) RPop k
      by (cases "NBQ_published (mn_queues net ! j) = []")
        (auto simp: thread_enabled_def intro!: exI [of _ k])
  qed (use nh thread_not_throw [OF valid(1)] k in \<open>auto simp: thread_enabled_def intro!: exI [of _ k]\<close>)
qed

lemma net_run_ok:
  assumes "net_ok parse process goal R net"
  shows "\<exists>net' R'. net_run parse process net ks = Some net' \<and> net_ok parse process goal R' net' \<and>
    length (mn_threads net') = length (mn_threads net) \<and> net_measure R' net' \<le> net_measure R net \<and>
    (\<forall>l \<in> set ks. thread_enabled parse net l \<longrightarrow> net_measure R' net' < net_measure R net)"
  using assms
proof (induction ks arbitrary: net R)
  case Nil
  then show ?case by auto
next
  case (Cons k ks)
  from net_step_ok [OF Cons.prems, of k] obtain net1 where
    1: "net_step parse process net k = Some net1" "step_ok parse process goal R net k net1" by blast
  then obtain R1 where R1: "net_ok parse process goal R1 net1" "net_measure R1 net1 \<le> net_measure R net"
    "thread_enabled parse net k \<Longrightarrow> net_measure R1 net1 < net_measure R net"
    by (auto simp: step_ok_def)
  from Cons.IH [OF R1(1)] obtain net' R' where
    2: "net_run parse process net1 ks = Some net'" "net_ok parse process goal R' net'"
    "length (mn_threads net') = length (mn_threads net1)" "net_measure R' net' \<le> net_measure R1 net1"
    "\<forall>l \<in> set ks. thread_enabled parse net1 l \<longrightarrow> net_measure R' net' < net_measure R1 net1" by blast
  have "net_measure R' net' < net_measure R net" if "l \<in> set (k # ks)" "thread_enabled parse net l" for l
  proof (cases "l = k")
    case True
    with that R1(3) 2(4) show ?thesis by simp
  next
    case False
    with that 1(2) have "thread_enabled parse net1 l" by (auto simp: step_ok_def)
    with False that(1) 2(5) R1(2) show ?thesis by force
  qed
  with 1 2 R1(2) show ?case by (auto simp: step_ok_def intro!: exI [of _ R'])
qed

text \<open>A round gives every thread at least one turn, in any order and as often as it likes.\<close>

definition fair_round :: "('l, 'p) merge_net \<Rightarrow> nat list \<Rightarrow> bool" where
  "fair_round net ks \<longleftrightarrow> {..<length (mn_threads net)} \<subseteq> set ks"

lemma net_run_append:
  "net_run parse process net (ks @ ls) =
     Option.bind (net_run parse process net ks) (\<lambda>net'. net_run parse process net' ls)"
  by (induction ks arbitrary: net) (auto split: Option.bind_splits)

lemma finished_step: "net_finished parse net \<Longrightarrow> net_step parse process net k = Some net"
  by (auto simp: net_finished_def net_step_def Let_def list_all_length)

lemma finished_run: "net_finished parse net \<Longrightarrow> net_run parse process net ks = Some net"
  by (induction ks) (auto simp: finished_step)

lemma fair_rounds_finish:
  assumes "net_ok parse process goal R net" and "net_measure R net \<le> length rounds"
    and "list_all (fair_round net) rounds"
  shows "\<exists>net' R'. net_run parse process net (concat rounds) = Some net' \<and>
    net_ok parse process goal R' net' \<and> net_finished parse net'"
  using assms
proof (induction rounds arbitrary: net R)
  case Nil
  have "net_finished parse net"
  proof (rule ccontr)
    assume "\<not> net_finished parse net"
    from net_no_deadlock [OF Nil.prems(1) this] obtain k where "thread_enabled parse net k" ..
    with net_run_ok [OF Nil.prems(1), of "[k]"] Nil.prems(2) show False by auto
  qed
  with Nil.prems show ?case by auto
next
  case (Cons ks rounds)
  show ?case
  proof (cases "net_finished parse net")
    case True
    then show ?thesis using Cons.prems finished_run by (metis)
  next
    case False
    from net_no_deadlock [OF Cons.prems(1) False] obtain k where k: "thread_enabled parse net k" ..
    then have "k \<in> set ks" using Cons.prems(3) by (auto simp: fair_round_def thread_enabled_def)
    from net_run_ok [OF Cons.prems(1), of ks] obtain net1 R1 where
      1: "net_run parse process net ks = Some net1" "net_ok parse process goal R1 net1"
      "length (mn_threads net1) = length (mn_threads net)" "net_measure R1 net1 < net_measure R net"
      using k \<open>k \<in> set ks\<close> by blast
    have "fair_round net1 = fair_round net" using 1(3) by (auto simp: fair_round_def)
    with Cons.IH [OF 1(2)] 1 Cons.prems obtain net' R' where
      "net_run parse process net1 (concat rounds) = Some net'" "net_ok parse process goal R' net'"
      "net_finished parse net'" by auto
    with 1(1) show ?thesis by (auto simp: net_run_append)
  qed
qed

lemma finished_goal:
  assumes "net_ok parse process goal R net" and "net_finished parse net"
    and "Dispatcher d \<in> set (mn_threads net)"
  shows "(ds_processor d, ds_summary d) = goal"
proof -
  have "thread_goal process R (Dispatcher d) goal" "ds_returned d"
    using assms by (auto simp: net_ok_def local_ok_def net_finished_def list_all_iff dispatcher_request_def
        split: if_splits)
  then show ?thesis by (simp add: dispatched_def)
qed

end
