(* ===== verification/Runners.thy ===== *)
theory Runners
  imports MergeNetwork "HOL-Library.List_Lexorder" "HOL-Library.Char_ord"
begin

text \<open>
  The runners of \<^verbatim>\<open>src/runners\<close>: which files of a folder are read
  (\<^verbatim>\<open>InputFileDiscovery.cpp\<close>), how the threads are connected (\<^verbatim>\<open>FlatMergeRunner.cpp\<close>: one merger over
  all files; \<^verbatim>\<open>HierarchicalMergeRunner.cpp\<close>: a tree of mergers of fan-in four) and what is reported
  when they have joined. \<^verbatim>\<open>StandardRunner.cpp\<close> reads one file without any thread. The model is
  the default build, in which \<^verbatim>\<open>ENABLE_ARROW\<close> is off. Progress output and the wall clock are left out.
\<close>

section \<open>The file system\<close>

text \<open>
  What the code asks of \<^verbatim>\<open>std::filesystem\<close> and \<^verbatim>\<open>std::ifstream\<close>: \<open>fs_entries\<close> is what
  \<^verbatim>\<open>recursive_directory_iterator\<close> visits, in an unspecified order, and \<open>fs_lines\<close> the lines of a file
  that can be opened.
\<close>

type_synonym path = string

record filesystem =
  fs_exists :: "path \<Rightarrow> bool"
  fs_is_directory :: "path \<Rightarrow> bool"
  fs_is_regular_file :: "path \<Rightarrow> bool"
  fs_entries :: "path \<Rightarrow> path list"
  fs_lines :: "path \<Rightarrow> string list option"

text \<open>\<^verbatim>\<open>path::filename\<close>, and the elements that the order of paths compares one by one.\<close>

definition filename :: "path \<Rightarrow> string" where
  "filename p = rev (takeWhile (\<lambda>c. c \<noteq> CHR ''/'') (rev p))"

fun path_elements :: "path \<Rightarrow> string list" where
  "path_elements [] = [[]]"
| "path_elements (c # cs) =
     (if c = CHR ''/'' then [] # path_elements cs
      else (case path_elements cs of [] \<Rightarrow> [[c]] | e # es \<Rightarrow> (c # e) # es))"

section \<open>InputFormat.hpp and InputFileDiscovery.cpp\<close>

datatype InputFormat = Json | Feather

fun inputFormatName :: "InputFormat \<Rightarrow> string" where
  "inputFormatName Json = ''json''"
| "inputFormatName Feather = ''feather''"

definition lower_char :: "char \<Rightarrow> char" where
  "lower_char c =
     (if 65 \<le> (of_char c :: nat) \<and> (of_char c :: nat) \<le> 90 then char_of ((of_char c :: nat) + 32) else c)"

definition lower :: "string \<Rightarrow> string" where
  "lower = map lower_char"

definition endsWith :: "string \<Rightarrow> string \<Rightarrow> bool" where
  "endsWith value suffix \<longleftrightarrow>
     length suffix \<le> length value \<and> drop (length value - length suffix) value = suffix"

definition isMetadataFile :: "path \<Rightarrow> bool" where
  "isMetadataFile p =
     (let name = lower (filename p)
      in name = ''condition'' \<or> name = ''condition.json'' \<or> name = ''manifest'' \<or>
         name = ''manifest.json'' \<or> name = ''metadata'' \<or> name = ''metadata.json'')"

definition isSupportedJsonDataFile :: "path \<Rightarrow> bool" where
  "isSupportedJsonDataFile p =
     (let name = lower (filename p)
      in if name = [] \<or> hd name = CHR ''.'' then False
         else if isMetadataFile p then False
         else if endsWith name ''.mbo.json'' \<or> endsWith name ''.mbo'' then True
         else if endsWith name ''.ndjson'' \<or> endsWith name ''.jsonl'' then True
         else endsWith name ''.json'')"

definition isSupportedFeatherDataFile :: "path \<Rightarrow> bool" where
  "isSupportedFeatherDataFile p =
     (let name = lower (filename p)
      in if name = [] \<or> hd name = CHR ''.'' then False
         else endsWith name ''.feather'' \<or> endsWith name ''.ftr'')"

fun isSupportedDataFile :: "path \<Rightarrow> InputFormat \<Rightarrow> bool" where
  "isSupportedDataFile p Json = isSupportedJsonDataFile p"
| "isSupportedDataFile p Feather = isSupportedFeatherDataFile p"

definition discoverInputFiles :: "filesystem \<Rightarrow> path \<Rightarrow> InputFormat \<Rightarrow> exn + path list" where
  "discoverInputFiles fs folder format =
     (if \<not> fs_exists fs folder then Inl (runtime_error (''input folder does not exist: '' @ folder))
      else if \<not> fs_is_directory fs folder then
        Inl (runtime_error (''input path must be a folder: '' @ folder))
      else
        (let files = sort_key path_elements
               (filter (\<lambda>p. fs_is_regular_file fs p \<and> isSupportedDataFile p format) (fs_entries fs folder))
         in if files = [] then
              Inl (runtime_error (''input folder contains no supported '' @ inputFormatName format @
                '' market-data files: '' @ folder))
            else Inr files))"

section \<open>startProducerThreads\<close>

fun validateReadableFiles :: "filesystem \<Rightarrow> path list \<Rightarrow> exn + unit" where
  "validateReadableFiles fs [] = Inr ()"
| "validateReadableFiles fs (file # files) =
     (if \<not> fs_exists fs file \<or> \<not> fs_is_regular_file fs file then
        Inl (runtime_error (''input file is not readable: '' @ file))
      else if fs_lines fs file = None then Inl (runtime_error (''cannot open input file: '' @ file))
      else validateReadableFiles fs files)"

text \<open>
  The queues and the producer threads. Each thread opens its file once more; the file has
  just been opened by \<^verbatim>\<open>validateReadableFiles\<close>, and the file system does not change meanwhile.
\<close>

definition startProducerThreads ::
  "filesystem \<Rightarrow> path list \<Rightarrow> InputFormat \<Rightarrow> exn + EventQueue list \<times> string producer list" where
  "startProducerThreads fs files format =
     (if format = Feather then
        Inl (runtime_error (''Feather input requires an Arrow-enabled build. '' @
          ''Rebuild with -DENABLE_ARROW=ON.''))
      else case validateReadableFiles fs files of
        Inl x \<Rightarrow> Inl x
      | Inr _ \<Rightarrow>
          (case makeEventQueue of
             Inl x \<Rightarrow> Inl x
           | Inr queue \<Rightarrow>
               Inr (replicate (length files) queue,
                    map (\<lambda>index. producer_new index (the (fs_lines fs (files ! index))) index)
                      [0..<length files])))"

section \<open>buildMergeTree\<close>

definition merge_fan_in :: nat where
  "merge_fan_in = 4"

text \<open>
  One pass of the outer loop: the queues of the next level, the mergers started and the next
  free queue number.
\<close>

function merge_level :: "nat \<Rightarrow> nat list \<Rightarrow> nat list \<times> merger list \<times> nat" where
  "merge_level fresh current =
     (if current = [] then ([], [], fresh)
      else let group = take merge_fan_in current; rest = drop merge_fan_in current
      in if length group = 1 then
           (let (level, mergers, fresh') = merge_level fresh rest in (hd group # level, mergers, fresh'))
         else
           (let (level, mergers, fresh') = merge_level (fresh + 1) rest
            in (fresh # level, merger_new group fresh # mergers, fresh')))"
  by auto
termination
  by (relation "measure (\<lambda>(_, current). length current)") (auto simp: merge_fan_in_def)

declare merge_level.simps [simp del]

lemma merge_level_Nil: "merge_level f [] = ([], [], f)"
  by (simp add: merge_level.simps)

lemma merge_level_single: "merge_level f [q] = ([q], [], f)"
  by (simp add: merge_level.simps [of f "[q]"] merge_fan_in_def merge_level_Nil)

lemma merge_level_group:
  assumes "2 \<le> length current"
  shows "merge_level f current =
    (let (level, mergers, f') = merge_level (Suc f) (drop 4 current)
     in (f # level, merger_new (take 4 current) f # mergers, f'))"
  using assms by (subst merge_level.simps) (auto simp: merge_fan_in_def Let_def)

lemma merge_level_induct [case_names Nil single group]:
  assumes "\<And>f. P f []" and "\<And>f q. P f [q]"
    and "\<And>f current. 2 \<le> length current \<Longrightarrow> P (Suc f) (drop 4 current) \<Longrightarrow> P f current"
  shows "P f current"
proof (induction "length current" arbitrary: f current rule: less_induct)
  case less
  consider "current = []" | q where "current = [q]" | "2 \<le> length current"
    by (cases current; cases "tl current") auto
  then show ?case using assms less by cases auto
qed

lemma merge_level_length:
  "merge_level f current = (level, mergers, f') \<Longrightarrow> length level \<le> (length current + 3) div 4"
proof (induction f current arbitrary: level mergers f' rule: merge_level_induct)
  case (group f current)
  obtain l ms g where m: "merge_level (Suc f) (drop 4 current) = (l, ms, g)" by (metis prod_cases3)
  with group.prems group.hyps have "level = f # l" by (simp add: merge_level_group)
  then have "length level = length l + 1" by simp
  moreover have "length l \<le> (length current - 4 + 3) div 4" using group.IH [OF m] by simp
  ultimately show ?case using group.hyps
    by (cases "4 \<le> length current"; simp add: less_eq_div_iff_mult_less_eq; linarith)
qed (auto simp: merge_level_Nil merge_level_single)

text \<open>The outer loop; \<open>current\<close> is not empty.\<close>

function build_levels :: "nat \<Rightarrow> nat list \<Rightarrow> nat \<times> merger list \<times> nat" where
  "build_levels fresh current =
     (if length current \<le> 1 then (hd current, [], fresh)
      else let (next_level, mergers, fresh') = merge_level fresh current;
               (final_queue, mergers', fresh'') = build_levels fresh' next_level
      in (final_queue, mergers @ mergers', fresh''))"
  by auto
termination
proof (relation "measure (\<lambda>(_, current). length current)")
  fix fresh current x next_level y mergers fresh'
  assume a: "\<not> length current \<le> 1" "x = merge_level fresh current" "(next_level, y) = x"
    "(mergers, fresh') = y"
  then have "length next_level \<le> (length current + 3) div 4"
    using merge_level_length [of fresh current next_level mergers fresh'] by simp
  with a(1) show "((fresh', next_level), fresh, current) \<in> measure (\<lambda>(_, current). length current)"
    by simp
qed simp

declare build_levels.simps [simp del]

text \<open>
  \<^verbatim>\<open>buildMergeTree\<close>: the queues in the order in which they are made, the mergers and the number of
  the final queue. Without producers the final queue only holds the end marker (a push into a
  new queue does not fault).
\<close>

definition buildMergeTree ::
  "EventQueue \<Rightarrow> EventQueue list \<Rightarrow> EventQueue list \<times> merger list \<times> nat" where
  "buildMergeTree queue current =
     (if current = [] then ([the (Option.bind (NBQ_push QueueItem_end queue) NBQ_flush)], [], 0)
      else let (final_queue, mergers, fresh) = build_levels (length current) [0..<length current]
      in (current @ replicate (fresh - length current) queue, mergers, final_queue))"

section \<open>The runners\<close>

record 'p RunResult =
  rr_strategy_name :: string
  rr_summary :: ProcessingSummary
  rr_diagnostics :: ParseDiagnostics
  rr_processor :: 'p

text \<open>The threads of a run: producers, mergers and the dispatcher, not started yet.\<close>

definition flat_network :: "EventQueue \<Rightarrow> EventQueue list \<Rightarrow> 'l producer list \<Rightarrow> 'p \<Rightarrow> ('l, 'p) merge_net" where
  "flat_network merged_queue queues producers processor =
     (let n = length queues
      in \<lparr>mn_queues = queues @ [merged_queue],
          mn_threads = map Producer producers @ [Merger (merger_new [0..<n] n), Dispatcher (dispatcher_new n processor)]\<rparr>)"

definition FlatMergeRunner_start ::
  "filesystem \<Rightarrow> path \<Rightarrow> InputFormat \<Rightarrow> 'p \<Rightarrow> exn + (string, 'p) merge_net" where
  "FlatMergeRunner_start fs folder format processor =
     (case discoverInputFiles fs folder format of
        Inl x \<Rightarrow> Inl x
      | Inr files \<Rightarrow>
          (case startProducerThreads fs files format of
             Inl x \<Rightarrow> Inl x
           | Inr (queues, producers) \<Rightarrow>
               (case makeEventQueue of
                  Inl x \<Rightarrow> Inl x
                | Inr merged_queue \<Rightarrow> Inr (flat_network merged_queue queues producers processor))))"

definition hierarchical_network :: "EventQueue \<Rightarrow> EventQueue list \<Rightarrow> 'l producer list \<Rightarrow> 'p \<Rightarrow> ('l, 'p) merge_net" where
  "hierarchical_network queue queues producers processor =
     (case buildMergeTree queue queues of
        (all_queues, mergers, final_queue) \<Rightarrow>
          \<lparr>mn_queues = all_queues,
           mn_threads = map Producer producers @ map Merger mergers @ [Dispatcher (dispatcher_new final_queue processor)]\<rparr>)"

definition HierarchicalMergeRunner_start ::
  "filesystem \<Rightarrow> path \<Rightarrow> InputFormat \<Rightarrow> 'p \<Rightarrow> exn + (string, 'p) merge_net" where
  "HierarchicalMergeRunner_start fs folder format processor =
     (case discoverInputFiles fs folder format of
        Inl x \<Rightarrow> Inl x
      | Inr files \<Rightarrow>
          (case startProducerThreads fs files format of
             Inl x \<Rightarrow> Inl x
           | Inr (queues, producers) \<Rightarrow>
               (case makeEventQueue of
                  Inl x \<Rightarrow> Inl x
                | Inr queue \<Rightarrow> Inr (hierarchical_network queue queues producers processor))))"

text \<open>\<^verbatim>\<open>ProducerSet::combinedDiagnostics\<close>, and the result once every thread has joined.\<close>

definition combinedDiagnostics :: "ParseDiagnostics list \<Rightarrow> ParseDiagnostics" where
  "combinedDiagnostics = foldl ParseDiagnostics_add \<lparr>pd_total_lines_read = 0\<rparr>"

fun producer_diagnostics :: "('l, 'p) thread list \<Rightarrow> ParseDiagnostics list" where
  "producer_diagnostics [] = []"
| "producer_diagnostics (Producer p # ts) = pr_diagnostics p # producer_diagnostics ts"
| "producer_diagnostics (_ # ts) = producer_diagnostics ts"

definition run_result :: "string \<Rightarrow> ('l, 'p) merge_net \<Rightarrow> 'p RunResult option" where
  "run_result name net =
     (case last (mn_threads net) of
        Dispatcher d \<Rightarrow>
          Some \<lparr>rr_strategy_name = name, rr_summary = ds_summary d,
                rr_diagnostics = combinedDiagnostics (producer_diagnostics (mn_threads net)),
                rr_processor = ds_processor d\<rparr>
      | _ \<Rightarrow> None)"

text \<open>\<^verbatim>\<open>StandardRunner::run\<close>: the loop over the lines of one file.\<close>

fun standard_loop ::
  "string line_parser \<Rightarrow> ('p \<Rightarrow> MarketDataEvent \<Rightarrow> 'p) \<Rightarrow> u64 \<Rightarrow> 'p RunResult \<Rightarrow> string list \<Rightarrow> exn + 'p RunResult" where
  "standard_loop parse process n r [] = Inr r"
| "standard_loop parse process n r (line # lines) =
     (case parse line (n + 1) 0 (n + 1) of
        Inl x \<Rightarrow> Inl x
      | Inr e \<Rightarrow>
          standard_loop parse process (n + 1)
            (r\<lparr>rr_diagnostics := ParseDiagnostics_add (rr_diagnostics r) \<lparr>pd_total_lines_read = 1\<rparr>,
               rr_processor := process (rr_processor r) e,
               rr_summary := ProcessingSummary_observe (rr_summary r) e\<rparr>) lines)"

definition StandardRunner_run ::
  "string line_parser \<Rightarrow> ('p \<Rightarrow> MarketDataEvent \<Rightarrow> 'p) \<Rightarrow> filesystem \<Rightarrow> path \<Rightarrow> 'p \<Rightarrow> exn + 'p RunResult" where
  "StandardRunner_run parse process fs file processor =
     (if \<not> fs_exists fs file then Inl (runtime_error (''input file does not exist: '' @ file))
      else if \<not> fs_is_regular_file fs file then
        Inl (runtime_error (''standard mode expects a file path: '' @ file))
      else case fs_lines fs file of
        None \<Rightarrow> Inl (runtime_error (''cannot open input file: '' @ file))
      | Some lines \<Rightarrow>
          standard_loop parse process 0
            \<lparr>rr_strategy_name = ''standard'', rr_summary = ProcessingSummary_new,
             rr_diagnostics = \<lparr>pd_total_lines_read = 0\<rparr>, rr_processor = processor\<rparr> lines)"

section \<open>The shape of the network\<close>

text \<open>
  Mergers \<open>ms\<close> over the queues \<open>0..<n\<close> of the producers: they write \<open>n, n + 1, \<dots>\<close>, read only earlier
  queues, and every queue but the final one is read exactly once.
\<close>

definition merge_tree :: "nat \<Rightarrow> merger list \<Rightarrow> nat \<Rightarrow> bool" where
  "merge_tree n ms final \<longleftrightarrow>
     map mg_output ms = [n..<n + length ms] \<and>
     mset (concat (map mg_inputs ms)) + {#final#} = mset [0..<n + length ms] \<and>
     (\<forall>m \<in> set ms. m = merger_new (mg_inputs m) (mg_output m) \<and> (\<forall>i \<in> set (mg_inputs m). i < mg_output m))"

lemma merger_new_simps [simp]:
  "mg_inputs (merger_new is q) = is" "mg_output (merger_new is q) = q" "mg_heap (merger_new is q) = []"
  by (simp_all add: merger_new_def)

lemma merge_tree_flat: "merge_tree n [merger_new [0..<n] n] n"
  by (auto simp: merge_tree_def)

lemma merge_level_spec:
  assumes "merge_level f current = (level, ms, f')" and "\<forall>i \<in> set current. i < f"
  shows "f' = f + length ms" and "map mg_output ms = [f..<f']"
    and "mset (concat (map mg_inputs ms)) + mset level = mset current + mset [f..<f']"
    and "\<forall>m \<in> set ms. m = merger_new (mg_inputs m) (mg_output m) \<and> (\<forall>i \<in> set (mg_inputs m). i < mg_output m)"
    and "\<forall>i \<in> set level. i < f'" and "current \<noteq> [] \<Longrightarrow> level \<noteq> []"
  using assms
proof (atomize (full), induction f current arbitrary: level ms f' rule: merge_level_induct)
  case (group f current)
  obtain l ms' g where m: "merge_level (Suc f) (drop 4 current) = (l, ms', g)" by (metis prod_cases3)
  with group.prems group.hyps have eq: "level = f # l" "ms = merger_new (take 4 current) f # ms'" "f' = g"
    by (simp_all add: merge_level_group)
  have "\<forall>i \<in> set (drop 4 current). i < Suc f" using group.prems(2) by (auto dest: in_set_dropD less_SucI)
  note IH = group.IH [OF m this]
  have fg: "g = Suc f + length ms'" using IH by blast
  then have u: "[f..<f'] = f # [Suc f..<g]" using eq(3) by (simp add: upt_conv_Cons del: upt_Suc)
  have td: "mset current = mset (take 4 current) + mset (drop 4 current)"
    by (metis append_take_drop_id mset_append)
  have "mset (concat (map mg_inputs ms)) + mset level = mset current + mset [f..<f']"
    using IH unfolding u td eq(1,2) by (simp add: ac_simps del: mset_upt)
  moreover have "map mg_output ms = [f..<f']" using IH unfolding u eq(2) by simp
  moreover have "\<forall>i \<in> set (take 4 current). i < f" using group.prems(2) by (auto dest: in_set_takeD)
  ultimately show ?case using IH eq fg by (auto simp del: upt_Suc)
qed (auto simp: merge_level_Nil merge_level_single)

lemma mset_chain: "a + l = c + u \<Longrightarrow> b + x = l + v \<Longrightarrow> (a + b) + x = c + (u + v)" for a :: "'a multiset"
  by (metis add.assoc add.left_commute)

lemma build_levels_spec:
  assumes "build_levels f current = (final, ms, f')" and "current \<noteq> []" and "\<forall>i \<in> set current. i < f"
  shows "f' = f + length ms" and "map mg_output ms = [f..<f']"
    and "mset (concat (map mg_inputs ms)) + {#final#} = mset current + mset [f..<f']"
    and "\<forall>m \<in> set ms. m = merger_new (mg_inputs m) (mg_output m) \<and> (\<forall>i \<in> set (mg_inputs m). i < mg_output m)"
  using assms
proof (atomize (full), induction f current arbitrary: final ms f' rule: build_levels.induct)
  case (1 f current)
  show ?case
  proof (cases "length current \<le> 1")
    case True
    with "1.prems" show ?thesis by (cases current) (auto simp: build_levels.simps [of f])
  next
    case False
    obtain level ms1 f1 where l: "merge_level f current = (level, ms1, f1)" by (metis prod_cases3)
    obtain final2 ms2 f2 where b: "build_levels f1 level = (final2, ms2, f2)" by (metis prod_cases3)
    have eq: "final = final2" "ms = ms1 @ ms2" "f' = f2"
      using "1.prems"(1) False l b by (simp_all add: build_levels.simps [of f current])
    note spec = merge_level_spec [OF l "1.prems"(3)]
    note IH = "1.IH" [OF False l [symmetric] refl refl b spec(6) [OF "1.prems"(2)] spec(5)]
    have "[f..<f'] = [f..<f1] @ [f1..<f']"
      using spec(1) IH eq by (metis le_add1 upt_add_eq_append le_Suc_ex)
    moreover from IH have "mset (concat (map mg_inputs ms2)) + {#final2#} = mset level + mset [f1..<f2]"
      by blast
    from mset_chain [OF spec(3) this]
    have "mset (concat (map mg_inputs ms)) + {#final#} = mset current + mset [f..<f']"
      using calculation eq by (simp del: mset_upt)
    ultimately show ?thesis using spec(1,2,4) IH eq by (auto simp del: mset_upt)
  qed
qed

lemma merge_tree_hierarchy:
  assumes "build_levels n [0..<n] = (final, ms, f)" and "0 < n"
  shows "merge_tree n ms final" and "f = n + length ms"
proof -
  have pre: "[0..<n] \<noteq> []" "\<forall>i \<in> set [0..<n]. i < n" using assms(2) by auto
  note spec = build_levels_spec [OF assms(1) pre]
  show "f = n + length ms" by (fact spec(1))
  have "[0..<n + length ms] = [0..<n] @ [n..<n + length ms]"
    by (metis le_add1 upt_add_eq_append zero_le)
  with spec show "merge_tree n ms final" by (simp add: merge_tree_def)
qed

section \<open>What each queue of the network delivers\<close>

fun net_streams :: "merger list \<Rightarrow> (nat \<Rightarrow> MarketDataEvent list) \<Rightarrow> nat \<Rightarrow> MarketDataEvent list" where
  "net_streams [] E = E"
| "net_streams (m # ms) E = net_streams ms (E(mg_output m := kmerge (rev (map E (mg_inputs m)))))"

lemma net_streams_other: "i \<notin> mg_output ` set ms \<Longrightarrow> net_streams ms E i = E i"
  by (induction ms arbitrary: E) auto

lemma net_streams_merger:
  assumes "map mg_output ms = [n..<n + length ms]" and "m \<in> set ms"
    and "\<forall>m \<in> set ms. \<forall>i \<in> set (mg_inputs m). i < mg_output m"
  shows "net_streams ms E (mg_output m) = kmerge (rev (map (net_streams ms E) (mg_inputs m)))"
  using assms
proof (induction ms arbitrary: n E)
  case (Cons m' ms)
  have out: "mg_output m' = n" "map mg_output ms = [Suc n..<Suc n + length ms]"
    using Cons.prems(1) by (simp_all add: upt_conv_Cons del: upt_Suc)
  then have later: "i \<notin> mg_output ` set ms" if "i \<le> n" for i
  proof -
    have "mg_output ` set ms = set [Suc n..<Suc n + length ms]" by (metis out(2) list.set_map)
    with that show ?thesis by simp
  qed
  show ?case
  proof (cases "m \<in> set ms")
    case True
    with Cons.IH [OF out(2)] Cons.prems show ?thesis by simp
  next
    case False
    with Cons.prems have m: "m = m'" by simp
    with Cons.prems(3) out have lt: "i < n" if "i \<in> set (mg_inputs m)" for i using that by auto
    let ?E = "E(n := kmerge (rev (map E (mg_inputs m))))"
    have "map (net_streams ms ?E) (mg_inputs m) = map E (mg_inputs m)"
    proof (rule map_cong [OF refl])
      fix i assume "i \<in> set (mg_inputs m)"
      from lt [OF this] show "net_streams ms ?E i = E i" using later [of i] by (simp add: net_streams_other)
    qed
    moreover have "net_streams ms ?E n = ?E n" using later [of n] by (simp add: net_streams_other)
    ultimately show ?thesis using m out(1) by (simp del: map_eq_conv)
  qed
qed simp

lemma net_streams_chronological:
  "(\<And>i. chronological (E i)) \<Longrightarrow> chronological (net_streams ms E i)"
proof (induction ms arbitrary: E)
  case (Cons m ms)
  have "chronological (kmerge (rev (map E (mg_inputs m))))"
    by (rule kmerge_chronological) (use Cons.prems in auto)
  with Cons show ?case by simp
qed simp

lemma sum_mset_union_list:
  "(\<Sum>i \<in># mset (concat (map f ms)). g i) = (\<Sum>m \<leftarrow> ms. \<Sum>i \<in># mset (f m). g i)" for g :: "'b \<Rightarrow> 'c multiset"
  by (induction ms) auto

lemma sum_mset_images:
  "(\<And>m. m \<in> set ms \<Longrightarrow> g (f m) = h m) \<Longrightarrow> (\<Sum>i \<in># mset (map f ms). g i) = (\<Sum>m \<leftarrow> ms. h m)"
  for g :: "'b \<Rightarrow> 'c multiset"
  by (induction ms) auto

lemma mset_concat_map: "mset (concat (map E is)) = (\<Sum>i \<in># mset is. mset (E i))"
  by (induction "is") auto

text \<open>Nothing is lost or duplicated on the way to the final queue.\<close>

lemma merge_tree_mset:
  assumes "merge_tree n ms final"
  shows "mset (net_streams ms E final) = mset (concat (map E [0..<n]))"
proof -
  let ?S = "net_streams ms E"
  let ?g = "\<lambda>i. mset (?S i)"
  have t: "map mg_output ms = [n..<n + length ms]"
    "mset (concat (map mg_inputs ms)) + {#final#} = mset [0..<n + length ms]"
    "\<forall>m \<in> set ms. \<forall>i \<in> set (mg_inputs m). i < mg_output m"
    using assms by (simp_all add: merge_tree_def)
  have "?g (mg_output m) = (\<Sum>i \<in># mset (mg_inputs m). ?g i)" if "m \<in> set ms" for m
  proof -
    have "?g (mg_output m) = mset (concat (rev (map ?S (mg_inputs m))))"
      using net_streams_merger [OF t(1) that t(3), of E] by (simp add: kmerge_mset)
    also have "\<dots> = mset (concat (map ?S (mg_inputs m)))"
      by (simp add: mset_concat rev_map [symmetric])
    finally show ?thesis by (simp add: mset_concat_map)
  qed
  from sum_mset_images [of ms ?g mg_output, OF this]
  have outs: "(\<Sum>i \<in># mset (map mg_output ms). ?g i) = (\<Sum>i \<in># mset (concat (map mg_inputs ms)). ?g i)"
    unfolding sum_mset_union_list .
  have "(\<Sum>i \<in># mset (concat (map mg_inputs ms)) + {#final#}. ?g i) =
      (\<Sum>i \<in># mset [0..<n]. ?g i) + (\<Sum>i \<in># mset (map mg_output ms). ?g i)"
    unfolding t(1,2) by (metis le_add1 upt_add_eq_append zero_le mset_append image_mset_union sum_mset.union)
  then have "?g final = (\<Sum>i \<in># mset [0..<n]. ?g i)"
    unfolding outs by simp
  also have "\<dots> = mset (concat (map ?S [0..<n]))" by (simp add: mset_concat_map)
  also have "map ?S [0..<n] = map E [0..<n]"
  proof (rule map_cong [OF refl])
    fix i assume "i \<in> set [0..<n]"
    moreover have "mg_output ` set ms = set [n..<n + length ms]" by (metis t(1) list.set_map)
    ultimately show "?S i = E i" by (intro net_streams_other) auto
  qed
  finally show ?thesis .
qed

lemma merge_tree_sorts:
  assumes "merge_tree n ms final" and "\<And>i. i < n \<Longrightarrow> chronological (E i)" and "\<And>i. n \<le> i \<Longrightarrow> E i = []"
    and "distinct (map event_key (concat (map E [0..<n])))"
  shows "net_streams ms E final = sort_key event_key (concat (map E [0..<n]))"
proof (rule sorted_distinct_keys_unique)
  have "chronological (E i)" for i using assms(2,3) [of i] by (cases "i < n") auto
  then show "sorted (map event_key (net_streams ms E final))"
    using chronological_sorted net_streams_chronological by blast
qed (fact merge_tree_mset [OF assms(1)] assms(4))+

section \<open>The initial state of a run\<close>

definition merge_network ::
  "EventQueue \<Rightarrow> 'l list list \<Rightarrow> merger list \<Rightarrow> nat \<Rightarrow> 'p \<Rightarrow> ('l, 'p) merge_net" where
  "merge_network queue inputs ms final processor =
     \<lparr>mn_queues = replicate (length inputs + length ms) queue,
      mn_threads = map (\<lambda>i. Producer (producer_new i (inputs ! i) i)) [0..<length inputs] @
        map Merger ms @ [Dispatcher (dispatcher_new final processor)]\<rparr>"

lemma distinct_concat_nth:
  "distinct (concat xs) \<Longrightarrow> k < length xs \<Longrightarrow> l < length xs \<Longrightarrow> k \<noteq> l \<Longrightarrow> set (xs ! k) \<inter> set (xs ! l) = {}"
proof (induction xs arbitrary: k l)
  case (Cons x xs)
  then have "set x \<inter> set (xs ! j) = {}" if "j < length xs" for j
    using that nth_mem [OF that] by fastforce
  then show ?case using Cons by (cases k; cases l) auto
qed simp

lemma wiredI:
  assumes "outs = map Some [0..<n] @ [None]" and "length ins = Suc n" and "distinct (concat ins)"
    and "\<And>i. i \<in> set (concat ins) \<Longrightarrow> i < n" and "\<And>k i. k < n \<Longrightarrow> i \<in> set (ins ! k) \<Longrightarrow> i < k"
  shows "wired ins outs n"
proof -
  have out: "outs ! k = (if k < n then Some k else None)" if "k < Suc n" for k
    using assms(1) that by (auto simp: nth_append)
  have "i < n" if "k < length ins" "i \<in> set (ins ! k)" for k i
    using assms(4) [of i] nth_mem [OF that(1)] that(2) by auto
  moreover have "\<exists>k < length ins. outs ! k = Some i" if "i < n" for i
    using that out [of i] assms(2) by (intro exI [of _ i]) simp
  moreover have "length outs = Suc n" using assms(1) by simp
  ultimately show ?thesis
    using assms(2,5) out distinct_concat_nth [OF assms(3)]
    unfolding wired_def by (auto split: if_splits)
qed

lemma merge_tree_wired:
  assumes "merge_tree (length inputs) ms final"
  shows "net_wired (merge_network queue inputs ms final processor)"
proof -
  let ?n = "length inputs" and ?N = "length inputs + length ms"
  have t: "map mg_output ms = [?n..<?N]" "mset (concat (map mg_inputs ms)) + {#final#} = mset [0..<?N]"
    "\<forall>m \<in> set ms. \<forall>i \<in> set (mg_inputs m). i < mg_output m"
    using assms by (simp_all add: merge_tree_def)
  let ?ins = "replicate ?n [] @ map mg_inputs ms @ [[final]]"
  have ins: "map thread_ins (mn_threads (merge_network queue inputs ms final processor)) = ?ins"
    by (simp add: merge_network_def dispatcher_new_def comp_def map_replicate_const)
  have outs: "map thread_out (mn_threads (merge_network queue inputs ms final processor)) =
      map Some [0..<?N] @ [None]"
  proof -
    have "map (\<lambda>m. Some (mg_output m)) ms = map Some [?n..<?N]"
      using arg_cong [OF t(1), of "map Some"] by (simp add: comp_def)
    then show ?thesis
      by (simp add: merge_network_def producer_new_def comp_def upt_add_eq_append [of 0 ?n "length ms"])
  qed
  have c: "mset (concat ?ins) = mset [0..<?N]" using t(2) by simp
  have "wired ?ins (map Some [0..<?N] @ [None]) ?N"
  proof (rule wiredI)
    show "distinct (concat ?ins)" using c by (metis mset_eq_imp_distinct_iff distinct_upt)
    show "i < ?N" if "i \<in> set (concat ?ins)" for i
      using that mset_eq_setD [OF c] by auto
    show "i < k" if "k < ?N" "i \<in> set (?ins ! k)" for k i
    proof (cases "k < ?n")
      case True
      with that show ?thesis by (simp add: nth_append)
    next
      case False
      with that(1) have kn: "k - ?n < length ms" by simp
      with that(2) False have k: "k - ?n < length ms" "i \<in> set (mg_inputs (ms ! (k - ?n)))"
        by (simp_all add: nth_append)
      moreover have "mg_output (ms ! (k - ?n)) = k"
        using k(1) False t(1) by (metis nth_map nth_upt add_diff_inverse_nat nat_add_left_cancel_less)
      ultimately show ?thesis using t(3) nth_mem by metis
    qed
  qed simp_all
  then show ?thesis unfolding net_wired_def ins outs by (simp add: merge_network_def)
qed

text \<open>The events of the input files, as the producers number them.\<close>

definition parsed_inputs :: "'l line_parser \<Rightarrow> 'l list list \<Rightarrow> MarketDataEvent list list \<Rightarrow> bool" where
  "parsed_inputs parse inputs evs \<longleftrightarrow>
     length evs = length inputs \<and>
     (\<forall>i < length inputs. parse_lines parse (of_nat i) 0 (inputs ! i) = Inr (evs ! i))"

definition input_streams :: "MarketDataEvent list list \<Rightarrow> nat \<Rightarrow> MarketDataEvent list" where
  "input_streams evs i = (if i < length evs then evs ! i else [])"

lemma merge_network_ok:
  assumes tree: "merge_tree (length inputs) ms final" and q: "NBQ_inv queue" "NBQ_contents queue = []"
      "NBQ_published queue = []"
    and parsed: "parsed_inputs parse inputs evs"
  shows "net_ok parse process
    (dispatched process (processor, ProcessingSummary_new) (net_streams ms (input_streams evs) final))
    (\<lambda>i. stream (net_streams ms (input_streams evs) i)) (merge_network queue inputs ms final processor)"
    (is "net_ok _ _ ?goal ?R ?net")
  unfolding net_ok_def
proof (intro conjI ballI)
  let ?n = "length inputs" and ?N = "length inputs + length ms" and ?S = "net_streams ms (input_streams evs)"
  have t: "map mg_output ms = [?n..<?N]" "mset (concat (map mg_inputs ms)) + {#final#} = mset [0..<?N]"
    "\<forall>m \<in> set ms. \<forall>i \<in> set (mg_inputs m). i < mg_output m"
    "\<forall>m \<in> set ms. m = merger_new (mg_inputs m) (mg_output m)"
    using tree by (simp_all add: merge_tree_def)
  show "net_wired ?net" by (rule merge_tree_wired [OF tree])
  show "NBQ_inv x" if "x \<in> set (mn_queues ?net)" for x
    using that q by (auto simp: merge_network_def)
  show "local_ok parse process ?goal ?R (mn_queues ?net) x" if "x \<in> set (mn_threads ?net)" for x
  proof -
    from that consider i where "i < ?n" "x = Producer (producer_new i (inputs ! i) i)"
      | m where "m \<in> set ms" "x = Merger m" | "x = Dispatcher (dispatcher_new final processor)"
      by (auto simp: merge_network_def)
    then show ?thesis
    proof cases
      case (1 i)
      have "i \<notin> mg_output ` set ms"
      proof -
        have "mg_output ` set ms = set [?n..<?N]" by (metis t(1) list.set_map)
        with 1 show ?thesis by simp
      qed
      then have "?S i = evs ! i" using 1 parsed by (simp add: net_streams_other input_streams_def parsed_inputs_def)
      with 1 parsed q show ?thesis
        by (simp add: local_ok_def merge_network_def producer_new_def producer_valid_def producer_left_def
            producer_future_def producer_request_def parsed_inputs_def Let_def split: list.splits sum.splits)
    next
      case (2 m)
      have d: "distinct (mg_inputs m)"
      proof -
        have "distinct (concat (map mg_inputs ms) @ [final])"
          using t(2) by (metis mset_eq_imp_distinct_iff distinct_upt mset_append mset_single_iff_right)
        with 2 show ?thesis by (auto simp: distinct_concat_iff)
      qed
      have "mg_output m \<in> set [?n..<?N]" using 2 t(1) by (metis image_eqI list.set_map)
      moreover have "?S (mg_output m) = kmerge (rev (map ?S (mg_inputs m)))"
        by (rule net_streams_merger [OF t(1) 2(1) t(3)])
      moreover obtain ins out where m: "m = merger_new ins out" using t(4) 2(1) by blast
      ultimately show ?thesis using 2 q d
        by (auto simp: local_ok_def merge_network_def merger_valid_def merger_future_def merger_left_def
            merger_open_def merger_new_def merger_request_def heap_lists_def split: if_splits)
    next
      case 3
      then show ?thesis by (simp add: local_ok_def dispatcher_new_def)
    qed
  qed
qed

section \<open>What the threads leave behind\<close>

lemma net_step_map:
  assumes "net_step parse process net k = Some net'"
    and "\<And>t x. f (thread_popped process x t) = f t" and "\<And>t. f (thread_written t) = f t"
  shows "map f (mn_threads net') = map f (mn_threads net)"
  using assms
  by (auto simp: net_step_def Let_def map_update_same bind_eq_Some_conv not_le
      split: if_splits request.splits option.splits)

lemma net_run_map:
  assumes "net_run parse process net ks = Some net'"
    and f: "\<And>t x. f (thread_popped process x t) = f t" "\<And>t. f (thread_written t) = f t"
  shows "map f (mn_threads net') = map f (mn_threads net)"
  using assms(1)
proof (induction ks arbitrary: net)
  case (Cons k ks)
  then obtain net1 where "net_step parse process net k = Some net1"
    "net_run parse process net1 ks = Some net'" by (auto simp: bind_eq_Some_conv)
  with Cons.IH net_step_map [OF _ f] show ?case by metis
qed simp

text \<open>Which kind of thread it is, and how many lines a producer will have counted.\<close>

fun thread_trace :: "('l, 'p) thread \<Rightarrow> (u64 \<times> bool) option \<times> bool" where
  "thread_trace (Producer p) =
     (Some (pd_total_lines_read (pr_diagnostics p) + of_nat (length (pr_lines p)),
            pr_pc p = PReading \<or> pr_lines p = []), False)"
| "thread_trace (Merger m) = (None, False)"
| "thread_trace (Dispatcher d) = (None, True)"

lemma thread_trace_popped: "thread_trace (thread_popped process x t) = thread_trace t"
  by (cases t) simp_all

lemma thread_trace_written: "thread_trace (thread_written t) = thread_trace t"
proof (cases t)
  case (Producer p)
  then show ?thesis
    by (cases "pr_pc p"; cases "pr_lines p") (simp_all add: producer_written_def add.assoc)
qed simp_all

lemmas net_run_trace = net_run_map [OF _ thread_trace_popped thread_trace_written]

lemma finished_diagnostics:
  assumes "map thread_trace ts = map (\<lambda>n. (Some (n, True), False)) ns @ replicate k (None, False) @ [(None, True)]"
    and "list_all (\<lambda>t. thread_request parse t = RHalt) ts"
  shows "producer_diagnostics ts = map (\<lambda>n. \<lparr>pd_total_lines_read = n\<rparr>) ns \<and> (\<exists>d. last ts = Dispatcher d)"
  using assms
proof (induction ns arbitrary: ts)
  case Nil
  then show ?case
  proof (induction k arbitrary: ts)
    case 0
    then obtain t where "ts = [t]" "thread_trace t = (None, True)" by (cases ts) auto
    then show ?case by (cases t) auto
  next
    case (Suc k)
    then obtain t ts' where ts: "ts = t # ts'" "thread_trace t = (None, False)" by (cases ts) auto
    with Suc have IH: "producer_diagnostics ts' = [] \<and> (\<exists>d. last ts' = Dispatcher d)" by simp
    moreover have "ts' \<noteq> []" using ts Suc.prems by auto
    moreover obtain m where "t = Merger m" using ts(2) by (cases t) auto
    ultimately show ?case using ts by simp
  qed
next
  case (Cons n ns)
  then obtain t ts' where ts: "ts = t # ts'" "thread_trace t = (Some (n, True), False)" by (cases ts) auto
  then obtain p where p: "t = Producer p" by (cases t) auto
  with ts Cons.prems have "pr_pc p = PReturned"
    by (auto simp: producer_request_def Let_def split: producer_pc.splits list.splits sum.splits)
  with p ts have "pr_diagnostics p = \<lparr>pd_total_lines_read = n\<rparr>" by auto
  moreover have "ts' \<noteq> []" using ts Cons.prems by auto
  ultimately show ?case using Cons ts p by simp
qed

lemma combinedDiagnostics_sum:
  "foldl ParseDiagnostics_add \<lparr>pd_total_lines_read = a\<rparr> (map (\<lambda>n. \<lparr>pd_total_lines_read = n\<rparr>) ns) =
     \<lparr>pd_total_lines_read = a + sum_list ns\<rparr>"
  by (induction ns arbitrary: a) (simp_all add: ParseDiagnostics_add_def add.assoc)

lemma parse_lines_length: "parse_lines parse file n lines = Inr es \<Longrightarrow> length es = length lines"
  by (induction lines arbitrary: n es) (auto split: sum.splits)

lemma parse_lines_numbered:
  assumes "parse_lines parse file n lines = Inr es"
    and "\<And>line n f s e. parse line n f s = Inr e \<Longrightarrow> ev_source_file_id e = f \<and> ev_source_sequence e = s"
  shows "i < length es \<Longrightarrow>
    ev_source_file_id (es ! i) = file \<and> ev_source_sequence (es ! i) = n + of_nat (Suc i)"
  using assms(1)
proof (induction lines arbitrary: n es i)
  case (Cons line lines)
  then obtain e es' where e: "parse line (n + 1) file (n + 1) = Inr e"
    "parse_lines parse file (n + 1) lines = Inr es'" "es = e # es'" by (auto split: sum.splits)
  with Cons.prems Cons.IH [of "i - 1" es' "n + 1"] assms(2) [OF e(1)] show ?case
    by (cases i) (auto simp: algebra_simps)
qed auto

section \<open>Chronological input gives distinct keys and sorted streams\<close>

text \<open>
  What the runners need of the parser: the event carries the file index and the line number it
  was given. \<open>parseMarketDataEventLine\<close> does so by construction (theory \<open>JsonParser\<close>).
\<close>

definition numbers_events :: "'l line_parser \<Rightarrow> bool" where
  "numbers_events parse \<longleftrightarrow>
     (\<forall>line n f s e. parse line n f s = Inr e \<longrightarrow> ev_source_file_id e = f \<and> ev_source_sequence e = s)"

text \<open>The files are in order of time and small enough for the numbers they are given.\<close>

definition ordered_inputs :: "MarketDataEvent list list \<Rightarrow> bool" where
  "ordered_inputs evs \<longleftrightarrow>
     length evs < 2 ^ 32 \<and> list_all (\<lambda>es. length es < two64 \<and> sorted (map ev_timestamp es)) evs"

lemma parsed_numbered:
  assumes "parsed_inputs parse inputs evs" and "numbers_events parse" and "f < length evs" and "i < length (evs ! f)"
  shows "ev_source_file_id (evs ! f ! i) = of_nat f" and "ev_source_sequence (evs ! f ! i) = of_nat (Suc i)"
proof -
  have "parse_lines parse (of_nat f) 0 (inputs ! f) = Inr (evs ! f)"
    using assms(1,3) by (simp add: parsed_inputs_def)
  from parse_lines_numbered [OF this _ assms(4)] assms(2)
  show "ev_source_file_id (evs ! f ! i) = of_nat f" "ev_source_sequence (evs ! f ! i) = of_nat (Suc i)"
    unfolding numbers_events_def by auto
qed

lemma of_nat_less_u64: "i < j \<Longrightarrow> j < two64 \<Longrightarrow> (of_nat i :: u64) < of_nat j"
  by (simp add: word_less_nat_alt unat_of_nat_u64)

lemma of_nat_u32_inj: "i < 2 ^ 32 \<Longrightarrow> j < 2 ^ 32 \<Longrightarrow> (of_nat i :: u32) = of_nat j \<Longrightarrow> i = j"
  by (simp add: word_of_nat_eq_iff take_bit_nat_eq_self)

lemma file_chronological:
  assumes "parsed_inputs parse inputs evs" and "numbers_events parse" and "ordered_inputs evs" and f: "f < length evs"
  shows "sorted_wrt (\<lambda>a b. eventComesBefore a b) (evs ! f)"
  unfolding sorted_wrt_iff_nth_less
proof (intro allI impI)
  fix i j assume ij: "i < j" "j < length (evs ! f)"
  have len: "length (evs ! f) < two64" and srt: "sorted (map ev_timestamp (evs ! f))"
    using assms(3) f by (auto simp: ordered_inputs_def list_all_length)
  have "ev_timestamp (evs ! f ! i) \<le> ev_timestamp (evs ! f ! j)"
    using sorted_nth_mono [OF srt, of i j] ij by simp
  moreover have "ev_source_sequence (evs ! f ! i) < ev_source_sequence (evs ! f ! j)"
    using parsed_numbered(2) [OF assms(1,2) f, of i] parsed_numbered(2) [OF assms(1,2) f, of j] ij len
      of_nat_less_u64 [of "Suc i" "Suc j"] by (simp del: of_nat_Suc)
  moreover have "ev_source_file_id (evs ! f ! i) = ev_source_file_id (evs ! f ! j)"
    using parsed_numbered(1) [OF assms(1,2) f] ij by simp
  ultimately show "eventComesBefore (evs ! f ! i) (evs ! f ! j)"
    by (auto simp: eventComesBefore_def)
qed

lemma strictly_before_chronological:
  assumes "sorted_wrt (\<lambda>a b. eventComesBefore a b) es"
  shows "chronological es" and "distinct (map event_key es)"
proof -
  show "chronological es" using assms by (rule sorted_wrt_mono_rel [rotated]) (rule eventComesBefore_asym)
  show "distinct (map event_key es)" using assms
    by (induction es) (auto simp: eventComesBefore_def)
qed

lemma inputs_distinct:
  assumes "parsed_inputs parse inputs evs" and "numbers_events parse" and "ordered_inputs evs"
  shows "distinct (map event_key (concat evs))"
proof -
  have id: "ev_source_file_id e = of_nat f" if "f < length evs" "e \<in> set (evs ! f)" for f e
    using that parsed_numbered(1) [OF assms(1,2) that(1)] by (metis in_set_conv_nth)
  have "k \<le> length evs \<Longrightarrow> distinct (map event_key (concat (take k evs)))" for k
  proof (induction k)
    case (Suc k)
    then have k: "k < length evs" by simp
    have "False" if e: "e \<in> set (concat (take k evs))" "e' \<in> set (evs ! k)" "event_key e = event_key e'" for e e'
    proof -
      from e(1) obtain es where es: "es \<in> set (take k evs)" "e \<in> set es" by auto
      from es(1) k obtain f where "f < k" "es = evs ! f" by (auto simp: in_set_conv_nth)
      with es(2) have f: "f < k" "e \<in> set (evs ! f)" by simp_all
      then have "(of_nat f :: u32) = of_nat k" using id [of f e] id [OF k e(2)] k e(3) by simp
      with f k assms(3) show False using of_nat_u32_inj [of f k] by (simp add: ordered_inputs_def)
    qed
    then have "set (map event_key (concat (take k evs))) \<inter> set (map event_key (evs ! k)) = {}"
      unfolding set_map by blast
    moreover have "distinct (map event_key (evs ! k))"
      by (rule strictly_before_chronological(2) [OF file_chronological [OF assms k]])
    ultimately show ?case using Suc k
      by (simp add: take_Suc_conv_app_nth del: set_map set_concat)
  qed simp
  from this [of "length evs"] show ?thesis by simp
qed

section \<open>The result of a run\<close>

definition merged_result ::
  "string \<Rightarrow> ('p \<Rightarrow> MarketDataEvent \<Rightarrow> 'p) \<Rightarrow> 'p \<Rightarrow> MarketDataEvent list list \<Rightarrow> 'p RunResult" where
  "merged_result name process processor evs =
     (let es = sort_key event_key (concat evs)
      in \<lparr>rr_strategy_name = name, rr_summary = foldl ProcessingSummary_observe ProcessingSummary_new es,
          rr_diagnostics = \<lparr>pd_total_lines_read = of_nat (length es)\<rparr>,
          rr_processor = foldl process processor es\<rparr>)"

lemma sum_list_of_nat: "sum_list (map (\<lambda>x. of_nat (f x)) xs) = (of_nat (sum_list (map f xs)) :: u64)"
  by (induction xs) simp_all

lemma parsed_lengths:
  assumes "parsed_inputs parse inputs evs"
  shows "sum_list (map (\<lambda>ls. of_nat (length ls)) inputs) = (of_nat (length (concat evs)) :: u64)"
proof -
  have "length (evs ! i) = length (inputs ! i)" if "i < length inputs" for i
    using assms that parse_lines_length unfolding parsed_inputs_def by metis
  then have "map length inputs = map length evs"
    using assms by (intro nth_equalityI) (simp_all add: parsed_inputs_def)
  then show ?thesis by (simp add: sum_list_of_nat length_concat)
qed

lemma input_streams_map: "map (input_streams evs) [0..<length evs] = evs"
  by (rule nth_equalityI) (simp_all add: input_streams_def)

lemma merge_network_result:
  assumes tree: "merge_tree (length inputs) ms final" and q: "makeEventQueue = Inr queue"
    and parsed: "parsed_inputs parse inputs evs" and num: "numbers_events parse" and ord: "ordered_inputs evs"
  shows "\<exists>bound. \<forall>rounds. bound \<le> length rounds \<and>
      list_all (fair_round (merge_network queue inputs ms final processor)) rounds \<longrightarrow>
    (\<exists>net'. net_run parse process (merge_network queue inputs ms final processor) (concat rounds) = Some net' \<and>
       net_finished parse net' \<and> run_result name net' = Some (merged_result name process processor evs))"
    (is "\<exists>bound. \<forall>rounds. _ \<and> list_all (fair_round ?net) rounds \<longrightarrow> _")
proof -
  let ?S = "net_streams ms (input_streams evs)" and ?R = "\<lambda>i. stream (net_streams ms (input_streams evs) i)"
  let ?goal = "dispatched process (processor, ProcessingSummary_new) (?S final)"
  have len: "length evs = length inputs" using parsed by (simp add: parsed_inputs_def)
  have ok: "net_ok parse process ?goal ?R ?net"
    by (rule merge_network_ok [OF tree _ _ _ parsed])
      (use NBQ_new_correct [OF q [unfolded makeEventQueue_def]] in auto)
  have sorted: "?S final = sort_key event_key (concat evs)"
  proof -
    have "?S final = sort_key event_key (concat (map (input_streams evs) [0..<length inputs]))"
      using inputs_distinct [OF parsed num ord] strictly_before_chronological(1) [OF file_chronological [OF parsed num ord]]
      by (intro merge_tree_sorts [OF tree]) (auto simp: len [symmetric] input_streams_map input_streams_def)
    then show ?thesis by (simp add: len [symmetric] input_streams_map)
  qed
  have "run_result name net' = Some (merged_result name process processor evs)"
    if run: "net_run parse process ?net ks = Some net'" and fin: "net_finished parse net'"
      and ok': "net_ok parse process ?goal R' net'" for ks net' R'
  proof -
    have "map thread_trace (mn_threads net') = map thread_trace (mn_threads ?net)"
      by (rule net_run_trace [OF run])
    also have "\<dots> = map (\<lambda>n. (Some (n, True), False)) (map (\<lambda>ls. of_nat (length ls)) inputs) @
        replicate (length ms) (None, False) @ [(None, True)]"
      by (auto simp: merge_network_def producer_new_def map_replicate_const comp_def intro!: nth_equalityI)
    finally have tr: "map thread_trace (mn_threads net') =
        map (\<lambda>n. (Some (n, True), False)) (map (\<lambda>ls. of_nat (length ls)) inputs) @
        replicate (length ms) (None, False) @ [(None, True)]" .
    from finished_diagnostics [OF tr fin [unfolded net_finished_def]] obtain d where
      d: "producer_diagnostics (mn_threads net') =
        map (\<lambda>n. \<lparr>pd_total_lines_read = n\<rparr>) (map (\<lambda>ls. of_nat (length ls)) inputs)"
      and l: "last (mn_threads net') = Dispatcher d" by blast
    have "mn_threads net' \<noteq> []" using tr by auto
    then have "Dispatcher d \<in> set (mn_threads net')" using l last_in_set by metis
    with finished_goal [OF ok' fin] have "(ds_processor d, ds_summary d) = ?goal" by blast
    moreover have "sum_list (map (\<lambda>ls. of_nat (length ls)) inputs) = (of_nat (length (concat evs)) :: u64)"
      by (rule parsed_lengths [OF parsed])
    ultimately show ?thesis using l d sorted
      by (simp add: run_result_def merged_result_def Let_def dispatched_def combinedDiagnostics_def
          combinedDiagnostics_sum [of 0] del: map_map)
  qed
  with fair_rounds_finish [OF ok] show ?thesis
    by (intro exI [of _ "net_measure ?R ?net"]) blast
qed

text \<open>Both runners start such a network when the folder can be read.\<close>

definition input_lines :: "filesystem \<Rightarrow> path list \<Rightarrow> string list list" where
  "input_lines fs files = map (\<lambda>f. the (fs_lines fs f)) files"

lemma start_producers:
  assumes "startProducerThreads fs files format = Inr (queues, producers)"
  obtains queue where "makeEventQueue = Inr queue" "queues = replicate (length files) queue"
    "producers = map (\<lambda>i. producer_new i (input_lines fs files ! i) i) [0..<length files]"
  using assms by (auto simp: startProducerThreads_def input_lines_def comp_def split: if_splits sum.splits)

text \<open>Both ways to connect the producers of some inputs give a network of the shape above.\<close>

abbreviation input_producers :: "'l list list \<Rightarrow> 'l producer list" where
  "input_producers inputs \<equiv> map (\<lambda>i. producer_new i (inputs ! i) i) [0..<length inputs]"

lemma flat_network_shape:
  "flat_network queue (replicate (length inputs) queue) (input_producers inputs) processor =
     merge_network queue inputs [merger_new [0..<length inputs] (length inputs)] (length inputs) processor"
  by (simp add: flat_network_def merge_network_def Let_def comp_def replicate_append_same)

lemma hierarchical_network_shape:
  assumes "inputs \<noteq> []"
  obtains ms final where "merge_tree (length inputs) ms final"
    "hierarchical_network queue (replicate (length inputs) queue) (input_producers inputs) processor =
       merge_network queue inputs ms final processor"
proof -
  obtain final ms f where b: "build_levels (length inputs) [0..<length inputs] = (final, ms, f)"
    by (metis prod_cases3)
  note tree = merge_tree_hierarchy [OF b]
  have "buildMergeTree queue (replicate (length inputs) queue) = (replicate (length inputs + length ms) queue, ms, final)"
    using assms b tree by (simp add: buildMergeTree_def replicate_add)
  then have "hierarchical_network queue (replicate (length inputs) queue) (input_producers inputs) processor =
       merge_network queue inputs ms final processor"
    by (simp add: hierarchical_network_def merge_network_def comp_def)
  with tree(1) assms that show thesis by simp
qed

lemma flat_start:
  assumes "FlatMergeRunner_start fs folder format processor = Inr net"
    and "discoverInputFiles fs folder format = Inr files"
  obtains queue where "makeEventQueue = Inr queue"
    "net = flat_network queue (replicate (length (input_lines fs files)) queue) (input_producers (input_lines fs files)) processor"
proof -
  from assms obtain queues producers where sp: "startProducerThreads fs files format = Inr (queues, producers)"
    by (auto simp: FlatMergeRunner_start_def split: sum.splits)
  from start_producers [OF sp] obtain queue where q: "makeEventQueue = Inr queue"
    "queues = replicate (length files) queue"
    "producers = map (\<lambda>i. producer_new i (input_lines fs files ! i) i) [0..<length files]"
    by metis
  have "length (input_lines fs files) = length files" by (simp add: input_lines_def)
  with assms(1) show thesis
    by (intro that [OF q(1)]) (simp add: FlatMergeRunner_start_def assms(2) sp q)
qed

lemma discover_nonempty: "discoverInputFiles fs folder format = Inr files \<Longrightarrow> files \<noteq> []"
  by (auto simp: discoverInputFiles_def Let_def split: if_splits)

lemma hierarchical_start:
  assumes "HierarchicalMergeRunner_start fs folder format processor = Inr net"
    and "discoverInputFiles fs folder format = Inr files"
  obtains queue where "makeEventQueue = Inr queue" "input_lines fs files \<noteq> []"
    "net = hierarchical_network queue (replicate (length (input_lines fs files)) queue)
       (input_producers (input_lines fs files)) processor"
proof -
  from assms obtain queues producers where sp: "startProducerThreads fs files format = Inr (queues, producers)"
    by (auto simp: HierarchicalMergeRunner_start_def split: sum.splits)
  from start_producers [OF sp] obtain queue where q: "makeEventQueue = Inr queue"
    "queues = replicate (length files) queue"
    "producers = map (\<lambda>i. producer_new i (input_lines fs files ! i) i) [0..<length files]"
    by metis
  have "length (input_lines fs files) = length files" by (simp add: input_lines_def)
  with assms(1) discover_nonempty [OF assms(2)] show thesis
    by (intro that [OF q(1)]) (auto simp: HierarchicalMergeRunner_start_def assms(2) sp q)
qed

text \<open>Whatever the inputs are made of, both networks deliver their events in order under fair schedules.\<close>

lemma flat_inputs_result:
  fixes processor :: 'p
  assumes "makeEventQueue = Inr queue"
    and "parsed_inputs parse inputs evs" and "numbers_events parse" and "ordered_inputs evs"
  defines "net \<equiv> flat_network queue (replicate (length inputs) queue) (input_producers inputs) processor"
  shows "\<exists>bound. \<forall>rounds. bound \<le> length rounds \<and> list_all (fair_round net) rounds \<longrightarrow>
    (\<exists>net'. net_run parse process net (concat rounds) = Some net' \<and> net_finished parse net' \<and>
       run_result ''flat'' net' = Some (merged_result ''flat'' process processor evs))"
  unfolding net_def flat_network_shape
  by (rule merge_network_result [OF merge_tree_flat assms(1-4)])

lemma hierarchical_inputs_result:
  fixes processor :: 'p
  assumes "makeEventQueue = Inr queue" and "inputs \<noteq> []"
    and "parsed_inputs parse inputs evs" and "numbers_events parse" and "ordered_inputs evs"
  defines "net \<equiv> hierarchical_network queue (replicate (length inputs) queue) (input_producers inputs) processor"
  shows "\<exists>bound. \<forall>rounds. bound \<le> length rounds \<and> list_all (fair_round net) rounds \<longrightarrow>
    (\<exists>net'. net_run parse process net (concat rounds) = Some net' \<and> net_finished parse net' \<and>
       run_result ''hierarchy'' net' = Some (merged_result ''hierarchy'' process processor evs))"
proof -
  obtain ms final where tree: "merge_tree (length inputs) ms final" and
    net: "net = merge_network queue inputs ms final processor"
    unfolding net_def by (rule hierarchical_network_shape [OF assms(2)])
  from merge_network_result [OF tree assms(1,3-5)] show ?thesis unfolding net .
qed

section \<open>The summary in closed form\<close>

text \<open>How many events come before the one just ahead of them.\<close>

fun violations :: "MarketDataEvent list \<Rightarrow> nat" where
  "violations (a # b # es) = (if eventComesBefore b a then 1 else 0) + violations (b # es)"
| "violations _ = 0"

definition summary_of :: "MarketDataEvent list \<Rightarrow> ProcessingSummary" where
  "summary_of es =
     \<lparr>ps_total_messages_processed = of_nat (length es), ps_chronological_violations = of_nat (violations es),
      ps_first_timestamp = (if es = [] then None else Some (ev_timestamp (hd es))),
      ps_last_timestamp = (if es = [] then None else Some (ev_timestamp (last es))),
      ps_previous_event = (if es = [] then None else Some (last es)),
      ps_first_events = take 10 es, ps_last_events = drop (length es - 10) es\<rparr>"

lemma timestamp_violations_snoc:
  "violations (es @ [e]) = violations es + (if es \<noteq> [] \<and> eventComesBefore e (last es) then 1 else 0)"
  by (induction es rule: violations.induct) auto

lemma violations_chronological: "chronological es \<Longrightarrow> violations es = 0"
  by (induction es rule: violations.induct) auto

lemma observe_snoc: "ProcessingSummary_observe (summary_of es) e = summary_of (es @ [e])"
proof -
  have "(if length (drop (length es - 10) es) = 10 then tl (drop (length es - 10) es)
         else drop (length es - 10) es) @ [e] = drop (length (es @ [e]) - 10) (es @ [e])"
  proof (cases "10 \<le> length es")
    case True
    then have "length (es @ [e]) - 10 = Suc (length es - 10)" by simp
    with True show ?thesis by (simp add: tl_drop drop_Suc)
  qed simp
  moreover have "(if length (take 10 es) < 10 then take 10 es @ [e] else take 10 es) = take 10 (es @ [e])"
    by simp
  ultimately show ?thesis
    by (cases "es = []") (simp_all add: ProcessingSummary_observe_def summary_of_def timestamp_violations_snoc Let_def
        split: if_splits)
qed

text \<open>A folder with two data files and a metadata file, and a parser for one-letter lines.\<close>

definition demo_fs :: filesystem where
  "demo_fs =
     \<lparr>fs_exists = (\<lambda>p. True), fs_is_directory = (\<lambda>p. p = ''d''), fs_is_regular_file = (\<lambda>p. p \<noteq> ''d''),
      fs_entries = (\<lambda>_. [''d/b.json'', ''d/manifest.json'', ''d/A.ndjson'']),
      fs_lines = (\<lambda>p. Some (if p = ''d/A.ndjson'' then [''a'', ''c''] else [''b'']))\<rparr>"

definition demo_parse :: "string line_parser" where
  "demo_parse line n file seq =
     (case line of
        [] \<Rightarrow> Inl (runtime_error ''empty line'')
      | c # _ \<Rightarrow> Inr (default_event\<lparr>ev_timestamp := of_nat (of_char c), ev_source_file_id := file,
                        ev_source_sequence := seq\<rparr>))"

definition demo_inputs :: "MarketDataEvent list list" where
  "demo_inputs =
     [[default_event\<lparr>ev_timestamp := 97, ev_source_file_id := 0, ev_source_sequence := 1\<rparr>,
       default_event\<lparr>ev_timestamp := 99, ev_source_file_id := 0, ev_source_sequence := 2\<rparr>],
      [default_event\<lparr>ev_timestamp := 98, ev_source_file_id := 1, ev_source_sequence := 1\<rparr>]]"

lemma demo_discover: "discoverInputFiles demo_fs ''d'' Json = Inr [''d/A.ndjson'', ''d/b.json'']"
  by code_simp

lemma demo_parsed: "parsed_inputs demo_parse (input_lines demo_fs [''d/A.ndjson'', ''d/b.json'']) demo_inputs"
  by (simp add: parsed_inputs_def less_Suc_eq demo_inputs_def demo_fs_def input_lines_def demo_parse_def)

lemma demo_numbers: "numbers_events demo_parse"
  by (auto simp: numbers_events_def demo_parse_def split: list.splits)

lemma demo_ordered: "ordered_inputs demo_inputs"
  by (simp add: ordered_inputs_def demo_inputs_def two64_def)

lemma demo_flat_start: "\<exists>net. FlatMergeRunner_start demo_fs ''d'' Json p = Inr net"
  unfolding FlatMergeRunner_start_def demo_discover
  by (simp add: startProducerThreads_def makeEventQueue_def NBQ_new_def event_queue_batch_size_def demo_fs_def Let_def)

lemma demo_hierarchical_start: "\<exists>net. HierarchicalMergeRunner_start demo_fs ''d'' Json p = Inr net"
  unfolding HierarchicalMergeRunner_start_def demo_discover
  by (simp add: startProducerThreads_def makeEventQueue_def NBQ_new_def event_queue_batch_size_def demo_fs_def
      split: prod.splits)

definition demo_process :: "u64 list \<Rightarrow> MarketDataEvent \<Rightarrow> u64 list" where
  "demo_process ts e = ts @ [ev_timestamp e]"

lemma demo_merged: "rr_processor (merged_result name demo_process [] demo_inputs) = [97, 98, 99]"
  by (simp add: merged_result_def demo_inputs_def demo_process_def Let_def sort_key_def)

lemma fair_replicate: "list_all (fair_round net) (replicate n [0..<length (mn_threads net)])"
  by (auto simp: fair_round_def list_all_length)

lemma fair_bound: "n \<le> length (replicate n [0..<length (mn_threads net)])"
  by simp

text \<open>Both runs, with the processor folded over the sorted events.\<close>

lemma flat_network_result:
  assumes "FlatMergeRunner_start fs folder Json processor = Inr net"
    and "discoverInputFiles fs folder Json = Inr files"
    and "parsed_inputs parse (input_lines fs files) evs" and "numbers_events parse" and "ordered_inputs evs"
  shows "\<exists>bound. \<forall>rounds. bound \<le> length rounds \<and> list_all (fair_round net) rounds \<longrightarrow>
    (\<exists>net'. net_run parse process net (concat rounds) = Some net' \<and> net_finished parse net' \<and>
       run_result ''flat'' net' = Some (merged_result ''flat'' process processor evs))"
proof -
  from flat_start [OF assms(1,2)] obtain queue where q: "makeEventQueue = Inr queue" and
    net: "net = flat_network queue (replicate (length (input_lines fs files)) queue)
      (input_producers (input_lines fs files)) processor" .
  from flat_inputs_result [OF q assms(3-5)] show ?thesis unfolding net .
qed

lemma hierarchical_network_result:
  assumes "HierarchicalMergeRunner_start fs folder Json processor = Inr net"
    and "discoverInputFiles fs folder Json = Inr files"
    and "parsed_inputs parse (input_lines fs files) evs" and "numbers_events parse" and "ordered_inputs evs"
  shows "\<exists>bound. \<forall>rounds. bound \<le> length rounds \<and> list_all (fair_round net) rounds \<longrightarrow>
    (\<exists>net'. net_run parse process net (concat rounds) = Some net' \<and> net_finished parse net' \<and>
       run_result ''hierarchy'' net' = Some (merged_result ''hierarchy'' process processor evs))"
proof -
  from hierarchical_start [OF assms(1,2)] obtain queue where q: "makeEventQueue = Inr queue" "input_lines fs files \<noteq> []"
    and net: "net = hierarchical_network queue (replicate (length (input_lines fs files)) queue)
      (input_producers (input_lines fs files)) processor" .
  from hierarchical_inputs_result [OF q assms(3-5)] show ?thesis unfolding net .
qed

section \<open>Properties\<close>

text \<open>
  C24: If every line of every file of the folder parses, each file is in order of time and its events
  carry the numbers of their lines, the flat runner delivers every event exactly once and in
  chronological order, under every fair schedule of its threads: any schedule with enough rounds
  (a round lets every thread move at least once, in any order) ends with all threads returned and
  no deadlock; the processor and the summary have seen all events of all files sorted by
  timestamp, file and line, and the diagnostics count every line. A step of a thread is one
  operation on a queue; theory \<open>QueueAccesses\<close> shows that their interleavings have the results of
  those of the single accesses, and what remains: a notification through a deleted node.
\<close>

theorem flat_runner_sorts:
  assumes "FlatMergeRunner_start fs folder Json processor = Inr net"
    and "discoverInputFiles fs folder Json = Inr files"
    and "parsed_inputs parse (input_lines fs files) evs" and "numbers_events parse" and "ordered_inputs evs"
  shows "\<exists>bound. \<forall>rounds. bound \<le> length rounds \<and> list_all (fair_round net) rounds \<longrightarrow>
    (\<exists>net'. net_run parse process net (concat rounds) = Some net' \<and> net_finished parse net' \<and>
       run_result ''flat'' net' = Some (merged_result ''flat'' process processor evs))"
  using assms by (rule flat_network_result)

theorem flat_runner_sorts_witness:
  "\<exists>net rounds net' r. FlatMergeRunner_start demo_fs ''d'' Json ([] :: u64 list) = Inr net \<and>
     net_run demo_parse demo_process net (concat rounds) = Some net' \<and> net_finished demo_parse net' \<and>
     run_result ''flat'' net' = Some r \<and> rr_processor r = [97, 98, 99]"
proof -
  obtain net where net: "FlatMergeRunner_start demo_fs ''d'' Json ([] :: u64 list) = Inr net" using demo_flat_start [of "[]"] by blast
  from flat_runner_sorts [OF net demo_discover demo_parsed demo_numbers demo_ordered, of demo_process]
  obtain bound where b: "\<forall>rounds. bound \<le> length rounds \<and> list_all (fair_round net) rounds \<longrightarrow>
    (\<exists>net'. net_run demo_parse demo_process net (concat rounds) = Some net' \<and> net_finished demo_parse net' \<and>
       run_result ''flat'' net' = Some (merged_result ''flat'' demo_process [] demo_inputs))" ..
  from b [rule_format, OF conjI [OF fair_bound fair_replicate]] obtain net' where
    "net_run demo_parse demo_process net (concat (replicate bound [0..<length (mn_threads net)])) = Some net'"
    "net_finished demo_parse net'"
    "run_result ''flat'' net' = Some (merged_result ''flat'' demo_process [] demo_inputs)"
    by blast
  with net demo_merged show ?thesis by blast
qed

text \<open>
  C25: The hierarchical runner, a tree of four-way mergers with one thread each, gives the same
  result as the flat one: on the same folder, whose lines all parse and whose files are each in
  order of time, whatever the two schedules are, once both have been fair for long enough the
  processor, the summary and the diagnostics agree.
\<close>

theorem hierarchical_runner_agrees:
  assumes "FlatMergeRunner_start fs folder Json processor = Inr net1"
    and "HierarchicalMergeRunner_start fs folder Json processor = Inr net2"
    and "discoverInputFiles fs folder Json = Inr files"
    and "parsed_inputs parse (input_lines fs files) evs" and "numbers_events parse" and "ordered_inputs evs"
  shows "\<exists>bound. \<forall>rounds1 rounds2.
      bound \<le> length rounds1 \<and> list_all (fair_round net1) rounds1 \<and>
      bound \<le> length rounds2 \<and> list_all (fair_round net2) rounds2 \<longrightarrow>
    (\<exists>net1' net2' r. net_run parse process net1 (concat rounds1) = Some net1' \<and>
       net_run parse process net2 (concat rounds2) = Some net2' \<and>
       net_finished parse net1' \<and> net_finished parse net2' \<and>
       run_result ''flat'' net1' = Some r \<and>
       run_result ''hierarchy'' net2' = Some (r\<lparr>rr_strategy_name := ''hierarchy''\<rparr>))"
proof -
  from flat_network_result [OF assms(1,3-6), of process] obtain b1 where
    b1: "\<And>rounds. b1 \<le> length rounds \<Longrightarrow> list_all (fair_round net1) rounds \<Longrightarrow>
    \<exists>net'. net_run parse process net1 (concat rounds) = Some net' \<and> net_finished parse net' \<and>
       run_result ''flat'' net' = Some (merged_result ''flat'' process processor evs)" by blast
  from hierarchical_network_result [OF assms(2-6), of process] obtain b2 where
    b2: "\<And>rounds. b2 \<le> length rounds \<Longrightarrow> list_all (fair_round net2) rounds \<Longrightarrow>
    \<exists>net'. net_run parse process net2 (concat rounds) = Some net' \<and> net_finished parse net' \<and>
       run_result ''hierarchy'' net' = Some (merged_result ''hierarchy'' process processor evs)" by blast
  have "merged_result ''hierarchy'' process processor evs =
      (merged_result ''flat'' process processor evs)\<lparr>rr_strategy_name := ''hierarchy''\<rparr>"
    by (simp add: merged_result_def Let_def)
  then show ?thesis
    using b1 b2 by (intro exI [of _ "max b1 b2"]) (metis max.bounded_iff)
qed

theorem hierarchical_runner_agrees_witness:
  "\<exists>net1 net2 net1' net2' rounds1 rounds2 r.
     FlatMergeRunner_start demo_fs ''d'' Json ([] :: u64 list) = Inr net1 \<and>
     HierarchicalMergeRunner_start demo_fs ''d'' Json ([] :: u64 list) = Inr net2 \<and>
     net_run demo_parse demo_process net1 (concat rounds1) = Some net1' \<and>
     net_run demo_parse demo_process net2 (concat rounds2) = Some net2' \<and>
     run_result ''flat'' net1' = Some r \<and>
     run_result ''hierarchy'' net2' = Some (r\<lparr>rr_strategy_name := ''hierarchy''\<rparr>)"
proof -
  obtain net1 where net1: "FlatMergeRunner_start demo_fs ''d'' Json ([] :: u64 list) = Inr net1" using demo_flat_start [of "[]"] by blast
  obtain net2 where net2: "HierarchicalMergeRunner_start demo_fs ''d'' Json ([] :: u64 list) = Inr net2"
    using demo_hierarchical_start [of "[]"] by blast
  from hierarchical_runner_agrees [OF net1 net2 demo_discover demo_parsed demo_numbers demo_ordered, of demo_process]
  obtain bound where b: "\<forall>rounds1 rounds2.
      bound \<le> length rounds1 \<and> list_all (fair_round net1) rounds1 \<and>
      bound \<le> length rounds2 \<and> list_all (fair_round net2) rounds2 \<longrightarrow>
    (\<exists>net1' net2' r. net_run demo_parse demo_process net1 (concat rounds1) = Some net1' \<and>
       net_run demo_parse demo_process net2 (concat rounds2) = Some net2' \<and>
       net_finished demo_parse net1' \<and> net_finished demo_parse net2' \<and>
       run_result ''flat'' net1' = Some r \<and>
       run_result ''hierarchy'' net2' = Some (r\<lparr>rr_strategy_name := ''hierarchy''\<rparr>))" ..
  from b [rule_format, OF conjI [OF fair_bound conjI [OF fair_replicate conjI [OF fair_bound fair_replicate]]]]
  obtain net1' net2' r where
    "net_run demo_parse demo_process net1 (concat (replicate bound [0..<length (mn_threads net1)])) = Some net1'"
    "net_run demo_parse demo_process net2 (concat (replicate bound [0..<length (mn_threads net2)])) = Some net2'"
    "run_result ''flat'' net1' = Some r"
    "run_result ''hierarchy'' net2' = Some (r\<lparr>rr_strategy_name := ''hierarchy''\<rparr>)"
    by blast
  with net1 net2 show ?thesis by blast
qed

text \<open>
  The processing summary is exact: after any sequence of events it holds their number, the
  number of events that come before their predecessor, the first and the last timestamp and the
  first and the last ten events.
\<close>

theorem summary_exact: "foldl ProcessingSummary_observe ProcessingSummary_new es = summary_of es"
proof (induction es rule: rev_induct)
  case Nil
  show ?case by (simp add: ProcessingSummary_new_def summary_of_def)
next
  case (snoc e es)
  then show ?case by (simp add: observe_snoc)
qed

end
