(* ===== verification/Outcome.thy ===== *)
theory Outcome
  imports Prelude
begin

text \<open>
  The outcome of a call that may throw and may also run into undefined behaviour (signed
  overflow, reading past the end) or a faulting queue operation.
\<close>

datatype 'a outcome = Throws exn | Undefined | Returns 'a

fun outcome_bind :: "'a outcome \<Rightarrow> ('a \<Rightarrow> 'b outcome) \<Rightarrow> 'b outcome" where
  "outcome_bind (Throws x) f = Throws x"
| "outcome_bind Undefined f = Undefined"
| "outcome_bind (Returns a) f = f a"

fun of_option :: "'a option \<Rightarrow> 'a outcome" where
  "of_option None = Undefined"
| "of_option (Some a) = Returns a"

fun of_sum :: "exn + 'a \<Rightarrow> 'a outcome" where
  "of_sum (Inl x) = Throws x"
| "of_sum (Inr a) = Returns a"

lemma outcome_bind_Returns: "outcome_bind r f = Returns b \<longleftrightarrow> (\<exists>a. r = Returns a \<and> f a = Returns b)"
  by (cases r) auto

lemma outcome_bind_assoc: "outcome_bind (outcome_bind r f) g = outcome_bind r (\<lambda>a. outcome_bind (f a) g)"
  by (cases r) auto

lemma outcome_bind_right: "outcome_bind r Returns = r"
  by (cases r) auto

text \<open>A call made for every element of a list, in order, stopping at the first failure.\<close>

fun outcome_fold :: "('s \<Rightarrow> 'a \<Rightarrow> 's outcome) \<Rightarrow> 's \<Rightarrow> 'a list \<Rightarrow> 's outcome" where
  "outcome_fold f s [] = Returns s"
| "outcome_fold f s (x # xs) = outcome_bind (f s x) (\<lambda>s'. outcome_fold f s' xs)"

lemma outcome_fold_append:
  "outcome_fold f s (xs @ ys) = outcome_bind (outcome_fold f s xs) (\<lambda>s'. outcome_fold f s' ys)"
proof (induction xs arbitrary: s)
  case (Cons x xs)
  then show ?case by (cases "f s x") auto
qed simp

end
