(* ===== verification/JsonParser.thy ===== *)
theory JsonParser
  imports TextFormat Runners Outcome
begin

text \<open>
  \<^verbatim>\<open>src/parsing/JsonParser.cpp\<close>: the text of prices, timestamps, sides and actions, and the event
  that a line of JSON stands for. The JSON library is simdjson; what the code calls of it is the
  record \<open>simdjson\<close>, an argument of the functions that use it. Arithmetic on \<^verbatim>\<open>std::int64_t\<close> that
  leaves its range is undefined in C++ and is \<open>None\<close> here, as is reading past the end of a text.
\<close>

section \<open>Signed arithmetic\<close>

definition in_i64 :: "int \<Rightarrow> int option" where
  "in_i64 n = (if - (2 ^ 63) \<le> n \<and> n < 2 ^ 63 then Some n else None)"

lemma in_i64_val64 [simp]: "in_i64 (val64 p) = Some (val64 p)"
  using val64_range [of p] by (simp add: in_i64_def)

section \<open>Numbers\<close>

text \<open>
  \<^verbatim>\<open>std::from_chars\<close> for \<^verbatim>\<open>std::uint64_t\<close>: the longest prefix of digits; without digits, or when the
  number does not fit, the target keeps the value it had.
\<close>

definition from_chars_u64 :: "string \<Rightarrow> u64 \<Rightarrow> u64" where
  "from_chars_u64 t v =
     (let ds = takeWhile is_digit t; n = read_digits 0 ds
      in if ds = [] \<or> int two64 \<le> n then v else of_int n)"

definition toUInt64 :: "string \<Rightarrow> u64" where
  "toUInt64 t = from_chars_u64 t 0"

definition parseUInt64Text :: "string \<Rightarrow> u64" where
  "parseUInt64Text text = toUInt64 text"

section \<open>Prices\<close>

definition fixed_point_scale :: int where
  "fixed_point_scale = 1000000000"

definition fixed_point_digits :: nat where
  "fixed_point_digits = 9"

text \<open>The three loops of \<^verbatim>\<open>parsePriceText\<close>.\<close>

fun price_whole :: "int \<Rightarrow> string \<Rightarrow> (int \<times> string) option" where
  "price_whole whole [] = Some (whole, [])"
| "price_whole whole (c # cs) =
     (if c = CHR ''.'' then Some (whole, c # cs)
      else Option.bind (in_i64 (whole * 10)) (\<lambda>w.
        Option.bind (in_i64 (w + char_digit c)) (\<lambda>w'. price_whole w' cs)))"

fun price_frac :: "int \<Rightarrow> nat \<Rightarrow> string \<Rightarrow> (int \<times> nat) option" where
  "price_frac fr digits [] = Some (fr, digits)"
| "price_frac fr digits (c # cs) =
     (if digits < fixed_point_digits then
        Option.bind (in_i64 (fr * 10)) (\<lambda>f.
          Option.bind (in_i64 (f + char_digit c)) (\<lambda>f'. price_frac f' (digits + 1) cs))
      else Some (fr, digits))"

fun price_scale_up :: "nat \<Rightarrow> int \<Rightarrow> int option" where
  "price_scale_up 0 fr = Some fr"
| "price_scale_up (Suc n) fr = Option.bind (in_i64 (fr * 10)) (price_scale_up n)"

definition parsePriceText :: "string \<Rightarrow> price option" where
  "parsePriceText text =
     (let negative = (text \<noteq> [] \<and> hd text = CHR ''-'');
          rest = (if negative then tl text else text);
          has_decimal_point = (CHR ''.'' \<in> set rest)
      in Option.bind (price_whole 0 rest) (\<lambda>(whole, tail).
        if \<not> has_decimal_point then map_option i64 (in_i64 (if negative then - whole else whole))
        else
          Option.bind (if tail \<noteq> [] \<and> hd tail = CHR ''.'' then price_frac 0 0 (tl tail) else Some (0, 0))
            (\<lambda>(fr, digits).
              Option.bind (price_scale_up (fixed_point_digits - digits) fr) (\<lambda>fr'.
                Option.bind (in_i64 (whole * fixed_point_scale)) (\<lambda>w.
                  Option.bind (in_i64 (w + fr')) (\<lambda>price.
                    map_option i64 (in_i64 (if negative then - price else price))))))))"

section \<open>Timestamps\<close>

text \<open>Days since 1970-01-01 of a date of the proleptic Gregorian calendar, \<^verbatim>\<open>std::chrono::sys_days\<close>.\<close>

definition days_before_year :: "int \<Rightarrow> int" where
  "days_before_year y = (let p = y - 1 in p * 365 + p div 4 - p div 100 + p div 400)"

definition is_leap :: "int \<Rightarrow> bool" where
  "is_leap y \<longleftrightarrow> y mod 4 = 0 \<and> (y mod 100 \<noteq> 0 \<or> y mod 400 = 0)"

definition days_before_month :: "int \<Rightarrow> int \<Rightarrow> int" where
  "days_before_month y m =
     [0, 31, 59, 90, 120, 151, 181, 212, 243, 273, 304, 334] ! nat (m - 1) + (if 2 < m \<and> is_leap y then 1 else 0)"

definition sys_days :: "int \<Rightarrow> int \<Rightarrow> int \<Rightarrow> int option" where
  "sys_days y m d =
     (if 1 \<le> m \<and> m \<le> 12 \<and> - 32767 \<le> y \<and> y \<le> 32767 \<and> 0 \<le> d \<and> d \<le> 255
      then Some (days_before_year y + days_before_month y m + d - 1 - days_before_year 1970) else None)"

definition d2 :: "string \<Rightarrow> nat \<Rightarrow> int option" where
  "d2 t p = (if p + 1 < length t then Some (char_digit (t ! p) * 10 + char_digit (t ! (p + 1))) else None)"

definition d4 :: "string \<Rightarrow> nat \<Rightarrow> int option" where
  "d4 t p = Option.bind (d2 t p) (\<lambda>a. Option.bind (d2 t (p + 2)) (\<lambda>b. Some (a * 100 + b)))"

fun iso_frac :: "u64 \<Rightarrow> nat \<Rightarrow> string \<Rightarrow> u64" where
  "iso_frac fr n [] = fr"
| "iso_frac fr n (c # cs) =
     (if n < fixed_point_digits then iso_frac (fr * 10 + of_int (char_digit c)) (n + 1) cs else fr)"

definition isoUtcToNs :: "string \<Rightarrow> u64 option" where
  "isoUtcToNs t =
     Option.bind (d4 t 0) (\<lambda>year. Option.bind (d2 t 5) (\<lambda>month. Option.bind (d2 t 8) (\<lambda>day.
     Option.bind (d2 t 11) (\<lambda>hour. Option.bind (d2 t 14) (\<lambda>minute. Option.bind (d2 t 17) (\<lambda>second.
     Option.bind (sys_days year month day) (\<lambda>days.
     Option.bind (in_i64 ((days * 86400 + hour * 3600 + minute * 60 + second) * 1000000000)) (\<lambda>whole.
       Some (of_int whole + iso_frac 0 0 (drop 20 t))))))))))"

definition parseTimestampText :: "string \<Rightarrow> u64 option" where
  "parseTimestampText text =
     (if CHR ''T'' \<notin> set text then Some (toUInt64 text) else isoUtcToNs text)"

section \<open>Sides and actions\<close>

definition parseSideText :: "string \<Rightarrow> Side" where
  "parseSideText text =
     (if text = [] then SideNone
      else if hd text = CHR ''A'' then Ask else if hd text = CHR ''B'' then Bid else SideNone)"

definition parseActionText :: "string \<Rightarrow> Action" where
  "parseActionText text =
     (if text = [] then ActionNone
      else if hd text = CHR ''A'' then Add else if hd text = CHR ''M'' then Modify
      else if hd text = CHR ''C'' then Cancel else if hd text = CHR ''R'' then Clear
      else if hd text = CHR ''T'' then Trade else if hd text = CHR ''F'' then Fill else ActionNone)"

section \<open>Tokens\<close>

definition is_json_space :: "char \<Rightarrow> bool" where
  "is_json_space c \<longleftrightarrow> c = CHR '' '' \<or> c = CHR 0x09 \<or> c = CHR 0x0D \<or> c = CHR 0x0A"

definition trimJsonToken :: "string \<Rightarrow> string" where
  "trimJsonToken token = rev (dropWhile is_json_space (rev token))"

definition unquoteJsonToken :: "string \<Rightarrow> string" where
  "unquoteJsonToken token =
     (if 2 \<le> length token \<and> hd token = CHR 0x22 \<and> last token = CHR 0x22
      then take (length token - 2) (tl token) else token)"

section \<open>Events\<close>

text \<open>
  What the code calls of simdjson. \<open>sj_iterate\<close> opens a document; iterating over an object visits
  its fields in order and may end with an error after some of them.
\<close>

type_synonym 'v json_fields = "(string \<times> 'v) list \<times> exn option"

record 'v simdjson =
  sj_iterate :: "string \<Rightarrow> exn + 'v json_fields"
  sj_raw_json_token :: "'v \<Rightarrow> string"
  sj_get_string :: "'v \<Rightarrow> exn + string"
  sj_get_object :: "'v \<Rightarrow> exn + 'v json_fields"

definition readPrice :: "'v simdjson \<Rightarrow> 'v \<Rightarrow> price outcome" where
  "readPrice sj v =
     (let token = trimJsonToken (sj_raw_json_token sj v)
      in if token = ''null'' then Returns undefined_price
         else of_option (parsePriceText (unquoteJsonToken token)))"

definition readUInt64Token :: "'v simdjson \<Rightarrow> 'v \<Rightarrow> u64" where
  "readUInt64Token sj v = toUInt64 (unquoteJsonToken (trimJsonToken (sj_raw_json_token sj v)))"

definition readTimestamp :: "'v simdjson \<Rightarrow> 'v \<Rightarrow> u64 outcome" where
  "readTimestamp sj v =
     (let token = trimJsonToken (sj_raw_json_token sj v)
      in if token \<noteq> [] \<and> hd token = CHR 0x22
         then of_option (parseTimestampText (unquoteJsonToken token))
         else Returns (toUInt64 token))"

definition readStringUInt64 :: "'v simdjson \<Rightarrow> 'v \<Rightarrow> u64" where
  "readStringUInt64 sj v = readUInt64Token sj v"

definition readNumberUInt64 :: "'v simdjson \<Rightarrow> 'v \<Rightarrow> u64" where
  "readNumberUInt64 sj v = readUInt64Token sj v"

definition readSide :: "'v simdjson \<Rightarrow> 'v \<Rightarrow> Side outcome" where
  "readSide sj v = outcome_bind (of_sum (sj_get_string sj v)) (\<lambda>s. Returns (parseSideText s))"

definition readAction :: "'v simdjson \<Rightarrow> 'v \<Rightarrow> Action outcome" where
  "readAction sj v = outcome_bind (of_sum (sj_get_string sj v)) (\<lambda>s. Returns (parseActionText s))"

fun read_fields ::
  "(string \<Rightarrow> 'v \<Rightarrow> MarketDataEvent \<Rightarrow> MarketDataEvent outcome) \<Rightarrow> (string \<times> 'v) list \<Rightarrow> MarketDataEvent \<Rightarrow>
   MarketDataEvent outcome" where
  "read_fields rd [] e = Returns e"
| "read_fields rd ((key, v) # fs) e = outcome_bind (rd key v e) (read_fields rd fs)"

definition read_object ::
  "(string \<Rightarrow> 'v \<Rightarrow> MarketDataEvent \<Rightarrow> MarketDataEvent outcome) \<Rightarrow> 'v json_fields \<Rightarrow> MarketDataEvent \<Rightarrow>
   MarketDataEvent outcome" where
  "read_object rd obj e =
     outcome_bind (read_fields rd (fst obj) e)
       (\<lambda>e'. case snd obj of None \<Rightarrow> Returns e' | Some x \<Rightarrow> Throws x)"

definition readHeaderField :: "'v simdjson \<Rightarrow> string \<Rightarrow> 'v \<Rightarrow> MarketDataEvent \<Rightarrow> MarketDataEvent outcome" where
  "readHeaderField sj key v e =
     (if key = ''ts_event'' then
        outcome_bind (readTimestamp sj v) (\<lambda>t. Returns (e\<lparr>ev_ts_event := t\<rparr>))
      else if key = ''instrument_id'' then Returns (e\<lparr>ev_instrument_id := readNumberUInt64 sj v\<rparr>)
      else Returns e)"

definition readHeader :: "'v simdjson \<Rightarrow> 'v \<Rightarrow> MarketDataEvent \<Rightarrow> MarketDataEvent outcome" where
  "readHeader sj v e =
     outcome_bind (of_sum (sj_get_object sj v)) (\<lambda>header. read_object (readHeaderField sj) header e)"

definition readField :: "'v simdjson \<Rightarrow> string \<Rightarrow> 'v \<Rightarrow> MarketDataEvent \<Rightarrow> MarketDataEvent outcome" where
  "readField sj key v e =
     (if key = ''hd'' \<or> key = ''header'' then readHeader sj v e
      else if key = ''price'' then outcome_bind (readPrice sj v) (\<lambda>p. Returns (e\<lparr>ev_price := p\<rparr>))
      else if key = ''ts_recv'' then outcome_bind (readTimestamp sj v) (\<lambda>t. Returns (e\<lparr>ev_ts_recv := t\<rparr>))
      else if key = ''ts_event'' then outcome_bind (readTimestamp sj v) (\<lambda>t. Returns (e\<lparr>ev_ts_event := t\<rparr>))
      else if key = ''instrument_id'' then Returns (e\<lparr>ev_instrument_id := readNumberUInt64 sj v\<rparr>)
      else if key = ''order_id'' then Returns (e\<lparr>ev_order_id := readStringUInt64 sj v\<rparr>)
      else if key = ''size'' then Returns (e\<lparr>ev_size := readNumberUInt64 sj v\<rparr>)
      else if key = ''side'' then outcome_bind (readSide sj v) (\<lambda>s. Returns (e\<lparr>ev_side := s\<rparr>))
      else if key = ''action'' then outcome_bind (readAction sj v) (\<lambda>a. Returns (e\<lparr>ev_action := a\<rparr>))
      else Returns e)"

definition parseMarketDataEventLine ::
  "'v simdjson \<Rightarrow> string \<Rightarrow> u64 \<Rightarrow> u32 \<Rightarrow> u64 \<Rightarrow> MarketDataEvent outcome" where
  "parseMarketDataEventLine sj line line_number source_file_id source_sequence =
     (let e = default_event\<lparr>ev_price := undefined_price, ev_source_file_id := source_file_id,
                ev_source_sequence := source_sequence, ev_line_number := line_number\<rparr>
      in outcome_bind (of_sum (sj_iterate sj line)) (\<lambda>doc.
           outcome_bind (read_object (readField sj) doc e) (\<lambda>e'.
             Returns (e'\<lparr>ev_timestamp :=
               (if ev_ts_recv e' \<noteq> 0 then ev_ts_recv e' else ev_ts_event e')\<rparr>))))"

section \<open>Numbers survive printing and parsing\<close>

lemma takeWhile_digits: "list_all is_digit ds \<Longrightarrow> takeWhile is_digit ds = ds"
  by (simp add: list_all_iff takeWhile_eq_all_conv)

lemma toUInt64_dec: "toUInt64 (dec_of_nat (unat w)) = w"
proof -
  have "read_digits 0 (dec_of_nat (unat w)) = int (unat w)" by (rule read_digits_dec_of_nat)
  moreover have "int (unat w) < int two64" by (simp only: of_nat_less_iff unat_u64_less)
  ultimately show ?thesis
    by (simp add: toUInt64_def from_chars_u64_def takeWhile_digits dec_of_nat_digits Let_def
        del: unat_u64_less)
qed

section \<open>Prices survive printing and parsing\<close>

text \<open>
  The division loses at most half a unit of the last printed digit. A \<^verbatim>\<open>long double\<close> with a
  significand of 64 bits (x86) is that exact for every 64-bit integer: the relative error of one
  rounding is below \<open>2\<^sup>-\<^sup>6\<^sup>4\<close> and the dividend is at most \<open>2\<^sup>6\<^sup>3\<close>.
\<close>

definition exact_enough :: "(int \<Rightarrow> int \<Rightarrow> rat) \<Rightarrow> bool" where
  "exact_enough ld_div \<longleftrightarrow>
     (\<forall>x. - (2 ^ 63) \<le> x \<longrightarrow> x < 2 ^ 63 \<longrightarrow>
        \<bar>ld_div x price_scale * 1000000000 - of_int x\<bar> < 1 / 2 \<and>
        (ld_div x price_scale < 0 \<longleftrightarrow> x < 0))"

lemma round_half_even_near:
  assumes "\<bar>r - of_int n\<bar> < 1 / 2"
  shows "round_half_even r = n"
proof (cases "of_int n \<le> r")
  case True
  with assms have "floor r = n" by (intro floor_unique) auto
  with assms True show ?thesis by (simp add: round_half_even_def Let_def)
next
  case False
  with assms have f: "floor r = n - 1" by (intro floor_unique) auto
  with assms False show ?thesis by (simp add: round_half_even_def Let_def)
qed

lemma fixed9_exact:
  assumes "\<bar>r * 1000000000 - of_int x\<bar> < 1 / 2" and "r < 0 \<longleftrightarrow> x < 0"
  shows "fixed9 r = (if x < 0 then ''-'' else []) @ dec_of_nat (nat \<bar>x\<bar> div 1000000000) @ ''.'' @
    dec_pad 9 (nat \<bar>x\<bar> mod 1000000000)"
proof -
  have "\<bar>\<bar>r\<bar> * 1000000000 - of_int \<bar>x\<bar>\<bar> < 1 / 2"
    using assms by (cases "r < 0") (simp_all add: abs_if split: if_splits)
  then have "round_half_even (\<bar>r\<bar> * 1000000000) = \<bar>x\<bar>" by (rule round_half_even_near)
  then show ?thesis using assms(2) by (simp add: fixed9_def Let_def)
qed

lemma in_i64_Some: "- (2 ^ 63) \<le> n \<Longrightarrow> n < 2 ^ 63 \<Longrightarrow> in_i64 n = Some n"
  by (simp add: in_i64_def)

lemma is_digit_not_point: "is_digit c \<Longrightarrow> c \<noteq> CHR ''.''"
  by (auto simp: is_digit_def char_digit_def)

lemma price_whole_digits:
  "list_all is_digit ds \<Longrightarrow> 0 \<le> a \<Longrightarrow> read_digits a ds < 2 ^ 63 \<Longrightarrow> rest = [] \<or> hd rest = CHR ''.'' \<Longrightarrow>
   price_whole a (ds @ rest) = Some (read_digits a ds, rest)"
proof (induction ds arbitrary: a)
  case (Cons c ds)
  have c: "0 \<le> char_digit c" "c \<noteq> CHR ''.''" using Cons.prems(1) is_digit_not_point by (auto simp: is_digit_def)
  have "a * 10 + char_digit c \<le> read_digits (a * 10 + char_digit c) ds"
    using Cons.prems c by (intro read_digits_mono) auto
  with Cons.prems c have "in_i64 (a * 10) = Some (a * 10)"
    "in_i64 (a * 10 + char_digit c) = Some (a * 10 + char_digit c)" by (auto simp: in_i64_def)
  with Cons c show ?case by simp
qed (cases rest; simp)

lemma price_frac_digits:
  "list_all is_digit ds \<Longrightarrow> 0 \<le> a \<Longrightarrow> read_digits a ds < 2 ^ 63 \<Longrightarrow> k + length ds \<le> fixed_point_digits \<Longrightarrow>
   price_frac a k ds = Some (read_digits a ds, k + length ds)"
proof (induction ds arbitrary: a k)
  case (Cons c ds)
  have c: "0 \<le> char_digit c" using Cons.prems(1) by (auto simp: is_digit_def)
  have "a * 10 + char_digit c \<le> read_digits (a * 10 + char_digit c) ds"
    using Cons.prems c by (intro read_digits_mono) auto
  with Cons.prems c have "in_i64 (a * 10) = Some (a * 10)"
    "in_i64 (a * 10 + char_digit c) = Some (a * 10 + char_digit c)" by (auto simp: in_i64_def)
  with Cons c show ?case by simp
qed simp

lemma dec_pad_digits: "list_all is_digit (dec_pad k n)"
  by (induction k arbitrary: n) auto

lemma parse_fixed:
  assumes "m \<le> 2 ^ 63"
  shows "parsePriceText ((if neg then ''-'' else []) @ dec_of_nat (m div 1000000000) @ ''.'' @
    dec_pad 9 (m mod 1000000000)) =
    Option.bind (in_i64 (int m)) (\<lambda>price. map_option i64 (in_i64 (if neg then - price else price)))"
proof -
  let ?w = "dec_of_nat (m div 1000000000)" and ?f = "dec_pad 9 (m mod 1000000000)"
  let ?rest = "?w @ CHR ''.'' # ?f"
  have hd: "hd ?rest \<noteq> CHR ''-''"
  proof -
    have "is_digit (hd ?w)" using dec_of_nat_digits [of "m div 1000000000"] by (cases ?w) auto
    then have "hd ?w \<noteq> CHR ''-''" by (auto simp: is_digit_def char_digit_def)
    then show ?thesis using dec_of_nat_digits(2) by simp
  qed
  have w: "read_digits 0 ?w = int (m div 1000000000)" by (rule read_digits_dec_of_nat)
  have f: "read_digits 0 ?f = int (m mod 1000000000)" by (subst read_digits_dec_pad) auto
  have small: "m div 1000000000 \<le> 9223372036" using div_le_mono [OF assms, of 1000000000] by simp
  then have "price_whole 0 ?rest = Some (int (m div 1000000000), CHR ''.'' # ?f)"
    by (subst price_whole_digits) (auto simp: w dec_of_nat_digits)
  moreover have "price_frac 0 0 ?f = Some (int (m mod 1000000000), 9)"
    by (subst price_frac_digits) (auto simp: f dec_pad_digits fixed_point_digits_def)
  moreover have "int (m div 1000000000) * 1000000000 + int (m mod 1000000000) = int m"
    by (metis div_mult_mod_eq of_nat_add of_nat_mult of_nat_numeral)
  moreover have "in_i64 (int (m div 1000000000) * 1000000000) = Some (int (m div 1000000000) * 1000000000)"
    using small by (intro in_i64_Some) auto
  ultimately have "parsePriceText ((if neg then ''-'' else []) @ ?rest) =
      Option.bind (in_i64 (int m)) (\<lambda>price. map_option i64 (in_i64 (if neg then - price else price)))"
    using hd by (cases neg)
      (simp_all add: parsePriceText_def Let_def fixed_point_digits_def fixed_point_scale_def)
  then show ?thesis by simp
qed

lemma i64_val64 [simp]: "i64 (val64 p) = p"
  by (metis val64_i64 val64_inject val64_range)

lemma price_text:
  assumes "exact_enough ld_div" and "p \<noteq> undefined_price"
  shows "parsePriceText (formatPrice ld_div p) = (if val64 p = - (2 ^ 63) then None else Some p)"
proof -
  let ?x = "val64 p"
  have "\<bar>ld_div ?x price_scale * 1000000000 - of_int ?x\<bar> < 1 / 2" "ld_div ?x price_scale < 0 \<longleftrightarrow> ?x < 0"
    using assms(1) val64_range [of p] unfolding exact_enough_def by auto
  from fixed9_exact [OF this] have "formatPrice ld_div p = (if ?x < 0 then ''-'' else []) @
      dec_of_nat (nat \<bar>?x\<bar> div 1000000000) @ ''.'' @ dec_pad 9 (nat \<bar>?x\<bar> mod 1000000000)"
    using assms(2) by (simp add: formatPrice_def)
  moreover have "nat \<bar>?x\<bar> \<le> 2 ^ 63" using val64_range [of p] by (auto simp: nat_le_iff)
  ultimately have "parsePriceText (formatPrice ld_div p) =
      Option.bind (in_i64 \<bar>?x\<bar>) (\<lambda>price. map_option i64 (in_i64 (if ?x < 0 then - price else price)))"
    using parse_fixed [of "nat \<bar>?x\<bar>" "?x < 0"] by simp
  then show ?thesis
    using val64_range [of p] by (cases "?x < 0") (auto simp: in_i64_def)
qed

section \<open>Every parsed event carries its numbering\<close>

definition numbered :: "u64 \<Rightarrow> u32 \<Rightarrow> u64 \<Rightarrow> MarketDataEvent \<Rightarrow> bool" where
  "numbered n f s e \<longleftrightarrow> ev_line_number e = n \<and> ev_source_file_id e = f \<and> ev_source_sequence e = s"

definition keeps_numbering :: "(string \<Rightarrow> 'v \<Rightarrow> MarketDataEvent \<Rightarrow> MarketDataEvent outcome) \<Rightarrow> bool" where
  "keeps_numbering rd \<longleftrightarrow>
     (\<forall>key v e e' n f s. rd key v e = Returns e' \<longrightarrow> numbered n f s e \<longrightarrow> numbered n f s e')"

lemma read_fields_numbered:
  "keeps_numbering rd \<Longrightarrow> read_fields rd fs e = Returns e' \<Longrightarrow> numbered n f s e \<Longrightarrow> numbered n f s e'"
proof (induction fs arbitrary: e)
  case (Cons kv fs)
  then show ?case
    by (cases kv) (auto simp: outcome_bind_Returns keeps_numbering_def)
qed simp

lemma read_object_numbered:
  "keeps_numbering rd \<Longrightarrow> read_object rd obj e = Returns e' \<Longrightarrow> numbered n f s e \<Longrightarrow> numbered n f s e'"
  by (auto simp: read_object_def outcome_bind_Returns split: option.splits dest: read_fields_numbered)

lemma readHeader_numbering: "keeps_numbering (readHeaderField sj)"
  by (auto simp: keeps_numbering_def readHeaderField_def outcome_bind_Returns numbered_def split: if_splits)

lemma readField_numbering: "keeps_numbering (readField sj)"
  using read_object_numbered [OF readHeader_numbering [of sj]]
  unfolding keeps_numbering_def
  by (fastforce simp: readField_def readHeader_def outcome_bind_Returns numbered_def split: if_splits)

lemma parse_line_numbered:
  assumes "parseMarketDataEventLine sj line n f s = Returns e"
  shows "numbered n f s e" and "ev_timestamp e = (if ev_ts_recv e \<noteq> 0 then ev_ts_recv e else ev_ts_event e)"
proof -
  let ?e0 = "default_event\<lparr>ev_price := undefined_price, ev_source_file_id := f,
                ev_source_sequence := s, ev_line_number := n\<rparr>"
  from assms obtain doc e' where
    r: "read_object (readField sj) doc ?e0 = Returns e'"
    and e: "e = e'\<lparr>ev_timestamp := (if ev_ts_recv e' \<noteq> 0 then ev_ts_recv e' else ev_ts_event e')\<rparr>"
    by (auto simp: parseMarketDataEventLine_def Let_def outcome_bind_Returns)
  have "numbered n f s ?e0" by (simp add: numbered_def)
  from read_object_numbered [OF readField_numbering r this]
  show "numbered n f s e" using e by (simp add: numbered_def)
  show "ev_timestamp e = (if ev_ts_recv e \<noteq> 0 then ev_ts_recv e else ev_ts_event e)"
    using e by simp
qed

text \<open>So the parser meets what the runners rely on. What leaves a producer thread ends the process, as undefined
  behaviour may.\<close>

fun escaping :: "'a outcome \<Rightarrow> exn + 'a" where
  "escaping (Throws x) = Inl x"
| "escaping Undefined = Inl (runtime_error ''undefined behaviour'')"
| "escaping (Returns a) = Inr a"

lemma escaping_Inr [simp]: "escaping r = Inr a \<longleftrightarrow> r = Returns a"
  by (cases r) auto

definition json_line_parser :: "'v simdjson \<Rightarrow> string line_parser" where
  "json_line_parser sj line n f s = escaping (parseMarketDataEventLine sj line n f s)"

lemma json_line_parser_Inr: "json_line_parser sj line n f s = Inr e \<longleftrightarrow> parseMarketDataEventLine sj line n f s = Returns e"
  by (simp add: json_line_parser_def)

lemma json_numbers_events: "numbers_events (json_line_parser sj)"
  by (auto simp: numbers_events_def json_line_parser_Inr numbered_def dest: parse_line_numbered(1))

section \<open>Properties\<close>

text \<open>
  C26: A price survives printing and parsing. For every defined price, provided the
  \<^verbatim>\<open>long double\<close> division is off by less than half a unit of the ninth decimal, \<^verbatim>\<open>parsePriceText\<close>
  reads back what \<^verbatim>\<open>formatPrice\<close> wrote; the only exception is the smallest 64-bit integer, whose
  text makes the parser overflow.
\<close>

theorem price_text_roundtrip:
  assumes "exact_enough ld_div" and "p \<noteq> undefined_price"
  shows "parsePriceText (formatPrice ld_div p) = (if val64 p = - (2 ^ 63) then None else Some p)"
  using assms by (rule price_text)

definition exact_division :: "int \<Rightarrow> int \<Rightarrow> rat" where
  "exact_division x y = of_int x / of_int y"

lemma exact_division_enough: "exact_enough exact_division"
  by (auto simp: exact_enough_def exact_division_def price_scale_def)

theorem price_text_roundtrip_witness:
  "formatPrice exact_division (i64 (- 1500000001)) = ''-1.500000001'' \<and>
   parsePriceText ''-1.500000001'' = Some (i64 (- 1500000001))"
proof -
  let ?p = "i64 (- 1500000001)"
  have v: "val64 ?p = - 1500000001" by (simp add: val64_i64)
  moreover have "val64 undefined_price = 2 ^ 63 - 1" by (simp add: undefined_price_def val64_i64)
  ultimately have u: "?p \<noteq> undefined_price" by auto
  have "formatPrice exact_division ?p = fixed9 (exact_division (- 1500000001) price_scale)"
    using u v by (simp add: formatPrice_def)
  also have "\<dots> = ''-'' @ dec_of_nat 1 @ ''.'' @ dec_pad 9 500000001"
    by (subst fixed9_exact [where x = "- 1500000001"]) (auto simp: exact_division_def price_scale_def)
  also have "\<dots> = ''-1.500000001''"
    by (simp add: dec_of_nat.simps dec_pad_numeral digit_char_def char_of_def bit_Suc_0_iff)
  finally have t: "formatPrice exact_division ?p = ''-1.500000001''" .
  with price_text_roundtrip [OF exact_division_enough u] v show ?thesis by simp
qed

end
