(* ===== verification/BookReports.thy ===== *)
theory BookReports
  imports BookManager TextFormat
begin

text \<open>
  The text the books are reported in: \<^verbatim>\<open>LimitOrderBook::printSnapshot\<close>,
  \<^verbatim>\<open>BookManager::printSnapshot\<close>, \<^verbatim>\<open>stableStateDigest\<close> and \<^verbatim>\<open>printFinalBestBidAsk\<close>, and
  \<^verbatim>\<open>printBookManagerSnapshot\<close> of \<^verbatim>\<open>src/processing/AsyncSnapshotWriter.cpp\<close>. A function that writes to
  an \<^verbatim>\<open>std::ostream\<close> returns the text it appends. \<open>ld\<close> is the \<^verbatim>\<open>long double\<close> division of
  theory \<open>TextFormat\<close>.
\<close>

type_synonym long_division = "int \<Rightarrow> int \<Rightarrow> rat"

definition newline :: string where
  "newline = [CHR 0x0A]"

abbreviation dec_u64 :: "u64 \<Rightarrow> string" where
  "dec_u64 w \<equiv> dec_of_nat (unat w)"

definition formatOptionalPrice :: "long_division \<Rightarrow> price option \<Rightarrow> string" where
  "formatOptionalPrice ld p = (case p of None \<Rightarrow> ''<none>'' | Some q \<Rightarrow> formatPrice ld q)"

section \<open>Books\<close>

text \<open>The first \<open>depth\<close> levels, one per line.\<close>

definition print_levels :: "long_division \<Rightarrow> levels \<Rightarrow> string" where
  "print_levels ld ls =
     concat (map (\<lambda>(price, volume). ''    '' @ formatPrice ld price @ '' x '' @ dec_u64 volume @ newline) ls)"

definition LOB_printSnapshot :: "long_division \<Rightarrow> LimitOrderBook \<Rightarrow> u64 \<Rightarrow> string" where
  "LOB_printSnapshot ld b depth =
     ''instrument_id='' @ dec_u64 (lb_instrument_id b) @
     '' resting_orders='' @ dec_of_nat (length (lb_orders b)) @
     '' best_bid='' @ formatOptionalPrice ld (LOB_bestBid b) @
     '' best_ask='' @ formatOptionalPrice ld (LOB_bestAsk b) @ newline @
     ''  bids:'' @ newline @ print_levels ld (take (unat depth) (lb_bids b)) @
     ''  asks:'' @ newline @ print_levels ld (take (unat depth) (lb_asks b))"

text \<open>The books in the order of their instruments, as every report visits them.\<close>

definition sorted_books :: "BookManager \<Rightarrow> (u64 \<times> LimitOrderBook) list" where
  "sorted_books bm =
     List.map_filter (\<lambda>i. map_option (Pair i) (map_of (bm_books bm) i)) (sortedInstrumentIds (bm_books bm))"

definition BM_printSnapshot :: "long_division \<Rightarrow> BookManager \<Rightarrow> u64 \<Rightarrow> string" where
  "BM_printSnapshot ld bm depth =
     ''BookManager snapshot instruments='' @ dec_of_nat (BM_instrumentCount bm) @
     '' processed_events='' @ dec_u64 (bm_processed_events bm) @
     '' unresolved_events='' @ dec_u64 (bm_unresolved_events bm) @ newline @
     concat (map (\<lambda>(i, b). LOB_printSnapshot ld b depth) (sorted_books bm))"

text \<open>Levels of a digest, separated by semicolons.\<close>

fun digest_levels :: "long_division \<Rightarrow> (price \<times> u64) list \<Rightarrow> string" where
  "digest_levels ld [] = []"
| "digest_levels ld [(price, volume)] = formatPrice ld price @ ''x'' @ dec_u64 volume"
| "digest_levels ld ((price, volume) # ls) =
     formatPrice ld price @ ''x'' @ dec_u64 volume @ '';'' @ digest_levels ld ls"

definition digest_instrument ::
  "long_division \<Rightarrow> u64 \<Rightarrow> nat \<Rightarrow> price option \<Rightarrow> price option \<Rightarrow> (price \<times> u64) list \<Rightarrow> (price \<times> u64) list \<Rightarrow> string" where
  "digest_instrument ld i orders best_bid best_ask bids asks =
     ''|instrument='' @ dec_u64 i @ '',orders='' @ dec_of_nat orders @
     '',best_bid='' @ formatOptionalPrice ld best_bid @ '',best_ask='' @ formatOptionalPrice ld best_ask @
     '',bids=['' @ digest_levels ld bids @ '']'' @ '',asks=['' @ digest_levels ld asks @ '']''"

definition BM_stableStateDigest :: "long_division \<Rightarrow> BookManager \<Rightarrow> string" where
  "BM_stableStateDigest ld bm =
     ''processed_events='' @ dec_u64 (bm_processed_events bm) @
     '';unresolved_events='' @ dec_u64 (bm_unresolved_events bm) @
     '';instrument_count='' @ dec_of_nat (BM_instrumentCount bm) @
     concat (map (\<lambda>(i, b). digest_instrument ld i (LOB_restingOrderCount b) (LOB_bestBid b) (LOB_bestAsk b)
        (lb_bids b) (lb_asks b)) (sorted_books bm))"

text \<open>One line per instrument, as in the final summaries.\<close>

definition summary_line :: "long_division \<Rightarrow> u64 \<Rightarrow> nat \<Rightarrow> price option \<Rightarrow> price option \<Rightarrow> string" where
  "summary_line ld i orders best_bid best_ask =
     ''instrument_id='' @ dec_u64 i @ '' resting_orders='' @ dec_of_nat orders @
     '' best_bid='' @ formatOptionalPrice ld best_bid @
     '' best_ask='' @ formatOptionalPrice ld best_ask @ newline"

definition BM_printFinalBestBidAsk :: "long_division \<Rightarrow> BookManager \<Rightarrow> string" where
  "BM_printFinalBestBidAsk ld bm =
     ''instrument_count='' @ dec_of_nat (BM_instrumentCount bm) @ newline @
     ''processed_events='' @ dec_u64 (bm_processed_events bm) @ newline @
     ''unresolved_events='' @ dec_u64 (bm_unresolved_events bm) @ newline @
     ''unknown_modify_recovered_as_add_count='' @ dec_u64 (BM_unknownModifyRecoveredAsAddCount bm) @ newline @
     ''unknown_modify_skipped_count='' @ dec_u64 (BM_unknownModifySkippedCount bm) @ newline @
     ''unknown_cancel_skipped_count='' @ dec_u64 (BM_unknownCancelSkippedCount bm) @ newline @
     concat (map (\<lambda>(i, b). summary_line ld i (LOB_restingOrderCount b) (LOB_bestBid b) (LOB_bestAsk b))
       (sorted_books bm))"

section \<open>Snapshots\<close>

definition print_snapshot_levels :: "long_division \<Rightarrow> PriceLevelSnapshot list \<Rightarrow> string" where
  "print_snapshot_levels ld ls =
     concat (map (\<lambda>l. ''    '' @ formatPrice ld (pls_price l) @ '' x '' @ dec_u64 (pls_size l) @ newline) ls)"

definition printBookManagerSnapshot :: "long_division \<Rightarrow> BookManagerSnapshot \<Rightarrow> string" where
  "printBookManagerSnapshot ld s =
     ''LOB Snapshot'' @ newline @
     ''event_count='' @ dec_u64 (bms_event_count s) @ newline @
     ''timestamp='' @ dec_u64 (bms_timestamp s) @ newline @
     ''BookManager snapshot instruments='' @ dec_of_nat (length (bms_instruments s)) @
     '' processed_events='' @ dec_u64 (bms_processed_events s) @
     '' unresolved_events='' @ dec_u64 (bms_unresolved_events s) @ newline @
     concat (map (\<lambda>instr.
       summary_line ld (ibs_instrument_id instr) (ibs_resting_orders instr) (ibs_best_bid instr) (ibs_best_ask instr) @
       ''  bids:'' @ newline @ print_snapshot_levels ld (ibs_bids instr) @
       ''  asks:'' @ newline @ print_snapshot_levels ld (ibs_asks instr)) (bms_instruments s))"

section \<open>The digest of a snapshot\<close>

text \<open>
  \<^verbatim>\<open>ShardedLobMarketDataEventProcessor::stableStateDigest\<close> prints the same text from a full-depth
  snapshot that \<^verbatim>\<open>BookManager::stableStateDigest\<close> prints from the books.
\<close>

definition snapshot_digest :: "long_division \<Rightarrow> BookManagerSnapshot \<Rightarrow> string" where
  "snapshot_digest ld s =
     ''processed_events='' @ dec_u64 (bms_processed_events s) @
     '';unresolved_events='' @ dec_u64 (bms_unresolved_events s) @
     '';instrument_count='' @ dec_of_nat (length (bms_instruments s)) @
     concat (map (\<lambda>instr. digest_instrument ld (ibs_instrument_id instr) (ibs_resting_orders instr)
        (ibs_best_bid instr) (ibs_best_ask instr)
        (map (\<lambda>l. (pls_price l, pls_size l)) (ibs_bids instr))
        (map (\<lambda>l. (pls_price l, pls_size l)) (ibs_asks instr))) (bms_instruments s))"

lemma map_filter_pairs:
  "List.map_filter (\<lambda>i. map_option (f i) (m i)) is =
   map (\<lambda>(i, b). f i b) (List.map_filter (\<lambda>i. map_option (Pair i) (m i)) is)"
  by (induction "is") (auto simp: map_filter_simps split: option.split)

lemma BM_snapshot_sorted_books:
  "bms_instruments (BM_snapshot bm n t d) = map (\<lambda>(i, b). instrument_snapshot i b d) (sorted_books bm)"
  by (simp add: BM_snapshot_def sorted_books_def map_filter_pairs [of "\<lambda>i b. instrument_snapshot i b d"])

end
