(* ===== verification/EventProcessors.thy ===== *)
theory EventProcessors
  imports BookReports
begin

text \<open>
  The event processors of \<^verbatim>\<open>src/processing\<close> that keep one \<^verbatim>\<open>BookManager\<close> or none:
  \<^verbatim>\<open>AsyncSnapshotWriter\<close>, which prints snapshots directly or on a thread of its own,
  \<^verbatim>\<open>LobMarketDataEventProcessor\<close> and \<^verbatim>\<open>LoggingMarketDataEventProcessor\<close>. An output stream is the
  text written to it so far.
\<close>

section \<open>AsyncSnapshotWriter\<close>

datatype SnapshotWriterMode = Sync | Async

text \<open>
  Where the worker thread is: at the wait, between taking a snapshot and printing it, between
  printing and counting it, or returned. In sync mode there is no thread.
\<close>

datatype writer_pc = WWaiting | WWriting BookManagerSnapshot | WCounting | WReturned

record AsyncSnapshotWriter =
  sw_mode :: SnapshotWriterMode
  sw_out :: string
  sw_queue :: "BookManagerSnapshot list"
  sw_worker :: writer_pc
  sw_finish_requested :: bool
  sw_submitted_count :: u64
  sw_written_count :: u64

definition SW_new :: "SnapshotWriterMode \<Rightarrow> AsyncSnapshotWriter" where
  "SW_new mode =
     \<lparr>sw_mode = mode, sw_out = [], sw_queue = [],
      sw_worker = (if mode = Async then WWaiting else WReturned), sw_finish_requested = False,
      sw_submitted_count = 0, sw_written_count = 0\<rparr>"

definition SW_writeNow :: "long_division \<Rightarrow> BookManagerSnapshot \<Rightarrow> AsyncSnapshotWriter \<Rightarrow> AsyncSnapshotWriter" where
  "SW_writeNow ld s w = w\<lparr>sw_out := sw_out w @ printBookManagerSnapshot ld s\<rparr>"

definition SW_write :: "long_division \<Rightarrow> BookManagerSnapshot \<Rightarrow> AsyncSnapshotWriter \<Rightarrow> AsyncSnapshotWriter" where
  "SW_write ld s w =
     (if sw_mode w = Sync then
        (let w1 = SW_writeNow ld s (w\<lparr>sw_submitted_count := sw_submitted_count w + 1\<rparr>)
         in w1\<lparr>sw_written_count := sw_written_count w1 + 1\<rparr>)
      else if sw_finish_requested w then w
      else w\<lparr>sw_queue := sw_queue w @ [s], sw_submitted_count := sw_submitted_count w + 1\<rparr>)"

text \<open>
  \<^verbatim>\<open>finish\<close> up to the join; the caller then waits until the worker has returned
  (\<open>SW_joined\<close>).
\<close>

definition SW_requestFinish :: "AsyncSnapshotWriter \<Rightarrow> AsyncSnapshotWriter" where
  "SW_requestFinish w = (if sw_mode w = Sync then w else w\<lparr>sw_finish_requested := True\<rparr>)"

definition SW_joined :: "AsyncSnapshotWriter \<Rightarrow> bool" where
  "SW_joined w \<longleftrightarrow> sw_worker w = WReturned"

text \<open>
  One step of \<^verbatim>\<open>workerLoop\<close>; the critical section is one step. A thread that waits on the condition
  variable is one whose step changes nothing; every change of what it waits for is notified.
\<close>

definition SW_workerStep :: "long_division \<Rightarrow> AsyncSnapshotWriter \<Rightarrow> AsyncSnapshotWriter" where
  "SW_workerStep ld w =
     (case sw_worker w of
        WWaiting \<Rightarrow>
          (case sw_queue w of
             [] \<Rightarrow> (if sw_finish_requested w then w\<lparr>sw_worker := WReturned\<rparr> else w)
           | s # rest \<Rightarrow> w\<lparr>sw_queue := rest, sw_worker := WWriting s\<rparr>)
      | WWriting s \<Rightarrow> (SW_writeNow ld s w)\<lparr>sw_worker := WCounting\<rparr>
      | WCounting \<Rightarrow> w\<lparr>sw_written_count := sw_written_count w + 1, sw_worker := WWaiting\<rparr>
      | WReturned \<Rightarrow> w)"

text \<open>\<^verbatim>\<open>finish\<close>: after the request the worker runs until it returns.\<close>

partial_function (option) SW_join :: "long_division \<Rightarrow> AsyncSnapshotWriter \<Rightarrow> AsyncSnapshotWriter option" where
  "SW_join ld w = (if SW_joined w then Some w else SW_join ld (SW_workerStep ld w))"

declare SW_join.simps [code]

definition SW_finish :: "long_division \<Rightarrow> AsyncSnapshotWriter \<Rightarrow> AsyncSnapshotWriter option" where
  "SW_finish ld w = (if sw_mode w = Sync then Some w else SW_join ld (SW_requestFinish w))"

section \<open>LobMarketDataEventProcessor\<close>

record LobProcessorConfig =
  lc_snapshot_depth :: u64
  lc_snapshot_interval_events :: u64
  lc_max_snapshots :: u64
  lc_snapshot_writer_mode :: SnapshotWriterMode

definition default_lob_config :: LobProcessorConfig where
  "default_lob_config =
     \<lparr>lc_snapshot_depth = 5, lc_snapshot_interval_events = 100000, lc_max_snapshots = 5,
      lc_snapshot_writer_mode = Sync\<rparr>"

record LobMarketDataEventProcessor =
  lp_config :: LobProcessorConfig
  lp_books :: BookManager
  lp_snapshot_writer :: AsyncSnapshotWriter
  lp_processed_count :: u64
  lp_snapshot_count :: u64

definition LP_new :: "LobProcessorConfig \<Rightarrow> LobMarketDataEventProcessor" where
  "LP_new config =
     \<lparr>lp_config = config, lp_books = BM_new, lp_snapshot_writer = SW_new (lc_snapshot_writer_mode config),
      lp_processed_count = 0, lp_snapshot_count = 0\<rparr>"

definition LP_maybePrintSnapshot ::
  "long_division \<Rightarrow> u64 \<Rightarrow> LobMarketDataEventProcessor \<Rightarrow> LobMarketDataEventProcessor" where
  "LP_maybePrintSnapshot ld timestamp p =
     (let c = lp_config p
      in if lc_snapshot_interval_events c = 0 \<or> lc_max_snapshots c \<le> lp_snapshot_count p then p
         else if lp_processed_count p mod lc_snapshot_interval_events c \<noteq> 0 then p
         else p\<lparr>lp_snapshot_writer := SW_write ld
                   (BM_snapshot (lp_books p) (lp_processed_count p) timestamp (lc_snapshot_depth c))
                   (lp_snapshot_writer p),
                lp_snapshot_count := lp_snapshot_count p + 1\<rparr>)"

definition LP_processMarketDataEvent ::
  "long_division \<Rightarrow> LobMarketDataEventProcessor \<Rightarrow> MarketDataEvent \<Rightarrow> LobMarketDataEventProcessor" where
  "LP_processMarketDataEvent ld p e =
     LP_maybePrintSnapshot ld (ev_timestamp e)
       (p\<lparr>lp_books := BM_apply (lp_books p) e, lp_processed_count := lp_processed_count p + 1\<rparr>)"

definition LP_finishSnapshots ::
  "long_division \<Rightarrow> LobMarketDataEventProcessor \<Rightarrow> LobMarketDataEventProcessor option" where
  "LP_finishSnapshots ld p =
     map_option (\<lambda>w. p\<lparr>lp_snapshot_writer := w\<rparr>) (SW_finish ld (lp_snapshot_writer p))"

definition LP_printFinalSummary :: "long_division \<Rightarrow> LobMarketDataEventProcessor \<Rightarrow> string" where
  "LP_printFinalSummary ld p = ''Final LOB Summary'' @ newline @ BM_printFinalBestBidAsk ld (lp_books p)"

section \<open>LoggingMarketDataEventProcessor\<close>

record LoggingMarketDataEventProcessor =
  lg_out :: string
  lg_max_events_to_print :: u64
  lg_processed_count :: u64
  lg_printed_count :: u64

definition LG_new :: "u64 \<Rightarrow> LoggingMarketDataEventProcessor" where
  "LG_new max_events =
     \<lparr>lg_out = [], lg_max_events_to_print = max_events, lg_processed_count = 0, lg_printed_count = 0\<rparr>"

definition LG_processMarketDataEvent ::
  "LoggingMarketDataEventProcessor \<Rightarrow> MarketDataEvent \<Rightarrow> LoggingMarketDataEventProcessor" where
  "LG_processMarketDataEvent p e =
     (let p1 = (if lg_printed_count p < lg_max_events_to_print p
                then p\<lparr>lg_out := lg_out p @ formatEventFields e @ newline, lg_printed_count := lg_printed_count p + 1\<rparr>
                else p)
      in p1\<lparr>lg_processed_count := lg_processed_count p1 + 1\<rparr>)"

section \<open>The writer prints what it accepted\<close>

definition printed :: "long_division \<Rightarrow> BookManagerSnapshot list \<Rightarrow> string" where
  "printed ld ss = concat (map (printBookManagerSnapshot ld) ss)"

definition SW_pending :: "AsyncSnapshotWriter \<Rightarrow> BookManagerSnapshot list" where
  "SW_pending w = (case sw_worker w of WWriting s \<Rightarrow> [s] | _ \<Rightarrow> []) @ sw_queue w"

text \<open>\<open>SW_rep ld acc w\<close>: \<open>acc\<close> has been accepted, a prefix of it is printed, the rest is pending.\<close>

definition SW_rep :: "long_division \<Rightarrow> BookManagerSnapshot list \<Rightarrow> AsyncSnapshotWriter \<Rightarrow> bool" where
  "SW_rep ld acc w \<longleftrightarrow>
     sw_submitted_count w = of_nat (length acc) \<and>
     (\<exists>dn. dn @ SW_pending w = acc \<and> sw_out w = printed ld dn \<and>
           of_nat (length dn) = sw_written_count w + (if sw_worker w = WCounting then 1 else 0)) \<and>
     (sw_worker w = WReturned \<longrightarrow> sw_queue w = []) \<and>
     (sw_mode w = Sync \<longrightarrow> sw_worker w = WReturned) \<and>
     (sw_mode w = Async \<and> sw_worker w = WReturned \<longrightarrow> sw_finish_requested w)"

lemma SW_rep_new: "SW_rep ld [] (SW_new mode)"
  by (cases mode) (auto simp: SW_rep_def SW_new_def SW_pending_def printed_def)

lemma SW_rep_write:
  assumes "SW_rep ld acc w"
  shows "SW_rep ld (if sw_mode w = Async \<and> sw_finish_requested w then acc else acc @ [s]) (SW_write ld s w)"
proof (cases "sw_mode w")
  case Sync
  with assms obtain dn where "dn = acc" "sw_out w = printed ld dn" "sw_worker w = WReturned" "sw_queue w = []"
    "sw_submitted_count w = of_nat (length acc)" "of_nat (length dn) = sw_written_count w"
    by (auto simp: SW_rep_def SW_pending_def)
  with Sync show ?thesis
    by (auto simp: SW_rep_def SW_write_def SW_writeNow_def SW_pending_def printed_def Let_def)
next
  case Async
  show ?thesis
  proof (cases "sw_finish_requested w")
    case True
    with Async assms show ?thesis by (simp add: SW_write_def)
  next
    case False
    from assms obtain dn where dn: "dn @ SW_pending w = acc" "sw_out w = printed ld dn"
      "of_nat (length dn) = sw_written_count w + (if sw_worker w = WCounting then 1 else 0)"
      unfolding SW_rep_def by blast
    moreover have "sw_worker w \<noteq> WReturned" using assms Async False by (auto simp: SW_rep_def)
    ultimately show ?thesis
      using assms Async False unfolding SW_rep_def
      by (intro conjI exI [of _ dn]) (auto simp: SW_write_def SW_pending_def)
  qed
qed

lemma SW_rep_worker:
  assumes "SW_rep ld acc w"
  shows "SW_rep ld acc (SW_workerStep ld w)"
proof -
  from assms obtain dn where dn: "dn @ SW_pending w = acc" "sw_out w = printed ld dn"
    "of_nat (length dn) = sw_written_count w + (if sw_worker w = WCounting then 1 else 0)"
    unfolding SW_rep_def by blast
  show ?thesis
  proof (cases "sw_worker w")
    case WWaiting
    with assms dn show ?thesis unfolding SW_rep_def
      by (intro conjI exI [of _ dn]) (auto simp: SW_workerStep_def SW_pending_def split: list.split)
  next
    case (WWriting s)
    with assms dn show ?thesis unfolding SW_rep_def
      by (intro conjI exI [of _ "dn @ [s]"])
        (auto simp: SW_workerStep_def SW_writeNow_def SW_pending_def printed_def)
  next
    case WCounting
    with assms dn show ?thesis unfolding SW_rep_def
      by (intro conjI exI [of _ dn]) (auto simp: SW_workerStep_def SW_pending_def)
  next
    case WReturned
    with assms show ?thesis by (simp add: SW_workerStep_def)
  qed
qed

lemma SW_rep_requestFinish: "SW_rep ld acc w \<Longrightarrow> SW_rep ld acc (SW_requestFinish w)"
  by (auto simp: SW_rep_def SW_requestFinish_def SW_pending_def)

text \<open>Once the finish is requested the worker needs at most three steps per snapshot and one more.\<close>

definition SW_left :: "AsyncSnapshotWriter \<Rightarrow> nat" where
  "SW_left w = 3 * length (sw_queue w) +
     (case sw_worker w of WReturned \<Rightarrow> 0 | WWaiting \<Rightarrow> 1 | WCounting \<Rightarrow> 2 | WWriting _ \<Rightarrow> 3)"

lemma SW_left_step:
  "sw_finish_requested w \<Longrightarrow> \<not> SW_joined w \<Longrightarrow>
   SW_left (SW_workerStep ld w) < SW_left w \<and> sw_finish_requested (SW_workerStep ld w)"
  by (auto simp: SW_left_def SW_joined_def SW_workerStep_def SW_writeNow_def split: writer_pc.split list.split)

lemma SW_join_returns:
  assumes "SW_rep ld acc w" and "sw_finish_requested w"
  shows "\<exists>w'. SW_join ld w = Some w' \<and> SW_rep ld acc w' \<and> SW_joined w'"
  using assms
proof (induction "SW_left w" arbitrary: w rule: less_induct)
  case less
  show ?case
  proof (cases "SW_joined w")
    case True
    with less.prems show ?thesis by (simp add: SW_join.simps)
  next
    case False
    with SW_left_step [OF less.prems(2)] have
      "\<exists>w'. SW_join ld (SW_workerStep ld w) = Some w' \<and> SW_rep ld acc w' \<and> SW_joined w'"
      by (intro less.hyps SW_rep_worker [OF less.prems(1)]) auto
    with False show ?thesis by (subst SW_join.simps) simp
  qed
qed

lemma SW_rep_joined:
  assumes "SW_rep ld acc w" and "SW_joined w"
  shows "sw_out w = printed ld acc" and "sw_written_count w = of_nat (length acc)"
    and "sw_submitted_count w = of_nat (length acc)"
  using assms by (auto simp: SW_rep_def SW_joined_def SW_pending_def)

lemma SW_finish_returns:
  assumes "SW_rep ld acc w"
  shows "\<exists>w'. SW_finish ld w = Some w' \<and> SW_joined w' \<and> sw_out w' = printed ld acc \<and>
    sw_written_count w' = of_nat (length acc) \<and> sw_submitted_count w' = of_nat (length acc)"
proof (cases "sw_mode w")
  case Sync
  with assms have "SW_joined w" by (simp add: SW_rep_def SW_joined_def)
  with Sync SW_rep_joined [OF assms] show ?thesis by (simp add: SW_finish_def)
next
  case Async
  have "sw_finish_requested (SW_requestFinish w)" using Async by (simp add: SW_requestFinish_def)
  from SW_join_returns [OF SW_rep_requestFinish [OF assms] this] obtain w' where
    "SW_join ld (SW_requestFinish w) = Some w'" "SW_rep ld acc w'" "SW_joined w'" by blast
  with Async SW_rep_joined [of ld acc w'] show ?thesis by (simp add: SW_finish_def)
qed

subsection \<open>Any interleaving of the caller and the worker\<close>

datatype writer_action = Submit BookManagerSnapshot | RequestFinish | WorkerStep

fun writer_step :: "long_division \<Rightarrow> AsyncSnapshotWriter \<Rightarrow> writer_action \<Rightarrow> AsyncSnapshotWriter" where
  "writer_step ld w (Submit s) = SW_write ld s w"
| "writer_step ld w RequestFinish = SW_requestFinish w"
| "writer_step ld w WorkerStep = SW_workerStep ld w"

text \<open>The snapshots submitted before the first request to finish.\<close>

fun accepted :: "writer_action list \<Rightarrow> BookManagerSnapshot list" where
  "accepted [] = []"
| "accepted (Submit s # acts) = s # accepted acts"
| "accepted (RequestFinish # acts) = []"
| "accepted (WorkerStep # acts) = accepted acts"

lemma writer_step_mode [simp]: "sw_mode (writer_step ld w a) = sw_mode w"
  by (cases a) (auto simp: SW_write_def SW_writeNow_def SW_requestFinish_def SW_workerStep_def Let_def
      split: writer_pc.split list.split)

lemma writer_step_finish:
  "sw_mode w = Async \<Longrightarrow> sw_finish_requested (writer_step ld w a) = (sw_finish_requested w \<or> a = RequestFinish)"
  by (cases a) (auto simp: SW_write_def SW_writeNow_def SW_requestFinish_def SW_workerStep_def Let_def
      split: writer_pc.split list.split)

lemma writer_run_rep:
  "SW_rep ld acc w \<Longrightarrow> sw_mode w = Async \<Longrightarrow>
   SW_rep ld (acc @ (if sw_finish_requested w then [] else accepted acts)) (foldl (writer_step ld) w acts)"
proof (induction acts arbitrary: acc w)
  case (Cons a acts)
  show ?case
  proof (cases a)
    case (Submit s)
    with Cons.IH [OF SW_rep_write [OF Cons.prems(1), of s]] Cons.prems
      writer_step_mode [of ld w a] writer_step_finish [of w ld a]
    show ?thesis by (auto split: if_splits)
  next
    case RequestFinish
    with Cons.IH [OF SW_rep_requestFinish [OF Cons.prems(1)]] Cons.prems
      writer_step_mode [of ld w a] writer_step_finish [of w ld a]
    show ?thesis by auto
  next
    case WorkerStep
    with Cons.IH [OF SW_rep_worker [OF Cons.prems(1)]] Cons.prems
      writer_step_mode [of ld w a] writer_step_finish [of w ld a]
    show ?thesis by (auto split: if_splits)
  qed
qed simp

section \<open>The snapshots of a run\<close>

text \<open>The caller processes events while the writer's thread moves whenever it likes.\<close>

datatype lob_action = LobEvent MarketDataEvent | LobWriterStep

fun lob_step :: "long_division \<Rightarrow> LobMarketDataEventProcessor \<Rightarrow> lob_action \<Rightarrow> LobMarketDataEventProcessor" where
  "lob_step ld p (LobEvent e) = LP_processMarketDataEvent ld p e"
| "lob_step ld p LobWriterStep = p\<lparr>lp_snapshot_writer := SW_workerStep ld (lp_snapshot_writer p)\<rparr>"

fun lob_events :: "lob_action list \<Rightarrow> MarketDataEvent list" where
  "lob_events [] = []"
| "lob_events (LobEvent e # acts) = e # lob_events acts"
| "lob_events (LobWriterStep # acts) = lob_events acts"

lemma lob_events_append [simp]: "lob_events (xs @ ys) = lob_events xs @ lob_events ys"
  by (induction xs rule: lob_events.induct) auto

text \<open>
  The snapshots a run should take: after every \<open>interval\<close>-th event, the state of the books then,
  at most \<open>max\<close> of them.
\<close>

definition snapshot_points :: "u64 \<Rightarrow> nat \<Rightarrow> nat list" where
  "snapshot_points interval n =
     (if interval = 0 then [] else filter (\<lambda>k. k mod unat interval = 0) [1..<Suc n])"

definition snapshot_at :: "u64 \<Rightarrow> MarketDataEvent list \<Rightarrow> nat \<Rightarrow> BookManagerSnapshot" where
  "snapshot_at depth es k =
     BM_snapshot (foldl BM_apply BM_new (take k es)) (of_nat k) (ev_timestamp (es ! (k - 1))) depth"

definition lob_snapshots :: "LobProcessorConfig \<Rightarrow> MarketDataEvent list \<Rightarrow> BookManagerSnapshot list" where
  "lob_snapshots c es =
     take (unat (lc_max_snapshots c))
       (map (snapshot_at (lc_snapshot_depth c) es) (snapshot_points (lc_snapshot_interval_events c) (length es)))"

lemma snapshot_at_earlier: "k \<le> length es \<Longrightarrow> 0 < k \<Longrightarrow> snapshot_at d (es @ [e]) k = snapshot_at d es k"
  by (simp add: snapshot_at_def nth_append)

lemma snapshot_points_range: "k \<in> set (snapshot_points i n) \<Longrightarrow> 0 < k \<and> k \<le> n"
  by (auto simp: snapshot_points_def split: if_splits)

lemma snapshot_points_Suc:
  "snapshot_points i (Suc n) = snapshot_points i n @ (if i \<noteq> 0 \<and> Suc n mod unat i = 0 then [Suc n] else [])"
  by (simp add: snapshot_points_def)

lemma take_snoc: "take m (xs @ [x]) = take m xs @ (if length xs < m then [x] else [])"
  by simp

lemma lob_snapshots_snoc:
  "lob_snapshots c (es @ [e]) = lob_snapshots c es @
     (if lc_snapshot_interval_events c \<noteq> 0 \<and> Suc (length es) mod unat (lc_snapshot_interval_events c) = 0 \<and>
         length (lob_snapshots c es) < unat (lc_max_snapshots c)
      then [snapshot_at (lc_snapshot_depth c) (es @ [e]) (Suc (length es))] else [])"
proof -
  have "map (snapshot_at d (es @ [e])) (snapshot_points i (length es)) =
      map (snapshot_at d es) (snapshot_points i (length es))" for d i
    by (rule map_cong [OF refl]) (auto dest: snapshot_points_range intro: snapshot_at_earlier)
  then show ?thesis
    by (auto simp: lob_snapshots_def snapshot_points_Suc min_def Suc_le_eq simp del: map_eq_conv)
qed

lemma unat_mod_u64: "unat ((a :: u64) mod b) = unat a mod unat b"
  by (fact unat_mod)

lemma lob_snapshots_length: "length (lob_snapshots c es) \<le> unat (lc_max_snapshots c)"
  by (simp add: lob_snapshots_def)

text \<open>The invariant of a run: books, counters and what the writer has accepted.\<close>

definition LP_inv :: "long_division \<Rightarrow> MarketDataEvent list \<Rightarrow> LobMarketDataEventProcessor \<Rightarrow> bool" where
  "LP_inv ld es p \<longleftrightarrow>
     lp_books p = foldl BM_apply BM_new es \<and> lp_processed_count p = of_nat (length es) \<and>
     lp_snapshot_count p = of_nat (length (lob_snapshots (lp_config p) es)) \<and>
     SW_rep ld (lob_snapshots (lp_config p) es) (lp_snapshot_writer p) \<and>
     \<not> (sw_mode (lp_snapshot_writer p) = Async \<and> sw_finish_requested (lp_snapshot_writer p))"

lemma LP_inv_new: "LP_inv ld [] (LP_new c)"
  using SW_rep_new [of ld "lc_snapshot_writer_mode c"]
  by (simp add: LP_inv_def LP_new_def lob_snapshots_def snapshot_points_def) (simp add: SW_new_def)

lemma SW_write_mode: "sw_mode (SW_write ld s w) = sw_mode w" "sw_finish_requested (SW_write ld s w) = sw_finish_requested w"
  by (simp_all add: SW_write_def SW_writeNow_def Let_def)

lemma LP_inv_event:
  assumes inv: "LP_inv ld es p" and len: "Suc (length es) < two64"
  shows "LP_inv ld (es @ [e]) (LP_processMarketDataEvent ld p e)"
proof -
  let ?c = "lp_config p" and ?n = "Suc (length es)"
  let ?s = "snapshot_at (lc_snapshot_depth ?c) (es @ [e]) ?n"
  have count: "unat (of_nat ?n :: u64) = ?n" using len by (rule unat_of_nat_u64)
  have snaps: "unat (lp_snapshot_count p) = length (lob_snapshots ?c es)"
    using inv lob_snapshots_length [of ?c es] unat_u64_less [of "lc_max_snapshots ?c"]
    by (simp add: LP_inv_def unat_of_nat_u64 del: unat_u64_less)
  have due: "lp_processed_count p + 1 = of_nat ?n" using inv by (simp add: LP_inv_def)
  have books: "BM_snapshot (BM_apply (lp_books p) e) (of_nat ?n) (ev_timestamp e) (lc_snapshot_depth ?c) = ?s"
    using inv by (simp add: LP_inv_def snapshot_at_def)
  have mod: "of_nat ?n mod lc_snapshot_interval_events ?c = 0 \<longleftrightarrow>
      ?n mod unat (lc_snapshot_interval_events ?c) = 0"
    unfolding unat_eq_zero [symmetric] unat_mod count ..
  have room: "lc_max_snapshots ?c \<le> lp_snapshot_count p \<longleftrightarrow>
      \<not> length (lob_snapshots ?c es) < unat (lc_max_snapshots ?c)"
    using snaps by (auto simp: word_le_nat_alt)
  show ?thesis
  proof (cases "lc_snapshot_interval_events ?c \<noteq> 0 \<and> ?n mod unat (lc_snapshot_interval_events ?c) = 0 \<and>
      length (lob_snapshots ?c es) < unat (lc_max_snapshots ?c)")
    case True
    then have new: "lob_snapshots ?c (es @ [e]) = lob_snapshots ?c es @ [?s]" by (simp add: lob_snapshots_snoc)
    have "LP_processMarketDataEvent ld p e =
        p\<lparr>lp_books := BM_apply (lp_books p) e, lp_processed_count := of_nat ?n,
          lp_snapshot_writer := SW_write ld ?s (lp_snapshot_writer p),
          lp_snapshot_count := lp_snapshot_count p + 1\<rparr>"
      using True books mod room unfolding LP_processMarketDataEvent_def LP_maybePrintSnapshot_def due
      by (simp add: Let_def)
    with inv new SW_rep_write [of ld "lob_snapshots ?c es" "lp_snapshot_writer p" ?s] show ?thesis
      by (auto simp: LP_inv_def SW_write_mode)
  next
    case False
    then have same: "lob_snapshots ?c (es @ [e]) = lob_snapshots ?c es" by (auto simp: lob_snapshots_snoc)
    have "LP_processMarketDataEvent ld p e =
        p\<lparr>lp_books := BM_apply (lp_books p) e, lp_processed_count := of_nat ?n\<rparr>"
      using False mod room unfolding LP_processMarketDataEvent_def LP_maybePrintSnapshot_def due
      by (auto simp: Let_def)
    with inv same show ?thesis by (simp add: LP_inv_def)
  qed
qed

lemma SW_worker_frame:
  "sw_mode (SW_workerStep ld w) = sw_mode w"
  "sw_finish_requested (SW_workerStep ld w) = sw_finish_requested w"
  by (auto simp: SW_workerStep_def SW_writeNow_def split: writer_pc.split list.split)

lemma LP_run_inv:
  assumes "length (lob_events acts) < two64"
  shows "LP_inv ld (lob_events acts) (foldl (lob_step ld) (LP_new c) acts)"
  using assms
proof (induction acts rule: rev_induct)
  case Nil
  then show ?case by (simp add: LP_inv_new)
next
  case (snoc a acts)
  then have IH: "LP_inv ld (lob_events acts) (foldl (lob_step ld) (LP_new c) acts)" by simp
  show ?case
  proof (cases a)
    case (LobEvent e)
    with LP_inv_event [OF IH, of e] snoc.prems show ?thesis by simp
  next
    case LobWriterStep
    with IH show ?thesis by (simp add: LP_inv_def SW_rep_worker SW_worker_frame)
  qed
qed

lemma LP_config_step: "lp_config (lob_step ld p a) = lp_config p"
  by (cases a) (auto simp: LP_processMarketDataEvent_def LP_maybePrintSnapshot_def Let_def)

lemma LP_config_run: "lp_config (foldl (lob_step ld) p acts) = lp_config p"
  by (induction acts arbitrary: p) (simp_all add: LP_config_step)

section \<open>Properties\<close>

text \<open>
  C28: The asynchronous snapshot writer loses nothing and its \<^verbatim>\<open>finish\<close> returns. After any
  interleaving of submissions, requests to finish and steps of the worker thread, \<^verbatim>\<open>finish\<close>
  terminates, and the output is the text of exactly the snapshots submitted before the first
  request, once each and in order; both counters agree with their number.
\<close>

theorem snapshot_writer_finishes:
  "\<exists>w. SW_finish ld (foldl (writer_step ld) (SW_new Async) acts) = Some w \<and> SW_joined w \<and>
     sw_out w = printed ld (accepted acts) \<and> sw_written_count w = of_nat (length (accepted acts)) \<and>
     sw_submitted_count w = of_nat (length (accepted acts))"
proof -
  have "sw_mode (SW_new Async) = Async" "\<not> sw_finish_requested (SW_new Async)" by (simp_all add: SW_new_def)
  with writer_run_rep [OF SW_rep_new [of ld Async], of acts]
  have "SW_rep ld (accepted acts) (foldl (writer_step ld) (SW_new Async) acts)" by simp
  then show ?thesis by (rule SW_finish_returns)
qed

text \<open>
  C29: The processor keeps the books of the whole stream and prints the right snapshots. In sync
  and in async mode, whatever the writer's thread does meanwhile, after fewer than \<open>2\<^sup>6\<^sup>4\<close> events the
  books are those of \<^verbatim>\<open>BookManager\<close> on all events, and finishing the snapshots returns with the
  output being one report after every \<^verbatim>\<open>snapshot_interval_events\<close>-th event, of the state the
  books had then, up to \<^verbatim>\<open>max_snapshots\<close> of them.
\<close>

theorem lob_processor_reports:
  assumes "length (lob_events acts) < two64"
  shows "\<exists>p. LP_finishSnapshots ld (foldl (lob_step ld) (LP_new c) acts) = Some p \<and>
    lp_books p = foldl BM_apply BM_new (lob_events acts) \<and>
    lp_processed_count p = of_nat (length (lob_events acts)) \<and>
    lp_snapshot_count p = of_nat (length (lob_snapshots c (lob_events acts))) \<and>
    sw_out (lp_snapshot_writer p) = printed ld (lob_snapshots c (lob_events acts))"
proof -
  let ?p = "foldl (lob_step ld) (LP_new c) acts"
  have inv: "LP_inv ld (lob_events acts) ?p" by (rule LP_run_inv [OF assms])
  have conf: "lp_config ?p = c" by (simp add: LP_config_run) (simp add: LP_new_def)
  from inv have "SW_rep ld (lob_snapshots c (lob_events acts)) (lp_snapshot_writer ?p)"
    by (simp add: LP_inv_def conf)
  from SW_finish_returns [OF this] inv conf show ?thesis
    by (auto simp: LP_finishSnapshots_def LP_inv_def)
qed

definition every_event :: LobProcessorConfig where
  "every_event =
     \<lparr>lc_snapshot_depth = 1, lc_snapshot_interval_events = 1, lc_max_snapshots = 1,
      lc_snapshot_writer_mode = Async\<rparr>"

definition demo_actions :: "lob_action list" where
  "demo_actions = [LobEvent (event Add 1 Bid 5 2 7), LobWriterStep, LobEvent (event Add 2 Bid 6 2 7)]"

theorem lob_processor_reports_witness:
  "\<exists>p. LP_finishSnapshots (\<lambda>x y. of_int x / of_int y)
       (foldl (lob_step (\<lambda>x y. of_int x / of_int y)) (LP_new every_event) demo_actions) = Some p \<and>
     lp_processed_count p = 2 \<and> lp_snapshot_count p = 1 \<and>
     sw_out (lp_snapshot_writer p) = printBookManagerSnapshot (\<lambda>x y. of_int x / of_int y)
       (BM_snapshot (BM_apply BM_new (event Add 1 Bid 5 2 7)) 1 0 1)"
proof -
  have es: "lob_events demo_actions = [event Add 1 Bid 5 2 7, event Add 2 Bid 6 2 7]"
    by (simp add: demo_actions_def)
  then have "length (lob_events demo_actions) < two64" by (simp add: two64_def)
  note run = lob_processor_reports [OF this, of "\<lambda>x y. of_int x / of_int y" every_event]
  have "lob_snapshots every_event (lob_events demo_actions) =
      [BM_snapshot (BM_apply BM_new (event Add 1 Bid 5 2 7)) 1 0 1]"
    by (simp add: es lob_snapshots_def every_event_def snapshot_points_def snapshot_at_def event_def
        default_event_def)
  with run es show ?thesis by (auto simp: printed_def)
qed

end
