(* ===== verification/ShardedProcessor.thy ===== *)
theory ShardedProcessor
  imports EventProcessors NonBlockingQueue EventMerge Outcome
begin

text \<open>
  \<^verbatim>\<open>ShardedLobMarketDataEventProcessor\<close> (\<^verbatim>\<open>src/processing\<close>): the instruments are divided among worker
  threads, each with a \<^verbatim>\<open>BookManager\<close> and a queue of its own; the calling thread resolves the
  instrument of every event, splits the move of an order between instruments into a
  cancellation and an addition, and reads all books after draining the workers. Between two
  calls the workers may make any number of steps. \<^verbatim>\<open>drain\<close> and \<^verbatim>\<open>finish\<close> wait for one worker at a
  time; the others share no state with it, so what they do meanwhile can be counted before
  or after the wait.
\<close>

section \<open>Worker\<close>

record WorkerItem =
  wi_event :: MarketDataEvent
  wi_end_of_stream :: bool

definition WorkerItem_data :: "MarketDataEvent \<Rightarrow> WorkerItem" where
  "WorkerItem_data e = \<lparr>wi_event = e, wi_end_of_stream = False\<rparr>"

definition WorkerItem_end :: WorkerItem where
  "WorkerItem_end = \<lparr>wi_event = default_event, wi_end_of_stream = True\<rparr>"

text \<open>\<open>wk_returned\<close>: the thread has left \<^verbatim>\<open>workerLoop\<close>.\<close>

record Worker =
  wk_books :: BookManager
  wk_queue :: "WorkerItem NonBlockingQueue"
  wk_returned :: bool
  wk_finish_requested :: bool
  wk_enqueued_count :: u64
  wk_processed_count :: u64

definition WK_new :: "exn + Worker" where
  "WK_new =
     (case NBQ_new 256 of
        Inl x \<Rightarrow> Inl x
      | Inr q \<Rightarrow> Inr \<lparr>wk_books = BM_new, wk_queue = q, wk_returned = False, wk_finish_requested = False,
                     wk_enqueued_count = 0, wk_processed_count = 0\<rparr>)"

definition WK_enqueue :: "MarketDataEvent \<Rightarrow> Worker \<Rightarrow> Worker outcome" where
  "WK_enqueue e w =
     (if wk_finish_requested w then Throws (runtime_error ''cannot enqueue LOB event after worker finish'')
      else of_option (map_option
             (\<lambda>q. w\<lparr>wk_enqueued_count := wk_enqueued_count w + 1, wk_queue := q\<rparr>)
             (NBQ_push (WorkerItem_data e) (wk_queue w))))"

text \<open>
  One pass of \<^verbatim>\<open>workerLoop\<close>; a pop that finds nothing leaves the thread at the pop. The other thread
  reads the books only after the count of the pass is in, so the pass counts as one step.
\<close>

definition WK_step :: "Worker \<Rightarrow> Worker option" where
  "WK_step w =
     (if wk_returned w then Some w
      else Option.bind (NBQ_pop (wk_queue w)) (\<lambda>(r, q).
        Some (case r of
                None \<Rightarrow> w\<lparr>wk_queue := q\<rparr>
              | Some item \<Rightarrow>
                  if wi_end_of_stream item then w\<lparr>wk_queue := q, wk_returned := True\<rparr>
                  else w\<lparr>wk_queue := q, wk_books := BM_apply (wk_books w) (wi_event item),
                         wk_processed_count := wk_processed_count w + 1\<rparr>)))"

text \<open>
  Waiting until the thread has processed as many events as had been enqueued. The wait on
  \<^verbatim>\<open>processed_count_\<close> is a test after every step of the thread, each of which notifies.
\<close>

partial_function (option) WK_drainLoop :: "u64 \<Rightarrow> Worker \<Rightarrow> Worker option" where
  "WK_drainLoop target w =
     (if wk_processed_count w < target then Option.bind (WK_step w) (WK_drainLoop target) else Some w)"

declare WK_drainLoop.simps [code]

definition WK_drain :: "Worker \<Rightarrow> Worker option" where
  "WK_drain w =
     Option.bind (NBQ_flush (wk_queue w)) (\<lambda>q. WK_drainLoop (wk_enqueued_count w) (w\<lparr>wk_queue := q\<rparr>))"

partial_function (option) WK_joinLoop :: "Worker \<Rightarrow> Worker option" where
  "WK_joinLoop w = (if wk_returned w then Some w else Option.bind (WK_step w) WK_joinLoop)"

declare WK_joinLoop.simps [code]

definition WK_finish :: "Worker \<Rightarrow> Worker option" where
  "WK_finish w =
     (if wk_finish_requested w then Some w
      else Option.bind (Option.bind (NBQ_push WorkerItem_end (wk_queue w)) NBQ_flush)
             (\<lambda>q. WK_joinLoop (w\<lparr>wk_finish_requested := True, wk_queue := q\<rparr>)))"

section \<open>The processor\<close>

record RouterOrder =
  rt_instrument_id :: u64
  rt_size :: u64

record ShardedLobMarketDataEventProcessor =
  sh_config :: LobProcessorConfig
  sh_snapshot_writer :: AsyncSnapshotWriter
  sh_workers :: "Worker list"
  sh_router_orders :: "(u64, RouterOrder) umap"
  sh_processed_count :: u64
  sh_router_unresolved_events :: u64
  sh_snapshot_count :: u64
  sh_finished :: bool

text \<open>The constructor, for a number of workers that memory and the system can provide.\<close>

definition SH_new :: "nat \<Rightarrow> LobProcessorConfig \<Rightarrow> exn + ShardedLobMarketDataEventProcessor" where
  "SH_new worker_count config =
     (if worker_count = 0 then Inl (invalid_argument ''LOB worker count must be greater than zero'')
      else case WK_new of
        Inl x \<Rightarrow> Inl x
      | Inr w \<Rightarrow>
          Inr \<lparr>sh_config = config, sh_snapshot_writer = SW_new (lc_snapshot_writer_mode config),
               sh_workers = replicate worker_count w, sh_router_orders = [], sh_processed_count = 0,
               sh_router_unresolved_events = 0, sh_snapshot_count = 0, sh_finished = False\<rparr>)"

definition SH_resolveInstrumentId :: "ShardedLobMarketDataEventProcessor \<Rightarrow> MarketDataEvent \<Rightarrow> u64" where
  "SH_resolveInstrumentId sh e =
     (if ev_instrument_id e \<noteq> 0 then ev_instrument_id e
      else if ev_order_id e = 0 then 0
      else (case map_of (sh_router_orders sh) (ev_order_id e) of
              None \<Rightarrow> 0
            | Some r \<Rightarrow> rt_instrument_id r))"

definition SH_workerIndex :: "ShardedLobMarketDataEventProcessor \<Rightarrow> u64 \<Rightarrow> nat" where
  "SH_workerIndex sh instrument_id = unat instrument_id mod length (sh_workers sh)"

definition SH_enqueue ::
  "u64 \<Rightarrow> MarketDataEvent \<Rightarrow> ShardedLobMarketDataEventProcessor \<Rightarrow> ShardedLobMarketDataEventProcessor outcome" where
  "SH_enqueue instrument_id e sh =
     (let k = SH_workerIndex sh instrument_id
      in outcome_bind (WK_enqueue e (sh_workers sh ! k))
           (\<lambda>w. Returns (sh\<lparr>sh_workers := (sh_workers sh)[k := w]\<rparr>)))"

definition SH_enqueueFullCancel ::
  "u64 \<Rightarrow> u64 \<Rightarrow> MarketDataEvent \<Rightarrow> ShardedLobMarketDataEventProcessor \<Rightarrow>
   ShardedLobMarketDataEventProcessor outcome" where
  "SH_enqueueFullCancel instrument_id order_id source sh =
     SH_enqueue instrument_id
       (source\<lparr>ev_instrument_id := instrument_id, ev_order_id := order_id, ev_action := Cancel, ev_size := 0\<rparr>) sh"

definition SH_eraseRouterOrdersForInstrument ::
  "u64 \<Rightarrow> ShardedLobMarketDataEventProcessor \<Rightarrow> ShardedLobMarketDataEventProcessor" where
  "SH_eraseRouterOrdersForInstrument instrument_id sh =
     sh\<lparr>sh_router_orders := filter (\<lambda>(k, r). rt_instrument_id r \<noteq> instrument_id) (sh_router_orders sh)\<rparr>"

definition SH_updateRouterAndDispatch ::
  "MarketDataEvent \<Rightarrow> ShardedLobMarketDataEventProcessor \<Rightarrow> ShardedLobMarketDataEventProcessor outcome" where
  "SH_updateRouterAndDispatch e sh =
     outcome_bind
       (let known = map_of (sh_router_orders sh) (ev_order_id e)
        in if ev_action e = Add \<or> ev_action e = Modify then
             (if hasValidRestingState e then
                outcome_bind
                  (case known of
                     None \<Rightarrow> Returns sh
                   | Some r \<Rightarrow>
                       if rt_instrument_id r \<noteq> ev_instrument_id e
                       then SH_enqueueFullCancel (rt_instrument_id r) (ev_order_id e) e sh else Returns sh)
                  (\<lambda>sh1. Returns (sh1\<lparr>sh_router_orders := AList.update (ev_order_id e)
                     \<lparr>rt_instrument_id = ev_instrument_id e, rt_size = ev_size e\<rparr> (sh_router_orders sh1)\<rparr>))
              else Returns sh)
           else if ev_action e = Cancel then
             Returns (case known of
                        None \<Rightarrow> sh
                      | Some r \<Rightarrow>
                          if ev_size e = 0 \<or> rt_size r \<le> ev_size e
                          then sh\<lparr>sh_router_orders := AList.delete (ev_order_id e) (sh_router_orders sh)\<rparr>
                          else sh\<lparr>sh_router_orders := AList.update (ev_order_id e)
                                 (r\<lparr>rt_size := rt_size r - ev_size e\<rparr>) (sh_router_orders sh)\<rparr>)
           else if ev_action e = Clear then
             Returns (SH_eraseRouterOrdersForInstrument (ev_instrument_id e) sh)
           else Returns sh)
       (SH_enqueue (ev_instrument_id e) e)"

definition SH_drainWorkers ::
  "ShardedLobMarketDataEventProcessor \<Rightarrow> ShardedLobMarketDataEventProcessor option" where
  "SH_drainWorkers sh =
     map_option (\<lambda>ws. sh\<lparr>sh_workers := ws\<rparr>) (those (map WK_drain (sh_workers sh)))"

text \<open>A total over the workers' books, after draining them.\<close>

definition worker_total :: "(BookManager \<Rightarrow> u64) \<Rightarrow> u64 \<Rightarrow> ShardedLobMarketDataEventProcessor \<Rightarrow>
   (u64 \<times> ShardedLobMarketDataEventProcessor) option" where
  "worker_total f start sh =
     map_option (\<lambda>sh'. (foldl (\<lambda>total w. total + f (wk_books w)) start (sh_workers sh'), sh'))
       (SH_drainWorkers sh)"

definition SH_totalUnresolvedEvents where
  "SH_totalUnresolvedEvents sh = worker_total bm_unresolved_events (sh_router_unresolved_events sh) sh"

definition SH_totalUnknownModifyRecoveredAsAddCount where
  "SH_totalUnknownModifyRecoveredAsAddCount sh = worker_total BM_unknownModifyRecoveredAsAddCount 0 sh"

definition SH_totalUnknownModifySkippedCount where
  "SH_totalUnknownModifySkippedCount sh = worker_total BM_unknownModifySkippedCount 0 sh"

definition SH_totalUnknownCancelSkippedCount where
  "SH_totalUnknownCancelSkippedCount sh = worker_total BM_unknownCancelSkippedCount 0 sh"

definition SH_mergedSnapshot ::
  "u64 \<Rightarrow> u64 \<Rightarrow> u64 \<Rightarrow> ShardedLobMarketDataEventProcessor \<Rightarrow>
   (BookManagerSnapshot \<times> ShardedLobMarketDataEventProcessor) option" where
  "SH_mergedSnapshot event_count timestamp depth sh =
     Option.bind (SH_drainWorkers sh) (\<lambda>sh1.
       Option.bind (SH_totalUnresolvedEvents sh1) (\<lambda>(unresolved, sh2).
         Some (\<lparr>bms_event_count = event_count, bms_timestamp = timestamp,
                bms_processed_events = sh_processed_count sh2, bms_unresolved_events = unresolved,
                bms_instruments = sort_key ibs_instrument_id
                  (concat (map (\<lambda>w. bms_instruments (BM_snapshot (wk_books w) event_count timestamp depth))
                     (sh_workers sh2)))\<rparr>, sh2)))"

definition SH_maybePrintSnapshot ::
  "long_division \<Rightarrow> u64 \<Rightarrow> ShardedLobMarketDataEventProcessor \<Rightarrow> ShardedLobMarketDataEventProcessor option" where
  "SH_maybePrintSnapshot ld timestamp sh =
     (let c = sh_config sh
      in if lc_snapshot_interval_events c = 0 \<or> lc_max_snapshots c \<le> sh_snapshot_count sh then Some sh
         else if sh_processed_count sh mod lc_snapshot_interval_events c \<noteq> 0 then Some sh
         else map_option (\<lambda>(s, sh1).
                sh1\<lparr>sh_snapshot_writer := SW_write ld s (sh_snapshot_writer sh1),
                    sh_snapshot_count := sh_snapshot_count sh1 + 1\<rparr>)
              (SH_mergedSnapshot (sh_processed_count sh) timestamp (lc_snapshot_depth c) sh))"

definition SH_processMarketDataEvent ::
  "long_division \<Rightarrow> ShardedLobMarketDataEventProcessor \<Rightarrow> MarketDataEvent \<Rightarrow>
   ShardedLobMarketDataEventProcessor outcome" where
  "SH_processMarketDataEvent ld sh e =
     (if sh_finished sh then Throws (runtime_error ''cannot process LOB event after finish'')
      else
        let sh1 = sh\<lparr>sh_processed_count := sh_processed_count sh + 1\<rparr>;
            instrument_id = SH_resolveInstrumentId sh1 e
        in if instrument_id = 0 then
             of_option (SH_maybePrintSnapshot ld (ev_timestamp e)
               (sh1\<lparr>sh_router_unresolved_events := sh_router_unresolved_events sh1 + 1\<rparr>))
           else
             outcome_bind (SH_updateRouterAndDispatch (e\<lparr>ev_instrument_id := instrument_id\<rparr>) sh1)
               (\<lambda>sh2. of_option (SH_maybePrintSnapshot ld (ev_timestamp e) sh2)))"

definition SH_stableStateDigest ::
  "long_division \<Rightarrow> ShardedLobMarketDataEventProcessor \<Rightarrow>
   (string \<times> ShardedLobMarketDataEventProcessor) option" where
  "SH_stableStateDigest ld sh =
     map_option (\<lambda>(s, sh1). (snapshot_digest ld s, sh1)) (SH_mergedSnapshot (sh_processed_count sh) 0 (- 1) sh)"

definition SH_finish ::
  "long_division \<Rightarrow> ShardedLobMarketDataEventProcessor \<Rightarrow> ShardedLobMarketDataEventProcessor option" where
  "SH_finish ld sh =
     (if sh_finished sh then Some sh
      else Option.bind (those (map WK_finish (sh_workers sh))) (\<lambda>ws.
        Option.bind (SW_finish ld (sh_snapshot_writer sh)) (\<lambda>w.
          Some (sh\<lparr>sh_workers := ws, sh_snapshot_writer := w, sh_finished := True\<rparr>))))"

definition SH_finishSnapshots ::
  "long_division \<Rightarrow> ShardedLobMarketDataEventProcessor \<Rightarrow> ShardedLobMarketDataEventProcessor option" where
  "SH_finishSnapshots ld sh =
     map_option (\<lambda>w. sh\<lparr>sh_snapshot_writer := w\<rparr>) (SW_finish ld (sh_snapshot_writer sh))"

definition SH_printFinalSummary ::
  "long_division \<Rightarrow> ShardedLobMarketDataEventProcessor \<Rightarrow>
   (string \<times> ShardedLobMarketDataEventProcessor) option" where
  "SH_printFinalSummary ld sh =
     Option.bind (SH_mergedSnapshot (sh_processed_count sh) 0 (- 1) sh) (\<lambda>(s, sh1).
     Option.bind (SH_totalUnknownModifyRecoveredAsAddCount sh1) (\<lambda>(recovered, sh2).
     Option.bind (SH_totalUnknownModifySkippedCount sh2) (\<lambda>(modify_skipped, sh3).
     Option.bind (SH_totalUnknownCancelSkippedCount sh3) (\<lambda>(cancel_skipped, sh4).
       Some (''Final LOB Summary'' @ newline @
         ''worker_count='' @ dec_of_nat (length (sh_workers sh)) @ newline @
         ''instrument_count='' @ dec_of_nat (length (bms_instruments s)) @ newline @
         ''processed_events='' @ dec_u64 (sh_processed_count sh) @ newline @
         ''unresolved_events='' @ dec_u64 (bms_unresolved_events s) @ newline @
         ''unknown_modify_recovered_as_add_count='' @ dec_u64 recovered @ newline @
         ''unknown_modify_skipped_count='' @ dec_u64 modify_skipped @ newline @
         ''unknown_cancel_skipped_count='' @ dec_u64 cancel_skipped @ newline @
         concat (map (\<lambda>instr. summary_line ld (ibs_instrument_id instr) (ibs_resting_orders instr)
           (ibs_best_bid instr) (ibs_best_ask instr)) (bms_instruments s)), sh4)))))"

section \<open>A shard of the instruments sees its own books\<close>

text \<open>
  The events the router enqueues for one input event: the cancellation of the order where it
  rested before, if it moves, and the event itself with its instrument.
\<close>

definition route_step :: "(u64 \<rightharpoonup> u64 \<times> RestingOrder) \<Rightarrow> MarketDataEvent \<Rightarrow> MarketDataEvent list" where
  "route_step m e =
     (let i = market_instrument m e; r = e\<lparr>ev_instrument_id := i\<rparr>
      in if i = 0 then []
         else (if (ev_action e = Add \<or> ev_action e = Modify) \<and> hasValidRestingState e
               then (case m (ev_order_id e) of
                       None \<Rightarrow> []
                     | Some (j, x) \<Rightarrow> if j \<noteq> i then [cancel_previous r j] else [])
               else []) @ [r])"

fun route_all :: "(u64 \<rightharpoonup> u64 \<times> RestingOrder) \<Rightarrow> MarketDataEvent list \<Rightarrow> MarketDataEvent list" where
  "route_all m [] = []"
| "route_all m (e # es) = route_step m e @ route_all (market_spec m e) es"

lemma route_all_snoc:
  "route_all m (es @ [e]) = route_all m es @ route_step (foldl market_spec m es) e"
  by (induction es arbitrary: m) auto

text \<open>\<open>shard P b bm\<close>: manager \<open>b\<close> holds the books of \<open>bm\<close> for the instruments in \<open>P\<close> and no others.\<close>

definition shard :: "(u64 \<Rightarrow> bool) \<Rightarrow> BookManager \<Rightarrow> BookManager \<Rightarrow> bool" where
  "shard P b bm \<longleftrightarrow>
     BM_index_ok b \<and> bm_unresolved_events b = 0 \<and>
     (\<forall>i. map_of (bm_books b) i = (if P i then map_of (bm_books bm) i else None))"

lemma shard_book: "shard P b bm \<Longrightarrow> BM_book b i = (if P i then BM_book bm i else LOB_new i)"
  by (simp add: shard_def BM_book_def)

lemma BM_unresolved_frame:
  "bm_unresolved_events (BM_removePreviousInstrumentMapping e i bm) = bm_unresolved_events bm"
  "bm_unresolved_events (snd (BM_getOrCreateBook bm i)) = bm_unresolved_events bm"
  "bm_unresolved_events (BM_updateOrderMapping e b bm) = bm_unresolved_events bm"
proof -
  show "bm_unresolved_events (BM_removePreviousInstrumentMapping e i bm) = bm_unresolved_events bm"
    by (simp add: BM_removePreviousInstrumentMapping_def Let_def split: option.split)
  show "bm_unresolved_events (snd (BM_getOrCreateBook bm i)) = bm_unresolved_events bm"
    by (simp add: BM_getOrCreateBook_def split: option.split)
  show "bm_unresolved_events (BM_updateOrderMapping e b bm) = bm_unresolved_events bm"
    by (cases "ev_action e") (simp_all add: BM_updateOrderMapping_def BM_eraseOrderMappingIfMatches_def
        BM_eraseOrderMappingsForInstrument_def)
qed

lemma BM_apply_unresolved_frame:
  assumes "BM_resolveInstrumentId bm e \<noteq> 0"
  shows "bm_unresolved_events (BM_apply bm e) = bm_unresolved_events bm"
proof -
  let ?bm = "bm\<lparr>bm_processed_events := bm_processed_events bm + 1\<rparr>"
  let ?i = "BM_resolveInstrumentId bm e"
  obtain book bm2 where g: "BM_getOrCreateBook (BM_removePreviousInstrumentMapping (routed bm e) ?i ?bm) ?i = (book, bm2)"
    by fastforce
  have "bm_unresolved_events bm2 = bm_unresolved_events bm"
    using arg_cong [OF g, of "\<lambda>p. bm_unresolved_events (snd p)"] by (simp add: BM_unresolved_frame)
  then show ?thesis using assms g by (simp add: BM_apply_def Let_def BM_unresolved_frame)
qed

lemma BM_apply_no_move:
  assumes "BM_index_ok b" and "ev_instrument_id r \<noteq> 0" and "BM_moved_from b r = None"
  shows "map_of (bm_books (BM_apply b r)) k =
    (if k = ev_instrument_id r then Some (LOB_apply (BM_book b k) r) else map_of (bm_books b) k)"
    and "bm_unresolved_events (BM_apply b r) = bm_unresolved_events b"
proof -
  have res: "BM_resolveInstrumentId b r = ev_instrument_id r"
    using assms(2) by (simp add: BM_resolveInstrumentId_def)
  then have same: "routed b r = r" by simp
  show "map_of (bm_books (BM_apply b r)) k =
    (if k = ev_instrument_id r then Some (LOB_apply (BM_book b k) r) else map_of (bm_books b) k)"
    using BM_apply_books [OF assms(1), of r k] assms(2,3) unfolding res same by simp
  show "bm_unresolved_events (BM_apply b r) = bm_unresolved_events b"
    by (rule BM_apply_unresolved_frame) (use assms(2) res in simp)
qed

text \<open>One event of the shard's own: nothing moves, the book takes it.\<close>

lemma shard_single:
  assumes sh: "shard P b bm" and i: "P (ev_instrument_id r)" "ev_instrument_id r \<noteq> 0"
    and mv: "BM_moved_from b r = None"
    and bm': "\<And>k. map_of (bm_books bm') k =
      (if k = ev_instrument_id r then Some (LOB_apply (BM_book bm k) r) else map_of (bm_books bm) k)"
  shows "shard P (BM_apply b r) bm'"
proof -
  have ok: "BM_index_ok b" using sh by (simp add: shard_def)
  show ?thesis
    unfolding shard_def BM_apply_no_move [OF ok i(2) mv] bm'
    using BM_index_apply [OF ok, of r] sh i shard_book [OF sh, of "ev_instrument_id r"]
    by (auto simp: shard_def)
qed

lemma shard_foreign:
  assumes "shard P b bm" and "\<not> P i" and "\<And>k. k \<noteq> i \<Longrightarrow> map_of (bm_books bm') k = map_of (bm_books bm) k"
  shows "shard P b bm'"
  unfolding shard_def
proof (intro conjI allI)
  fix k
  show "map_of (bm_books b) k = (if P k then map_of (bm_books bm') k else None)"
    using assms by (cases "k = i") (simp_all add: shard_def)
qed (use assms(1) in \<open>simp_all add: shard_def\<close>)

lemma cancel_not_moved: "BM_moved_from b (cancel_previous r j) = None"
  by (simp add: BM_moved_from_def cancel_previous_def)

lemma moved_from_abs:
  assumes "BM_index_ok bm"
  shows "BM_moved_from bm r =
    (if (ev_action r = Add \<or> ev_action r = Modify) \<and> hasValidRestingState r
     then (case BM_abs bm (ev_order_id r) of
             None \<Rightarrow> None | Some (j, x) \<Rightarrow> if j = ev_instrument_id r then None else Some j)
     else None)"
  by (auto simp: BM_moved_from_def BM_index_abs [OF assms] simp del: map_of_eq_Some_iff map_of_eq_None_iff
      split: option.split)

lemma valid_routed: "hasValidRestingState (e\<lparr>ev_instrument_id := i\<rparr>) = hasValidRestingState e"
  by (simp add: hasValidRestingState_def)

text \<open>In a shard an order that rests nowhere else in the market does not move.\<close>

lemma shard_not_moved:
  assumes "shard P b bm" and "\<And>j. j \<noteq> ev_instrument_id r \<Longrightarrow> \<not> LOB_containsOrder (BM_book bm j) (ev_order_id r)"
  shows "BM_moved_from b r = None"
proof (rule ccontr)
  assume "BM_moved_from b r \<noteq> None"
  then obtain j where "BM_moved_from b r = Some j" by auto
  from BM_moved_from_SomeD [OF this] have "j \<noteq> ev_instrument_id r"
    "map_of (bm_order_to_instrument b) (ev_order_id r) = Some j" by auto
  with assms(1) BM_index_iff [of b] have "LOB_containsOrder (BM_book b j) (ev_order_id r)"
    by (simp add: shard_def del: map_of_eq_Some_iff)
  with assms \<open>j \<noteq> ev_instrument_id r\<close> shard_book [OF assms(1), of j] show False by (auto split: if_splits)
qed

lemma route_step_resolved:
  assumes ok: "BM_index_ok bm" and res: "BM_resolveInstrumentId bm e \<noteq> 0"
  shows "route_step (BM_abs bm) e =
    (case BM_moved_from bm (routed bm e) of None \<Rightarrow> [] | Some j \<Rightarrow> [cancel_previous (routed bm e) j]) @ [routed bm e]"
  using res unfolding route_step_def BM_resolve_abs [OF ok, symmetric] Let_def moved_from_abs [OF ok] valid_routed
  by (auto split: option.split)

lemma BM_index_nonzero: "BM_index_ok bm \<Longrightarrow> map_of (bm_order_to_instrument bm) k = Some j \<Longrightarrow> j \<noteq> 0"
  by (auto simp: BM_index_ok_def simp del: map_of_eq_Some_iff map_of_eq_None_iff)

lemma shard_maybe:
  assumes sh: "shard P b bm" and i: "ev_instrument_id r \<noteq> 0"
    and mv: "P (ev_instrument_id r) \<Longrightarrow> BM_moved_from b r = None"
    and bm': "\<And>k. map_of (bm_books bm') k =
      (if k = ev_instrument_id r then Some (LOB_apply (BM_book bm k) r) else map_of (bm_books bm) k)"
  shows "shard P (foldl BM_apply b (filter (\<lambda>r. P (ev_instrument_id r)) [r])) bm'"
proof (cases "P (ev_instrument_id r)")
  case True
  with shard_single [OF sh True i mv [OF True] bm'] show ?thesis by simp
next
  case False
  with shard_foreign [OF sh False, of bm'] bm' show ?thesis by simp
qed

lemma shard_step:
  assumes ok: "BM_index_ok bm" and sh: "shard P b bm"
  shows "shard P (foldl BM_apply b (filter (\<lambda>r. P (ev_instrument_id r)) (route_step (BM_abs bm) e))) (BM_apply bm e)"
proof (cases "BM_resolveInstrumentId bm e = 0")
  case True
  then have "route_step (BM_abs bm) e = []" by (simp add: route_step_def BM_resolve_abs [OF ok] Let_def)
  with True sh show ?thesis by (simp add: BM_apply_unresolved shard_def)
next
  case res: False
  let ?r = "routed bm e" and ?i = "BM_resolveInstrumentId bm e"
  note books = BM_apply_books [OF ok res]
  have own: "\<not> LOB_containsOrder (BM_book bm j) (ev_order_id ?r)"
    if "BM_moved_from bm ?r = None" "ev_action ?r = Add \<or> ev_action ?r = Modify" "hasValidRestingState ?r" "j \<noteq> ?i" for j
    using BM_not_moved [OF that(1-3), of j] BM_index_iff [OF ok, of "ev_order_id ?r" j] that(4)
    by (auto simp del: map_of_eq_Some_iff)
  show ?thesis
  proof (cases "BM_moved_from bm ?r")
    case None
    have nm: "BM_moved_from b ?r = None"
    proof (cases "(ev_action ?r = Add \<or> ev_action ?r = Modify) \<and> hasValidRestingState ?r")
      case True
      with own [OF None] show ?thesis by (intro shard_not_moved [OF sh]) simp
    qed (auto simp: BM_moved_from_def)
    have "shard P (foldl BM_apply b (filter (\<lambda>r. P (ev_instrument_id r)) [?r])) (BM_apply bm e)"
      using res nm None books by (intro shard_maybe [OF sh]) simp_all
    with None show ?thesis unfolding route_step_resolved [OF ok res] by simp
  next
    case (Some j)
    let ?c = "cancel_previous ?r j" and ?bm1 = "BM_apply bm (cancel_previous ?r j)"
    from BM_moved_from_SomeD [OF Some] have j: "j \<noteq> ?i"
      "map_of (bm_order_to_instrument bm) (ev_order_id ?r) = Some j" by simp_all
    then have j0: "j \<noteq> 0" using BM_index_nonzero [OF ok] by blast
    have cj: "ev_instrument_id ?c = j" by (simp add: cancel_previous_def)
    note bm1 = BM_apply_no_move(1) [OF ok _ cancel_not_moved, of ?r j, unfolded cj, OF j0]
    let ?b1 = "foldl BM_apply b (filter (\<lambda>r. P (ev_instrument_id r)) [?c])"
    have sh1: "shard P ?b1 ?bm1"
      by (rule shard_maybe [OF sh]) (simp_all add: cj j0 cancel_not_moved bm1)
    have book1: "BM_book ?bm1 k = (if k = j then LOB_apply (BM_book bm j) ?c else BM_book bm k)" for k
      by (simp add: BM_book_def [of ?bm1] bm1 BM_book_def [of bm])
    have away: "\<not> LOB_containsOrder (BM_book ?bm1 k) (ev_order_id ?r)" if "k \<noteq> ev_instrument_id ?r" for k
    proof (cases "k = j")
      case True
      then show ?thesis by (simp add: book1 contains_cancel_previous)
    next
      case False
      with j(2) BM_index_iff [OF ok] have "\<not> LOB_containsOrder (BM_book bm k) (ev_order_id ?r)"
        by (metis option.inject)
      with False show ?thesis by (simp add: book1)
    qed
    have "shard P (foldl BM_apply ?b1 (filter (\<lambda>r. P (ev_instrument_id r)) [?r])) (BM_apply bm e)"
      using res shard_not_moved [OF sh1 away] books Some j(1) book1 bm1
      by (intro shard_maybe [OF sh1]) auto
    with Some show ?thesis unfolding route_step_resolved [OF ok res] by (simp split: if_splits)
  qed
qed

lemma shard_new: "shard P BM_new BM_new"
  by (simp add: shard_def BM_index_new) (simp add: BM_new_def)

lemma shard_run:
  "shard P (foldl BM_apply BM_new (filter (\<lambda>r. P (ev_instrument_id r)) (route_all Map.empty es)))
     (foldl BM_apply BM_new es)"
proof (induction es rule: rev_induct)
  case Nil
  show ?case by (simp add: shard_new)
next
  case (snoc e es)
  from shard_step [OF BM_run_index snoc, of e] show ?case
    by (simp add: route_all_snoc BM_run_refines)
qed

section \<open>The merged snapshot\<close>

lemma map_filter_total:
  "(\<And>i. i \<in> set is \<Longrightarrow> m i \<noteq> None) \<Longrightarrow>
   List.map_filter (\<lambda>i. map_option (Pair i) (m i)) is = map (\<lambda>i. (i, the (m i))) is"
  by (induction "is") (auto simp: map_filter_simps split: option.split)

lemma sorted_books_eq:
  "sorted_books bm = map (\<lambda>i. (i, the (map_of (bm_books bm) i))) (sortedInstrumentIds (bm_books bm))"
  unfolding sorted_books_def
  by (rule map_filter_total) (auto simp: sortedInstrumentIds_def map_of_eq_None_iff)

lemma sorted_books_facts:
  assumes "distinct (keys (bm_books bm))"
  shows "map fst (sorted_books bm) = sort (keys (bm_books bm))" and "distinct (map fst (sorted_books bm))"
    and "sorted (map fst (sorted_books bm))"
    and "(i, b) \<in> set (sorted_books bm) \<longleftrightarrow> map_of (bm_books bm) i = Some b"
proof -
  show fst: "map fst (sorted_books bm) = sort (keys (bm_books bm))"
    by (simp add: sorted_books_eq sortedInstrumentIds_def comp_def)
  show "distinct (map fst (sorted_books bm))" "sorted (map fst (sorted_books bm))"
    unfolding fst using assms by simp_all
  show "(i, b) \<in> set (sorted_books bm) \<longleftrightarrow> map_of (bm_books bm) i = Some b"
  proof
    assume "(i, b) \<in> set (sorted_books bm)"
    then have "i \<in> set (keys (bm_books bm))" "b = the (map_of (bm_books bm) i)"
      by (auto simp: sorted_books_eq sortedInstrumentIds_def)
    then show "map_of (bm_books bm) i = Some b"
      by (metis map_of_eq_None_iff option.collapse set_map)
  next
    assume m: "map_of (bm_books bm) i = Some b"
    then have "i \<in> set (keys (bm_books bm))" by (metis map_of_eq_None_iff option.distinct(1) set_map)
    with m show "(i, b) \<in> set (sorted_books bm)"
      by (auto simp: sorted_books_eq sortedInstrumentIds_def simp del: map_of_eq_Some_iff)
  qed
qed

lemma distinct_map_fst_set: "distinct (map fst xs) \<Longrightarrow> distinct xs"
  by (simp add: distinct_map)

definition shards :: "BookManager list \<Rightarrow> BookManager \<Rightarrow> bool" where
  "shards bs bm \<longleftrightarrow>
     0 < length bs \<and> (\<forall>k < length bs. shard (\<lambda>i. unat i mod length bs = k) (bs ! k) bm)"

lemma shards_concat_distinct:
  assumes sh: "shards bs bm"
  shows "distinct (map fst (concat (map sorted_books bs)))"
proof -
  have id: "unat i mod length bs = k" if "k < length bs" "i \<in> set (map fst (sorted_books (bs ! k)))" for i k
  proof -
    have s: "shard (\<lambda>i. unat i mod length bs = k) (bs ! k) bm" using sh that(1) by (simp add: shards_def)
    then have d: "distinct (keys (bm_books (bs ! k)))" by (simp add: shard_def BM_index_ok_def)
    from that(2) obtain b where "(i, b) \<in> set (sorted_books (bs ! k))" by auto
    then have "map_of (bm_books (bs ! k)) i = Some b" using sorted_books_facts(4) [OF d] by blast
    with s show ?thesis by (auto simp: shard_def simp del: map_of_eq_Some_iff map_of_eq_None_iff split: if_splits)
  qed
  have "distinct (map fst (concat (map sorted_books (take k bs))))" if "k \<le> length bs" for k
    using that
  proof (induction k)
    case (Suc k)
    then have k: "k < length bs" by simp
    have "distinct (keys (bm_books (bs ! k)))" using sh k by (simp add: shards_def shard_def BM_index_ok_def)
    note d = sorted_books_facts(2) [OF this]
    have "x \<notin> set (map fst (sorted_books (bs ! k)))" if x: "x \<in> set (map fst (concat (map sorted_books (take k bs))))" for x
    proof
      assume "x \<in> set (map fst (sorted_books (bs ! k)))"
      from id [OF k this] have "unat x mod length bs = k" .
      moreover from x obtain b where b: "b \<in> set (take k bs)" "x \<in> set (map fst (sorted_books b))" by auto
      from b(1) k obtain l where "l < k" "b = bs ! l" by (auto simp: in_set_conv_nth)
      with id [of l x] b(2) k have "unat x mod length bs = l" by simp
      ultimately show False using \<open>l < k\<close> by simp
    qed
    then have "set (map fst (concat (map sorted_books (take k bs)))) \<inter> set (map fst (sorted_books (bs ! k))) = {}"
      by blast
    with Suc k d show ?case
      by (simp add: take_Suc_conv_app_nth del: set_map set_concat)
  qed simp
  from this [of "length bs"] show ?thesis by simp
qed

lemma shards_concat_set:
  assumes sh: "shards bs bm" and ok: "BM_index_ok bm"
  shows "set (concat (map sorted_books bs)) = set (sorted_books bm)"
proof -
  have d: "distinct (keys (bm_books bm))" using ok by (simp add: BM_index_ok_def)
  have dk: "distinct (keys (bm_books (bs ! k)))" if "k < length bs" for k
    using sh that by (simp add: shards_def shard_def BM_index_ok_def)
  have part: "map_of (bm_books (bs ! k)) i = (if unat i mod length bs = k then map_of (bm_books bm) i else None)"
    if "k < length bs" for k i
    using sh that by (simp add: shards_def shard_def)
  show ?thesis
  proof (intro set_eqI iffI)
    fix p assume "p \<in> set (concat (map sorted_books bs))"
    then obtain b where "b \<in> set bs" "p \<in> set (sorted_books b)" by auto
    then obtain k where k: "k < length bs" "p \<in> set (sorted_books (bs ! k))" by (auto simp: in_set_conv_nth)
    obtain i b where p: "p = (i, b)" by (cases p)
    from k have "map_of (bm_books (bs ! k)) i = Some b" unfolding p sorted_books_facts(4) [OF dk [OF k(1)]] by simp
    then have "map_of (bm_books bm) i = Some b" unfolding part [OF k(1)] by (metis option.distinct(1))
    then show "p \<in> set (sorted_books bm)" unfolding p sorted_books_facts(4) [OF d] .
  next
    fix p assume "p \<in> set (sorted_books bm)"
    moreover obtain i b where p: "p = (i, b)" by (cases p)
    ultimately have m: "map_of (bm_books bm) i = Some b" unfolding sorted_books_facts(4) [OF d, symmetric] by simp
    let ?k = "unat i mod length bs"
    have k: "?k < length bs" using sh by (simp add: shards_def)
    then have "map_of (bm_books (bs ! ?k)) i = Some b" unfolding part [OF k] using m by simp
    then have "p \<in> set (sorted_books (bs ! ?k))" unfolding p sorted_books_facts(4) [OF dk [OF k]] .
    with k show "p \<in> set (concat (map sorted_books bs))" using nth_mem by fastforce
  qed
qed

lemma shards_snapshot:
  assumes sh: "shards bs bm" and ok: "BM_index_ok bm"
  shows "sort_key ibs_instrument_id (concat (map (\<lambda>b. bms_instruments (BM_snapshot b c t d)) bs)) =
    bms_instruments (BM_snapshot bm c t d)"
proof -
  let ?f = "\<lambda>p. instrument_snapshot (fst p) (snd p) d"
  have key: "ibs_instrument_id (?f p) = fst p" for p by (simp add: instrument_snapshot_def)
  have dk: "distinct (keys (bm_books bm))" using ok by (simp add: BM_index_ok_def)
  note facts = sorted_books_facts [OF dk]
  have "mset (sorted_books bm) = mset (concat (map sorted_books bs))"
    using shards_concat_set [OF sh ok] distinct_map_fst_set [OF shards_concat_distinct [OF sh]]
      distinct_map_fst_set [OF facts(2)] set_eq_iff_mset_eq_distinct by metis
  then have m: "mset (map ?f (sorted_books bm)) = mset (map ?f (concat (map sorted_books bs)))"
    by (simp only: mset_map)
  have "map ?f (sorted_books bm) = sort_key ibs_instrument_id (map ?f (concat (map sorted_books bs)))"
    using facts(3) shards_concat_distinct [OF sh]
    by (intro sorted_distinct_keys_unique [OF _ m]) (simp_all add: comp_def key del: map_concat)
  moreover have "concat (map (\<lambda>b. bms_instruments (BM_snapshot b c t d)) bs) = map ?f (concat (map sorted_books bs))"
    by (simp add: BM_snapshot_sorted_books map_concat comp_def case_prod_unfold)
  ultimately show ?thesis by (simp add: BM_snapshot_sorted_books case_prod_unfold)
qed

section \<open>One worker\<close>

text \<open>
  What the worker has processed and what is still in its queue together are the events \<open>evs\<close> it
  was given.
\<close>

definition WK_inv :: "MarketDataEvent list \<Rightarrow> Worker \<Rightarrow> bool" where
  "WK_inv evs w \<longleftrightarrow>
     NBQ_inv (wk_queue w) \<and> \<not> wk_returned w \<and> \<not> wk_finish_requested w \<and>
     wk_enqueued_count w = of_nat (length evs) \<and>
     (\<exists>pend. NBQ_contents (wk_queue w) = map WorkerItem_data pend \<and> length pend \<le> length evs \<and>
        foldl BM_apply (wk_books w) pend = foldl BM_apply BM_new evs \<and>
        wk_processed_count w = of_nat (length evs - length pend))"

lemma WK_inv_new: "WK_new = Inr w \<Longrightarrow> WK_inv [] w"
  using NBQ_new_correct by (auto simp: WK_new_def WK_inv_def split: sum.splits)

lemma WK_new_ok: "\<exists>w. WK_new = Inr w"
  by (simp add: WK_new_def NBQ_new_def)

lemma WK_inv_enqueue:
  assumes "WK_inv evs w"
  shows "\<exists>w'. WK_enqueue e w = Returns w' \<and> WK_inv (evs @ [e]) w'"
proof -
  from assms obtain pend where w: "NBQ_inv (wk_queue w)" "\<not> wk_returned w" "\<not> wk_finish_requested w"
    "wk_enqueued_count w = of_nat (length evs)" and p: "NBQ_contents (wk_queue w) = map WorkerItem_data pend"
    "length pend \<le> length evs" "foldl BM_apply (wk_books w) pend = foldl BM_apply BM_new evs"
    "wk_processed_count w = of_nat (length evs - length pend)"
    unfolding WK_inv_def by blast
  from nbq_blocking.push_law [OF w(1), of "WorkerItem_data e"] obtain q where
    q: "NBQ_push (WorkerItem_data e) (wk_queue w) = Some q" "NBQ_inv q"
    "NBQ_contents q = NBQ_contents (wk_queue w) @ [WorkerItem_data e]" by blast
  have "WK_inv (evs @ [e]) (w\<lparr>wk_enqueued_count := wk_enqueued_count w + 1, wk_queue := q\<rparr>)"
    unfolding WK_inv_def using w p q by (intro conjI exI [of _ "pend @ [e]"]) auto
  with q(1) w(3) show ?thesis by (simp add: WK_enqueue_def)
qed

lemma WorkerItem_simps [simp]:
  "\<not> wi_end_of_stream (WorkerItem_data e)" "wi_event (WorkerItem_data e) = e" "wi_end_of_stream WorkerItem_end"
  by (simp_all add: WorkerItem_data_def WorkerItem_end_def)

lemma WK_step_take:
  assumes "WK_inv evs w" and "NBQ_published (wk_queue w) = x # xs"
  shows "\<exists>w'. WK_step w = Some w' \<and> WK_inv evs w' \<and>
    NBQ_contents (wk_queue w) = x # NBQ_contents (wk_queue w') \<and> NBQ_published (wk_queue w') = xs"
proof -
  from assms obtain pend where w: "NBQ_inv (wk_queue w)" "\<not> wk_returned w" "\<not> wk_finish_requested w"
    "wk_enqueued_count w = of_nat (length evs)" and p: "NBQ_contents (wk_queue w) = map WorkerItem_data pend"
    "length pend \<le> length evs" "foldl BM_apply (wk_books w) pend = foldl BM_apply BM_new evs"
    "wk_processed_count w = of_nat (length evs - length pend)"
    unfolding WK_inv_def by blast
  from nbq_blocking.take_some [OF w(1) assms(2)] obtain q where
    q: "NBQ_pop (wk_queue w) = Some (Some x, q)" "NBQ_inv q" "NBQ_contents (wk_queue w) = x # NBQ_contents q"
    "NBQ_published q = xs" by blast
  from q(3) p(1) obtain e pend' where e: "pend = e # pend'" "x = WorkerItem_data e" by (cases pend) auto
  let ?w = "w\<lparr>wk_queue := q, wk_books := BM_apply (wk_books w) e, wk_processed_count := wk_processed_count w + 1\<rparr>"
  have "length evs - length pend' = Suc (length evs - length pend)" using p(2) e by simp
  then have "WK_inv evs ?w"
    unfolding WK_inv_def using w p q e by (intro conjI exI [of _ pend']) auto
  then show ?thesis using q e w by (auto simp: WK_step_def)
qed

lemma WK_inv_step:
  assumes "WK_inv evs w"
  shows "\<exists>w'. WK_step w = Some w' \<and> WK_inv evs w'"
proof (cases "NBQ_published (wk_queue w)")
  case Nil
  have w: "NBQ_inv (wk_queue w)" "\<not> wk_returned w" using assms by (simp_all add: WK_inv_def)
  from nbq_blocking.take_none [OF w(1) Nil] obtain q where
    "NBQ_pop (wk_queue w) = Some (None, q)" "NBQ_inv q" "NBQ_contents q = NBQ_contents (wk_queue w)" by blast
  with assms w show ?thesis by (auto simp: WK_step_def WK_inv_def)
next
  case (Cons x xs)
  with WK_step_take [OF assms] show ?thesis by blast
qed

lemma WK_drainLoop_ok:
  assumes "WK_inv evs w" and "NBQ_published (wk_queue w) = NBQ_contents (wk_queue w)" and "length evs < two64"
  shows "\<exists>w'. WK_drainLoop (of_nat (length evs)) w = Some w' \<and> WK_inv evs w' \<and>
    wk_books w' = foldl BM_apply BM_new evs"
  using assms(1,2)
proof (induction "length (NBQ_contents (wk_queue w))" arbitrary: w)
  case 0
  then have "wk_processed_count w = of_nat (length evs)" "wk_books w = foldl BM_apply BM_new evs"
    by (auto simp: WK_inv_def)
  with 0 show ?case by (subst WK_drainLoop.simps) simp
next
  case (Suc n)
  then obtain x xs where x: "NBQ_contents (wk_queue w) = x # xs" by (cases "NBQ_contents (wk_queue w)") auto
  with Suc.prems(2) have "NBQ_published (wk_queue w) = x # xs" by simp
  from WK_step_take [OF Suc.prems(1) this] obtain w1 where w1: "WK_step w = Some w1" "WK_inv evs w1"
    "NBQ_contents (wk_queue w) = x # NBQ_contents (wk_queue w1)" "NBQ_published (wk_queue w1) = xs" by blast
  with x have "NBQ_published (wk_queue w1) = NBQ_contents (wk_queue w1)" by simp
  with Suc.hyps(1) [of w1] Suc.hyps(2) w1 x have
    IH: "\<exists>w'. WK_drainLoop (of_nat (length evs)) w1 = Some w' \<and> WK_inv evs w' \<and>
      wk_books w' = foldl BM_apply BM_new evs" by simp
  from Suc.prems(1) obtain pend where p: "NBQ_contents (wk_queue w) = map WorkerItem_data pend"
    "length pend \<le> length evs" "wk_processed_count w = of_nat (length evs - length pend)"
    unfolding WK_inv_def by blast
  have "unat (wk_processed_count w) = length evs - length pend"
    unfolding p(3) by (rule unat_of_nat_u64) (use assms(3) in linarith)
  moreover have "0 < length pend" using x p(1) by (cases pend) auto
  ultimately have "unat (wk_processed_count w) < length evs" using p(2) by linarith
  then have "wk_processed_count w < of_nat (length evs)"
    using assms(3) by (simp add: word_less_nat_alt unat_of_nat_u64)
  with w1(1) IH show ?case by (subst WK_drainLoop.simps) simp
qed

lemma WK_drain_ok:
  assumes "WK_inv evs w" and "length evs < two64"
  shows "\<exists>w'. WK_drain w = Some w' \<and> WK_inv evs w' \<and> wk_books w' = foldl BM_apply BM_new evs"
proof -
  have w: "NBQ_inv (wk_queue w)" "wk_enqueued_count w = of_nat (length evs)" using assms(1) by (simp_all add: WK_inv_def)
  from nbq_blocking.flush_law [OF w(1)] obtain q where q: "NBQ_flush (wk_queue w) = Some q" "NBQ_inv q"
    "NBQ_contents q = NBQ_contents (wk_queue w)" "NBQ_published q = NBQ_contents (wk_queue w)" by blast
  have "WK_inv evs (w\<lparr>wk_queue := q\<rparr>)" using assms(1) q by (auto simp: WK_inv_def)
  from WK_drainLoop_ok [OF this _ assms(2)] q w(2) show ?thesis by (simp add: WK_drain_def)
qed

section \<open>All workers\<close>

definition workers_inv :: "MarketDataEvent list \<Rightarrow> Worker list \<Rightarrow> bool" where
  "workers_inv rs ws \<longleftrightarrow>
     0 < length ws \<and>
     (\<forall>k < length ws. WK_inv (filter (\<lambda>r. unat (ev_instrument_id r) mod length ws = k) rs) (ws ! k))"

lemma workers_inv_enqueue:
  assumes "workers_inv rs (sh_workers sh)" and "ev_instrument_id r = i"
  shows "\<exists>ws. SH_enqueue i r sh = Returns (sh\<lparr>sh_workers := ws\<rparr>) \<and> workers_inv (rs @ [r]) ws \<and>
    length ws = length (sh_workers sh)"
proof -
  let ?n = "length (sh_workers sh)"
  let ?k = "unat i mod ?n"
  have k: "?k < ?n" using assms(1) by (simp add: workers_inv_def)
  let ?evs = "filter (\<lambda>r. unat (ev_instrument_id r) mod ?n = ?k) rs"
  have "WK_inv ?evs (sh_workers sh ! ?k)" using assms(1) k by (simp add: workers_inv_def)
  from WK_inv_enqueue [OF this, of r] obtain w where w: "WK_enqueue r (sh_workers sh ! ?k) = Returns w"
    "WK_inv (?evs @ [r]) w" by blast
  have "workers_inv (rs @ [r]) ((sh_workers sh)[?k := w])"
    using assms w(2) k by (auto simp: workers_inv_def nth_list_update)
  with w(1) show ?thesis by (auto simp: SH_enqueue_def SH_workerIndex_def Let_def)
qed

lemma workers_inv_step:
  assumes "workers_inv rs ws" and "k < length ws"
  shows "\<exists>w. WK_step (ws ! k) = Some w \<and> workers_inv rs (ws[k := w])"
proof -
  have "WK_inv (filter (\<lambda>r. unat (ev_instrument_id r) mod length ws = k) rs) (ws ! k)"
    using assms by (simp add: workers_inv_def)
  from WK_inv_step [OF this] assms show ?thesis by (fastforce simp: workers_inv_def nth_list_update)
qed

lemma those_map_Some:
  "(\<And>k. k < length xs \<Longrightarrow> \<exists>y. f (xs ! k) = Some y \<and> P k y) \<Longrightarrow>
   \<exists>ys. those (map f xs) = Some ys \<and> length ys = length xs \<and> (\<forall>k < length xs. P k (ys ! k))"
proof (induction xs arbitrary: P)
  case (Cons x xs)
  from Cons.prems [of 0] obtain y where y: "f x = Some y" "P 0 y" by auto
  from Cons.IH [of "\<lambda>k. P (Suc k)"] Cons.prems obtain ys where
    "those (map f xs) = Some ys" "length ys = length xs" "\<forall>k < length xs. P (Suc k) (ys ! k)"
    by (metis Suc_less_eq length_Cons nth_Cons_Suc)
  with y show ?case by (auto simp: nth_Cons split: nat.split)
qed simp

lemma drain_ok:
  assumes "workers_inv rs (sh_workers sh)" and "length rs < two64"
  shows "\<exists>ws. SH_drainWorkers sh = Some (sh\<lparr>sh_workers := ws\<rparr>) \<and> workers_inv rs ws \<and>
    length ws = length (sh_workers sh) \<and>
    (\<forall>k < length ws. wk_books (ws ! k) =
       foldl BM_apply BM_new (filter (\<lambda>r. unat (ev_instrument_id r) mod length ws = k) rs))"
proof -
  let ?n = "length (sh_workers sh)"
  let ?evs = "\<lambda>k. filter (\<lambda>r. unat (ev_instrument_id r) mod ?n = k) rs"
  let ?P = "\<lambda>k w'. WK_inv (?evs k) w' \<and> wk_books w' = foldl BM_apply BM_new (?evs k)"
  have "\<exists>w'. WK_drain (sh_workers sh ! k) = Some w' \<and> ?P k w'" if "k < ?n" for k
    using assms that le_less_trans [OF length_filter_le assms(2)]
    by (intro WK_drain_ok) (auto simp: workers_inv_def)
  from those_map_Some [where f = WK_drain and xs = "sh_workers sh" and P = ?P, OF this]
  obtain ws where "those (map WK_drain (sh_workers sh)) = Some ws" "length ws = ?n" "\<forall>k < ?n. ?P k (ws ! k)"
    by blast
  with assms(1) show ?thesis by (auto simp: SH_drainWorkers_def workers_inv_def)
qed

section \<open>The router and the whole processor\<close>

definition router_of :: "u64 \<times> RestingOrder \<Rightarrow> RouterOrder" where
  "router_of p = \<lparr>rt_instrument_id = fst p, rt_size = ro_size (snd p)\<rparr>"

definition router_ok :: "(u64 \<rightharpoonup> u64 \<times> RestingOrder) \<Rightarrow> (u64, RouterOrder) umap \<Rightarrow> bool" where
  "router_ok m router \<longleftrightarrow>
     distinct (keys router) \<and> (\<forall>k. map_of router k = map_option router_of (m k)) \<and> m 0 = None"

text \<open>
  A cancellation that names an order known on some instrument names that instrument. The router
  drops such an order whatever instrument the cancellation names; a \<open>BookManager\<close> does not.
\<close>

definition cancel_matches :: "(u64 \<rightharpoonup> u64 \<times> RestingOrder) \<Rightarrow> MarketDataEvent \<Rightarrow> bool" where
  "cancel_matches m e \<longleftrightarrow>
     ev_action e \<noteq> Cancel \<or>
     (case m (ev_order_id e) of None \<Rightarrow> True | Some (j, x) \<Rightarrow> market_instrument m e = j)"

fun cancels_match :: "(u64 \<rightharpoonup> u64 \<times> RestingOrder) \<Rightarrow> MarketDataEvent list \<Rightarrow> bool" where
  "cancels_match m [] = True"
| "cancels_match m (e # es) = (cancel_matches m e \<and> cancels_match (market_spec m e) es)"

lemma cancels_match_snoc:
  "cancels_match m (es @ [e]) = (cancels_match m es \<and> cancel_matches (foldl market_spec m es) e)"
  by (induction es arbitrary: m) auto

lemma router_ok_lookup: "router_ok m router \<Longrightarrow> map_of router k = map_option router_of (m k)"
  by (simp add: router_ok_def)

lemma router_resolve:
  assumes ok: "router_ok m (sh_router_orders sh)"
  shows "SH_resolveInstrumentId sh e = market_instrument m e"
proof -
  have "m 0 = None" using ok by (simp add: router_ok_def)
  then show ?thesis
    unfolding SH_resolveInstrumentId_def market_instrument_def router_ok_lookup [OF ok]
    by (auto simp: router_of_def split: option.split)
qed

lemma market_spec_zero: "m 0 = None \<Longrightarrow> market_spec m e 0 = None"
  by (auto simp: market_spec_def Let_def hasValidRestingState_def split: Action.split option.split)

lemma router_ok_put:
  "router_ok m router \<Longrightarrow> k \<noteq> 0 \<Longrightarrow> router_ok (m(k \<mapsto> (i, x))) (AList.update k \<lparr>rt_instrument_id = i, rt_size = ro_size x\<rparr> router)"
  by (auto simp: router_ok_def router_of_def intro: distinct_keys_update simp del: map_of_eq_Some_iff map_of_eq_None_iff)

lemma router_ok_drop: "router_ok m router \<Longrightarrow> router_ok (m(k := None)) (AList.delete k router)"
  by (auto simp: router_ok_def intro: distinct_keys_delete simp del: map_of_eq_Some_iff map_of_eq_None_iff)

lemma router_ok_clear:
  assumes ok: "router_ok m router"
  shows "router_ok (\<lambda>k. case m k of None \<Rightarrow> None | Some (j, x) \<Rightarrow> if j = i then None else m k)
    (filter (\<lambda>(k, r). rt_instrument_id r \<noteq> i) router)"
  unfolding router_ok_def
proof (intro conjI allI)
  have d: "distinct (keys router)" using ok by (simp add: router_ok_def)
  then show "distinct (keys (filter (\<lambda>(k, r). rt_instrument_id r \<noteq> i) router))" by (rule distinct_keys_filter)
  show "map_of (filter (\<lambda>(k, r). rt_instrument_id r \<noteq> i) router) k =
      map_option router_of (case m k of None \<Rightarrow> None | Some (j, x) \<Rightarrow> if j = i then None else m k)" for k
    unfolding map_of_filter_key [OF d, of "\<lambda>k r. rt_instrument_id r \<noteq> i"] router_ok_lookup [OF ok]
    by (auto simp: router_of_def split: option.split)
  show "(case m 0 of None \<Rightarrow> None | Some (j, x) \<Rightarrow> if j = i then None else m 0) = None"
    using ok by (simp add: router_ok_def)
qed

lemma market_instrument_self: "i \<noteq> 0 \<Longrightarrow> market_instrument m (e\<lparr>ev_instrument_id := i\<rparr>) = i"
  by (simp add: market_instrument_def)

text \<open>One dispatched event: the router follows the market, the workers get the routed events.\<close>

lemma dispatch_add:
  assumes act: "ev_action e = Add \<or> ev_action e = Modify" and valid: "hasValidRestingState e"
    and i: "market_instrument m e = i" "i \<noteq> 0"
    and ok: "router_ok m (sh_router_orders sh)" and w: "workers_inv rs (sh_workers sh)"
  shows "\<exists>ws router. SH_updateRouterAndDispatch (e\<lparr>ev_instrument_id := i\<rparr>) sh =
      Returns (sh\<lparr>sh_workers := ws, sh_router_orders := router\<rparr>) \<and>
    workers_inv (rs @ route_step m e) ws \<and> router_ok (market_spec m e) router \<and>
    length ws = length (sh_workers sh)"
proof -
  let ?r = "e\<lparr>ev_instrument_id := i\<rparr>"
  let ?ro = "\<lparr>rt_instrument_id = i, rt_size = ev_size e\<rparr>"
  have spec: "market_spec m e = m(ev_order_id e \<mapsto> (i, resting_of e))"
    using act valid i by (auto simp: market_spec_def Let_def)
  have id: "ev_order_id e \<noteq> 0" using valid by (simp add: hasValidRestingState_def)
  have router: "router_ok (market_spec m e) (AList.update (ev_order_id e) ?ro (sh_router_orders sh))"
    using router_ok_put [OF ok id, of i "resting_of e"] unfolding spec by (simp add: resting_of_def)
  have vr: "hasValidRestingState ?r" using valid by (simp add: valid_routed)
  consider (moved) j x where "m (ev_order_id e) = Some (j, x)" "j \<noteq> i"
    | (stays) "\<And>j x. m (ev_order_id e) = Some (j, x) \<Longrightarrow> j = i" by blast
  then show ?thesis
  proof cases
    case moved
    let ?c = "cancel_previous ?r j"
    have steps: "route_step m e = [?c, ?r]"
      using moved act valid i by (auto simp: route_step_def Let_def)
    have "ev_instrument_id ?c = j" by (simp add: cancel_previous_def)
    from workers_inv_enqueue [OF w this] obtain ws1 where ws1: "SH_enqueue j ?c sh = Returns (sh\<lparr>sh_workers := ws1\<rparr>)"
      "workers_inv (rs @ [?c]) ws1" "length ws1 = length (sh_workers sh)" by blast
    have full: "?r\<lparr>ev_instrument_id := j, ev_order_id := ev_order_id ?r, ev_action := Cancel, ev_size := 0\<rparr> = ?c"
      by (simp add: cancel_previous_def)
    let ?sh1 = "sh\<lparr>sh_workers := ws1, sh_router_orders := AList.update (ev_order_id e) ?ro (sh_router_orders sh)\<rparr>"
    have "workers_inv (rs @ [?c]) (sh_workers ?sh1)" using ws1(2) by simp
    from workers_inv_enqueue [OF this, of ?r i] obtain ws where ws:
      "SH_enqueue i ?r ?sh1 = Returns (?sh1\<lparr>sh_workers := ws\<rparr>)" "workers_inv ((rs @ [?c]) @ [?r]) ws"
      "length ws = length ws1" by auto
    have "map_of (sh_router_orders sh) (ev_order_id e) = Some (router_of (j, x))"
      using ok moved(1) by (simp add: router_ok_lookup del: map_of_eq_Some_iff)
    then have "SH_updateRouterAndDispatch ?r sh = SH_enqueue i ?r ?sh1"
      using act vr moved(2) ws1(1) full
      by (simp add: SH_updateRouterAndDispatch_def Let_def router_of_def SH_enqueueFullCancel_def
          del: map_of_eq_Some_iff)
    with ws ws1(3) router steps show ?thesis
      by (intro exI [of _ ws] exI [of _ "AList.update (ev_order_id e) ?ro (sh_router_orders sh)"]) simp
  next
    case stays
    have steps: "route_step m e = [?r]"
      using stays act valid i by (auto simp: route_step_def Let_def split: option.split)
    let ?sh1 = "sh\<lparr>sh_router_orders := AList.update (ev_order_id e) ?ro (sh_router_orders sh)\<rparr>"
    have "workers_inv rs (sh_workers ?sh1)" using w by simp
    from workers_inv_enqueue [OF this, of ?r i] obtain ws where ws:
      "SH_enqueue i ?r ?sh1 = Returns (?sh1\<lparr>sh_workers := ws\<rparr>)" "workers_inv (rs @ [?r]) ws"
      "length ws = length (sh_workers sh)" by auto
    have "case map_of (sh_router_orders sh) (ev_order_id e) of None \<Rightarrow> True | Some r \<Rightarrow> rt_instrument_id r = i"
      using ok stays by (auto simp: router_ok_lookup router_of_def simp del: map_of_eq_Some_iff map_of_eq_None_iff
          split: option.split)
    then have "SH_updateRouterAndDispatch ?r sh = SH_enqueue i ?r ?sh1"
      using act vr by (auto simp: SH_updateRouterAndDispatch_def Let_def simp del: map_of_eq_Some_iff map_of_eq_None_iff
          split: option.splits)
    with ws router steps show ?thesis
      by (intro exI [of _ ws] exI [of _ "AList.update (ev_order_id e) ?ro (sh_router_orders sh)"]) simp
  qed
qed

lemma dispatch_other:
  assumes act: "\<not> ((ev_action e = Add \<or> ev_action e = Modify) \<and> hasValidRestingState e)"
    and match: "cancel_matches m e" and i: "market_instrument m e = i" "i \<noteq> 0"
    and ok: "router_ok m (sh_router_orders sh)" and w: "workers_inv rs (sh_workers sh)"
  shows "\<exists>ws router. SH_updateRouterAndDispatch (e\<lparr>ev_instrument_id := i\<rparr>) sh =
      Returns (sh\<lparr>sh_workers := ws, sh_router_orders := router\<rparr>) \<and>
    workers_inv (rs @ route_step m e) ws \<and> router_ok (market_spec m e) router \<and>
    length ws = length (sh_workers sh)"
proof -
  let ?r = "e\<lparr>ev_instrument_id := i\<rparr>"
  have steps: "route_step m e = [?r]" using act i by (auto simp: route_step_def Let_def)
  have vr: "hasValidRestingState ?r = hasValidRestingState e" by (simp add: valid_routed)
  have "\<exists>router. router_ok (market_spec m e) router \<and>
    SH_updateRouterAndDispatch ?r sh = SH_enqueue i ?r (sh\<lparr>sh_router_orders := router\<rparr>)"
  proof (cases "ev_action e = Cancel")
    case True
    show ?thesis
    proof (cases "m (ev_order_id e)")
      case None
      then have "market_spec m e = m" using True i by (simp add: market_spec_def Let_def)
      moreover have "map_of (sh_router_orders sh) (ev_order_id e) = None"
        using None by (simp add: router_ok_lookup [OF ok] del: map_of_eq_None_iff)
      ultimately show ?thesis
        using True ok by (intro exI [of _ "sh_router_orders sh"])
          (simp add: SH_updateRouterAndDispatch_def Let_def del: map_of_eq_None_iff)
    next
      case (Some p)
      then obtain x where x: "m (ev_order_id e) = Some (i, x)"
        using match True i by (cases p) (auto simp: cancel_matches_def)
      have id: "ev_order_id e \<noteq> 0" using x ok by (auto simp: router_ok_def)
      have known: "map_of (sh_router_orders sh) (ev_order_id e) = Some \<lparr>rt_instrument_id = i, rt_size = ro_size x\<rparr>"
        using x by (simp add: router_ok_lookup [OF ok] router_of_def del: map_of_eq_Some_iff)
      show ?thesis
      proof (cases "ev_size e = 0 \<or> ro_size x \<le> ev_size e")
        case gone: True
        then have "market_spec m e = m(ev_order_id e := None)"
          using True i x by (simp add: market_spec_def Let_def)
        with router_ok_drop [OF ok, of "ev_order_id e"] gone True known show ?thesis
          by (intro exI [of _ "AList.delete (ev_order_id e) (sh_router_orders sh)"])
            (auto simp: SH_updateRouterAndDispatch_def Let_def simp del: map_of_eq_Some_iff)
      next
        case False
        then have "market_spec m e = m(ev_order_id e \<mapsto> (i, x\<lparr>ro_size := ro_size x - ev_size e\<rparr>))"
          using True i x by (simp add: market_spec_def Let_def)
        with router_ok_put [OF ok id, of i "x\<lparr>ro_size := ro_size x - ev_size e\<rparr>"] False True known show ?thesis
          by (intro exI [of _ "AList.update (ev_order_id e)
              \<lparr>rt_instrument_id = i, rt_size = ro_size x - ev_size e\<rparr> (sh_router_orders sh)"])
            (auto simp: SH_updateRouterAndDispatch_def Let_def simp del: map_of_eq_Some_iff)
      qed
    qed
  next
    case nc: False
    show ?thesis
    proof (cases "ev_action e = Clear")
      case True
      then have "market_spec m e = (\<lambda>k. case m k of None \<Rightarrow> None | Some (j, x) \<Rightarrow> if j = i then None else m k)"
        using i by (simp add: market_spec_def Let_def)
      with router_ok_clear [OF ok, of i] True show ?thesis
        by (intro exI [of _ "filter (\<lambda>(k, r). rt_instrument_id r \<noteq> i) (sh_router_orders sh)"])
          (simp add: SH_updateRouterAndDispatch_def SH_eraseRouterOrdersForInstrument_def Let_def)
    next
      case False
      then have "market_spec m e = m" using nc act by (cases "ev_action e") (auto simp: market_spec_def Let_def)
      with ok nc False act vr show ?thesis
        by (intro exI [of _ "sh_router_orders sh"])
          (auto simp: SH_updateRouterAndDispatch_def Let_def)
    qed
  qed
  then obtain router where router: "router_ok (market_spec m e) router"
    "SH_updateRouterAndDispatch ?r sh = SH_enqueue i ?r (sh\<lparr>sh_router_orders := router\<rparr>)" by blast
  have "workers_inv rs (sh_workers (sh\<lparr>sh_router_orders := router\<rparr>))" using w by simp
  from workers_inv_enqueue [OF this, of ?r i] obtain ws where ws:
    "SH_enqueue i ?r (sh\<lparr>sh_router_orders := router\<rparr>) = Returns (sh\<lparr>sh_router_orders := router, sh_workers := ws\<rparr>)"
    "workers_inv (rs @ [?r]) ws" "length ws = length (sh_workers sh)" by auto
  with router steps show ?thesis by (intro exI [of _ ws] exI [of _ router]) simp
qed

text \<open>The invariant of the processor after the events \<open>es\<close>.\<close>

definition SH_inv :: "long_division \<Rightarrow> MarketDataEvent list \<Rightarrow> ShardedLobMarketDataEventProcessor \<Rightarrow> bool" where
  "SH_inv ld es sh \<longleftrightarrow>
     \<not> sh_finished sh \<and> workers_inv (route_all Map.empty es) (sh_workers sh) \<and>
     router_ok (foldl market_spec Map.empty es) (sh_router_orders sh) \<and>
     sh_processed_count sh = of_nat (length es) \<and>
     sh_router_unresolved_events sh = bm_unresolved_events (foldl BM_apply BM_new es) \<and>
     sh_snapshot_count sh = of_nat (length (lob_snapshots (sh_config sh) es)) \<and>
     SW_rep ld (lob_snapshots (sh_config sh) es) (sh_snapshot_writer sh) \<and>
     \<not> (sw_mode (sh_snapshot_writer sh) = Async \<and> sw_finish_requested (sh_snapshot_writer sh))"

lemma SH_inv_new:
  assumes "SH_new n c = Inr sh"
  shows "SH_inv ld [] sh" and "sh_config sh = c" and "length (sh_workers sh) = n"
proof -
  from assms obtain w where n: "n \<noteq> 0" and w: "WK_new = Inr w" and
    sh: "sh = \<lparr>sh_config = c, sh_snapshot_writer = SW_new (lc_snapshot_writer_mode c),
               sh_workers = replicate n w, sh_router_orders = [], sh_processed_count = 0,
               sh_router_unresolved_events = 0, sh_snapshot_count = 0, sh_finished = False\<rparr>"
    by (auto simp: SH_new_def split: if_splits sum.splits)
  show "sh_config sh = c" "length (sh_workers sh) = n" by (simp_all add: sh)
  show "SH_inv ld [] sh"
    using n WK_inv_new [OF w] SW_rep_new [of ld "lc_snapshot_writer_mode c"]
    by (simp add: sh SH_inv_def workers_inv_def router_ok_def lob_snapshots_def snapshot_points_def BM_new_def)
      (simp add: SW_new_def)
qed

lemma route_step_length: "length (route_step m e) \<le> 2"
  by (auto simp: route_step_def Let_def split: option.split)

lemma route_all_length: "length (route_all m es) \<le> 2 * length es"
proof (induction es arbitrary: m)
  case (Cons e es)
  from Cons [of "market_spec m e"] route_step_length [of m e] show ?case by simp
qed simp

lemma BM_processed: "bm_processed_events (BM_apply bm e) = bm_processed_events bm + 1"
proof -
  have r: "bm_processed_events (BM_removePreviousInstrumentMapping e i bm) = bm_processed_events bm" for e i bm
    by (simp add: BM_removePreviousInstrumentMapping_def Let_def split: option.split)
  have g: "bm_processed_events (snd (BM_getOrCreateBook bm i)) = bm_processed_events bm" for bm i
    by (simp add: BM_getOrCreateBook_def split: option.split)
  have u: "bm_processed_events (BM_updateOrderMapping e b bm) = bm_processed_events bm" for e b bm
    by (cases "ev_action e") (simp_all add: BM_updateOrderMapping_def BM_eraseOrderMappingIfMatches_def
        BM_eraseOrderMappingsForInstrument_def)
  let ?bm = "bm\<lparr>bm_processed_events := bm_processed_events bm + 1\<rparr>"
  let ?i = "BM_resolveInstrumentId bm e"
  obtain book bm2 where g2: "BM_getOrCreateBook (BM_removePreviousInstrumentMapping (routed bm e) ?i ?bm) ?i = (book, bm2)"
    by fastforce
  have "bm_processed_events bm2 = bm_processed_events bm + 1"
    using arg_cong [OF g2, of "\<lambda>p. bm_processed_events (snd p)"] by (simp add: r g)
  then show ?thesis using g2 by (simp add: BM_apply_def Let_def u)
qed

lemma BM_run_processed: "bm_processed_events (foldl BM_apply BM_new es) = of_nat (length es)"
proof (induction es rule: rev_induct)
  case Nil
  show ?case by (simp add: BM_new_def)
qed (simp add: BM_processed)

text \<open>After draining, the workers hold the shards of the books of the whole stream.\<close>

lemma drained_shards:
  assumes ws: "0 < length ws" and books: "\<forall>k < length ws. wk_books (ws ! k) =
      foldl BM_apply BM_new (filter (\<lambda>r. unat (ev_instrument_id r) mod length ws = k) (route_all Map.empty es))"
  shows "shards (map wk_books ws) (foldl BM_apply BM_new es)"
  using ws books shard_run [of "\<lambda>i. unat i mod length ws = k" es for k] by (simp add: shards_def)

lemma drained_unresolved:
  assumes "shards (map wk_books ws) bm"
  shows "foldl (\<lambda>total w. total + bm_unresolved_events (wk_books w)) start ws = start"
proof -
  have "bm_unresolved_events (wk_books w) = 0" if "w \<in> set ws" for w
    using assms that by (auto simp: shards_def shard_def in_set_conv_nth)
  then show ?thesis by (induction ws arbitrary: start) auto
qed

lemma merged_of_drained:
  assumes d1: "SH_drainWorkers sh = Some (sh\<lparr>sh_workers := ws1\<rparr>)"
    and d2: "SH_drainWorkers (sh\<lparr>sh_workers := ws1\<rparr>) = Some (sh\<lparr>sh_workers := ws\<rparr>)"
    and ws: "0 < length ws" "\<forall>k < length ws. wk_books (ws ! k) =
      foldl BM_apply BM_new (filter (\<lambda>r. unat (ev_instrument_id r) mod length ws = k) (route_all Map.empty es))"
    and p: "sh_processed_count sh = of_nat (length es)"
    and u: "sh_router_unresolved_events sh = bm_unresolved_events (foldl BM_apply BM_new es)"
  shows "SH_mergedSnapshot c t d sh = Some (BM_snapshot (foldl BM_apply BM_new es) c t d, sh\<lparr>sh_workers := ws\<rparr>)"
proof -
  let ?bm = "foldl BM_apply BM_new es"
  have sh: "shards (map wk_books ws) ?bm" using ws by (rule drained_shards)
  have snap: "sort_key ibs_instrument_id (concat (map (\<lambda>w. bms_instruments (BM_snapshot (wk_books w) c t d)) ws)) =
      bms_instruments (BM_snapshot ?bm c t d)"
    using shards_snapshot [OF sh BM_run_index, of c t d] by (simp add: comp_def)
  show ?thesis
    using d1 d2 p u drained_unresolved [OF sh] snap
    by (simp add: SH_mergedSnapshot_def SH_totalUnresolvedEvents_def worker_total_def)
      (simp add: BM_snapshot_def BM_run_processed)
qed

lemma SH_merged:
  assumes w: "workers_inv (route_all Map.empty es) (sh_workers sh)" and len: "2 * length es < two64"
    and p: "sh_processed_count sh = of_nat (length es)"
    and u: "sh_router_unresolved_events sh = bm_unresolved_events (foldl BM_apply BM_new es)"
  shows "\<exists>ws. SH_mergedSnapshot c t d sh =
      Some (BM_snapshot (foldl BM_apply BM_new es) c t d, sh\<lparr>sh_workers := ws\<rparr>) \<and>
    workers_inv (route_all Map.empty es) ws \<and> length ws = length (sh_workers sh)"
proof -
  let ?rs = "route_all Map.empty es"
  have rs: "length ?rs < two64" using route_all_length [of Map.empty es] len by simp
  from drain_ok [OF w rs] obtain ws1 where ws1: "SH_drainWorkers sh = Some (sh\<lparr>sh_workers := ws1\<rparr>)"
    "workers_inv ?rs ws1" "length ws1 = length (sh_workers sh)" by blast
  have "workers_inv ?rs (sh_workers (sh\<lparr>sh_workers := ws1\<rparr>))" using ws1(2) by simp
  from drain_ok [OF this rs] obtain ws where ws: "SH_drainWorkers (sh\<lparr>sh_workers := ws1\<rparr>) = Some (sh\<lparr>sh_workers := ws\<rparr>)"
    "workers_inv ?rs ws" "length ws = length ws1" "\<forall>k < length ws. wk_books (ws ! k) =
       foldl BM_apply BM_new (filter (\<lambda>r. unat (ev_instrument_id r) mod length ws = k) ?rs)" by auto
  have "0 < length ws" using ws(2) by (simp add: workers_inv_def)
  from merged_of_drained [OF ws1(1) ws(1) this ws(4) p u] ws(2,3) ws1(3) show ?thesis by (intro exI [of _ ws]) simp
qed

definition SH_core :: "MarketDataEvent list \<Rightarrow> ShardedLobMarketDataEventProcessor \<Rightarrow> bool" where
  "SH_core es sh \<longleftrightarrow>
     \<not> sh_finished sh \<and> workers_inv (route_all Map.empty es) (sh_workers sh) \<and>
     router_ok (foldl market_spec Map.empty es) (sh_router_orders sh) \<and>
     sh_processed_count sh = of_nat (length es) \<and>
     sh_router_unresolved_events sh = bm_unresolved_events (foldl BM_apply BM_new es)"

lemma maybe_print_ok:
  assumes core: "SH_core (es @ [e]) sh" and len: "2 * Suc (length es) < two64"
    and cnt: "sh_snapshot_count sh = of_nat (length (lob_snapshots (sh_config sh) es))"
    and rep: "SW_rep ld (lob_snapshots (sh_config sh) es) (sh_snapshot_writer sh)"
    and run: "\<not> (sw_mode (sh_snapshot_writer sh) = Async \<and> sw_finish_requested (sh_snapshot_writer sh))"
  shows "\<exists>sh'. SH_maybePrintSnapshot ld (ev_timestamp e) sh = Some sh' \<and> SH_inv ld (es @ [e]) sh' \<and>
    sh_config sh' = sh_config sh \<and> length (sh_workers sh') = length (sh_workers sh)"
proof -
  let ?c = "sh_config sh" and ?n = "Suc (length es)" and ?bm = "foldl BM_apply BM_new (es @ [e])"
  let ?s = "snapshot_at (lc_snapshot_depth ?c) (es @ [e]) ?n"
  have n64: "?n < two64" using len by simp
  have count: "unat (of_nat ?n :: u64) = ?n" using n64 by (rule unat_of_nat_u64)
  have proc: "sh_processed_count sh = of_nat ?n" using core by (simp add: SH_core_def)
  have snaps: "unat (sh_snapshot_count sh) = length (lob_snapshots ?c es)"
    using cnt lob_snapshots_length [of ?c es] unat_u64_less [of "lc_max_snapshots ?c"]
    by (simp add: unat_of_nat_u64 del: unat_u64_less)
  have mod: "of_nat ?n mod lc_snapshot_interval_events ?c = 0 \<longleftrightarrow>
      ?n mod unat (lc_snapshot_interval_events ?c) = 0"
    unfolding unat_eq_zero [symmetric] unat_mod count ..
  have room: "lc_max_snapshots ?c \<le> sh_snapshot_count sh \<longleftrightarrow>
      \<not> length (lob_snapshots ?c es) < unat (lc_max_snapshots ?c)"
    using snaps by (auto simp: word_le_nat_alt)
  have at: "BM_snapshot ?bm (of_nat ?n) (ev_timestamp e) (lc_snapshot_depth ?c) = ?s"
    by (simp add: snapshot_at_def)
  show ?thesis
  proof (cases "lc_snapshot_interval_events ?c \<noteq> 0 \<and> ?n mod unat (lc_snapshot_interval_events ?c) = 0 \<and>
      length (lob_snapshots ?c es) < unat (lc_max_snapshots ?c)")
    case True
    then have new: "lob_snapshots ?c (es @ [e]) = lob_snapshots ?c es @ [?s]" by (simp add: lob_snapshots_snoc)
    have "2 * length (es @ [e]) < two64" using len by simp
    with SH_merged [of "es @ [e]" sh "of_nat ?n" "ev_timestamp e" "lc_snapshot_depth ?c"] core
    obtain ws where ws: "SH_mergedSnapshot (of_nat ?n) (ev_timestamp e) (lc_snapshot_depth ?c) sh =
        Some (?s, sh\<lparr>sh_workers := ws\<rparr>)" "workers_inv (route_all Map.empty (es @ [e])) ws"
      "length ws = length (sh_workers sh)"
      unfolding at by (auto simp: SH_core_def)
    let ?sh = "sh\<lparr>sh_workers := ws, sh_snapshot_writer := SW_write ld ?s (sh_snapshot_writer sh),
        sh_snapshot_count := sh_snapshot_count sh + 1\<rparr>"
    have "SH_maybePrintSnapshot ld (ev_timestamp e) sh = Some ?sh"
      using True mod room ws(1) unfolding SH_maybePrintSnapshot_def proc by (simp add: Let_def)
    moreover have "SH_inv ld (es @ [e]) ?sh"
      using core ws(2) new SW_rep_write [OF rep, of ?s] run cnt
      by (auto simp: SH_inv_def SH_core_def SW_write_mode)
    ultimately show ?thesis using ws(3) by auto
  next
    case False
    then have same: "lob_snapshots ?c (es @ [e]) = lob_snapshots ?c es" by (auto simp: lob_snapshots_snoc)
    have "SH_maybePrintSnapshot ld (ev_timestamp e) sh = Some sh"
      using False mod room unfolding SH_maybePrintSnapshot_def proc by (auto simp: Let_def)
    moreover have "SH_inv ld (es @ [e]) sh"
      using core cnt rep run same by (simp add: SH_inv_def SH_core_def)
    ultimately show ?thesis by auto
  qed
qed

lemma dispatch_ok:
  assumes "cancel_matches m e" and "market_instrument m e = i" "i \<noteq> 0"
    and "router_ok m (sh_router_orders sh)" and "workers_inv rs (sh_workers sh)"
  shows "\<exists>ws router. SH_updateRouterAndDispatch (e\<lparr>ev_instrument_id := i\<rparr>) sh =
      Returns (sh\<lparr>sh_workers := ws, sh_router_orders := router\<rparr>) \<and>
    workers_inv (rs @ route_step m e) ws \<and> router_ok (market_spec m e) router \<and>
    length ws = length (sh_workers sh)"
  using assms dispatch_add [of e m i sh rs] dispatch_other [of e m i sh rs] by blast

lemma BM_run_unresolved:
  "bm_unresolved_events (foldl BM_apply BM_new (es @ [e])) =
   bm_unresolved_events (foldl BM_apply BM_new es) +
     (if market_instrument (foldl market_spec Map.empty es) e = 0 then 1 else 0)"
proof -
  have "BM_resolveInstrumentId (foldl BM_apply BM_new es) e = market_instrument (foldl market_spec Map.empty es) e"
    using BM_resolve_abs [OF BM_run_index] by (simp add: BM_run_refines)
  then show ?thesis
    using BM_apply_unresolved [of "foldl BM_apply BM_new es" e] BM_apply_unresolved_frame [of "foldl BM_apply BM_new es" e]
    by simp
qed

lemma SH_inv_event:
  assumes inv: "SH_inv ld es sh" and match: "cancel_matches (foldl market_spec Map.empty es) e"
    and len: "2 * Suc (length es) < two64"
  shows "\<exists>sh'. SH_processMarketDataEvent ld sh e = Returns sh' \<and> SH_inv ld (es @ [e]) sh' \<and>
    sh_config sh' = sh_config sh \<and> length (sh_workers sh') = length (sh_workers sh)"
proof -
  let ?m = "foldl market_spec Map.empty es" and ?rs = "route_all Map.empty es"
  let ?sh1 = "sh\<lparr>sh_processed_count := sh_processed_count sh + 1\<rparr>"
  let ?i = "market_instrument ?m e"
  have router: "router_ok ?m (sh_router_orders ?sh1)" and w: "workers_inv ?rs (sh_workers ?sh1)"
    using inv by (simp_all add: SH_inv_def)
  have resolve: "SH_resolveInstrumentId ?sh1 e = ?i" by (rule router_resolve [OF router])
  show ?thesis
  proof (cases "?i = 0")
    case True
    let ?sh = "?sh1\<lparr>sh_router_unresolved_events := sh_router_unresolved_events ?sh1 + 1\<rparr>"
    have "route_step ?m e = []" "market_spec ?m e = ?m"
      using True by (simp_all add: route_step_def market_spec_def Let_def)
    then have "SH_core (es @ [e]) ?sh"
      using inv True BM_run_unresolved [of es e] by (simp add: SH_core_def SH_inv_def route_all_snoc)
    from maybe_print_ok [OF this len, of ld] inv obtain sh' where
      "SH_maybePrintSnapshot ld (ev_timestamp e) ?sh = Some sh'" "SH_inv ld (es @ [e]) sh'"
      "sh_config sh' = sh_config ?sh" "length (sh_workers sh') = length (sh_workers ?sh)"
      by (auto simp: SH_inv_def)
    with True inv resolve show ?thesis by (simp add: SH_processMarketDataEvent_def SH_inv_def Let_def)
  next
    case False
    from dispatch_ok [OF match refl False router w] obtain ws rt where disp:
      "SH_updateRouterAndDispatch (e\<lparr>ev_instrument_id := ?i\<rparr>) ?sh1 =
        Returns (?sh1\<lparr>sh_workers := ws, sh_router_orders := rt\<rparr>)"
      "workers_inv (?rs @ route_step ?m e) ws" "router_ok (market_spec ?m e) rt"
      "length ws = length (sh_workers sh)" by auto
    let ?sh = "?sh1\<lparr>sh_workers := ws, sh_router_orders := rt\<rparr>"
    have "SH_core (es @ [e]) ?sh"
      using inv False disp(2,3) BM_run_unresolved [of es e] by (simp add: SH_core_def SH_inv_def route_all_snoc)
    from maybe_print_ok [OF this len, of ld] inv obtain sh' where
      "SH_maybePrintSnapshot ld (ev_timestamp e) ?sh = Some sh'" "SH_inv ld (es @ [e]) sh'"
      "sh_config sh' = sh_config ?sh" "length (sh_workers sh') = length (sh_workers ?sh)"
      by (auto simp: SH_inv_def)
    with False inv resolve disp show ?thesis by (simp add: SH_processMarketDataEvent_def SH_inv_def Let_def)
  qed
qed

section \<open>Finishing\<close>

text \<open>A worker whose thread has left the loop after all of \<open>evs\<close>.\<close>

definition WK_done :: "MarketDataEvent list \<Rightarrow> Worker \<Rightarrow> bool" where
  "WK_done evs w \<longleftrightarrow>
     NBQ_inv (wk_queue w) \<and> wk_finish_requested w \<and> wk_returned w \<and>
     wk_enqueued_count w = wk_processed_count w \<and> wk_books w = foldl BM_apply BM_new evs"

lemma WK_joinLoop_ok:
  assumes "NBQ_inv (wk_queue w)" and "\<not> wk_returned w" and "NBQ_published (wk_queue w) = NBQ_contents (wk_queue w)"
    and "NBQ_contents (wk_queue w) = map WorkerItem_data pend @ [WorkerItem_end]"
  shows "\<exists>w'. WK_joinLoop w = Some w' \<and> NBQ_inv (wk_queue w') \<and> wk_returned w' \<and>
    wk_finish_requested w' = wk_finish_requested w \<and> wk_enqueued_count w' = wk_enqueued_count w \<and>
    wk_books w' = foldl BM_apply (wk_books w) pend \<and>
    wk_processed_count w' = wk_processed_count w + of_nat (length pend)"
  using assms
proof (induction pend arbitrary: w)
  case Nil
  then have "NBQ_published (wk_queue w) = [WorkerItem_end]" by simp
  from nbq_blocking.take_some [OF Nil(1) this] obtain q where
    q: "NBQ_pop (wk_queue w) = Some (Some WorkerItem_end, q)" "NBQ_inv q" by blast
  let ?w = "w\<lparr>wk_queue := q, wk_returned := True\<rparr>"
  have "WK_step w = Some ?w" using q(1) Nil(2) by (simp add: WK_step_def)
  moreover have "WK_joinLoop ?w = Some ?w" by (subst WK_joinLoop.simps) simp
  ultimately show ?case using Nil(2) q(2) by (subst WK_joinLoop.simps) simp
next
  case (Cons e pend)
  let ?rest = "map WorkerItem_data pend @ [WorkerItem_end]"
  have "NBQ_published (wk_queue w) = WorkerItem_data e # ?rest" using Cons.prems by simp
  from nbq_blocking.take_some [OF Cons.prems(1) this] obtain q where
    q: "NBQ_pop (wk_queue w) = Some (Some (WorkerItem_data e), q)" "NBQ_inv q"
    "NBQ_contents (wk_queue w) = WorkerItem_data e # NBQ_contents q" "NBQ_published q = ?rest" by blast
  let ?w = "w\<lparr>wk_queue := q, wk_books := BM_apply (wk_books w) e, wk_processed_count := wk_processed_count w + 1\<rparr>"
  have step: "WK_step w = Some ?w" using q(1) Cons.prems(2) by (simp add: WK_step_def)
  have "NBQ_contents q = ?rest" using q(3) Cons.prems(4) by simp
  with Cons.IH [of ?w] Cons.prems(2) q step show ?case by (subst WK_joinLoop.simps) (simp add: ac_simps)
qed

lemma WK_finish_ok:
  assumes "WK_inv evs w"
  shows "\<exists>w'. WK_finish w = Some w' \<and> WK_done evs w'"
proof -
  from assms obtain pend where w: "NBQ_inv (wk_queue w)" "\<not> wk_returned w" "\<not> wk_finish_requested w"
    "wk_enqueued_count w = of_nat (length evs)" and p: "NBQ_contents (wk_queue w) = map WorkerItem_data pend"
    "length pend \<le> length evs" "foldl BM_apply (wk_books w) pend = foldl BM_apply BM_new evs"
    "wk_processed_count w = of_nat (length evs - length pend)"
    unfolding WK_inv_def by blast
  from nbq_blocking.push_law [OF w(1), of WorkerItem_end] obtain q1 where q1:
    "NBQ_push WorkerItem_end (wk_queue w) = Some q1" "NBQ_inv q1"
    "NBQ_contents q1 = NBQ_contents (wk_queue w) @ [WorkerItem_end]" by blast
  from nbq_blocking.flush_law [OF q1(2)] obtain q where q: "NBQ_flush q1 = Some q" "NBQ_inv q"
    "NBQ_contents q = NBQ_contents q1" "NBQ_published q = NBQ_contents q1" by blast
  let ?w = "w\<lparr>wk_finish_requested := True, wk_queue := q\<rparr>"
  have "NBQ_inv (wk_queue ?w)" "\<not> wk_returned ?w" "NBQ_published (wk_queue ?w) = NBQ_contents (wk_queue ?w)"
    "NBQ_contents (wk_queue ?w) = map WorkerItem_data pend @ [WorkerItem_end]"
    using q q1 p w by simp_all
  from WK_joinLoop_ok [OF this] obtain w' where w': "WK_joinLoop ?w = Some w'" "NBQ_inv (wk_queue w')"
    "wk_returned w'" "wk_finish_requested w'" "wk_enqueued_count w' = of_nat (length evs)"
    "wk_books w' = foldl BM_apply (wk_books w) pend"
    "wk_processed_count w' = of_nat (length evs - length pend) + of_nat (length pend)"
    using w p by auto
  have "wk_processed_count w' = of_nat (length evs)"
    using w'(7) p(2) by (simp flip: of_nat_add)
  with w' p(3) have "WK_done evs w'" by (simp add: WK_done_def)
  moreover have "WK_finish w = Some w'" using q1(1) q(1) w(3) w'(1) by (simp add: WK_finish_def)
  ultimately show ?thesis by blast
qed

lemma WK_drain_done:
  assumes "WK_done evs w"
  shows "\<exists>w'. WK_drain w = Some w' \<and> WK_done evs w'"
proof -
  have "NBQ_inv (wk_queue w)" using assms by (simp add: WK_done_def)
  from nbq_blocking.flush_law [OF this] obtain q where q: "NBQ_flush (wk_queue w) = Some q" "NBQ_inv q" by blast
  let ?w = "w\<lparr>wk_queue := q\<rparr>"
  have "WK_drainLoop (wk_enqueued_count w) ?w = Some ?w"
    using assms by (subst WK_drainLoop.simps) (simp add: WK_done_def)
  with q assms show ?thesis by (simp add: WK_drain_def WK_done_def)
qed

text \<open>The calls of \<^verbatim>\<open>processMarketDataEvent\<close>, interleaved with steps of the worker threads and of the writer.\<close>

datatype sharded_action = ShardEvent MarketDataEvent | ShardWorkerStep nat | ShardWriterStep

fun sharded_step ::
  "long_division \<Rightarrow> sharded_action \<Rightarrow> ShardedLobMarketDataEventProcessor \<Rightarrow>
   ShardedLobMarketDataEventProcessor outcome" where
  "sharded_step ld (ShardEvent e) sh = SH_processMarketDataEvent ld sh e"
| "sharded_step ld (ShardWorkerStep k) sh =
     (if k < length (sh_workers sh)
      then of_option (map_option (\<lambda>w. sh\<lparr>sh_workers := (sh_workers sh)[k := w]\<rparr>) (WK_step (sh_workers sh ! k)))
      else Returns sh)"
| "sharded_step ld ShardWriterStep sh =
     Returns (sh\<lparr>sh_snapshot_writer := SW_workerStep ld (sh_snapshot_writer sh)\<rparr>)"

fun sharded_run ::
  "long_division \<Rightarrow> sharded_action list \<Rightarrow> ShardedLobMarketDataEventProcessor \<Rightarrow>
   ShardedLobMarketDataEventProcessor outcome" where
  "sharded_run ld [] sh = Returns sh"
| "sharded_run ld (a # acts) sh = outcome_bind (sharded_step ld a sh) (sharded_run ld acts)"

fun sharded_events :: "sharded_action list \<Rightarrow> MarketDataEvent list" where
  "sharded_events [] = []"
| "sharded_events (ShardEvent e # acts) = e # sharded_events acts"
| "sharded_events (a # acts) = sharded_events acts"

lemma sharded_run_append:
  "sharded_run ld (acts @ acts') sh = outcome_bind (sharded_run ld acts sh) (sharded_run ld acts')"
proof (induction acts arbitrary: sh)
  case (Cons a acts)
  then show ?case by (cases "sharded_step ld a sh") simp_all
qed simp

lemma sharded_step_inv:
  assumes inv: "SH_inv ld es sh" and match: "cancels_match Map.empty (es @ sharded_events [a])"
    and len: "2 * length (es @ sharded_events [a]) < two64"
  shows "\<exists>sh'. sharded_step ld a sh = Returns sh' \<and> SH_inv ld (es @ sharded_events [a]) sh' \<and>
    sh_config sh' = sh_config sh \<and> length (sh_workers sh') = length (sh_workers sh)"
proof (cases a)
  case (ShardEvent e)
  with SH_inv_event [OF inv, of e] match len show ?thesis by (simp add: cancels_match_snoc)
next
  case (ShardWorkerStep k)
  have w: "workers_inv (route_all Map.empty es) (sh_workers sh)" using inv by (simp add: SH_inv_def)
  show ?thesis
  proof (cases "k < length (sh_workers sh)")
    case True
    with workers_inv_step [OF w True] inv ShardWorkerStep show ?thesis by (auto simp: SH_inv_def)
  qed (use inv ShardWorkerStep in simp)
next
  case ShardWriterStep
  with inv show ?thesis by (simp add: SH_inv_def SW_rep_worker SW_worker_frame)
qed

lemma cancels_match_append:
  "cancels_match m (es @ fs) = (cancels_match m es \<and> cancels_match (foldl market_spec m es) fs)"
  by (induction es arbitrary: m) auto

lemma sharded_run_inv:
  assumes "SH_inv ld es sh" and "cancels_match Map.empty (es @ sharded_events acts)"
    and "2 * length (es @ sharded_events acts) < two64"
  shows "\<exists>sh'. sharded_run ld acts sh = Returns sh' \<and> SH_inv ld (es @ sharded_events acts) sh' \<and>
    sh_config sh' = sh_config sh \<and> length (sh_workers sh') = length (sh_workers sh)"
  using assms
proof (induction acts arbitrary: es sh)
  case (Cons a acts)
  have split: "sharded_events (a # acts) = sharded_events [a] @ sharded_events acts" by (cases a) auto
  then have "cancels_match Map.empty (es @ sharded_events [a])" "2 * length (es @ sharded_events [a]) < two64"
    using Cons.prems(2,3) by (simp_all add: cancels_match_append)
  from sharded_step_inv [OF Cons.prems(1) this] obtain sh1 where sh1: "sharded_step ld a sh = Returns sh1"
    "SH_inv ld (es @ sharded_events [a]) sh1" "sh_config sh1 = sh_config sh"
    "length (sh_workers sh1) = length (sh_workers sh)" by blast
  from Cons.IH [OF sh1(2)] Cons.prems(2,3) split sh1 show ?case by simp
qed simp

lemma drain_done:
  assumes "\<forall>k < length (sh_workers sh). WK_done (evs k) (sh_workers sh ! k)"
  shows "\<exists>ws. SH_drainWorkers sh = Some (sh\<lparr>sh_workers := ws\<rparr>) \<and> length ws = length (sh_workers sh) \<and>
    (\<forall>k < length ws. WK_done (evs k) (ws ! k))"
proof -
  have "\<exists>w. WK_drain (sh_workers sh ! k) = Some w \<and> WK_done (evs k) w" if "k < length (sh_workers sh)" for k
    using assms that by (intro WK_drain_done) simp
  from those_map_Some [where f = WK_drain and xs = "sh_workers sh" and P = "\<lambda>k. WK_done (evs k)", OF this]
  show ?thesis by (auto simp: SH_drainWorkers_def)
qed

text \<open>The processor once \<^verbatim>\<open>finish\<close> has returned: reports can still be asked for, any number of times.\<close>

definition SH_done :: "MarketDataEvent list \<Rightarrow> ShardedLobMarketDataEventProcessor \<Rightarrow> bool" where
  "SH_done es sh \<longleftrightarrow>
     0 < length (sh_workers sh) \<and>
     (\<forall>k < length (sh_workers sh). WK_done
        (filter (\<lambda>r. unat (ev_instrument_id r) mod length (sh_workers sh) = k) (route_all Map.empty es)) (sh_workers sh ! k)) \<and>
     sh_processed_count sh = of_nat (length es) \<and>
     sh_router_unresolved_events sh = bm_unresolved_events (foldl BM_apply BM_new es)"

lemma SH_done_drain:
  assumes "SH_done es sh"
  shows "\<exists>ws. SH_drainWorkers sh = Some (sh\<lparr>sh_workers := ws\<rparr>) \<and> SH_done es (sh\<lparr>sh_workers := ws\<rparr>)"
  using assms drain_done [of sh "\<lambda>k. filter (\<lambda>r. unat (ev_instrument_id r) mod length (sh_workers sh) = k) (route_all Map.empty es)"]
  by (auto simp: SH_done_def)

lemma SH_done_books:
  assumes "SH_done es sh"
  shows "0 < length (sh_workers sh)" "\<forall>k < length (sh_workers sh). wk_books (sh_workers sh ! k) =
    foldl BM_apply BM_new (filter (\<lambda>r. unat (ev_instrument_id r) mod length (sh_workers sh) = k) (route_all Map.empty es))"
  using assms by (auto simp: SH_done_def WK_done_def)

lemma SH_done_unresolved:
  assumes "SH_done es sh"
  shows "\<exists>sh1. SH_totalUnresolvedEvents sh = Some (bm_unresolved_events (foldl BM_apply BM_new es), sh1) \<and> SH_done es sh1 \<and>
    sh_snapshot_writer sh1 = sh_snapshot_writer sh"
proof -
  from SH_done_drain [OF assms] obtain ws where ws: "SH_drainWorkers sh = Some (sh\<lparr>sh_workers := ws\<rparr>)"
    "SH_done es (sh\<lparr>sh_workers := ws\<rparr>)" by blast
  have "shards (map wk_books ws) (foldl BM_apply BM_new es)"
    using SH_done_books [OF ws(2)] by (intro drained_shards) simp_all
  from drained_unresolved [OF this] ws assms show ?thesis
    by (simp add: SH_totalUnresolvedEvents_def worker_total_def SH_done_def)
qed

lemma merged_done:
  assumes fin: "SH_done es sh"
  shows "\<exists>sh1. SH_mergedSnapshot c t d sh = Some (BM_snapshot (foldl BM_apply BM_new es) c t d, sh1) \<and> SH_done es sh1 \<and>
    sh_snapshot_writer sh1 = sh_snapshot_writer sh"
proof -
  from SH_done_drain [OF fin] obtain ws1 where ws1: "SH_drainWorkers sh = Some (sh\<lparr>sh_workers := ws1\<rparr>)"
    "SH_done es (sh\<lparr>sh_workers := ws1\<rparr>)" by blast
  from SH_done_drain [OF ws1(2)] obtain ws where ws: "SH_drainWorkers (sh\<lparr>sh_workers := ws1\<rparr>) = Some (sh\<lparr>sh_workers := ws\<rparr>)"
    "SH_done es (sh\<lparr>sh_workers := ws\<rparr>)" by auto
  have counts: "sh_processed_count sh = of_nat (length es)"
    "sh_router_unresolved_events sh = bm_unresolved_events (foldl BM_apply BM_new es)"
    using fin by (simp_all add: SH_done_def)
  have "0 < length ws" "\<forall>k < length ws. wk_books (ws ! k) =
      foldl BM_apply BM_new (filter (\<lambda>r. unat (ev_instrument_id r) mod length ws = k) (route_all Map.empty es))"
    using SH_done_books [OF ws(2)] by simp_all
  from merged_of_drained [OF ws1(1) ws(1) this counts, of c t d] ws(2) show ?thesis by simp
qed

text \<open>A full-depth snapshot has the text of the books themselves.\<close>

lemma digest_of_snapshot:
  assumes vol: "sum_list (map added_volume es) < two64"
  shows "snapshot_digest ld (BM_snapshot (foldl BM_apply BM_new es) c t (- 1)) =
    BM_stableStateDigest ld (foldl BM_apply BM_new es)"
proof -
  let ?bm = "foldl BM_apply BM_new es"
  have inv: "LOB_inv b" if "(i, b) \<in> set (sorted_books ?bm)" for i b
  proof -
    have "map_of (bm_books ?bm) i = Some b"
      using that by (auto simp: sorted_books_def List.map_filter_def simp del: map_of_eq_Some_iff)
    then show ?thesis using BM_run_volumes [OF vol] by (metis BM_book_def BM_volumes_ok_def option.simps(5))
  qed
  have levels: "map (\<lambda>l. (pls_price l, pls_size l)) (makeLevelSnapshots ls) = ls" for ls
    by (simp add: makeLevelSnapshots_def comp_def case_prod_beta)
  have "BM_instrumentCount ?bm = length (sorted_books ?bm)"
    by (simp add: BM_instrumentCount_def sorted_books_eq sortedInstrumentIds_def)
  then show ?thesis
    unfolding snapshot_digest_def BM_stableStateDigest_def BM_snapshot_sorted_books
    by (auto simp: BM_snapshot_def instrument_snapshot_def levels LOB_full_depth inv intro!: arg_cong [of _ _ concat])
qed

lemma finish_ok:
  assumes inv: "SH_inv ld es sh"
  shows "\<exists>sh1. SH_finish ld sh = Some sh1 \<and> SH_done es sh1 \<and>
    sw_out (sh_snapshot_writer sh1) = printed ld (lob_snapshots (sh_config sh) es)"
proof -
  let ?ws = "sh_workers sh"
  let ?P = "\<lambda>k. WK_done (filter (\<lambda>r. unat (ev_instrument_id r) mod length ?ws = k) (route_all Map.empty es))"
  have "\<exists>w. WK_finish (?ws ! k) = Some w \<and> ?P k w" if "k < length ?ws" for k
    using inv that by (intro WK_finish_ok) (simp add: SH_inv_def workers_inv_def)
  from those_map_Some [where f = WK_finish and xs = ?ws and P = ?P, OF this] obtain ws where
    ws: "those (map WK_finish ?ws) = Some ws" "length ws = length ?ws" "\<forall>k < length ?ws. ?P k (ws ! k)" by blast
  have "SW_rep ld (lob_snapshots (sh_config sh) es) (sh_snapshot_writer sh)" using inv by (simp add: SH_inv_def)
  from SW_finish_returns [OF this] obtain w where w:
    "SW_finish ld (sh_snapshot_writer sh) = Some w" "sw_out w = printed ld (lob_snapshots (sh_config sh) es)" by blast
  let ?sh1 = "sh\<lparr>sh_workers := ws, sh_snapshot_writer := w, sh_finished := True\<rparr>"
  have "SH_finish ld sh = Some ?sh1" using ws(1) w(1) inv by (simp add: SH_finish_def SH_inv_def)
  moreover have "SH_done es ?sh1" using ws(2,3) inv by (simp add: SH_done_def SH_inv_def workers_inv_def)
  ultimately show ?thesis using w(2) by (intro exI [of _ ?sh1]) simp
qed

text \<open>A full run: created, fed under any interleaving, finished.\<close>

lemma sharded_full_run:
  assumes n: "0 < n" and match: "cancels_match Map.empty (sharded_events acts)"
    and len: "2 * length (sharded_events acts) < two64"
  obtains sh0 sh sh1 where "SH_new n c = Inr sh0" "sharded_run ld acts sh0 = Returns sh" "SH_finish ld sh = Some sh1"
    "SH_done (sharded_events acts) sh1" "sw_out (sh_snapshot_writer sh1) = printed ld (lob_snapshots c (sharded_events acts))"
proof -
  from WK_new_ok obtain w0 where w0: "WK_new = Inr w0" by blast
  have "\<exists>sh0. SH_new n c = Inr sh0" unfolding SH_new_def w0 using n by simp
  then obtain sh0 where sh0: "SH_new n c = Inr sh0" by blast
  note new = SH_inv_new [OF sh0]
  from sharded_run_inv [OF new(1), of acts] match len new obtain sh where sh: "sharded_run ld acts sh0 = Returns sh"
    "SH_inv ld (sharded_events acts) sh" "sh_config sh = c" by auto
  from finish_ok [OF sh(2)] sh(3) that [OF sh0 sh(1)] show thesis by auto
qed

lemma SH_done_digest:
  assumes "SH_done es sh" and "sum_list (map added_volume es) < two64"
  shows "\<exists>sh1. SH_stableStateDigest ld sh = Some (BM_stableStateDigest ld (foldl BM_apply BM_new es), sh1)"
proof -
  from merged_done [OF assms(1), of "sh_processed_count sh" 0 "- 1"] obtain sh1 where
    "SH_mergedSnapshot (sh_processed_count sh) 0 (- 1) sh =
      Some (BM_snapshot (foldl BM_apply BM_new es) (sh_processed_count sh) 0 (- 1), sh1)" by blast
  then show ?thesis
    unfolding SH_stableStateDigest_def by (simp only: option.map prod.case digest_of_snapshot [OF assms(2)]) simp
qed

section \<open>Properties\<close>

lemma sequential_processor:
  assumes "length es < two64"
  shows "\<exists>p. LP_finishSnapshots ld (foldl (LP_processMarketDataEvent ld) (LP_new c) es) = Some p \<and>
    lp_books p = foldl BM_apply BM_new es \<and> sw_out (lp_snapshot_writer p) = printed ld (lob_snapshots c es)"
proof -
  have acts: "lob_events (map LobEvent es) = es" by (induction es) auto
  have run: "foldl (lob_step ld) q (map LobEvent es) = foldl (LP_processMarketDataEvent ld) q es" for q
    by (induction es arbitrary: q) auto
  let ?p = "foldl (lob_step ld) (LP_new c) (map LobEvent es)"
  have inv: "LP_inv ld es ?p" using LP_run_inv [of "map LobEvent es" ld c] assms by (simp add: acts)
  have conf: "lp_config ?p = c" by (simp only: LP_config_run) (simp add: LP_new_def)
  from inv have "SW_rep ld (lob_snapshots c es) (lp_snapshot_writer ?p)" by (simp add: LP_inv_def conf)
  from SW_finish_returns [OF this] inv conf show ?thesis
    unfolding run by (auto simp: LP_finishSnapshots_def LP_inv_def)
qed

text \<open>
  C30: The sharded processor is equivalent to the sequential one. For any positive number of worker
  threads, any interleaving of the calls with the steps of the workers and of the snapshot
  writer, and any stream in which a cancellation names the instrument its order rests on, no call
  throws, \<^verbatim>\<open>finish\<close> terminates, and the digest of the final state and the snapshots printed on
  the way are exactly those of \<^verbatim>\<open>LobMarketDataEventProcessor\<close> on the same events. (The event
  counters and the volumes must fit in 64 bits.)
\<close>

theorem sharded_equals_sequential:
  assumes n: "0 < n" and match: "cancels_match Map.empty (sharded_events acts)"
    and len: "2 * length (sharded_events acts) < two64"
    and vol: "sum_list (map added_volume (sharded_events acts)) < two64"
  shows "\<exists>sh0 sh sh1 sh2 p. SH_new n c = Inr sh0 \<and> sharded_run ld acts sh0 = Returns sh \<and>
    SH_finish ld sh = Some sh1 \<and>
    LP_finishSnapshots ld (foldl (LP_processMarketDataEvent ld) (LP_new c) (sharded_events acts)) = Some p \<and>
    SH_stableStateDigest ld sh1 = Some (BM_stableStateDigest ld (lp_books p), sh2) \<and>
    sw_out (sh_snapshot_writer sh1) = sw_out (lp_snapshot_writer p)"
proof -
  let ?es = "sharded_events acts"
  obtain sh0 sh sh1 where run: "SH_new n c = Inr sh0" "sharded_run ld acts sh0 = Returns sh" "SH_finish ld sh = Some sh1"
    "SH_done ?es sh1" "sw_out (sh_snapshot_writer sh1) = printed ld (lob_snapshots c ?es)"
    by (rule sharded_full_run [OF n match len])
  from SH_done_digest [OF run(4) vol] sequential_processor [of ?es ld c] len run show ?thesis by fastforce
qed

definition moving_actions :: "sharded_action list" where
  "moving_actions =
     [ShardEvent (event Add 1 Bid 5 2 7), ShardWorkerStep 1, ShardEvent (event Add 1 Bid 6 3 8), ShardWriterStep,
      ShardEvent (event Cancel 1 Bid 6 1 0)]"

theorem sharded_equals_sequential_witness:
  "\<exists>sh0 sh sh1 sh2 p. SH_new 2 every_event = Inr sh0 \<and>
    sharded_run (\<lambda>x y. of_int x / of_int y) moving_actions sh0 = Returns sh \<and>
    SH_finish (\<lambda>x y. of_int x / of_int y) sh = Some sh1 \<and>
    LP_finishSnapshots (\<lambda>x y. of_int x / of_int y)
      (foldl (LP_processMarketDataEvent (\<lambda>x y. of_int x / of_int y)) (LP_new every_event)
        [event Add 1 Bid 5 2 7, event Add 1 Bid 6 3 8, event Cancel 1 Bid 6 1 0]) = Some p \<and>
    SH_stableStateDigest (\<lambda>x y. of_int x / of_int y) sh1 =
      Some (BM_stableStateDigest (\<lambda>x y. of_int x / of_int y) (lp_books p), sh2) \<and>
    sw_out (sh_snapshot_writer sh1) = sw_out (lp_snapshot_writer p)"
proof -
  have es: "sharded_events moving_actions =
      [event Add 1 Bid 5 2 7, event Add 1 Bid 6 3 8, event Cancel 1 Bid 6 1 0]"
    by (simp add: moving_actions_def)
  have "cancels_match Map.empty (sharded_events moving_actions)"
    unfolding es by (simp add: cancel_matches_def market_spec_def market_instrument_def event_def default_event_def
        hasValidRestingState_def hasValidSide_def hasValidPrice_def undefined_price_def Let_def)
  moreover have "2 * length (sharded_events moving_actions) < two64" "sum_list (map added_volume (sharded_events moving_actions)) < two64"
    unfolding es by (simp_all add: two64_def added_volume_def event_def default_event_def)
  ultimately show ?thesis
    using sharded_equals_sequential [of 2 moving_actions every_event "\<lambda>x y. of_int x / of_int y"] unfolding es by simp
qed

section \<open>Cancellations for another instrument\<close>

text \<open>Without interval snapshots a call is the dispatch of its event.\<close>

lemma process_without_snapshots:
  assumes "\<not> sh_finished sh" "lc_snapshot_interval_events (sh_config sh) = 0" "ev_instrument_id e = j" "j \<noteq> 0"
    and "SH_updateRouterAndDispatch e (sh\<lparr>sh_processed_count := sh_processed_count sh + 1\<rparr>) = Returns sh'"
    and "sh_config sh' = sh_config sh"
  shows "SH_processMarketDataEvent ld sh e = Returns sh'"
proof -
  have e: "e\<lparr>ev_instrument_id := j\<rparr> = e" using assms(3) by (intro MarketDataEvent.equality) auto
  show ?thesis
    using assms
    by (simp add: e SH_processMarketDataEvent_def SH_resolveInstrumentId_def Let_def SH_maybePrintSnapshot_def)
qed

lemma foreign_cancel_dispatch:
  assumes "map_of (sh_router_orders sh) (ev_order_id c) = Some r" "ev_action c = Cancel" "ev_size c = 0"
    and "workers_inv rs (sh_workers sh)" "ev_instrument_id c = j"
  shows "\<exists>ws. SH_updateRouterAndDispatch c sh =
      Returns (sh\<lparr>sh_router_orders := AList.delete (ev_order_id c) (sh_router_orders sh), sh_workers := ws\<rparr>) \<and>
    workers_inv (rs @ [c]) ws \<and> length ws = length (sh_workers sh)"
proof -
  let ?sh = "sh\<lparr>sh_router_orders := AList.delete (ev_order_id c) (sh_router_orders sh)\<rparr>"
  have "workers_inv rs (sh_workers ?sh)" using assms(4) by simp
  from workers_inv_enqueue [OF this assms(5)] assms(1-3,5) show ?thesis
    by (auto simp: SH_updateRouterAndDispatch_def Let_def simp del: map_of_eq_Some_iff)
qed

lemma new_order_dispatch:
  assumes "map_of (sh_router_orders sh) (ev_order_id a) = None" "ev_action a = Add" "hasValidRestingState a"
    and "workers_inv rs (sh_workers sh)" "ev_instrument_id a = j"
  shows "\<exists>ws router. SH_updateRouterAndDispatch a sh =
      Returns (sh\<lparr>sh_router_orders := router, sh_workers := ws\<rparr>) \<and>
    workers_inv (rs @ [a]) ws \<and> length ws = length (sh_workers sh)"
proof -
  let ?sh = "sh\<lparr>sh_router_orders := AList.update (ev_order_id a)
    \<lparr>rt_instrument_id = ev_instrument_id a, rt_size = ev_size a\<rparr> (sh_router_orders sh)\<rparr>"
  have "workers_inv rs (sh_workers ?sh)" using assms(4) by simp
  from workers_inv_enqueue [OF this assms(5)] obtain ws where
    ws: "SH_enqueue j a ?sh = Returns (?sh\<lparr>sh_workers := ws\<rparr>)" "workers_inv (rs @ [a]) ws"
    "length ws = length (sh_workers sh)" by auto
  then have "SH_updateRouterAndDispatch a sh = Returns (?sh\<lparr>sh_workers := ws\<rparr>)"
    using assms(1-3,5) by (simp add: SH_updateRouterAndDispatch_def Let_def del: map_of_eq_None_iff)
  with ws(2,3) show ?thesis by auto
qed

lemma market_add:
  "ev_action a = Add \<Longrightarrow> hasValidRestingState a \<Longrightarrow> ev_instrument_id a = j \<Longrightarrow> j \<noteq> 0 \<Longrightarrow>
   market_spec m a (ev_order_id a) = Some (j, resting_of a)"
  by (simp add: market_spec_def market_instrument_def Let_def)

lemma BM_contains_spec:
  "LOB_containsOrder (BM_book (foldl BM_apply BM_new es) i) k \<longleftrightarrow>
     (\<exists>x. foldl market_spec Map.empty es k = Some (i, x))"
  by (auto simp: LOB_containsOrder_def BM_orders_abs [OF BM_run_index] BM_run_refines market_orders_Some
      simp flip: not_None_eq simp del: map_of_eq_Some_iff map_of_eq_None_iff)

text \<open>
  C31: Where a cancellation names another instrument than its order's, the sharded processor can
  differ from the sequential one. Take any run in which the cancellations so far have named the
  instruments of their orders, with an order resting on instrument \<open>i\<close>, a full cancellation of it for
  another instrument \<open>j\<close> whose worker is a different one, and then a valid addition of the same order
  on \<open>j\<close>. The router forgets the order on the cancellation, so the addition no longer takes it off
  \<open>i\<close>: after draining, the order rests in the books of both instruments, while the sequential
  \<^verbatim>\<open>BookManager\<close> holds it on \<open>j\<close> only. (Without interval snapshots; fewer than \<open>2 ^ 63 - 1\<close> events.)
\<close>

theorem sharded_foreign_cancel_diverges:
  assumes n: "0 < n" and cfg: "lc_snapshot_interval_events cfg = 0"
    and match: "cancels_match Map.empty (sharded_events acts)" and len: "2 * length (sharded_events acts) + 2 < two64"
    and rests: "foldl market_spec Map.empty (sharded_events acts) k = Some (i, x)"
    and c: "ev_action c = Cancel" "ev_order_id c = k" "ev_instrument_id c = j" "ev_size c = 0"
    and a: "ev_action a = Add" "ev_order_id a = k" "ev_instrument_id a = j" "hasValidRestingState a"
    and j: "j \<noteq> 0" "unat i mod n \<noteq> unat j mod n"
  shows "\<exists>sh0 sh sh1. SH_new n cfg = Inr sh0 \<and>
    sharded_run ld (acts @ [ShardEvent c, ShardEvent a]) sh0 = Returns sh \<and> SH_drainWorkers sh = Some sh1 \<and>
    LOB_containsOrder (BM_book (wk_books (sh_workers sh1 ! (unat i mod n))) i) k \<and>
    LOB_containsOrder (BM_book (wk_books (sh_workers sh1 ! (unat j mod n))) j) k \<and>
    \<not> LOB_containsOrder (BM_book (foldl BM_apply BM_new (sharded_events acts @ [c, a])) i) k \<and>
    LOB_containsOrder (BM_book (foldl BM_apply BM_new (sharded_events acts @ [c, a])) j) k"
proof -
  let ?es = "sharded_events acts"
  let ?rs = "route_all Map.empty ?es"
  obtain w where w0: "WK_new = Inr w" using WK_new_ok by blast
  have "\<exists>sh0. SH_new n cfg = Inr sh0" unfolding SH_new_def w0 using n by simp
  then obtain sh0 where sh0: "SH_new n cfg = Inr sh0" by blast
  note new = SH_inv_new [OF sh0]
  from sharded_run_inv [OF new(1), of acts ld] match len new(2,3) obtain sh where
    sh: "sharded_run ld acts sh0 = Returns sh" "SH_inv ld ?es sh" "sh_config sh = cfg" "length (sh_workers sh) = n"
    by auto
  let ?sh1 = "sh\<lparr>sh_processed_count := sh_processed_count sh + 1\<rparr>"
  have inv: "\<not> sh_finished sh" "workers_inv ?rs (sh_workers ?sh1)"
    and router: "router_ok (foldl market_spec Map.empty ?es) (sh_router_orders ?sh1)"
    using sh(2) by (simp_all add: SH_inv_def)
  have known: "map_of (sh_router_orders ?sh1) (ev_order_id c) = Some (router_of (i, x))"
    unfolding router_ok_lookup [OF router] c(2) rests by simp
  from foreign_cancel_dispatch [OF known c(1,4) inv(2) c(3)] obtain ws1 where
    ws1: "SH_updateRouterAndDispatch c ?sh1 =
      Returns (?sh1\<lparr>sh_router_orders := AList.delete k (sh_router_orders sh), sh_workers := ws1\<rparr>)"
    "workers_inv (?rs @ [c]) ws1" "length ws1 = n" using c(2) sh(4) by auto
  define sh2 where "sh2 = ?sh1\<lparr>sh_router_orders := AList.delete k (sh_router_orders sh), sh_workers := ws1\<rparr>"
  have p1: "SH_processMarketDataEvent ld sh c = Returns sh2"
    using process_without_snapshots [OF inv(1) _ c(3) j(1) ws1(1), of ld] sh(3) cfg by (simp add: sh2_def)
  let ?sh3 = "sh2\<lparr>sh_processed_count := sh_processed_count sh2 + 1\<rparr>"
  have "map_of (sh_router_orders ?sh3) (ev_order_id a) = None" "workers_inv (?rs @ [c]) (sh_workers ?sh3)"
    using ws1(2) a(2) by (simp_all add: sh2_def del: map_of_eq_None_iff)
  from new_order_dispatch [OF this(1) a(1,4) this(2) a(3)] obtain ws2 rt where
    ws2: "SH_updateRouterAndDispatch a ?sh3 = Returns (?sh3\<lparr>sh_router_orders := rt, sh_workers := ws2\<rparr>)"
    "workers_inv ((?rs @ [c]) @ [a]) ws2" "length ws2 = n" using ws1(3) by (auto simp: sh2_def)
  define sh4 where "sh4 = ?sh3\<lparr>sh_router_orders := rt, sh_workers := ws2\<rparr>"
  have p2: "SH_processMarketDataEvent ld sh2 a = Returns sh4"
    using process_without_snapshots [OF _ _ a(3) j(1) ws2(1), of ld] sh(3) cfg inv(1) by (simp add: sh2_def sh4_def)
  have run: "sharded_run ld (acts @ [ShardEvent c, ShardEvent a]) sh0 = Returns sh4"
    using sharded_run_append [of ld acts "[ShardEvent c, ShardEvent a]" sh0] sh(1) p1 p2 by simp
  have "workers_inv (?rs @ [c, a]) (sh_workers sh4)" using ws2(2) by (simp add: sh4_def)
  moreover have "length (?rs @ [c, a]) < two64" using route_all_length [of Map.empty ?es] len by simp
  ultimately obtain ws where ws: "SH_drainWorkers sh4 = Some (sh4\<lparr>sh_workers := ws\<rparr>)" "length ws = n"
    "\<forall>k < length ws. wk_books (ws ! k) =
       foldl BM_apply BM_new (filter (\<lambda>r. unat (ev_instrument_id r) mod length ws = k) (?rs @ [c, a]))"
    using drain_ok [of "?rs @ [c, a]" sh4] ws2(3) by (auto simp: sh4_def)
  have "wk_books (ws ! (unat i mod n)) =
      foldl BM_apply BM_new (filter (\<lambda>r. unat (ev_instrument_id r) mod n = unat i mod n) ?rs)"
    using ws(2,3) n c(3) a(3) j(2) by simp
  with shard_book [OF shard_run [of "\<lambda>i'. unat i' mod n = unat i mod n" ?es], of i]
  have "BM_book (wk_books (ws ! (unat i mod n))) i = BM_book (foldl BM_apply BM_new ?es) i" by simp
  then have on_i: "LOB_containsOrder (BM_book (wk_books (ws ! (unat i mod n))) i) k"
    using rests by (simp add: BM_contains_spec)
  have "wk_books (ws ! (unat j mod n)) =
      foldl BM_apply BM_new (filter (\<lambda>r. unat (ev_instrument_id r) mod n = unat j mod n) ?rs @ [c, a])"
    using ws(2,3) n c(3) a(3) by simp
  then have on_j: "LOB_containsOrder (BM_book (wk_books (ws ! (unat j mod n))) j) k"
    using market_add [OF a(1,4,3) j(1)] a(2) by (simp add: BM_contains_spec del: foldl_append) simp
  have "foldl market_spec Map.empty (?es @ [c, a]) k = Some (j, resting_of a)"
    using market_add [OF a(1,4,3) j(1)] a(2) by simp
  moreover have "i \<noteq> j" using j(2) by auto
  ultimately have "\<not> LOB_containsOrder (BM_book (foldl BM_apply BM_new (?es @ [c, a])) i) k"
    "LOB_containsOrder (BM_book (foldl BM_apply BM_new (?es @ [c, a])) j) k"
    unfolding BM_contains_spec by simp_all
  then show ?thesis using sh0 run ws(1) on_i on_j by (intro exI [of _ sh0] exI [of _ sh4] exI [of _ "sh4\<lparr>sh_workers := ws\<rparr>"]) simp
qed

definition no_snapshots :: LobProcessorConfig where
  "no_snapshots =
     \<lparr>lc_snapshot_depth = 0, lc_snapshot_interval_events = 0, lc_max_snapshots = 0, lc_snapshot_writer_mode = Sync\<rparr>"

theorem sharded_foreign_cancel_diverges_witness:
  "\<exists>sh0 sh sh1. SH_new 2 no_snapshots = Inr sh0 \<and>
    sharded_run (\<lambda>_ _. 0) [ShardEvent (event Add 1 Bid 100 5 7), ShardEvent (event Cancel 1 Bid 100 0 8),
      ShardEvent (event Add 1 Bid 100 5 8)] sh0 = Returns sh \<and> SH_drainWorkers sh = Some sh1 \<and>
    LOB_containsOrder (BM_book (wk_books (sh_workers sh1 ! 1)) 7) 1 \<and>
    LOB_containsOrder (BM_book (wk_books (sh_workers sh1 ! 0)) 8) 1 \<and>
    \<not> LOB_containsOrder (BM_book (foldl BM_apply BM_new
        [event Add 1 Bid 100 5 7, event Cancel 1 Bid 100 0 8, event Add 1 Bid 100 5 8]) 7) 1"
proof -
  let ?add = "event Add 1 Bid 100 5 7" and ?c = "event Cancel 1 Bid 100 0 8" and ?a = "event Add 1 Bid 100 5 8"
  have valid: "hasValidRestingState ?add" "hasValidRestingState ?a" by code_simp+
  have f: "ev_action ?add = Add" "ev_order_id ?add = 1" "ev_instrument_id ?add = 7" "ev_action ?c = Cancel" "ev_order_id ?c = 1"
    "ev_instrument_id ?c = 8" "ev_size ?c = 0" "ev_action ?a = Add" "ev_order_id ?a = 1" "ev_instrument_id ?a = 8"
    by (simp_all add: event_def default_event_def)
  have "cancels_match Map.empty (sharded_events [ShardEvent ?add])" by (simp add: cancel_matches_def f)
  moreover have "2 * length (sharded_events [ShardEvent ?add]) + 2 < two64" by (simp add: two64_def)
  moreover have "foldl market_spec Map.empty (sharded_events [ShardEvent ?add]) 1 = Some (7, resting_of ?add)"
    using market_add [OF f(1) valid(1) f(3), of Map.empty] by (simp add: f)
  moreover have "lc_snapshot_interval_events no_snapshots = 0" by (simp add: no_snapshots_def)
  moreover have "unat (7 :: u64) mod 2 \<noteq> unat (8 :: u64) mod 2" by simp
  ultimately have "\<exists>sh0 sh sh1. SH_new 2 no_snapshots = Inr sh0 \<and>
    sharded_run (\<lambda>_ _. 0) ([ShardEvent ?add] @ [ShardEvent ?c, ShardEvent ?a]) sh0 = Returns sh \<and> SH_drainWorkers sh = Some sh1 \<and>
    LOB_containsOrder (BM_book (wk_books (sh_workers sh1 ! (unat (7 :: u64) mod 2))) 7) 1 \<and>
    LOB_containsOrder (BM_book (wk_books (sh_workers sh1 ! (unat (8 :: u64) mod 2))) 8) 1 \<and>
    \<not> LOB_containsOrder (BM_book (foldl BM_apply BM_new (sharded_events [ShardEvent ?add] @ [?c, ?a])) 7) 1 \<and>
    LOB_containsOrder (BM_book (foldl BM_apply BM_new (sharded_events [ShardEvent ?add] @ [?c, ?a])) 8) 1"
    using f valid(2) by (intro sharded_foreign_cancel_diverges) simp_all
  moreover have "unat (7 :: u64) mod 2 = 1" "unat (8 :: u64) mod 2 = 0" by simp_all
  ultimately show ?thesis unfolding append.simps sharded_events.simps by metis
qed

end
