(* ===== verification/ArgsParser.thy ===== *)
theory ArgsParser
  imports Runners EventProcessors Outcome
begin

text \<open>
  \<^verbatim>\<open>src/app\<close>: the configuration of the command line program and the parser of its arguments. \<open>args\<close> are
  the arguments after the name of the program. The file system, as in \<open>Runners\<close>, is an argument.
\<close>

section \<open>AppConfig.hpp\<close>

datatype RunMode = Standard | Flat | Hierarchy | Benchmark | Help

record AppConfig =
  ac_mode :: RunMode
  ac_input_path :: path
  ac_input_format :: InputFormat
  ac_verbose :: bool
  ac_max_events_to_print :: u64
  ac_use_lob_processor :: bool
  ac_snapshot_depth :: u64
  ac_snapshot_interval_events :: u64
  ac_max_snapshots :: u64
  ac_snapshot_writer_mode :: SnapshotWriterMode
  ac_snapshot_output_path :: path
  ac_lob_workers :: u64
  ac_lob_summary :: bool
  ac_lob_summary_depth :: u64

definition default_app_config :: AppConfig where
  "default_app_config =
     \<lparr>ac_mode = Help, ac_input_path = [], ac_input_format = Json, ac_verbose = False,
      ac_max_events_to_print = 10, ac_use_lob_processor = False, ac_snapshot_depth = 5,
      ac_snapshot_interval_events = 100000, ac_max_snapshots = 5, ac_snapshot_writer_mode = Sync,
      ac_snapshot_output_path = [], ac_lob_workers = 1, ac_lob_summary = False, ac_lob_summary_depth = 5\<rparr>"

section \<open>ArgsParser.cpp\<close>

datatype args_error = ArgsError string

fun args_bind :: "args_error + 'a \<Rightarrow> ('a \<Rightarrow> args_error + 'b) \<Rightarrow> args_error + 'b" where
  "args_bind (Inl e) f = Inl e"
| "args_bind (Inr a) f = f a"

definition isHelp :: "string \<Rightarrow> bool" where
  "isHelp arg \<longleftrightarrow> arg = ''--help'' \<or> arg = ''-h'' \<or> arg = ''help''"

definition parseModeValue :: "string \<Rightarrow> args_error + RunMode" where
  "parseModeValue value =
     (if value = ''standard'' then Inr Standard
      else if value = ''flat'' then Inr Flat
      else if value = ''hierarchy'' \<or> value = ''hierarchical'' then Inr Hierarchy
      else if value = ''benchmark'' then Inr Benchmark
      else Inl (ArgsError (''unknown mode: '' @ value)))"

definition parseSnapshotWriterMode :: "string \<Rightarrow> args_error + SnapshotWriterMode" where
  "parseSnapshotWriterMode value =
     (if value = ''sync'' then Inr Sync
      else if value = ''async'' then Inr Async
      else Inl (ArgsError (''unknown snapshot writer mode: '' @ value)))"

definition parseInputFormat :: "string \<Rightarrow> args_error + InputFormat" where
  "parseInputFormat value =
     (if value = ''json'' then Inr Json
      else if value = ''feather'' then Inr Feather
      else Inl (ArgsError (''unknown input format: '' @ value)))"

text \<open>
  \<^verbatim>\<open>std::stoull(value, &pos, 10)\<close>: leading white space, an optional sign, digits. The value after a
  minus sign is negated modulo \<open>2\<^sup>6\<^sup>4\<close>, as \<^verbatim>\<open>strtoull\<close> specifies.
\<close>

definition is_space :: "char \<Rightarrow> bool" where
  "is_space c \<longleftrightarrow> c = CHR '' '' \<or> (9 \<le> (of_char c :: nat) \<and> (of_char c :: nat) \<le> 13)"

definition stoull :: "string \<Rightarrow> exn + u64 \<times> nat" where
  "stoull value =
     (let s = dropWhile is_space value;
          t = (case s of [] \<Rightarrow> [] | c # cs \<Rightarrow> if c = CHR ''+'' \<or> c = CHR ''-'' then cs else s);
          digits = takeWhile is_digit t;
          n = read_digits 0 digits
      in if digits = [] then Inl (invalid_argument ''stoull'')
         else if 2 ^ 64 \<le> n then Inl (out_of_range ''stoull'')
         else Inr (if s \<noteq> [] \<and> hd s = CHR ''-'' then - of_int n else of_int n,
                   length value - length (dropWhile is_digit t)))"

definition parseSize :: "string \<Rightarrow> string \<Rightarrow> args_error + u64" where
  "parseSize value option =
     (case stoull value of
        Inr (parsed, pos) \<Rightarrow>
          if pos \<noteq> length value
          then Inl (ArgsError (''invalid numeric value for '' @ option @ '': '' @ value)) else Inr parsed
      | Inl (out_of_range _) \<Rightarrow> Inl (ArgsError (''numeric value is out of range for '' @ option @ '': '' @ value))
      | Inl _ \<Rightarrow> Inl (ArgsError (''invalid numeric value for '' @ option @ '': '' @ value)))"

definition validateInput :: "filesystem \<Rightarrow> AppConfig \<Rightarrow> args_error + unit" where
  "validateInput fs c =
     (if ac_mode c = Help then Inr ()
      else if ac_snapshot_interval_events c = 0 \<and> ac_mode c \<noteq> Benchmark then
        Inl (ArgsError ''snapshot interval must be greater than zero'')
      else if ac_lob_workers c = 0 then Inl (ArgsError ''lob worker count must be greater than zero'')
      else if ac_lob_workers c \<noteq> 1 \<and> \<not> ac_use_lob_processor c then
        Inl (ArgsError ''--lob-workers requires --lob'')
      else if ac_input_path c = [] then Inl (ArgsError ''input path is required'')
      else if \<not> fs_exists fs (ac_input_path c) then
        Inl (ArgsError (''input path does not exist: '' @ ac_input_path c))
      else if ac_mode c = Standard \<and> \<not> fs_is_regular_file fs (ac_input_path c) then
        Inl (ArgsError (''standard mode expects a file path: '' @ ac_input_path c))
      else if ac_mode c = Standard \<and> ac_input_format c = Feather then
        Inl (ArgsError ''--input-format feather is supported only with flat, hierarchy, and benchmark modes'')
      else if (ac_mode c = Flat \<or> ac_mode c = Hierarchy \<or> ac_mode c = Benchmark) \<and>
              \<not> fs_is_directory fs (ac_input_path c) then
        Inl (ArgsError (''hard-task modes expect a folder path: '' @ ac_input_path c))
      else Inr ())"

definition starts_with_dash :: "string \<Rightarrow> bool" where
  "starts_with_dash arg \<longleftrightarrow> arg \<noteq> [] \<and> hd arg = CHR ''-''"

text \<open>
  The loop over the arguments: its state, and one pass, which consumes the argument and perhaps
  the next one. \<open>None\<close> is the early return of the configuration for help.
\<close>

record args_state =
  as_config :: AppConfig
  as_mode_set :: bool
  as_input_set :: bool

definition set_config :: "(AppConfig \<Rightarrow> AppConfig) \<Rightarrow> args_state \<Rightarrow> args_state" where
  "set_config f s = s\<lparr>as_config := f (as_config s)\<rparr>"

fun value_option ::
  "string \<Rightarrow> (string \<Rightarrow> args_error + args_state) \<Rightarrow> string list \<Rightarrow> args_error + (args_state \<times> string list) option" where
  "value_option missing f [] = Inl (ArgsError missing)"
| "value_option missing f (v # rest) = args_bind (f v) (\<lambda>s. Inr (Some (s, rest)))"

definition size_option ::
  "string \<Rightarrow> (u64 \<Rightarrow> AppConfig \<Rightarrow> AppConfig) \<Rightarrow> args_state \<Rightarrow> string list \<Rightarrow>
   args_error + (args_state \<times> string list) option" where
  "size_option opt put s rest =
     value_option (opt @ '' requires a number'') (\<lambda>v. args_bind (parseSize v opt) (\<lambda>n. Inr (set_config (put n) s))) rest"

definition parse_arg :: "args_state \<Rightarrow> string \<Rightarrow> string list \<Rightarrow> args_error + (args_state \<times> string list) option" where
  "parse_arg s arg rest =
     (if isHelp arg then Inr None
      else if arg = ''--verbose'' \<or> arg = ''-v'' then Inr (Some (set_config (ac_verbose_update (\<lambda>_. True)) s, rest))
      else if arg = ''--lob'' then Inr (Some (set_config (ac_use_lob_processor_update (\<lambda>_. True)) s, rest))
      else if arg = ''--lob-summary'' then
        Inr (Some (set_config (\<lambda>c. c\<lparr>ac_lob_summary := True, ac_max_events_to_print := 0\<rparr>) s, rest))
      else if arg = ''--async-snapshots'' then
        Inr (Some (set_config (ac_snapshot_writer_mode_update (\<lambda>_. Async)) s, rest))
      else if arg = ''--mode'' then
        value_option ''--mode requires a value''
          (\<lambda>v. args_bind (parseModeValue v) (\<lambda>m. Inr ((set_config (ac_mode_update (\<lambda>_. m)) s)\<lparr>as_mode_set := True\<rparr>))) rest
      else if arg = ''--input'' then
        value_option ''--input requires a path''
          (\<lambda>v. Inr ((set_config (ac_input_path_update (\<lambda>_. v)) s)\<lparr>as_input_set := True\<rparr>)) rest
      else if arg = ''--input-format'' then
        value_option ''--input-format requires a value''
          (\<lambda>v. args_bind (parseInputFormat v) (\<lambda>f. Inr (set_config (ac_input_format_update (\<lambda>_. f)) s))) rest
      else if arg = ''--benchmark'' then
        value_option ''--benchmark requires a folder path''
          (\<lambda>v. Inr ((set_config (\<lambda>c. c\<lparr>ac_mode := Benchmark, ac_input_path := v\<rparr>) s)\<lparr>as_mode_set := True, as_input_set := True\<rparr>))
          rest
      else if arg = ''--print-events'' then size_option ''--print-events'' (\<lambda>n c. c\<lparr>ac_max_events_to_print := n\<rparr>) s rest
      else if arg = ''--snapshot-depth'' then size_option ''--snapshot-depth'' (\<lambda>n c. c\<lparr>ac_snapshot_depth := n\<rparr>) s rest
      else if arg = ''--lob-summary-depth'' then
        size_option ''--lob-summary-depth'' (\<lambda>n c. c\<lparr>ac_lob_summary_depth := n\<rparr>) s rest
      else if arg = ''--snapshot-interval-events'' then
        size_option ''--snapshot-interval-events'' (\<lambda>n c. c\<lparr>ac_snapshot_interval_events := n\<rparr>) s rest
      else if arg = ''--max-snapshots'' then size_option ''--max-snapshots'' (\<lambda>n c. c\<lparr>ac_max_snapshots := n\<rparr>) s rest
      else if arg = ''--lob-workers'' then size_option ''--lob-workers'' (\<lambda>n c. c\<lparr>ac_lob_workers := n\<rparr>) s rest
      else if arg = ''--snapshot-writer'' then
        value_option ''--snapshot-writer requires a value''
          (\<lambda>v. args_bind (parseSnapshotWriterMode v)
             (\<lambda>m. Inr (set_config (ac_snapshot_writer_mode_update (\<lambda>_. m)) s))) rest
      else if arg = ''--snapshot-output'' then
        value_option ''--snapshot-output requires a path''
          (\<lambda>v. Inr (set_config (ac_snapshot_output_path_update (\<lambda>_. v)) s)) rest
      else if \<not> as_mode_set s \<and> (arg = ''standard'' \<or> arg = ''flat'' \<or> arg = ''hierarchy'' \<or>
                arg = ''hierarchical'' \<or> arg = ''benchmark'') then
        args_bind (parseModeValue arg) (\<lambda>m.
          let s1 = (set_config (ac_mode_update (\<lambda>_. m)) s)\<lparr>as_mode_set := True\<rparr>
          in Inr (Some (case rest of
                          v # rest1 \<Rightarrow>
                            if \<not> starts_with_dash v
                            then ((set_config (ac_input_path_update (\<lambda>_. v)) s1)\<lparr>as_input_set := True\<rparr>, rest1)
                            else (s1, rest)
                        | [] \<Rightarrow> (s1, rest))))
      else if \<not> as_input_set s \<and> \<not> starts_with_dash arg then
        Inr (Some ((set_config (ac_input_path_update (\<lambda>_. arg)) s)\<lparr>as_input_set := True\<rparr>, rest))
      else Inl (ArgsError (''unknown argument: '' @ arg)))"

text \<open>
  What every branch of a pass keeps: no argument is added, and the mode is set exactly when it is
  not \<open>Help\<close>.
\<close>

definition mode_known :: "args_state \<Rightarrow> bool" where
  "mode_known s \<longleftrightarrow> (as_mode_set s \<longleftrightarrow> ac_mode (as_config s) \<noteq> Help)"

definition pass_ok :: "args_state \<Rightarrow> string list \<Rightarrow> args_error + (args_state \<times> string list) option \<Rightarrow> bool" where
  "pass_ok s rest r \<longleftrightarrow>
     (\<forall>s1 rest1. r = Inr (Some (s1, rest1)) \<longrightarrow> length rest1 \<le> length rest \<and> (mode_known s \<longrightarrow> mode_known s1))"

lemma pass_ok_fail [intro]: "pass_ok s rest (Inl e)" "pass_ok s rest (Inr None)"
  by (simp_all add: pass_ok_def)

lemma pass_ok_flag [intro]: "(mode_known s \<Longrightarrow> mode_known s1) \<Longrightarrow> pass_ok s rest (Inr (Some (s1, rest)))"
  by (simp add: pass_ok_def)

lemma pass_ok_if: "(b \<Longrightarrow> pass_ok s rest x) \<Longrightarrow> (\<not> b \<Longrightarrow> pass_ok s rest y) \<Longrightarrow> pass_ok s rest (if b then x else y)"
  by simp

lemma pass_ok_value:
  "(\<And>v s1. f v = Inr s1 \<Longrightarrow> mode_known s \<Longrightarrow> mode_known s1) \<Longrightarrow> pass_ok s rest (value_option missing f rest)"
proof (cases rest)
  case (Cons v vs)
  assume "\<And>v s1. f v = Inr s1 \<Longrightarrow> mode_known s \<Longrightarrow> mode_known s1"
  with Cons show ?thesis by (cases "f v") (auto simp: pass_ok_def)
qed (simp add: pass_ok_def)

lemma args_bind_Inr: "args_bind r f = Inr b \<longleftrightarrow> (\<exists>a. r = Inr a \<and> f a = Inr b)"
  by (cases r) auto

lemma mode_known_config: "ac_mode (f (as_config s)) = ac_mode (as_config s) \<Longrightarrow> mode_known s \<Longrightarrow> mode_known (set_config f s)"
  by (simp add: mode_known_def set_config_def)

lemma parseModeValue_not_help: "parseModeValue v = Inr m \<Longrightarrow> m \<noteq> Help"
  by (auto simp: parseModeValue_def split: if_splits)

lemma mode_known_set: "m \<noteq> Help \<Longrightarrow> mode_known ((set_config (ac_mode_update (\<lambda>_. m)) s)\<lparr>as_mode_set := True\<rparr>)"
  by (simp add: mode_known_def set_config_def)

lemma mode_known_input: "mode_known s \<Longrightarrow> mode_known ((set_config (ac_input_path_update (\<lambda>_. v)) s)\<lparr>as_input_set := True\<rparr>)"
  by (simp add: mode_known_def set_config_def)

lemma pass_ok_size:
  "(\<And>n. ac_mode (put n (as_config s)) = ac_mode (as_config s)) \<Longrightarrow> pass_ok s rest (size_option opt put s rest)"
  unfolding size_option_def by (rule pass_ok_value) (auto simp: args_bind_Inr intro: mode_known_config)

lemma pass_ok_mode_word:
  "pass_ok s rest (args_bind (parseModeValue arg) (\<lambda>m.
     let s1 = (set_config (ac_mode_update (\<lambda>_. m)) s)\<lparr>as_mode_set := True\<rparr>
     in Inr (Some (case rest of
                     v # rest1 \<Rightarrow>
                       if \<not> starts_with_dash v
                       then ((set_config (ac_input_path_update (\<lambda>_. v)) s1)\<lparr>as_input_set := True\<rparr>, rest1)
                       else (s1, rest)
                   | [] \<Rightarrow> (s1, rest)))))"
  unfolding pass_ok_def
  by (cases rest) (auto simp: args_bind_Inr Let_def intro: mode_known_input mode_known_set
      dest: parseModeValue_not_help split: if_splits)

lemma parse_arg_ok: "pass_ok s rest (parse_arg s arg rest)"
  unfolding parse_arg_def
  by (intro pass_ok_if pass_ok_fail pass_ok_flag pass_ok_mode_word pass_ok_size pass_ok_value)
    (auto simp: args_bind_Inr intro: mode_known_config mode_known_set mode_known_input
      dest: parseModeValue_not_help simp: mode_known_def set_config_def)

lemma parse_arg_rest: "parse_arg s arg rest = Inr (Some (s1, rest1)) \<Longrightarrow> length rest1 \<le> length rest"
  using parse_arg_ok [of s rest arg] by (auto simp: pass_ok_def)

function parse_loop :: "args_state \<Rightarrow> string list \<Rightarrow> args_error + args_state option" where
  "parse_loop s [] = Inr (Some s)"
| "parse_loop s (arg # rest) =
     (case parse_arg s arg rest of
        Inl e \<Rightarrow> Inl e
      | Inr None \<Rightarrow> Inr None
      | Inr (Some (s1, rest1)) \<Rightarrow> parse_loop s1 rest1)"
  by pat_completeness auto
termination
  by (relation "measure (\<lambda>(s, args). length args)") (auto dest: parse_arg_rest)

text \<open>\<^verbatim>\<open>argc <= 1\<close> is an empty list of arguments.\<close>

definition check_options :: "filesystem \<Rightarrow> args_state \<Rightarrow> args_error + AppConfig" where
  "check_options fs s =
     (if \<not> as_mode_set s then
        Inl (ArgsError ''mode is required unless using the single-file Standard shortcut'')
      else
        (let config = (if ac_mode (as_config s) = Benchmark
                       then (as_config s)\<lparr>ac_max_events_to_print := 0\<rparr> else as_config s)
         in if ac_lob_summary config \<and> ac_use_lob_processor config then
              Inl (ArgsError ''--lob-summary cannot be combined with --lob'')
            else args_bind (validateInput fs config) (\<lambda>_. Inr config)))"

definition ArgsParser_parse :: "filesystem \<Rightarrow> string list \<Rightarrow> args_error + AppConfig" where
  "ArgsParser_parse fs args =
     (if args = [] then Inl (ArgsError ''missing arguments'')
      else if length args = 1 \<and> isHelp (args ! 0) then Inr (default_app_config\<lparr>ac_mode := Help\<rparr>)
      else if length args = 1 \<and> \<not> starts_with_dash (args ! 0) then
        (let config = default_app_config\<lparr>ac_mode := Standard, ac_input_path := args ! 0\<rparr>
         in args_bind (validateInput fs config) (\<lambda>_. Inr config))
      else
        args_bind (parse_loop \<lparr>as_config = default_app_config, as_mode_set = False, as_input_set = False\<rparr> args)
          (\<lambda>r. case r of
             None \<Rightarrow> Inr (default_app_config\<lparr>ac_mode := Help\<rparr>)
           | Some s \<Rightarrow> check_options fs s))"

definition lob_options :: string where
  "lob_options = ''[--verbose] [--print-events N] [--lob-summary] [--lob-summary-depth N] [--lob] '' @
     ''[--lob-workers N] [--snapshot-depth N] [--snapshot-interval-events N] [--max-snapshots N] '' @
     ''[--snapshot-writer sync|async] [--async-snapshots] [--snapshot-output PATH]''"

definition ArgsParser_usage :: "string \<Rightarrow> string" where
  "ArgsParser_usage executable_name =
     ''Usage:'' @ newline @
     ''  '' @ executable_name @ '' <path_to_single_ndjson_file>'' @ newline @
     ''  '' @ executable_name @ '' --mode standard --input <path_to_single_ndjson_file> '' @ lob_options @ newline @
     ''  '' @ executable_name @ '' --mode flat --input <path_to_folder> [--input-format json|feather] '' @ lob_options @ newline @
     ''  '' @ executable_name @ '' --mode hierarchy --input <path_to_folder> [--input-format json|feather] '' @ lob_options @ newline @
     ''  '' @ executable_name @ '' --benchmark <path_to_folder> [--input-format json|feather] [--lob] [--lob-workers N]'' @ newline @
     newline @ ''Shortcuts:'' @ newline @
     ''  '' @ executable_name @ '' standard <path_to_single_ndjson_file>'' @ newline @
     ''  '' @ executable_name @ '' flat <path_to_folder>'' @ newline @
     ''  '' @ executable_name @ '' hierarchy <path_to_folder>'' @ newline @
     ''  '' @ executable_name @ '' benchmark <path_to_folder>'' @ newline"

section \<open>What is accepted\<close>

text \<open>The configurations the rest of the program is written for.\<close>

definition app_config_ok :: "filesystem \<Rightarrow> AppConfig \<Rightarrow> bool" where
  "app_config_ok fs c \<longleftrightarrow>
     ac_mode c \<noteq> Help \<and>
     (ac_snapshot_interval_events c = 0 \<longrightarrow> ac_mode c = Benchmark) \<and>
     ac_lob_workers c \<noteq> 0 \<and> (ac_lob_workers c \<noteq> 1 \<longrightarrow> ac_use_lob_processor c) \<and>
     \<not> (ac_lob_summary c \<and> ac_use_lob_processor c) \<and>
     (ac_mode c = Benchmark \<longrightarrow> ac_max_events_to_print c = 0) \<and>
     ac_input_path c \<noteq> [] \<and> fs_exists fs (ac_input_path c) \<and>
     (if ac_mode c = Standard then fs_is_regular_file fs (ac_input_path c) \<and> ac_input_format c = Json
      else fs_is_directory fs (ac_input_path c))"

lemma InputFormat_not_feather: "f \<noteq> Feather \<longleftrightarrow> f = Json"
  by (cases f) auto

lemma validateInput_Inr:
  "ac_mode c \<noteq> Help \<Longrightarrow> validateInput fs c = Inr u \<longleftrightarrow>
     (ac_snapshot_interval_events c = 0 \<longrightarrow> ac_mode c = Benchmark) \<and>
     ac_lob_workers c \<noteq> 0 \<and> (ac_lob_workers c \<noteq> 1 \<longrightarrow> ac_use_lob_processor c) \<and>
     ac_input_path c \<noteq> [] \<and> fs_exists fs (ac_input_path c) \<and>
     (if ac_mode c = Standard then fs_is_regular_file fs (ac_input_path c) \<and> ac_input_format c = Json
      else fs_is_directory fs (ac_input_path c))"
  by (cases "ac_mode c") (auto simp: validateInput_def InputFormat_not_feather)

lemma parse_loop_mode:
  "parse_loop s args = Inr (Some s1) \<Longrightarrow> mode_known s \<Longrightarrow> mode_known s1"
proof (induction s args rule: parse_loop.induct)
  case (2 s arg rest)
  then obtain s2 rest2 where p: "parse_arg s arg rest = Inr (Some (s2, rest2))" "parse_loop s2 rest2 = Inr (Some s1)"
    by (auto split: sum.splits option.splits)
  with parse_arg_ok [of s rest arg] "2.prems"(2) have "mode_known s2" by (simp add: pass_ok_def)
  with "2.IH" [OF p(1)] p(2) show ?case by simp
qed simp

lemma check_options_ok:
  assumes "check_options fs s = Inr c" and "mode_known s"
  shows "app_config_ok fs c"
proof -
  let ?c = "if ac_mode (as_config s) = Benchmark then (as_config s)\<lparr>ac_max_events_to_print := 0\<rparr> else as_config s"
  have c: "c = ?c" "as_mode_set s" "\<not> (ac_lob_summary ?c \<and> ac_use_lob_processor ?c)" "validateInput fs ?c = Inr ()"
    using assms(1) by (auto simp: check_options_def Let_def args_bind_Inr split: if_split_asm)
  then have "ac_mode ?c \<noteq> Help" using assms(2) by (simp add: mode_known_def)
  from validateInput_Inr [OF this, of fs "()"] c(3,4) this show ?thesis
    unfolding c(1) by (simp add: app_config_ok_def split: if_split_asm)
qed

lemma single_file_ok:
  assumes "validateInput fs (default_app_config\<lparr>ac_mode := Standard, ac_input_path := p\<rparr>) = Inr u"
  shows "app_config_ok fs (default_app_config\<lparr>ac_mode := Standard, ac_input_path := p\<rparr>)"
  using assms validateInput_Inr [of "default_app_config\<lparr>ac_mode := Standard, ac_input_path := p\<rparr>" fs u]
  by (simp add: app_config_ok_def default_app_config_def)

lemma args_accepted:
  assumes parsed: "ArgsParser_parse fs args = Inr c" and mode: "ac_mode c \<noteq> Help"
  shows "app_config_ok fs c"
proof (cases "length args = 1 \<and> \<not> starts_with_dash (args ! 0)")
  case True
  with parsed mode single_file_ok show ?thesis
    by (auto simp: ArgsParser_parse_def Let_def args_bind_Inr split: if_split_asm)
next
  case False
  let ?start = "\<lparr>as_config = default_app_config, as_mode_set = False, as_input_set = False\<rparr>"
  from False parsed mode obtain s where s: "parse_loop ?start args = Inr (Some s)" "check_options fs s = Inr c"
    by (auto simp: ArgsParser_parse_def args_bind_Inr split: if_split_asm option.split_asm)
  have "mode_known ?start" by (simp add: mode_known_def default_app_config_def)
  from check_options_ok [OF s(2) parse_loop_mode [OF s(1) this]] show ?thesis .
qed

section \<open>Command lines for every configuration\<close>

fun mode_name :: "RunMode \<Rightarrow> string" where
  "mode_name Standard = ''standard''"
| "mode_name Flat = ''flat''"
| "mode_name Hierarchy = ''hierarchy''"
| "mode_name Benchmark = ''benchmark''"
| "mode_name Help = ''help''"

fun writer_mode_name :: "SnapshotWriterMode \<Rightarrow> string" where
  "writer_mode_name Sync = ''sync''"
| "writer_mode_name Async = ''async''"

definition command_line :: "AppConfig \<Rightarrow> string list" where
  "command_line c =
     [''--mode'', mode_name (ac_mode c), ''--input'', ac_input_path c,
      ''--input-format'', inputFormatName (ac_input_format c)] @
     (if ac_verbose c then [''--verbose''] else []) @
     (if ac_use_lob_processor c then [''--lob''] else []) @
     (if ac_lob_summary c then [''--lob-summary''] else []) @
     [''--print-events'', dec_u64 (ac_max_events_to_print c), ''--snapshot-depth'', dec_u64 (ac_snapshot_depth c),
      ''--snapshot-interval-events'', dec_u64 (ac_snapshot_interval_events c),
      ''--max-snapshots'', dec_u64 (ac_max_snapshots c), ''--lob-workers'', dec_u64 (ac_lob_workers c),
      ''--lob-summary-depth'', dec_u64 (ac_lob_summary_depth c),
      ''--snapshot-writer'', writer_mode_name (ac_snapshot_writer_mode c),
      ''--snapshot-output'', ac_snapshot_output_path c]"

lemma is_digit_not_space: "is_digit c \<Longrightarrow> \<not> is_space c"
  by (auto simp: is_digit_def is_space_def char_digit_def Let_def)

lemma is_digit_not_sign: "is_digit c \<Longrightarrow> c \<noteq> CHR ''+'' \<and> c \<noteq> CHR ''-''"
  by (auto simp: is_digit_def char_digit_def Let_def)

lemma all_digits: "list_all is_digit ds \<Longrightarrow> takeWhile is_digit ds = ds \<and> dropWhile is_digit ds = []"
  by (induction ds) auto

lemma dec_u64_shape:
  obtains c cs where "dec_u64 n = c # cs" "is_digit c" "list_all is_digit (c # cs)"
    "read_digits 0 (c # cs) = int (unat n)" "\<not> 2 ^ 64 \<le> int (unat n)"
proof -
  obtain c cs where ds: "dec_u64 n = c # cs" using dec_of_nat_digits(2) [of "unat n"] by (cases "dec_u64 n") auto
  have "uint n < 2 ^ 64" using uint_bounded [of n] by simp
  then have "\<not> 2 ^ 64 \<le> int (unat n)" by simp
  with that ds dec_of_nat_digits(1) [of "unat n"] read_digits_dec_of_nat [of "unat n"] show thesis by auto
qed

lemma stoull_dec: "stoull (dec_u64 n) = Inr (n, length (dec_u64 n))"
proof -
  obtain c cs where ds: "dec_u64 n = c # cs" "is_digit c" "list_all is_digit (c # cs)"
    "read_digits 0 (c # cs) = int (unat n)" "\<not> 2 ^ 64 \<le> int (unat n)" by (rule dec_u64_shape)
  then show ?thesis
    unfolding ds(1) stoull_def
    by (simp add: is_digit_not_space is_digit_not_sign all_digits Let_def del: read_digits_simps)
qed

lemma stoull_minus: "stoull (CHR ''-'' # dec_u64 n) = Inr (- n, length (CHR ''-'' # dec_u64 n))"
proof -
  obtain c cs where ds: "dec_u64 n = c # cs" "is_digit c" "list_all is_digit (c # cs)"
    "read_digits 0 (c # cs) = int (unat n)" "\<not> 2 ^ 64 \<le> int (unat n)" by (rule dec_u64_shape)
  moreover have "\<not> is_space CHR ''-''" by (simp add: is_space_def)
  ultimately show ?thesis
    unfolding ds(1) stoull_def by (simp add: all_digits Let_def del: read_digits_simps)
qed

lemma parseSize_dec: "parseSize (dec_u64 n) opt = Inr n"
  by (simp add: parseSize_def stoull_dec)

lemma parse_mode_name: "m \<noteq> Help \<Longrightarrow> parseModeValue (mode_name m) = Inr m"
  by (cases m) (simp_all add: parseModeValue_def)

lemma parse_format_name: "parseInputFormat (inputFormatName f) = Inr f"
  by (cases f) (simp_all add: parseInputFormat_def)

lemma parse_writer_name: "parseSnapshotWriterMode (writer_mode_name w) = Inr w"
  by (cases w) (simp_all add: parseSnapshotWriterMode_def)

text \<open>The loop on the pieces of such a command line.\<close>

lemma loop_mode:
  "m \<noteq> Help \<Longrightarrow> parse_loop s (''--mode'' # mode_name m # rest) =
   parse_loop ((set_config (ac_mode_update (\<lambda>_. m)) s)\<lparr>as_mode_set := True\<rparr>) rest"
  by (simp add: parse_arg_def isHelp_def parse_mode_name)

lemma loop_input:
  "parse_loop s (''--input'' # p # rest) =
   parse_loop ((set_config (ac_input_path_update (\<lambda>_. p)) s)\<lparr>as_input_set := True\<rparr>) rest"
  by (simp add: parse_arg_def isHelp_def)

lemma loop_format:
  "parse_loop s (''--input-format'' # inputFormatName f # rest) =
   parse_loop (set_config (ac_input_format_update (\<lambda>_. f)) s) rest"
  by (simp add: parse_arg_def isHelp_def parse_format_name)

lemma loop_flags:
  "parse_loop s ((if b then [''--verbose''] else []) @ rest) =
   parse_loop (if b then set_config (ac_verbose_update (\<lambda>_. True)) s else s) rest"
  "parse_loop s ((if b then [''--lob''] else []) @ rest) =
   parse_loop (if b then set_config (ac_use_lob_processor_update (\<lambda>_. True)) s else s) rest"
  "parse_loop s ((if b then [''--lob-summary''] else []) @ rest) =
   parse_loop (if b then set_config (\<lambda>c. c\<lparr>ac_lob_summary := True, ac_max_events_to_print := 0\<rparr>) s else s) rest"
  by (simp_all add: parse_arg_def isHelp_def)

lemma loop_sizes:
  "parse_loop s (''--print-events'' # dec_u64 n # rest) = parse_loop (set_config (\<lambda>c. c\<lparr>ac_max_events_to_print := n\<rparr>) s) rest"
  "parse_loop s (''--snapshot-depth'' # dec_u64 n # rest) = parse_loop (set_config (\<lambda>c. c\<lparr>ac_snapshot_depth := n\<rparr>) s) rest"
  "parse_loop s (''--lob-summary-depth'' # dec_u64 n # rest) =
   parse_loop (set_config (\<lambda>c. c\<lparr>ac_lob_summary_depth := n\<rparr>) s) rest"
  "parse_loop s (''--snapshot-interval-events'' # dec_u64 n # rest) =
   parse_loop (set_config (\<lambda>c. c\<lparr>ac_snapshot_interval_events := n\<rparr>) s) rest"
  "parse_loop s (''--max-snapshots'' # dec_u64 n # rest) = parse_loop (set_config (\<lambda>c. c\<lparr>ac_max_snapshots := n\<rparr>) s) rest"
  "parse_loop s (''--lob-workers'' # dec_u64 n # rest) = parse_loop (set_config (\<lambda>c. c\<lparr>ac_lob_workers := n\<rparr>) s) rest"
  by (simp_all add: parse_arg_def isHelp_def size_option_def parseSize_dec)

lemma loop_writer:
  "parse_loop s (''--snapshot-writer'' # writer_mode_name w # rest) =
   parse_loop (set_config (ac_snapshot_writer_mode_update (\<lambda>_. w)) s) rest"
  by (simp add: parse_arg_def isHelp_def parse_writer_name)

lemma loop_output:
  "parse_loop s (''--snapshot-output'' # p # rest) =
   parse_loop (set_config (ac_snapshot_output_path_update (\<lambda>_. p)) s) rest"
  by (simp add: parse_arg_def isHelp_def)

lemma loop_command_line:
  assumes "ac_mode c \<noteq> Help"
  shows "parse_loop \<lparr>as_config = default_app_config, as_mode_set = False, as_input_set = False\<rparr> (command_line c) =
    Inr (Some \<lparr>as_config = c, as_mode_set = True, as_input_set = True\<rparr>)"
  unfolding command_line_def append_Cons append_Nil
  by (simp only: loop_mode [OF assms] loop_input loop_format loop_flags append_Cons append_Nil loop_sizes
      loop_writer loop_output parse_loop.simps(1))
    (simp add: set_config_def default_app_config_def)

section \<open>Properties\<close>

text \<open>
  C32: Whatever the arguments and the file system, the parser returns either the configuration for
  help or a configuration that satisfies everything the rest of the program relies on: a mode to
  run, at least one worker, more than one only with the order book processor, a positive snapshot
  interval outside benchmarks, no contradictory processors, and an input path of the kind the
  mode reads.
\<close>

theorem args_parser_types:
  assumes "ArgsParser_parse fs args = Inr c"
  shows "ac_mode c = Help \<or> app_config_ok fs c"
  using args_accepted [OF assms] by blast

theorem args_parser_types_witness:
  "ArgsParser_parse demo_fs [''flat'', ''d'', ''--lob'', ''--lob-workers'', ''4''] =
     Inr (default_app_config\<lparr>ac_mode := Flat, ac_input_path := ''d'', ac_use_lob_processor := True, ac_lob_workers := 4\<rparr>) \<and>
   app_config_ok demo_fs
     (default_app_config\<lparr>ac_mode := Flat, ac_input_path := ''d'', ac_use_lob_processor := True, ac_lob_workers := 4\<rparr>)"
proof -
  let ?c = "default_app_config\<lparr>ac_mode := Flat, ac_input_path := ''d'', ac_use_lob_processor := True, ac_lob_workers := 4\<rparr>"
  have parsed: "ArgsParser_parse demo_fs [''flat'', ''d'', ''--lob'', ''--lob-workers'', ''4''] = Inr ?c" by code_simp
  moreover have "ac_mode ?c \<noteq> Help" by simp
  ultimately show ?thesis using args_parser_types [OF parsed] by blast
qed

text \<open>
  C33: Every such configuration can be asked for: the command line that spells out all its options
  is parsed to exactly that configuration, so each option sets its own field and no other, and
  numbers are read back whatever their size.
\<close>

theorem command_line_roundtrip:
  assumes "app_config_ok fs c"
  shows "ArgsParser_parse fs (command_line c) = Inr c"
proof -
  have mode: "ac_mode c \<noteq> Help" and valid: "validateInput fs c = Inr ()"
    using assms validateInput_Inr [of c fs "()"] by (auto simp: app_config_ok_def)
  have same: "(if ac_mode c = Benchmark then c\<lparr>ac_max_events_to_print := 0\<rparr> else c) = c"
    using assms by (cases c) (simp add: app_config_ok_def)
  have "\<not> (ac_lob_summary c \<and> ac_use_lob_processor c)" using assms by (simp add: app_config_ok_def)
  with valid have "check_options fs \<lparr>as_config = c, as_mode_set = True, as_input_set = True\<rparr> = Inr c"
    unfolding check_options_def args_state.simps same Let_def by simp
  moreover have "length (command_line c) \<noteq> 1" "command_line c \<noteq> []" by (simp_all add: command_line_def)
  ultimately show ?thesis
    unfolding ArgsParser_parse_def loop_command_line [OF mode] by simp
qed

definition demo_config :: AppConfig where
  "demo_config = default_app_config\<lparr>ac_mode := Benchmark, ac_input_path := ''d'', ac_max_events_to_print := 0,
     ac_use_lob_processor := True, ac_lob_workers := 3, ac_snapshot_writer_mode := Async\<rparr>"

theorem command_line_roundtrip_witness:
  "ArgsParser_parse demo_fs (command_line demo_config) = Inr demo_config"
proof -
  have "app_config_ok demo_fs demo_config" by code_simp
  then show ?thesis by (rule command_line_roundtrip)
qed

text \<open>
  C34: Numbers with a minus sign are accepted and wrap around. A worker count or a depth of \<open>-n\<close> is
  read as \<open>2\<^sup>6\<^sup>4 - n\<close>, because \<^verbatim>\<open>std::stoull\<close> negates modulo \<open>2\<^sup>6\<^sup>4\<close> instead of failing; the parser that
  rejects a count of zero accepts \<^verbatim>\<open>--lob-workers -1\<close>.
\<close>

theorem negative_sizes_wrap: "parseSize (CHR ''-'' # dec_u64 n) opt = Inr (- n)"
  by (simp add: parseSize_def stoull_minus)

end
