(* ===== verification/ResultPrinter.thy ===== *)
theory ResultPrinter
  imports Runners HistoricalLOB BookReports
begin

unbundle bit_operations_syntax

text \<open>
  The reports of a run: \<^verbatim>\<open>src/runners/ResultPrinter.cpp\<close> and the digest of \<^verbatim>\<open>HistoricalLobStore\<close>. The
  wall clock is outside the model: \<open>timing\<close> is what the reports print of it.
\<close>

section \<open>HistoricalLobStore::stableStateDigest\<close>

definition formatOptionalLevel :: "long_division \<Rightarrow> BookLevel option \<Rightarrow> string" where
  "formatOptionalLevel ld l =
     (case l of None \<Rightarrow> ''<none>'' | Some b \<Rightarrow> formatPrice ld (bl_price b) @ ''x'' @ dec_u64 (bl_size b))"

definition book_digest :: "long_division \<Rightarrow> instrument_id \<Rightarrow> HistoricalLOB \<Rightarrow> string" where
  "book_digest ld i b =
     ''|instrument='' @ dec_u64 i @ '',orders='' @ dec_of_nat (HLOB_restingOrderCount b) @
     '',best_bid='' @ formatOptionalLevel ld (HLOB_bestBid b) @ '',best_ask='' @ formatOptionalLevel ld (HLOB_bestAsk b) @
     '',bids=['' @ digest_levels ld (map (\<lambda>l. (bl_price l, bl_size l)) (HLOB_bids b (of_nat (HLOB_bidLevelCount b)))) @ '']'' @
     '',asks=['' @ digest_levels ld (map (\<lambda>l. (bl_price l, bl_size l)) (HLOB_asks b (of_nat (HLOB_askLevelCount b)))) @ '']''"

definition HLS_stableStateDigest :: "long_division \<Rightarrow> HistoricalLobStore \<Rightarrow> string" where
  "HLS_stableStateDigest ld books =
     ''instrument_count='' @ dec_of_nat (length books) @
     '';resting_orders='' @ dec_of_nat (foldl (\<lambda>total (i, b). total + HLOB_restingOrderCount b) 0 books) @
     concat (List.map_filter (\<lambda>i. map_option (book_digest ld i) (map_of books i)) (sortedInstrumentIds books))"

section \<open>ResultPrinter.cpp\<close>

text \<open>
  A reading of the wall clock: whether the seconds are positive, their text with six digits, and
  the text of a number of messages divided by them, with so many digits.
\<close>

record timing =
  tm_positive :: bool
  tm_seconds :: string
  tm_throughput :: "u64 \<Rightarrow> nat \<Rightarrow> string"

definition printEventList :: "string \<Rightarrow> MarketDataEvent list \<Rightarrow> string" where
  "printEventList title events =
     title @ newline @
     (if events = [] then ''<empty>'' @ newline else concat (map (\<lambda>e. show_event e @ newline) events))"

text \<open>The FNV-1a hash.\<close>

definition fnv_step :: "u64 \<Rightarrow> char \<Rightarrow> u64" where
  "fnv_step hash c = (hash XOR of_char c) * 1099511628211"

definition hex_char :: "nat \<Rightarrow> char" where
  "hex_char d = (if d < 10 then digit_char d else char_of (87 + d))"

fun hex_pad :: "nat \<Rightarrow> u64 \<Rightarrow> string" where
  "hex_pad 0 w = []"
| "hex_pad (Suc k) w = hex_pad k (drop_bit 4 w) @ [hex_char (unat (w AND 15))]"

definition digestFingerprint :: "string \<Rightarrow> string" where
  "digestFingerprint digest = ''0x'' @ hex_pad 16 (foldl fnv_step 14695981039346656037 digest)"

definition timestamp_text :: "raw_timestamp option \<Rightarrow> string" where
  "timestamp_text t = (case t of None \<Rightarrow> ''<none>'' | Some n \<Rightarrow> dec_u64 n)"

text \<open>The last timestamp is read exactly when the first is known; both are set by the first event.\<close>

definition printRunResult :: "timing \<Rightarrow> 'p RunResult \<Rightarrow> bool \<Rightarrow> u64 \<Rightarrow> string" where
  "printRunResult tm r verbose max_events_to_print =
     (let s = rr_summary r
      in ''Summary'' @ newline @
         (if rr_strategy_name r \<noteq> [] \<and> rr_strategy_name r \<noteq> ''standard''
          then ''strategy='' @ rr_strategy_name r @ newline else []) @
         ''total_messages_processed='' @ dec_u64 (ps_total_messages_processed s) @ newline @
         ''chronological_violations='' @ dec_u64 (ps_chronological_violations s) @ newline @
         ''first_timestamp='' @ timestamp_text (ps_first_timestamp s) @ newline @
         ''last_timestamp='' @ (case ps_first_timestamp s of
            None \<Rightarrow> ''<none>'' | Some _ \<Rightarrow> timestamp_text (ps_last_timestamp s)) @ newline @
         (if tm_positive tm
          then ''wall_clock_seconds='' @ tm_seconds tm @ newline @
               ''throughput_messages_per_second='' @ tm_throughput tm (ps_total_messages_processed s) 6 @ newline
          else []) @
         (if 0 < max_events_to_print
          then printEventList ''First 10 MarketDataEvent objects'' (ps_first_events s) @
               printEventList ''Last 10 MarketDataEvent objects'' (ps_last_events s)
          else []) @
         (if verbose
          then ''Diagnostics'' @ newline @
               ''total_lines_read='' @ dec_u64 (pd_total_lines_read (rr_diagnostics r)) @ newline
          else []))"

definition summary_of_book :: "long_division \<Rightarrow> HistoricalLobStore \<Rightarrow> u64 \<Rightarrow> instrument_id \<Rightarrow> string" where
  "summary_of_book ld store depth i =
     (let snapshot = HLS_snapshot store i depth
      in ''instrument_id='' @ dec_u64 i @
         '' resting_orders='' @ dec_of_nat (HLOB_restingOrderCount (HLS_bookSnapshot store i)) @
         '' best_bid='' @ formatOptionalLevel ld (HLS_bestBid store i) @
         '' best_ask='' @ formatOptionalLevel ld (HLS_bestAsk store i) @
         '' bid_levels='' @ dec_of_nat (length (ls_bids snapshot)) @
         '' ask_levels='' @ dec_of_nat (length (ls_asks snapshot)) @ newline)"

definition printHistoricalLobSummary :: "long_division \<Rightarrow> HistoricalLobStore \<Rightarrow> u64 \<Rightarrow> string" where
  "printHistoricalLobSummary ld store depth =
     ''LOB Summary'' @ newline @
     ''instruments='' @ dec_of_nat (HLS_instrumentCount store) @ newline @
     ''resting_orders='' @ dec_of_nat (HLS_totalRestingOrderCount store) @ newline @
     concat (map (summary_of_book ld store depth) (HLS_instrumentIds store)) @
     ''lob_digest='' @ HLS_stableStateDigest ld store @ newline"

text \<open>\<^verbatim>\<open>RunResult.hpp\<close>: what a benchmark keeps of a run. The processor itself is gone.\<close>

record BenchmarkResult =
  br_result :: "unit RunResult"
  br_input_format :: string
  br_processor :: string
  br_unresolved_events :: u64
  br_lob_workers :: u64
  br_lob_digest :: string

definition benchmark_row :: "timing \<Rightarrow> BenchmarkResult \<Rightarrow> string" where
  "benchmark_row tm b =
     (let r = br_result b; messages = ps_total_messages_processed (rr_summary r)
      in rr_strategy_name r @ '','' @ br_input_format b @ '','' @ br_processor b @ '','' @
         dec_u64 messages @ '','' @ dec_u64 (ps_chronological_violations (rr_summary r)) @ '','' @
         dec_u64 (br_unresolved_events b) @ '','' @ tm_seconds tm @ '','' @
         (if tm_positive tm then tm_throughput tm messages 2 else ''0.00''))"

definition printBenchmarkResults :: "(timing \<times> BenchmarkResult) list \<Rightarrow> string" where
  "printBenchmarkResults results =
     ''Benchmark'' @ newline @
     ''Strategy,InputFormat,Processor,Messages,ChronologicalViolations,UnresolvedEvents,'' @
     ''WallClockSeconds,ThroughputMessagesPerSecond'' @ newline @
     concat (map (\<lambda>(tm, b). benchmark_row tm b @ newline) results)"

definition printLobBenchmarkResults :: "(timing \<times> BenchmarkResult) list \<Rightarrow> string" where
  "printLobBenchmarkResults results =
     ''Benchmark LOB'' @ newline @
     ''Strategy,InputFormat,Processor,Messages,ChronologicalViolations,UnresolvedEvents,'' @
     ''WallClockSeconds,ThroughputMessagesPerSecond,LobDigest'' @ newline @
     concat (map (\<lambda>(tm, b). benchmark_row tm b @ '','' @
       (if br_lob_digest b = [] then ''<none>'' else digestFingerprint (br_lob_digest b)) @ newline) results)"

end
