(* ===== verification/Application.thy ===== *)
theory Application
  imports ArgsParser ShardedProcessor ResultPrinter
begin

text \<open>
  The command line program: \<^verbatim>\<open>src/runners/BenchmarkRunner.cpp\<close> and \<^verbatim>\<open>src/main.cpp\<close>, which put the argument
  parser, the runners, the processors and the reports together. A run of threads follows a
  schedule, the list of the threads that make a step; it is an argument, and so is what the
  threads behind a processor do between two events.
\<close>

section \<open>Runs of threads\<close>

text \<open>
  \<^verbatim>\<open>run\<close> of the two merge runners. An exception that leaves a thread ends the process; a schedule that
  ends before the threads have joined says nothing: both are \<open>Undefined\<close>.
\<close>

definition run_threads ::
  "string \<Rightarrow> 'l line_parser \<Rightarrow> ('p \<Rightarrow> MarketDataEvent \<Rightarrow> 'p) \<Rightarrow> nat list \<Rightarrow> ('l, 'p) merge_net \<Rightarrow> 'p RunResult outcome" where
  "run_threads name parse process schedule net =
     (case net_run parse process net schedule of
        None \<Rightarrow> Undefined
      | Some net' \<Rightarrow> if net_finished parse net' then of_option (run_result name net') else Undefined)"

definition FlatMergeRunner_run ::
  "string line_parser \<Rightarrow> ('p \<Rightarrow> MarketDataEvent \<Rightarrow> 'p) \<Rightarrow> nat list \<Rightarrow> filesystem \<Rightarrow> path \<Rightarrow> InputFormat \<Rightarrow> 'p \<Rightarrow>
   'p RunResult outcome" where
  "FlatMergeRunner_run parse process schedule fs folder format processor =
     outcome_bind (of_sum (FlatMergeRunner_start fs folder format processor)) (run_threads ''flat'' parse process schedule)"

definition HierarchicalMergeRunner_run ::
  "string line_parser \<Rightarrow> ('p \<Rightarrow> MarketDataEvent \<Rightarrow> 'p) \<Rightarrow> nat list \<Rightarrow> filesystem \<Rightarrow> path \<Rightarrow> InputFormat \<Rightarrow> 'p \<Rightarrow>
   'p RunResult outcome" where
  "HierarchicalMergeRunner_run parse process schedule fs folder format processor =
     outcome_bind (of_sum (HierarchicalMergeRunner_start fs folder format processor))
       (run_threads ''hierarchy'' parse process schedule)"

text \<open>The result of a run without the processor.\<close>

definition without_processor :: "'p RunResult \<Rightarrow> unit RunResult" where
  "without_processor r =
     \<lparr>rr_strategy_name = rr_strategy_name r, rr_summary = rr_summary r, rr_diagnostics = rr_diagnostics r,
      rr_processor = ()\<rparr>"

section \<open>Processors with threads of their own\<close>

text \<open>
  What happens behind a processor between two calls: one list per call, taken from the front. Of a
  list only the steps of the threads count.
\<close>

fun is_thread_step :: "sharded_action \<Rightarrow> bool" where
  "is_thread_step (ShardEvent e) = False"
| "is_thread_step a = True"

fun sharded_process ::
  "long_division \<Rightarrow> sharded_action list list \<times> ShardedLobMarketDataEventProcessor outcome \<Rightarrow> MarketDataEvent \<Rightarrow>
   sharded_action list list \<times> ShardedLobMarketDataEventProcessor outcome" where
  "sharded_process ld ([], p) e = ([], outcome_bind p (sharded_run ld [ShardEvent e]))"
| "sharded_process ld (acts # later, p) e =
     (later, outcome_bind p (sharded_run ld (filter is_thread_step acts @ [ShardEvent e])))"

text \<open>The writer's thread makes so many steps before each event.\<close>

fun lob_process ::
  "long_division \<Rightarrow> nat list \<times> LobMarketDataEventProcessor \<Rightarrow> MarketDataEvent \<Rightarrow>
   nat list \<times> LobMarketDataEventProcessor" where
  "lob_process ld ([], p) e = ([], foldl (lob_step ld) p [LobEvent e])"
| "lob_process ld (n # later, p) e = (later, foldl (lob_step ld) p (replicate n LobWriterStep @ [LobEvent e]))"

section \<open>BenchmarkRunner.cpp\<close>

definition benchmarkLobConfig :: LobProcessorConfig where
  "benchmarkLobConfig =
     default_lob_config\<lparr>lc_snapshot_depth := 0, lc_snapshot_interval_events := 0, lc_max_snapshots := 0\<rparr>"

definition makeLobBenchmarkResult ::
  "long_division \<Rightarrow> InputFormat \<Rightarrow> u64 \<Rightarrow> LobMarketDataEventProcessor RunResult \<Rightarrow> BenchmarkResult" where
  "makeLobBenchmarkResult ld input_format lob_workers r =
     \<lparr>br_result = without_processor r, br_input_format = inputFormatName input_format, br_processor = ''lob'',
      br_unresolved_events = bm_unresolved_events (lp_books (rr_processor r)), br_lob_workers = lob_workers,
      br_lob_digest = BM_stableStateDigest ld (lp_books (rr_processor r))\<rparr>"

definition makeShardedLobBenchmarkResult ::
  "long_division \<Rightarrow> InputFormat \<Rightarrow> u64 \<Rightarrow>
   (sharded_action list list \<times> ShardedLobMarketDataEventProcessor outcome) RunResult \<Rightarrow> BenchmarkResult outcome" where
  "makeShardedLobBenchmarkResult ld input_format lob_workers r =
     outcome_bind (snd (rr_processor r)) (\<lambda>p.
     outcome_bind (of_option (SH_finish ld p)) (\<lambda>p1.
     outcome_bind (of_option (SH_totalUnresolvedEvents p1)) (\<lambda>(unresolved, p2).
     outcome_bind (of_option (SH_stableStateDigest ld p2)) (\<lambda>(digest, p3).
       Returns \<lparr>br_result = without_processor r, br_input_format = inputFormatName input_format,
                br_processor = ''lob-sharded-'' @ dec_u64 lob_workers, br_unresolved_events = unresolved,
                br_lob_workers = lob_workers, br_lob_digest = digest\<rparr>))))"

definition makeLoggingBenchmarkResult ::
  "InputFormat \<Rightarrow> LoggingMarketDataEventProcessor RunResult \<Rightarrow> BenchmarkResult" where
  "makeLoggingBenchmarkResult input_format r =
     \<lparr>br_result = without_processor r, br_input_format = inputFormatName input_format, br_processor = ''logging'',
      br_unresolved_events = 0, br_lob_workers = 0, br_lob_digest = []\<rparr>"

text \<open>What the environment decides of a benchmark: the schedules of its two runs.\<close>

record benchmark_run =
  bn_flat :: "nat list"
  bn_hierarchy :: "nat list"
  bn_flat_workers :: "sharded_action list list"
  bn_hierarchy_workers :: "sharded_action list list"

definition runLoggingBenchmark ::
  "string line_parser \<Rightarrow> benchmark_run \<Rightarrow> filesystem \<Rightarrow> path \<Rightarrow> InputFormat \<Rightarrow> BenchmarkResult list outcome" where
  "runLoggingBenchmark parse bn fs folder input_format =
     outcome_bind (FlatMergeRunner_run parse LG_processMarketDataEvent (bn_flat bn) fs folder input_format (LG_new 0))
       (\<lambda>r1. outcome_bind (HierarchicalMergeRunner_run parse LG_processMarketDataEvent (bn_hierarchy bn) fs folder
               input_format (LG_new 0))
          (\<lambda>r2. Returns [makeLoggingBenchmarkResult input_format r1, makeLoggingBenchmarkResult input_format r2]))"

text \<open>One of the two blocks of \<^verbatim>\<open>runLobBenchmark\<close>, which differ in the runner only.\<close>

definition lob_benchmark_run ::
  "long_division \<Rightarrow> InputFormat \<Rightarrow> u64 \<Rightarrow>
   (sharded_action list list \<times> ShardedLobMarketDataEventProcessor outcome \<Rightarrow>
    (sharded_action list list \<times> ShardedLobMarketDataEventProcessor outcome) RunResult outcome) \<Rightarrow>
   (LobMarketDataEventProcessor \<Rightarrow> LobMarketDataEventProcessor RunResult outcome) \<Rightarrow>
   sharded_action list list \<Rightarrow> BenchmarkResult outcome" where
  "lob_benchmark_run ld input_format lob_workers run_sharded_processor run_processor steps =
     (if 1 < lob_workers then
        outcome_bind (of_sum (SH_new (unat lob_workers) benchmarkLobConfig)) (\<lambda>p.
        outcome_bind (run_sharded_processor (steps, Returns p))
          (makeShardedLobBenchmarkResult ld input_format lob_workers))
      else
        outcome_bind (run_processor (LP_new benchmarkLobConfig))
          (\<lambda>r. Returns (makeLobBenchmarkResult ld input_format lob_workers r)))"

definition runLobBenchmark ::
  "string line_parser \<Rightarrow> long_division \<Rightarrow> benchmark_run \<Rightarrow> filesystem \<Rightarrow> path \<Rightarrow> InputFormat \<Rightarrow> u64 \<Rightarrow>
   BenchmarkResult list outcome" where
  "runLobBenchmark parse ld bn fs folder input_format lob_workers =
     outcome_bind
       (lob_benchmark_run ld input_format lob_workers
          (FlatMergeRunner_run parse (sharded_process ld) (bn_flat bn) fs folder input_format)
          (FlatMergeRunner_run parse (LP_processMarketDataEvent ld) (bn_flat bn) fs folder input_format)
          (bn_flat_workers bn)) (\<lambda>b1.
     outcome_bind
       (lob_benchmark_run ld input_format lob_workers
          (HierarchicalMergeRunner_run parse (sharded_process ld) (bn_hierarchy bn) fs folder input_format)
          (HierarchicalMergeRunner_run parse (LP_processMarketDataEvent ld) (bn_hierarchy bn) fs folder input_format)
          (bn_hierarchy_workers bn)) (\<lambda>b2.
     Returns [b1, b2]))"

section \<open>main.cpp\<close>

definition runConfiguredMode ::
  "string line_parser \<Rightarrow> ('p \<Rightarrow> MarketDataEvent \<Rightarrow> 'p) \<Rightarrow> nat list \<Rightarrow> filesystem \<Rightarrow> AppConfig \<Rightarrow> 'p \<Rightarrow> 'p RunResult outcome" where
  "runConfiguredMode parse process schedule fs c processor =
     (case ac_mode c of
        Standard \<Rightarrow> of_sum (StandardRunner_run parse process fs (ac_input_path c) processor)
      | Flat \<Rightarrow> FlatMergeRunner_run parse process schedule fs (ac_input_path c) (ac_input_format c) processor
      | Hierarchy \<Rightarrow> HierarchicalMergeRunner_run parse process schedule fs (ac_input_path c) (ac_input_format c) processor
      | Benchmark \<Rightarrow> Throws (runtime_error ''unsupported run mode'')
      | Help \<Rightarrow> Throws (runtime_error ''unsupported run mode''))"

text \<open>
  Everything around the program: the files, whether an output path can be prepared and opened, the
  parser of lines, the division of \<^verbatim>\<open>long double\<close>s, the clock and the schedules.
\<close>

record environment =
  env_fs :: filesystem
  env_create_directories :: "path \<Rightarrow> exn option"
  env_opens :: "path \<Rightarrow> bool"
  env_parse :: "string line_parser"
  env_division :: long_division
  env_timing :: timing
  env_benchmark_timing :: "timing list"
  env_schedule :: "nat list"
  env_benchmark :: benchmark_run
  env_sharded_steps :: "sharded_action list list"
  env_writer_steps :: "nat list"

text \<open>\<^verbatim>\<open>path::parent_path\<close>.\<close>

definition parent_path :: "path \<Rightarrow> path" where
  "parent_path p =
     (let d = rev (dropWhile (\<lambda>c. c \<noteq> CHR ''/'') (rev p)); e = rev (dropWhile (\<lambda>c. c = CHR ''/'') (rev d))
      in if e = [] then d else e)"

definition lob_config_of :: "AppConfig \<Rightarrow> LobProcessorConfig" where
  "lob_config_of c =
     \<lparr>lc_snapshot_depth = ac_snapshot_depth c, lc_snapshot_interval_events = ac_snapshot_interval_events c,
      lc_max_snapshots = ac_max_snapshots c, lc_snapshot_writer_mode = ac_snapshot_writer_mode c\<rparr>"

definition open_snapshot_output :: "environment \<Rightarrow> path \<Rightarrow> unit outcome" where
  "open_snapshot_output env p =
     (if p = [] then Returns ()
      else case (if parent_path p \<noteq> [] then env_create_directories env (parent_path p) else None) of
        Some x \<Rightarrow> Throws x
      | None \<Rightarrow> if env_opens env p then Returns ()
                else Throws (runtime_error (''cannot open snapshot output: '' @ p)))"

text \<open>
  What is written: the standard output, and the file of the snapshots when there is one. The
  snapshots of the order book processors come before their summary in either case.
\<close>

record program_output =
  out_text :: string
  out_file :: "(path \<times> string) option"

definition lob_output :: "AppConfig \<Rightarrow> string \<Rightarrow> string \<Rightarrow> program_output" where
  "lob_output c snapshots reports =
     (if ac_snapshot_output_path c = [] then \<lparr>out_text = snapshots @ reports, out_file = None\<rparr>
      else \<lparr>out_text = reports, out_file = Some (ac_snapshot_output_path c, snapshots)\<rparr>)"

definition run_sharded :: "environment \<Rightarrow> AppConfig \<Rightarrow> program_output outcome" where
  "run_sharded env c =
     outcome_bind (of_sum (SH_new (unat (ac_lob_workers c)) (lob_config_of c))) (\<lambda>p.
     outcome_bind (runConfiguredMode (env_parse env) (sharded_process (env_division env)) (env_schedule env) (env_fs env) c
       (env_sharded_steps env, Returns p)) (\<lambda>r.
     outcome_bind (snd (rr_processor r)) (\<lambda>p1.
     outcome_bind (of_option (SH_finish (env_division env) p1)) (\<lambda>p2.
     outcome_bind (of_option (SH_printFinalSummary (env_division env) p2)) (\<lambda>(summary, p3).
       Returns (lob_output c (sw_out (sh_snapshot_writer p3))
         (summary @ printRunResult (env_timing env) r (ac_verbose c) 0)))))))"

definition run_lob :: "environment \<Rightarrow> AppConfig \<Rightarrow> program_output outcome" where
  "run_lob env c =
     outcome_bind (runConfiguredMode (env_parse env) (lob_process (env_division env)) (env_schedule env) (env_fs env) c
       (env_writer_steps env, LP_new (lob_config_of c))) (\<lambda>r.
     outcome_bind (of_option (LP_finishSnapshots (env_division env) (snd (rr_processor r)))) (\<lambda>p.
       Returns (lob_output c (sw_out (lp_snapshot_writer p))
         (LP_printFinalSummary (env_division env) p @ printRunResult (env_timing env) r (ac_verbose c) 0))))"

definition run_benchmark :: "environment \<Rightarrow> AppConfig \<Rightarrow> program_output outcome" where
  "run_benchmark env c =
     (if ac_use_lob_processor c then
        outcome_bind (runLobBenchmark (env_parse env) (env_division env) (env_benchmark env) (env_fs env) (ac_input_path c)
          (ac_input_format c) (ac_lob_workers c))
        (\<lambda>results. Returns \<lparr>out_text = printLobBenchmarkResults (zip (env_benchmark_timing env) results), out_file = None\<rparr>)
      else
        outcome_bind (runLoggingBenchmark (env_parse env) (env_benchmark env) (env_fs env) (ac_input_path c)
          (ac_input_format c))
        (\<lambda>results. Returns \<lparr>out_text = printBenchmarkResults (zip (env_benchmark_timing env) results), out_file = None\<rparr>))"

definition run_summary :: "environment \<Rightarrow> AppConfig \<Rightarrow> program_output outcome" where
  "run_summary env c =
     outcome_bind (runConfiguredMode (env_parse env) HLP_processMarketDataEvent (env_schedule env) (env_fs env) c []) (\<lambda>r.
       Returns \<lparr>out_text = printHistoricalLobSummary (env_division env) (rr_processor r) (ac_lob_summary_depth c) @
                  printRunResult (env_timing env) r (ac_verbose c) 0, out_file = None\<rparr>)"

definition run_logging :: "environment \<Rightarrow> AppConfig \<Rightarrow> program_output outcome" where
  "run_logging env c =
     outcome_bind (runConfiguredMode (env_parse env) LG_processMarketDataEvent (env_schedule env) (env_fs env) c
       (LG_new (ac_max_events_to_print c))) (\<lambda>r.
       Returns \<lparr>out_text = lg_out (rr_processor r) @
                  printRunResult (env_timing env) r (ac_verbose c) (ac_max_events_to_print c), out_file = None\<rparr>)"

definition run_program :: "environment \<Rightarrow> AppConfig \<Rightarrow> program_output outcome" where
  "run_program env c =
     (if ac_mode c = Benchmark then run_benchmark env c
      else if ac_use_lob_processor c then
        outcome_bind (open_snapshot_output env (ac_snapshot_output_path c)) (\<lambda>_.
          if 1 < ac_lob_workers c then run_sharded env c else run_lob env c)
      else if ac_lob_summary c then run_summary env c
      else run_logging env c)"

fun what :: "exn \<Rightarrow> string" where
  "what (invalid_argument s) = s"
| "what (runtime_error s) = s"
| "what (logic_error s) = s"
| "what (out_of_range s) = s"

text \<open>
  The end of the process: exit code 0 with the output, exit code 1 with the text on the error
  stream, or no return from \<^verbatim>\<open>main\<close>.
\<close>

datatype exit = Exit0 program_output | Exit1 string | Aborted

definition main_program :: "environment \<Rightarrow> string \<Rightarrow> string list \<Rightarrow> exit" where
  "main_program env executable_name args =
     (case ArgsParser_parse (env_fs env) args of
        Inl (ArgsError e) \<Rightarrow> Exit1 (''Error: '' @ e @ newline @ newline @ ArgsParser_usage executable_name)
      | Inr c \<Rightarrow>
          if ac_mode c = Help then Exit0 \<lparr>out_text = ArgsParser_usage executable_name, out_file = None\<rparr>
          else (case run_program env c of
                  Returns out \<Rightarrow> Exit0 out
                | Throws x \<Rightarrow> Exit1 (''Error: '' @ what x @ newline)
                | Undefined \<Rightarrow> Aborted))"

section \<open>Runs as folds over the sorted events\<close>

lemma fair_round_length: "length (mn_threads net) = length (mn_threads net') \<Longrightarrow> fair_round net = fair_round net'"
  by (simp add: fair_round_def fun_eq_iff)

lemma event_queue_ok: obtains queue where "makeEventQueue = Inr queue"
  by (simp add: makeEventQueue_def NBQ_new_def event_queue_batch_size_def)

lemma flat_start_other:
  assumes "FlatMergeRunner_start fs folder format (p :: 'p) = Inr net"
  shows "\<exists>net'. FlatMergeRunner_start fs folder format (q :: 'q) = Inr net' \<and> fair_round net' = fair_round net"
proof -
  obtain queue where q: "makeEventQueue = Inr queue" by (rule event_queue_ok)
  show ?thesis
    using assms unfolding FlatMergeRunner_start_def q
    by (auto simp: flat_network_def Let_def intro!: fair_round_length split: sum.splits)
qed

lemma hierarchical_start_other:
  assumes "HierarchicalMergeRunner_start fs folder format (p :: 'p) = Inr net"
  shows "\<exists>net'. HierarchicalMergeRunner_start fs folder format (q :: 'q) = Inr net' \<and> fair_round net' = fair_round net"
proof -
  obtain queue where q: "makeEventQueue = Inr queue" by (rule event_queue_ok)
  show ?thesis
    using assms unfolding HierarchicalMergeRunner_start_def q
    by (auto simp: hierarchical_network_def intro!: fair_round_length split: sum.splits prod.splits)
qed

text \<open>The hypotheses on a folder: it starts, its files parse and are in order.\<close>

definition folder_parses ::
  "filesystem \<Rightarrow> path \<Rightarrow> string line_parser \<Rightarrow> MarketDataEvent list list \<Rightarrow> bool" where
  "folder_parses fs folder parse evs \<longleftrightarrow>
     (\<exists>files. discoverInputFiles fs folder Json = Inr files \<and> parsed_inputs parse (input_lines fs files) evs) \<and>
     numbers_events parse \<and> ordered_inputs evs"

definition long_fair :: "('l, 'p) merge_net \<Rightarrow> nat \<Rightarrow> nat list \<Rightarrow> bool" where
  "long_fair net bound schedule \<longleftrightarrow>
     (\<exists>rounds. schedule = concat rounds \<and> bound \<le> length rounds \<and> list_all (fair_round net) rounds)"

lemma flat_run:
  assumes start: "FlatMergeRunner_start fs folder Json (u :: 'u) = Inr net" and fp: "folder_parses fs folder parse evs"
  shows "\<exists>bound. \<forall>schedule. long_fair net bound schedule \<longrightarrow>
    FlatMergeRunner_run parse process schedule fs folder Json (processor :: 'p) =
      Returns (merged_result ''flat'' process processor evs)"
proof -
  from flat_start_other [OF start, of processor] obtain net' where net':
    "FlatMergeRunner_start fs folder Json processor = Inr net'" "fair_round net' = fair_round net" by blast
  from fp obtain files where "discoverInputFiles fs folder Json = Inr files"
    "parsed_inputs parse (input_lines fs files) evs" "numbers_events parse" "ordered_inputs evs"
    by (auto simp: folder_parses_def)
  from flat_network_result [OF net'(1) this, of process] net' show ?thesis
    by (fastforce simp: FlatMergeRunner_run_def run_threads_def long_fair_def)
qed

lemma hierarchical_run:
  assumes start: "HierarchicalMergeRunner_start fs folder Json (u :: 'u) = Inr net" and fp: "folder_parses fs folder parse evs"
  shows "\<exists>bound. \<forall>schedule. long_fair net bound schedule \<longrightarrow>
    HierarchicalMergeRunner_run parse process schedule fs folder Json (processor :: 'p) =
      Returns (merged_result ''hierarchy'' process processor evs)"
proof -
  from hierarchical_start_other [OF start, of processor] obtain net' where net':
    "HierarchicalMergeRunner_start fs folder Json processor = Inr net'" "fair_round net' = fair_round net" by blast
  from fp obtain files where "discoverInputFiles fs folder Json = Inr files"
    "parsed_inputs parse (input_lines fs files) evs" "numbers_events parse" "ordered_inputs evs"
    by (auto simp: folder_parses_def)
  from hierarchical_network_result [OF net'(1) this, of process] net' show ?thesis
    by (fastforce simp: HierarchicalMergeRunner_run_def run_threads_def long_fair_def)
qed

lemma long_fair_mono: "long_fair net b schedule \<Longrightarrow> a \<le> b \<Longrightarrow> long_fair net a schedule"
  by (auto simp: long_fair_def)

section \<open>The processors under a run\<close>

lemma sharded_events_append [simp]: "sharded_events (as @ bs) = sharded_events as @ sharded_events bs"
  by (induction as rule: sharded_events.induct) auto

lemma sharded_events_steps [simp]: "sharded_events (filter is_thread_step acts) = []"
  by (induction acts rule: sharded_events.induct) auto

lemma sharded_fold:
  "\<exists>acts later. foldl (sharded_process ld) (steps, p) es = (later, outcome_bind p (sharded_run ld acts)) \<and>
     sharded_events acts = es"
proof (induction es arbitrary: steps p)
  case Nil
  have "outcome_bind p (sharded_run ld []) = p" by (cases p) auto
  then show ?case by (intro exI [of _ "[]"] exI [of _ steps]) (simp del: sharded_run.simps)
next
  case (Cons e es)
  obtain before later where step: "sharded_process ld (steps, p) e = (later, outcome_bind p (sharded_run ld before))"
    "sharded_events before = [e]"
    by (cases steps) (fastforce intro: that)+
  from Cons.IH [of later "outcome_bind p (sharded_run ld before)"] obtain acts rest where
    "foldl (sharded_process ld) (later, outcome_bind p (sharded_run ld before)) es =
      (rest, outcome_bind (outcome_bind p (sharded_run ld before)) (sharded_run ld acts))" "sharded_events acts = es" by blast
  with step show ?case
    by (intro exI [of _ "before @ acts"] exI [of _ rest])
      (simp add: outcome_bind_assoc sharded_run_append)
qed

lemma lob_fold_books:
  "lp_books (foldl (LP_processMarketDataEvent ld) p es) = foldl BM_apply (lp_books p) es"
  by (induction es arbitrary: p) (simp_all add: LP_processMarketDataEvent_def LP_maybePrintSnapshot_def Let_def)

text \<open>The digest and the count a benchmark reports, whatever the processor.\<close>

definition reports_books :: "long_division \<Rightarrow> MarketDataEvent list \<Rightarrow> BenchmarkResult \<Rightarrow> bool" where
  "reports_books ld es b \<longleftrightarrow>
     br_lob_digest b = BM_stableStateDigest ld (foldl BM_apply BM_new es) \<and>
     br_unresolved_events b = bm_unresolved_events (foldl BM_apply BM_new es)"

lemma sharded_benchmark_result:
  assumes n: "0 < n" and match: "cancels_match Map.empty es" and len: "2 * length es < two64"
    and vol: "sum_list (map added_volume es) < two64"
    and sh0: "SH_new n c = Inr sh0" and r: "rr_processor r = foldl (sharded_process ld) (steps, Returns sh0) es"
  shows "\<exists>b. makeShardedLobBenchmarkResult ld format lob_workers r = Returns b \<and> br_result b = without_processor r \<and>
    reports_books ld es b"
proof -
  from sharded_fold [of ld steps "Returns sh0" es] obtain acts later where
    acts: "rr_processor r = (later, sharded_run ld acts sh0)" "sharded_events acts = es" unfolding r by auto
  obtain sh0' sh sh1 where run: "SH_new n c = Inr sh0'" "sharded_run ld acts sh0' = Returns sh" "SH_finish ld sh = Some sh1"
    "SH_done es sh1"
    by (rule sharded_full_run [of n acts c ld]) (use n match len acts(2) in auto)
  from SH_done_unresolved [OF run(4)] obtain sh2 where sh2:
    "SH_totalUnresolvedEvents sh1 = Some (bm_unresolved_events (foldl BM_apply BM_new es), sh2)" "SH_done es sh2" by blast
  from SH_done_digest [OF sh2(2) vol, of ld] obtain sh3 where
    "SH_stableStateDigest ld sh2 = Some (BM_stableStateDigest ld (foldl BM_apply BM_new es), sh3)" by blast
  with run sh2 acts(1) sh0 show ?thesis by (simp add: makeShardedLobBenchmarkResult_def reports_books_def)
qed

lemma rr_merged [simp]:
  "rr_processor (merged_result name process processor evs) = foldl process processor (sort_key event_key (concat evs))"
  "rr_strategy_name (merged_result name process processor evs) = name"
  "rr_summary (merged_result name process processor evs) =
    foldl ProcessingSummary_observe ProcessingSummary_new (sort_key event_key (concat evs))"
  by (simp_all add: merged_result_def Let_def)

lemma lob_benchmark_run_ok:
  assumes n: "0 < lob_workers" and match: "cancels_match Map.empty es"
    and len: "2 * length es < two64" and vol: "sum_list (map added_volume es) < two64"
    and es: "es = sort_key event_key (concat evs)" and sh0: "SH_new (unat lob_workers) benchmarkLobConfig = Inr sh0"
    and runS: "runS (steps, Returns sh0) = Returns (merged_result name (sharded_process ld) (steps, Returns sh0) evs)"
    and runL: "runL (LP_new benchmarkLobConfig) =
      Returns (merged_result name (LP_processMarketDataEvent ld) (LP_new benchmarkLobConfig) evs)"
  shows "\<exists>b. lob_benchmark_run ld Json lob_workers runS runL steps = Returns b \<and>
    rr_strategy_name (br_result b) = name \<and> reports_books ld es b"
proof (cases "1 < lob_workers")
  case True
  let ?r = "merged_result name (sharded_process ld) (steps, Returns sh0) evs"
  have n': "0 < unat lob_workers" using n by (simp add: word_less_nat_alt)
  from sharded_benchmark_result [OF n' match len vol sh0, of ?r ld steps Json lob_workers] es obtain b where
    "makeShardedLobBenchmarkResult ld Json lob_workers ?r = Returns b" "br_result b = without_processor ?r"
      "reports_books ld es b" by auto
  with True sh0 runS show ?thesis by (simp add: lob_benchmark_run_def) (simp add: without_processor_def)
next
  case False
  let ?r = "merged_result name (LP_processMarketDataEvent ld) (LP_new benchmarkLobConfig) evs"
  have "lp_books (rr_processor ?r) = foldl BM_apply BM_new es"
    by (simp add: es lob_fold_books) (simp add: LP_new_def)
  with False runL show ?thesis
    by (simp add: lob_benchmark_run_def makeLobBenchmarkResult_def reports_books_def without_processor_def)
qed

lemma sharded_new_ok: "0 < n \<Longrightarrow> \<exists>sh0. SH_new n c = Inr sh0"
  by (rule sharded_full_run [of n "[]" c]) (auto simp: two64_def)

section \<open>A line that does not parse\<close>

text \<open>Thread \<open>k\<close> is a producer that will reach a line that does not parse.\<close>

definition fails_at :: "'l line_parser \<Rightarrow> nat \<Rightarrow> ('l, 'p) merge_net \<Rightarrow> nat \<Rightarrow> bool" where
  "fails_at parse k net n \<longleftrightarrow>
     k < length (mn_threads net) \<and>
     (\<exists>p x. mn_threads net ! k = Producer p \<and> pr_pc p = PReading \<and> producer_left parse p = Inl x \<and> length (pr_lines p) = n)"

lemma fails_not_finished: "fails_at parse k net n \<Longrightarrow> \<not> net_finished parse net"
proof
  assume "fails_at parse k net n" "net_finished parse net"
  then obtain p x where p: "mn_threads net ! k = Producer p" "pr_pc p = PReading" "producer_left parse p = Inl x"
    "thread_request parse (mn_threads net ! k) = RHalt"
    by (auto simp: fails_at_def net_finished_def list_all_length)
  then show False by (auto simp: producer_request_def Let_def split: list.splits sum.splits)
qed

lemma net_step_other:
  assumes "net_step parse process net j = Some net'" and "j \<noteq> k"
  shows "length (mn_threads net') = length (mn_threads net)" and "mn_threads net' ! k = mn_threads net ! k"
  using assms
  by (auto simp: net_step_def Let_def split: if_splits request.splits Option.bind_splits option.splits prod.splits)

lemma fails_step:
  assumes fails: "fails_at parse k net n" and step: "net_step parse process net j = Some net'"
  shows "if j = k then 0 < n \<and> fails_at parse k net' (n - 1) else fails_at parse k net' n"
proof (cases "j = k")
  case False
  with net_step_other [OF step] fails show ?thesis by (simp add: fails_at_def)
next
  case True
  from fails obtain p x where p: "mn_threads net ! k = Producer p" "pr_pc p = PReading" "producer_left parse p = Inl x"
    "length (pr_lines p) = n" and k: "k < length (mn_threads net)" by (auto simp: fails_at_def)
  from p(3) obtain line rest where l: "pr_lines p = line # rest" by (cases "pr_lines p") (auto simp: producer_left_def)
  from step True k p l obtain e where e: "parse line (pr_line_number p + 1) (of_nat (pr_index p)) (pr_line_number p + 1) = Inr e"
    by (auto simp: net_step_def producer_request_def Let_def split: sum.splits)
  with step True k p l have "mn_threads net' = (mn_threads net)[k := Producer (producer_written p)]"
    by (auto simp: net_step_def producer_request_def Let_def split: if_splits)
  moreover have "producer_left parse (producer_written p) = Inl x"
    using p(2,3) l e by (auto simp: producer_left_def producer_written_def split: sum.splits)
  moreover have "pr_pc (producer_written p) = PReading" "length (pr_lines (producer_written p)) = n - 1" "0 < n"
    using p(2,4) l by (auto simp: producer_written_def)
  ultimately show ?thesis using True k by (simp add: fails_at_def)
qed

lemma fails_run:
  "fails_at parse k net n \<Longrightarrow>
   (case net_run parse process net ks of None \<Rightarrow> True
    | Some net' \<Rightarrow> count_list ks k \<le> n \<and> fails_at parse k net' (n - count_list ks k))"
proof (induction ks arbitrary: net n)
  case (Cons j ks)
  show ?case
  proof (cases "net_step parse process net j")
    case (Some net1)
    from fails_step [OF Cons.prems Some] show ?thesis
    proof (cases "j = k")
      case True
      with fails_step [OF Cons.prems Some] Cons.IH [of net1 "n - 1"] Some show ?thesis by (auto split: option.splits)
    next
      case False
      with fails_step [OF Cons.prems Some] Cons.IH [of net1 n] Some show ?thesis by (auto split: option.splits)
    qed
  qed simp
qed simp

lemma merge_network_fails:
  assumes "i < length inputs" and "parse_lines parse (of_nat i) 0 (inputs ! i) = Inl x"
  shows "fails_at parse i (merge_network queue inputs ms final processor) (length (inputs ! i))"
  using assms by (simp add: fails_at_def merge_network_def nth_append producer_new_def producer_left_def)

lemma networks_fail:
  assumes "i < length inputs" and "parse_lines parse (of_nat i) 0 (inputs ! i) = Inl x"
  shows "fails_at parse i (flat_network queue (replicate (length inputs) queue) (input_producers inputs) processor)
      (length (inputs ! i))"
    and "fails_at parse i (hierarchical_network queue (replicate (length inputs) queue) (input_producers inputs) processor)
      (length (inputs ! i))"
proof -
  show "fails_at parse i (flat_network queue (replicate (length inputs) queue) (input_producers inputs) processor)
      (length (inputs ! i))"
    unfolding flat_network_shape by (rule merge_network_fails [OF assms])
  have "inputs \<noteq> []" using assms(1) by auto
  from hierarchical_network_shape [OF this] merge_network_fails [OF assms]
  show "fails_at parse i (hierarchical_network queue (replicate (length inputs) queue) (input_producers inputs) processor)
      (length (inputs ! i))" by metis
qed

text \<open>Whatever the schedule, such a run does not return; a schedule that lets the producer move often
  enough ends the process.\<close>

lemma run_threads_fails:
  assumes "fails_at parse k net n"
  shows "run_threads name parse process schedule net = Undefined"
    and "n < count_list schedule k \<Longrightarrow> net_run parse process net schedule = None"
  using fails_run [OF assms, where process = process and ks = schedule] fails_not_finished
  by (auto simp: run_threads_def split: option.splits)

lemma standard_loop_fails:
  "parse_lines parse 0 n lines = Inl x \<Longrightarrow> standard_loop parse process n r lines = Inl x"
  by (induction lines arbitrary: n r) (auto split: sum.splits)

text \<open>A folder whose files can be read, one of them with a line that does not parse.\<close>

definition folder_fails :: "filesystem \<Rightarrow> path \<Rightarrow> string line_parser \<Rightarrow> nat \<Rightarrow> exn \<Rightarrow> bool" where
  "folder_fails fs folder parse i x \<longleftrightarrow>
     (\<exists>files. discoverInputFiles fs folder Json = Inr files \<and> validateReadableFiles fs files = Inr () \<and>
        i < length files \<and> parse_lines parse (of_nat i) 0 (the (fs_lines fs (files ! i))) = Inl x)"

lemma folder_fails_starts:
  assumes "folder_fails fs folder parse i x"
  shows "\<exists>net n. FlatMergeRunner_start fs folder Json processor = Inr net \<and> fails_at parse i net n"
    and "\<exists>net n. HierarchicalMergeRunner_start fs folder Json processor = Inr net \<and> fails_at parse i net n"
proof -
  from assms obtain files where f: "discoverInputFiles fs folder Json = Inr files" "validateReadableFiles fs files = Inr ()"
    "i < length files" "parse_lines parse (of_nat i) 0 (the (fs_lines fs (files ! i))) = Inl x"
    by (auto simp: folder_fails_def)
  obtain queue where q: "makeEventQueue = Inr queue" by (rule event_queue_ok)
  have i: "i < length (input_lines fs files)" "parse_lines parse (of_nat i) 0 (input_lines fs files ! i) = Inl x"
    using f(3,4) by (simp_all add: input_lines_def)
  have "\<exists>net. FlatMergeRunner_start fs folder Json processor = Inr net"
    unfolding FlatMergeRunner_start_def startProducerThreads_def f(1) by (simp add: f(2) q)
  then obtain net where net: "FlatMergeRunner_start fs folder Json processor = Inr net" by blast
  have "fails_at parse i net (length (input_lines fs files ! i))"
    by (rule flat_start [OF net f(1)]) (simp add: networks_fail(1) [OF i])
  with net show "\<exists>net n. FlatMergeRunner_start fs folder Json processor = Inr net \<and> fails_at parse i net n" by blast
  have "\<exists>net. HierarchicalMergeRunner_start fs folder Json processor = Inr net"
    unfolding HierarchicalMergeRunner_start_def startProducerThreads_def f(1) by (simp add: f(2) q)
  then obtain net2 where net2: "HierarchicalMergeRunner_start fs folder Json processor = Inr net2" by blast
  have "fails_at parse i net2 (length (input_lines fs files ! i))"
    by (rule hierarchical_start [OF net2 f(1)]) (simp add: networks_fail(2) [OF i])
  with net2 show "\<exists>net n. HierarchicalMergeRunner_start fs folder Json processor = Inr net \<and> fails_at parse i net n" by blast
qed

lemma configured_mode_fails:
  assumes "folder_fails fs (ac_input_path c) parse i x" and "ac_mode c = Flat \<or> ac_mode c = Hierarchy"
    and "ac_input_format c = Json"
  shows "runConfiguredMode parse process schedule fs c processor = Undefined"
proof -
  from folder_fails_starts [OF assms(1), of processor] obtain net1 n1 net2 n2 where
    "FlatMergeRunner_start fs (ac_input_path c) Json processor = Inr net1" "fails_at parse i net1 n1"
    "HierarchicalMergeRunner_start fs (ac_input_path c) Json processor = Inr net2" "fails_at parse i net2 n2" by blast
  with assms(2,3) run_threads_fails(1) show ?thesis
    by (auto simp: runConfiguredMode_def FlatMergeRunner_run_def HierarchicalMergeRunner_run_def)
qed

lemma configured_mode_standard:
  assumes "ac_mode c = Standard" and "fs_exists fs (ac_input_path c)" and "fs_is_regular_file fs (ac_input_path c)"
    and "fs_lines fs (ac_input_path c) = Some lines" and "parse_lines parse 0 0 lines = Inl x"
  shows "runConfiguredMode parse process schedule fs c processor = Throws x"
  using assms by (simp add: runConfiguredMode_def StandardRunner_run_def standard_loop_fails)

text \<open>Whichever processor the options choose, a run that does not return is not reported on.\<close>

lemma run_program_fails:
  assumes ok: "app_config_ok (env_fs env) c" and mode: "ac_mode c = Flat \<or> ac_mode c = Hierarchy"
    and out: "open_snapshot_output env (ac_snapshot_output_path c) = Returns ()"
    and fails: "folder_fails (env_fs env) (ac_input_path c) (env_parse env) i x" "ac_input_format c = Json"
  shows "run_program env c = Undefined"
proof -
  have "0 < unat (ac_lob_workers c)" using ok by (simp add: app_config_ok_def unat_gt_0)
  then obtain sh0 where "SH_new (unat (ac_lob_workers c)) (lob_config_of c) = Inr sh0" using sharded_new_ok by blast
  with out mode show ?thesis
    by (auto simp: run_program_def run_sharded_def run_lob_def run_summary_def run_logging_def
        configured_mode_fails [OF fails(1) mode fails(2)])
qed

lemma run_program_standard:
  assumes ok: "app_config_ok (env_fs env) c" and mode: "ac_mode c = Standard"
    and out: "open_snapshot_output env (ac_snapshot_output_path c) = Returns ()"
    and fails: "fs_lines (env_fs env) (ac_input_path c) = Some lines" "parse_lines (env_parse env) 0 0 lines = Inl x"
  shows "run_program env c = Throws x"
proof -
  have "0 < unat (ac_lob_workers c)" using ok by (simp add: app_config_ok_def unat_gt_0)
  then obtain sh0 where "SH_new (unat (ac_lob_workers c)) (lob_config_of c) = Inr sh0" using sharded_new_ok by blast
  moreover have input: "fs_exists (env_fs env) (ac_input_path c)" "fs_is_regular_file (env_fs env) (ac_input_path c)"
    using ok mode by (simp_all add: app_config_ok_def)
  ultimately show ?thesis using out mode
    by (auto simp: run_program_def run_sharded_def run_lob_def run_summary_def run_logging_def
        configured_mode_standard [OF mode input fails])
qed

section \<open>Properties\<close>

text \<open>
  C35: The benchmark of the order books compares like with like. Let every line of the folder parse,
  each file be in order of time, every cancellation name the instrument under which its order
  rests, and the added volume fit in 64 bits. Then, for every positive number of workers and every
  interleaving of the worker threads, once the schedules of the two runs have been fair for long
  enough, the flat and the hierarchical run both return, and the digest and the number of
  unresolved events they report are those of one \<^verbatim>\<open>BookManager\<close> applied to all events in
  chronological order. Without the condition on cancellations two workers may differ from one,
  as \<open>ShardedProcessor\<close> shows.
\<close>

theorem lob_benchmark_agrees:
  assumes flat: "FlatMergeRunner_start fs folder Json () = Inr net1"
    and hier: "HierarchicalMergeRunner_start fs folder Json () = Inr net2"
    and fp: "folder_parses fs folder parse evs" and es: "es = sort_key event_key (concat evs)"
    and n: "0 < lob_workers" and match: "cancels_match Map.empty es"
    and len: "2 * length es < two64" and vol: "sum_list (map added_volume es) < two64"
  shows "\<exists>bound. \<forall>schedule1 schedule2. long_fair net1 bound schedule1 \<and> long_fair net2 bound schedule2 \<longrightarrow>
    (\<exists>b1 b2. runLobBenchmark parse ld \<lparr>bn_flat = schedule1, bn_hierarchy = schedule2,
          bn_flat_workers = steps1, bn_hierarchy_workers = steps2\<rparr> fs folder Json lob_workers = Returns [b1, b2] \<and>
       rr_strategy_name (br_result b1) = ''flat'' \<and> rr_strategy_name (br_result b2) = ''hierarchy'' \<and>
       reports_books ld es b1 \<and> reports_books ld es b2)"
proof -
  have "0 < unat lob_workers" using n by (simp add: word_less_nat_alt)
  then obtain sh0 where sh0: "SH_new (unat lob_workers) benchmarkLobConfig = Inr sh0" using sharded_new_ok by blast
  note row = lob_benchmark_run_ok [OF n match len vol es sh0]
  from flat_run [OF flat fp, of "sharded_process ld" "(steps1, Returns sh0)"] obtain b1 where b1:
    "\<And>schedule. long_fair net1 b1 schedule \<Longrightarrow> FlatMergeRunner_run parse (sharded_process ld) schedule fs folder Json
      (steps1, Returns sh0) = Returns (merged_result ''flat'' (sharded_process ld) (steps1, Returns sh0) evs)" by blast
  from flat_run [OF flat fp, of "LP_processMarketDataEvent ld" "LP_new benchmarkLobConfig"] obtain b2 where b2:
    "\<And>schedule. long_fair net1 b2 schedule \<Longrightarrow>
      FlatMergeRunner_run parse (LP_processMarketDataEvent ld) schedule fs folder Json (LP_new benchmarkLobConfig) =
      Returns (merged_result ''flat'' (LP_processMarketDataEvent ld) (LP_new benchmarkLobConfig) evs)" by blast
  from hierarchical_run [OF hier fp, of "sharded_process ld" "(steps2, Returns sh0)"] obtain b3 where b3:
    "\<And>schedule. long_fair net2 b3 schedule \<Longrightarrow> HierarchicalMergeRunner_run parse (sharded_process ld) schedule fs folder Json
      (steps2, Returns sh0) = Returns (merged_result ''hierarchy'' (sharded_process ld) (steps2, Returns sh0) evs)" by blast
  from hierarchical_run [OF hier fp, of "LP_processMarketDataEvent ld" "LP_new benchmarkLobConfig"] obtain b4 where b4:
    "\<And>schedule. long_fair net2 b4 schedule \<Longrightarrow>
      HierarchicalMergeRunner_run parse (LP_processMarketDataEvent ld) schedule fs folder Json (LP_new benchmarkLobConfig) =
      Returns (merged_result ''hierarchy'' (LP_processMarketDataEvent ld) (LP_new benchmarkLobConfig) evs)" by blast
  let ?bound = "max (max b1 b2) (max b3 b4)"
  show ?thesis
  proof (intro exI [of _ ?bound] allI impI)
    fix schedule1 schedule2
    assume fair: "long_fair net1 ?bound schedule1 \<and> long_fair net2 ?bound schedule2"
    then have f: "long_fair net1 b1 schedule1" "long_fair net1 b2 schedule1" "long_fair net2 b3 schedule2"
      "long_fair net2 b4 schedule2"
      by (auto intro: long_fair_mono)
    note flat_row = row [where runS = "FlatMergeRunner_run parse (sharded_process ld) schedule1 fs folder Json"
        and runL = "FlatMergeRunner_run parse (LP_processMarketDataEvent ld) schedule1 fs folder Json"]
    note hierarchy_row = row [where runS = "HierarchicalMergeRunner_run parse (sharded_process ld) schedule2 fs folder Json"
        and runL = "HierarchicalMergeRunner_run parse (LP_processMarketDataEvent ld) schedule2 fs folder Json"]
    from flat_row [OF b1 [OF f(1)] b2 [OF f(2)]] hierarchy_row [OF b3 [OF f(3)] b4 [OF f(4)]]
    show "\<exists>b1 b2. runLobBenchmark parse ld \<lparr>bn_flat = schedule1, bn_hierarchy = schedule2,
          bn_flat_workers = steps1, bn_hierarchy_workers = steps2\<rparr> fs folder Json lob_workers = Returns [b1, b2] \<and>
       rr_strategy_name (br_result b1) = ''flat'' \<and> rr_strategy_name (br_result b2) = ''hierarchy'' \<and>
       reports_books ld es b1 \<and> reports_books ld es b2"
      by (auto simp: runLobBenchmark_def)
  qed
qed

definition demo_schedule :: "('l, 'p) merge_net \<Rightarrow> nat \<Rightarrow> nat list" where
  "demo_schedule net n = concat (replicate n [0..<length (mn_threads net)])"

lemma demo_long_fair: "long_fair net n (demo_schedule net n)"
  unfolding long_fair_def demo_schedule_def using fair_bound fair_replicate by blast

theorem lob_benchmark_agrees_witness:
  "\<exists>bn b1 b2. runLobBenchmark demo_parse (\<lambda>x y. of_int x / of_int y) bn demo_fs ''d'' Json 3 = Returns [b1, b2] \<and>
     bn_flat_workers bn = [[ShardWorkerStep 0]] \<and> br_lob_digest b1 = br_lob_digest b2 \<and>
     br_lob_digest b1 = ''processed_events=3;unresolved_events=3;instrument_count=0'' \<and> br_unresolved_events b2 = 3"
proof -
  obtain net1 where flat: "FlatMergeRunner_start demo_fs ''d'' Json () = Inr net1" using demo_flat_start [of "()"] by blast
  obtain net2 where hier: "HierarchicalMergeRunner_start demo_fs ''d'' Json () = Inr net2"
    using demo_hierarchical_start [of "()"] by blast
  have fp: "folder_parses demo_fs ''d'' demo_parse demo_inputs"
    using demo_discover demo_parsed demo_numbers demo_ordered by (auto simp: folder_parses_def)
  define es where "es = sort_key event_key (concat demo_inputs)"
  have n: "0 < (3 :: u64)" by simp
  have "cancels_match Map.empty es" by (simp add: es_def demo_inputs_def sort_key_def cancel_matches_def default_event_def)
  moreover have "2 * length es < two64" "sum_list (map added_volume es) < two64"
    by (simp_all add: es_def demo_inputs_def sort_key_def two64_def added_volume_def default_event_def)
  ultimately obtain bound where b: "\<forall>schedule1 schedule2. long_fair net1 bound schedule1 \<and> long_fair net2 bound schedule2 \<longrightarrow>
    (\<exists>b1 b2. runLobBenchmark demo_parse (\<lambda>x y. of_int x / of_int y) \<lparr>bn_flat = schedule1, bn_hierarchy = schedule2,
          bn_flat_workers = [[ShardWorkerStep 0]], bn_hierarchy_workers = []\<rparr> demo_fs ''d'' Json 3 = Returns [b1, b2] \<and>
       rr_strategy_name (br_result b1) = ''flat'' \<and> rr_strategy_name (br_result b2) = ''hierarchy'' \<and>
       reports_books (\<lambda>x y. of_int x / of_int y) es b1 \<and> reports_books (\<lambda>x y. of_int x / of_int y) es b2)"
    using lob_benchmark_agrees [OF flat hier fp es_def n, of "\<lambda>x y. of_int x / of_int y" "[[ShardWorkerStep 0]]" "[]"] by blast
  have books: "foldl BM_apply BM_new es = BM_new\<lparr>bm_processed_events := 3, bm_unresolved_events := 3\<rparr>"
    by (simp add: es_def demo_inputs_def sort_key_def default_event_def BM_apply_def BM_resolveInstrumentId_def BM_new_def Let_def)
  have "BM_stableStateDigest (\<lambda>x y. of_int x / of_int y) (BM_new\<lparr>bm_processed_events := 3, bm_unresolved_events := 3\<rparr>) =
      ''processed_events=3;unresolved_events=3;instrument_count=0''"
    by (simp add: BM_stableStateDigest_def BM_new_def BM_instrumentCount_def sorted_books_def sortedInstrumentIds_def
        dec_of_nat.simps digit_char_def map_filter_simps) code_simp
  with b [rule_format, OF conjI [OF demo_long_fair demo_long_fair]] show ?thesis
    by (fastforce simp: reports_books_def books)
qed

text \<open>
  C36: What a line that does not parse does to the program, whatever the processor. In standard mode
  \<^verbatim>\<open>main\<close> reports the error of the first such line and returns 1. In the flat and the hierarchical mode the
  exception leaves a producer thread: \<^verbatim>\<open>main\<close> never returns, neither with a result nor with an error
  message, and every schedule that lets that producer move more often than its file has lines
  ends the process.
\<close>

theorem malformed_line_outcome:
  assumes parsed: "ArgsParser_parse (env_fs env) args = Inr c"
    and out: "open_snapshot_output env (ac_snapshot_output_path c) = Returns ()"
  shows "(ac_mode c = Standard \<and> fs_lines (env_fs env) (ac_input_path c) = Some lines \<and>
      parse_lines (env_parse env) 0 0 lines = Inl x \<longrightarrow>
      main_program env exe args = Exit1 (''Error: '' @ what x @ newline)) \<and>
    ((ac_mode c = Flat \<or> ac_mode c = Hierarchy) \<and> ac_input_format c = Json \<and>
      folder_fails (env_fs env) (ac_input_path c) (env_parse env) i x \<longrightarrow>
      main_program env exe args = Aborted \<and>
      (\<exists>net n. (if ac_mode c = Flat then FlatMergeRunner_start (env_fs env) (ac_input_path c) Json processor
          else HierarchicalMergeRunner_start (env_fs env) (ac_input_path c) Json processor) = Inr net \<and>
        (\<forall>schedule. n < count_list schedule i \<longrightarrow> net_run (env_parse env) process net schedule = None)))"
proof (intro conjI impI)
  assume std: "ac_mode c = Standard \<and> fs_lines (env_fs env) (ac_input_path c) = Some lines \<and>
      parse_lines (env_parse env) 0 0 lines = Inl x"
  then have "app_config_ok (env_fs env) c" using args_accepted [OF parsed] by simp
  from run_program_standard [OF this _ out] std have "run_program env c = Throws x" by blast
  with parsed std show "main_program env exe args = Exit1 (''Error: '' @ what x @ newline)"
    by (simp add: main_program_def)
next
  assume merge: "(ac_mode c = Flat \<or> ac_mode c = Hierarchy) \<and> ac_input_format c = Json \<and>
      folder_fails (env_fs env) (ac_input_path c) (env_parse env) i x"
  then have "app_config_ok (env_fs env) c" using args_accepted [OF parsed] by auto
  from run_program_fails [OF this _ out] merge have "run_program env c = Undefined" by blast
  with parsed merge show "main_program env exe args = Aborted" by (auto simp: main_program_def)
  from merge folder_fails_starts [of "env_fs env" "ac_input_path c" "env_parse env" i x processor]
  obtain net n where net: "(if ac_mode c = Flat then FlatMergeRunner_start (env_fs env) (ac_input_path c) Json processor
      else HierarchicalMergeRunner_start (env_fs env) (ac_input_path c) Json processor) = Inr net"
    "fails_at (env_parse env) i net n" by (cases "ac_mode c = Flat") auto
  from net run_threads_fails(2) [OF net(2)]
  show "\<exists>net n. (if ac_mode c = Flat then FlatMergeRunner_start (env_fs env) (ac_input_path c) Json processor
          else HierarchicalMergeRunner_start (env_fs env) (ac_input_path c) Json processor) = Inr net \<and>
        (\<forall>schedule. n < count_list schedule i \<longrightarrow> net_run (env_parse env) process net schedule = None)"
    by (intro exI [of _ net] exI [of _ n]) auto
qed

definition bad_fs :: filesystem where
  "bad_fs = demo_fs\<lparr>fs_lines := (\<lambda>p. Some (if p = ''d/A.ndjson'' then [''a'', []] else [''b'']))\<rparr>"

definition demo_environment :: "filesystem \<Rightarrow> environment" where
  "demo_environment fs =
     \<lparr>env_fs = fs, env_create_directories = (\<lambda>_. None), env_opens = (\<lambda>_. True), env_parse = demo_parse,
      env_division = (\<lambda>x y. of_int x / of_int y),
      env_timing = \<lparr>tm_positive = False, tm_seconds = [], tm_throughput = (\<lambda>_ _. [])\<rparr>, env_benchmark_timing = [],
      env_schedule = [], env_benchmark = \<lparr>bn_flat = [], bn_hierarchy = [], bn_flat_workers = [], bn_hierarchy_workers = []\<rparr>,
      env_sharded_steps = [], env_writer_steps = []\<rparr>"

theorem malformed_line_outcome_witness:
  "main_program (demo_environment bad_fs) ''ingest'' [''d/A.ndjson''] = Exit1 (''Error: empty line'' @ newline) \<and>
   main_program (demo_environment bad_fs) ''ingest'' [''flat'', ''d''] = Aborted"
proof -
  let ?env = "demo_environment bad_fs"
  let ?file = "default_app_config\<lparr>ac_mode := Standard, ac_input_path := ''d/A.ndjson''\<rparr>"
  let ?folder = "default_app_config\<lparr>ac_mode := Flat, ac_input_path := ''d''\<rparr>"
  have args: "ArgsParser_parse (env_fs ?env) [''d/A.ndjson''] = Inr ?file" "ArgsParser_parse (env_fs ?env) [''flat'', ''d''] = Inr ?folder"
    by code_simp+
  have out: "open_snapshot_output ?env (ac_snapshot_output_path ?file) = Returns ()"
    "open_snapshot_output ?env (ac_snapshot_output_path ?folder) = Returns ()"
    by (simp_all add: open_snapshot_output_def default_app_config_def)
  have "ac_mode ?file = Standard \<and> fs_lines (env_fs ?env) (ac_input_path ?file) = Some [''a'', []] \<and>
      parse_lines (env_parse ?env) 0 0 [''a'', []] = Inl (runtime_error ''empty line'')"
    by (simp add: demo_environment_def bad_fs_def demo_parse_def)
  from malformed_line_outcome [OF args(1) out(1), THEN conjunct1, THEN mp, OF this] have
    "main_program ?env ''ingest'' [''d/A.ndjson''] = Exit1 (''Error: empty line'' @ newline)" by simp
  moreover have "folder_fails (env_fs ?env) (ac_input_path ?folder) (env_parse ?env) 0 (runtime_error ''empty line'')"
  proof -
    have "discoverInputFiles bad_fs ''d'' Json = Inr [''d/A.ndjson'', ''d/b.json'']" by code_simp
    then show ?thesis by (simp add: folder_fails_def demo_environment_def) (simp add: bad_fs_def demo_fs_def demo_parse_def)
  qed
  then have "(ac_mode ?folder = Flat \<or> ac_mode ?folder = Hierarchy) \<and> ac_input_format ?folder = Json \<and>
      folder_fails (env_fs ?env) (ac_input_path ?folder) (env_parse ?env) 0 (runtime_error ''empty line'')"
    by (simp add: default_app_config_def)
  from malformed_line_outcome [OF args(2) out(2), THEN conjunct2, THEN mp, OF this, THEN conjunct1]
  have "main_program ?env ''ingest'' [''flat'', ''d''] = Aborted" .
  ultimately show ?thesis by simp
qed

end
