(* ===== verification/SourceRows.thy ===== *)
theory SourceRows
  imports JsonParser
begin

text \<open>
  The rows of the input data, between the files and the two readers. A row is the texts and numbers
  of its fields; a line of JSON carries a row when simdjson presents these texts, and
  \<^verbatim>\<open>scripts/convert_to_feather.py\<close> writes them into columns. simdjson stays an argument: what the
  theorems need of it is stated of the tokens of the one row. As its documentation says of
  \<^verbatim>\<open>raw_json_token\<close>, a token may be followed by white space, and a string comes with its quotes. Strings
  are without escapes. The fields may come in any order, the time and the instrument inside or
  outside of \<^verbatim>\<open>hd\<close>, and unknown fields are ignored.
\<close>

section \<open>Rows\<close>

record source_row =
  sr_ts_recv :: "string option"
  sr_ts_event :: string
  sr_instrument_id :: u64
  sr_order_id :: string
  sr_side :: string
  sr_action :: string
  sr_price :: "string option"
  sr_size :: u64

text \<open>What the texts of a row stand for; \<open>None\<close> where parsing one of them is undefined.\<close>

definition source_event :: "source_row \<Rightarrow> MarketDataEvent option" where
  "source_event sr =
     Option.bind (case sr_ts_recv sr of None \<Rightarrow> Some 0 | Some t \<Rightarrow> parseTimestampText t) (\<lambda>ts_recv.
     Option.bind (parseTimestampText (sr_ts_event sr)) (\<lambda>ts_event.
     Option.bind (case sr_price sr of None \<Rightarrow> Some undefined_price | Some t \<Rightarrow> parsePriceText t) (\<lambda>price.
       Some (default_event\<lparr>ev_timestamp := (if ts_recv \<noteq> 0 then ts_recv else ts_event), ev_ts_recv := ts_recv,
         ev_ts_event := ts_event, ev_order_id := toUInt64 (sr_order_id sr), ev_side := parseSideText (sr_side sr),
         ev_price := price, ev_size := sr_size sr, ev_action := parseActionText (sr_action sr),
         ev_instrument_id := sr_instrument_id sr\<rparr>))))"

definition with_numbers :: "u64 \<Rightarrow> u32 \<Rightarrow> u64 \<Rightarrow> MarketDataEvent \<Rightarrow> MarketDataEvent" where
  "with_numbers n f s e = e\<lparr>ev_line_number := n, ev_source_file_id := f, ev_source_sequence := s\<rparr>"

section \<open>Lines that carry a row\<close>

abbreviation quoted :: "string \<Rightarrow> string" where
  "quoted t \<equiv> CHR 0x22 # t @ [CHR 0x22]"

definition carries :: "'v simdjson \<Rightarrow> 'v \<Rightarrow> string \<Rightarrow> bool" where
  "carries sj v token \<longleftrightarrow>
     take (length token) (sj_raw_json_token sj v) = token \<and>
     list_all is_json_space (drop (length token) (sj_raw_json_token sj v))"

definition digits :: "string \<Rightarrow> bool" where
  "digits t \<longleftrightarrow> t \<noteq> [] \<and> list_all is_digit t"

text \<open>A number, with or without quotes; an integer price may have a sign.\<close>

definition carries_number :: "'v simdjson \<Rightarrow> 'v \<Rightarrow> string \<Rightarrow> bool" where
  "carries_number sj v t \<longleftrightarrow> carries sj v (quoted t) \<or> digits t \<and> carries sj v t"

definition carries_price :: "'v simdjson \<Rightarrow> 'v \<Rightarrow> string \<Rightarrow> bool" where
  "carries_price sj v t \<longleftrightarrow>
     carries sj v (quoted t) \<or> (digits t \<or> t \<noteq> [] \<and> hd t = CHR ''-'' \<and> digits (tl t)) \<and> carries sj v t"

definition field_carries :: "'v simdjson \<Rightarrow> source_row \<Rightarrow> string \<Rightarrow> 'v \<Rightarrow> bool" where
  "field_carries sj sr key v \<longleftrightarrow>
     (if key = ''ts_recv'' then
        (case sr_ts_recv sr of None \<Rightarrow> carries sj v ''null'' | Some t \<Rightarrow> carries_number sj v t)
      else if key = ''ts_event'' then carries_number sj v (sr_ts_event sr)
      else if key = ''instrument_id'' then carries_number sj v (dec_of_nat (unat (sr_instrument_id sr)))
      else if key = ''order_id'' then carries_number sj v (sr_order_id sr)
      else if key = ''side'' then sj_get_string sj v = Inr (sr_side sr)
      else if key = ''action'' then sj_get_string sj v = Inr (sr_action sr)
      else if key = ''price'' then
        (case sr_price sr of None \<Rightarrow> carries sj v ''null'' | Some t \<Rightarrow> carries_price sj v t)
      else if key = ''size'' then carries_number sj v (dec_of_nat (unat (sr_size sr)))
      else True)"

text \<open>The fields of \<^verbatim>\<open>hd\<close>, and the keys a row is read from.\<close>

definition header_fields :: "'v simdjson \<Rightarrow> 'v \<Rightarrow> (string \<times> 'v) list" where
  "header_fields sj v = (case sj_get_object sj v of Inr (hfs, None) \<Rightarrow> hfs | _ \<Rightarrow> [])"

abbreviation header_key :: "string \<Rightarrow> bool" where
  "header_key k \<equiv> k = ''ts_event'' \<or> k = ''instrument_id''"

definition row_keys :: "'v simdjson \<Rightarrow> (string \<times> 'v) list \<Rightarrow> string list" where
  "row_keys sj fs =
     concat (map (\<lambda>(k, v). if k = ''hd'' then filter header_key (map fst (header_fields sj v)) else [k]) fs)"

definition row_carries :: "'v simdjson \<Rightarrow> source_row \<Rightarrow> (string \<times> 'v) list \<Rightarrow> bool" where
  "row_carries sj sr fs \<longleftrightarrow>
     (\<forall>(k, v) \<in> set fs.
        if k = ''hd'' then
          sj_get_object sj v = Inr (header_fields sj v, None) \<and>
          (\<forall>(k', v') \<in> set (header_fields sj v). header_key k' \<longrightarrow> field_carries sj sr k' v')
        else k \<noteq> ''header'' \<and> field_carries sj sr k v) \<and>
     {''ts_event'', ''instrument_id'', ''order_id'', ''side'', ''action'', ''size''} \<subseteq> set (row_keys sj fs) \<and>
     (sr_ts_recv sr \<noteq> None \<longrightarrow> ''ts_recv'' \<in> set (row_keys sj fs)) \<and>
     (sr_price sr \<noteq> None \<longrightarrow> ''price'' \<in> set (row_keys sj fs))"

section \<open>The tokens as the parser reads them\<close>

lemma is_digit_facts: "is_digit c \<Longrightarrow> \<not> is_json_space c" "is_digit c \<Longrightarrow> c \<noteq> CHR 0x22"
  "is_digit c \<Longrightarrow> c \<noteq> CHR ''T''" "is_digit c \<Longrightarrow> c \<noteq> CHR ''n''" "is_digit c \<Longrightarrow> c \<noteq> CHR ''.''"
  "is_digit c \<Longrightarrow> c \<noteq> CHR ''-''"
  by (auto simp: is_digit_def char_digit_def is_json_space_def)

lemma trim_carried:
  assumes "carries sj v token" "token \<noteq> []" "\<not> is_json_space (last token)"
  shows "trimJsonToken (sj_raw_json_token sj v) = token"
proof -
  from assms(1) obtain ws where ws: "list_all is_json_space ws" "sj_raw_json_token sj v = token @ ws"
    by (metis append_take_drop_id carries_def)
  have "dropWhile is_json_space (rev ws @ rev token) = dropWhile is_json_space (rev token)"
    using ws(1) by (intro dropWhile_append2) (simp add: list_all_iff)
  moreover have "dropWhile is_json_space (rev token) = rev token"
    using assms(2,3) by (cases "rev token") (auto simp flip: hd_rev)
  ultimately show ?thesis using ws(2) by (simp add: trimJsonToken_def)
qed

lemma trim_quoted [simp]: "carries sj v (quoted t) \<Longrightarrow> trimJsonToken (sj_raw_json_token sj v) = quoted t"
  by (rule trim_carried) (auto simp: is_json_space_def)

lemma digits_last: "digits t \<Longrightarrow> \<not> is_json_space (last t)"
  by (metis digits_def is_digit_facts(1) last_in_set list_all_iff)

lemma trim_digits: "digits t \<Longrightarrow> carries sj v t \<Longrightarrow> trimJsonToken (sj_raw_json_token sj v) = t"
  by (rule trim_carried) (auto simp: digits_last digits_def)

lemma trim_null: "carries sj v ''null'' \<Longrightarrow> trimJsonToken (sj_raw_json_token sj v) = ''null''"
  by (rule trim_carried) (auto simp: is_json_space_def)

lemma unquote_quoted [simp]: "unquoteJsonToken (quoted t) = t"
  by (simp add: unquoteJsonToken_def)

lemma digits_hd: "digits t \<Longrightarrow> is_digit (hd t)"
  by (cases t) (auto simp: digits_def)

lemma unquote_digits [simp]: "digits t \<Longrightarrow> unquoteJsonToken t = t"
  using digits_hd is_digit_facts(2) by (auto simp: unquoteJsonToken_def)

lemma digits_no_T: "digits t \<Longrightarrow> CHR ''T'' \<notin> set t"
  using is_digit_facts(3) by (auto simp: digits_def list_all_iff)

lemma digits_dec [simp]: "digits (dec_of_nat n)"
  by (simp add: digits_def dec_of_nat_digits)

lemma read_number: "carries_number sj v t \<Longrightarrow> readUInt64Token sj v = toUInt64 t"
  by (auto simp: carries_number_def readUInt64Token_def trim_digits)

lemma read_timestamp: "carries_number sj v t \<Longrightarrow> readTimestamp sj v = of_option (parseTimestampText t)"
  using digits_hd [of t] is_digit_facts(2)
  by (auto simp: carries_number_def readTimestamp_def trim_digits Let_def parseTimestampText_def digits_no_T)

lemma toUInt64_null: "toUInt64 ''null'' = 0"
  by code_simp

lemma read_timestamp_null: "carries sj v ''null'' \<Longrightarrow> readTimestamp sj v = Returns 0"
  by (simp add: readTimestamp_def trim_null Let_def toUInt64_null)

lemma read_price:
  assumes "carries_price sj v t"
  shows "readPrice sj v = of_option (parsePriceText t)"
  using assms unfolding carries_price_def
proof (elim disjE conjE)
  assume t: "t \<noteq> []" "hd t = CHR ''-''" "digits (tl t)" "carries sj v t"
  then have "\<not> is_json_space (last t)" using digits_last [OF t(3)] by (cases t) (auto simp: digits_def)
  from trim_carried [OF t(4,1) this] t(2) show ?thesis
    by (cases t) (auto simp: readPrice_def unquoteJsonToken_def)
next
  assume t: "digits t" "carries sj v t"
  then have "t \<noteq> ''null''" using digits_hd is_digit_facts(4) by force
  with t show ?thesis by (simp add: readPrice_def trim_digits Let_def)
qed (simp add: readPrice_def Let_def)

lemma read_price_null: "carries sj v ''null'' \<Longrightarrow> readPrice sj v = Returns undefined_price"
  by (simp add: readPrice_def trim_null Let_def)

section \<open>Reading the fields of a row\<close>

text \<open>A field that is read puts the value of the event into its place.\<close>

definition copy_field :: "MarketDataEvent \<Rightarrow> string \<Rightarrow> MarketDataEvent \<Rightarrow> MarketDataEvent" where
  "copy_field e key x =
     (if key = ''ts_recv'' then x\<lparr>ev_ts_recv := ev_ts_recv e\<rparr>
      else if key = ''ts_event'' then x\<lparr>ev_ts_event := ev_ts_event e\<rparr>
      else if key = ''instrument_id'' then x\<lparr>ev_instrument_id := ev_instrument_id e\<rparr>
      else if key = ''order_id'' then x\<lparr>ev_order_id := ev_order_id e\<rparr>
      else if key = ''side'' then x\<lparr>ev_side := ev_side e\<rparr>
      else if key = ''action'' then x\<lparr>ev_action := ev_action e\<rparr>
      else if key = ''price'' then x\<lparr>ev_price := ev_price e\<rparr>
      else if key = ''size'' then x\<lparr>ev_size := ev_size e\<rparr>
      else x)"

lemma copy_fields:
  "ev_ts_recv (fold (copy_field e) ks x) = (if ''ts_recv'' \<in> set ks then ev_ts_recv e else ev_ts_recv x)"
  "ev_ts_event (fold (copy_field e) ks x) = (if ''ts_event'' \<in> set ks then ev_ts_event e else ev_ts_event x)"
  "ev_instrument_id (fold (copy_field e) ks x) = (if ''instrument_id'' \<in> set ks then ev_instrument_id e else ev_instrument_id x)"
  "ev_order_id (fold (copy_field e) ks x) = (if ''order_id'' \<in> set ks then ev_order_id e else ev_order_id x)"
  "ev_side (fold (copy_field e) ks x) = (if ''side'' \<in> set ks then ev_side e else ev_side x)"
  "ev_action (fold (copy_field e) ks x) = (if ''action'' \<in> set ks then ev_action e else ev_action x)"
  "ev_price (fold (copy_field e) ks x) = (if ''price'' \<in> set ks then ev_price e else ev_price x)"
  "ev_size (fold (copy_field e) ks x) = (if ''size'' \<in> set ks then ev_size e else ev_size x)"
  "ev_line_number (fold (copy_field e) ks x) = ev_line_number x"
  "ev_source_file_id (fold (copy_field e) ks x) = ev_source_file_id x"
  "ev_source_sequence (fold (copy_field e) ks x) = ev_source_sequence x"
  by (induction ks arbitrary: x) (auto simp: copy_field_def)

lemma source_event_fields:
  assumes "source_event sr = Some e"
  shows "parseTimestampText (sr_ts_event sr) = Some (ev_ts_event e)"
    "case sr_ts_recv sr of None \<Rightarrow> ev_ts_recv e = 0 | Some t \<Rightarrow> parseTimestampText t = Some (ev_ts_recv e)"
    "case sr_price sr of None \<Rightarrow> ev_price e = undefined_price | Some t \<Rightarrow> parsePriceText t = Some (ev_price e)"
    "ev_order_id e = toUInt64 (sr_order_id sr)" "ev_side e = parseSideText (sr_side sr)"
    "ev_action e = parseActionText (sr_action sr)" "ev_size e = sr_size sr" "ev_instrument_id e = sr_instrument_id sr"
    "ev_timestamp e = (if ev_ts_recv e \<noteq> 0 then ev_ts_recv e else ev_ts_event e)"
  using assms by (auto simp: source_event_def bind_eq_Some_conv split: option.splits)

lemma key_cases:
  obtains "k = a" | "k = b" | "k = c" | "k = d" | "k = e" | "k = f"
  | "k \<noteq> a" "k \<noteq> b" "k \<noteq> c" "k \<noteq> d" "k \<noteq> e" "k \<noteq> f"
  by blast

lemma readField_copy:
  assumes "source_event sr = Some e" "field_carries sj sr key v" "key \<noteq> ''hd''" "key \<noteq> ''header''"
  shows "readField sj key v x = Returns (copy_field e key x)"
proof -
  note f = source_event_fields [OF assms(1)]
  note defs = readField_def field_carries_def copy_field_def read_timestamp read_number readNumberUInt64_def
    readStringUInt64_def readSide_def readAction_def toUInt64_dec
  show ?thesis
  proof (cases "key = ''ts_recv''")
    case True
    with assms(2) f(2) show ?thesis by (cases "sr_ts_recv sr") (simp_all add: defs read_timestamp_null)
  next
    case recv: False
    show ?thesis
    proof (cases "key = ''price''")
      case True
      with assms(2) f(3) show ?thesis by (cases "sr_price sr") (simp_all add: defs read_price_null read_price)
    next
      case False
      with recv assms(2-4) f(1,4-8) show ?thesis
        by (cases rule: key_cases [where k = key and a = "''ts_event''" and b = "''instrument_id''" and c = "''order_id''"
              and d = "''side''" and e = "''action''" and f = "''size''"])
          (simp_all add: defs)
    qed
  qed
qed

lemma readHeaderField_copy:
  assumes "source_event sr = Some e" "header_key key \<Longrightarrow> field_carries sj sr key v"
  shows "readHeaderField sj key v x = Returns (if header_key key then copy_field e key x else x)"
  using assms source_event_fields [OF assms(1)]
  by (auto simp: readHeaderField_def field_carries_def copy_field_def read_timestamp read_number readNumberUInt64_def
      toUInt64_dec)

lemma header_copy:
  assumes "source_event sr = Some e" "\<forall>(k, v) \<in> set hfs. header_key k \<longrightarrow> field_carries sj sr k v"
  shows "read_fields (readHeaderField sj) hfs x = Returns (fold (copy_field e) (filter header_key (map fst hfs)) x)"
  using assms(2)
proof (induction hfs arbitrary: x)
  case (Cons kv hfs)
  obtain k v where kv: "kv = (k, v)" by fastforce
  with Cons.prems have "readHeaderField sj k v x = Returns (if header_key k then copy_field e k x else x)"
    by (intro readHeaderField_copy [OF assms(1)]) auto
  with Cons kv show ?case by auto
qed simp

lemma row_copy:
  assumes "source_event sr = Some e" "row_carries sj sr fs"
  shows "read_fields (readField sj) fs x = Returns (fold (copy_field e) (row_keys sj fs) x)"
proof -
  have "\<forall>(k, v) \<in> set fs.
        if k = ''hd'' then
          sj_get_object sj v = Inr (header_fields sj v, None) \<and>
          (\<forall>(k', v') \<in> set (header_fields sj v). header_key k' \<longrightarrow> field_carries sj sr k' v')
        else k \<noteq> ''header'' \<and> field_carries sj sr k v"
    using assms(2) by (simp add: row_carries_def)
  then show ?thesis
  proof (induction fs arbitrary: x)
    case (Cons kv fs)
    obtain k v where kv: "kv = (k, v)" by fastforce
    show ?case
    proof (cases "k = ''hd''")
      case True
      with Cons.prems kv have h: "sj_get_object sj v = Inr (header_fields sj v, None)"
        "\<forall>(k', v') \<in> set (header_fields sj v). header_key k' \<longrightarrow> field_carries sj sr k' v'" by auto
      have "readField sj k v x = Returns (fold (copy_field e) (filter header_key (map fst (header_fields sj v))) x)"
        using True h(1) header_copy [OF assms(1) h(2), of x]
        by (simp add: readField_def readHeader_def read_object_def)
      moreover have "row_keys sj (kv # fs) = filter header_key (map fst (header_fields sj v)) @ row_keys sj fs"
        using True kv by (simp add: row_keys_def)
      ultimately show ?thesis using Cons kv by simp
    next
      case False
      with Cons.prems kv have "k \<noteq> ''header''" "field_carries sj sr k v" by auto
      with False have "readField sj k v x = Returns (copy_field e k x)"
        by (intro readField_copy [OF assms(1)])
      moreover have "row_keys sj (kv # fs) = k # row_keys sj fs" using False kv by (simp add: row_keys_def)
      ultimately show ?thesis using Cons kv by simp
    qed
  qed (simp add: row_keys_def)
qed

text \<open>A line that carries a row is parsed as the event of the row.\<close>

lemma carried_line_parsed:
  assumes "sj_iterate sj line = Inr (fs, None)" "row_carries sj sr fs" "source_event sr = Some e"
  shows "parseMarketDataEventLine sj line n f s = Returns (with_numbers n f s e)"
proof -
  let ?x = "default_event\<lparr>ev_price := undefined_price, ev_source_file_id := f,
                ev_source_sequence := s, ev_line_number := n\<rparr>"
  let ?y = "fold (copy_field e) (row_keys sj fs) ?x"
  note src = source_event_fields [OF assms(3)]
  have keys: "{''ts_event'', ''instrument_id'', ''order_id'', ''side'', ''action'', ''size''} \<subseteq> set (row_keys sj fs)"
    "sr_ts_recv sr \<noteq> None \<longrightarrow> ''ts_recv'' \<in> set (row_keys sj fs)"
    "sr_price sr \<noteq> None \<longrightarrow> ''price'' \<in> set (row_keys sj fs)"
    using assms(2) by (simp_all add: row_carries_def)
  have recv: "ev_ts_recv ?y = ev_ts_recv e"
    using keys(2) src(2) by (cases "sr_ts_recv sr") (simp_all add: copy_fields default_event_def)
  have price: "ev_price ?y = ev_price e"
    using keys(3) src(3) by (cases "sr_price sr") (simp_all add: copy_fields)
  have "?y\<lparr>ev_timestamp := (if ev_ts_recv ?y \<noteq> 0 then ev_ts_recv ?y else ev_ts_event ?y)\<rparr> = with_numbers n f s e"
    using keys(1) src(9) recv price
    by (intro MarketDataEvent.equality) (simp_all add: copy_fields with_numbers_def)
  with row_copy [OF assms(3,2)] assms(1) show ?thesis
    by (simp add: parseMarketDataEventLine_def read_object_def Let_def)
qed

section \<open>Rows printed from an event\<close>

text \<open>
  A time in nanoseconds as a number, or as the UTC date and time of ISO 8601 with nine decimals of
  a second; a price with nine decimals, or as the integer that is stored.
\<close>

definition iso_text :: "nat \<Rightarrow> nat \<Rightarrow> nat \<Rightarrow> nat \<Rightarrow> nat \<Rightarrow> nat \<Rightarrow> nat \<Rightarrow> string" where
  "iso_text y mo d h mi s ns =
     dec_pad 4 y @ ''-'' @ dec_pad 2 mo @ ''-'' @ dec_pad 2 d @ ''T'' @ dec_pad 2 h @ '':'' @ dec_pad 2 mi @ '':'' @
     dec_pad 2 s @ ''.'' @ dec_pad 9 ns @ ''Z''"

definition iso_ns :: "nat \<Rightarrow> nat \<Rightarrow> nat \<Rightarrow> nat \<Rightarrow> nat \<Rightarrow> nat \<Rightarrow> nat \<Rightarrow> int" where
  "iso_ns y mo d h mi s ns =
     ((days_before_year (int y) + days_before_month (int y) (int mo) + int d - 1 - days_before_year 1970) * 86400 +
        int h * 3600 + int mi * 60 + int s) * 1000000000 + int ns"

definition stamp_text :: "u64 \<Rightarrow> string \<Rightarrow> bool" where
  "stamp_text w t \<longleftrightarrow>
     t = dec_of_nat (unat w) \<or>
     (\<exists>y mo d h mi s ns. y < 10000 \<and> 1 \<le> mo \<and> mo \<le> 12 \<and> d < 100 \<and> h < 100 \<and> mi < 100 \<and> s < 100 \<and> ns < 1000000000 \<and>
        t = iso_text y mo d h mi s ns \<and> iso_ns y mo d h mi s ns = int (unat w) \<and> iso_ns y mo d h mi s ns < 2 ^ 63)"

definition int_text :: "price \<Rightarrow> string" where
  "int_text p = (if val64 p < 0 then ''-'' else []) @ dec_of_nat (nat \<bar>val64 p\<bar>)"

definition printed_row :: "(int \<Rightarrow> int \<Rightarrow> rat) \<Rightarrow> MarketDataEvent \<Rightarrow> source_row \<Rightarrow> bool" where
  "printed_row ld_div e sr \<longleftrightarrow>
     (case sr_ts_recv sr of None \<Rightarrow> ev_ts_recv e = 0 | Some t \<Rightarrow> stamp_text (ev_ts_recv e) t) \<and>
     stamp_text (ev_ts_event e) (sr_ts_event sr) \<and>
     sr_instrument_id sr = ev_instrument_id e \<and> sr_order_id sr = dec_of_nat (unat (ev_order_id e)) \<and>
     sr_side sr = [toChar_Side (ev_side e)] \<and> sr_action sr = [toChar_Action (ev_action e)] \<and>
     sr_size sr = ev_size e \<and>
     (case sr_price sr of
        None \<Rightarrow> ev_price e = undefined_price
      | Some t \<Rightarrow> - (2 ^ 63) < val64 (ev_price e) \<and>
          (t = int_text (ev_price e) \<or> ev_price e \<noteq> undefined_price \<and> t = formatPrice ld_div (ev_price e)))"

lemma d2_pad:
  assumes "n < 100" "length xs = p"
  shows "d2 (xs @ dec_pad 2 n @ zs) p = Some (int n)"
proof -
  have "int (n div 10) * 10 + int (n mod 10) = int n" by presburger
  with assms show ?thesis by (auto simp: d2_def dec_pad_numeral nth_append)
qed

lemma d4_pad:
  assumes "n < 10000" "length xs = p"
  shows "d4 (xs @ dec_pad 4 n @ zs) p = Some (int n)"
proof -
  have "n mod 100 = 10 * (n div 10 mod 10) + n mod 10" using mod_mult2_eq [of n 10 10] by simp
  then have "n mod 100 div 10 mod 10 = n div 10 mod 10" "n mod 100 mod 10 = n mod 10" by simp_all
  moreover have "n div 100 = n div 10 div 10" using div_mult2_eq [of n 10 10] by simp
  ultimately have split: "dec_pad 4 n = dec_pad 2 (n div 100) @ dec_pad 2 (n mod 100)"
    by (simp add: dec_pad_numeral)
  have "d2 (xs @ dec_pad 2 (n div 100) @ (dec_pad 2 (n mod 100) @ zs)) p = Some (int (n div 100))"
    using assms by (intro d2_pad) auto
  moreover have "d2 ((xs @ dec_pad 2 (n div 100)) @ dec_pad 2 (n mod 100) @ zs) (p + 2) = Some (int (n mod 100))"
    using assms by (intro d2_pad) auto
  moreover have "int (n div 100) * 100 + int (n mod 100) = int n"
    by (metis div_mult_mod_eq of_nat_add of_nat_mult of_nat_numeral)
  ultimately show ?thesis by (simp add: d4_def split)
qed

lemma iso_frac_digits:
  "k + length ds = fixed_point_digits \<Longrightarrow> iso_frac (of_int a) k (ds @ rest) = of_int (read_digits a ds)"
proof (induction ds arbitrary: a k)
  case Nil
  then show ?case by (cases rest) simp_all
next
  case (Cons c ds)
  then show ?case using Cons.IH [of "k + 1" "a * 10 + char_digit c"] by simp
qed

lemma iso_text_parsed:
  assumes "y < 10000" "1 \<le> mo" "mo \<le> 12" "d < 100" "h < 100" "mi < 100" "s < 100" "ns < 1000000000"
    and w: "iso_ns y mo d h mi s ns = int (unat w)" "iso_ns y mo d h mi s ns < 2 ^ 63"
  shows "parseTimestampText (iso_text y mo d h mi s ns) = Some w"
proof -
  let ?t = "iso_text y mo d h mi s ns"
  let ?pre = "dec_pad 4 y @ ''-''" and ?zs = "'':'' @ dec_pad 2 mi @ '':'' @ dec_pad 2 s @ ''.'' @ dec_pad 9 ns @ ''Z''"
  let ?date = "?pre @ dec_pad 2 mo @ ''-''"
  let ?day = "?date @ dec_pad 2 d @ ''T''"
  let ?hour = "?day @ dec_pad 2 h @ '':''"
  let ?minute = "?hour @ dec_pad 2 mi @ '':''"
  have "d4 ([] @ dec_pad 4 y @ drop 4 ?t) 0 = Some (int y)" by (rule d4_pad) (use assms in auto)
  moreover have "d2 (?pre @ dec_pad 2 mo @ drop 7 ?t) 5 = Some (int mo)" by (rule d2_pad) (use assms in auto)
  moreover have "d2 (?date @ dec_pad 2 d @ drop 10 ?t) 8 = Some (int d)" by (rule d2_pad) (use assms in auto)
  moreover have "d2 (?day @ dec_pad 2 h @ drop 13 ?t) 11 = Some (int h)" by (rule d2_pad) (use assms in auto)
  moreover have "d2 (?hour @ dec_pad 2 mi @ drop 16 ?t) 14 = Some (int mi)" by (rule d2_pad) (use assms in auto)
  moreover have "d2 (?minute @ dec_pad 2 s @ drop 19 ?t) 17 = Some (int s)" by (rule d2_pad) (use assms in auto)
  moreover have "[] @ dec_pad 4 y @ drop 4 ?t = ?t" "?pre @ dec_pad 2 mo @ drop 7 ?t = ?t"
    "?date @ dec_pad 2 d @ drop 10 ?t = ?t" "?day @ dec_pad 2 h @ drop 13 ?t = ?t"
    "?hour @ dec_pad 2 mi @ drop 16 ?t = ?t" "?minute @ dec_pad 2 s @ drop 19 ?t = ?t"
    by (simp_all add: iso_text_def)
  ultimately have ds: "d4 ?t 0 = Some (int y)" "d2 ?t 5 = Some (int mo)" "d2 ?t 8 = Some (int d)" "d2 ?t 11 = Some (int h)"
    "d2 ?t 14 = Some (int mi)" "d2 ?t 17 = Some (int s)" by simp_all
  have "drop 20 ?t = dec_pad 9 ns @ ''Z''" by (simp add: iso_text_def)
  then have frac: "iso_frac 0 0 (drop 20 ?t) = of_nat ns"
    using iso_frac_digits [of 0 "dec_pad 9 ns" 0 "''Z''"] read_digits_dec_pad [of ns 9 0] assms(8)
    by (simp add: fixed_point_digits_def)
  have sys: "sys_days (int y) (int mo) (int d) =
      Some (days_before_year (int y) + days_before_month (int y) (int mo) + int d - 1 - days_before_year 1970)"
    using assms(1-4) by (simp add: sys_days_def)
  let ?whole = "iso_ns y mo d h mi s ns - int ns"
  have "0 \<le> iso_ns y mo d h mi s ns" by (simp add: w(1))
  then have "in_i64 ?whole = Some ?whole" using w(2) assms(8) by (simp add: in_i64_def)
  then have "isoUtcToNs ?t = Some (of_int ?whole + of_nat ns)"
    by (simp add: isoUtcToNs_def ds sys frac) (simp add: iso_ns_def)
  also have "of_int ?whole + of_nat ns = (of_int (iso_ns y mo d h mi s ns) :: u64)" by simp
  also have "\<dots> = w" by (simp add: w(1))
  finally have "isoUtcToNs ?t = Some w" .
  moreover have "CHR ''T'' \<in> set ?t" by (simp add: iso_text_def)
  ultimately show ?thesis by (simp add: parseTimestampText_def)
qed

lemma iso_timestamp:
  "y < 10000 \<Longrightarrow> 1 \<le> mo \<Longrightarrow> mo \<le> 12 \<Longrightarrow> d < 100 \<Longrightarrow> h < 100 \<Longrightarrow> mi < 100 \<Longrightarrow> s < 100 \<Longrightarrow> ns < 1000000000 \<Longrightarrow>
   iso_ns y mo d h mi s ns = int (unat w) \<Longrightarrow> iso_ns y mo d h mi s ns < 2 ^ 63 \<Longrightarrow>
   stamp_text w (iso_text y mo d h mi s ns)"
  unfolding stamp_text_def by blast

lemma stamp_text_parsed: "stamp_text w t \<Longrightarrow> parseTimestampText t = Some w"
  unfolding stamp_text_def
proof (elim disjE exE conjE)
  assume "t = dec_of_nat (unat w)"
  then show ?thesis by (simp add: parseTimestampText_def digits_no_T toUInt64_dec)
qed (simp only: iso_text_parsed)

lemma int_text_parsed:
  assumes "- (2 ^ 63) < val64 p"
  shows "parsePriceText (int_text p) = Some p"
proof -
  let ?n = "nat \<bar>val64 p\<bar>"
  have small: "read_digits 0 (dec_of_nat ?n) < 2 ^ 63" using assms val64_range [of p] by (simp add: read_digits_dec_of_nat)
  have whole: "price_whole 0 (dec_of_nat ?n) = Some (\<bar>val64 p\<bar>, [])"
    using price_whole_digits [of "dec_of_nat ?n" 0 "[]"] small by (simp add: dec_of_nat_digits read_digits_dec_of_nat)
  have "CHR ''.'' \<notin> set (dec_of_nat ?n)"
    using dec_of_nat_digits(1) [of ?n] is_digit_facts(5) by (auto simp: list_all_iff)
  moreover have "hd (dec_of_nat ?n) \<noteq> CHR ''-''"
    using digits_hd [OF digits_dec, of ?n] is_digit_facts(6) by metis
  ultimately show ?thesis
    using whole
    by (cases "val64 p < 0") (simp_all add: parsePriceText_def int_text_def Let_def dec_of_nat_digits)
qed

lemma side_text: "parseSideText [toChar_Side s] = s"
  by (cases s) (simp_all add: parseSideText_def)

lemma action_text: "parseActionText [toChar_Action a] = a"
  by (cases a) (simp_all add: parseActionText_def)

lemma printed_event:
  assumes "exact_enough ld_div" "printed_row ld_div e sr"
  shows "source_event sr = Some (with_numbers 0 0 0
    (e\<lparr>ev_timestamp := (if ev_ts_recv e \<noteq> 0 then ev_ts_recv e else ev_ts_event e)\<rparr>))"
proof -
  have "(case sr_ts_recv sr of None \<Rightarrow> Some 0 | Some t \<Rightarrow> parseTimestampText t) = Some (ev_ts_recv e)"
    "parseTimestampText (sr_ts_event sr) = Some (ev_ts_event e)"
    using assms(2) by (auto simp: printed_row_def stamp_text_parsed split: option.splits)
  moreover have "(case sr_price sr of None \<Rightarrow> Some undefined_price | Some t \<Rightarrow> parsePriceText t) = Some (ev_price e)"
    using assms(2) price_text [OF assms(1), of "ev_price e"]
    by (auto simp: printed_row_def int_text_parsed split: option.splits)
  moreover have "default_event\<lparr>ev_timestamp := t, ev_ts_recv := ev_ts_recv e, ev_ts_event := ev_ts_event e,
      ev_order_id := ev_order_id e, ev_side := ev_side e, ev_price := ev_price e, ev_size := ev_size e,
      ev_action := ev_action e, ev_instrument_id := ev_instrument_id e\<rparr> = with_numbers 0 0 0 (e\<lparr>ev_timestamp := t\<rparr>)" for t
    by (rule MarketDataEvent.equality) (simp_all add: with_numbers_def default_event_def)
  ultimately show ?thesis
    using assms(2) by (simp add: source_event_def printed_row_def toUInt64_dec side_text action_text)
qed

section \<open>Properties\<close>

text \<open>
  C27: A row of the input file survives printing and parsing. Let simdjson present the fields of a line
  in any order, with the texts of an event: times as nanoseconds or in ISO 8601, quoted or not, inside
  or outside of \<^verbatim>\<open>hd\<close>; the price with nine decimals or as an integer, or \<^verbatim>\<open>null\<close> for an undefined one;
  tokens followed by any white space. Then the parser returns that event with the line number, file and
  sequence it was called with. The timestamp is the receive time, or the event time when the receive
  time is absent or zero. (This is so even for a receive time of \<open>2 ^ 64 - 1\<close>, which stands for no time
  at all; the README says that the event time is taken then.)
\<close>

theorem event_row_roundtrip:
  assumes "exact_enough ld_div" and "printed_row ld_div e sr"
    and "sj_iterate sj line = Inr (fs, None)" and "row_carries sj sr fs"
  shows "parseMarketDataEventLine sj line n f s = Returns (with_numbers n f s
    (e\<lparr>ev_timestamp := (if ev_ts_recv e \<noteq> 0 then ev_ts_recv e else ev_ts_event e)\<rparr>))"
  using carried_line_parsed [OF assms(3,4) printed_event [OF assms(1,2)], of n f s]
  by (simp add: with_numbers_def)

text \<open>A small library: its values are the tokens themselves.\<close>

datatype demo_value = Token string | Fields "(string \<times> demo_value) list"

fun demo_token :: "demo_value \<Rightarrow> string" where
  "demo_token (Token t) = t"
| "demo_token (Fields fs) = ''{''"

fun demo_string :: "demo_value \<Rightarrow> exn + string" where
  "demo_string (Token t) =
     (if hd t = CHR 0x22 then Inr (unquoteJsonToken (trimJsonToken t)) else Inl (runtime_error ''INCORRECT_TYPE''))"
| "demo_string (Fields fs) = Inl (runtime_error ''INCORRECT_TYPE'')"

fun demo_object :: "demo_value \<Rightarrow> exn + demo_value json_fields" where
  "demo_object (Token t) = Inl (runtime_error ''INCORRECT_TYPE'')"
| "demo_object (Fields fs) = Inr (fs, None)"

definition demo_library :: "(string \<Rightarrow> (string \<times> demo_value) list) \<Rightarrow> demo_value simdjson" where
  "demo_library lines =
     \<lparr>sj_iterate = (\<lambda>line. Inr (lines line, None)), sj_raw_json_token = demo_token, sj_get_string = demo_string,
      sj_get_object = demo_object\<rparr>"

definition demo_row_event :: MarketDataEvent where
  "demo_row_event =
     (event Add 7 Bid (- 5) 3 12)\<lparr>ev_ts_recv := 86400000000099, ev_ts_event := 98, ev_timestamp := 86400000000099\<rparr>"

definition demo_row :: source_row where
  "demo_row =
     \<lparr>sr_ts_recv = Some ''1970-01-02T00:00:00.000000099Z'', sr_ts_event = ''98'', sr_instrument_id = 12,
      sr_order_id = ''7'', sr_side = ''B'', sr_action = ''A'', sr_price = Some ''-5'', sr_size = 3\<rparr>"

definition demo_line :: "(string \<times> demo_value) list" where
  "demo_line =
     [(''size'', Token ''3 ''),
      (''hd'', Fields [(''ts_event'', Token (quoted ''98'')), (''rtype'', Token ''160''), (''instrument_id'', Token ''12  '')]),
      (''price'', Token ''-5''), (''side'', Token (quoted ''B'' @ '' '')), (''order_id'', Token (quoted ''7'')),
      (''action'', Token (quoted ''A'')), (''ts_recv'', Token (quoted ''1970-01-02T00:00:00.000000099Z''))]"

lemma demo_row_printed: "printed_row exact_division demo_row_event demo_row"
proof -
  have "''1970-01-02T00:00:00.000000099Z'' = iso_text 1970 1 2 0 0 0 99" by code_simp
  moreover have "iso_ns 1970 1 2 0 0 0 99 = 86400000000099"
    by (simp add: iso_ns_def days_before_year_def days_before_month_def is_leap_def)
  ultimately have "stamp_text 86400000000099 ''1970-01-02T00:00:00.000000099Z''"
    using iso_timestamp [of 1970 1 2 0 0 0 99 86400000000099] by simp
  moreover have "stamp_text 98 ''98''"
    unfolding stamp_text_def by (intro disjI1) code_simp
  moreover have "''-5'' = int_text (i64 (- 5))" "''7'' = dec_of_nat (unat (7 :: u64))" by code_simp+
  ultimately show ?thesis
    by (simp add: printed_row_def demo_row_def demo_row_event_def event_def default_event_def val64_i64)
qed

theorem event_row_roundtrip_witness:
  "row_carries (demo_library (\<lambda>_. demo_line)) demo_row demo_line \<and>
   parseMarketDataEventLine (demo_library (\<lambda>_. demo_line)) ''row'' 1 0 1 = Returns (with_numbers 1 0 1 demo_row_event)"
proof -
  have row: "row_carries (demo_library (\<lambda>_. demo_line)) demo_row demo_line" by code_simp
  have "sj_iterate (demo_library (\<lambda>_. demo_line)) ''row'' = Inr (demo_line, None)" by (simp add: demo_library_def)
  from event_row_roundtrip [OF exact_division_enough demo_row_printed this row, of 1 0 1] row
  show ?thesis by (simp add: demo_row_event_def)
qed

end
