(* ===== verification/FeatherReader.thy ===== *)
theory FeatherReader
  imports SourceRows
begin

text \<open>
  \<^verbatim>\<open>src/io/FeatherEventReader.cpp\<close>, compiled with \<^verbatim>\<open>ENABLE_ARROW\<close>: the rows of a Feather file as events. The
  Arrow library is an argument: the batches \<^verbatim>\<open>ReadNext\<close> returns one by one, or the status of the
  call that failed.
\<close>

section \<open>What Arrow returns\<close>

text \<open>Arrays by their type id; a missing value is null. The last constructor stands for all other types.\<close>

datatype arrow_array =
    UInt64Array "u64 option list"
  | Int64Array "int64 option list"
  | StringArray "string option list"
  | LargeStringArray "string option list"
  | OtherArray "unit option list"

fun array_length :: "arrow_array \<Rightarrow> nat" where
  "array_length (UInt64Array xs) = length xs"
| "array_length (Int64Array xs) = length xs"
| "array_length (StringArray xs) = length xs"
| "array_length (LargeStringArray xs) = length xs"
| "array_length (OtherArray xs) = length xs"

record RecordBatch =
  rb_columns :: "(string \<times> arrow_array) list"
  rb_num_rows :: nat

text \<open>Every array of a batch has as many entries as the batch has rows; reading past them is undefined.\<close>

definition batch_ok :: "RecordBatch \<Rightarrow> bool" where
  "batch_ok batch \<longleftrightarrow> list_all (\<lambda>(n, a). array_length a = rb_num_rows batch) (rb_columns batch)"

type_synonym arrow_reader = "path \<Rightarrow> string + (string + RecordBatch) list"

text \<open>\<^verbatim>\<open>GetFieldIndex\<close> finds a name that occurs exactly once.\<close>

definition field_column :: "RecordBatch \<Rightarrow> string \<Rightarrow> arrow_array option" where
  "field_column batch name =
     (case filter (\<lambda>(n, a). n = name) (rb_columns batch) of [(n, a)] \<Rightarrow> Some a | _ \<Rightarrow> None)"

section \<open>FeatherEventReader.cpp\<close>

definition arrowError :: "path \<Rightarrow> string \<Rightarrow> exn" where
  "arrowError p status = runtime_error (p @ '': '' @ status)"

definition unwrapArrowResult :: "path \<Rightarrow> string + 'a \<Rightarrow> exn + 'a" where
  "unwrapArrowResult p r = (case r of Inl status \<Rightarrow> Inl (arrowError p status) | Inr a \<Rightarrow> Inr a)"

definition requireColumn :: "RecordBatch \<Rightarrow> string \<Rightarrow> exn + arrow_array" where
  "requireColumn batch name =
     (case field_column batch name of
        None \<Rightarrow> Inl (runtime_error (''feather file is missing required column: '' @ name))
      | Some a \<Rightarrow> Inr a)"

definition optionalColumn :: "RecordBatch \<Rightarrow> string \<Rightarrow> arrow_array option" where
  "optionalColumn batch name = field_column batch name"

definition parseUnsigned :: "string \<Rightarrow> u64" where
  "parseUnsigned text = from_chars_u64 text 0"

fun stringValue :: "arrow_array \<Rightarrow> nat \<Rightarrow> exn + string" where
  "stringValue (StringArray xs) row = (case xs ! row of None \<Rightarrow> Inr [] | Some t \<Rightarrow> Inr t)"
| "stringValue (LargeStringArray xs) row = (case xs ! row of None \<Rightarrow> Inr [] | Some t \<Rightarrow> Inr t)"
| "stringValue (UInt64Array xs) row =
     (case xs ! row of None \<Rightarrow> Inr [] | Some _ \<Rightarrow> Inl (runtime_error ''expected string-compatible Arrow column''))"
| "stringValue (Int64Array xs) row =
     (case xs ! row of None \<Rightarrow> Inr [] | Some _ \<Rightarrow> Inl (runtime_error ''expected string-compatible Arrow column''))"
| "stringValue (OtherArray xs) row =
     (case xs ! row of None \<Rightarrow> Inr [] | Some _ \<Rightarrow> Inl (runtime_error ''expected string-compatible Arrow column''))"

fun unsignedValue :: "arrow_array \<Rightarrow> nat \<Rightarrow> exn + u64" where
  "unsignedValue (UInt64Array xs) row = Inr (case xs ! row of None \<Rightarrow> 0 | Some v \<Rightarrow> v)"
| "unsignedValue (Int64Array xs) row = Inr (case xs ! row of None \<Rightarrow> 0 | Some v \<Rightarrow> bits64 v)"
| "unsignedValue (StringArray xs) row = Inr (case xs ! row of None \<Rightarrow> 0 | Some t \<Rightarrow> parseUnsigned t)"
| "unsignedValue (LargeStringArray xs) row = Inr (case xs ! row of None \<Rightarrow> 0 | Some t \<Rightarrow> parseUnsigned t)"
| "unsignedValue (OtherArray xs) row =
     (case xs ! row of None \<Rightarrow> Inr 0 | Some _ \<Rightarrow> Inl (runtime_error ''expected uint64-compatible Arrow column''))"

fun timestampValue :: "arrow_array \<Rightarrow> nat \<Rightarrow> u64 outcome" where
  "timestampValue (UInt64Array xs) row = Returns (case xs ! row of None \<Rightarrow> 0 | Some v \<Rightarrow> v)"
| "timestampValue (Int64Array xs) row = Returns (case xs ! row of None \<Rightarrow> 0 | Some v \<Rightarrow> bits64 v)"
| "timestampValue (StringArray xs) row =
     (case xs ! row of None \<Rightarrow> Returns 0 | Some t \<Rightarrow> of_option (parseTimestampText t))"
| "timestampValue (LargeStringArray xs) row =
     (case xs ! row of None \<Rightarrow> Returns 0 | Some t \<Rightarrow> of_option (parseTimestampText t))"
| "timestampValue (OtherArray xs) row =
     (case xs ! row of None \<Rightarrow> Returns 0
      | Some _ \<Rightarrow> Throws (runtime_error ''expected timestamp-compatible Arrow column''))"

fun priceValue :: "arrow_array \<Rightarrow> nat \<Rightarrow> price outcome" where
  "priceValue (Int64Array xs) row = Returns (case xs ! row of None \<Rightarrow> undefined_price | Some v \<Rightarrow> v)"
| "priceValue (UInt64Array xs) row = Returns (case xs ! row of None \<Rightarrow> undefined_price | Some v \<Rightarrow> Int64 v)"
| "priceValue (StringArray xs) row =
     (case xs ! row of None \<Rightarrow> Returns undefined_price | Some t \<Rightarrow> of_option (parsePriceText t))"
| "priceValue (LargeStringArray xs) row =
     (case xs ! row of None \<Rightarrow> Returns undefined_price | Some t \<Rightarrow> of_option (parsePriceText t))"
| "priceValue (OtherArray xs) row =
     (case xs ! row of None \<Rightarrow> Returns undefined_price
      | Some _ \<Rightarrow> Throws (runtime_error ''expected price-compatible Arrow column''))"

definition sideValue :: "arrow_array \<Rightarrow> nat \<Rightarrow> Side outcome" where
  "sideValue a row = outcome_bind (of_sum (stringValue a row)) (\<lambda>t. Returns (parseSideText t))"

definition actionValue :: "arrow_array \<Rightarrow> nat \<Rightarrow> Action outcome" where
  "actionValue a row = outcome_bind (of_sum (stringValue a row)) (\<lambda>t. Returns (parseActionText t))"

text \<open>The columns of a batch, looked up once per batch in this order.\<close>

record event_columns =
  ec_ts_recv :: "arrow_array option"
  ec_ts_event :: arrow_array
  ec_instrument_id :: arrow_array
  ec_order_id :: arrow_array
  ec_side :: arrow_array
  ec_action :: arrow_array
  ec_price :: arrow_array
  ec_size :: arrow_array

definition batch_columns :: "RecordBatch \<Rightarrow> event_columns outcome" where
  "batch_columns batch =
     outcome_bind (of_sum (requireColumn batch ''ts_event'')) (\<lambda>ts_event.
     outcome_bind (of_sum (requireColumn batch ''instrument_id'')) (\<lambda>instrument_id.
     outcome_bind (of_sum (requireColumn batch ''order_id'')) (\<lambda>order_id.
     outcome_bind (of_sum (requireColumn batch ''side'')) (\<lambda>side.
     outcome_bind (of_sum (requireColumn batch ''action'')) (\<lambda>action.
     outcome_bind (of_sum (requireColumn batch ''price'')) (\<lambda>price.
     outcome_bind (of_sum (requireColumn batch ''size'')) (\<lambda>size.
       Returns \<lparr>ec_ts_recv = optionalColumn batch ''ts_recv'', ec_ts_event = ts_event, ec_instrument_id = instrument_id,
                ec_order_id = order_id, ec_side = side, ec_action = action, ec_price = price, ec_size = size\<rparr>)))))))"

text \<open>One row; the members of the event are initialised in the order of their declaration.\<close>

definition row_event :: "event_columns \<Rightarrow> u32 \<Rightarrow> u64 \<Rightarrow> nat \<Rightarrow> MarketDataEvent outcome" where
  "row_event ec source_file_id source_sequence row =
     outcome_bind (case ec_ts_recv ec of None \<Rightarrow> Returns 0 | Some a \<Rightarrow> timestampValue a row) (\<lambda>ts_recv.
     outcome_bind (timestampValue (ec_ts_event ec) row) (\<lambda>ts_event.
     outcome_bind (of_sum (unsignedValue (ec_order_id ec) row)) (\<lambda>order_id.
     outcome_bind (sideValue (ec_side ec) row) (\<lambda>side.
     outcome_bind (priceValue (ec_price ec) row) (\<lambda>price.
     outcome_bind (of_sum (unsignedValue (ec_size ec) row)) (\<lambda>size.
     outcome_bind (actionValue (ec_action ec) row) (\<lambda>action.
     outcome_bind (of_sum (unsignedValue (ec_instrument_id ec) row)) (\<lambda>instrument_id.
       Returns \<lparr>ev_timestamp = (if ts_recv \<noteq> 0 then ts_recv else ts_event), ev_ts_recv = ts_recv, ev_ts_event = ts_event,
                ev_order_id = order_id, ev_side = side, ev_price = price, ev_size = size, ev_action = action,
                ev_instrument_id = instrument_id, ev_source_file_id = source_file_id,
                ev_source_sequence = source_sequence, ev_line_number = source_sequence\<rparr>))))))))"

fun read_rows :: "event_columns \<Rightarrow> u32 \<Rightarrow> u64 \<Rightarrow> nat list \<Rightarrow> MarketDataEvent list outcome" where
  "read_rows ec source_file_id source_sequence [] = Returns []"
| "read_rows ec source_file_id source_sequence (row # rows) =
     outcome_bind (row_event ec source_file_id (source_sequence + 1) row) (\<lambda>e.
     outcome_bind (read_rows ec source_file_id (source_sequence + 1) rows) (\<lambda>es. Returns (e # es)))"

fun read_batches :: "path \<Rightarrow> u32 \<Rightarrow> u64 \<Rightarrow> (string + RecordBatch) list \<Rightarrow> MarketDataEvent list outcome" where
  "read_batches p source_file_id source_sequence [] = Returns []"
| "read_batches p source_file_id source_sequence (r # rs) =
     outcome_bind (of_sum (unwrapArrowResult p r)) (\<lambda>batch.
     outcome_bind (batch_columns batch) (\<lambda>ec.
     outcome_bind (if batch_ok batch then read_rows ec source_file_id source_sequence [0..<rb_num_rows batch]
                   else Undefined) (\<lambda>es.
     outcome_bind (read_batches p source_file_id (source_sequence + of_nat (rb_num_rows batch)) rs) (\<lambda>more.
       Returns (es @ more)))))"

text \<open>The events \<^verbatim>\<open>readAll\<close> passes to its callback, when no call fails.\<close>

definition FeatherEventReader_readAll :: "arrow_reader \<Rightarrow> path \<Rightarrow> u32 \<Rightarrow> MarketDataEvent list outcome" where
  "FeatherEventReader_readAll arrow file_path source_file_id =
     outcome_bind (of_sum (unwrapArrowResult file_path (arrow file_path))) (read_batches file_path source_file_id 0)"

section \<open>Files written by the converter\<close>

text \<open>
  A record batch as \<^verbatim>\<open>scripts/convert_to_feather.py\<close> writes it (\<^verbatim>\<open>make_schema\<close>, \<^verbatim>\<open>extract_row\<close>,
  \<^verbatim>\<open>flush_batch\<close>): times, order ids, sides, actions and prices stay texts, with null for what is missing;
  instrument ids and sizes are unsigned integers.
\<close>

definition converter_batch :: "source_row list \<Rightarrow> RecordBatch" where
  "converter_batch rs =
     \<lparr>rb_columns =
        [(''ts_recv'', StringArray (map sr_ts_recv rs)),
         (''ts_event'', StringArray (map (\<lambda>r. Some (sr_ts_event r)) rs)),
         (''instrument_id'', UInt64Array (map (\<lambda>r. Some (sr_instrument_id r)) rs)),
         (''order_id'', StringArray (map (\<lambda>r. Some (sr_order_id r)) rs)),
         (''side'', StringArray (map (\<lambda>r. Some (sr_side r)) rs)),
         (''action'', StringArray (map (\<lambda>r. Some (sr_action r)) rs)),
         (''price'', StringArray (map sr_price rs)),
         (''size'', UInt64Array (map (\<lambda>r. Some (sr_size r)) rs))],
      rb_num_rows = length rs\<rparr>"

text \<open>The numbering a reader gives to the events of a file.\<close>

fun numbered_all :: "u32 \<Rightarrow> u64 \<Rightarrow> MarketDataEvent list \<Rightarrow> MarketDataEvent list" where
  "numbered_all file n [] = []"
| "numbered_all file n (e # es) = with_numbers (n + 1) file (n + 1) e # numbered_all file (n + 1) es"

lemma numbered_all_append:
  "numbered_all file n (xs @ ys) = numbered_all file n xs @ numbered_all file (n + of_nat (length xs)) ys"
  by (induction xs arbitrary: n) (simp_all add: ac_simps)

lemma converter_columns:
  "batch_columns (converter_batch rs) = Returns
     \<lparr>ec_ts_recv = Some (StringArray (map sr_ts_recv rs)),
      ec_ts_event = StringArray (map (\<lambda>r. Some (sr_ts_event r)) rs),
      ec_instrument_id = UInt64Array (map (\<lambda>r. Some (sr_instrument_id r)) rs),
      ec_order_id = StringArray (map (\<lambda>r. Some (sr_order_id r)) rs),
      ec_side = StringArray (map (\<lambda>r. Some (sr_side r)) rs),
      ec_action = StringArray (map (\<lambda>r. Some (sr_action r)) rs),
      ec_price = StringArray (map sr_price rs),
      ec_size = UInt64Array (map (\<lambda>r. Some (sr_size r)) rs)\<rparr>"
  by (simp add: batch_columns_def converter_batch_def requireColumn_def optionalColumn_def field_column_def)

text \<open>One row of such a batch is read as the event of the row.\<close>

lemma converter_row:
  assumes "batch_columns (converter_batch rs) = Returns ec" and "i < length rs" and "source_event (rs ! i) = Some e"
  shows "row_event ec file n i = Returns (with_numbers n file n e)"
proof -
  note f = source_event_fields [OF assms(3)]
  have cols: "timestampValue (StringArray (map sr_ts_recv rs)) i = Returns (ev_ts_recv e)"
    "priceValue (StringArray (map sr_price rs)) i = Returns (ev_price e)"
    using f(2,3) assms(2) by (auto split: option.splits)
  show ?thesis
    using assms(1,2) f(1,4-9) cols unfolding converter_columns
    by (auto simp: row_event_def sideValue_def actionValue_def with_numbers_def parseUnsigned_def toUInt64_def
        intro!: MarketDataEvent.equality)
qed

lemma converter_rows:
  assumes "batch_columns (converter_batch rs) = Returns ec" and "map source_event rs = map Some es" and "k \<le> length rs"
  shows "read_rows ec file n [k..<length rs] = Returns (numbered_all file n (drop k es))"
  using assms(3)
proof (induction "length rs - k" arbitrary: k n)
  case 0
  moreover have "length es = length rs" using arg_cong [OF assms(2), of length] by simp
  ultimately show ?case by simp
next
  case (Suc m)
  then have k: "k < length rs" by simp
  have len: "length es = length rs" using arg_cong [OF assms(2), of length] by simp
  have "map source_event rs ! k = map Some es ! k" using assms(2) by simp
  with k len have ev: "source_event (rs ! k) = Some (es ! k)" by simp
  have "[k..<length rs] = k # [Suc k..<length rs]" "drop k es = es ! k # drop (Suc k) es"
    using k len by (simp_all add: upt_conv_Cons Cons_nth_drop_Suc)
  moreover have "read_rows ec file (n + 1) [Suc k..<length rs] = Returns (numbered_all file (n + 1) (drop (Suc k) es))"
    using Suc k by simp
  ultimately show ?case using converter_row [OF assms(1) k ev] by simp
qed

lemma converter_batch_ok: "batch_ok (converter_batch rs)" "rb_num_rows (converter_batch rs) = length rs"
  by (simp_all add: batch_ok_def converter_batch_def)

lemma converter_batches:
  "map source_event (concat rss) = map Some es \<Longrightarrow>
   read_batches p file n (map (\<lambda>rs. Inr (converter_batch rs)) rss) = Returns (numbered_all file n es)"
proof (induction rss arbitrary: n es)
  case (Cons rs rss)
  obtain ec where ec: "batch_columns (converter_batch rs) = Returns ec" using converter_columns by blast
  from Cons.prems obtain es1 es2 where es: "es = es1 @ es2" "map source_event rs = map Some es1"
    "map source_event (concat rss) = map Some es2" by (auto simp: append_eq_map_conv)
  have "length rs = length es1" using arg_cong [OF es(2), of length] by simp
  moreover from converter_rows [OF ec es(2), of 0]
  have "read_rows ec file n [0..<length rs] = Returns (numbered_all file n es1)" by simp
  ultimately show ?case using Cons.IH [OF es(3)] ec es(1)
    by (simp add: unwrapArrowResult_def numbered_all_append converter_batch_ok)
qed simp

definition converted :: "arrow_reader \<Rightarrow> path \<Rightarrow> source_row list \<Rightarrow> bool" where
  "converted arrow p rs \<longleftrightarrow>
     (\<exists>rss. arrow p = Inr (map (\<lambda>rs. Inr (converter_batch rs)) rss) \<and> concat rss = rs)"

lemma converted_read:
  assumes "converted arrow p rs" and "map source_event rs = map Some es"
  shows "FeatherEventReader_readAll arrow p file = Returns (numbered_all file 0 es)"
  using assms converter_batches by (auto simp: converted_def FeatherEventReader_readAll_def unwrapArrowResult_def)

section \<open>Properties\<close>

text \<open>
  Reading back the rows of a Feather file. Whatever the batches the rows are split into, a file
  the converter wrote from rows whose texts can be parsed is read as exactly the events of these
  rows in order, numbered through all batches.
\<close>

theorem feather_rows_roundtrip:
  assumes "arrow p = Inr (map (\<lambda>rs. Inr (converter_batch rs)) rss)" and "map source_event (concat rss) = map Some es"
  shows "FeatherEventReader_readAll arrow p file = Returns (numbered_all file 0 es)"
  using assms by (intro converted_read [of arrow p "concat rss"]) (auto simp: converted_def)

theorem feather_rows_roundtrip_witness:
  "FeatherEventReader_readAll (\<lambda>_. Inr [Inr (converter_batch [demo_row]), Inr (converter_batch []),
       Inr (converter_batch [demo_row])]) ''day.feather'' 3 =
     Returns [with_numbers 1 3 1 demo_row_event, with_numbers 2 3 2 demo_row_event]"
proof -
  have row: "source_event demo_row = Some demo_row_event"
    using printed_event [OF exact_division_enough demo_row_printed]
    by (simp add: with_numbers_def demo_row_event_def event_def default_event_def)
  have "FeatherEventReader_readAll (\<lambda>_. Inr (map (\<lambda>rs. Inr (converter_batch rs)) [[demo_row], [], [demo_row]])) ''day.feather'' 3 =
      Returns (numbered_all 3 0 [demo_row_event, demo_row_event])"
    by (rule feather_rows_roundtrip [where rss = "[[demo_row], [], [demo_row]]"]) (simp_all add: row)
  then show ?thesis by simp
qed

end
