(* ===== verification/FeatherRunners.thy ===== *)
theory FeatherRunners
  imports FeatherReader
begin

text \<open>
  \<^verbatim>\<open>src/runners/FeatherHardRunnerSupport.cpp\<close> and the two merge runners in a build with \<^verbatim>\<open>ENABLE_ARROW\<close>: the
  threads that read Feather files feed the same network as the threads that read lines.
\<close>

section \<open>The rows of a file\<close>

text \<open>
  What the loops of \<^verbatim>\<open>readAll\<close> come to, one after the other: a row of a batch whose columns were
  found, or the failure that ends the reading.
\<close>

type_synonym feather_row = "(event_columns \<times> nat) outcome"

fun feather_rows :: "path \<Rightarrow> (string + RecordBatch) list \<Rightarrow> feather_row list" where
  "feather_rows p [] = []"
| "feather_rows p (r # rs) =
     (case unwrapArrowResult p r of
        Inl x \<Rightarrow> [Throws x]
      | Inr batch \<Rightarrow>
          (case batch_columns batch of
             Throws x \<Rightarrow> [Throws x]
           | Undefined \<Rightarrow> [Undefined]
           | Returns ec \<Rightarrow>
               if batch_ok batch then map (\<lambda>row. Returns (ec, row)) [0..<rb_num_rows batch] @ feather_rows p rs
               else [Undefined]))"

definition feather_file_rows :: "arrow_reader \<Rightarrow> path \<Rightarrow> feather_row list" where
  "feather_file_rows arrow file_path =
     (case unwrapArrowResult file_path (arrow file_path) of
        Inl x \<Rightarrow> [Throws x]
      | Inr batches \<Rightarrow> feather_rows file_path batches)"

text \<open>The body of the inner loop.\<close>

definition feather_row_parser :: "feather_row line_parser" where
  "feather_row_parser item line_number source_file_id source_sequence =
     escaping (outcome_bind item (\<lambda>(ec, row). row_event ec source_file_id source_sequence row))"

lemma feather_row_parser_fails [simp]:
  "feather_row_parser (Throws x) n f s = Inl x"
  "feather_row_parser Undefined n f s = escaping Undefined"
  by (simp_all add: feather_row_parser_def)

lemma row_event_numbered:
  "row_event ec f n row = Returns e \<Longrightarrow> ev_source_file_id e = f \<and> ev_source_sequence e = n"
  by (auto simp: row_event_def outcome_bind_Returns)

lemma feather_numbers_events: "numbers_events feather_row_parser"
  by (auto simp: numbers_events_def feather_row_parser_def outcome_bind_Returns dest: row_event_numbered)

text \<open>Going through the rows is the reading of the file, failures included.\<close>

lemma parse_lines_append:
  "parse_lines parse f n (xs @ ys) =
     (case parse_lines parse f n xs of
        Inl x \<Rightarrow> Inl x
      | Inr es \<Rightarrow>
          (case parse_lines parse f (n + of_nat (length xs)) ys of Inl x \<Rightarrow> Inl x | Inr es' \<Rightarrow> Inr (es @ es')))"
  by (induction xs arbitrary: n) (auto simp: ac_simps split: sum.splits)

lemma parse_read_rows:
  "parse_lines feather_row_parser f n (map (\<lambda>row. Returns (ec, row)) rows) = escaping (read_rows ec f n rows)"
proof (induction rows arbitrary: n)
  case (Cons row rows)
  then show ?case
    by (cases "row_event ec f (n + 1) row"; cases "read_rows ec f (n + 1) rows")
      (simp_all add: feather_row_parser_def)
qed simp

lemma parse_feather_rows: "parse_lines feather_row_parser f n (feather_rows p bs) = escaping (read_batches p f n bs)"
proof (induction bs arbitrary: n)
  case (Cons r rs)
  show ?case
  proof (cases "unwrapArrowResult p r")
    case (Inr batch)
    show ?thesis
    proof (cases "batch_columns batch")
      case (Returns ec)
      have "parse_lines feather_row_parser f n (map (\<lambda>row. Returns (ec, row)) [0..<rb_num_rows batch] @ feather_rows p rs) =
          escaping (outcome_bind (read_rows ec f n [0..<rb_num_rows batch]) (\<lambda>es.
            outcome_bind (read_batches p f (n + of_nat (rb_num_rows batch)) rs) (\<lambda>more. Returns (es @ more))))"
        by (cases "read_rows ec f n [0..<rb_num_rows batch]"; cases "read_batches p f (n + of_nat (rb_num_rows batch)) rs")
          (simp_all add: parse_lines_append parse_read_rows Cons.IH)
      with Inr Returns show ?thesis by simp
    qed (use Inr in simp_all)
  qed simp
qed simp

lemma parse_feather_file:
  "parse_lines feather_row_parser f 0 (feather_file_rows arrow p) = escaping (FeatherEventReader_readAll arrow p f)"
  by (simp add: feather_file_rows_def FeatherEventReader_readAll_def parse_feather_rows
      split: sum.split)

section \<open>FeatherHardRunnerSupport.cpp\<close>

definition startFeatherProducerThreads ::
  "arrow_reader \<Rightarrow> filesystem \<Rightarrow> path list \<Rightarrow> exn + EventQueue list \<times> feather_row producer list" where
  "startFeatherProducerThreads arrow fs files =
     (case validateReadableFiles fs files of
        Inl x \<Rightarrow> Inl x
      | Inr _ \<Rightarrow>
          (case makeEventQueue of
             Inl x \<Rightarrow> Inl x
           | Inr queue \<Rightarrow>
               Inr (replicate (length files) queue,
                    map (\<lambda>index. producer_new index (feather_file_rows arrow (files ! index)) index) [0..<length files])))"

text \<open>The runners on a folder of Feather files.\<close>

definition FlatMergeRunner_start_feather ::
  "arrow_reader \<Rightarrow> filesystem \<Rightarrow> path \<Rightarrow> 'p \<Rightarrow> exn + (feather_row, 'p) merge_net" where
  "FlatMergeRunner_start_feather arrow fs folder processor =
     (case discoverInputFiles fs folder Feather of
        Inl x \<Rightarrow> Inl x
      | Inr files \<Rightarrow>
          (case startFeatherProducerThreads arrow fs files of
             Inl x \<Rightarrow> Inl x
           | Inr (queues, producers) \<Rightarrow>
               (case makeEventQueue of
                  Inl x \<Rightarrow> Inl x
                | Inr merged_queue \<Rightarrow> Inr (flat_network merged_queue queues producers processor))))"

definition HierarchicalMergeRunner_start_feather ::
  "arrow_reader \<Rightarrow> filesystem \<Rightarrow> path \<Rightarrow> 'p \<Rightarrow> exn + (feather_row, 'p) merge_net" where
  "HierarchicalMergeRunner_start_feather arrow fs folder processor =
     (case discoverInputFiles fs folder Feather of
        Inl x \<Rightarrow> Inl x
      | Inr files \<Rightarrow>
          (case startFeatherProducerThreads arrow fs files of
             Inl x \<Rightarrow> Inl x
           | Inr (queues, producers) \<Rightarrow>
               (case makeEventQueue of
                  Inl x \<Rightarrow> Inl x
                | Inr queue \<Rightarrow> Inr (hierarchical_network queue queues producers processor))))"

abbreviation feather_inputs :: "arrow_reader \<Rightarrow> path list \<Rightarrow> feather_row list list" where
  "feather_inputs arrow files \<equiv> map (feather_file_rows arrow) files"

lemma feather_start:
  assumes "startFeatherProducerThreads arrow fs files = Inr (queues, producers)" and "makeEventQueue = Inr queue"
  shows "queues = replicate (length (feather_inputs arrow files)) queue"
    and "producers = input_producers (feather_inputs arrow files)"
  using assms(1) by (auto simp: startFeatherProducerThreads_def assms(2) split: sum.splits)

section \<open>Runs over Feather files\<close>

definition feather_reads :: "arrow_reader \<Rightarrow> path list \<Rightarrow> MarketDataEvent list list \<Rightarrow> bool" where
  "feather_reads arrow files evs \<longleftrightarrow>
     length evs = length files \<and>
     (\<forall>i < length files. FeatherEventReader_readAll arrow (files ! i) (of_nat i) = Returns (evs ! i))"

lemma feather_parsed: "feather_reads arrow files evs \<Longrightarrow> parsed_inputs feather_row_parser (feather_inputs arrow files) evs"
  by (simp add: feather_reads_def parsed_inputs_def parse_feather_file)

lemma flat_feather_result:
  assumes "FlatMergeRunner_start_feather arrow fs folder processor = Inr net"
    and "discoverInputFiles fs folder Feather = Inr files" and "feather_reads arrow files evs" and "ordered_inputs evs"
  shows "\<exists>bound. \<forall>rounds. bound \<le> length rounds \<and> list_all (fair_round net) rounds \<longrightarrow>
    (\<exists>net'. net_run feather_row_parser process net (concat rounds) = Some net' \<and> net_finished feather_row_parser net' \<and>
       run_result ''flat'' net' = Some (merged_result ''flat'' process processor evs))"
proof -
  from assms(1,2) obtain queues producers queue where s: "startFeatherProducerThreads arrow fs files = Inr (queues, producers)"
    "makeEventQueue = Inr queue" "net = flat_network queue queues producers processor"
    by (auto simp: FlatMergeRunner_start_feather_def split: sum.splits)
  show ?thesis
    unfolding s(3) feather_start [OF s(1,2)]
    by (rule flat_inputs_result [OF s(2) feather_parsed [OF assms(3)] feather_numbers_events assms(4)])
qed

lemma hierarchical_feather_result:
  assumes "HierarchicalMergeRunner_start_feather arrow fs folder processor = Inr net"
    and "discoverInputFiles fs folder Feather = Inr files" and "feather_reads arrow files evs" and "ordered_inputs evs"
  shows "\<exists>bound. \<forall>rounds. bound \<le> length rounds \<and> list_all (fair_round net) rounds \<longrightarrow>
    (\<exists>net'. net_run feather_row_parser process net (concat rounds) = Some net' \<and> net_finished feather_row_parser net' \<and>
       run_result ''hierarchy'' net' = Some (merged_result ''hierarchy'' process processor evs))"
proof -
  from assms(1,2) obtain queues producers queue where s: "startFeatherProducerThreads arrow fs files = Inr (queues, producers)"
    "makeEventQueue = Inr queue" "net = hierarchical_network queue queues producers processor"
    by (auto simp: HierarchicalMergeRunner_start_feather_def split: sum.splits)
  have ne: "feather_inputs arrow files \<noteq> []" using discover_nonempty [OF assms(2)] by simp
  show ?thesis
    unfolding s(3) feather_start [OF s(1,2)]
    by (rule hierarchical_inputs_result [OF s(2) ne feather_parsed [OF assms(3)] feather_numbers_events assms(4)])
qed

section \<open>Folders converted from lines\<close>

definition lines_carry :: "'v simdjson \<Rightarrow> string list \<Rightarrow> source_row list \<Rightarrow> bool" where
  "lines_carry sj lines rs \<longleftrightarrow>
     list_all2 (\<lambda>line sr. \<exists>fs. sj_iterate sj line = Inr (fs, None) \<and> row_carries sj sr fs) lines rs"

text \<open>Both folders hold the same rows, file by file: one as lines, the other as the converter writes them.\<close>

definition converted_folder ::
  "'v simdjson \<Rightarrow> string list list \<Rightarrow> arrow_reader \<Rightarrow> path list \<Rightarrow> source_row list list \<Rightarrow> bool" where
  "converted_folder sj inputs arrow files rows \<longleftrightarrow>
     length inputs = length rows \<and> length files = length rows \<and>
     (\<forall>i < length rows. lines_carry sj (inputs ! i) (rows ! i) \<and> converted arrow (files ! i) (rows ! i))"

definition file_events :: "MarketDataEvent list list \<Rightarrow> MarketDataEvent list list" where
  "file_events ess = map (\<lambda>i. numbered_all (of_nat i) 0 (ess ! i)) [0..<length ess]"

lemma carried_lines_parsed:
  "lines_carry sj lines rs \<Longrightarrow> map source_event rs = map Some es \<Longrightarrow>
   parse_lines (json_line_parser sj) f n lines = Inr (numbered_all f n es)"
  unfolding lines_carry_def
proof (induction lines rs arbitrary: n es rule: list_all2_induct)
  case (Cons line lines sr rs)
  then obtain e es' where es: "es = e # es'" "source_event sr = Some e" "map source_event rs = map Some es'"
    by (cases es) auto
  from Cons(1) obtain fs where fs: "sj_iterate sj line = Inr (fs, None)" "row_carries sj sr fs" by blast
  have "json_line_parser sj line (n + 1) f (n + 1) = Inr (with_numbers (n + 1) f (n + 1) e)"
    using carried_line_parsed [OF fs es(2)] by (simp add: json_line_parser_Inr)
  with Cons.IH [OF es(3), of "n + 1"] es(1) show ?case by simp
qed simp

lemma converted_folder_read:
  assumes "converted_folder sj inputs arrow files rows" and "map (map source_event) rows = map (map Some) ess"
  shows "parsed_inputs (json_line_parser sj) inputs (file_events ess)" and "feather_reads arrow files (file_events ess)"
proof -
  have len: "length ess = length rows" using arg_cong [OF assms(2), of length] by simp
  have ev: "map source_event (rows ! i) = map Some (ess ! i)" if "i < length rows" for i
    using that len arg_cong [OF assms(2), of "\<lambda>xs. xs ! i"] by simp
  show "parsed_inputs (json_line_parser sj) inputs (file_events ess)"
    using assms(1) len ev carried_lines_parsed
    by (fastforce simp: parsed_inputs_def converted_folder_def file_events_def)
  show "feather_reads arrow files (file_events ess)"
    using assms(1) len ev converted_read
    by (fastforce simp: feather_reads_def converted_folder_def file_events_def)
qed

section \<open>Properties\<close>

text \<open>
  C37: Converting the input to Feather changes nothing. Let a folder of lines carry rows whose texts can
  be parsed, each file in order of time, and let another folder hold the same rows as the converter
  writes them, file by file and in batches of any size. Then the flat runner on the lines and both
  runners on the Feather files end under all fair schedules that are long enough, without a deadlock,
  and the processor, the summary and the diagnostics are the same.
\<close>

theorem feather_conversion_same_run:
  assumes "FlatMergeRunner_start fs json_folder Json processor = Inr net1"
    and "FlatMergeRunner_start_feather arrow fs folder processor = Inr net2"
    and "HierarchicalMergeRunner_start_feather arrow fs folder processor = Inr net3"
    and "discoverInputFiles fs json_folder Json = Inr json_files" and "discoverInputFiles fs folder Feather = Inr files"
    and "converted_folder sj (input_lines fs json_files) arrow files rows"
    and "map (map source_event) rows = map (map Some) ess" and "ordered_inputs (file_events ess)"
  shows "\<exists>bound. \<forall>rounds1 rounds2 rounds3.
      bound \<le> length rounds1 \<and> list_all (fair_round net1) rounds1 \<and>
      bound \<le> length rounds2 \<and> list_all (fair_round net2) rounds2 \<and>
      bound \<le> length rounds3 \<and> list_all (fair_round net3) rounds3 \<longrightarrow>
    (\<exists>net1' net2' net3' r. net_run (json_line_parser sj) process net1 (concat rounds1) = Some net1' \<and>
       net_run feather_row_parser process net2 (concat rounds2) = Some net2' \<and>
       net_run feather_row_parser process net3 (concat rounds3) = Some net3' \<and>
       net_finished (json_line_parser sj) net1' \<and> net_finished feather_row_parser net2' \<and>
       net_finished feather_row_parser net3' \<and>
       run_result ''flat'' net1' = Some r \<and> run_result ''flat'' net2' = Some r \<and>
       run_result ''hierarchy'' net3' = Some (r\<lparr>rr_strategy_name := ''hierarchy''\<rparr>))"
proof -
  let ?evs = "file_events ess"
  note reads = converted_folder_read [OF assms(6,7)]
  from flat_network_result [OF assms(1,4) reads(1) json_numbers_events assms(8), of process] obtain b1 where
    b1: "\<And>rounds. b1 \<le> length rounds \<Longrightarrow> list_all (fair_round net1) rounds \<Longrightarrow>
    \<exists>net'. net_run (json_line_parser sj) process net1 (concat rounds) = Some net' \<and> net_finished (json_line_parser sj) net' \<and>
       run_result ''flat'' net' = Some (merged_result ''flat'' process processor ?evs)" by blast
  from flat_feather_result [OF assms(2,5) reads(2) assms(8), of process] obtain b2 where
    b2: "\<And>rounds. b2 \<le> length rounds \<Longrightarrow> list_all (fair_round net2) rounds \<Longrightarrow>
    \<exists>net'. net_run feather_row_parser process net2 (concat rounds) = Some net' \<and> net_finished feather_row_parser net' \<and>
       run_result ''flat'' net' = Some (merged_result ''flat'' process processor ?evs)" by blast
  from hierarchical_feather_result [OF assms(3,5) reads(2) assms(8), of process] obtain b3 where
    b3: "\<And>rounds. b3 \<le> length rounds \<Longrightarrow> list_all (fair_round net3) rounds \<Longrightarrow>
    \<exists>net'. net_run feather_row_parser process net3 (concat rounds) = Some net' \<and> net_finished feather_row_parser net' \<and>
       run_result ''hierarchy'' net' = Some (merged_result ''hierarchy'' process processor ?evs)" by blast
  have "merged_result ''hierarchy'' process processor ?evs =
      (merged_result ''flat'' process processor ?evs)\<lparr>rr_strategy_name := ''hierarchy''\<rparr>"
    by (simp add: merged_result_def Let_def)
  with b1 b2 b3 show ?thesis
    by (intro exI [of _ "max b1 (max b2 b3)"]) (metis max.bounded_iff)
qed

text \<open>A folder with two files of lines and what they were converted to, the first file in two batches.\<close>

definition demo_quote_row :: "string \<Rightarrow> source_row" where
  "demo_quote_row t = demo_row\<lparr>sr_ts_recv := Some t\<rparr>"

definition demo_rows :: "source_row list list" where
  "demo_rows = [[demo_quote_row ''10'', demo_quote_row ''30''], [demo_quote_row ''20'']]"

definition demo_quote :: "u64 \<Rightarrow> MarketDataEvent" where
  "demo_quote t = demo_row_event\<lparr>ev_ts_recv := t, ev_timestamp := t\<rparr>"

definition demo_quotes :: "MarketDataEvent list list" where
  "demo_quotes = [[demo_quote 10, demo_quote 30], [demo_quote 20]]"

definition demo_folder :: filesystem where
  "demo_folder =
     \<lparr>fs_exists = (\<lambda>p. True), fs_is_directory = (\<lambda>p. p = ''d''), fs_is_regular_file = (\<lambda>p. p \<noteq> ''d''),
      fs_entries = (\<lambda>_. [''d/b.json'', ''d/a.feather'', ''d/b.feather'', ''d/a.json'']),
      fs_lines = (\<lambda>p. Some (if p = ''d/a.json'' then [''first'', ''third''] else [''second'']))\<rparr>"

definition demo_quote_line :: "string \<Rightarrow> (string \<times> demo_value) list" where
  "demo_quote_line line =
     butlast demo_line @ [(''ts_recv'', Token (if line = ''first'' then ''10 '' else if line = ''second'' then quoted ''20'' else ''30''))]"

definition demo_json :: "demo_value simdjson" where
  "demo_json = demo_library demo_quote_line"

definition demo_arrow :: arrow_reader where
  "demo_arrow p =
     Inr (map (\<lambda>rs. Inr (converter_batch rs))
       (if p = ''d/a.feather'' then [[demo_quote_row ''10''], [demo_quote_row ''30'']] else [[demo_quote_row ''20'']]))"

lemma demo_folder_files:
  "discoverInputFiles demo_folder ''d'' Json = Inr [''d/a.json'', ''d/b.json'']"
  "discoverInputFiles demo_folder ''d'' Feather = Inr [''d/a.feather'', ''d/b.feather'']"
  by code_simp+

lemma demo_rows_events: "map (map source_event) demo_rows = map (map Some) demo_quotes"
proof -
  have "printed_row exact_division (demo_quote (of_nat n)) (demo_quote_row (dec_of_nat n))" if "n < 100" for n
    using demo_row_printed that
    by (simp add: printed_row_def demo_quote_def demo_quote_row_def demo_row_def stamp_text_def [of "of_nat n"] unat_of_nat_u64 two64_def)
  from printed_event [OF exact_division_enough this]
  have printed: "source_event (demo_quote_row (dec_of_nat n)) = Some (with_numbers 0 0 0 ((demo_quote (of_nat n))
      \<lparr>ev_timestamp := (if (of_nat n :: u64) \<noteq> 0 then of_nat n else ev_ts_event (demo_quote (of_nat n)))\<rparr>))" if "n < 100" for n
    using that by (simp add: demo_quote_def)
  have nz: "(of_nat n :: u64) \<noteq> 0" if "0 < n" "n < 100" for n
    using unat_of_nat_u64 [of n] that by (auto simp: two64_def)
  have ev: "source_event (demo_quote_row (dec_of_nat n)) = Some (demo_quote (of_nat n))" if "0 < n" "n < 100" for n
    unfolding printed [OF that(2)] using nz [OF that]
    by (simp add: with_numbers_def demo_quote_def demo_row_event_def event_def default_event_def)
  have "''10'' = dec_of_nat 10" "''20'' = dec_of_nat 20" "''30'' = dec_of_nat 30" by code_simp+
  then show ?thesis using ev [of 10] ev [of 20] ev [of 30] by (simp add: demo_rows_def demo_quotes_def)
qed

lemma demo_quotes_ordered: "ordered_inputs (file_events demo_quotes)"
  by (simp add: ordered_inputs_def file_events_def demo_quotes_def demo_quote_def with_numbers_def two64_def)

lemma demo_lines:
  "row_carries demo_json (demo_quote_row ''10'') (demo_quote_line ''first'')"
  "row_carries demo_json (demo_quote_row ''20'') (demo_quote_line ''second'')"
  "row_carries demo_json (demo_quote_row ''30'') (demo_quote_line ''third'')"
  by code_simp+

lemma demo_converted:
  "converted_folder demo_json (input_lines demo_folder [''d/a.json'', ''d/b.json'']) demo_arrow [''d/a.feather'', ''d/b.feather'']
     demo_rows"
proof -
  have "sj_iterate demo_json line = Inr (demo_quote_line line, None)" for line
    by (simp add: demo_json_def demo_library_def)
  then have "lines_carry demo_json [''first'', ''third''] (demo_rows ! 0)" "lines_carry demo_json [''second''] (demo_rows ! 1)"
    using demo_lines by (simp_all add: lines_carry_def demo_rows_def)
  moreover have "converted demo_arrow ''d/a.feather'' (demo_rows ! 0)"
    unfolding converted_def
    by (intro exI [of _ "[[demo_quote_row ''10''], [demo_quote_row ''30'']]"]) (simp add: demo_arrow_def demo_rows_def)
  moreover have "converted demo_arrow ''d/b.feather'' (demo_rows ! 1)"
    unfolding converted_def
    by (intro exI [of _ "[[demo_quote_row ''20'']]"]) (simp add: demo_arrow_def demo_rows_def)
  moreover have "input_lines demo_folder [''d/a.json'', ''d/b.json''] = [[''first'', ''third''], [''second'']]"
    by (simp add: input_lines_def demo_folder_def)
  ultimately show ?thesis by (simp add: converted_folder_def less_Suc_eq demo_rows_def)
qed

lemma demo_feather_starts:
  "\<exists>net. FlatMergeRunner_start demo_folder ''d'' Json p = Inr net"
  "\<exists>net. FlatMergeRunner_start_feather demo_arrow demo_folder ''d'' p = Inr net"
  "\<exists>net. HierarchicalMergeRunner_start_feather demo_arrow demo_folder ''d'' p = Inr net"
  unfolding FlatMergeRunner_start_def FlatMergeRunner_start_feather_def HierarchicalMergeRunner_start_feather_def demo_folder_files
  by (simp_all add: startProducerThreads_def startFeatherProducerThreads_def makeEventQueue_def NBQ_new_def
      event_queue_batch_size_def demo_folder_def)

theorem feather_conversion_same_run_witness:
  "\<exists>net1 net2 net3 rounds1 rounds2 rounds3 net1' net2' net3' r.
     FlatMergeRunner_start demo_folder ''d'' Json ([] :: u64 list) = Inr net1 \<and>
     FlatMergeRunner_start_feather demo_arrow demo_folder ''d'' ([] :: u64 list) = Inr net2 \<and>
     HierarchicalMergeRunner_start_feather demo_arrow demo_folder ''d'' ([] :: u64 list) = Inr net3 \<and>
     net_run (json_line_parser demo_json) demo_process net1 (concat rounds1) = Some net1' \<and>
     net_run feather_row_parser demo_process net2 (concat rounds2) = Some net2' \<and>
     net_run feather_row_parser demo_process net3 (concat rounds3) = Some net3' \<and>
     run_result ''flat'' net1' = Some r \<and> run_result ''flat'' net2' = Some r \<and>
     run_result ''hierarchy'' net3' = Some (r\<lparr>rr_strategy_name := ''hierarchy''\<rparr>)"
proof -
  obtain net1 where net1: "FlatMergeRunner_start demo_folder ''d'' Json ([] :: u64 list) = Inr net1"
    using demo_feather_starts(1) [of "[]"] by blast
  obtain net2 where net2: "FlatMergeRunner_start_feather demo_arrow demo_folder ''d'' ([] :: u64 list) = Inr net2"
    using demo_feather_starts(2) [of "[]"] by blast
  obtain net3 where net3: "HierarchicalMergeRunner_start_feather demo_arrow demo_folder ''d'' ([] :: u64 list) = Inr net3"
    using demo_feather_starts(3) [of "[]"] by blast
  note run = feather_conversion_same_run [OF net1 net2 net3 demo_folder_files demo_converted demo_rows_events
    demo_quotes_ordered, of demo_process]
  then obtain bound where b: "\<And>rounds1 rounds2 rounds3.
      bound \<le> length rounds1 \<and> list_all (fair_round net1) rounds1 \<and>
      bound \<le> length rounds2 \<and> list_all (fair_round net2) rounds2 \<and>
      bound \<le> length rounds3 \<and> list_all (fair_round net3) rounds3 \<Longrightarrow>
    \<exists>net1' net2' net3' r. net_run (json_line_parser demo_json) demo_process net1 (concat rounds1) = Some net1' \<and>
       net_run feather_row_parser demo_process net2 (concat rounds2) = Some net2' \<and>
       net_run feather_row_parser demo_process net3 (concat rounds3) = Some net3' \<and>
       run_result ''flat'' net1' = Some r \<and> run_result ''flat'' net2' = Some r \<and>
       run_result ''hierarchy'' net3' = Some (r\<lparr>rr_strategy_name := ''hierarchy''\<rparr>)" by blast
  from b [OF conjI [OF fair_bound conjI [OF fair_replicate conjI [OF fair_bound conjI [OF fair_replicate
      conjI [OF fair_bound fair_replicate]]]]]] net1 net2 net3 show ?thesis by blast
qed

end
