(* ===== verification/GatewaySession.thy ===== *)
theory GatewaySession
  imports OrderGatewayClient
begin

text \<open>
  The gateway as one trading engine sees it, client and server together: what the other engines
  do has no influence on the replies to an engine that owns its channel, and a drain and a flush
  of the server bring every visible request of the engine back to its client as one reply.
\<close>

section \<open>Replies depend on the orders of the engine only\<close>

definition own_orders :: "order_map \<Rightarrow> trading_engine_id \<Rightarrow> order_id \<rightharpoonup> OrderSnapshot" where
  "own_orders m eid oid = m (eid, oid)"

lemma verdict_own: "own_orders m eid = own_orders m' eid \<Longrightarrow> verdict m eid r = verdict m' eid r"
  by (cases r) (auto simp: verdict_simps own_orders_def fun_eq_iff)

lemma reply_own: "own_orders m eid = own_orders m' eid \<Longrightarrow> reply m eid r = reply m' eid r"
  using verdict_own [of m eid m' r] by (simp add: reply_def)

lemma after_request_own:
  assumes "own_orders m eid = own_orders m' eid"
  shows "own_orders (after_request m eid r) eid = own_orders (after_request m' eid r) eid"
proof -
  have "accepted_order m eid r = accepted_order m' eid r"
    using assms by (cases r) (auto simp: own_orders_def fun_eq_iff)
  with assms verdict_own [OF assms, of r] show ?thesis
    by (auto simp: after_request_def own_orders_def fun_eq_iff split: option.split)
qed

lemma replies_own: "own_orders m eid = own_orders m' eid \<Longrightarrow> replies m eid rs = replies m' eid rs"
proof (induction rs arbitrary: m m')
  case (Cons r rs)
  from reply_own [OF Cons.prems] Cons.IH [OF after_request_own [OF Cons.prems]] show ?case by simp
qed simp

lemma after_requests_other:
  "eid \<noteq> eid' \<Longrightarrow> own_orders (after_requests m eid' rs) eid = own_orders m eid"
  by (induction rs arbitrary: m) (auto simp: after_request_def own_orders_def fun_eq_iff split: option.split)

section \<open>A drain of all engines\<close>

text \<open>The channel of an engine is its own when no other session uses it.\<close>

definition owns_channel :: "trading_engine_id \<Rightarrow> chan \<Rightarrow> OrderGatewayServer \<Rightarrow> bool" where
  "owns_channel eid c s \<longleftrightarrow>
     (\<forall>eid' x. map_of (gs_sessions s) eid' = Some x \<longrightarrow> (se_channel x = c) = (eid' = eid)) \<and>
     GS_hasEngine eid s"

lemma owns_channelE:
  assumes "owns_channel eid c s"
  obtains session where "map_of (gs_sessions s) eid = Some session" "se_channel session = c"
  using assms by (auto simp: owns_channel_def GS_hasEngine_def simp del: map_of_eq_Some_iff map_of_eq_None_iff)

lemma GS_drainSession_step:
  assumes "gateway_inv (s, chs)" and "map_of (gs_sessions s) eid = Some session"
  obtains s' chs' ts where
    "GS_drainSession session s chs transitions drained = Some (s', chs', transitions @ ts, drained + of_nat (length ts))"
    "gateway_inv (s', chs')" "s' = s\<lparr>gs_orders := gs_orders s'\<rparr>" "fst ` set chs' = fst ` set chs"
    "map_of (gs_orders s') = after_requests (map_of (gs_orders s)) eid (visible_requests chs (se_channel session))"
    "events_at chs' = (events_at chs)(se_channel session := events_at chs (se_channel session) @
       replies (map_of (gs_orders s)) eid (visible_requests chs (se_channel session)))"
    "visible_requests chs' = (visible_requests chs)(se_channel session := [])"
proof -
  have ch: "channels_ok chs" "se_channel session \<in> fst ` set chs" and eid: "se_trading_engine_id session = eid"
    using assms by (auto simp: gateway_inv_def simp del: map_of_eq_Some_iff)
  from GS_drainSession_correct [OF ch, of s transitions drained, unfolded eid] obtain s' chs' ts where
    d: "GS_drainSession session s chs transitions drained =
          Some (s', chs', transitions @ ts, drained + of_nat (length ts))"
      "map_of (gs_orders s') = after_requests (map_of (gs_orders s)) eid (visible_requests chs (se_channel session))"
      "s' = s\<lparr>gs_orders := gs_orders s'\<rparr>" "distinct (keys (gs_orders s)) \<longrightarrow> distinct (keys (gs_orders s'))"
      "channels_ok chs'" "fst ` set chs' = fst ` set chs"
      "events_at chs' = (events_at chs)(se_channel session := events_at chs (se_channel session) @
         replies (map_of (gs_orders s)) eid (visible_requests chs (se_channel session)))"
      "visible_requests chs' = (visible_requests chs)(se_channel session := [])" by metis
  have "gs_sessions s' = gs_sessions s" by (subst d(3)) simp
  then have "gateway_inv (s', chs')"
    using assms(1) d(2,4,5,6) orders_ok_requests by (simp add: gateway_inv_def del: map_of_eq_Some_iff)
  with d that show ?thesis by blast
qed

lemma GS_drainEngines_append:
  "GS_drainEngines (xs @ ys) s chs ts n =
     Option.bind (GS_drainEngines xs s chs ts n) (\<lambda>(s', chs', ts', n'). GS_drainEngines ys s' chs' ts' n')"
proof (induction xs arbitrary: s chs ts n)
  case (Cons x xs)
  then show ?case
    by (cases "map_of (gs_sessions s) x"; cases "GS_drainSession (the (map_of (gs_sessions s) x)) s chs ts n")
      (auto simp del: map_of_eq_Some_iff map_of_eq_None_iff)
qed simp

text \<open>The sessions of other engines leave the channel and the orders of an engine alone.\<close>

lemma GS_drainEngines_others:
  assumes "gateway_inv (s, chs)" and "owns_channel eid c s" and "eid \<notin> set eids"
  shows "\<exists>s' chs' ts n. GS_drainEngines eids s chs transitions drained = Some (s', chs', ts, n) \<and>
     gateway_inv (s', chs') \<and> s' = s\<lparr>gs_orders := gs_orders s'\<rparr> \<and>
     own_orders (map_of (gs_orders s')) eid = own_orders (map_of (gs_orders s)) eid \<and>
     events_at chs' c = events_at chs c \<and> visible_requests chs' c = visible_requests chs c"
  using assms
proof (induction eids arbitrary: s chs transitions drained)
  case (Cons e eids)
  show ?case
  proof (cases "map_of (gs_sessions s) e")
    case None
    with Cons show ?thesis by simp
  next
    case (Some session)
    obtain s1 chs1 ts1 where d:
      "GS_drainSession session s chs transitions drained = Some (s1, chs1, transitions @ ts1, drained + of_nat (length ts1))"
      "gateway_inv (s1, chs1)" "s1 = s\<lparr>gs_orders := gs_orders s1\<rparr>"
      "map_of (gs_orders s1) = after_requests (map_of (gs_orders s)) e (visible_requests chs (se_channel session))"
      "events_at chs1 = (events_at chs)(se_channel session := events_at chs (se_channel session) @
         replies (map_of (gs_orders s)) e (visible_requests chs (se_channel session)))"
      "visible_requests chs1 = (visible_requests chs)(se_channel session := [])"
      by (rule GS_drainSession_step [OF Cons.prems(1) Some])
    have c: "se_channel session \<noteq> c" using Cons.prems(2,3) Some by (auto simp: owns_channel_def)
    have sessions: "gs_sessions s1 = gs_sessions s" by (subst d(3)) simp
    then have "owns_channel eid c s1" using Cons.prems(2) by (simp add: owns_channel_def GS_hasEngine_def)
    from Cons.IH [OF d(2) this, of "transitions @ ts1" "drained + of_nat (length ts1)"] Cons.prems(3) obtain s' chs' ts n where
      r: "GS_drainEngines eids s1 chs1 (transitions @ ts1) (drained + of_nat (length ts1)) = Some (s', chs', ts, n)"
      "gateway_inv (s', chs')" "s' = s1\<lparr>gs_orders := gs_orders s'\<rparr>"
      "own_orders (map_of (gs_orders s')) eid = own_orders (map_of (gs_orders s1)) eid"
      "events_at chs' c = events_at chs1 c" "visible_requests chs' c = visible_requests chs1 c" by auto
    moreover have "s' = s\<lparr>gs_orders := gs_orders s'\<rparr>" using r(3) by (subst (asm) d(3)) simp
    moreover have "own_orders (map_of (gs_orders s1)) eid = own_orders (map_of (gs_orders s)) eid"
      using Cons.prems(3) d(4) by (simp add: after_requests_other)
    ultimately show ?thesis using d Some c by (simp del: map_of_eq_Some_iff)
  qed
qed force

lemma GS_drainEngines_session:
  assumes inv: "gateway_inv (s, chs)" and own: "owns_channel eid c s" and "distinct eids" and "eid \<in> set eids"
  shows "\<exists>s' chs' ts n. GS_drainEngines eids s chs transitions drained = Some (s', chs', ts, n) \<and>
     gateway_inv (s', chs') \<and> s' = s\<lparr>gs_orders := gs_orders s'\<rparr> \<and>
     own_orders (map_of (gs_orders s')) eid = own_orders (after_requests (map_of (gs_orders s)) eid (visible_requests chs c)) eid \<and>
     events_at chs' c = events_at chs c @ replies (map_of (gs_orders s)) eid (visible_requests chs c) \<and>
     visible_requests chs' c = []"
proof -
  obtain xs ys where eids: "eids = xs @ eid # ys" "eid \<notin> set xs" "eid \<notin> set ys"
    using assms(3,4) by (metis split_list distinct.simps(2) distinct_append not_distinct_conv_prefix disjoint_iff list.set_intros(1))
  from GS_drainEngines_others [OF inv own eids(2), of transitions drained] obtain s1 chs1 ts1 n1 where
    a: "GS_drainEngines xs s chs transitions drained = Some (s1, chs1, ts1, n1)" "gateway_inv (s1, chs1)"
    "s1 = s\<lparr>gs_orders := gs_orders s1\<rparr>" "own_orders (map_of (gs_orders s1)) eid = own_orders (map_of (gs_orders s)) eid"
    "events_at chs1 c = events_at chs c" "visible_requests chs1 c = visible_requests chs c" by blast
  have s1: "gs_sessions s1 = gs_sessions s" by (subst a(3)) simp
  obtain session where session: "map_of (gs_sessions s1) eid = Some session" "se_channel session = c"
    unfolding s1 by (rule owns_channelE [OF own])
  obtain s2 chs2 ts2 where b:
    "GS_drainSession session s1 chs1 ts1 n1 = Some (s2, chs2, ts1 @ ts2, n1 + of_nat (length ts2))"
    "gateway_inv (s2, chs2)" "s2 = s1\<lparr>gs_orders := gs_orders s2\<rparr>"
    "map_of (gs_orders s2) = after_requests (map_of (gs_orders s1)) eid (visible_requests chs1 c)"
    "events_at chs2 = (events_at chs1)(c := events_at chs1 c @ replies (map_of (gs_orders s1)) eid (visible_requests chs1 c))"
    "visible_requests chs2 = (visible_requests chs1)(c := [])"
    by (rule GS_drainSession_step [OF a(2) session(1), unfolded session(2)])
  have "gs_sessions s2 = gs_sessions s" by (subst b(3)) (simp add: s1)
  then have own2: "owns_channel eid c s2" using own by (simp add: owns_channel_def GS_hasEngine_def)
  from GS_drainEngines_others [OF b(2) own2 eids(3), of "ts1 @ ts2" "n1 + of_nat (length ts2)"] obtain s' chs' ts n where
    d: "GS_drainEngines ys s2 chs2 (ts1 @ ts2) (n1 + of_nat (length ts2)) = Some (s', chs', ts, n)" "gateway_inv (s', chs')"
    "s' = s2\<lparr>gs_orders := gs_orders s'\<rparr>" "own_orders (map_of (gs_orders s')) eid = own_orders (map_of (gs_orders s2)) eid"
    "events_at chs' c = events_at chs2 c" "visible_requests chs' c = visible_requests chs2 c" by blast
  have "GS_drainEngines eids s chs transitions drained = Some (s', chs', ts, n)"
    using a(1) session(1) b(1) d(1) by (simp add: eids(1) GS_drainEngines_append del: map_of_eq_Some_iff)
  moreover have "s' = s\<lparr>gs_orders := gs_orders s'\<rparr>" using d(3) by (subst (asm) b(3), subst (asm) a(3)) simp
  moreover have "own_orders (after_requests (map_of (gs_orders s1)) eid rs) eid = own_orders (after_requests (map_of (gs_orders s)) eid rs) eid" for rs
    using a(4) by (induction rs rule: rev_induct) (auto intro: after_request_own)
  ultimately show ?thesis
    using a b(4-6) d(2,4-6) replies_own [OF a(4), of "visible_requests chs c"] by simp
qed

section \<open>Every registered engine is served\<close>

definition engines_ok :: "OrderGatewayServer \<Rightarrow> bool" where
  "engines_ok s \<longleftrightarrow> distinct (gs_engine_order s) \<and> set (gs_engine_order s) = fst ` set (gs_sessions s)"

lemma engines_ok_orders: "s' = s\<lparr>gs_orders := m\<rparr> \<Longrightarrow> engines_ok s' = engines_ok s"
  by (simp add: engines_ok_def)

lemma GS_drainEngines_sessions:
  assumes "gateway_inv (s, chs)" and "GS_drainEngines eids s chs transitions drained = Some (s', chs', ts, n)"
  shows "s' = s\<lparr>gs_orders := gs_orders s'\<rparr>"
  using assms
proof (induction eids arbitrary: s chs transitions drained)
  case (Cons e eids)
  show ?case
  proof (cases "map_of (gs_sessions s) e")
    case None
    with Cons show ?thesis by simp
  next
    case (Some session)
    obtain s1 chs1 ts1 where d:
      "GS_drainSession session s chs transitions drained = Some (s1, chs1, transitions @ ts1, drained + of_nat (length ts1))"
      "gateway_inv (s1, chs1)" "s1 = s\<lparr>gs_orders := gs_orders s1\<rparr>"
      by (rule GS_drainSession_step [OF Cons.prems(1) Some])
    with Cons.prems(2) Some have "GS_drainEngines eids s1 chs1 (transitions @ ts1) (drained + of_nat (length ts1)) = Some (s', chs', ts, n)"
      by (simp del: map_of_eq_Some_iff)
    from Cons.IH [OF d(2) this] show ?thesis by (subst (asm) d(3)) simp
  qed
qed simp

lemma GS_emitFill_sessions:
  "GS_emitFill eid oid p sz ts s chs = Some (b, s', chs') \<Longrightarrow> \<exists>m. s' = s\<lparr>gs_orders := m\<rparr>"
  by (auto simp: GS_emitFill_def Let_def split: if_splits option.splits bind_splits intro: exI [of _ "gs_orders s"])

lemma gateway_engines_ok:
  assumes "gateway_step\<^sup>*\<^sup>* gateway_start (s, chs)"
  shows "engines_ok s"
  using assms
proof (induction "(s, chs)" arbitrary: s chs rule: rtranclp_induct)
  case base
  then show ?case by (auto simp: gateway_start_def GS_new_def engines_ok_def)
next
  case (step g)
  obtain s0 chs0 where g: "g = (s0, chs0)" by (cases g)
  have inv: "gateway_inv (s0, chs0)" using gateway_reachable_inv [OF step.hyps(1) gateway_start_inv] g by simp
  from step.hyps(3) [OF g] have ok: "engines_ok s0" .
  from step.hyps(2) [unfolded g] show ?case
  proof (cases rule: gateway_step.cases)
    case (register c eid)
    let ?new = "AList.update eid \<lparr>se_trading_engine_id = eid, se_channel = c\<rparr> (gs_sessions s0)"
    have "fst ` set ?new = insert eid (fst ` set (gs_sessions s0))" by (simp add: AList.dom_update)
    moreover have "s = (if GS_hasEngine eid s0 then s0 else s0\<lparr>gs_engine_order := gs_engine_order s0 @ [eid]\<rparr>)\<lparr>gs_sessions := ?new\<rparr>"
      using register by (simp add: GS_registerEngine_def Let_def split: if_splits)
    ultimately show ?thesis
      using ok by (simp add: engines_ok_def GS_hasEngine_def insert_absorb map_of_eq_None_iff split: if_splits)
  next
    case (drain n)
    then obtain ts where "GS_drainEngines (gs_engine_order s0) s0 chs0 [] 0 = Some (s, chs, ts, n)"
      by (auto simp: GS_drainRequests_def GS_drainRequests_into_def)
    from GS_drainEngines_sessions [OF inv this] show ?thesis using engines_ok_orders ok by blast
  next
    case (fill eid oid p sz ts b)
    then show ?thesis using GS_emitFill_sessions engines_ok_orders ok by blast
  qed (use ok in simp_all)
qed

text \<open>
  One round of the server, \<open>drainRequests\<close> and then \<open>flushEvents\<close>, makes the replies to the visible
  requests of an engine visible to its client, after the events that were already waiting.
\<close>

lemma gateway_round:
  assumes inv: "gateway_inv (s, chs)" and own: "owns_channel eid c s" and ok: "engines_ok s"
  obtains n s' chs1 chs2 where "GS_drainRequests s chs = Some (n, s', chs1)" "GS_flushEvents s' chs1 = Some chs2"
    "channels_ok chs2" "c \<in> fst ` set chs2"
    "visible_events chs2 c = events_at chs c @ replies (map_of (gs_orders s)) eid (visible_requests chs c)"
    "own_orders (map_of (gs_orders s')) eid = own_orders (after_requests (map_of (gs_orders s)) eid (visible_requests chs c)) eid"
proof -
  obtain session where session: "map_of (gs_sessions s) eid = Some session" "se_channel session = c"
    by (rule owns_channelE [OF own])
  have eid: "eid \<in> set (gs_engine_order s)"
    using ok session(1) by (auto simp: engines_ok_def rev_image_eqI dest: map_of_SomeD)
  from GS_drainEngines_session [OF inv own _ eid, of "[]" 0] ok obtain s' chs1 ts n where
    d: "GS_drainEngines (gs_engine_order s) s chs [] 0 = Some (s', chs1, ts, n)" "gateway_inv (s', chs1)"
      "s' = s\<lparr>gs_orders := gs_orders s'\<rparr>"
      "own_orders (map_of (gs_orders s')) eid = own_orders (after_requests (map_of (gs_orders s)) eid (visible_requests chs c)) eid"
      "events_at chs1 c = events_at chs c @ replies (map_of (gs_orders s)) eid (visible_requests chs c)"
    unfolding engines_ok_def by blast
  have same: "gs_sessions s' = gs_sessions s" "gs_engine_order s' = gs_engine_order s" by (subst d(3), simp)+
  from GS_flushEngines_correct [OF d(2), of "gs_engine_order s'"] obtain chs2 where
    f: "GS_flushEngines (gs_engine_order s') s' chs1 = Some chs2" "gateway_inv (s', chs2)"
      "visible_events chs2 c = (if \<exists>e \<in> set (gs_engine_order s'). \<exists>x. map_of (gs_sessions s') e = Some x \<and> se_channel x = c
                                then events_at chs1 c else visible_events chs1 c)" by metis
  have "visible_events chs2 c = events_at chs1 c" using f(3) eid session same by (metis (no_types))
  moreover have "channels_ok chs2" "c \<in> fst ` set chs2"
    using f(2) session same(1) by (auto simp: gateway_inv_def simp del: map_of_eq_Some_iff)
  ultimately show ?thesis
    using that d f(1) by (auto simp: GS_drainRequests_def GS_drainRequests_into_def GS_flushEvents_def)
qed

end
