(* ===== verification/PythonBindings.thy ===== *)
theory PythonBindings
  imports GatewaySession IntegratedBacktest FeatherReader ResultPrinter
begin

text \<open>
  \<^verbatim>\<open>bindings/python/backtester_module.cpp\<close>: the functions and classes that the Python strategy API calls,
  on the values that remain after pybind11 has converted the arguments. Methods bound to a
  member function of a C++ class without a wrapper are the operations of that class, and
  properties are the fields of its record. A Python callable is a function of the object it
  is given and of a state \<open>'w\<close> of the strategy; what it raises passes as a C++ exception through
  the function that called it, back to the strategy.
\<close>

section \<open>Enumerations\<close>

text \<open>The names of each enumeration with their values; \<^verbatim>\<open>py::enum_::value\<close> refuses a name that is taken.\<close>

definition py_Side :: "(string \<times> Side) list" where
  "py_Side =
     [(''Ask'', Ask), (''Bid'', Bid), (''None'', SideNone), (''ASK'', Ask), (''BID'', Bid), (''NONE'', SideNone)]"

definition py_Action :: "(string \<times> Action) list" where
  "py_Action =
     [(''Add'', Add), (''Modify'', Modify), (''Cancel'', Cancel), (''Clear'', Clear), (''Trade'', Trade),
      (''Fill'', Fill), (''None'', ActionNone), (''ADD'', Add), (''MODIFY'', Modify), (''CANCEL'', Cancel),
      (''CLEAR'', Clear), (''TRADE'', Trade), (''FILL'', Fill), (''NONE'', ActionNone)]"

definition py_OrderStatus :: "(string \<times> OrderStatus) list" where
  "py_OrderStatus =
     [(''New'', New), (''Accepted'', Accepted), (''ModifyRequested'', ModifyRequested),
      (''CancelRequested'', CancelRequested), (''PartiallyFilled'', PartiallyFilled), (''Filled'', Filled),
      (''Cancelled'', Cancelled), (''Rejected'', Rejected), (''NEW'', New), (''ACCEPTED'', Accepted),
      (''MODIFY_REQUESTED'', ModifyRequested), (''CANCEL_REQUESTED'', CancelRequested),
      (''PARTIALLY_FILLED'', PartiallyFilled), (''FILLED'', Filled), (''CANCELLED'', Cancelled),
      (''REJECTED'', Rejected)]"

definition py_OrderAckType :: "(string \<times> OrderAckType) list" where
  "py_OrderAckType =
     [(''NewAccepted'', NewAccepted), (''ModifyAccepted'', ModifyAccepted), (''CancelAccepted'', CancelAccepted),
      (''NEW_ACCEPTED'', NewAccepted), (''MODIFY_ACCEPTED'', ModifyAccepted), (''CANCEL_ACCEPTED'', CancelAccepted)]"

definition py_OrderRejectReason :: "(string \<times> OrderRejectReason) list" where
  "py_OrderRejectReason =
     [(''DuplicateOrderId'', DuplicateOrderId), (''UnknownOrderId'', UnknownOrderId),
      (''InvalidInstrument'', InvalidInstrument), (''InvalidSide'', InvalidSide), (''InvalidPrice'', InvalidPrice),
      (''InvalidQuantity'', InvalidQuantity), (''AlreadyTerminal'', AlreadyTerminal), (''InternalError'', InternalError),
      (''DUPLICATE_ORDER_ID'', DuplicateOrderId), (''UNKNOWN_ORDER_ID'', UnknownOrderId),
      (''INVALID_INSTRUMENT'', InvalidInstrument), (''INVALID_SIDE'', InvalidSide), (''INVALID_PRICE'', InvalidPrice),
      (''INVALID_QUANTITY'', InvalidQuantity), (''ALREADY_TERMINAL'', AlreadyTerminal), (''INTERNAL_ERROR'', InternalError)]"

text \<open>
  What \<^verbatim>\<open>export_values\<close> copies into the module (all enumerations but \<^verbatim>\<open>Action\<close>), in the order of the calls;
  a later binding of a name would silently replace an earlier one.
\<close>

definition py_exported :: "string list" where
  "py_exported = map fst py_Side @ map fst py_OrderStatus @ map fst py_OrderAckType @ map fst py_OrderRejectReason"

definition py_classes :: "string list" where
  "py_classes =
     [''Side'', ''Action'', ''OrderStatus'', ''OrderAckType'', ''OrderRejectReason'', ''PriceLevel'', ''BookUpdate'',
      ''BookSnapshot'', ''Trade'', ''MarketDataEvent'', ''OrderAck'', ''OrderFill'', ''OrderReject'',
      ''MarketDataSubscriber'', ''MarketDataSubscription'', ''MarketDataPublisher'', ''IntegratedBacktestConfig'',
      ''IntegratedBacktestEventResult'', ''IntegratedBacktestRunResult'', ''IntegratedBacktestEngine'',
      ''OrderChannel'', ''OrderGatewayClient'', ''OrderGatewayServer'']"

definition enum_ok :: "(string \<times> 'a) list \<Rightarrow> bool" where
  "enum_ok names \<longleftrightarrow> distinct (map fst names) \<and> snd ` set names = UNIV"

text \<open>
  No name is given twice and every value of the C++ enumerations has a name. Neither the exported
  names nor the classes hide each other; the value \<open>Trade\<close> of \<^verbatim>\<open>Action\<close> would hide the class.
\<close>

lemma py_enums_ok:
  "enum_ok py_Side" "enum_ok py_Action" "enum_ok py_OrderStatus" "enum_ok py_OrderAckType" "enum_ok py_OrderRejectReason"
proof -
  have "x \<in> snd ` set py_Side" for x by (cases x) (simp_all add: py_Side_def)
  moreover have "x \<in> snd ` set py_Action" for x by (cases x) (simp_all add: py_Action_def)
  moreover have "x \<in> snd ` set py_OrderStatus" for x by (cases x) (simp_all add: py_OrderStatus_def)
  moreover have "x \<in> snd ` set py_OrderAckType" for x by (cases x) (simp_all add: py_OrderAckType_def)
  moreover have "x \<in> snd ` set py_OrderRejectReason" for x by (cases x) (simp_all add: py_OrderRejectReason_def)
  moreover have "distinct (map fst py_Side)" "distinct (map fst py_Action)" "distinct (map fst py_OrderStatus)"
    "distinct (map fst py_OrderAckType)" "distinct (map fst py_OrderRejectReason)"
    by (simp_all add: py_Side_def py_Action_def py_OrderStatus_def py_OrderAckType_def py_OrderRejectReason_def)
  ultimately show "enum_ok py_Side" "enum_ok py_Action" "enum_ok py_OrderStatus" "enum_ok py_OrderAckType"
    "enum_ok py_OrderRejectReason" by (auto simp only: enum_ok_def)
qed

lemma py_names_distinct:
  "distinct (py_classes @ py_exported)" "\<not> distinct (py_classes @ py_exported @ map fst py_Action)"
  by code_simp+

section \<open>Messages and events\<close>

definition makeOrderFields ::
  "trading_engine_id \<Rightarrow> order_id \<Rightarrow> instrument_id \<Rightarrow> Side \<Rightarrow> price \<Rightarrow> quantity \<Rightarrow> timestamp_ns \<Rightarrow> OrderStatus \<Rightarrow> OrderFields" where
  "makeOrderFields trading_engine_id order_id instrument_id side price sz timestamp_ns status =
     \<lparr>fd_trading_engine_id = trading_engine_id, fd_order_id = order_id, fd_instrument_id = instrument_id,
      fd_side = side, fd_price = price, fd_size = sz, fd_timestamp_ns = timestamp_ns, fd_status = status\<rparr>"

text \<open>The constructors; a keyword argument that is not given has the default of its \<^verbatim>\<open>py::arg\<close>.\<close>

abbreviation py_arg :: "'a option \<Rightarrow> 'a \<Rightarrow> 'a" where
  "py_arg given otherwise \<equiv> case_option otherwise (\<lambda>v. v) given"

definition py_PriceLevel :: "u32 option \<Rightarrow> price option \<Rightarrow> quantity option \<Rightarrow> PriceLevel" where
  "py_PriceLevel level_index price sz =
     \<lparr>pl_level_index = py_arg level_index 0, pl_price = py_arg price (i64 0), pl_size = py_arg sz 0\<rparr>"

definition py_BookUpdate ::
  "instrument_id option \<Rightarrow> timestamp_ns option \<Rightarrow> seq_no option \<Rightarrow> Side option \<Rightarrow> price option \<Rightarrow> quantity option \<Rightarrow> BookUpdate" where
  "py_BookUpdate instrument_id timestamp_ns seq_no side price sz =
     \<lparr>bu_instrument_id = py_arg instrument_id 0, bu_timestamp_ns = py_arg timestamp_ns (i64 0), bu_seq_no = py_arg seq_no 0,
      bu_side = py_arg side SideNone, bu_price = py_arg price (i64 0), bu_size = py_arg sz 0\<rparr>"

definition py_BookSnapshot ::
  "instrument_id option \<Rightarrow> timestamp_ns option \<Rightarrow> seq_no option \<Rightarrow> PriceLevel list option \<Rightarrow> PriceLevel list option \<Rightarrow> BookSnapshot" where
  "py_BookSnapshot instrument_id timestamp_ns seq_no bids asks =
     \<lparr>bs_instrument_id = py_arg instrument_id 0, bs_timestamp_ns = py_arg timestamp_ns (i64 0), bs_seq_no = py_arg seq_no 0,
      bs_bids = py_arg bids [], bs_asks = py_arg asks []\<rparr>"

definition py_Trade ::
  "instrument_id option \<Rightarrow> timestamp_ns option \<Rightarrow> seq_no option \<Rightarrow> price option \<Rightarrow> quantity option \<Rightarrow> Side option \<Rightarrow> TradeMessage" where
  "py_Trade instrument_id timestamp_ns seq_no price sz aggressor_side =
     \<lparr>tm_instrument_id = py_arg instrument_id 0, tm_timestamp_ns = py_arg timestamp_ns (i64 0), tm_seq_no = py_arg seq_no 0,
      tm_price = py_arg price (i64 0), tm_size = py_arg sz 0, tm_aggressor_side = py_arg aggressor_side SideNone\<rparr>"

definition py_MarketDataEvent ::
  "raw_timestamp option \<Rightarrow> raw_timestamp option \<Rightarrow> raw_timestamp option \<Rightarrow> order_id option \<Rightarrow> Side option \<Rightarrow> price option \<Rightarrow>
   quantity option \<Rightarrow> Action option \<Rightarrow> instrument_id option \<Rightarrow> u32 option \<Rightarrow> u64 option \<Rightarrow> u64 option \<Rightarrow> MarketDataEvent" where
  "py_MarketDataEvent timestamp ts_recv ts_event order_id side price sz action instrument_id source_file_id
       source_sequence line_number =
     \<lparr>ev_timestamp = py_arg timestamp 0, ev_ts_recv = py_arg ts_recv 0, ev_ts_event = py_arg ts_event 0,
      ev_order_id = py_arg order_id 0, ev_side = py_arg side SideNone, ev_price = py_arg price (i64 0),
      ev_size = py_arg sz 0, ev_action = py_arg action ActionNone, ev_instrument_id = py_arg instrument_id 0,
      ev_source_file_id = py_arg source_file_id 0, ev_source_sequence = py_arg source_sequence 0,
      ev_line_number = py_arg line_number 0\<rparr>"

definition py_order_fields ::
  "trading_engine_id option \<Rightarrow> order_id option \<Rightarrow> instrument_id option \<Rightarrow> Side option \<Rightarrow> price option \<Rightarrow> quantity option \<Rightarrow>
   timestamp_ns option \<Rightarrow> OrderStatus option \<Rightarrow> OrderFields" where
  "py_order_fields trading_engine_id order_id instrument_id side price sz timestamp_ns status =
     makeOrderFields (py_arg trading_engine_id 0) (py_arg order_id 0) (py_arg instrument_id 0) (py_arg side SideNone)
       (py_arg price (i64 0)) (py_arg sz 0) (py_arg timestamp_ns (i64 0)) (py_arg status New)"

text \<open>The first eight arguments of the next three constructors are those of \<open>py_order_fields\<close>.\<close>

definition py_OrderAck :: "OrderFields \<Rightarrow> OrderAckType option \<Rightarrow> OrderAck" where
  "py_OrderAck order_fields ack_type = \<lparr>ak_fields = order_fields, ak_type = py_arg ack_type NewAccepted\<rparr>"

definition py_OrderFill :: "OrderFields \<Rightarrow> price option \<Rightarrow> quantity option \<Rightarrow> quantity option \<Rightarrow> OrderFill" where
  "py_OrderFill order_fields fill_price fill_size remaining_size =
     \<lparr>fl_fields = order_fields, fl_fill_price = py_arg fill_price (i64 0), fl_fill_size = py_arg fill_size 0,
      fl_remaining_size = py_arg remaining_size 0\<rparr>"

definition py_OrderReject :: "OrderFields \<Rightarrow> OrderRejectReason option \<Rightarrow> string option \<Rightarrow> OrderReject" where
  "py_OrderReject order_fields reason reject_text =
     \<lparr>rj_fields = order_fields, rj_reason = py_arg reason InternalError, rj_text = py_arg reject_text []\<rparr>"

text \<open>
  The properties of the order fields: a getter and a setter each, for every message class that has
  a member \<^verbatim>\<open>fields\<close>. The template parameter is the access to this member, reading and updating it.
\<close>

type_synonym ('m, 'v) py_property = "('m \<Rightarrow> 'v) \<times> ('v \<Rightarrow> 'm \<Rightarrow> 'm)"

record 'm order_properties =
  prop_trading_engine_id :: "('m, trading_engine_id) py_property"
  prop_order_id :: "('m, order_id) py_property"
  prop_instrument_id :: "('m, instrument_id) py_property"
  prop_side :: "('m, Side) py_property"
  prop_price :: "('m, price) py_property"
  prop_size :: "('m, quantity) py_property"
  prop_timestamp_ns :: "('m, timestamp_ns) py_property"
  prop_status :: "('m, OrderStatus) py_property"

definition bindOrderFields :: "('m \<Rightarrow> OrderFields) \<Rightarrow> ((OrderFields \<Rightarrow> OrderFields) \<Rightarrow> 'm \<Rightarrow> 'm) \<Rightarrow> 'm order_properties" where
  "bindOrderFields member update =
     \<lparr>prop_trading_engine_id =
        (\<lambda>message. fd_trading_engine_id (member message), \<lambda>v. update (\<lambda>f. f\<lparr>fd_trading_engine_id := v\<rparr>)),
      prop_order_id = (\<lambda>message. fd_order_id (member message), \<lambda>v. update (\<lambda>f. f\<lparr>fd_order_id := v\<rparr>)),
      prop_instrument_id = (\<lambda>message. fd_instrument_id (member message), \<lambda>v. update (\<lambda>f. f\<lparr>fd_instrument_id := v\<rparr>)),
      prop_side = (\<lambda>message. fd_side (member message), \<lambda>v. update (\<lambda>f. f\<lparr>fd_side := v\<rparr>)),
      prop_price = (\<lambda>message. fd_price (member message), \<lambda>v. update (\<lambda>f. f\<lparr>fd_price := v\<rparr>)),
      prop_size = (\<lambda>message. fd_size (member message), \<lambda>v. update (\<lambda>f. f\<lparr>fd_size := v\<rparr>)),
      prop_timestamp_ns = (\<lambda>message. fd_timestamp_ns (member message), \<lambda>v. update (\<lambda>f. f\<lparr>fd_timestamp_ns := v\<rparr>)),
      prop_status = (\<lambda>message. fd_status (member message), \<lambda>v. update (\<lambda>f. f\<lparr>fd_status := v\<rparr>))\<rparr>"

text \<open>
  What is set can be read back, setting what was read changes nothing, and the last of two
  assignments counts; an attribute that has these laws behaves like one of a Python object.
\<close>

definition attribute_like :: "('m, 'v) py_property \<Rightarrow> bool" where
  "attribute_like p \<longleftrightarrow>
     (\<forall>m v. fst p (snd p v m) = v) \<and> (\<forall>m. snd p (fst p m) m = m) \<and> (\<forall>m v v'. snd p v' (snd p v m) = snd p v' m)"

locale has_order_fields =
  fixes member :: "'m \<Rightarrow> OrderFields" and update :: "(OrderFields \<Rightarrow> OrderFields) \<Rightarrow> 'm \<Rightarrow> 'm"
  assumes fields_update: "member (update g m) = g (member m)"
    and update_same: "g (member m) = member m \<Longrightarrow> update g m = m"
    and update_update: "update h (update g m) = update (\<lambda>f. h (g f)) m"
begin

lemma properties_attribute_like:
  "attribute_like (prop_trading_engine_id (bindOrderFields member update))"
  "attribute_like (prop_order_id (bindOrderFields member update))"
  "attribute_like (prop_instrument_id (bindOrderFields member update))"
  "attribute_like (prop_side (bindOrderFields member update))"
  "attribute_like (prop_price (bindOrderFields member update))"
  "attribute_like (prop_size (bindOrderFields member update))"
  "attribute_like (prop_timestamp_ns (bindOrderFields member update))"
  "attribute_like (prop_status (bindOrderFields member update))"
  by (simp_all add: attribute_like_def bindOrderFields_def fields_update update_same update_update)

text \<open>Setting one property leaves the others alone: the fields change at one place.\<close>

lemma properties_independent:
  "member (snd (prop_trading_engine_id (bindOrderFields member update)) engine m) = (member m)\<lparr>fd_trading_engine_id := engine\<rparr>"
  "member (snd (prop_order_id (bindOrderFields member update)) oid m) = (member m)\<lparr>fd_order_id := oid\<rparr>"
  "member (snd (prop_instrument_id (bindOrderFields member update)) i m) = (member m)\<lparr>fd_instrument_id := i\<rparr>"
  "member (snd (prop_side (bindOrderFields member update)) side m) = (member m)\<lparr>fd_side := side\<rparr>"
  "member (snd (prop_price (bindOrderFields member update)) price m) = (member m)\<lparr>fd_price := price\<rparr>"
  "member (snd (prop_size (bindOrderFields member update)) sz m) = (member m)\<lparr>fd_size := sz\<rparr>"
  "member (snd (prop_timestamp_ns (bindOrderFields member update)) ts m) = (member m)\<lparr>fd_timestamp_ns := ts\<rparr>"
  "member (snd (prop_status (bindOrderFields member update)) status m) = (member m)\<lparr>fd_status := status\<rparr>"
  by (simp_all add: bindOrderFields_def fields_update)

end

text \<open>The three classes of events that a strategy is told about.\<close>

interpretation ack_properties: has_order_fields ak_fields ak_fields_update
  by unfold_locales (simp_all add: comp_def)

interpretation fill_properties: has_order_fields fl_fields fl_fields_update
  by unfold_locales (simp_all add: comp_def)

interpretation reject_properties: has_order_fields rj_fields rj_fields_update
  by unfold_locales (simp_all add: comp_def)

text \<open>Objects built without arguments are the default-initialised structs of the library.\<close>

lemma py_defaults:
  "py_MarketDataEvent None None None None None None None None None None None None = default_event"
  "py_order_fields None None None None None None None None = default_fields"
  by (simp_all add: py_MarketDataEvent_def default_event_def py_order_fields_def makeOrderFields_def default_fields_def)

section \<open>Market data\<close>

text \<open>A callable is handed a copy of the payload, as an object of its own class.\<close>

datatype py_object =
    PyBookUpdate BookUpdate
  | PyBookSnapshot BookSnapshot
  | PyTrade TradeMessage
  | PyOrderAck OrderAck
  | PyOrderFill OrderFill
  | PyOrderReject OrderReject

type_synonym 'w py_function = "(py_object, 'w) callback"

fun invokeMarketDataCallback :: "'w py_function \<Rightarrow> (MarketDataMessage, 'w) callback" where
  "invokeMarketDataCallback callback (UpdateMsg payload) = callback (PyBookUpdate payload)"
| "invokeMarketDataCallback callback (SnapshotMsg payload) = callback (PyBookSnapshot payload)"
| "invokeMarketDataCallback callback (TradeMsg payload) = callback (PyTrade payload)"

definition py_publisher_subscribe ::
  "instrument_id \<Rightarrow> 'w py_function \<Rightarrow> u64 option \<Rightarrow> MarketDataPublisher \<Rightarrow> 'w Subscribers \<Rightarrow>
   (exn + MarketDataSubscription) \<times> MarketDataPublisher \<times> 'w Subscribers" where
  "py_publisher_subscribe instrument_id callback batch_size =
     MP_subscribe instrument_id (invokeMarketDataCallback callback) (py_arg batch_size 256)"

definition py_publish_update ::
  "instrument_id \<Rightarrow> timestamp_ns \<Rightarrow> Side \<Rightarrow> price \<Rightarrow> quantity \<Rightarrow> MarketDataPublisher \<Rightarrow> 'w Subscribers \<Rightarrow>
   (seq_no \<times> MarketDataPublisher \<times> 'w Subscribers) option" where
  "py_publish_update instrument_id timestamp_ns side price sz =
     MP_publishUpdate \<lparr>bu_instrument_id = instrument_id, bu_timestamp_ns = timestamp_ns, bu_seq_no = 0, bu_side = side,
       bu_price = price, bu_size = sz\<rparr>"

text \<open>\<^verbatim>\<open>drain_available\<close> and \<^verbatim>\<open>pending_approx\<close> of a subscription go to its subscriber.\<close>

definition py_drain_available ::
  "MarketDataSubscription \<Rightarrow> 'w \<Rightarrow> 'w Subscribers \<Rightarrow> ((exn + u64) \<times> 'w \<times> 'w Subscribers) option" where
  "py_drain_available subscription w subs =
     (if sn_subscriber subscription < length subs
      then map_option (\<lambda>(r, w', s). (r, w', subs[sn_subscriber subscription := s]))
             (MS_drainAvailable (subs ! sn_subscriber subscription) w)
      else None)"

definition py_pending_approx :: "MarketDataSubscription \<Rightarrow> 'w Subscribers \<Rightarrow> u64 option" where
  "py_pending_approx subscription subs =
     (if sn_subscriber subscription < length subs then Some (MS_pendingApprox (subs ! sn_subscriber subscription)) else None)"

definition py_parse_market_data_event_line ::
  "'v simdjson \<Rightarrow> string \<Rightarrow> u64 \<Rightarrow> u32 option \<Rightarrow> u64 option \<Rightarrow> MarketDataEvent outcome" where
  "py_parse_market_data_event_line sj line line_number source_file_id source_sequence =
     parseMarketDataEventLine sj line line_number (py_arg source_file_id 0) (py_arg source_sequence 0)"

definition py_read_feather_market_data_events ::
  "arrow_reader \<Rightarrow> path \<Rightarrow> u32 option \<Rightarrow> MarketDataEvent list outcome" where
  "py_read_feather_market_data_events arrow file_path source_file_id =
     FeatherEventReader_readAll arrow file_path (py_arg source_file_id 0)"

text \<open>The default of the engine's \<^verbatim>\<open>config\<close> argument, and of every field of the class.\<close>

definition default_backtest_config :: IntegratedBacktestConfig where
  "default_backtest_config =
     \<lparr>ic_instruments = [], ic_publish_book_updates = True, ic_publish_trades = True, ic_snapshot_depth = 5,
      ic_snapshot_interval_events = 0, ic_max_events = 0, ic_subscriber_queue_batch_size = 256\<rparr>"

definition py_IntegratedBacktestEngine :: "IntegratedBacktestConfig option \<Rightarrow> IntegratedBacktestEngine" where
  "py_IntegratedBacktestEngine config = IB_new (py_arg config default_backtest_config)"

definition py_engine_subscribe ::
  "instrument_id \<Rightarrow> 'w py_function \<Rightarrow> IntegratedBacktestEngine \<Rightarrow> 'w Subscribers \<Rightarrow>
   (exn + MarketDataSubscription) \<times> IntegratedBacktestEngine \<times> 'w Subscribers" where
  "py_engine_subscribe instrument_id callback = IB_subscribe instrument_id (invokeMarketDataCallback callback)"

definition py_stable_state_digest :: "long_division \<Rightarrow> IntegratedBacktestEngine \<Rightarrow> string" where
  "py_stable_state_digest ld engine = HLS_stableStateDigest ld (ad_store (en_adapter engine))"

section \<open>Orders\<close>

text \<open>Every request of the Python client is flushed at once.\<close>

definition py_send_order ::
  "instrument_id \<Rightarrow> Side \<Rightarrow> price \<Rightarrow> quantity \<Rightarrow> timestamp_ns \<Rightarrow> 'w OrderGatewayClient \<Rightarrow> Channels \<Rightarrow>
   (order_id \<times> 'w OrderGatewayClient \<times> Channels) option" where
  "py_send_order instrument_id side price sz timestamp_ns client chs =
     do {
       (order_id, client', chs') \<leftarrow> GC_sendOrder instrument_id side price sz timestamp_ns client chs;
       chs'' \<leftarrow> GC_flush client' chs';
       Some (order_id, client', chs'')
     }"

definition py_cancel_order ::
  "order_id \<Rightarrow> instrument_id \<Rightarrow> timestamp_ns \<Rightarrow> 'w OrderGatewayClient \<Rightarrow> Channels \<Rightarrow> Channels option" where
  "py_cancel_order order_id instrument_id timestamp_ns client chs =
     Option.bind (GC_cancelOrder order_id instrument_id timestamp_ns client chs) (GC_flush client)"

definition py_modify_order ::
  "order_id \<Rightarrow> instrument_id \<Rightarrow> Side \<Rightarrow> price \<Rightarrow> quantity \<Rightarrow> timestamp_ns \<Rightarrow> 'w OrderGatewayClient \<Rightarrow> Channels \<Rightarrow> Channels option" where
  "py_modify_order order_id instrument_id side price sz timestamp_ns client chs =
     Option.bind (GC_modifyOrder order_id instrument_id side price sz timestamp_ns client chs) (GC_flush client)"

definition py_on_ack :: "'w py_function \<Rightarrow> 'w OrderGatewayClient \<Rightarrow> 'w OrderGatewayClient" where
  "py_on_ack callback = GC_onAck (\<lambda>ack. callback (PyOrderAck ack))"

definition py_on_fill :: "'w py_function \<Rightarrow> 'w OrderGatewayClient \<Rightarrow> 'w OrderGatewayClient" where
  "py_on_fill callback = GC_onFill (\<lambda>fill. callback (PyOrderFill fill))"

definition py_on_reject :: "'w py_function \<Rightarrow> 'w OrderGatewayClient \<Rightarrow> 'w OrderGatewayClient" where
  "py_on_reject callback = GC_onReject (\<lambda>reject. callback (PyOrderReject reject))"

section \<open>Calls of a strategy\<close>

datatype py_call =
    SendOrder instrument_id Side price quantity timestamp_ns
  | CancelCall order_id instrument_id timestamp_ns
  | ModifyCall order_id instrument_id Side price quantity timestamp_ns

fun py_make_call :: "py_call \<Rightarrow> 'w OrderGatewayClient \<Rightarrow> Channels \<Rightarrow> ('w OrderGatewayClient \<times> Channels) option" where
  "py_make_call (SendOrder i side price sz ts) client chs = map_option snd (py_send_order i side price sz ts client chs)"
| "py_make_call (CancelCall oid i ts) client chs = map_option (Pair client) (py_cancel_order oid i ts client chs)"
| "py_make_call (ModifyCall oid i side price sz ts) client chs =
     map_option (Pair client) (py_modify_order oid i side price sz ts client chs)"

fun py_make_calls :: "py_call list \<Rightarrow> 'w OrderGatewayClient \<Rightarrow> Channels \<Rightarrow> ('w OrderGatewayClient \<times> Channels) option" where
  "py_make_calls [] client chs = Some (client, chs)"
| "py_make_calls (call # calls) client chs =
     Option.bind (py_make_call call client chs) (\<lambda>(client', chs'). py_make_calls calls client' chs')"

text \<open>The request a call stands for, and the order id the next new order will get.\<close>

fun call_request :: "trading_engine_id \<Rightarrow> order_id \<Rightarrow> py_call \<Rightarrow> OrderRequest" where
  "call_request eid next (SendOrder i side price sz ts) = NewOrder (makeOrderFields eid next i side price sz ts New)"
| "call_request eid next (CancelCall oid i ts) =
     CancelOrder (makeOrderFields eid oid i SideNone (i64 0) 0 ts CancelRequested)"
| "call_request eid next (ModifyCall oid i side price sz ts) =
     ModifyOrder (makeOrderFields eid oid i side price sz ts ModifyRequested)"

fun next_id :: "order_id \<Rightarrow> py_call \<Rightarrow> order_id" where
  "next_id next (SendOrder _ _ _ _ _) = next + 1"
| "next_id next _ = next"

fun call_requests :: "trading_engine_id \<Rightarrow> order_id \<Rightarrow> py_call list \<Rightarrow> OrderRequest list" where
  "call_requests eid next [] = []"
| "call_requests eid next (call # calls) = call_request eid next call # call_requests eid (next_id next call) calls"

lemma push_flush:
  assumes "channels_ok chs" and "c \<in> fst ` set chs"
  obtains chs1 chs2 where "on_channel c (OC_pushRequest r) chs = Some chs1" "on_channel c OC_flushRequests chs1 = Some chs2"
    "channels_ok chs2" "fst ` set chs2 = fst ` set chs" "requests_at chs2 c = requests_at chs c @ [r]"
    "visible_requests chs2 c = requests_at chs2 c" "events_at chs2 = events_at chs"
proof -
  obtain chs1 where p: "on_channel c (OC_pushRequest r) chs = Some chs1" "channels_ok chs1" "fst ` set chs1 = fst ` set chs"
    "requests_at chs1 = (requests_at chs)(c := requests_at chs c @ [r])" "events_at chs1 = events_at chs"
    by (rule push_request [OF assms, of r])
  have c: "c \<in> fst ` set chs1" using assms(2) p(3) by simp
  obtain chs2 where f: "on_channel c OC_flushRequests chs1 = Some chs2" "channels_ok chs2" "fst ` set chs2 = fst ` set chs1"
    "requests_at chs2 = requests_at chs1" "visible_requests chs2 = (visible_requests chs1)(c := requests_at chs1 c)"
    "events_at chs2 = events_at chs1"
    by (rule flush_requests [OF p(2) c])
  show ?thesis by (rule that [OF p(1) f(1,2)]) (use p f in simp_all)
qed

lemma py_make_call_correct:
  assumes ok: "channels_ok chs" and ch: "cl_channel client \<in> fst ` set chs"
  shows "\<exists>chs'. py_make_call call client chs =
       Some (client\<lparr>cl_next_order_id := next_id (cl_next_order_id client) call\<rparr>, chs') \<and>
     channels_ok chs' \<and> fst ` set chs' = fst ` set chs \<and>
     requests_at chs' (cl_channel client) = requests_at chs (cl_channel client) @
       [call_request (cl_trading_engine_id client) (cl_next_order_id client) call] \<and>
     visible_requests chs' (cl_channel client) = requests_at chs' (cl_channel client) \<and> events_at chs' = events_at chs"
proof -
  define r where "r = call_request (cl_trading_engine_id client) (cl_next_order_id client) call"
  obtain chs1 chs2 where "on_channel (cl_channel client) (OC_pushRequest r) chs = Some chs1"
    "on_channel (cl_channel client) OC_flushRequests chs1 = Some chs2" "channels_ok chs2" "fst ` set chs2 = fst ` set chs"
    "requests_at chs2 (cl_channel client) = requests_at chs (cl_channel client) @ [r]"
    "visible_requests chs2 (cl_channel client) = requests_at chs2 (cl_channel client)" "events_at chs2 = events_at chs"
    by (rule push_flush [OF ok ch])
  then show ?thesis
    by (cases call)
      (simp_all add: r_def makeOrderFields_def py_send_order_def py_cancel_order_def py_modify_order_def GC_sendOrder_def
        GC_nextOrderId_def GC_sendNewOrder_def GC_cancelOrder_def GC_modifyOrder_def GC_flush_def)
qed

lemma py_make_calls_correct:
  assumes "channels_ok chs" and "cl_channel client \<in> fst ` set chs"
  shows "\<exists>client' chs'. py_make_calls calls client chs = Some (client', chs') \<and>
     (\<exists>n. client' = client\<lparr>cl_next_order_id := n\<rparr>) \<and> channels_ok chs' \<and> fst ` set chs' = fst ` set chs \<and>
     requests_at chs' (cl_channel client) = requests_at chs (cl_channel client) @
       call_requests (cl_trading_engine_id client) (cl_next_order_id client) calls \<and>
     (calls \<noteq> [] \<longrightarrow> visible_requests chs' (cl_channel client) = requests_at chs' (cl_channel client)) \<and>
     events_at chs' = events_at chs"
  using assms
proof (induction calls arbitrary: client chs)
  case Nil
  then show ?case by (auto intro: exI [of _ "cl_next_order_id client"])
next
  case (Cons call calls)
  let ?client = "client\<lparr>cl_next_order_id := next_id (cl_next_order_id client) call\<rparr>"
  from py_make_call_correct [OF Cons.prems, of call] obtain chs1 where
    a: "py_make_call call client chs = Some (?client, chs1)" "channels_ok chs1" "fst ` set chs1 = fst ` set chs"
    "requests_at chs1 (cl_channel client) = requests_at chs (cl_channel client) @
       [call_request (cl_trading_engine_id client) (cl_next_order_id client) call]"
    "visible_requests chs1 (cl_channel client) = requests_at chs1 (cl_channel client)" "events_at chs1 = events_at chs"
    by blast
  have "cl_channel ?client \<in> fst ` set chs1" using a(3) Cons.prems(2) by simp
  from Cons.IH [OF a(2) this] a show ?case by (cases calls) auto
qed

section \<open>Properties\<close>

text \<open>
  C38: An order session of a Python strategy, client and server together. In any reachable state of
  the gateway, with any number of other engines, an engine that owns its channel makes a series
  of calls; then the server drains all requests and flushes its events, and the client drains its
  events. Nothing faults, everything ends, and the strategy's callbacks are called on the
  events that were waiting and then on exactly one reply per request, in the order of the calls:
  the acknowledgement or the first failing check, judged on the orders of this engine alone, which
  are then those of the specification. A callback that raises ends the drain with its exception;
  the events after it stay on the channel for the next drain.
\<close>

theorem python_session_replies:
  assumes "gateway_step\<^sup>*\<^sup>* gateway_start (s, chs)" and "owns_channel eid (cl_channel client) s"
    and "calls \<noteq> []"
  shows "\<exists>client' chs1 n s' chs2 chs3 x w' rest k chs4. py_make_calls calls client chs = Some (client', chs1) \<and>
     GS_drainRequests s chs1 = Some (n, s', chs2) \<and> GS_flushEvents s' chs2 = Some chs3 \<and>
     own_orders (map_of (gs_orders s')) eid = own_orders (after_requests (map_of (gs_orders s)) eid
       (requests_at chs (cl_channel client) @
        call_requests (cl_trading_engine_id client) (cl_next_order_id client) calls)) eid \<and>
     call_all (GC_dispatchEvent client)
       (events_at chs (cl_channel client) @
        replies (map_of (gs_orders s)) eid (requests_at chs (cl_channel client) @
          call_requests (cl_trading_engine_id client) (cl_next_order_id client) calls)) w = (x, w', rest) \<and>
     GC_drainEvents client' chs3 w = Some (counted x k, w', chs4) \<and> visible_events chs4 (cl_channel client) = rest"
proof -
  let ?c = "cl_channel client"
  have inv: "gateway_inv (s, chs)" using gateway_reachable_inv [OF assms(1) gateway_start_inv] .
  have ok: "engines_ok s" using gateway_engines_ok [OF assms(1)] .
  obtain session where "map_of (gs_sessions s) eid = Some session" "se_channel session = ?c"
    by (rule owns_channelE [OF assms(2)])
  then have ch: "channels_ok chs" "?c \<in> fst ` set chs"
    using inv by (simp_all add: gateway_inv_def del: map_of_eq_Some_iff) metis
  let ?rs = "requests_at chs ?c @ call_requests (cl_trading_engine_id client) (cl_next_order_id client) calls"
  from py_make_calls_correct [OF ch, of calls] assms(3) obtain nid chs1 where
    a: "py_make_calls calls client chs = Some (client\<lparr>cl_next_order_id := nid\<rparr>, chs1)" "channels_ok chs1"
    "fst ` set chs1 = fst ` set chs" "visible_requests chs1 ?c = ?rs" "events_at chs1 = events_at chs" by auto
  have "gateway_inv (s, chs1)" using inv a(2,3) by (simp add: gateway_inv_def)
  then obtain n s' chs2 chs3 where b: "GS_drainRequests s chs1 = Some (n, s', chs2)" "GS_flushEvents s' chs2 = Some chs3"
    "channels_ok chs3" "?c \<in> fst ` set chs3"
    "visible_events chs3 ?c = events_at chs1 ?c @ replies (map_of (gs_orders s)) eid (visible_requests chs1 ?c)"
    "own_orders (map_of (gs_orders s')) eid = own_orders (after_requests (map_of (gs_orders s)) eid (visible_requests chs1 ?c)) eid"
    by (rule gateway_round [OF _ assms(2) ok])
  let ?client = "client\<lparr>cl_next_order_id := nid\<rparr>"
  have "GC_dispatchEvent ?client e st = GC_dispatchEvent client e st" for e st by (cases e) simp_all
  then have dispatch: "GC_dispatchEvent ?client = GC_dispatchEvent client" by (intro ext)
  obtain x w' rest where c: "call_all (GC_dispatchEvent client) (visible_events chs3 ?c) w = (x, w', rest)" by (metis prod_cases3)
  with GC_drainLoop_correct [OF b(3), of ?client w x w' rest 0] b(4) dispatch obtain k chs4 where
    "GC_drainEvents ?client chs3 w = Some (counted x k, w', chs4)" "visible_events chs4 ?c = rest"
    by (auto simp: GC_drainEvents_def)
  with a b c show ?thesis by auto
qed

text \<open>A strategy that records what it is told, beside another engine with a pending order of its own.\<close>

definition demo_strategy :: "py_object list OrderGatewayClient" where
  "demo_strategy =
     py_on_ack (\<lambda>x seen. (None, seen @ [x])) (py_on_reject (\<lambda>x seen. (None, seen @ [x]))
       \<lparr>cl_trading_engine_id = 8, cl_channel = 1, cl_next_order_id = 1, cl_on_ack = None, cl_on_fill = None,
        cl_on_reject = None\<rparr>)"

definition demo_session_ops :: "gateway_op list" where
  "demo_session_ops =
     [OpConnect 0 1 1, OpConnect 1 4 4, OpRegister 5 0, OpRegister 8 1, OpSend 0 (NewOrder demo_fields)]"

definition demo_calls :: "py_call list" where
  "demo_calls = [SendOrder 7 Bid (i64 100) 5 (i64 1), ModifyCall 1 7 Bid (i64 101) 4 (i64 2), CancelCall 2 7 (i64 3)]"

lemma demo_prices: "i64 100 \<noteq> undefined_price" "i64 101 \<noteq> undefined_price"
  by code_simp+

lemma demo_session:
  obtains s chs where "gateway_run gateway_start demo_session_ops = Some (s, chs)"
    "map fst (gs_sessions s) = [5, 8]" "map (se_channel \<circ> snd) (gs_sessions s) = [0, 1]" "gs_orders s = []"
    "events_at chs 1 = []" "requests_at chs 1 = []"
proof -
  have "map_option (\<lambda>(s, chs). (map fst (gs_sessions s), map (se_channel \<circ> snd) (gs_sessions s), gs_orders s,
      events_at chs 1, requests_at chs 1)) (gateway_run gateway_start demo_session_ops) = Some ([5, 8], [0, 1], [], [], [])"
    by code_simp
  then show ?thesis using that by (auto simp del: gateway_run.simps)
qed

theorem python_session_replies_witness:
  "\<exists>s chs client' chs1 n s' chs2 chs3 k chs4 seen.
     gateway_run gateway_start demo_session_ops = Some (s, chs) \<and> owns_channel 8 (cl_channel demo_strategy) s \<and>
     py_make_calls demo_calls demo_strategy chs = Some (client', chs1) \<and>
     GS_drainRequests s chs1 = Some (n, s', chs2) \<and> GS_flushEvents s' chs2 = Some chs3 \<and>
     GC_drainEvents client' chs3 [] = Some (Inr k, seen, chs4) \<and>
     seen =
       [PyOrderAck (py_OrderAck (makeOrderFields 8 1 7 Bid (i64 100) 5 (i64 1) Accepted) (Some NewAccepted)),
        PyOrderAck (py_OrderAck (makeOrderFields 8 1 7 Bid (i64 101) 4 (i64 2) Accepted) (Some ModifyAccepted)),
        PyOrderReject (py_OrderReject (makeOrderFields 8 2 7 SideNone (i64 0) 0 (i64 3) Rejected) (Some UnknownOrderId)
          (Some (GS_rejectText UnknownOrderId)))]"
proof -
  obtain s chs where g: "gateway_run gateway_start demo_session_ops = Some (s, chs)"
    "map fst (gs_sessions s) = [5, 8]" "map (se_channel \<circ> snd) (gs_sessions s) = [0, 1]" "gs_orders s = []"
    "events_at chs 1 = []" "requests_at chs 1 = []" by (rule demo_session)
  have own: "owns_channel 8 (cl_channel demo_strategy) s"
    using g(2,3) by (auto simp: owns_channel_def GS_hasEngine_def demo_strategy_def py_on_ack_def py_on_reject_def GC_onAck_def
        GC_onReject_def map_eq_Cons_conv split: if_splits)
  have seen: "call_all (GC_dispatchEvent demo_strategy) (replies Map.empty 8 (call_requests 8 1 demo_calls)) [] = (None,
       [PyOrderAck (py_OrderAck (makeOrderFields 8 1 7 Bid (i64 100) 5 (i64 1) Accepted) (Some NewAccepted)),
        PyOrderAck (py_OrderAck (makeOrderFields 8 1 7 Bid (i64 101) 4 (i64 2) Accepted) (Some ModifyAccepted)),
        PyOrderReject (py_OrderReject (makeOrderFields 8 2 7 SideNone (i64 0) 0 (i64 3) Rejected) (Some UnknownOrderId)
          (Some (GS_rejectText UnknownOrderId)))], [])"
    by (simp add: demo_calls_def reply_def after_request_def verdict_simps makeOrderFields_def GS_isValidActiveSide_def
        GS_isTerminal_def isDefinedPrice_def demo_prices demo_strategy_def py_on_ack_def py_on_reject_def GC_onAck_def
        GC_onReject_def py_OrderAck_def py_OrderReject_def)
  have client: "cl_channel demo_strategy = 1" "cl_trading_engine_id demo_strategy = 8" "cl_next_order_id demo_strategy = 1"
    by (simp_all add: demo_strategy_def py_on_ack_def py_on_reject_def GC_onAck_def GC_onReject_def)
  have "demo_calls \<noteq> []" by (simp add: demo_calls_def)
  from python_session_replies [OF gateway_run_reachable [OF g(1)] own this, of "[]"] g(1) own show ?thesis
    unfolding client g(4-6) by (auto simp: seen simp del: gateway_run.simps)
qed

end
