(* ===== verification/BasicTypes.thy ===== *)
theory BasicTypes
  imports Prelude
begin

unbundle bit_operations_syntax

text \<open>
  \<^verbatim>\<open>src/common/BasicTypes.hpp\<close> (namespace \<^verbatim>\<open>cmf\<close>): the vocabulary of identifiers and the key of a
  security on a market, with its hash. Only the two placeholder files of \<^verbatim>\<open>src/common\<close> and
  \<^verbatim>\<open>src/main\<close> include it; the rest of the program has types of its own. \<^verbatim>\<open>std::hash\<close> of the library is
  an argument.
\<close>

type_synonym u16 = "16 word"
type_synonym cmf_MarketId = u16
type_synonym cmf_SecurityId = u16

datatype cmf_Side = CmfNoSide | CmfBuy | CmfSell

fun cmf_side_value :: "cmf_Side \<Rightarrow> int" where
  "cmf_side_value CmfNoSide = 0"
| "cmf_side_value CmfBuy = 1"
| "cmf_side_value CmfSell = - 1"

datatype cmf_OrderType = CmfNoOrderType | CmfLimit | CmfMarket

datatype cmf_TimeInForce = CmfNoTimeInForce | GoodTillCancel | FillAndKill | FillOrKill

datatype cmf_SecurityType = CmfNoSecurityType | FX | Stock | Bond | Future | CmfOption

record MarketSecurityId =
  ms_mktId :: cmf_MarketId
  ms_secId :: cmf_SecurityId

definition MktId_None :: cmf_MarketId where
  "MktId_None = 0"

definition SecId_None :: cmf_SecurityId where
  "SecId_None = 0"

definition MktSecId_None :: MarketSecurityId where
  "MktSecId_None = \<lparr>ms_mktId = 0, ms_secId = 0\<rparr>"

definition MarketSecurityIdHash :: "(u16 \<Rightarrow> u64) \<Rightarrow> MarketSecurityId \<Rightarrow> u64" where
  "MarketSecurityIdHash std_hash key =
     (let h1 = std_hash (ms_secId key); h2 = std_hash (ms_mktId key) in h1 XOR push_bit 1 h2)"

text \<open>
  With a \<^verbatim>\<open>std::hash\<close> that tells values apart, two securities of one market never have the same
  hash. Two markets of one security do not either as long as that hash leaves the top bit alone,
  which the shift drops. Across markets the hash does collide.
\<close>

lemma MarketSecurityIdHash_same_market:
  assumes "inj std_hash" and "MarketSecurityIdHash std_hash \<lparr>ms_mktId = m, ms_secId = s\<rparr> = MarketSecurityIdHash std_hash \<lparr>ms_mktId = m, ms_secId = s'\<rparr>"
  shows "s = s'"
proof -
  let ?h = "push_bit 1 (std_hash m)"
  have "(std_hash s XOR ?h) XOR ?h = (std_hash s' XOR ?h) XOR ?h"
    using assms(2) by (simp add: MarketSecurityIdHash_def Let_def)
  then have "std_hash s = std_hash s'" by (simp add: xor.assoc)
  with assms(1) show ?thesis by (rule injD)
qed

lemma MarketSecurityIdHash_same_security:
  assumes "inj std_hash" and top: "\<And>x. \<not> bit (std_hash x) 63"
    and "MarketSecurityIdHash std_hash \<lparr>ms_mktId = m, ms_secId = s\<rparr> = MarketSecurityIdHash std_hash \<lparr>ms_mktId = m', ms_secId = s\<rparr>"
  shows "m = m'"
proof -
  let ?s = "std_hash s"
  have "?s XOR (?s XOR push_bit 1 (std_hash m)) = ?s XOR (?s XOR push_bit 1 (std_hash m'))"
    using assms(3) by (simp add: MarketSecurityIdHash_def Let_def)
  then have eq: "push_bit 1 (std_hash m) = push_bit 1 (std_hash m')" by (simp add: xor.assoc [symmetric])
  have "bit (std_hash m) n = bit (std_hash m') n" if "n < 64" for n
  proof (cases "n = 63")
    case False
    then have "bit (push_bit 1 (std_hash x)) (Suc n) = bit (std_hash x) n" for x
      using that by (subst bit_push_bit_iff) simp
    with eq show ?thesis by metis
  qed (use top in simp)
  then have "std_hash m = std_hash m'" by (intro bit_word_eqI) simp
  with assms(1) show ?thesis by (rule injD)
qed

lemma MarketSecurityIdHash_collision:
  "MarketSecurityIdHash ucast \<lparr>ms_mktId = 1, ms_secId = 0\<rparr> = MarketSecurityIdHash ucast \<lparr>ms_mktId = 0, ms_secId = 2\<rparr>"
  by code_simp

end
