(* ===== verification/FeedBenchmark.thy ===== *)
theory FeedBenchmark
  imports MarketDataFeed TextFormat
begin

text \<open>
  \<^verbatim>\<open>benchmarks/market_data_feed_benchmark.cpp\<close>: a program that drives the market data feed with one
  publishing thread and one consuming thread per subscriber and checks at its end that every
  subscriber got every message in sequence. The threads are modelled as steps between which
  any other thread may run: a step of the main thread is a call of the publisher, a step of a
  consumer is one \<^verbatim>\<open>tryPop\<close> with its callback or one of the tests of its loop, and the clock may advance
  at any time. A call of the publisher works on each queue separately, and what consumers do to
  other queues in the meantime has no effect on it.
\<close>

section \<open>Arguments\<close>

record BenchmarkConfig =
  bc_subscribers :: u64
  bc_messages :: u64
  bc_batch_size :: u64


fun positive_size_loop :: "string \<Rightarrow> u64 \<Rightarrow> string \<Rightarrow> exn + u64" where
  "positive_size_loop flag v [] = Inr v"
| "positive_size_loop flag v (ch # text) =
     (if \<not> is_digit ch then Inl (invalid_argument (flag @ '' must be a positive integer''))
      else
        let digit = of_int (char_digit ch)
        in if (- 1 - digit) div 10 < v then Inl (invalid_argument (flag @ '' is too large''))
           else positive_size_loop flag (v * 10 + digit) text)"

definition parsePositiveSize :: "string \<Rightarrow> string \<Rightarrow> exn + u64" where
  "parsePositiveSize text flag =
     (case positive_size_loop flag 0 text of
        Inl x \<Rightarrow> Inl x
      | Inr v \<Rightarrow> if v = 0 then Inl (invalid_argument (flag @ '' must be greater than zero'')) else Inr v)"



section \<open>Statistics\<close>

record SubscriberStats =
  st_gap_detector :: MarketDataGapDetector
  st_received :: u64
  st_sequence_ok :: bool
  st_first_error :: SequenceCheckResult

definition new_stats :: SubscriberStats where
  "new_stats = \<lparr>st_gap_detector = [], st_received = 0, st_sequence_ok = True,
     st_first_error = \<lparr>sc_status = SeqOk, sc_instrument_id = 0, sc_expected_seq_no = 0, sc_observed_seq_no = 0\<rparr>\<rparr>"

text \<open>The lambda that every subscription gets.\<close>

definition observe_message :: "MarketDataMessage \<Rightarrow> SubscriberStats \<Rightarrow> SubscriberStats" where
  "observe_message message s =
     (let (result, d) = GD_observe message (st_gap_detector s);
          s1 = s\<lparr>st_gap_detector := d\<rparr>;
          s2 = (if sc_status result \<noteq> SeqOk \<and> st_sequence_ok s1
                then s1\<lparr>st_sequence_ok := False, st_first_error := result\<rparr> else s1)
      in s2\<lparr>st_received := st_received s2 + 1\<rparr>)"

definition bench_callback :: "nat \<Rightarrow> SubscriberStats list MarketDataCallback" where
  "bench_callback i message stats = (None, stats[i := observe_message message (stats ! i)])"

text \<open>The index becomes a signed number and is added to the start time; where the sum overflows it is undefined.\<close>

definition update_at :: "instrument_id \<Rightarrow> int \<Rightarrow> BookUpdate" where
  "update_at instrument_id time =
     \<lparr>bu_instrument_id = instrument_id, bu_timestamp_ns = i64 time, bu_seq_no = 0,
      bu_side = Bid, bu_price = i64 100000000000, bu_size = 10\<rparr>"

definition makeUpdate :: "instrument_id \<Rightarrow> u64 \<Rightarrow> BookUpdate option" where
  "makeUpdate instrument_id index =
     (let time = 1700000000000000000 + val64 (Int64 index)
      in if time < 2 ^ 63 then Some (update_at instrument_id time) else None)"

fun verify_from :: "BenchmarkConfig \<Rightarrow> nat \<Rightarrow> SubscriberStats list \<Rightarrow> exn + unit" where
  "verify_from config i [] = Inr ()"
| "verify_from config i (s # stats) =
     (if st_received s \<noteq> bc_messages config
      then Inl (runtime_error (''subscriber '' @ dec_of_nat i @ '' received '' @ dec_of_nat (unat (st_received s)) @
             '' messages, expected '' @ dec_of_nat (unat (bc_messages config))))
      else if \<not> st_sequence_ok s
      then Inl (runtime_error (''subscriber '' @ dec_of_nat i @ '' sequence check failed: expected '' @
             dec_of_nat (unat (sc_expected_seq_no (st_first_error s))) @ '', observed '' @
             dec_of_nat (unat (sc_observed_seq_no (st_first_error s)))))
      else verify_from config (i + 1) stats)"

definition verifyStats :: "BenchmarkConfig \<Rightarrow> SubscriberStats list \<Rightarrow> exn + unit" where
  "verifyStats config stats = verify_from config 0 stats"

section \<open>The threads\<close>

abbreviation bench_instrument :: instrument_id where
  "bench_instrument \<equiv> 10"

fun bench_subscribe ::
  "nat \<Rightarrow> u64 \<Rightarrow> MarketDataPublisher \<Rightarrow> SubscriberStats list Subscribers \<Rightarrow>
   exn + MarketDataPublisher \<times> SubscriberStats list Subscribers" where
  "bench_subscribe 0 batch_size p subs = Inr (p, subs)"
| "bench_subscribe (Suc n) batch_size p subs =
     (case MP_subscribe bench_instrument (bench_callback (length subs)) batch_size p subs of
        (Inl x, _) \<Rightarrow> Inl x
      | (Inr _, p', subs') \<Rightarrow> bench_subscribe n batch_size p' subs')"

datatype main_pc = Publishing u64 | Flushed | Joining

datatype consumer_pc = Starting | AtLoop | Draining u64 | NothingDrained | Returned

record bench_consumer =
  cs_pc :: consumer_pc
  cs_last_progress :: int

record feed_bench =
  fb_publisher :: MarketDataPublisher
  fb_subs :: "SubscriberStats list Subscribers"
  fb_stats :: "SubscriberStats list"
  fb_main :: main_pc
  fb_consumers :: "bench_consumer list"
  fb_publishing_done :: bool
  fb_stop_requested :: bool
  fb_now :: int

text \<open>
  The state when the consumers have been started, for a number of subscribers that memory and the
  system can provide; times are in nanoseconds.
\<close>

definition feed_bench_start :: "BenchmarkConfig \<Rightarrow> exn + feed_bench" where
  "feed_bench_start config =
     (let n = unat (bc_subscribers config)
      in case bench_subscribe n (bc_batch_size config) MP_new [] of
           Inl x \<Rightarrow> Inl x
         | Inr (p, subs) \<Rightarrow>
             Inr \<lparr>fb_publisher = p, fb_subs = subs, fb_stats = replicate n new_stats, fb_main = Publishing 0,
                  fb_consumers = replicate n \<lparr>cs_pc = Starting, cs_last_progress = 0\<rparr>, fb_publishing_done = False,
                  fb_stop_requested = False, fb_now = 0\<rparr>)"

definition main_step :: "BenchmarkConfig \<Rightarrow> feed_bench \<Rightarrow> feed_bench option" where
  "main_step config b =
     (case fb_main b of
        Publishing i \<Rightarrow>
          if i < bc_messages config
          then Option.bind (makeUpdate bench_instrument i) (\<lambda>u.
                 map_option (\<lambda>(n, p, subs). b\<lparr>fb_publisher := p, fb_subs := subs, fb_main := Publishing (i + 1)\<rparr>)
                   (MP_publishUpdate u (fb_publisher b) (fb_subs b)))
          else map_option (\<lambda>subs. b\<lparr>fb_subs := subs, fb_main := Flushed\<rparr>) (MP_flush (fb_publisher b) (fb_subs b))
      | Flushed \<Rightarrow> Some (b\<lparr>fb_publishing_done := True, fb_main := Joining\<rparr>)
      | Joining \<Rightarrow> Some b)"

abbreviation set_consumer :: "nat \<Rightarrow> bench_consumer \<Rightarrow> feed_bench \<Rightarrow> feed_bench" where
  "set_consumer i c b \<equiv> b\<lparr>fb_consumers := (fb_consumers b)[i := c]\<rparr>"

abbreviation ten_seconds :: int where
  "ten_seconds \<equiv> 10000000000"

text \<open>A callback that throws would end the process, as would a fault of a queue.\<close>

definition consumer_step :: "BenchmarkConfig \<Rightarrow> nat \<Rightarrow> feed_bench \<Rightarrow> feed_bench option" where
  "consumer_step config i b =
     (let c = fb_consumers b ! i
      in case cs_pc c of
           Starting \<Rightarrow> Some (set_consumer i (c\<lparr>cs_pc := AtLoop, cs_last_progress := fb_now b\<rparr>) b)
         | AtLoop \<Rightarrow>
             if st_received (fb_stats b ! i) < bc_messages config \<and> \<not> fb_stop_requested b
             then Some (set_consumer i (c\<lparr>cs_pc := Draining 0\<rparr>) b)
             else Some (set_consumer i (c\<lparr>cs_pc := Returned\<rparr>) b)
         | Draining drained \<Rightarrow>
             Option.bind (MS_tryPop (fb_subs b ! i)) (\<lambda>(message, s).
               let b1 = b\<lparr>fb_subs := (fb_subs b)[i := s]\<rparr>
               in case message of
                    Some m \<Rightarrow>
                      (case ms_callback s m (fb_stats b) of
                         (Some x, _) \<Rightarrow> None
                       | (None, stats) \<Rightarrow> Some (set_consumer i (c\<lparr>cs_pc := Draining (drained + 1)\<rparr>) (b1\<lparr>fb_stats := stats\<rparr>)))
                  | None \<Rightarrow>
                      if 0 < drained
                      then Some (set_consumer i (c\<lparr>cs_pc := AtLoop, cs_last_progress := fb_now b\<rparr>) b1)
                      else Some (set_consumer i (c\<lparr>cs_pc := NothingDrained\<rparr>) b1))
         | NothingDrained \<Rightarrow>
             if fb_publishing_done b \<and> ten_seconds < fb_now b - cs_last_progress c
             then Some (set_consumer i (c\<lparr>cs_pc := Returned\<rparr>) (b\<lparr>fb_stop_requested := True\<rparr>))
             else Some (set_consumer i (c\<lparr>cs_pc := AtLoop\<rparr>) b)
         | Returned \<Rightarrow> Some b)"

datatype bench_op = MainStep | ConsumerStep nat | Tick u64

fun bench_step :: "BenchmarkConfig \<Rightarrow> feed_bench \<Rightarrow> bench_op \<Rightarrow> feed_bench option" where
  "bench_step config b MainStep = main_step config b"
| "bench_step config b (ConsumerStep i) = (if i < length (fb_consumers b) then consumer_step config i b else Some b)"
| "bench_step config b (Tick d) = Some (b\<lparr>fb_now := fb_now b + uint d\<rparr>)"

fun bench_run :: "BenchmarkConfig \<Rightarrow> feed_bench \<Rightarrow> bench_op list \<Rightarrow> feed_bench option" where
  "bench_run config b [] = Some b"
| "bench_run config b (op # ops) = Option.bind (bench_step config b op) (\<lambda>b'. bench_run config b' ops)"

definition bench_joined :: "feed_bench \<Rightarrow> bool" where
  "bench_joined b \<longleftrightarrow> fb_main b = Joining \<and> list_all (\<lambda>c. cs_pc c = Returned) (fb_consumers b)"





section \<open>Sizes\<close>

text \<open>The test for the next digit is exact: it fails when the value would not fit.\<close>

lemma next_digit_fits:
  fixes v :: u64
  assumes "0 \<le> d" "d \<le> 9"
  shows "(- 1 - of_int d) div 10 < v \<longleftrightarrow> 2 ^ 64 \<le> uint v * 10 + d"
    and "uint v * 10 + d < 2 ^ 64 \<Longrightarrow> uint (v * 10 + of_int d) = uint v * 10 + d"
proof -
  have d: "uint (word_of_int d :: u64) = d"
    using assms unfolding uint_word_of_int_eq by (intro take_bit_int_eq_self) simp_all
  have m: "uint (- 1 :: u64) = 2 ^ 64 - 1" by (simp add: unsigned_minus_1_eq_mask mask_eq_exp_minus_1)
  have below: "k div 10 < u \<longleftrightarrow> k < u * 10" for k u :: int by presburger
  have ten: "uint (10 :: u64) = 10" by simp
  have "uint (word_of_int d :: u64) \<le> uint (- 1 :: u64)" using assms unfolding d m by simp
  then have "uint (- 1 - word_of_int d :: u64) = uint (- 1 :: u64) - uint (word_of_int d :: u64)" by (simp only: uint_sub_lem)
  then have "uint (- 1 - word_of_int d :: u64) = 2 ^ 64 - 1 - d" by (simp only: d m)
  then have "uint ((- 1 - word_of_int d :: u64) div 10) = (2 ^ 64 - 1 - d) div 10" unfolding uint_div ten by simp
  then have "(- 1 - of_int d) div 10 < v \<longleftrightarrow> (2 ^ 64 - 1 - d) div 10 < uint v" unfolding word_less_def by simp
  also have "\<dots> \<longleftrightarrow> 2 ^ 64 \<le> uint v * 10 + d" unfolding below by linarith
  finally show "(- 1 - of_int d) div 10 < v \<longleftrightarrow> 2 ^ 64 \<le> uint v * 10 + d" .
  show "uint (v * 10 + of_int d) = uint v * 10 + d" if "uint v * 10 + d < 2 ^ 64"
  proof -
    have "uint v * uint (10 :: u64) < 2 ^ 64" using that assms unfolding ten by linarith
    then have "uint (v * 10) = uint v * 10" using uint_mult_lem [of v 10] unfolding ten by simp
    then show ?thesis using uint_add_lem [of "v * 10" "of_int d"] that d by simp
  qed
qed

lemma positive_size_loop_exact:
  "positive_size_loop flag v ds = Inr n \<longleftrightarrow>
     list_all is_digit ds \<and> read_digits (uint v) ds < 2 ^ 64 \<and> uint n = read_digits (uint v) ds"
proof (induction ds arbitrary: v)
  case Nil
  have "uint v < 2 ^ 64" using uint_lt2p [of v] by simp
  then show ?case by (auto simp: word_uint_eq_iff)
next
  case (Cons c ds)
  show ?case
  proof (cases "is_digit c")
    case True
    then have d: "0 \<le> char_digit c" "char_digit c \<le> 9" by (simp_all add: is_digit_def)
    note fits = next_digit_fits [OF d, of v]
    show ?thesis
    proof (cases "uint v * 10 + char_digit c < 2 ^ 64")
      case fit: True
      then have "\<not> (- 1 - of_int (char_digit c)) div 10 < v" using fits(1) by linarith
      with True Cons.IH [of "v * 10 + of_int (char_digit c)"] fits(2) [OF fit] show ?thesis by (simp add: Let_def)
    next
      case False
      then have "(- 1 - of_int (char_digit c)) div 10 < v" using fits(1) by linarith
      moreover have "\<not> read_digits (uint v) (c # ds) < 2 ^ 64" if "list_all is_digit ds"
        using read_digits_mono [OF that, of "uint v * 10 + char_digit c"] d False uint_ge_0 [of v] by simp
      ultimately show ?thesis using True by (auto simp: Let_def)
    qed
  qed simp
qed

text \<open>
  Sizes on the command line are read exactly: a text is accepted if and only if it consists of digits
  whose value is positive and fits 64 bits, and the result is that value; nothing wraps around.
\<close>

theorem positive_size_exact:
  "parsePositiveSize ds flag = Inr n \<longleftrightarrow>
     list_all is_digit ds \<and> 0 < read_digits 0 ds \<and> read_digits 0 ds < 2 ^ 64 \<and> uint n = read_digits 0 ds"
proof -
  have "parsePositiveSize ds flag = Inr n \<longleftrightarrow> positive_size_loop flag 0 ds = Inr n \<and> n \<noteq> 0"
    by (auto simp: parsePositiveSize_def split: sum.splits)
  also have "\<dots> \<longleftrightarrow> list_all is_digit ds \<and> 0 < read_digits 0 ds \<and> read_digits 0 ds < 2 ^ 64 \<and> uint n = read_digits 0 ds"
    using positive_size_loop_exact [of flag 0 ds n] read_digits_mono [of ds 0]
    by (auto simp: word_uint_eq_iff)
  finally show ?thesis .
qed


section \<open>Subscribers with other callbacks\<close>

text \<open>
  The publisher never looks at callbacks, so the subscribers of the benchmark behave like those of
  the feed in \<open>MarketDataFeed\<close>, whose callbacks record what they see.
\<close>

definition retarget :: "(nat \<Rightarrow> 'v MarketDataCallback) \<Rightarrow> 'w Subscribers \<Rightarrow> 'v Subscribers" where
  "retarget cb subs = map (\<lambda>i. \<lparr>ms_queue = ms_queue (subs ! i), ms_callback = cb i\<rparr>) [0..<length subs]"

lemma retarget_simps [simp]:
  "length (retarget cb subs) = length subs" "retarget cb [] = []"
  "i < length subs \<Longrightarrow> retarget cb subs ! i = \<lparr>ms_queue = ms_queue (subs ! i), ms_callback = cb i\<rparr>"
  "retarget cb (subs @ [s]) = retarget cb subs @ [\<lparr>ms_queue = ms_queue s, ms_callback = cb (length subs)\<rparr>]"
  by (auto simp: retarget_def nth_append intro!: map_cong)

lemma retarget_update:
  "i < length subs \<Longrightarrow> (retarget cb subs)[i := \<lparr>ms_queue = ms_queue s, ms_callback = cb i\<rparr>] = retarget cb (subs[i := s])"
  by (intro nth_equalityI) (auto simp: nth_list_update)

lemma for_subscribers_retarget:
  assumes "\<And>s. f s = map_option (\<lambda>q. s\<lparr>ms_queue := q\<rparr>) (h (ms_queue s))"
    and "\<And>s. g s = map_option (\<lambda>q. s\<lparr>ms_queue := q\<rparr>) (h (ms_queue s))"
  shows "for_subscribers g sns (retarget cb subs) = map_option (retarget cb) (for_subscribers f sns subs)"
proof (induction sns arbitrary: subs)
  case (Cons sn sns)
  let ?i = "sn_subscriber sn"
  show ?case
  proof (cases "?i < length subs \<and> h (ms_queue (subs ! ?i)) \<noteq> None")
    case True
    then obtain q where i: "?i < length subs" "h (ms_queue (subs ! ?i)) = Some q" by blast
    with Cons.IH [of "subs[?i := (subs ! ?i)\<lparr>ms_queue := q\<rparr>]"]
      retarget_update [of ?i subs cb "(subs ! ?i)\<lparr>ms_queue := q\<rparr>"] show ?thesis
      by (simp add: assms)
  qed (auto simp: assms)
qed simp

lemma MP_publishUpdate_retarget:
  "MP_publishUpdate u p (retarget cb subs) =
     map_option (\<lambda>(n, p', subs'). (n, p', retarget cb subs')) (MP_publishUpdate u p subs)"
proof -
  have "for_subscribers (MS_push m) sns (retarget cb subs) = map_option (retarget cb) (for_subscribers (MS_push m) sns subs)" for m sns
    by (rule for_subscribers_retarget) (simp_all add: MS_push_def)
  then show ?thesis
    by (auto simp: MP_publishUpdate_def MP_publish_def option.map_comp comp_def case_prod_beta Let_def
        simp del: map_of_eq_None_iff map_of_eq_Some_iff split: option.split)
qed

lemma MP_flush_retarget: "MP_flush p (retarget cb subs) = map_option (retarget cb) (MP_flush p subs)"
  unfolding MP_flush_def by (rule for_subscribers_retarget) (simp_all add: MS_flush_def)

lemma MS_tryPop_retarget:
  "MS_tryPop s = Some (m, s') \<Longrightarrow>
     MS_tryPop \<lparr>ms_queue = ms_queue s, ms_callback = c\<rparr> = Some (m, \<lparr>ms_queue = ms_queue s', ms_callback = c\<rparr>)"
  by (auto simp: MS_tryPop_def)

lemma MP_subscribe_retarget:
  "MP_subscribe k (cb (length subs)) bs p (retarget cb subs) =
     (case MP_subscribe k c bs p subs of (r, p', subs') \<Rightarrow> (r, p', retarget cb subs'))"
  by (auto simp: MP_subscribe_def MS_new_def Let_def split: sum.splits)

section \<open>What a subscriber has observed\<close>

definition observed :: "MarketDataMessage list \<Rightarrow> SubscriberStats" where
  "observed ms = foldl (\<lambda>s m. observe_message m s) new_stats ms"

lemma observe_all:
  "st_received (foldl (\<lambda>s m. observe_message m s) s ms) = st_received s + of_nat (length ms)"
  "st_sequence_ok (foldl (\<lambda>s m. observe_message m s) s ms) \<longleftrightarrow>
     st_sequence_ok s \<and> list_all (\<lambda>r. sc_status r = SeqOk) (fst (GD_observe_all (st_gap_detector s) ms))"
  by (induction ms arbitrary: s) (auto simp: observe_message_def case_prod_beta Let_def)

lemma observed_simps:
  "observed [] = new_stats" "observed (ms @ [m]) = observe_message m (observed ms)"
  "st_received (observed ms) = of_nat (length ms)"
  by (simp_all add: observed_def observe_all) (simp add: new_stats_def)

lemma observed_in_sequence:
  assumes "numbered 0 ms" "\<forall>m \<in> set ms. instrumentId m = k" "length ms < two64 - 1"
  shows "st_sequence_ok (observed ms)"
  using GD_consecutive_ok [OF assms(1,2), of "[]"] assms(3)
  by (simp add: observed_def observe_all) (simp add: new_stats_def high_def)

section \<open>The invariant of a run\<close>

text \<open>What has been published after \<open>k\<close> steps of the loop, for \<open>n\<close> subscribers that joined before.\<close>

definition update_number :: "nat \<Rightarrow> BookUpdate" where
  "update_number j = update_at bench_instrument (1700000000000000000 + int j)"

definition bench_message :: "nat \<Rightarrow> MarketDataMessage" where
  "bench_message j = UpdateMsg ((update_number j)\<lparr>bu_seq_no := of_nat (Suc j)\<rparr>)"

text \<open>So many updates have a time that can be represented.\<close>

definition defined_updates :: nat where
  "defined_updates = 2 ^ 63 - 1700000000000000000"

lemma makeUpdate_defined:
  assumes "j < defined_updates"
  shows "makeUpdate bench_instrument (of_nat j) = Some (update_number j)"
proof -
  have j: "int j < 2 ^ 63 - 1700000000000000000" using assms by (simp add: defined_updates_def)
  have "Int64 (of_nat j) = i64 (int j)" by (simp add: i64_def)
  moreover have "val64 (i64 (int j)) = int j" using j by (intro val64_i64) simp_all
  ultimately show ?thesis using j by (simp add: makeUpdate_def update_number_def Let_def)
qed

definition bench_spec :: "nat \<Rightarrow> nat \<Rightarrow> feed_spec" where
  "bench_spec n k = \<lparr>fs_published = map bench_message [0..<k], fs_joined = replicate n (bench_instrument, 0)\<rparr>"

lemma bench_message_simps [simp]: "instrumentId (bench_message j) = bench_instrument" "seqNo (bench_message j) = of_nat (Suc j)"
  by (simp_all add: bench_message_def update_number_def update_at_def)

lemma bench_published [simp]: "of_instrument bench_instrument (map bench_message js) = map bench_message js"
  by (simp add: filter_map comp_def)

lemma bench_spec_step: "spec_publish (UpdateMsg (update_number k)) (bench_spec n k) = bench_spec n (Suc k)"
  by (simp add: spec_publish_def bench_spec_def bench_message_def update_number_def update_at_def)

lemma owed_bench [simp]: "i < n \<Longrightarrow> owed (bench_spec n k) i = map bench_message [0..<k]"
  by (simp add: owed_def bench_spec_def)

lemma numbered_bench: "numbered 0 (map bench_message [0..<k])"
  by (simp add: numbered_def comp_def map_Suc_upt [symmetric] del: upt_Suc of_nat_Suc)

definition bench_rel ::
  "BenchmarkConfig \<Rightarrow> seen Subscribers \<Rightarrow> seen \<Rightarrow> nat \<Rightarrow> feed_bench \<Rightarrow> bool" where
  "bench_rel config subs seen k b \<longleftrightarrow>
     (let n = unat (bc_subscribers config); m = unat (bc_messages config)
      in fb_subs b = retarget bench_callback subs \<and>
         feed_rel never_raises (fb_publisher b, subs, seen) (bench_spec n k) \<and>
         fb_stats b = map (\<lambda>i. observed (seen i)) [0..<n] \<and> length (fb_consumers b) = n \<and> k \<le> m \<and> m \<le> defined_updates \<and>
         (case fb_main b of
            Publishing i \<Rightarrow> i = of_nat k
          | _ \<Rightarrow> k = m \<and> (\<forall>i < n. NBQ_published (ms_queue (subs ! i)) = pending (subs ! i))) \<and>
         (\<forall>i < n. cs_pc (fb_consumers b ! i) = Returned \<longrightarrow> fb_stop_requested b \<or> length (seen i) = m))"

lemma bench_rel_length: "bench_rel config subs seen k b \<Longrightarrow> length subs = unat (bc_subscribers config)"
  by (simp add: bench_rel_def Let_def feed_rel_def bench_spec_def)

lemma bench_seen:
  assumes "bench_rel config subs seen k b" and "i < unat (bc_subscribers config)"
  shows "seen i @ pending (subs ! i) = map bench_message [0..<k]" and "length (seen i) \<le> unat (bc_messages config)"
proof -
  have r: "feed_rel never_raises (fb_publisher b, subs, seen) (bench_spec (unat (bc_subscribers config)) k)" "k \<le> unat (bc_messages config)"
    using assms(1) by (simp_all add: bench_rel_def Let_def)
  then show s: "seen i @ pending (subs ! i) = map bench_message [0..<k]"
    using assms(2) bench_rel_length [OF assms(1)] by (simp add: feed_rel_def)
  have "length (seen i @ pending (subs ! i)) = k" unfolding s by simp
  with r(2) show "length (seen i) \<le> unat (bc_messages config)" by simp
qed

lemma bench_stats:
  assumes "bench_rel config subs seen k b" and "i < unat (bc_subscribers config)"
  shows "st_received (fb_stats b ! i) = of_nat (length (seen i))"
    and "unat (st_received (fb_stats b ! i)) = length (seen i)"
    and "unat (bc_messages config) < two64 - 1 \<Longrightarrow> st_sequence_ok (fb_stats b ! i)"
proof -
  note s = bench_seen [OF assms]
  have st: "fb_stats b ! i = observed (seen i)" using assms by (simp add: bench_rel_def Let_def)
  then show r: "st_received (fb_stats b ! i) = of_nat (length (seen i))" by (simp add: observed_simps)
  have "length (seen i) < two64" using s(2) unat_u64_less [of "bc_messages config"] by linarith
  then show "unat (st_received (fb_stats b ! i)) = length (seen i)" unfolding r by (rule unat_of_nat_u64)
  assume m: "unat (bc_messages config) < two64 - 1"
  have "numbered 0 (seen i @ pending (subs ! i))" unfolding s(1) by (rule numbered_bench)
  then have "numbered 0 (seen i)" by (simp add: numbered_append)
  moreover have "\<forall>x \<in> set (seen i @ pending (subs ! i)). instrumentId x = bench_instrument" unfolding s(1) by auto
  ultimately show "st_sequence_ok (fb_stats b ! i)" unfolding st using s(2) m by (intro observed_in_sequence) auto
qed

text \<open>What is left to do for the main thread, and for a consumer once all messages are visible to it.\<close>

definition main_rank :: "BenchmarkConfig \<Rightarrow> feed_bench \<Rightarrow> nat" where
  "main_rank config b =
     (case fb_main b of Publishing i \<Rightarrow> unat (bc_messages config) - unat i + 2 | Flushed \<Rightarrow> 1 | Joining \<Rightarrow> 0)"

definition consumer_rank :: "nat \<Rightarrow> feed_bench \<Rightarrow> nat" where
  "consumer_rank i b =
     (let p = length (pending (fb_subs b ! i))
      in case cs_pc (fb_consumers b ! i) of
           Returned \<Rightarrow> 0
         | AtLoop \<Rightarrow> if p = 0 then 1 else 4 * p + 2
         | Starting \<Rightarrow> if p = 0 then 2 else 4 * p + 3
         | NothingDrained \<Rightarrow> if p = 0 then 2 else 4 * p + 3
         | Draining _ \<Rightarrow> if p = 0 then 3 else 4 * p + 1)"

lemma bench_main_step:
  assumes "bench_rel config subs seen k b"
  shows "\<exists>b' subs' k'. main_step config b = Some b' \<and> bench_rel config subs' seen k' b' \<and>
     main_rank config b' \<le> main_rank config b - 1 \<and> (fb_main b = Joining \<longrightarrow> b' = b)"
proof -
  let ?n = "unat (bc_subscribers config)" and ?m = "unat (bc_messages config)"
  have r: "fb_subs b = retarget bench_callback subs" "feed_rel never_raises (fb_publisher b, subs, seen) (bench_spec ?n k)" "k \<le> ?m"
    using assms by (simp_all add: bench_rel_def Let_def)
  show ?thesis
  proof (cases "fb_main b")
    case (Publishing i)
    have "k < two64" using r(3) unat_u64_less by (rule le_less_trans)
    moreover have "i = of_nat k" using assms Publishing by (simp add: bench_rel_def Let_def)
    ultimately have i: "i = of_nat k" "unat i = k" by (simp_all add: unat_of_nat_u64)
    have u: "makeUpdate bench_instrument i = Some (update_number k)" if "i < bc_messages config"
      using assms that i by (simp add: makeUpdate_defined bench_rel_def Let_def word_less_nat_alt)
    show ?thesis
    proof (cases "i < bc_messages config")
      case True
      from feed_rel_publish [OF r(2), of "UpdateMsg (update_number k)"] obtain nr p subs' where
        p: "MP_publishUpdate (update_number k) (fb_publisher b) subs = Some (nr, p, subs')"
          "feed_rel never_raises (p, subs', seen) (bench_spec ?n (Suc k))"
        unfolding publish_as_numbered bench_spec_step by blast
      have "bench_rel config subs' seen (Suc k)
          (b\<lparr>fb_publisher := p, fb_subs := retarget bench_callback subs', fb_main := Publishing (i + 1)\<rparr>)"
        using assms p(2) True i Publishing by (simp add: bench_rel_def Let_def word_less_nat_alt add.commute)
      moreover have "i \<noteq> - 1"
      proof
        assume "i = - 1"
        then have "two64 - 1 < unat (bc_messages config)" using True by (simp add: word_less_nat_alt unat_minus_one_u64)
        then show False using unat_u64_less [of "bc_messages config"] by linarith
      qed
      from unat_suc_u64 [OF this] have "unat (bc_messages config) - unat (i + 1) + 2 \<le> unat (bc_messages config) - unat i + 2 - 1"
        using True unfolding word_less_nat_alt by linarith
      ultimately show ?thesis using p(1) r(1) Publishing True u
        by (simp add: main_step_def MP_publishUpdate_retarget main_rank_def) blast
    next
      case False
      then have k: "k = ?m" using i r(3) by (simp add: word_less_nat_alt)
      from feed_rel_flush [OF r(2)] obtain subs' where
        p: "MP_flush (fb_publisher b) subs = Some subs'" "feed_rel never_raises (fb_publisher b, subs', seen) (bench_spec ?n k)"
          "\<forall>i < length subs. NBQ_published (ms_queue (subs' ! i)) = pending (subs' ! i)" by blast
      have "bench_rel config subs' seen k (b\<lparr>fb_subs := retarget bench_callback subs', fb_main := Flushed\<rparr>)"
        using assms p(2,3) k bench_rel_length [OF assms] by (simp add: bench_rel_def Let_def)
      with p(1) r(1) Publishing False show ?thesis by (simp add: main_step_def MP_flush_retarget main_rank_def) blast
    qed
  next
    case Flushed
    with assms have "bench_rel config subs seen k (b\<lparr>fb_publishing_done := True, fb_main := Joining\<rparr>)"
      by (auto simp: bench_rel_def Let_def)
    with Flushed show ?thesis by (simp add: main_step_def main_rank_def) blast
  next
    case Joining
    with assms show ?thesis by (simp add: main_step_def main_rank_def) blast
  qed
qed

text \<open>A step of a consumer; what it still has to do shrinks once everything is visible.\<close>

lemma bench_rel_pc:
  assumes "bench_rel config subs seen k b" and "i < unat (bc_subscribers config)"
    and "cs_pc c = Returned \<Longrightarrow> fb_stop_requested b \<or> length (seen i) = unat (bc_messages config)"
  shows "bench_rel config subs seen k (set_consumer i c b)"
  using assms by (auto simp: bench_rel_def Let_def nth_list_update)

lemma bench_rel_pop:
  assumes rel: "bench_rel config subs seen k b" and i: "i < unat (bc_subscribers config)"
  obtains (empty) s subs' where "MS_tryPop (fb_subs b ! i) = Some (None, s)"
      "bench_rel config subs' seen k (b\<lparr>fb_subs := (fb_subs b)[i := s]\<rparr>)"
      "fb_main b = Joining \<longrightarrow> pending (fb_subs b ! i) = []" "pending s = pending (fb_subs b ! i)"
  | (item) m s subs' where "MS_tryPop (fb_subs b ! i) = Some (Some m, s)" "ms_callback s = bench_callback i"
      "pending (fb_subs b ! i) = m # pending s"
      "cs_pc (fb_consumers b ! i) \<noteq> Returned \<longrightarrow> bench_rel config subs' (seen(i := seen i @ [m])) k
         (b\<lparr>fb_subs := (fb_subs b)[i := s], fb_stats := (fb_stats b)[i := observe_message m (fb_stats b ! i)]\<rparr>)"
proof -
  let ?n = "unat (bc_subscribers config)"
  have r: "fb_subs b = retarget bench_callback subs" "feed_rel never_raises (fb_publisher b, subs, seen) (bench_spec ?n k)"
    "fb_stats b = map (\<lambda>i. observed (seen i)) [0..<?n]"
    using rel by (simp_all add: bench_rel_def Let_def)
  have len: "i < length subs" using bench_rel_length [OF rel] i by simp
  from r(2) len show thesis
  proof (cases rule: feed_rel_pop)
    case (empty s')
    let ?s = "\<lparr>ms_queue = ms_queue s', ms_callback = bench_callback i\<rparr>"
    have "MS_tryPop (fb_subs b ! i) = Some (None, ?s)" using MS_tryPop_retarget [OF empty(1)] len by (simp add: r(1))
    moreover have "(fb_subs b)[i := ?s] = retarget bench_callback (subs[i := s'])" using len by (simp add: r(1) retarget_update)
    moreover have "bench_rel config (subs[i := s']) seen k (b\<lparr>fb_subs := retarget bench_callback (subs[i := s'])\<rparr>)"
      using rel empty len by (auto simp: bench_rel_def Let_def nth_list_update split: main_pc.splits)
    moreover have "fb_main b = Joining \<longrightarrow> pending (fb_subs b ! i) = []"
      using rel empty(3) i len by (simp add: r(1)) (auto simp: bench_rel_def Let_def)
    moreover have "pending ?s = pending (fb_subs b ! i)" using empty(5) len by (simp add: r(1))
    ultimately show ?thesis using that(1) by metis
  next
    case (item m s')
    let ?s = "\<lparr>ms_queue = ms_queue s', ms_callback = bench_callback i\<rparr>"
    let ?stats = "(fb_stats b)[i := observe_message m (fb_stats b ! i)]"
    have "MS_tryPop (fb_subs b ! i) = Some (Some m, ?s)" using MS_tryPop_retarget [OF item(1)] len by (simp add: r(1))
    moreover have "(fb_subs b)[i := ?s] = retarget bench_callback (subs[i := s'])" using len by (simp add: r(1) retarget_update)
    moreover have "?stats = map (\<lambda>j. observed ((seen(i := seen i @ [m])) j)) [0..<?n]"
      using i by (intro nth_equalityI) (auto simp: r(3) nth_list_update observed_simps)
    then have "bench_rel config (subs[i := s']) (seen(i := seen i @ [m])) k
        (b\<lparr>fb_subs := retarget bench_callback (subs[i := s']), fb_stats := ?stats\<rparr>)"
      if "cs_pc (fb_consumers b ! i) \<noteq> Returned"
      using rel item len that by (auto simp: bench_rel_def Let_def nth_list_update split: main_pc.splits)
    moreover have "ms_callback ?s = bench_callback i" "pending (fb_subs b ! i) = m # pending ?s"
      using item(4) len by (simp_all add: r(1))
    ultimately show ?thesis using that(2) [of m ?s "subs[i := s']"] by metis
  qed
qed

lemma bench_waiting:
  assumes rel: "bench_rel config subs seen k b" and i: "i < unat (bc_subscribers config)"
    and "st_received (fb_stats b ! i) < bc_messages config"
  shows "fb_main b = Joining \<longrightarrow> pending (fb_subs b ! i) \<noteq> []"
proof
  assume "fb_main b = Joining"
  then have k: "k = unat (bc_messages config)" using rel by (simp add: bench_rel_def Let_def)
  have "length (seen i) < k" using assms(3) bench_stats(2) [OF rel i] by (simp add: word_less_nat_alt k)
  moreover have "length (seen i @ pending (subs ! i)) = k" unfolding bench_seen(1) [OF rel i] by simp
  ultimately have "pending (subs ! i) \<noteq> []" by auto
  then show "pending (fb_subs b ! i) \<noteq> []"
    using rel i bench_rel_length [OF rel] by (simp add: bench_rel_def Let_def)
qed

definition consumer_stepped :: "nat \<Rightarrow> feed_bench \<Rightarrow> feed_bench \<Rightarrow> bool" where
  "consumer_stepped i b b' \<longleftrightarrow>
     fb_main b' = fb_main b \<and>
     (\<forall>j. j \<noteq> i \<longrightarrow> fb_subs b' ! j = fb_subs b ! j \<and> fb_consumers b' ! j = fb_consumers b ! j) \<and>
     (fb_main b = Joining \<longrightarrow> consumer_rank i b' \<le> consumer_rank i b - 1)"

lemma consumer_stepped_rank:
  "consumer_stepped i b b' \<Longrightarrow> fb_main b = Joining \<Longrightarrow>
     fb_main b' = Joining \<and> consumer_rank j b' \<le> consumer_rank j b - (if j = i then 1 else 0)"
  by (auto simp: consumer_stepped_def consumer_rank_def)

lemma bench_consumer_step:
  assumes rel: "bench_rel config subs seen k b" and i: "i < unat (bc_subscribers config)"
  shows "\<exists>b' subs' seen'. consumer_step config i b = Some b' \<and> bench_rel config subs' seen' k b' \<and> consumer_stepped i b b'"
proof -
  let ?c = "fb_consumers b ! i"
  have len: "i < length (fb_consumers b)" "i < length (fb_subs b)"
    using rel i bench_rel_length [OF rel] by (simp_all add: bench_rel_def Let_def)
  show ?thesis
  proof (cases "cs_pc ?c")
    case Starting
    let ?go = "set_consumer i (?c\<lparr>cs_pc := AtLoop, cs_last_progress := fb_now b\<rparr>) b"
    have "bench_rel config subs seen k ?go" by (rule bench_rel_pc [OF rel i]) simp
    moreover have "consumer_stepped i b ?go"
      using Starting len by (simp add: consumer_stepped_def consumer_rank_def Let_def)
    ultimately show ?thesis using Starting by (auto simp: consumer_step_def Let_def)
  next
    case AtLoop
    let ?go = "set_consumer i (?c\<lparr>cs_pc := Draining 0\<rparr>) b" and ?ret = "set_consumer i (?c\<lparr>cs_pc := Returned\<rparr>) b"
    have "length (seen i) = unat (bc_messages config)" if "\<not> st_received (fb_stats b ! i) < bc_messages config"
      using that bench_stats(2) [OF rel i] bench_seen(2) [OF rel i] by (simp add: word_less_nat_alt)
    then have "bench_rel config subs seen k ?ret"
      if "\<not> (st_received (fb_stats b ! i) < bc_messages config \<and> \<not> fb_stop_requested b)"
      using that by (intro bench_rel_pc [OF rel i]) auto
    moreover have "consumer_stepped i b ?ret" using AtLoop len by (simp add: consumer_stepped_def consumer_rank_def)
    moreover have "bench_rel config subs seen k ?go" by (rule bench_rel_pc [OF rel i]) simp
    moreover have "consumer_stepped i b ?go" if "st_received (fb_stats b ! i) < bc_messages config"
      using AtLoop len bench_waiting [OF rel i that] by (simp add: consumer_stepped_def consumer_rank_def)
    ultimately show ?thesis using AtLoop by (auto simp: consumer_step_def Let_def)
  next
    case (Draining d)
    from rel i show ?thesis
    proof (cases rule: bench_rel_pop)
      case (empty s subs')
      let ?b = "\<lambda>c. set_consumer i c (b\<lparr>fb_subs := (fb_subs b)[i := s]\<rparr>)"
      let ?c1 = "?c\<lparr>cs_pc := AtLoop, cs_last_progress := fb_now b\<rparr>" and ?c2 = "?c\<lparr>cs_pc := NothingDrained\<rparr>"
      have "bench_rel config subs' seen k (?b ?c1)" "bench_rel config subs' seen k (?b ?c2)"
        by (rule bench_rel_pc [OF empty(2) i], simp)+
      moreover have "consumer_stepped i b (?b ?c1)" "consumer_stepped i b (?b ?c2)"
        using empty(3,4) Draining len by (auto simp: consumer_stepped_def consumer_rank_def)
      ultimately show ?thesis using empty(1) Draining by (cases "0 < d") (auto simp: consumer_step_def Let_def)
    next
      case (item m s subs')
      let ?b = "b\<lparr>fb_subs := (fb_subs b)[i := s], fb_stats := (fb_stats b)[i := observe_message m (fb_stats b ! i)]\<rparr>"
      let ?b' = "set_consumer i (?c\<lparr>cs_pc := Draining (d + 1)\<rparr>) ?b"
      have "bench_rel config subs' (seen(i := seen i @ [m])) k ?b" using item(4) Draining by simp
      from this i have "bench_rel config subs' (seen(i := seen i @ [m])) k ?b'" by (rule bench_rel_pc) simp
      moreover have "consumer_stepped i b ?b'"
        using item(3) Draining len by (auto simp: consumer_stepped_def consumer_rank_def Let_def)
      ultimately show ?thesis using item(1,2) Draining by (auto simp: consumer_step_def Let_def bench_callback_def)
    qed
  next
    case NothingDrained
    let ?ret = "set_consumer i (?c\<lparr>cs_pc := Returned\<rparr>) (b\<lparr>fb_stop_requested := True\<rparr>)"
    let ?go = "set_consumer i (?c\<lparr>cs_pc := AtLoop\<rparr>) b"
    have "bench_rel config subs seen k (b\<lparr>fb_stop_requested := True\<rparr>)" using rel by (simp add: bench_rel_def Let_def)
    from this i have "bench_rel config subs seen k ?ret" by (rule bench_rel_pc) simp
    moreover have "bench_rel config subs seen k ?go" by (rule bench_rel_pc [OF rel i]) simp
    moreover have "consumer_stepped i b ?ret" "consumer_stepped i b ?go"
      using NothingDrained len by (simp_all add: consumer_stepped_def consumer_rank_def Let_def)
    ultimately show ?thesis using NothingDrained by (auto simp: consumer_step_def Let_def)
  next
    case Returned
    with rel show ?thesis by (auto simp: consumer_step_def consumer_stepped_def consumer_rank_def)
  qed
qed

text \<open>No step of any thread, nor of the clock, adds to what the main thread or, after it, a consumer has left to do.\<close>

definition bench_inv :: "BenchmarkConfig \<Rightarrow> feed_bench \<Rightarrow> bool" where
  "bench_inv config b \<longleftrightarrow> (\<exists>subs seen k. bench_rel config subs seen k b)"

lemma bench_inv_step:
  assumes "bench_inv config b"
  shows "\<exists>b'. bench_step config b op = Some b' \<and> bench_inv config b' \<and>
     main_rank config b' \<le> main_rank config b - (if op = MainStep then 1 else 0) \<and>
     (fb_main b = Joining \<longrightarrow> fb_main b' = Joining \<and>
       (\<forall>i < unat (bc_subscribers config). consumer_rank i b' \<le> consumer_rank i b - (if op = ConsumerStep i then 1 else 0)))"
proof -
  from assms obtain subs seen k where rel: "bench_rel config subs seen k b" by (auto simp: bench_inv_def)
  show ?thesis
  proof (cases op)
    case MainStep
    from bench_main_step [OF rel] obtain b' where "main_step config b = Some b'" "bench_inv config b'"
      "main_rank config b' \<le> main_rank config b - 1" "fb_main b = Joining \<longrightarrow> b' = b" by (auto simp: bench_inv_def)
    with MainStep show ?thesis by auto
  next
    case (ConsumerStep i)
    have len: "length (fb_consumers b) = unat (bc_subscribers config)" using rel by (simp add: bench_rel_def Let_def)
    show ?thesis
    proof (cases "i < unat (bc_subscribers config)")
      case True
      from bench_consumer_step [OF rel True] obtain b' where
        b': "consumer_step config i b = Some b'" "bench_inv config b'" "consumer_stepped i b b'" by (auto simp: bench_inv_def)
      have "main_rank config b' \<le> main_rank config b" using b'(3) by (simp add: consumer_stepped_def main_rank_def)
      moreover have "fb_main b' = Joining" "consumer_rank j b' \<le> consumer_rank j b - (if op = ConsumerStep j then 1 else 0)"
        if "fb_main b = Joining" for j
        using consumer_stepped_rank [OF b'(3) that, of j] ConsumerStep by (simp_all split: if_splits)
      ultimately show ?thesis using b'(1,2) len True ConsumerStep by simp
    qed (use assms len ConsumerStep in auto)
  next
    case (Tick d)
    have "bench_rel config subs seen k (b\<lparr>fb_now := fb_now b + uint d\<rparr>)" using rel by (auto simp: bench_rel_def Let_def)
    with Tick show ?thesis by (auto simp: bench_inv_def main_rank_def consumer_rank_def)
  qed
qed

lemma bench_inv_run: "bench_inv config b \<Longrightarrow> \<exists>b'. bench_run config b ops = Some b' \<and> bench_inv config b'"
proof (induction ops arbitrary: b)
  case (Cons op ops)
  from bench_inv_step [OF Cons.prems, of op] Cons.IH show ?case by fastforce
qed simp

section \<open>Fair schedules\<close>

text \<open>A round in which the main thread and every consumer make at least one step.\<close>

definition fair_bench_round :: "nat \<Rightarrow> bench_op list \<Rightarrow> bool" where
  "fair_bench_round n ops \<longleftrightarrow> MainStep \<in> set ops \<and> (\<forall>i < n. ConsumerStep i \<in> set ops)"

lemma bench_run_append:
  "bench_run config b (ops @ ops') = Option.bind (bench_run config b ops) (\<lambda>b'. bench_run config b' ops')"
  by (induction ops arbitrary: b) (auto split: Option.bind_split)

lemma main_rank_run:
  assumes "bench_inv config b" and "bench_run config b ops = Some b'"
  shows "main_rank config b' \<le> main_rank config b - (if MainStep \<in> set ops then 1 else 0)"
  using assms
proof (induction ops arbitrary: b)
  case (Cons op ops)
  from bench_inv_step [OF Cons.prems(1), of op] obtain b1 where
    s: "bench_step config b op = Some b1" "bench_inv config b1"
      "main_rank config b1 \<le> main_rank config b - (if op = MainStep then 1 else 0)" by blast
  with Cons.IH [OF s(2)] Cons.prems(2) show ?case by (auto split: if_splits)
qed simp

lemma consumer_rank_run:
  assumes "bench_inv config b" and "fb_main b = Joining" and "bench_run config b ops = Some b'"
    and "i < unat (bc_subscribers config)"
  shows "fb_main b' = Joining \<and> consumer_rank i b' \<le> consumer_rank i b - (if ConsumerStep i \<in> set ops then 1 else 0)"
  using assms
proof (induction ops arbitrary: b)
  case (Cons op ops)
  from bench_inv_step [OF Cons.prems(1), of op] Cons.prems(2,4) obtain b1 where
    s: "bench_step config b op = Some b1" "bench_inv config b1" "fb_main b1 = Joining"
      "consumer_rank i b1 \<le> consumer_rank i b - (if op = ConsumerStep i then 1 else 0)" by blast
  with Cons.IH [OF s(2,3)] Cons.prems(3,4) show ?case by (auto split: if_splits)
qed simp

lemma main_rank_rounds:
  assumes "bench_inv config b" and "bench_run config b (concat rounds) = Some b'"
    and "list_all (fair_bench_round n) rounds"
  shows "main_rank config b' \<le> main_rank config b - length rounds"
  using assms
proof (induction rounds arbitrary: b)
  case (Cons ops rounds)
  from bench_inv_run [OF Cons.prems(1), of ops] obtain b1 where b1: "bench_run config b ops = Some b1" "bench_inv config b1" by blast
  have "main_rank config b1 \<le> main_rank config b - 1"
    using main_rank_run [OF Cons.prems(1) b1(1)] Cons.prems(3) by (simp add: fair_bench_round_def)
  with Cons.IH [OF b1(2)] Cons.prems(2,3) b1(1) show ?case by (fastforce simp: bench_run_append)
qed simp

lemma consumer_rank_rounds:
  assumes "bench_inv config b" and "fb_main b = Joining" and "bench_run config b (concat rounds) = Some b'"
    and "list_all (fair_bench_round (unat (bc_subscribers config))) rounds" and i: "i < unat (bc_subscribers config)"
  shows "fb_main b' = Joining \<and> consumer_rank i b' \<le> consumer_rank i b - length rounds"
  using assms(1-4)
proof (induction rounds arbitrary: b)
  case (Cons ops rounds)
  from bench_inv_run [OF Cons.prems(1), of ops] obtain b1 where b1: "bench_run config b ops = Some b1" "bench_inv config b1" by blast
  have "fb_main b1 = Joining" "consumer_rank i b1 \<le> consumer_rank i b - 1"
    using consumer_rank_run [OF Cons.prems(1,2) b1(1) i] Cons.prems(4) i by (simp_all add: fair_bench_round_def)
  with Cons.IH [OF b1(2)] Cons.prems(3,4) b1(1) show ?case by (fastforce simp: bench_run_append)
qed simp

lemma consumer_rank_0: "consumer_rank i b = 0 \<Longrightarrow> cs_pc (fb_consumers b ! i) = Returned"
  by (cases "cs_pc (fb_consumers b ! i)") (auto simp: consumer_rank_def Let_def split: if_splits)

lemma rank_bounds:
  assumes "bench_inv config b"
  shows "main_rank config b \<le> unat (bc_messages config) + 2"
    and "i < unat (bc_subscribers config) \<Longrightarrow> consumer_rank i b \<le> 4 * unat (bc_messages config) + 3"
proof -
  from assms obtain subs seen k where rel: "bench_rel config subs seen k b" by (auto simp: bench_inv_def)
  show "main_rank config b \<le> unat (bc_messages config) + 2" by (simp add: main_rank_def split: main_pc.split)
  assume i: "i < unat (bc_subscribers config)"
  have "length (seen i @ pending (subs ! i)) = k" unfolding bench_seen(1) [OF rel i] by simp
  moreover have "k \<le> unat (bc_messages config)" "pending (fb_subs b ! i) = pending (subs ! i)"
    using rel i bench_rel_length [OF rel] by (simp_all add: bench_rel_def Let_def)
  ultimately have "length (pending (fb_subs b ! i)) \<le> unat (bc_messages config)" by simp
  then show "consumer_rank i b \<le> 4 * unat (bc_messages config) + 3"
    by (simp add: consumer_rank_def Let_def split: consumer_pc.split)
qed

text \<open>Consumers give up only when the clock has passed ten seconds.\<close>

definition clock_ok :: "feed_bench \<Rightarrow> bool" where
  "clock_ok b \<longleftrightarrow> 0 \<le> fb_now b \<and> (\<forall>c \<in> set (fb_consumers b). 0 \<le> cs_last_progress c) \<and>
     (fb_stop_requested b \<longrightarrow> ten_seconds < fb_now b)"

lemma clock_ok_consumer:
  "clock_ok b \<Longrightarrow> 0 \<le> cs_last_progress c \<Longrightarrow> clock_ok (set_consumer i c b)"
  by (auto simp: clock_ok_def dest!: set_update_subset_insert [THEN subsetD])

lemma main_step_frame:
  "main_step config b = Some b' \<Longrightarrow>
     fb_consumers b' = fb_consumers b \<and> fb_now b' = fb_now b \<and> fb_stop_requested b' = fb_stop_requested b \<and>
     (fb_publishing_done b' \<longleftrightarrow> fb_publishing_done b \<or> fb_main b = Flushed) \<and> (fb_main b' = Joining \<longrightarrow> fb_main b \<in> {Flushed, Joining})"
  by (auto simp: main_step_def bind_eq_Some_conv split: main_pc.splits if_splits)

lemma clock_ok_step:
  assumes ok: "clock_ok b" and step: "bench_step config b op = Some b'"
  shows "clock_ok b'"
proof (cases op)
  case MainStep
  with step ok main_step_frame [of config b b'] show ?thesis by (simp add: clock_ok_def)
next
  case (ConsumerStep i)
  show ?thesis
  proof (cases "i < length (fb_consumers b)")
    case True
    let ?c = "fb_consumers b ! i"
    have c: "0 \<le> cs_last_progress ?c" "0 \<le> fb_now b" using ok True by (simp_all add: clock_ok_def)
    have same: "clock_ok (b\<lparr>fb_subs := x\<rparr>)" "clock_ok (b\<lparr>fb_subs := x, fb_stats := y\<rparr>)" for x y
      using ok by (simp_all add: clock_ok_def)
    have stop: "clock_ok (b\<lparr>fb_stop_requested := True\<rparr>)" if "ten_seconds < fb_now b - cs_last_progress ?c"
      using ok c that by (simp add: clock_ok_def)
    from step ConsumerStep True c ok same [THEN clock_ok_consumer] stop [THEN clock_ok_consumer] show ?thesis
      by (auto simp: consumer_step_def Let_def intro!: clock_ok_consumer
          split: consumer_pc.splits if_splits option.splits Option.bind_splits prod.splits)
  qed (use step ok ConsumerStep in simp)
next
  case (Tick d)
  have "0 \<le> uint d" by simp
  then have "0 \<le> fb_now b \<Longrightarrow> 0 \<le> fb_now b + uint d" "ten_seconds < fb_now b \<Longrightarrow> ten_seconds < fb_now b + uint d"
    by linarith+
  moreover have "b' = b\<lparr>fb_now := fb_now b + uint d\<rparr>" using Tick step by simp
  ultimately show ?thesis using ok by (simp add: clock_ok_def)
qed

lemma clock_ok_run: "clock_ok b \<Longrightarrow> bench_run config b ops = Some b' \<Longrightarrow> clock_ok b'"
  by (induction ops arbitrary: b) (auto split: Option.bind_splits dest: clock_ok_step)

lemma bench_subscribe_rel:
  assumes "bs \<noteq> 0" and "feed_rel never_raises (p, subs, \<lambda>_. []) (bench_spec (length subs) 0)"
  shows "\<exists>p' subs'. bench_subscribe n bs p (retarget bench_callback subs) = Inr (p', retarget bench_callback subs') \<and>
     feed_rel never_raises (p', subs', \<lambda>_. []) (bench_spec (length subs + n) 0) \<and> length subs' = length subs + n"
  using assms(2)
proof (induction n arbitrary: p subs)
  case 0
  then show ?case by auto
next
  case (Suc n)
  let ?c = "record_seen never_raises (length subs)"
  obtain r p1 subs1 where s: "MP_subscribe bench_instrument ?c bs p subs = (r, p1, subs1)" by (metis prod_cases3)
  obtain q :: "MarketDataMessage NonBlockingQueue" where "NBQ_new bs = Inr q" using assms(1) by (simp add: NBQ_new_def)
  with s have r: "\<exists>sn. r = Inr sn" "length subs1 = Suc (length subs)" by (auto simp: MP_subscribe_def MS_new_def Let_def)
  have "spec_step (bench_spec (length subs) 0) (FeedSubscribe bench_instrument bs) = bench_spec (length subs1) 0"
    using assms(1) r(2) by (simp add: bench_spec_def replicate_append_same)
  with feed_rel_subscribe [OF Suc.prems s] have "feed_rel never_raises (p1, subs1, \<lambda>_. []) (bench_spec (length subs1) 0)" by simp
  from Suc.IH [OF this] r s show ?case
    using MP_subscribe_retarget [of bench_instrument bench_callback subs bs p ?c] by auto
qed

lemma bench_start_inv:
  assumes "bc_batch_size config \<noteq> 0" and "unat (bc_messages config) \<le> defined_updates"
  shows "\<exists>b subs. feed_bench_start config = Inr b \<and> bench_rel config subs (\<lambda>_. []) 0 b \<and> clock_ok b \<and>
     fb_main b = Publishing 0 \<and> fb_now b = 0 \<and> \<not> fb_stop_requested b \<and>
     fb_consumers b = replicate (unat (bc_subscribers config)) \<lparr>cs_pc = Starting, cs_last_progress = 0\<rparr>"
proof -
  have "feed_rel never_raises (MP_new, [], \<lambda>_. []) (bench_spec (length ([] :: seen Subscribers)) 0)"
    using feed_rel_start by (simp add: feed_start_def bench_spec_def)
  from bench_subscribe_rel [OF assms(1) this, of "unat (bc_subscribers config)"] obtain p subs where
    s: "bench_subscribe (unat (bc_subscribers config)) (bc_batch_size config) MP_new [] = Inr (p, retarget bench_callback subs)"
      "feed_rel never_raises (p, subs, \<lambda>_. []) (bench_spec (unat (bc_subscribers config)) 0)" by auto
  have "bench_rel config subs (\<lambda>_. []) 0
      \<lparr>fb_publisher = p, fb_subs = retarget bench_callback subs, fb_stats = replicate (unat (bc_subscribers config)) new_stats,
       fb_main = Publishing 0, fb_consumers = replicate (unat (bc_subscribers config)) \<lparr>cs_pc = Starting, cs_last_progress = 0\<rparr>,
       fb_publishing_done = False, fb_stop_requested = False, fb_now = 0\<rparr>"
    using s(2) assms(2) by (simp add: bench_rel_def observed_simps map_replicate_const)
  with s(1) show ?thesis by (auto simp: feed_bench_start_def Let_def clock_ok_def)
qed

lemma verify_from_ok:
  "(\<And>s. s \<in> set stats \<Longrightarrow> st_received s = bc_messages config \<and> st_sequence_ok s) \<Longrightarrow> verify_from config i stats = Inr ()"
  by (induction stats arbitrary: i) auto

lemma bench_verified:
  assumes "bench_inv config b" and "bench_joined b" and "\<not> fb_stop_requested b"
  shows "verifyStats config (fb_stats b) = Inr ()"
  unfolding verifyStats_def
proof (rule verify_from_ok)
  fix s assume s: "s \<in> set (fb_stats b)"
  from assms(1) obtain subs seen k where rel: "bench_rel config subs seen k b" by (auto simp: bench_inv_def)
  then have len: "length (fb_stats b) = unat (bc_subscribers config)" "length (fb_consumers b) = unat (bc_subscribers config)"
    by (simp_all add: bench_rel_def Let_def)
  with s obtain i where i: "i < unat (bc_subscribers config)" "s = fb_stats b ! i" by (metis in_set_conv_nth)
  have "cs_pc (fb_consumers b ! i) = Returned" using assms(2) i(1) len by (simp add: bench_joined_def list_all_length)
  then have "length (seen i) = unat (bc_messages config)" using rel i(1) assms(3) by (auto simp: bench_rel_def Let_def)
  moreover have "unat (bc_messages config) \<le> defined_updates" using rel by (simp add: bench_rel_def Let_def)
  then have "unat (bc_messages config) < two64 - 1" by (simp add: defined_updates_def two64_def)
  ultimately show "st_received s = bc_messages config \<and> st_sequence_ok s"
    using bench_stats [OF rel i(1)] by (simp add: i(2) word_unat_eq_iff)
qed

section \<open>Properties\<close>

text \<open>
  C39: The feed benchmark ends and its check succeeds. For any number of subscribers, any positive batch
  size and any number of messages up to \<open>2 ^ 63 - 1700000000000000000\<close> (beyond it the time of an update
  overflows), under any interleaving of the calls of the publishing thread, the tests and pops of the
  consumers and the clock in which every thread keeps making steps, all threads return after a number
  of rounds that is linear in the number of messages; then every subscriber has received every message
  in sequence, unless a consumer gave up, which needs more than ten seconds. (The calls on the queues are
  steps as a whole; \<open>QueueAccesses\<close> shows that finer interleavings deliver the same, and where a
  notification may come too late.)
\<close>

theorem feed_benchmark_verifies:
  assumes "bc_batch_size config \<noteq> 0" and "unat (bc_messages config) \<le> defined_updates"
    and "list_all (fair_bench_round (unat (bc_subscribers config))) rounds"
    and "5 * unat (bc_messages config) + 5 \<le> length rounds"
  shows "\<exists>b0 b. feed_bench_start config = Inr b0 \<and> bench_run config b0 (concat rounds) = Some b \<and> bench_joined b \<and>
     (fb_stop_requested b \<and> ten_seconds < fb_now b \<or> verifyStats config (fb_stats b) = Inr ())"
proof -
  let ?m = "unat (bc_messages config)" and ?n = "unat (bc_subscribers config)"
  define rs1 rs2 where "rs1 = take (?m + 2) rounds" and "rs2 = drop (?m + 2) rounds"
  have rs: "concat rounds = concat rs1 @ concat rs2" by (simp add: rs1_def rs2_def flip: concat_append)
  have fair: "list_all (fair_bench_round ?n) rs1" "list_all (fair_bench_round ?n) rs2"
    using assms(3) by (auto simp: rs1_def rs2_def list_all_iff dest: in_set_takeD in_set_dropD)
  have len: "length rs1 = ?m + 2" "4 * ?m + 3 \<le> length rs2" using assms(4) by (simp_all add: rs1_def rs2_def)
  obtain b0 where b0: "feed_bench_start config = Inr b0" "bench_inv config b0" "clock_ok b0"
    using bench_start_inv [OF assms(1,2)] by (auto simp: bench_inv_def)
  obtain b1 where b1: "bench_run config b0 (concat rs1) = Some b1" "bench_inv config b1" using bench_inv_run [OF b0(2)] by blast
  obtain b where b: "bench_run config b1 (concat rs2) = Some b" "bench_inv config b" using bench_inv_run [OF b1(2)] by blast
  have run: "bench_run config b0 (concat rounds) = Some b" using b1(1) b(1) by (simp add: rs bench_run_append)
  have "main_rank config b1 = 0"
    using main_rank_rounds [OF b0(2) b1(1) fair(1)] rank_bounds(1) [OF b0(2)] len(1) by simp
  then have join: "fb_main b1 = Joining" by (simp add: main_rank_def split: main_pc.splits)
  have "main_rank config b = 0" using main_rank_run [OF b1(2) b(1)] \<open>main_rank config b1 = 0\<close> by simp
  then have join': "fb_main b = Joining" by (simp add: main_rank_def split: main_pc.splits)
  have "consumer_rank i b = 0" if "i < ?n" for i
    using consumer_rank_rounds [OF b1(2) join b(1) fair(2) that] rank_bounds(2) [OF b1(2) that] len(2) by simp
  then have "cs_pc (fb_consumers b ! i) = Returned" if "i < ?n" for i
    using that consumer_rank_0 by blast
  moreover have "length (fb_consumers b) = ?n" using b(2) by (auto simp: bench_inv_def bench_rel_def Let_def)
  ultimately have joined: "bench_joined b" using join' by (simp add: bench_joined_def list_all_length)
  have "fb_stop_requested b \<longrightarrow> ten_seconds < fb_now b" using clock_ok_run [OF b0(3) run] by (simp add: clock_ok_def)
  with bench_verified [OF b(2) joined] b0(1) run joined show ?thesis by blast
qed

definition demo_bench_config :: BenchmarkConfig where
  "demo_bench_config = \<lparr>bc_subscribers = 2, bc_messages = 3, bc_batch_size = 2\<rparr>"

theorem feed_benchmark_verifies_witness:
  "\<exists>b0 b. feed_bench_start demo_bench_config = Inr b0 \<and>
     bench_run demo_bench_config b0 (concat (replicate 20 [ConsumerStep 1, Tick 1000, MainStep, ConsumerStep 0])) = Some b \<and>
     bench_joined b \<and> (fb_stop_requested b \<and> ten_seconds < fb_now b \<or> verifyStats demo_bench_config (fb_stats b) = Inr ())"
proof -
  have "bc_batch_size demo_bench_config \<noteq> 0" "unat (bc_messages demo_bench_config) \<le> defined_updates"
    "5 * unat (bc_messages demo_bench_config) + 5 \<le> length (replicate 20 [ConsumerStep 1, Tick 1000, MainStep, ConsumerStep 0])"
    by (simp_all add: demo_bench_config_def defined_updates_def)
  moreover have two: "unat (bc_subscribers demo_bench_config) = 2" by (simp add: demo_bench_config_def)
  have "list_all (fair_bench_round (unat (bc_subscribers demo_bench_config)))
      (replicate 20 [ConsumerStep 1, Tick 1000, MainStep, ConsumerStep 0])"
    unfolding two by (auto simp: list_all_iff fair_bench_round_def less_2_cases_iff)
  ultimately show ?thesis by (intro feed_benchmark_verifies)
qed

section \<open>A consumer that gives up\<close>




section \<open>Giving up\<close>




end
