(* ===== verification/QueueAccesses.thy ===== *)
theory QueueAccesses
  imports NonBlockingQueue
begin

text \<open>
  \<^verbatim>\<open>src/concurrency/NonBlockingQueue.hpp\<close> at the grain of its accesses to shared nodes. The
  producer's \<^verbatim>\<open>flush\<close> touches the node at \<^verbatim>\<open>tail_\<close> twice, by the release store into its \<^verbatim>\<open>next\<close> and
  then by \<^verbatim>\<open>notify_one\<close>; the consumer's acquisition of a batch loads \<^verbatim>\<open>head_->next\<close>, swaps the items
  out of that node and deletes the old head. Between any two of these the other thread may run.
  Each step below is one such access with the private work of its thread around it (the batches,
  the index and \<^verbatim>\<open>tail_\<close> belong to one thread each; the two counters are only read by \<^verbatim>\<open>size()\<close>).
  The release store and the acquire load are the only synchronisation, and they order everything
  the consumer reads of a node after what the producer wrote into it.

  The theory shows that every interleaving of the accesses gives the results of an order of whole
  operations, so the other components may run whole operations, with one exception, which it
  exhibits: \<^verbatim>\<open>notify_one\<close> may name a node that the consumer has deleted since the store.
\<close>

section \<open>The two threads\<close>

datatype 'a queue_call = CallPush 'a | CallFlush

fun call_items :: "'a queue_call list \<Rightarrow> 'a list" where
  "call_items [] = []"
| "call_items (CallPush v # cs) = v # call_items cs"
| "call_items (CallFlush # cs) = call_items cs"

text \<open>\<open>Stored raw_node\<close>: between the release store and \<^verbatim>\<open>notify_one\<close>.\<close>

datatype queue_producer_pc = ProducerReady | Stored addr

text \<open>
  \<open>Loaded next\<close>: after a load that was not null; \<open>Swapped next\<close>: after the swap, before the
  \<^verbatim>\<open>delete\<close>.
\<close>

datatype queue_consumer_pc = ConsumerReady | Loaded addr | Swapped addr

datatype queue_thread = Producer | Consumer

record 'a queue_exec =
  qx_queue :: "'a NonBlockingQueue"
  qx_calls :: "'a queue_call list"
  qx_producer :: queue_producer_pc
  qx_consumer :: queue_consumer_pc
  qx_out :: "'a list"
  qx_dangling :: nat

definition qx_start :: "'a NonBlockingQueue \<Rightarrow> 'a queue_call list \<Rightarrow> 'a queue_exec" where
  "qx_start q calls = \<lparr>qx_queue = q, qx_calls = calls, qx_producer = ProducerReady,
     qx_consumer = ConsumerReady, qx_out = [], qx_dangling = 0\<rparr>"

definition NBQ_loadNext :: "'a NonBlockingQueue \<Rightarrow> (addr option \<times> 'a NonBlockingQueue) option" where
  "NBQ_loadNext q =
     (case map_of (nq_heap q) (nq_head q) of
        None \<Rightarrow> None
      | Some head_node \<Rightarrow> Some (bn_next head_node, q\<lparr>nq_consumer_batch := [], nq_consumer_index := 0\<rparr>))"

definition NBQ_swapItems :: "addr \<Rightarrow> 'a NonBlockingQueue \<Rightarrow> 'a NonBlockingQueue option" where
  "NBQ_swapItems nxt q =
     (case map_of (nq_heap q) nxt of
        None \<Rightarrow> None
      | Some node \<Rightarrow>
          Some (q\<lparr>nq_consumer_batch := bn_items node,
                  nq_heap := AList.update nxt (node\<lparr>bn_items := nq_consumer_batch q\<rparr>) (nq_heap q)\<rparr>))"

definition NBQ_freeHead :: "addr \<Rightarrow> 'a NonBlockingQueue \<Rightarrow> 'a NonBlockingQueue option" where
  "NBQ_freeHead nxt q =
     (if map_of (nq_heap q) (nq_head q) = None then None
      else Some (q\<lparr>nq_heap := AList.delete (nq_head q) (nq_heap q), nq_head := nxt\<rparr>))"

text \<open>The acquisition of a batch is these three accesses.\<close>

lemma NBQ_tryAcquire_accesses:
  assumes "nq_head q \<noteq> the (Option.bind (map_of (nq_heap q) (nq_head q)) bn_next)"
  shows "NBQ_tryAcquireConsumerBatch q =
     Option.bind (NBQ_loadNext q) (\<lambda>(nxt, q1).
       case nxt of
         None \<Rightarrow> Some (False, q1)
       | Some c \<Rightarrow> map_option (Pair True) (Option.bind (NBQ_swapItems c q1) (NBQ_freeHead c)))"
  using assms
  by (auto simp: NBQ_tryAcquireConsumerBatch_def NBQ_loadNext_def NBQ_swapItems_def NBQ_freeHead_def
      Let_def simp del: map_of_eq_Some_iff split: option.splits)

definition publish_call :: "'a NonBlockingQueue \<Rightarrow> 'a queue_call list \<Rightarrow> 'a queue_exec \<Rightarrow> 'a queue_exec option" where
  "publish_call q cs x =
     map_option (\<lambda>(raw_node, q1). x\<lparr>qx_queue := q1, qx_calls := cs, qx_producer := Stored raw_node\<rparr>)
       (NBQ_storeNode q)"

text \<open>
  A notification on a node that is gone is counted and the run goes on, so that its effect on
  the data can be told from its being there.
\<close>

definition producer_access :: "'a queue_exec \<Rightarrow> 'a queue_exec option" where
  "producer_access x =
     (case qx_producer x of
        Stored raw_node \<Rightarrow>
          Some (x\<lparr>qx_queue := NBQ_moveTail raw_node (qx_queue x), qx_producer := ProducerReady,
                  qx_dangling := qx_dangling x + (if NBQ_notifyTail (qx_queue x) = None then 1 else 0)\<rparr>)
      | ProducerReady \<Rightarrow>
          (case qx_calls x of
             [] \<Rightarrow> Some x
           | CallPush v # cs \<Rightarrow>
               (let q1 = NBQ_append v (qx_queue x)
                in if NBQ_full q1 then publish_call q1 cs x else Some (x\<lparr>qx_queue := q1, qx_calls := cs\<rparr>))
           | CallFlush # cs \<Rightarrow>
               (if nq_producer_batch (qx_queue x) = [] then Some (x\<lparr>qx_calls := cs\<rparr>)
                else publish_call (qx_queue x) cs x)))"

definition consumer_access :: "'a queue_exec \<Rightarrow> 'a queue_exec option" where
  "consumer_access x =
     (case qx_consumer x of
        Swapped c \<Rightarrow>
          map_option (\<lambda>q. x\<lparr>qx_queue := q, qx_consumer := ConsumerReady\<rparr>) (NBQ_freeHead c (qx_queue x))
      | Loaded c \<Rightarrow>
          map_option (\<lambda>q. x\<lparr>qx_queue := q, qx_consumer := Swapped c\<rparr>) (NBQ_swapItems c (qx_queue x))
      | ConsumerReady \<Rightarrow>
          (if nq_consumer_index (qx_queue x) \<ge> length (nq_consumer_batch (qx_queue x))
           then map_option (\<lambda>(nxt, q).
                  case nxt of
                    None \<Rightarrow> x\<lparr>qx_queue := q\<rparr>
                  | Some c \<Rightarrow> x\<lparr>qx_queue := q, qx_consumer := Loaded c\<rparr>) (NBQ_loadNext (qx_queue x))
           else map_option (\<lambda>(r, q).
                  x\<lparr>qx_queue := q, qx_out := qx_out x @ (case r of None \<Rightarrow> [] | Some v \<Rightarrow> [v])\<rparr>)
                  (NBQ_deliver (qx_queue x))))"

fun qx_run :: "'a queue_exec \<Rightarrow> queue_thread list \<Rightarrow> 'a queue_exec option" where
  "qx_run x [] = Some x"
| "qx_run x (Producer # sched) = Option.bind (producer_access x) (\<lambda>x'. qx_run x' sched)"
| "qx_run x (Consumer # sched) = Option.bind (consumer_access x) (\<lambda>x'. qx_run x' sched)"

section \<open>The invariant of the accesses\<close>

abbreviation next_of :: "(addr, 'a BatchNode) umap \<Rightarrow> addr \<Rightarrow> addr option" where
  "next_of h a \<equiv> Option.bind (map_of h a) bn_next"

text \<open>Where the chain the consumer still has to read begins, and where it ends.\<close>

definition qx_first :: "'a queue_exec \<Rightarrow> addr" where
  "qx_first x = (case qx_consumer x of Swapped c \<Rightarrow> c | _ \<Rightarrow> nq_head (qx_queue x))"

definition qx_last :: "'a queue_exec \<Rightarrow> addr" where
  "qx_last x = (case qx_producer x of Stored raw_node \<Rightarrow> raw_node | ProducerReady \<Rightarrow> nq_tail (qx_queue x))"

definition qx_visible :: "'a queue_exec \<Rightarrow> 'a list" where
  "qx_visible x = drop (nq_consumer_index (qx_queue x)) (nq_consumer_batch (qx_queue x)) @
     concat (walk (nq_fresh (qx_queue x)) (nq_heap (qx_queue x)) (qx_first x))"

definition qx_contents :: "'a queue_exec \<Rightarrow> 'a list" where
  "qx_contents x = qx_visible x @ nq_producer_batch (qx_queue x)"

text \<open>
  Between its load and its \<^verbatim>\<open>delete\<close> the consumer knows the successor of the head. Between the store
  and the notification the producer's \<^verbatim>\<open>tail_\<close> still leads to the new node, unless the consumer has
  made that node its head.
\<close>

definition qx_rep :: "'a queue_exec \<Rightarrow> 'a list list \<Rightarrow> bool" where
  "qx_rep x ns \<longleftrightarrow>
     (let q = qx_queue x; h = nq_heap q in
      chain h (qx_first x) ns (qx_last x) \<and> qx_last x < nq_fresh q \<and>
      nq_consumer_index q \<le> length (nq_consumer_batch q) \<and>
      (case qx_consumer x of
         ConsumerReady \<Rightarrow> True
       | Loaded c \<Rightarrow> nq_consumer_batch q = [] \<and> next_of h (nq_head q) = Some c
       | Swapped c \<Rightarrow> nq_consumer_index q = 0 \<and> nq_head q < c \<and> next_of h (nq_head q) = Some c) \<and>
      (case qx_producer x of
         ProducerReady \<Rightarrow> True
       | Stored raw_node \<Rightarrow> nq_head q = raw_node \<or> next_of h (nq_tail q) = Some raw_node))"

lemma qx_rep_visible:
  assumes "qx_rep x ns"
  shows "qx_visible x = drop (nq_consumer_index (qx_queue x)) (nq_consumer_batch (qx_queue x)) @ concat ns"
proof -
  have "chain (nq_heap (qx_queue x)) (qx_first x) ns (qx_last x)" "qx_last x < nq_fresh (qx_queue x)"
    using assms by (simp_all add: qx_rep_def Let_def)
  then have "walk (nq_fresh (qx_queue x)) (nq_heap (qx_queue x)) (qx_first x) = ns"
    using chain_length walk_chain by fastforce
  then show ?thesis by (simp add: qx_visible_def)
qed

lemma chain_next: "chain h a ns z \<Longrightarrow> next_of h a = Some c \<Longrightarrow>
  \<exists>b ms nd. ns = b # ms \<and> a < c \<and> map_of h c = Some nd \<and> bn_items nd = b \<and> b \<noteq> [] \<and> chain h c ms z"
  by (cases ns) (auto simp del: map_of_eq_Some_iff simp: bind_eq_Some_conv)

lemma chain_no_next: "chain h a ns z \<Longrightarrow> next_of h a = None \<Longrightarrow> ns = [] \<and> (\<exists>nd. map_of h a = Some nd)"
  by (cases ns) (auto simp del: map_of_eq_Some_iff)

text \<open>A push that does not fill the batch, and the return from a flush, leave the shared nodes alone.\<close>

lemma append_rep: "qx_rep x ns \<Longrightarrow> qx_rep (x\<lparr>qx_queue := NBQ_append v (qx_queue x)\<rparr>) ns"
  by (auto simp: qx_rep_def NBQ_append_def qx_first_def qx_last_def Let_def simp del: chain.simps
      split: queue_producer_pc.splits queue_consumer_pc.splits)

lemma calls_rep: "qx_rep (x\<lparr>qx_calls := cs\<rparr>) ns \<longleftrightarrow> qx_rep x ns"
  by (auto simp: qx_rep_def qx_first_def qx_last_def Let_def simp del: chain.simps
      split: queue_producer_pc.splits queue_consumer_pc.splits)

lemma notify_rep:
  "qx_rep x ns \<Longrightarrow> qx_producer x = Stored raw \<Longrightarrow>
   qx_rep (x\<lparr>qx_queue := NBQ_moveTail raw (qx_queue x), qx_producer := ProducerReady, qx_dangling := n\<rparr>) ns"
  by (auto simp: qx_rep_def NBQ_moveTail_def qx_first_def qx_last_def Let_def simp del: chain.simps
      split: queue_consumer_pc.splits)

lemma publish_rep:
  assumes rep: "qx_rep x ns" and pc: "qx_producer x = ProducerReady"
    and batch: "nq_producer_batch (qx_queue x) \<noteq> []"
  shows "\<exists>x'. publish_call (qx_queue x) cs x = Some x' \<and>
    qx_rep x' (ns @ [nq_producer_batch (qx_queue x)]) \<and> qx_visible x' = qx_contents x \<and>
    qx_calls x' = cs \<and> qx_out x' = qx_out x \<and>
    nq_producer_batch (qx_queue x') = [] \<and> nq_batch_size (qx_queue x') = nq_batch_size (qx_queue x)"
proof -
  let ?q = "qx_queue x"
  let ?t = "nq_tail ?q" and ?f = "nq_fresh ?q" and ?b = "nq_producer_batch ?q"
  have last: "qx_last x = ?t" using pc by (simp add: qx_last_def)
  have ch: "chain (nq_heap ?q) (qx_first x) ns ?t" and lt: "?t < ?f"
    using rep by (simp_all add: qx_rep_def Let_def last)
  obtain nd where nd: "map_of (nq_heap ?q) ?t = Some nd" "bn_next nd = None" using chain_tail [OF ch] by blast
  define h where "h = AList.update ?t (nd\<lparr>bn_next := Some ?f\<rparr>)
    (AList.update ?f \<lparr>bn_items = ?b, bn_next = None\<rparr> (nq_heap ?q))"
  define x' where "x' = x\<lparr>qx_queue := ?q\<lparr>nq_heap := h, nq_fresh := ?f + 1, nq_producer_batch := []\<rparr>,
    qx_calls := cs, qx_producer := Stored ?f\<rparr>"
  have run: "publish_call ?q cs x = Some x'"
    using nd(1) lt by (simp add: publish_call_def NBQ_storeNode_def x'_def h_def Let_def del: map_of_eq_Some_iff)
  have head: "next_of h a = next_of (nq_heap ?q) a" if "next_of (nq_heap ?q) a = Some c" "a < ?f" for a c
    using that nd lt by (auto simp: h_def simp del: map_of_eq_Some_iff)
  have "next_of h ?t = Some ?f" by (simp add: h_def)
  moreover have "chain h (qx_first x) (ns @ [?b]) ?f"
    unfolding h_def by (rule chain_append [OF ch lt batch nd(1)])
  moreover have "qx_first x \<le> ?t" using chain_length [OF ch] by simp
  ultimately have rep': "qx_rep x' (ns @ [?b])"
    using rep head lt
    by (auto simp: qx_rep_def x'_def qx_first_def qx_last_def Let_def split: queue_consumer_pc.splits)
  have "qx_visible x' = qx_contents x"
    using qx_rep_visible [OF rep'] qx_rep_visible [OF rep] by (simp add: qx_contents_def x'_def)
  with run rep' show ?thesis by (auto simp: x'_def)
qed

text \<open>The four accesses of the consumer.\<close>

lemma load_rep:
  assumes rep: "qx_rep x ns" and pc: "qx_consumer x = ConsumerReady"
    and used: "nq_consumer_index (qx_queue x) \<ge> length (nq_consumer_batch (qx_queue x))"
  shows "\<exists>x'. consumer_access x = Some x' \<and> qx_rep x' ns \<and> qx_out x' = qx_out x \<and>
    (qx_consumer x' = ConsumerReady \<longrightarrow> qx_visible x = [])"
proof -
  let ?q = "qx_queue x"
  define q1 where "q1 = ?q\<lparr>nq_consumer_batch := [], nq_consumer_index := 0\<rparr>"
  have first: "qx_first x = nq_head ?q" using pc by (simp add: qx_first_def)
  have ch: "chain (nq_heap ?q) (nq_head ?q) ns (qx_last x)"
    using rep by (simp add: qx_rep_def Let_def first)
  show ?thesis
  proof (cases "next_of (nq_heap ?q) (nq_head ?q)")
    case None
    from chain_no_next [OF ch None] obtain nd where nd: "ns = []" "map_of (nq_heap ?q) (nq_head ?q) = Some nd"
      by blast
    with None pc used have "consumer_access x = Some (x\<lparr>qx_queue := q1\<rparr>)"
      by (simp add: consumer_access_def NBQ_loadNext_def q1_def del: map_of_eq_Some_iff)
    moreover have "qx_rep (x\<lparr>qx_queue := q1\<rparr>) ns"
      using rep pc by (auto simp: qx_rep_def q1_def qx_first_def qx_last_def Let_def simp del: chain.simps
          split: queue_producer_pc.splits)
    moreover have "qx_visible x = []" using qx_rep_visible [OF rep] nd used by simp
    ultimately show ?thesis by auto
  next
    case (Some c)
    then obtain nd where nd: "map_of (nq_heap ?q) (nq_head ?q) = Some nd" "bn_next nd = Some c"
      by (auto simp: bind_eq_Some_conv)
    with pc used have "consumer_access x = Some (x\<lparr>qx_queue := q1, qx_consumer := Loaded c\<rparr>)"
      by (simp add: consumer_access_def NBQ_loadNext_def q1_def del: map_of_eq_Some_iff)
    moreover have "qx_rep (x\<lparr>qx_queue := q1, qx_consumer := Loaded c\<rparr>) ns"
      using rep pc Some by (auto simp: qx_rep_def q1_def qx_first_def qx_last_def Let_def simp del: chain.simps
          split: queue_producer_pc.splits)
    ultimately show ?thesis by auto
  qed
qed

lemma swap_rep:
  assumes rep: "qx_rep x ns" and pc: "qx_consumer x = Loaded c"
  shows "\<exists>x' ms. consumer_access x = Some x' \<and> qx_rep x' ms \<and> qx_out x' = qx_out x \<and>
    qx_visible x' = qx_visible x \<and> qx_consumer x' = Swapped c"
proof -
  let ?q = "qx_queue x"
  let ?a = "nq_head ?q"
  have first: "qx_first x = ?a" using pc by (simp add: qx_first_def)
  have ch: "chain (nq_heap ?q) ?a ns (qx_last x)" and nxt: "next_of (nq_heap ?q) ?a = Some c"
    and empty: "nq_consumer_batch ?q = []" "nq_consumer_index ?q = 0"
    using rep pc by (auto simp: qx_rep_def Let_def first)
  from chain_next [OF ch nxt] obtain b ms nd where c: "ns = b # ms" "?a < c" "map_of (nq_heap ?q) c = Some nd"
    "bn_items nd = b" "chain (nq_heap ?q) c ms (qx_last x)" by blast
  define h where "h = AList.update c (nd\<lparr>bn_items := []\<rparr>) (nq_heap ?q)"
  define x' where "x' = x\<lparr>qx_queue := ?q\<lparr>nq_consumer_batch := b, nq_heap := h\<rparr>, qx_consumer := Swapped c\<rparr>"
  have run: "consumer_access x = Some x'"
    using pc c empty by (simp add: consumer_access_def NBQ_swapItems_def x'_def h_def del: map_of_eq_Some_iff)
  have nx: "next_of h a = next_of (nq_heap ?q) a" for a
    using c(3) by (simp add: h_def del: map_of_eq_Some_iff)
  have "chain (AList.delete ?a h) c ms (qx_last x)"
    unfolding h_def by (rule chain_swap [OF c(5) c(3) c(2)])
  then have "chain h c ms (qx_last x)"
    by (rule chain_frame) (use c(2) in auto)
  then have rep': "qx_rep x' ms"
    using rep pc c(2) nxt nx empty
    by (auto simp: qx_rep_def x'_def qx_first_def qx_last_def Let_def simp del: chain.simps split: queue_producer_pc.splits)
  have "qx_visible x' = qx_visible x"
    using qx_rep_visible [OF rep'] qx_rep_visible [OF rep] c(1) empty by (simp add: x'_def)
  with run rep' show ?thesis by (auto simp: x'_def)
qed

lemma free_rep:
  assumes rep: "qx_rep x ns" and pc: "qx_consumer x = Swapped c"
  shows "\<exists>x'. consumer_access x = Some x' \<and> qx_rep x' ns \<and> qx_out x' = qx_out x \<and> qx_visible x' = qx_visible x \<and>
    nq_head (qx_queue x') = c"
proof -
  let ?q = "qx_queue x"
  let ?a = "nq_head ?q"
  define h where "h = AList.delete ?a (nq_heap ?q)"
  define x' where "x' = x\<lparr>qx_queue := ?q\<lparr>nq_heap := h, nq_head := c\<rparr>, qx_consumer := ConsumerReady\<rparr>"
  have ch: "chain (nq_heap ?q) c ns (qx_last x)" and a: "next_of (nq_heap ?q) ?a = Some c" "?a < c"
    using rep pc by (auto simp: qx_rep_def Let_def qx_first_def)
  have run: "consumer_access x = Some x'"
    using pc a by (auto simp: consumer_access_def NBQ_freeHead_def x'_def h_def bind_eq_Some_conv simp del: map_of_eq_Some_iff)
  have "chain h c ns (qx_last x)"
    unfolding h_def by (rule chain_frame [OF ch]) (use a(2) in auto)
  moreover have "c = raw \<or> next_of h t = Some raw" if "next_of (nq_heap ?q) t = Some raw" for t raw
    using that a(1) by (cases "t = ?a") (simp_all add: h_def del: map_of_eq_Some_iff)
  moreover have "c \<noteq> ?a \<and> ?a \<noteq> qx_last x" using chain_length [OF ch] a(2) by simp
  ultimately have rep': "qx_rep x' ns"
    using rep pc
    by (auto simp: qx_rep_def x'_def qx_first_def qx_last_def Let_def simp del: chain.simps split: queue_producer_pc.splits)
  have "qx_visible x' = qx_visible x"
    using qx_rep_visible [OF rep'] qx_rep_visible [OF rep] by (simp add: x'_def)
  with run rep' show ?thesis by (auto simp: x'_def)
qed

lemma deliver_rep:
  assumes rep: "qx_rep x ns" and pc: "qx_consumer x = ConsumerReady"
    and idx: "nq_consumer_index (qx_queue x) < length (nq_consumer_batch (qx_queue x))"
  shows "\<exists>x' v. consumer_access x = Some x' \<and> qx_rep x' ns \<and> qx_out x' = qx_out x @ [v] \<and>
    qx_visible x = v # qx_visible x'"
proof -
  let ?q = "qx_queue x"
  let ?i = "nq_consumer_index ?q" and ?cb = "nq_consumer_batch ?q"
  define x' where "x' = x\<lparr>qx_queue := ?q\<lparr>nq_dequeued_count := nq_dequeued_count ?q + 1, nq_consumer_index := ?i + 1\<rparr>,
    qx_out := qx_out x @ [?cb ! ?i]\<rparr>"
  have run: "consumer_access x = Some x'"
    using pc idx by (simp add: consumer_access_def NBQ_deliver_def x'_def)
  have rep': "qx_rep x' ns"
    using rep pc idx
    by (auto simp: qx_rep_def x'_def qx_first_def qx_last_def Let_def simp del: chain.simps split: queue_producer_pc.splits)
  have "qx_visible x = ?cb ! ?i # qx_visible x'"
    using qx_rep_visible [OF rep'] qx_rep_visible [OF rep] Cons_nth_drop_Suc [OF idx, symmetric]
    by (simp add: x'_def)
  with run rep' show ?thesis by (auto simp: x'_def)
qed

section \<open>Whole operations\<close>

text \<open>What the operations do to the producer's own batch, which decides the next flush.\<close>

lemma NBQ_flush_batch:
  "NBQ_flush q = Some q' \<Longrightarrow> nq_producer_batch q' = [] \<and> nq_batch_size q' = nq_batch_size q"
  by (auto simp: NBQ_flush_def NBQ_storeNode_def NBQ_notifyTail_def NBQ_moveTail_def Let_def
      bind_eq_Some_conv simp del: map_of_eq_Some_iff split: if_splits option.splits)

lemma NBQ_tryPop_batch:
  "NBQ_tryPop q = Some (r, q') \<Longrightarrow>
   nq_producer_batch q' = nq_producer_batch q \<and> nq_batch_size q' = nq_batch_size q"
  by (auto simp: NBQ_tryPop_def NBQ_tryAcquireConsumerBatch_def NBQ_deliver_def Let_def
      simp del: map_of_eq_Some_iff split: if_splits option.splits bool.splits)

lemma NBQ_push_batch:
  assumes inv: "NBQ_inv q" and "NBQ_push v q = Some q'"
  shows "nq_batch_size q' = nq_batch_size q \<and>
    (if NBQ_full (NBQ_append v q) then nq_producer_batch q' = [] \<and> NBQ_published q' = NBQ_contents q @ [v]
     else nq_producer_batch q' = nq_producer_batch q @ [v] \<and> NBQ_published q' = NBQ_published q)"
proof -
  from nbq.push_law [OF inv, of v] assms(2) have c: "NBQ_contents q' = NBQ_contents q @ [v]" by simp
  show ?thesis
  proof (cases "NBQ_full (NBQ_append v q)")
    case True
    with assms(2) have "NBQ_flush (NBQ_append v q) = Some q'" by (simp add: NBQ_push_def Let_def)
    from NBQ_flush_batch [OF this] True c show ?thesis by (simp add: NBQ_contents_def NBQ_append_def)
  next
    case False
    with assms(2) have "q' = NBQ_append v q" by (simp add: NBQ_push_def Let_def)
    with False show ?thesis by (simp add: NBQ_append_def NBQ_published_def NBQ_nodes_def)
  qed
qed

lemma queue_run_append:
  "queue_run psh flsh tk q (ops @ ops') =
     Option.bind (queue_run psh flsh tk q ops) (\<lambda>(out, q1).
       Option.bind (queue_run psh flsh tk q1 ops') (\<lambda>(out', q2). Some (out @ out', q2)))"
proof (induction ops arbitrary: q)
  case Nil
  show ?case by (simp split: Option.bind_split)
next
  case (Cons op ops)
  show ?case by (cases op) (auto simp: Cons.IH split: Option.bind_split option.split)
qed

fun calls_of :: "'a queue_op list \<Rightarrow> 'a queue_call list" where
  "calls_of [] = []"
| "calls_of (Push v # ops) = CallPush v # calls_of ops"
| "calls_of (Flush # ops) = CallFlush # calls_of ops"
| "calls_of (Take # ops) = calls_of ops"

lemma calls_of_append [simp]: "calls_of (ops @ ops') = calls_of ops @ calls_of ops'"
  by (induction ops rule: calls_of.induct) simp_all

lemma call_items_append [simp]: "call_items (cs @ cs') = call_items cs @ call_items cs'"
  by (induction cs rule: call_items.induct) simp_all

lemma call_items_calls_of [simp]: "call_items (calls_of ops) = pushed ops"
  by (induction ops rule: calls_of.induct) simp_all

text \<open>
  \<open>qx_sim q0 calls x\<close>: the whole operations \<open>ops\<close>, in this order, return what the consumer has got so
  far, and leave a queue that shows the consumer what the queue of \<open>x\<close> shows it. A flush takes
  effect at its store and a pop when its element is delivered; a load that finds nothing changes
  nothing.
\<close>

definition qx_sim :: "'a NonBlockingQueue \<Rightarrow> 'a queue_call list \<Rightarrow> 'a queue_exec \<Rightarrow> bool" where
  "qx_sim q0 calls x \<longleftrightarrow>
     (\<exists>ops q ns. queue_run NBQ_push NBQ_flush NBQ_pop q0 ops = Some (qx_out x, q) \<and> NBQ_inv q \<and>
        calls_of ops @ qx_calls x = calls \<and> qx_rep x ns \<and> NBQ_published q = qx_visible x \<and>
        nq_producer_batch q = nq_producer_batch (qx_queue x) \<and> nq_batch_size q = nq_batch_size (qx_queue x))"

lemma qx_simI:
  assumes "queue_run NBQ_push NBQ_flush NBQ_pop q0 ops = Some (qx_out x, q)"
    and "queue_run NBQ_push NBQ_flush NBQ_pop q ops' = Some (out, q')" "NBQ_inv q'"
    and "qx_out x' = qx_out x @ out" "calls_of ops @ calls_of ops' @ qx_calls x' = calls" "qx_rep x' ns"
    "NBQ_published q' = qx_visible x'" "nq_producer_batch q' = nq_producer_batch (qx_queue x')"
    "nq_batch_size q' = nq_batch_size (qx_queue x')"
  shows "qx_sim q0 calls x'"
  unfolding qx_sim_def using assms
  by (intro exI [of _ "ops @ ops'"] exI [of _ q'] exI [of _ ns]) (simp add: queue_run_append)

lemma visible_producer [simp]:
  "qx_visible (x\<lparr>qx_calls := cs\<rparr>) = qx_visible x"
  "qx_visible (x\<lparr>qx_queue := NBQ_append v (qx_queue x)\<rparr>) = qx_visible x"
  "qx_visible (x\<lparr>qx_queue := NBQ_moveTail raw (qx_queue x), qx_producer := pc, qx_dangling := n\<rparr>) = qx_visible x"
  by (simp_all add: qx_visible_def qx_first_def NBQ_append_def NBQ_moveTail_def split: queue_consumer_pc.splits)

lemma moveTail_batch [simp]:
  "nq_producer_batch (NBQ_moveTail raw q) = nq_producer_batch q"
  "nq_batch_size (NBQ_moveTail raw q) = nq_batch_size q"
  by (simp_all add: NBQ_moveTail_def)

lemma publish_call_queue: "publish_call q cs (x\<lparr>qx_queue := q'\<rparr>) = publish_call q cs x"
  by (simp add: publish_call_def map_option_case case_prod_unfold)

lemma producer_sim:
  assumes "qx_sim q0 calls x"
  shows "\<exists>x'. producer_access x = Some x' \<and> qx_sim q0 calls x'"
proof -
  from assms obtain ops q ns where s: "queue_run NBQ_push NBQ_flush NBQ_pop q0 ops = Some (qx_out x, q)"
    "NBQ_inv q" "calls_of ops @ qx_calls x = calls" "qx_rep x ns" "NBQ_published q = qx_visible x"
    "nq_producer_batch q = nq_producer_batch (qx_queue x)" "nq_batch_size q = nq_batch_size (qx_queue x)"
    unfolding qx_sim_def by blast
  have full: "NBQ_full (NBQ_append v q) = NBQ_full (NBQ_append v (qx_queue x))" for v
    using s(6,7) by (simp add: NBQ_full_def NBQ_append_def)
  have cont: "NBQ_contents q = qx_contents x" using s(5,6) by (simp add: NBQ_contents_def qx_contents_def)
  show ?thesis
  proof (cases "qx_producer x")
    case (Stored raw)
    let ?x = "x\<lparr>qx_queue := NBQ_moveTail raw (qx_queue x), qx_producer := ProducerReady,
      qx_dangling := qx_dangling x + (if NBQ_notifyTail (qx_queue x) = None then 1 else 0)\<rparr>"
    have "qx_sim q0 calls ?x"
      by (rule qx_simI [OF s(1), where ops' = "[]" and q' = q, OF _ s(2) _ _ notify_rep [OF s(4) Stored]])
        (use s in simp_all)
    then show ?thesis by (simp add: producer_access_def Stored)
  next
    case ProducerReady
    show ?thesis
    proof (cases "qx_calls x")
      case Nil
      with assms ProducerReady show ?thesis by (simp add: producer_access_def)
    next
      case (Cons call cs)
      show ?thesis
      proof (cases call)
        case (CallPush v)
        let ?x = "x\<lparr>qx_queue := NBQ_append v (qx_queue x)\<rparr>"
        from nbq.push_law [OF s(2), of v] obtain q' where q': "NBQ_push v q = Some q'" "NBQ_inv q'" by blast
        note b = NBQ_push_batch [OF s(2) q'(1)]
        show ?thesis
        proof (cases "NBQ_full (NBQ_append v (qx_queue x))")
          case True
          have "nq_producer_batch (qx_queue ?x) \<noteq> []" by (simp add: NBQ_append_def)
          from publish_rep [OF append_rep [OF s(4), of v] _ this, of cs] ProducerReady obtain x' where x':
            "publish_call (NBQ_append v (qx_queue x)) cs x = Some x'"
            "qx_rep x' (ns @ [nq_producer_batch (qx_queue ?x)])" "qx_visible x' = qx_contents ?x"
            "qx_calls x' = cs" "qx_out x' = qx_out x" "nq_producer_batch (qx_queue x') = []"
            "nq_batch_size (qx_queue x') = nq_batch_size (qx_queue x)"
            by (auto simp: publish_call_queue NBQ_append_def)
          have "qx_contents ?x = qx_contents x @ [v]" by (simp add: qx_contents_def) (simp add: NBQ_append_def)
          then have "qx_sim q0 calls x'"
            using x' b full True s(3,7) cont Cons CallPush
            by (intro qx_simI [OF s(1), where ops' = "[Push v]" and q' = q', OF _ q'(2) _ _ x'(2)])
              (simp_all add: q'(1))
          with x'(1) True show ?thesis by (simp add: producer_access_def ProducerReady Cons CallPush Let_def)
        next
          case False
          have "qx_sim q0 calls (?x\<lparr>qx_calls := cs\<rparr>)"
            using b full False s(3,5,6,7) Cons CallPush
            by (intro qx_simI [OF s(1), where ops' = "[Push v]" and q' = q', OF _ q'(2)])
              (use append_rep [OF s(4), of v] calls_rep in
                \<open>auto simp: q'(1) NBQ_append_def qx_visible_def qx_first_def split: queue_consumer_pc.splits\<close>)
          with False show ?thesis by (simp add: producer_access_def ProducerReady Cons CallPush Let_def)
        qed
      next
        case CallFlush
        from nbq.flush_law [OF s(2)] obtain q' where q': "NBQ_flush q = Some q'" "NBQ_inv q'"
          "NBQ_published q' = NBQ_contents q" by blast
        note b = NBQ_flush_batch [OF q'(1)]
        show ?thesis
        proof (cases "nq_producer_batch (qx_queue x) = []")
          case True
          have "qx_sim q0 calls (x\<lparr>qx_calls := cs\<rparr>)"
            by (rule qx_simI [OF s(1), where ops' = "[Flush]" and q' = q', OF _ q'(2) _ _ s(4) [folded calls_rep [of cs x]]])
              (use b q'(3) True s cont Cons CallFlush in \<open>simp_all add: q'(1) qx_contents_def\<close>)
          with True show ?thesis by (simp add: producer_access_def ProducerReady Cons CallFlush)
        next
          case False
          from publish_rep [OF s(4) ProducerReady False, of cs] obtain x' where x':
            "publish_call (qx_queue x) cs x = Some x'"
            "qx_rep x' (ns @ [nq_producer_batch (qx_queue x)])" "qx_visible x' = qx_contents x"
            "qx_calls x' = cs" "qx_out x' = qx_out x" "nq_producer_batch (qx_queue x') = []"
            "nq_batch_size (qx_queue x') = nq_batch_size (qx_queue x)" by blast
          then have "qx_sim q0 calls x'"
            using b q'(3) s(3,7) cont Cons CallFlush
            by (intro qx_simI [OF s(1), where ops' = "[Flush]" and q' = q', OF _ q'(2) _ _ x'(2)])
              (simp_all add: q'(1))
          with x'(1) False show ?thesis by (simp add: producer_access_def ProducerReady Cons CallFlush)
        qed
      qed
    qed
  qed
qed

lemma consumer_calls:
  "consumer_access x = Some x' \<Longrightarrow> qx_calls x' = qx_calls x \<and>
     nq_producer_batch (qx_queue x') = nq_producer_batch (qx_queue x) \<and>
     nq_batch_size (qx_queue x') = nq_batch_size (qx_queue x)"
  by (auto simp: consumer_access_def NBQ_loadNext_def NBQ_swapItems_def NBQ_freeHead_def NBQ_deliver_def
      simp del: map_of_eq_Some_iff split: queue_consumer_pc.splits if_splits option.splits)

lemma load_visible:
  assumes "qx_rep x ns" "qx_rep x' ns" "nq_consumer_index (qx_queue x) \<ge> length (nq_consumer_batch (qx_queue x))"
    "consumer_access x = Some x'" "qx_consumer x = ConsumerReady"
  shows "qx_visible x' = qx_visible x"
proof -
  have "nq_consumer_batch (qx_queue x') = []"
    using assms(3-5) by (auto simp: consumer_access_def NBQ_loadNext_def simp del: map_of_eq_Some_iff
        split: option.splits)
  then show ?thesis using qx_rep_visible [OF assms(1)] qx_rep_visible [OF assms(2)] assms(3) by simp
qed

lemma consumer_sim:
  assumes "qx_sim q0 calls x"
  shows "\<exists>x'. consumer_access x = Some x' \<and> qx_sim q0 calls x'"
proof -
  from assms obtain ops q ns where s: "queue_run NBQ_push NBQ_flush NBQ_pop q0 ops = Some (qx_out x, q)"
    "NBQ_inv q" "calls_of ops @ qx_calls x = calls" "qx_rep x ns" "NBQ_published q = qx_visible x"
    "nq_producer_batch q = nq_producer_batch (qx_queue x)" "nq_batch_size q = nq_batch_size (qx_queue x)"
    unfolding qx_sim_def by blast
  have stutter: "qx_sim q0 calls x'"
    if "consumer_access x = Some x'" "qx_rep x' ms" "qx_out x' = qx_out x" "qx_visible x' = qx_visible x" for x' ms
    by (rule qx_simI [OF s(1), where ops' = "[]" and q' = q, OF _ s(2) _ _ that(2)])
      (use that s consumer_calls [OF that(1)] in simp_all)
  show ?thesis
  proof (cases "qx_consumer x")
    case (Loaded c)
    from swap_rep [OF s(4) Loaded] stutter show ?thesis by blast
  next
    case (Swapped c)
    from free_rep [OF s(4) Swapped] stutter show ?thesis by blast
  next
    case ConsumerReady
    show ?thesis
    proof (cases "nq_consumer_index (qx_queue x) \<ge> length (nq_consumer_batch (qx_queue x))")
      case True
      from load_rep [OF s(4) ConsumerReady True] obtain x' where
        x': "consumer_access x = Some x'" "qx_rep x' ns" "qx_out x' = qx_out x" by blast
      from stutter [OF this load_visible [OF s(4) x'(2) True x'(1) ConsumerReady]] x'(1) show ?thesis by blast
    next
      case False
      from deliver_rep [OF s(4) ConsumerReady] False obtain x' v where x':
        "consumer_access x = Some x'" "qx_rep x' ns" "qx_out x' = qx_out x @ [v]" "qx_visible x = v # qx_visible x'"
        by auto
      from nbq.take_some [OF s(2)] s(5) x'(4) obtain q' where q': "NBQ_tryPop q = Some (Some v, q')" "NBQ_inv q'"
        "NBQ_published q' = qx_visible x'" by auto
      have "qx_sim q0 calls x'"
        by (rule qx_simI [OF s(1), where ops' = "[Take]" and q' = q', OF _ q'(2) _ _ x'(2)])
          (use x' q' s consumer_calls [OF x'(1)] NBQ_tryPop_batch [OF q'(1)] in \<open>simp_all add: NBQ_pop_same\<close>)
      with x'(1) show ?thesis by blast
    qed
  qed
qed

lemma qx_run_sim:
  "qx_sim q0 calls x \<Longrightarrow> \<exists>x'. qx_run x sched = Some x' \<and> qx_sim q0 calls x'"
proof (induction sched arbitrary: x)
  case (Cons th sched)
  then show ?case
    using producer_sim [OF Cons.prems] consumer_sim [OF Cons.prems] by (cases th) auto
qed simp

lemma qx_start_sim:
  assumes "NBQ_new batch_size = Inr q"
  shows "qx_sim q calls (qx_start q calls)"
proof -
  have rep: "qx_rep (qx_start q calls) []"
    using assms by (auto simp: qx_rep_def qx_start_def qx_first_def qx_last_def NBQ_new_def split: if_splits)
  note new = NBQ_new_correct [OF assms]
  have "qx_visible (qx_start q calls) = []"
    using qx_rep_visible [OF rep] assms by (auto simp: qx_start_def NBQ_new_def split: if_splits)
  then show ?thesis
    unfolding qx_sim_def using rep new
    by (intro exI [of _ "[]"] exI [of _ q] exI) (auto simp: qx_start_def)
qed

section \<open>Properties\<close>

text \<open>
  C5: The queue is FIFO and loses nothing under every interleaving of the single accesses to its
  nodes. Whatever calls the producer makes and however the accesses of both threads interleave,
  no store, load, swap or \<^verbatim>\<open>delete\<close> touches a freed node; what the consumer has received, what is in
  the queue and what the producer has still to push are, in this order, what the producer's calls
  push; whole operations in a suitable order, with the producer's calls in theirs, give the
  consumer the same elements and leave the same ones in the queue; and a \<^verbatim>\<open>notify_one\<close> can find
  its node gone only when the consumer has already made the very batch of that flush its head.
\<close>

theorem NBQ_fifo:
  assumes "NBQ_new batch_size = Inr q"
  shows "\<exists>x ops q'. qx_run (qx_start q calls) sched = Some x \<and>
           qx_out x @ qx_contents x @ call_items (qx_calls x) = call_items calls \<and>
           queue_run NBQ_push NBQ_flush NBQ_pop q ops = Some (qx_out x, q') \<and>
           calls_of ops @ qx_calls x = calls \<and> NBQ_contents q' = qx_contents x \<and>
           (\<forall>raw. qx_producer x = Stored raw \<and> NBQ_notifyTail (qx_queue x) = None \<longrightarrow>
              nq_head (qx_queue x) = raw)"
proof -
  from qx_run_sim [OF qx_start_sim [OF assms]] obtain x where
    x: "qx_run (qx_start q calls) sched = Some x" "qx_sim q calls x" by blast
  from x(2) obtain ops q' ns where s: "queue_run NBQ_push NBQ_flush NBQ_pop q ops = Some (qx_out x, q')"
    "calls_of ops @ qx_calls x = calls" "qx_rep x ns" "NBQ_published q' = qx_visible x"
    "nq_producer_batch q' = nq_producer_batch (qx_queue x)" unfolding qx_sim_def by blast
  have c: "NBQ_contents q' = qx_contents x" using s(4,5) by (simp add: NBQ_contents_def qx_contents_def)
  from nbq_blocking.run_fifo [of q ops] NBQ_new_correct [OF assms] s(1)
  have "qx_out x @ NBQ_contents q' = pushed ops" by auto
  then have "qx_out x @ qx_contents x @ call_items (qx_calls x) = call_items calls"
    using c arg_cong [OF s(2), of call_items] by (simp flip: append_assoc)
  moreover have "nq_head (qx_queue x) = raw"
    if "qx_producer x = Stored raw" "NBQ_notifyTail (qx_queue x) = None" for raw
    using s(3) that by (auto simp: qx_rep_def NBQ_notifyTail_def Let_def split: if_splits)
  ultimately show ?thesis using x(1) s(1,2) c by blast
qed

definition demo_queue_calls :: "nat queue_call list" where
  "demo_queue_calls = [CallPush 10, CallPush 20, CallPush 30, CallFlush, CallPush 40]"

text \<open>The consumer loads between the store and the notification of the first batch.\<close>

definition demo_queue_schedule :: "queue_thread list" where
  "demo_queue_schedule = [Consumer, Producer, Producer, Consumer, Producer, Consumer, Producer, Consumer,
     Producer, Consumer, Consumer, Producer, Consumer]"

theorem NBQ_fifo_witness:
  "NBQ_new 2 = Inr demo_queue \<and>
   (\<exists>x. qx_run (qx_start demo_queue demo_queue_calls) demo_queue_schedule = Some x \<and>
      qx_out x = [10, 20] \<and> qx_contents x @ call_items (qx_calls x) = [30, 40])"
proof -
  from NBQ_fifo [OF demo_queue_new, of demo_queue_calls demo_queue_schedule] obtain x where
    x: "qx_run (qx_start demo_queue demo_queue_calls) demo_queue_schedule = Some x"
    "qx_out x @ qx_contents x @ call_items (qx_calls x) = call_items demo_queue_calls" by blast
  have "map_option qx_out (qx_run (qx_start demo_queue demo_queue_calls) demo_queue_schedule) = Some [10, 20]"
    by code_simp
  with x demo_queue_new show ?thesis by (auto simp: demo_queue_calls_def)
qed

text \<open>One flush and one acquisition, step by step.\<close>

lemma producer_access_stored:
  assumes "producer_access x = Some x1" "qx_producer x = ProducerReady" "qx_producer x1 = Stored raw"
    and "qx_rep x ns"
  shows "nq_head (qx_queue x1) = nq_head (qx_queue x) \<and> nq_tail (qx_queue x1) = nq_tail (qx_queue x) \<and>
    next_of (nq_heap (qx_queue x1)) (nq_tail (qx_queue x)) = Some raw \<and> nq_tail (qx_queue x) < raw \<and>
    map_of (nq_heap (qx_queue x1)) raw \<noteq> None \<and>
    nq_consumer_batch (qx_queue x1) = nq_consumer_batch (qx_queue x) \<and>
    nq_consumer_index (qx_queue x1) = nq_consumer_index (qx_queue x) \<and>
    qx_consumer x1 = qx_consumer x \<and> qx_dangling x1 = qx_dangling x"
proof -
  have "nq_tail (qx_queue x) < nq_fresh (qx_queue x)"
    using assms(2,4) by (simp add: qx_rep_def qx_last_def Let_def)
  with assms(1-3) show ?thesis
    by (auto simp: producer_access_def publish_call_def NBQ_storeNode_def NBQ_append_def Let_def
        simp del: map_of_eq_Some_iff split: list.splits queue_call.splits if_splits option.splits)
qed

lemma acquire_accesses:
  assumes "qx_consumer x = ConsumerReady"
    "nq_consumer_index (qx_queue x) \<ge> length (nq_consumer_batch (qx_queue x))"
    "next_of (nq_heap (qx_queue x)) (nq_head (qx_queue x)) = Some c" "nq_head (qx_queue x) \<noteq> c"
    "map_of (nq_heap (qx_queue x)) c \<noteq> None"
  shows "\<exists>y. qx_run x [Consumer, Consumer, Consumer] = Some y \<and>
    map_of (nq_heap (qx_queue y)) (nq_head (qx_queue x)) = None \<and>
    nq_tail (qx_queue y) = nq_tail (qx_queue x) \<and> qx_producer y = qx_producer x \<and>
    qx_dangling y = qx_dangling x"
proof -
  from assms(3,5) obtain nd nd' where
    nd: "map_of (nq_heap (qx_queue x)) (nq_head (qx_queue x)) = Some nd" "bn_next nd = Some c"
      "map_of (nq_heap (qx_queue x)) c = Some nd'"
    by (auto simp: bind_eq_Some_conv simp del: map_of_eq_Some_iff)
  with assms(1,2,4) show ?thesis
    by (simp add: consumer_access_def NBQ_loadNext_def NBQ_swapItems_def NBQ_freeHead_def
        del: map_of_eq_Some_iff)
qed

text \<open>
  \<^verbatim>\<open>flush\<close> can notify through a deleted node. Whenever the consumer has taken everything that
  was published and the producer is about to publish a batch, by a flush or by the push that
  fills the batch, there is an interleaving in which the consumer acquires the batch right after the
  store, deletes the node that is still the producer's \<^verbatim>\<open>tail_\<close>, and \<^verbatim>\<open>notify_one\<close> is then called
  on a member of it. If the producer gets to its notification first, the node is still there.
\<close>

theorem NBQ_notify_freed:
  assumes "NBQ_new batch_size = Inr q" "qx_run (qx_start q calls) sched = Some x"
    and "qx_producer x = ProducerReady" "qx_consumer x = ConsumerReady" "qx_visible x = []"
    and "producer_access x = Some x1" "qx_producer x1 = Stored raw"
  shows "\<exists>y z. qx_run x [Producer, Consumer, Consumer, Consumer, Producer] = Some y \<and>
           qx_dangling y = qx_dangling x + 1 \<and>
           qx_run x [Producer, Producer] = Some z \<and> qx_dangling z = qx_dangling x"
proof -
  let ?q = "qx_queue x"
  from qx_run_sim [OF qx_start_sim [OF assms(1)], of calls sched] assms(2)
  obtain ns where rep: "qx_rep x ns" by (auto simp: qx_sim_def)
  have empty: "nq_consumer_index ?q \<ge> length (nq_consumer_batch ?q)" "concat ns = []"
    using qx_rep_visible [OF rep] assms(5) by simp_all
  have "chain (nq_heap ?q) (nq_head ?q) ns (nq_tail ?q)"
    using rep assms(3,4) by (simp add: qx_rep_def qx_first_def qx_last_def Let_def)
  then have ht: "nq_head ?q = nq_tail ?q"
    using empty(2) by (cases ns) (auto simp del: map_of_eq_Some_iff)
  note x1 = producer_access_stored [OF assms(6,3,7) rep]
  from acquire_accesses [of x1 raw] x1 assms(4) empty(1) ht obtain y where
    y: "qx_run x1 [Consumer, Consumer, Consumer] = Some y" "map_of (nq_heap (qx_queue y)) (nq_tail ?q) = None"
    "nq_tail (qx_queue y) = nq_tail ?q" "qx_producer y = Stored raw" "qx_dangling y = qx_dangling x"
    using assms(7) by auto
  have "qx_run x [Producer, Consumer, Consumer, Consumer, Producer] = producer_access y"
    using y(1) assms(6) by (auto simp: bind_eq_Some_conv)
  moreover have "qx_run x [Producer, Producer] = producer_access x1" using assms(6) by simp
  moreover have "NBQ_notifyTail (qx_queue y) = None" using y(2,3) by (simp add: NBQ_notifyTail_def)
  moreover have "NBQ_notifyTail (qx_queue x1) \<noteq> None" using x1 by (auto simp: NBQ_notifyTail_def bind_eq_Some_conv)
  ultimately show ?thesis using y(4,5) assms(7) x1 by (simp add: producer_access_def)
qed

definition demo_exec :: "nat queue_exec" where
  "demo_exec = (case qx_run (qx_start demo_queue [CallPush 10, CallFlush]) [Producer] of Some x \<Rightarrow> x
     | None \<Rightarrow> undefined)"

theorem NBQ_notify_freed_witness:
  "qx_run (qx_start demo_queue [CallPush 10, CallFlush]) [Producer] = Some demo_exec \<and>
   (\<exists>y z. qx_run demo_exec [Producer, Consumer, Consumer, Consumer, Producer] = Some y \<and> qx_dangling y = 1 \<and>
      qx_run demo_exec [Producer, Producer] = Some z \<and> qx_dangling z = 0)"
proof -
  have run: "qx_run (qx_start demo_queue [CallPush 10, CallFlush]) [Producer] = Some demo_exec"
    by (simp add: demo_exec_def producer_access_def qx_start_def NBQ_full_def NBQ_append_def demo_queue_def NBQ_new_def)
  have c: "qx_producer demo_exec = ProducerReady" "qx_consumer demo_exec = ConsumerReady"
    "qx_visible demo_exec = []" "qx_dangling demo_exec = 0" by code_simp+
  have "map_option qx_producer (producer_access demo_exec) = Some (Stored 1)" by code_simp
  then obtain x1 where "producer_access demo_exec = Some x1" "qx_producer x1 = Stored 1" by auto
  from NBQ_notify_freed [OF demo_queue_new run c(1-3) this] run c(4) show ?thesis by simp
qed

end
