(* ===== verification/Spec2Isabelle.thy ===== *)
theory Spec2Isabelle
  imports OrderGatewayClient OrderExecutionBridge IntegratedBacktest JsonParser EventProcessors ShardedProcessor
    ArgsParser ResultPrinter Application FeatherReader FeatherRunners SourceRows
    GatewaySession PythonBindings BasicTypes FeedBenchmark QueueAccesses
begin

text \<open>
  A verification of the backtester of this repository: the C++20 code under \<^verbatim>\<open>src/\<close> (paths below are
  relative to it) that replays recorded market data into limit order books, feeds trading engines
  and simulates the execution of their orders.

  \<^bold>\<open>The program.\<close> Files of recorded events are parsed line by line, one thread per file, merged in
  order of time by one heap or by a tree of four-way heaps, and handed to a processor, which keeps
  the order books and prints reports. The same events drive the backtest: an adapter turns them
  into changes of the historical books and into messages, a publisher delivers the messages to
  the subscribed engines, engines send orders through a gateway, and a bridge matches the accepted
  orders against what each engine can see of the historical books. Threads talk through
  single-producer single-consumer queues only.

  \<^bold>\<open>Common modelling.\<close> Theory \<open>Prelude\<close>: unsigned integers are words (\<open>u64\<close>, \<open>u32\<close>), so \<open>+\<close> wraps as in the
  code; hash maps are association lists with distinct keys, whose order is never relied on;
  exceptions are values of \<open>exn\<close>, a call that may throw returns a sum, and one that may also fault
  returns an \<open>outcome\<close> (theory \<open>Outcome\<close>: an exception, undefined behaviour or a thread that dies, or a
  value). A callback is a function of its argument and of a state of the code it belongs to, which
  may throw (\<open>callback\<close>, with \<open>call_all\<close> for a loop of calls that an exception leaves). Prices are signed 64-bit integers (\<open>Domain\<close>). Ordered maps are sorted lists (\<open>OrderedMap\<close>), with the
  locale \<open>key_order\<close> that the bid and the ask side both interpret. The locales \<open>guarded_machine\<close> and
  \<open>budgeted_machine\<close> hold the induction over event streams that every book interprets: an invariant kept while
  a guard holds, and a budget of volume that implies the guard. Loops that may not end are
  \<open>partial_function (option)\<close>; for each of them a theorem says that it returns. No fuel is used.

  \<^bold>\<open>Books.\<close> \<open>LimitOrderBook\<close> (\<^verbatim>\<open>book/LimitOrderBook.cpp\<close>) and \<open>BookManager\<close> (\<^verbatim>\<open>book/BookManager.cpp\<close>): every event
  handler, the diagnostics and the snapshots. The book refines a map from order ids to resting
  orders and its levels carry the exact sums, as long as the added volume fits in 64 bits; one
  theorem shows what happens when it does not. The manager refines the market as a whole: an
  order rests in at most one book and the index says in which. \<open>HistoricalLOB\<close> (\<^verbatim>\<open>lob/HistoricalLOB.cpp\<close>,
  \<^verbatim>\<open>lob/HistoricalLobStore.cpp\<close>): the books of the backtest, their refinement, the isolation of
  instruments, and agreement with \<open>LimitOrderBook\<close>. \<open>BookReports\<close> and \<open>TextFormat\<close>: the text of prices, events,
  books and digests; the \<^verbatim>\<open>long double\<close> division of \<^verbatim>\<open>formatPrice\<close> is an argument.

  \<^bold>\<open>Queue.\<close> \<open>NonBlockingQueue\<close> (\<^verbatim>\<open>concurrency/NonBlockingQueue.hpp\<close>): the linked batches as an explicit heap with
  addresses, so that a read of a freed node is a fault of the model. In every order of whole operations
  nothing faults, the consumer receives what was pushed in order, and a flush makes
  everything available. The locale \<open>spsc_queue\<close> is the contract the other components use. \<open>QueueAccesses\<close>
  takes the operations apart into their accesses to shared nodes (the release store and the
  notification of a flush; the load, the swap and the \<^verbatim>\<open>delete\<close> of an acquisition) and shows for every
  interleaving of these that no store, load, swap or \<^verbatim>\<open>delete\<close> touches a freed node and that the results
  are those of an order of whole operations. The one access that may find its node deleted is
  \<^verbatim>\<open>tail_->next.notify_one()\<close>; the theory shows when, and that it does.

  \<^bold>\<open>Execution.\<close> \<open>EngineView\<close> (\<^verbatim>\<open>lob/EngineView.cpp\<close>, \<^verbatim>\<open>lob/SimulatedLOB.cpp\<close>): an engine sees the historical book less
  what it consumed, plus its own orders. \<open>FillSimulator\<close> (\<^verbatim>\<open>lob/FillSimulator.cpp\<close>): the matching loop returns and is
  one sweep from the best price; fills conserve size and liquidity; engines are isolated.
  \<open>OrderMessage\<close>, \<open>OrderGateway\<close>, \<open>OrderGatewayClient\<close> (\<^verbatim>\<open>gateway/\<close>): messages, channels, validation, the state machine of
  an order, fills, the client with its callbacks. \<open>OrderExecutionBridge\<close> (\<^verbatim>\<open>backtest/OrderExecutionBridge.cpp\<close>):
  requests accepted by the gateway become simulated orders; in every reachable state the mappings
  between both are exact, and batches with one request per order keep both sides in agreement.

  \<^bold>\<open>Feed.\<close> \<open>MarketDataFeed\<close> (\<^verbatim>\<open>messaging/\<close>): numbering, subscriptions, delivery in order and without loss, the gap
  detector. \<open>IntegratedBacktest\<close> (\<^verbatim>\<open>backtest/MarketDataEventAdapter.cpp\<close>, \<^verbatim>\<open>IntegratedBacktestEngine.cpp\<close>): which events
  are accepted, the messages they cause, and a whole run: it ends, delivers exactly those messages,
  and its statistics are exact. Callbacks that throw end a run early, and nothing is lost or seen twice.

  \<^bold>\<open>Reading and merging.\<close> \<open>JsonParser\<close> (\<^verbatim>\<open>parsing/JsonParser.cpp\<close>): the numbers, timestamps and rows; the JSON library
  is the record \<open>simdjson\<close> of the calls made, an argument. Prices that were printed are read back.
  \<open>SourceRows\<close>: the rows of the recorded data, with timestamps in digits or in ISO form, are read as the events they describe, whatever the library, as long
  as it returns the fields of the line. \<open>EventMerge\<close> and \<open>MergeNetwork\<close> (\<^verbatim>\<open>runners/HardRunnerSupport.cpp\<close>): the heap and the threads as programs
  that ask for one queue operation at a time, under any schedule; an invariant over what each
  thread will still write gives absence of deadlock and termination under fair schedules, with
  the number of rounds bounded by a measure of the work that is left. \<open>Runners\<close>
  (\<^verbatim>\<open>runners/InputFileDiscovery.cpp\<close>, \<^verbatim>\<open>FlatMergeRunner.cpp\<close>, \<^verbatim>\<open>HierarchicalMergeRunner.cpp\<close>, \<^verbatim>\<open>StandardRunner.cpp\<close>): both ways of
  merging deliver all events of all files sorted by time, file and line. \<open>FeatherReader\<close>
  (\<^verbatim>\<open>io/FeatherEventReader.cpp\<close>, compiled with \<^verbatim>\<open>ENABLE_ARROW\<close>): the same for columnar files; the Arrow
  library is an argument, the batches it returns or the call that failed. The columns that the converter
  of the repository (\<^verbatim>\<open>../scripts/convert_to_feather.py\<close>) writes for the same rows are read as the same events,
  numbered through all batches. \<open>FeatherRunners\<close> (\<^verbatim>\<open>runners/FeatherHardRunnerSupport.cpp\<close>): threads
  that read Feather files in place of lines, in the same networks; converting the input changes
  neither the events nor the result of a run.

  \<^bold>\<open>Processors.\<close> \<open>EventProcessors\<close> (\<^verbatim>\<open>processing/AsyncSnapshotWriter.cpp\<close>, \<^verbatim>\<open>LobMarketDataEventProcessor.cpp\<close>,
  \<^verbatim>\<open>LoggingMarketDataEventProcessor.cpp\<close>): the snapshot writer prints what it accepted, once and in order, in both
  modes. \<open>ShardedProcessor\<close> (\<^verbatim>\<open>processing/ShardedLobMarketDataEventProcessor.cpp\<close>): the router, the workers and their queues.
  Under any interleaving it is equivalent to the sequential processor when cancellations name the
  instrument of their order; another theorem shows the difference when they do not.

  \<^bold>\<open>Application.\<close> \<open>ArgsParser\<close> (\<^verbatim>\<open>app/\<close>): what the parser accepts is well formed and every well-formed configuration
  has a command line. \<open>ResultPrinter\<close> (\<^verbatim>\<open>runners/ResultPrinter.cpp\<close>): the reports. \<open>Application\<close>
  (\<^verbatim>\<open>runners/BenchmarkRunner.cpp\<close>, \<^verbatim>\<open>main.cpp\<close>): the whole program as a function of its arguments, the files and the
  schedules; the benchmark reports the same digest for both runners and any number of workers when
  cancellations name the instrument of their order, and
  a line that does not parse is an error message in standard mode and the end of the process in
  the others.

  \<^bold>\<open>Python.\<close> \<open>GatewaySession\<close> puts client and server together: what other engines do has no influence on the
  replies to an engine that owns its channel. \<open>PythonBindings\<close> (\<^verbatim>\<open>../bindings/python/backtester_module.cpp\<close>): the wrappers
  around the classes, the constructors and the names of the enumerations, after the conversion of
  arguments by pybind11, the properties of messages (locale \<open>has_order_fields\<close>), and callables that may raise.
  The calls of a strategy come back to its callbacks as one reply each, in order.

  \<^bold>\<open>Bounds.\<close> Hypotheses of the form \<open>\<dots> < two64\<close> say that a counter or the volume added to a book stays within
  64 bits; where the code does not check this, the theorems state it. Times, the wall clock and the
  progress output of verbose runs are left out. The components above the queue let one thread run
  one whole operation on a queue per step; \<open>QueueAccesses\<close> justifies this for a single producer and a
  single consumer, except for the notification through a deleted node, which is undefined in C++ and whose
  effect no theorem covers. Allocation succeeds: \<^verbatim>\<open>std::bad_alloc\<close> and \<^verbatim>\<open>std::length_error\<close> from \<^verbatim>\<open>reserve\<close> or
  from a vector of a huge size (\<open>NBQ_new\<close>, \<open>SH_new\<close>, \<open>feed_bench_start\<close>) are not modelled. Waiting, on a condition
  variable (\<open>SW_workerStep\<close>), on an atomic (\<open>WK_drainLoop\<close>, \<open>NBQ_pop\<close>) or in a join, is a step that changes nothing
  until its condition holds; the theorems therefore hold for the notifications of the code and for any
  spurious wake-up, and do not show that a notification is needed.

  \<^bold>\<open>Benchmark of the feed.\<close> \<open>FeedBenchmark\<close> (\<^verbatim>\<open>../benchmarks/market_data_feed_benchmark.cpp\<close>): its arguments, its threads under any
  interleaving with a clock, and its check. Under fair schedules it ends within a number of rounds that is
  linear in the messages, with the check passed unless a consumer gave up; another theorem shows that one
  may give up although every message is waiting for it.

  \<^bold>\<open>Vocabulary.\<close> \<open>BasicTypes\<close> (\<^verbatim>\<open>common/BasicTypes.hpp\<close>): identifiers of a namespace that the rest does not use, and
  when the hash of a security on a market tells two keys apart.

  \<^bold>\<open>Not modelled.\<close> The latency benchmark of the gateway, tests and scripts (of the converter, the columns it writes are); the interpreter lock and the conversion of
  arguments by pybind11. The file system, simdjson, Arrow and the division of \<^verbatim>\<open>long double\<close>s are
  arguments of the model. \<open>Runners\<close> and \<open>Application\<close> describe the default build, which rejects Feather
  files; \<open>FeatherRunners\<close> describes the merge runners of a build with Arrow, without the command line around them.
\<close>

end
